(* ===== verification/Flash_Prelude.thy ===== *)
theory Flash_Prelude
  imports Main "HOL-Library.Word" "HOL-Library.Multiset"
begin

text \<open>
  Shared vocabulary of the development: bytes and byte-addressed memories, 64-bit
  wrap-around, little-endian fields, the even splitting of an index range over worker
  threads, and the interleavings of several threads' actions.
  Two interfaces live here because several components use them: \<open>work_split\<close> (what a
  splitting of work over threads promises) and \<open>indep_actions\<close> (actions on a store that
  commute when they touch different places, so that every schedule gives one result).
\<close>

named_theorems layout_simps "sizes and lengths of the structures that are laid out in bytes"

type_synonym byte = "8 word"
type_synonym mem = "nat \<Rightarrow> byte"

abbreviation PAGE_SIZE :: nat where
  "PAGE_SIZE \<equiv> 4096"

text \<open>Unsigned 64-bit arithmetic on natural numbers: the C code's \<open>NvU64\<close>/\<open>uint64_t\<close> sums.\<close>

definition u64 :: "nat \<Rightarrow> nat" where
  "u64 n = n mod 2 ^ 64"

text \<open>Copying a byte string into a memory, and reading one back.\<close>

definition write_mem :: "mem \<Rightarrow> nat \<Rightarrow> byte list \<Rightarrow> mem" where
  "write_mem m p bs = (\<lambda>a. if p \<le> a \<and> a < p + length bs then bs ! (a - p) else m a)"

definition read_mem :: "mem \<Rightarrow> nat \<Rightarrow> nat \<Rightarrow> byte list" where
  "read_mem m p n = map (\<lambda>k. m (p + k)) [0..<n]"

text \<open>Little-endian encoding of an unsigned field of \<open>n\<close> bytes, and its decoding.\<close>

fun le_bytes :: "nat \<Rightarrow> nat \<Rightarrow> byte list" where
  "le_bytes 0 v = []"
| "le_bytes (Suc n) v = word_of_nat (v mod 256) # le_bytes n (v div 256)"

fun le_nat :: "byte list \<Rightarrow> nat" where
  "le_nat [] = 0"
| "le_nat (b # bs) = unat b + 256 * le_nat bs"

text \<open>
  The loop every multi-threaded routine of the code uses to hand out work: \<open>per\<close> items
  per thread, one more for the first \<open>rem\<close> threads, consecutive starting points.
\<close>

fun split_loop :: "nat \<Rightarrow> nat \<Rightarrow> nat \<Rightarrow> nat \<Rightarrow> nat \<Rightarrow> (nat \<times> nat) list" where
  "split_loop per rem i 0 cursor = []"
| "split_loop per rem i (Suc k) cursor =
     (let count = per + (if i < rem then 1 else 0)
      in (cursor, count) # split_loop per rem (Suc i) k (cursor + count))"

definition split_work :: "nat \<Rightarrow> nat \<Rightarrow> (nat \<times> nat) list" where
  "split_work n t = split_loop (n div t) (n mod t) 0 t 0"

text \<open>The runs of several threads: all interleavings of their action lists.\<close>

fun interleave :: "'a list list \<Rightarrow> 'a list set" where
  "interleave [] = {[]}"
| "interleave (xs # xss) = (\<Union>ys \<in> interleave xss. shuffles xs ys)"

lemma concat_map_concat: "concat (map (\<lambda>r. concat (map g (f r))) xs) = concat (map g (concat (map f xs)))"
  by (induction xs) simp_all

text \<open>Any two different actions of a list touch different places.\<close>

definition pairwise_indep :: "('a \<Rightarrow> 'a \<Rightarrow> bool) \<Rightarrow> 'a list \<Rightarrow> bool" where
  "pairwise_indep indep xs \<longleftrightarrow> (\<forall>a \<in> set xs. \<forall>b \<in> set xs. a = b \<or> indep a b)"

subsection \<open>Memories\<close>

lemma write_mem_out: "a < p \<or> p + length bs \<le> a \<Longrightarrow> write_mem m p bs a = m a"
  by (auto simp: write_mem_def)

lemma write_mem_in: "k < length bs \<Longrightarrow> write_mem m p bs (p + k) = bs ! k"
  by (simp add: write_mem_def)

lemma write_mem_Nil [simp]: "write_mem m p [] = m"
  by (rule ext) (auto simp: write_mem_def)

lemma length_read_mem [simp, layout_simps]: "length (read_mem m p n) = n"
  by (simp add: read_mem_def)

lemma nth_read_mem [simp]: "k < n \<Longrightarrow> read_mem m p n ! k = m (p + k)"
  by (simp add: read_mem_def)

lemma read_write_same: "length bs = n \<Longrightarrow> read_mem (write_mem m p bs) p n = bs"
  by (rule nth_equalityI) (auto simp: write_mem_in)

lemma read_write_disjoint:
  "q + n \<le> p \<or> p + length bs \<le> q \<Longrightarrow> read_mem (write_mem m p bs) q n = read_mem m q n"
  by (rule nth_equalityI) (auto simp: write_mem_def)

lemma write_mem_append: "write_mem (write_mem m p xs) (p + length xs) ys = write_mem m p (xs @ ys)"
  by (rule ext) (auto simp: write_mem_def nth_append)

lemma write_mem_commute:
  "p + length xs \<le> q \<or> q + length ys \<le> p \<Longrightarrow>
   write_mem (write_mem m p xs) q ys = write_mem (write_mem m q ys) p xs"
  by (rule ext) (auto simp: write_mem_def)

lemma read_mem_append: "read_mem m p (a + b) = read_mem m p a @ read_mem m (p + a) b"
  by (rule nth_equalityI) (auto simp: nth_append)

lemma read_mem_cong: "(\<And>k. k < n \<Longrightarrow> m (p + k) = m' (q + k)) \<Longrightarrow> read_mem m p n = read_mem m' q n"
  by (rule nth_equalityI) auto

lemma u64_small: "n < 2 ^ 64 \<Longrightarrow> u64 n = n"
  by (simp add: u64_def)

lemma u64_less: "u64 n < 2 ^ 64"
  by (simp add: u64_def)

subsection \<open>Little-endian fields\<close>

lemma length_le_bytes [simp, layout_simps]: "length (le_bytes n v) = n"
  by (induction n arbitrary: v) auto

lemma le_nat_le_bytes: "v < 256 ^ n \<Longrightarrow> le_nat (le_bytes n v) = v"
proof (induction n arbitrary: v)
  case 0
  then show ?case by simp
next
  case (Suc n)
  have "v div 256 < 256 ^ n"
    using Suc.prems by (simp add: less_mult_imp_div_less mult.commute)
  then have "le_nat (le_bytes n (v div 256)) = v div 256"
    by (rule Suc.IH)
  moreover have "unat (word_of_nat (v mod 256) :: byte) = v mod 256"
    by (simp add: unat_of_nat take_bit_eq_mod)
  ultimately show ?case by simp
qed

subsection \<open>Splitting work over threads\<close>

definition slice_idx :: "nat \<times> nat \<Rightarrow> nat list" where
  "slice_idx sc = [fst sc ..< fst sc + snd sc]"

lemma length_split_loop: "length (split_loop per rem i k cur) = k"
  by (induction k arbitrary: i cur) (auto simp: Let_def)

lemma split_loop_cover:
  "rem \<le> i + k \<Longrightarrow>
   concat (map slice_idx (split_loop per rem i k cur)) = [cur ..< cur + k * per + (rem - i)]"
proof (induction k arbitrary: i cur)
  case 0
  then show ?case by simp
next
  case (Suc k)
  define c where "c = per + (if i < rem then 1 else 0)"
  define n where "n = k * per + (rem - Suc i)"
  have IH: "concat (map slice_idx (split_loop per rem (Suc i) k (cur + c))) = [cur + c ..< cur + c + n]"
    using Suc.prems by (subst Suc.IH) (simp_all add: n_def add.assoc)
  have step: "split_loop per rem i (Suc k) cur = (cur, c) # split_loop per rem (Suc i) k (cur + c)"
    by (simp add: Let_def c_def)
  have len: "cur + Suc k * per + (rem - i) = cur + c + n"
    by (auto simp: c_def n_def)
  show ?case
    unfolding step len using upt_add_eq_append [of cur "cur + c" n]
    by (simp add: IH) (simp add: slice_idx_def)
qed

locale work_split =
  fixes slices :: "nat \<Rightarrow> nat \<Rightarrow> (nat \<times> nat) list"
  assumes slices_cover: "0 < t \<Longrightarrow> concat (map slice_idx (slices n t)) = [0..<n]"
    and slices_length: "length (slices n t) = t"
begin

lemma slices_map_concat: "0 < t \<Longrightarrow> concat (map (\<lambda>sc. map f (slice_idx sc)) (slices n t)) = map f [0..<n]"
  using slices_cover [of t n] by (simp add: map_concat [symmetric] o_def)
     (metis (no_types, lifting) map_concat map_map o_def map_eq_conv)

lemma slices_within: "0 < t \<Longrightarrow> sc \<in> set (slices n t) \<Longrightarrow> fst sc + snd sc \<le> n \<or> snd sc = 0"
proof -
  assume t: "0 < t" and sc: "sc \<in> set (slices n t)"
  show ?thesis
  proof (cases "snd sc")
    case (Suc c)
    then have "fst sc + c \<in> set (slice_idx sc)"
      by (simp add: slice_idx_def)
    then have "fst sc + c \<in> set (concat (map slice_idx (slices n t)))"
      using sc by auto
    then show ?thesis using Suc t by (simp add: slices_cover)
  qed simp
qed

end

interpretation even_split: work_split split_work
proof
  show "concat (map slice_idx (split_work n t)) = [0..<n]" if "0 < t" for n t
  proof -
    have "concat (map slice_idx (split_work n t)) = [0..<t * (n div t) + n mod t]"
      using that split_loop_cover [of "n mod t" 0 t "n div t" 0]
      by (simp add: split_work_def less_imp_le)
    then show ?thesis by simp
  qed
  show "length (split_work n t) = t" for n t
    by (simp add: split_work_def length_split_loop)
qed

subsection \<open>Invariants of step relations\<close>

locale step_invariant =
  fixes step :: "'s \<Rightarrow> 's \<Rightarrow> bool" and inv :: "'s \<Rightarrow> bool"
  assumes step_inv: "step s t \<Longrightarrow> inv s \<Longrightarrow> inv t"
begin

lemma steps_inv: "step\<^sup>*\<^sup>* s t \<Longrightarrow> inv s \<Longrightarrow> inv t"
  by (induction rule: rtranclp_induct) (auto intro: step_inv)

end

subsection \<open>Schedules of independent actions\<close>

lemma mset_interleave: "zs \<in> interleave xss \<Longrightarrow> mset zs = mset (concat xss)"
proof (induction xss arbitrary: zs)
  case Nil
  then show ?case by simp
next
  case (Cons xs xss)
  then obtain ys where "ys \<in> interleave xss" "zs \<in> shuffles xs ys"
    by auto
  with Cons.IH show ?case by (simp add: mset_shuffles)
qed

lemma append_in_shuffles: "xs @ ys \<in> shuffles xs ys"
proof (induction xs)
  case Nil
  then show ?case by simp
next
  case (Cons x xs)
  then show ?case by (cases ys) (auto simp: Cons_in_shuffles_iff)
qed

lemma concat_in_interleave: "concat xss \<in> interleave xss"
  by (induction xss) (auto intro: append_in_shuffles)

locale indep_actions =
  fixes run :: "'a \<Rightarrow> 's \<Rightarrow> 's" and indep :: "'a \<Rightarrow> 'a \<Rightarrow> bool"
  assumes indep_commute: "indep a b \<Longrightarrow> run a (run b s) = run b (run a s)"
begin

lemma schedule_perm:
  assumes "pairwise_indep indep xs" and "mset xs = mset ys"
  shows "fold run xs s = fold run ys s"
proof -
  have "fold run xs = fold run ys"
  proof (rule fold_permuted_eq [where P = "\<lambda>_. True" and z = s for s, THEN ext])
    show "mset xs = mset ys" by (rule assms(2))
    fix x y and z :: 's
    assume "x \<in> set xs" "y \<in> set xs"
    with assms(1) have "x = y \<or> indep x y"
      by (auto simp: pairwise_indep_def)
    then show "run x (run y z) = run y (run x z)"
      using indep_commute [of x y z] by blast
  qed auto
  then show ?thesis by simp
qed

lemma schedule_irrelevant:
  assumes "pairwise_indep indep (concat xss)" and "zs \<in> interleave xss"
  shows "fold run zs s = fold run (concat xss) s"
  using schedule_perm [OF assms(1), of zs s] mset_interleave [OF assms(2)] by simp

end

end
