(* ===== verification/Uvm_Model.thy ===== *)
theory Uvm_Model
  imports Flash_Prelude
begin

text \<open>
  The part of the UVM driver's state that live migration works on, and the environment
  it calls. Va spaces, va ranges and va blocks carry the fields the live-migration code
  reads and writes; page masks are predicates on page indices. Everything the driver
  calls outside this repository (allocation, user-memory access, the copy engine, the
  CSL cipher interface, thread creation) is a field of \<open>uvm_env\<close>.
\<close>

section \<open>Data\<close>

datatype nv_status =
    NV_OK
  | NV_WARN_NOTHING_TO_DO
  | NV_ERR_INSUFFICIENT_PERMISSIONS
  | NV_ERR_NO_MEMORY
  | NV_ERR_INVALID_ARGUMENT
  | NV_ERR_INVALID_ADDRESS
  | NV_ERR_INVALID_DEVICE
  | NV_ERR_INVALID_OPERATION
  | NV_ERR_BUFFER_TOO_SMALL
  | NV_ERR_NOT_SUPPORTED
  | NV_ERR_CALLEE nat  \<comment> \<open>a status handed back by called driver code\<close>

type_synonym page_mask = "nat \<Rightarrow> bool"

text \<open>Processor ids: the CPU is 0, GPUs are positive (\<open>UVM_ID_IS_GPU\<close>).\<close>

type_synonym proc_id = nat

abbreviation (input) UVM_ID_CPU :: proc_id where "UVM_ID_CPU \<equiv> 0"

definition UVM_ID_IS_GPU :: "proc_id \<Rightarrow> bool" where
  "UVM_ID_IS_GPU i \<longleftrightarrow> i \<noteq> UVM_ID_CPU"

datatype uvm_prot = UVM_PROT_NONE | UVM_PROT_READ_ONLY | UVM_PROT_READ_WRITE | UVM_PROT_READ_WRITE_ATOMIC

text \<open>The enumeration's numbers; the driver compares and decrements them.\<close>

fun prot_val :: "uvm_prot \<Rightarrow> nat" where
  "prot_val UVM_PROT_NONE = 0"
| "prot_val UVM_PROT_READ_ONLY = 1"
| "prot_val UVM_PROT_READ_WRITE = 2"
| "prot_val UVM_PROT_READ_WRITE_ATOMIC = 3"

instantiation uvm_prot :: linorder
begin

definition less_eq_uvm_prot :: "uvm_prot \<Rightarrow> uvm_prot \<Rightarrow> bool" where
  "less_eq_uvm_prot p q \<longleftrightarrow> prot_val p \<le> prot_val q"

definition less_uvm_prot :: "uvm_prot \<Rightarrow> uvm_prot \<Rightarrow> bool" where
  "less_uvm_prot p q \<longleftrightarrow> prot_val p < prot_val q"

instance
proof
  fix x y z :: uvm_prot
  show "x \<le> y \<Longrightarrow> y \<le> x \<Longrightarrow> x = y"
    by (cases x; cases y) (auto simp: less_eq_uvm_prot_def)
qed (auto simp: less_eq_uvm_prot_def less_uvm_prot_def)

end

record phys_addr =
  pa_aperture :: nat
  pa_address :: nat

text \<open>
  Per-GPU state of a block: residency, the cumulative PTE masks \<open>pte_bits\<close> (indexed by
  \<open>UVM_PTE_BITS_GPU_READ\<close> = 0, \<open>_WRITE\<close> = 1, \<open>_ATOMIC\<close> = 2), and the physical address of
  each page (\<open>uvm_va_block_gpu_phys_page_address\<close> reads it off the block's chunks).
\<close>

record gpu_state =
  gs_resident :: page_mask
  gs_pte_bits :: "nat \<Rightarrow> page_mask"
  gs_phys :: "nat \<Rightarrow> phys_addr"

record va_block =
  vb_start :: nat
  vb_end :: nat                        \<comment> \<open>inclusive\<close>
  vb_resident :: "proc_id list"        \<comment> \<open>the block's residency processor mask, ascending\<close>
  vb_mapped :: "proc_id list"          \<comment> \<open>processors with a mapping in the block\<close>
  vb_cpu_resident :: page_mask
  vb_cpu_write :: page_mask            \<comment> \<open>\<open>cpu.pte_bits[UVM_PTE_BITS_CPU_WRITE]\<close>\<close>
  vb_cpu_data :: "nat \<Rightarrow> nat \<Rightarrow> byte"  \<comment> \<open>page index, offset: the kmapped CPU page\<close>
  vb_gpu_state :: "proc_id \<rightharpoonup> gpu_state"
  vb_dirty :: bool                     \<comment> \<open>\<open>live_migration.dirty\<close>\<close>
  vb_tracking :: bool                  \<comment> \<open>\<open>live_migration.migration_tracking_enabled\<close>\<close>

datatype va_range_type =
    UVM_VA_RANGE_TYPE_MANAGED
  | UVM_VA_RANGE_TYPE_EXTERNAL
  | UVM_VA_RANGE_TYPE_CHANNEL
  | UVM_VA_RANGE_TYPE_SKED_REFLECTED
  | UVM_VA_RANGE_TYPE_SEMAPHORE_POOL

record va_range =
  vr_start :: nat
  vr_end :: nat                        \<comment> \<open>inclusive\<close>
  vr_type :: va_range_type
  vr_blocks :: "va_block list"         \<comment> \<open>the populated blocks, by index\<close>

type_synonym uuid = "byte list"

record uvm_gpu =
  gpu_id :: proc_id
  gpu_uuid :: uuid

record va_space =
  vs_ranges :: "va_range list"         \<comment> \<open>the range tree, in address order\<close>
  vs_tracking_active :: bool           \<comment> \<open>\<open>migration_tracking_active\<close>\<close>
  vs_gpus :: "uvm_gpu list"            \<comment> \<open>registered GPUs, ascending id\<close>

section \<open>Crypto metadata, actions, environment\<close>

record csl_iv =
  iv_bytes :: "byte list"
  iv_fresh :: byte

text \<open>\<open>UVM_LIVE_MIGRATION_PAGE_CRYPTO_META\<close>, a packed struct of 41 bytes.\<close>

record crypto_meta =
  cm_size :: nat
  cm_iv :: "byte list"
  cm_iv_fresh :: byte
  cm_auth_tag :: "byte list"
  cm_key_version :: nat

text \<open>
  What a copy thread does that others can observe: it submits a copy-engine push, waits
  for one, copies bytes to user memory, or fills an entry of the metadata array.
\<close>

datatype action =
    Submitted nat
  | Waited nat
  | CopyOut nat "byte list"
  | SetMeta nat crypto_meta

datatype alloc_site =
    A_page_buf | A_resmap | A_gpu_pages | A_gpu_pages_grow | A_crypto_meta | A_crypto_meta_grow
  | A_bounce | A_plain_buf | A_run_starts | A_run_bytes | A_workers | A_va_snapshot
  | A_k_bases | A_k_sizes | A_cipher_buf | A_meta_buf | A_staging

record uvm_env =
  env_capable :: bool                               \<comment> \<open>\<open>capable(CAP_SYS_ADMIN)\<close>\<close>
  env_cc :: bool                                    \<comment> \<open>\<open>g_uvm_global.conf_computing_enabled\<close>\<close>
  env_alloc :: "alloc_site \<Rightarrow> nat \<Rightarrow> bool"          \<comment> \<open>an allocation of n units succeeds\<close>
  env_copy :: "nat \<Rightarrow> nat \<Rightarrow> bool"                  \<comment> \<open>user range [a, a + n) is accessible\<close>
  env_vidmem :: "nat \<Rightarrow> nat \<Rightarrow> byte"                \<comment> \<open>aperture, address: GPU memory\<close>
  env_dma_alloc :: "nat \<Rightarrow> nat \<Rightarrow> nv_status"        \<comment> \<open>thread, slot: DMA buffer allocation\<close>
  env_push_begin :: "nat \<Rightarrow> nv_status"              \<comment> \<open>by index of the transfer\<close>
  env_push_wait :: "nat \<Rightarrow> nv_status"
  env_staging :: "nat \<Rightarrow> nv_status"                 \<comment> \<open>staging buffer of a plain copy: allocation\<close>
  env_staging_va :: "nat \<Rightarrow> bool"                   \<comment> \<open>its CPU mapping is not NULL\<close>
  env_map_phys :: "nat \<Rightarrow> nv_status"                \<comment> \<open>its GPU mapping\<close>
  env_iv :: "nat \<Rightarrow> csl_iv"                         \<comment> \<open>\<open>nvUvmInterfaceCslIncrementIv\<close>\<close>
  env_key_version :: "nat \<Rightarrow> nat"
  env_ce_encrypt :: "nat \<Rightarrow> csl_iv \<Rightarrow> byte list \<Rightarrow> byte list \<times> byte list"
                                                    \<comment> \<open>the copy engine: ciphertext and tag\<close>
  env_csl_decrypt :: "nat \<Rightarrow> csl_iv \<Rightarrow> byte list \<Rightarrow> byte list \<Rightarrow> nv_status \<times> byte list"
                                                    \<comment> \<open>\<open>nvUvmInterfaceCslDecrypt\<close>\<close>
  env_kthread :: "nat \<Rightarrow> bool"                      \<comment> \<open>\<open>kthread_run\<close> succeeds\<close>
  env_task_mm :: bool                               \<comment> \<open>\<open>get_task_mm(current)\<close> is not NULL\<close>
  env_sched :: "action list list \<Rightarrow> action list"    \<comment> \<open>the schedule of the worker threads\<close>

text \<open>A schedule is some interleaving of what the threads do.\<close>

definition sched_ok :: "uvm_env \<Rightarrow> bool" where
  "sched_ok env \<longleftrightarrow> (\<forall>ass. env_sched env ass \<in> interleave ass)"

text \<open>
  What AES-GCM through the copy engine and CSL promises: the ciphertext is as long as the
  plaintext, and decrypting it under the same key version, IV and tag gives the plaintext.
\<close>

definition csl_ok :: "uvm_env \<Rightarrow> bool" where
  "csl_ok env \<longleftrightarrow>
     (\<forall>kv iv p. length (fst (env_ce_encrypt env kv iv p)) = length p \<and>
       env_csl_decrypt env kv iv (fst (env_ce_encrypt env kv iv p)) (snd (env_ce_encrypt env kv iv p))
         = (NV_OK, p))"

section \<open>Operations the live-migration code uses\<close>

text \<open>\<open>uvm_range_tree_find\<close> / \<open>uvm_va_range_find\<close>: the range holding an address.\<close>

definition uvm_va_range_find :: "va_space \<Rightarrow> nat \<Rightarrow> va_range option" where
  "uvm_va_range_find vs addr = find (\<lambda>r. vr_start r \<le> addr \<and> addr \<le> vr_end r) (vs_ranges vs)"

text \<open>\<open>uvm_for_each_va_range_in\<close>: the ranges that meet \<open>[start, end]\<close>, in address order.\<close>

definition va_ranges_in :: "va_space \<Rightarrow> nat \<Rightarrow> nat \<Rightarrow> va_range list" where
  "va_ranges_in vs start e = filter (\<lambda>r. start \<le> vr_end r \<and> vr_start r \<le> e) (vs_ranges vs)"

text \<open>\<open>uvm_va_block_cpu_page_index\<close>.\<close>

definition page_index :: "va_block \<Rightarrow> nat \<Rightarrow> nat" where
  "page_index vb addr = (addr - vb_start vb) div PAGE_SIZE"

text \<open>Number of pages of a block; \<open>uvm_va_block_region_from_block\<close> is \<open>[0, num_pages)\<close>.\<close>

definition block_num_pages :: "va_block \<Rightarrow> nat" where
  "block_num_pages vb = (vb_end vb - vb_start vb + 1) div PAGE_SIZE"

definition zero_uuid :: uuid where
  "zero_uuid = replicate 16 0"

text \<open>GPU selection of the read ioctls: the first registered GPU, or the one asked for.\<close>

definition resolve_gpu :: "va_space \<Rightarrow> uuid \<Rightarrow> uvm_gpu option" where
  "resolve_gpu vs u =
     (if u = zero_uuid then (case vs_gpus vs of [] \<Rightarrow> None | g # _ \<Rightarrow> Some g)
      else find (\<lambda>g. gpu_uuid g = u) (vs_gpus vs))"

text \<open>The search loop of the read ioctls: the first va space whose range at \<open>base\<close> is managed.\<close>

fun find_va_space :: "va_space list \<Rightarrow> nat \<Rightarrow> nat \<Rightarrow> (nat \<times> va_space) option" where
  "find_va_space [] base i = None"
| "find_va_space (vs # vss) base i =
     (case uvm_va_range_find vs base of
        Some r \<Rightarrow> (if vr_type r = UVM_VA_RANGE_TYPE_MANAGED then Some (i, vs)
                   else find_va_space vss base (Suc i))
      | None \<Rightarrow> find_va_space vss base (Suc i))"

section \<open>Locks\<close>

text \<open>
  The lock operations a handler performs on the global va-space list lock and on the
  read/write locks of the va spaces (numbered by their place in the list), and what they
  leave held. A misuse (unlocking what is not held, taking the list mutex twice, writing
  under readers) has no result.
\<close>

datatype lock_op = GLock | GUnlock | DownRead nat | UpRead nat | DownWrite nat | UpWrite nat

record locks =
  lk_global :: bool
  lk_readers :: "nat \<Rightarrow> nat"
  lk_writer :: "nat \<Rightarrow> bool"

definition no_locks :: locks where
  "no_locks = \<lparr>lk_global = False, lk_readers = (\<lambda>_. 0), lk_writer = (\<lambda>_. False)\<rparr>"

fun lock_op_step :: "lock_op \<Rightarrow> locks \<Rightarrow> locks option" where
  "lock_op_step GLock l = (if lk_global l then None else Some (l\<lparr>lk_global := True\<rparr>))"
| "lock_op_step GUnlock l = (if lk_global l then Some (l\<lparr>lk_global := False\<rparr>) else None)"
| "lock_op_step (DownRead i) l =
     (if lk_writer l i then None
      else Some (l\<lparr>lk_readers := (lk_readers l)(i := Suc (lk_readers l i))\<rparr>))"
| "lock_op_step (UpRead i) l =
     (if lk_readers l i = 0 then None
      else Some (l\<lparr>lk_readers := (lk_readers l)(i := lk_readers l i - 1)\<rparr>))"
| "lock_op_step (DownWrite i) l =
     (if lk_writer l i \<or> lk_readers l i \<noteq> 0 then None
      else Some (l\<lparr>lk_writer := (lk_writer l)(i := True)\<rparr>))"
| "lock_op_step (UpWrite i) l =
     (if lk_writer l i then Some (l\<lparr>lk_writer := (lk_writer l)(i := False)\<rparr>) else None)"

fun lock_run :: "lock_op list \<Rightarrow> locks \<Rightarrow> locks option" where
  "lock_run [] l = Some l"
| "lock_run (x # xs) l = (case lock_op_step x l of None \<Rightarrow> None | Some l' \<Rightarrow> lock_run xs l')"

text \<open>A handler is lock-balanced when it runs from no locks held back to no locks held.\<close>

definition locks_balanced :: "lock_op list \<Rightarrow> bool" where
  "locks_balanced ops \<longleftrightarrow> lock_run ops no_locks = Some no_locks"

subsection \<open>Lemmas\<close>

lemma lock_run_append:
  "lock_run (xs @ ys) l = (case lock_run xs l of None \<Rightarrow> None | Some l' \<Rightarrow> lock_run ys l')"
  by (induction xs arbitrary: l) (auto split: option.splits)

text \<open>A critical section that takes a va space's lock and gives it back changes nothing.\<close>

lemma lock_run_read_pair:
  "\<not> lk_writer l i \<Longrightarrow> lock_run (DownRead i # UpRead i # ops) l = lock_run ops l"
  by simp

lemma lock_run_write_pair:
  "\<not> lk_writer l i \<Longrightarrow> lk_readers l i = 0 \<Longrightarrow> lock_run (DownWrite i # UpWrite i # ops) l = lock_run ops l"
proof -
  assume "\<not> lk_writer l i" "lk_readers l i = 0"
  moreover have "(lk_writer l)(i := False) = lk_writer l" if "\<not> lk_writer l i"
    using that by (intro ext) auto
  ultimately show ?thesis by simp
qed

lemma no_locks_simps [simp]:
  "lk_global no_locks = False" "lk_readers no_locks i = 0" "lk_writer no_locks i = False"
  by (simp_all add: no_locks_def)

lemma sched_ok_mset: "sched_ok env \<Longrightarrow> mset (env_sched env ass) = mset (concat ass)"
  by (auto simp: sched_ok_def intro: mset_interleave)

lemma csl_okD:
  assumes "csl_ok env" "env_ce_encrypt env kv iv p = (c, t)"
  shows "length c = length p" and "env_csl_decrypt env kv iv c t = (NV_OK, p)"
  using assms unfolding csl_ok_def by (metis fst_conv snd_conv)+

lemma find_va_space_Some:
  "find_va_space vss base i = Some (j, vs) \<Longrightarrow>
   i \<le> j \<and> j < i + length vss \<and> vss ! (j - i) = vs \<and>
   (\<exists>r. uvm_va_range_find vs base = Some r \<and> vr_type r = UVM_VA_RANGE_TYPE_MANAGED)"
proof (induction vss arbitrary: i)
  case Nil
  then show ?case by simp
next
  case (Cons v vss)
  show ?case
  proof (cases "\<exists>r. uvm_va_range_find v base = Some r \<and> vr_type r = UVM_VA_RANGE_TYPE_MANAGED")
    case True
    then show ?thesis using Cons.prems by auto
  next
    case False
    then have "find_va_space vss base (Suc i) = Some (j, vs)"
      using Cons.prems by (auto split: option.splits if_splits)
    from Cons.IH [OF this] have IH: "Suc i \<le> j" "j < Suc i + length vss" "vss ! (j - Suc i) = vs"
      "\<exists>r. uvm_va_range_find vs base = Some r \<and> vr_type r = UVM_VA_RANGE_TYPE_MANAGED"
      by auto
    then have "j - i = Suc (j - Suc i)" by simp
    with IH show ?thesis by simp
  qed
qed

section \<open>A sample environment\<close>

text \<open>An environment in which nothing fails, with a toy cipher; it meets the laws above.\<close>

definition sample_env :: uvm_env where
  "sample_env = \<lparr>env_capable = True, env_cc = True, env_alloc = (\<lambda>_ _. True), env_copy = (\<lambda>_ _. True),
     env_vidmem = (\<lambda>ap x. word_of_nat x), env_dma_alloc = (\<lambda>_ _. NV_OK),
     env_push_begin = (\<lambda>_. NV_OK), env_push_wait = (\<lambda>_. NV_OK),
     env_staging = (\<lambda>_. NV_OK), env_staging_va = (\<lambda>_. True), env_map_phys = (\<lambda>_. NV_OK),
     env_iv = (\<lambda>i. \<lparr>iv_bytes = le_bytes 12 i, iv_fresh = 1\<rparr>), env_key_version = (\<lambda>_. 7),
     env_ce_encrypt = (\<lambda>kv iv p. (map (\<lambda>b. b + 1) p, replicate 16 0)),
     env_csl_decrypt = (\<lambda>kv iv c t. (NV_OK, map (\<lambda>b. b - 1) c)),
     env_kthread = (\<lambda>_. True), env_task_mm = True, env_sched = concat\<rparr>"

lemma sample_env_sched: "sched_ok sample_env"
  by (simp add: sched_ok_def sample_env_def concat_in_interleave)

lemma sample_env_csl: "csl_ok sample_env"
  by (simp add: csl_ok_def sample_env_def o_def)

end
