(* ===== verification/Block_Perms.thy ===== *)
theory Block_Perms
  imports Uvm_Model
begin

text \<open>
  Permissions of a va block (\<open>uvm_va_block.c\<close>): revoking and adding mappings, and the part
  of fault servicing that decides protections, restores a tracked block in bulk and records
  write faults. CPU NUMA nodes are one node here, the CPU's read mappings are not
  represented, and blocks are blocks of managed ranges (never HMM blocks).
  \<open>UVM_VA_BLOCK_LOCK_RETRY\<close> repeats an operation until it stops asking for a retry; the
  statuses of the environment below are those of the last attempt.
\<close>

section \<open>Environment\<close>

text \<open>
  Policy data and callees outside the modelled code: every status is keyed by the start of
  the block and the processors involved.
\<close>

record map_env =
  me_ctx_alloc :: "nat \<Rightarrow> bool"                        \<comment> \<open>\<open>uvm_va_block_context_alloc\<close>, by range start\<close>
  me_proc_mask_alloc :: "nat \<Rightarrow> proc_id \<Rightarrow> bool"      \<comment> \<open>\<open>uvm_processor_mask_cache_alloc\<close>\<close>
  me_closest :: "proc_id \<Rightarrow> proc_id list \<Rightarrow> proc_id list" \<comment> \<open>\<open>for_each_closest_id\<close>'s order\<close>
  me_push :: "nat \<Rightarrow> proc_id \<Rightarrow> proc_id \<Rightarrow> nv_status"   \<comment> \<open>PTE allocation and push begin\<close>
  me_track :: "nat \<Rightarrow> proc_id \<Rightarrow> proc_id \<Rightarrow> nv_status"  \<comment> \<open>\<open>uvm_tracker_add_push_safe\<close>\<close>
  me_tracker_merge :: "nat \<Rightarrow> nv_status"               \<comment> \<open>\<open>uvm_tracker_add_tracker_safe\<close>\<close>
  me_gpu_va_space :: "proc_id \<Rightarrow> bool"                 \<comment> \<open>\<open>uvm_gpu_va_space_get\<close> is not NULL\<close>
  me_state_alloc :: "nat \<Rightarrow> proc_id \<Rightarrow> bool"           \<comment> \<open>a missing per-GPU state can be allocated\<close>
  me_lite :: "nat \<Rightarrow> proc_id \<Rightarrow> bool"                  \<comment> \<open>\<open>block_get_uvm_lite_gpus\<close>\<close>
  me_preferred :: "nat \<Rightarrow> proc_id option"              \<comment> \<open>the policy's preferred location\<close>
  me_read_dup :: "nat \<Rightarrow> bool"                         \<comment> \<open>\<open>uvm_va_policy_is_read_duplicate\<close>\<close>
  me_force_sysmem :: bool
  me_has_memory :: "proc_id \<Rightarrow> bool"
  me_can_access :: "proc_id \<Rightarrow> proc_id \<Rightarrow> bool"
  me_native_atomics :: "proc_id \<Rightarrow> proc_id \<Rightarrow> bool"    \<comment> \<open>\<open>has_native_atomics[residency]\<close>\<close>
  me_system_atomics :: "proc_id \<Rightarrow> bool"
  me_faultable :: "proc_id \<Rightarrow> bool"
  me_logical_prot :: "nat \<Rightarrow> nat \<Rightarrow> uvm_prot"           \<comment> \<open>\<open>compute_logical_prot\<close>, block, page\<close>
  me_might_dup :: "nat \<Rightarrow> nat \<Rightarrow> bool"
  me_authorized :: "nat \<Rightarrow> nat \<Rightarrow> proc_id list"        \<comment> \<open>processors with RWA on the page\<close>

text \<open>\<open>for_each_closest_id\<close> visits every processor of the mask, in some order.\<close>

definition closest_ok :: "map_env \<Rightarrow> bool" where
  "closest_ok me \<longleftrightarrow> (\<forall>i ps. set (me_closest me i ps) = set ps)"

section \<open>Page masks and per-GPU state\<close>

type_synonym region = "nat \<times> nat"   \<comment> \<open>first page, outer page\<close>

abbreviation PAGES_PER_UVM_VA_BLOCK :: nat where "PAGES_PER_UVM_VA_BLOCK \<equiv> 512"

definition block_region :: "va_block \<Rightarrow> region" where
  "block_region vb = (0, block_num_pages vb)"

definition in_region :: "region \<Rightarrow> nat \<Rightarrow> bool" where
  "in_region rg p \<longleftrightarrow> fst rg \<le> p \<and> p < snd rg"

definition mask_any :: "page_mask \<Rightarrow> bool" where
  "mask_any m \<longleftrightarrow> list_ex m [0..<PAGES_PER_UVM_VA_BLOCK]"

definition region_any :: "region \<Rightarrow> page_mask \<Rightarrow> bool" where
  "region_any rg m \<longleftrightarrow> list_ex m [fst rg..<snd rg]"

definition empty_gpu_state :: gpu_state where
  "empty_gpu_state = \<lparr>gs_resident = (\<lambda>_. False), gs_pte_bits = (\<lambda>_ _. False),
     gs_phys = (\<lambda>_. \<lparr>pa_aperture = 0, pa_address = 0\<rparr>)\<rparr>"

text \<open>A processor without a state has nothing mapped and nothing resident.\<close>

definition gpu_st :: "va_block \<Rightarrow> proc_id \<Rightarrow> gpu_state" where
  "gpu_st vb g = (case vb_gpu_state vb g of Some gs \<Rightarrow> gs | None \<Rightarrow> empty_gpu_state)"

definition set_gpu_st :: "va_block \<Rightarrow> proc_id \<Rightarrow> gpu_state \<Rightarrow> va_block" where
  "set_gpu_st vb g gs = vb\<lparr>vb_gpu_state := (vb_gpu_state vb)(g \<mapsto> gs)\<rparr>"

definition resident_mask_get :: "va_block \<Rightarrow> proc_id \<Rightarrow> page_mask" where
  "resident_mask_get vb i = (if UVM_ID_IS_GPU i then gs_resident (gpu_st vb i) else vb_cpu_resident vb)"

fun get_gpu_pte_bit_index :: "uvm_prot \<Rightarrow> nat" where
  "get_gpu_pte_bit_index UVM_PROT_READ_WRITE_ATOMIC = 2"
| "get_gpu_pte_bit_index UVM_PROT_READ_WRITE = 1"
| "get_gpu_pte_bit_index UVM_PROT_READ_ONLY = 0"
| "get_gpu_pte_bit_index UVM_PROT_NONE = 3"

definition gpu_can_write :: "va_block \<Rightarrow> proc_id \<Rightarrow> nat \<Rightarrow> bool" where
  "gpu_can_write vb g p \<longleftrightarrow> gs_pte_bits (gpu_st vb g) 1 p"

section \<open>Revoking permissions\<close>

text \<open>The loop from \<open>UVM_PTE_BITS_GPU_ATOMIC\<close> down to the revoked bit.\<close>

definition clear_bits :: "nat \<Rightarrow> page_mask \<Rightarrow> (nat \<Rightarrow> page_mask) \<Rightarrow> (nat \<Rightarrow> page_mask)" where
  "clear_bits k pages bits = (\<lambda>b p. if k \<le> b \<and> b \<le> 2 then bits b p \<and> \<not> pages p else bits b p)"

definition block_revoke_prot_gpu_to ::
  "map_env \<Rightarrow> va_block \<Rightarrow> proc_id \<Rightarrow> proc_id \<Rightarrow> page_mask \<Rightarrow> uvm_prot \<Rightarrow> nv_status \<times> va_block \<times> page_mask" where
  "block_revoke_prot_gpu_to me vb g r m prot =
     (let k = get_gpu_pte_bit_index prot;
          gs = gpu_st vb g;
          pages = (\<lambda>p. m p \<and> resident_mask_get vb r p)
      in if \<not> mask_any pages then (NV_OK, vb, m)
         else if me_push me (vb_start vb) g r \<noteq> NV_OK then (me_push me (vb_start vb) g r, vb, m)
         else (me_track me (vb_start vb) g r,
               set_gpu_st vb g (gs\<lparr>gs_pte_bits := clear_bits k pages (gs_pte_bits gs)\<rparr>),
               (\<lambda>p. m p \<and> \<not> pages p)))"

fun revoke_loop ::
  "map_env \<Rightarrow> va_block \<Rightarrow> proc_id \<Rightarrow> proc_id list \<Rightarrow> region \<Rightarrow> page_mask \<Rightarrow> uvm_prot \<Rightarrow> nv_status \<times> va_block" where
  "revoke_loop me vb g [] rg m prot = (NV_OK, vb)"
| "revoke_loop me vb g (r # rs) rg m prot =
     (case block_revoke_prot_gpu_to me vb g r m prot of
        (st, vb', m') \<Rightarrow>
          if st \<noteq> NV_OK then (st, vb')
          else if \<not> region_any rg m' then (NV_OK, vb')
          else revoke_loop me vb' g rs rg m' prot)"

text \<open>
  For the CPU, \<open>block_revoke_cpu_write\<close> unmaps the pages; the read-only remap that follows is
  skipped without the owner's mm, and changes no write permission with it.
\<close>

definition block_revoke_cpu_write :: "va_block \<Rightarrow> page_mask \<Rightarrow> va_block" where
  "block_revoke_cpu_write vb m = vb\<lparr>vb_cpu_write := (\<lambda>p. vb_cpu_write vb p \<and> \<not> m p)\<rparr>"

definition uvm_va_block_revoke_prot ::
  "map_env \<Rightarrow> va_block \<Rightarrow> proc_id \<Rightarrow> region \<Rightarrow> page_mask \<Rightarrow> uvm_prot \<Rightarrow> nv_status \<times> va_block" where
  "uvm_va_block_revoke_prot me vb i rg rm prot =
     (if \<not> UVM_ID_IS_GPU i then
        (if prot = UVM_PROT_READ_WRITE_ATOMIC then (NV_OK, vb)
         else let run = (\<lambda>p. in_region rg p \<and> rm p \<and> vb_cpu_write vb p)
              in if mask_any run then (NV_OK, block_revoke_cpu_write vb run) else (NV_OK, vb))
      else if i \<notin> set (vb_mapped vb) then (NV_OK, vb)
      else let run = (\<lambda>p. in_region rg p \<and> rm p \<and>
                           gs_pte_bits (gpu_st vb i) (get_gpu_pte_bit_index prot) p)
           in if \<not> mask_any run then (NV_OK, vb)
              else if \<not> me_proc_mask_alloc me (vb_start vb) i then (NV_ERR_NO_MEMORY, vb)
              else revoke_loop me vb i (me_closest me i (vb_resident vb)) rg run prot)"

fun revoke_procs ::
  "map_env \<Rightarrow> va_block \<Rightarrow> proc_id list \<Rightarrow> region \<Rightarrow> page_mask \<Rightarrow> uvm_prot \<Rightarrow> nv_status \<times> va_block" where
  "revoke_procs me vb [] rg rm prot = (NV_OK, vb)"
| "revoke_procs me vb (i # is) rg rm prot =
     (case uvm_va_block_revoke_prot me vb i rg rm prot of
        (st, vb') \<Rightarrow> if st \<noteq> NV_OK then (st, vb') else revoke_procs me vb' is rg rm prot)"

definition uvm_va_block_revoke_prot_mask ::
  "map_env \<Rightarrow> va_block \<Rightarrow> proc_id list \<Rightarrow> region \<Rightarrow> page_mask \<Rightarrow> uvm_prot \<Rightarrow> nv_status \<times> va_block" where
  "uvm_va_block_revoke_prot_mask me vb is rg rm prot =
     (case revoke_procs me vb is rg rm prot of
        (st, vb') \<Rightarrow> (if st = NV_OK then me_tracker_merge me (vb_start vb) else st, vb'))"

section \<open>Adding mappings\<close>

definition set_bits :: "nat \<Rightarrow> page_mask \<Rightarrow> (nat \<Rightarrow> page_mask) \<Rightarrow> (nat \<Rightarrow> page_mask)" where
  "set_bits k pages bits = (\<lambda>b p. if b \<le> k then bits b p \<or> pages p else bits b p)"

definition block_map_gpu_to ::
  "map_env \<Rightarrow> va_block \<Rightarrow> proc_id \<Rightarrow> proc_id \<Rightarrow> page_mask \<Rightarrow> uvm_prot \<Rightarrow> nv_status \<times> va_block \<times> page_mask" where
  "block_map_gpu_to me vb g r m prot =
     (let k = get_gpu_pte_bit_index prot;
          gs = gpu_st vb g;
          pages = (\<lambda>p. m p \<and> resident_mask_get vb r p)
      in if \<not> mask_any pages then (NV_OK, vb, m)
         else if me_push me (vb_start vb) g r \<noteq> NV_OK then (me_push me (vb_start vb) g r, vb, m)
         else (me_track me (vb_start vb) g r,
               (set_gpu_st vb g (gs\<lparr>gs_pte_bits := set_bits k pages (gs_pte_bits gs)\<rparr>))
                 \<lparr>vb_mapped := (if g \<in> set (vb_mapped vb) then vb_mapped vb else insort g (vb_mapped vb))\<rparr>,
               (\<lambda>p. m p \<and> \<not> pages p)))"

definition map_get_allowed_destinations :: "map_env \<Rightarrow> va_block \<Rightarrow> proc_id \<Rightarrow> proc_id list" where
  "map_get_allowed_destinations me vb i =
     (let s = vb_start vb in
      if me_lite me s i then
        filter (\<lambda>r. me_preferred me s = Some r \<and> me_can_access me i r) (vb_resident vb)
      else if (me_read_dup me s \<or> (me_preferred me s = Some i \<and> \<not> me_force_sysmem me)) \<and> me_has_memory me i then
        filter (\<lambda>r. r = i \<and> me_can_access me i r) (vb_resident vb)
      else filter (\<lambda>r. me_can_access me i r) (vb_resident vb))"

fun map_loop ::
  "map_env \<Rightarrow> va_block \<Rightarrow> proc_id \<Rightarrow> proc_id list \<Rightarrow> region \<Rightarrow> page_mask \<Rightarrow> uvm_prot \<Rightarrow> nv_status \<times> va_block" where
  "map_loop me vb g [] rg m prot = (NV_OK, vb)"
| "map_loop me vb g (r # rs) rg m prot =
     (case block_map_gpu_to me vb g r m prot of
        (st, vb', m') \<Rightarrow>
          if st \<noteq> NV_OK then (st, vb')
          else if \<not> region_any rg m' then (NV_OK, vb')
          else map_loop me vb' g rs rg m' prot)"

text \<open>\<open>block_gpu_state_get_alloc\<close>.\<close>

definition block_gpu_state_get_alloc :: "map_env \<Rightarrow> va_block \<Rightarrow> proc_id \<Rightarrow> va_block option" where
  "block_gpu_state_get_alloc me vb g =
     (case vb_gpu_state vb g of
        Some _ \<Rightarrow> Some vb
      | None \<Rightarrow> if me_state_alloc me (vb_start vb) g then Some (set_gpu_st vb g empty_gpu_state) else None)"

text \<open>
  \<open>uvm_va_block_map\<close>. The CPU's pages are only inserted by a thread that holds the owner's
  mm, which the live-migration callers do not.
\<close>

definition uvm_va_block_map ::
  "map_env \<Rightarrow> va_block \<Rightarrow> proc_id \<Rightarrow> region \<Rightarrow> page_mask \<Rightarrow> uvm_prot \<Rightarrow> nv_status \<times> va_block" where
  "uvm_va_block_map me vb i rg mm prot =
     (if \<not> UVM_ID_IS_GPU i then (NV_OK, vb)
      else if \<not> me_gpu_va_space me i then (NV_OK, vb)
      else case block_gpu_state_get_alloc me vb i of
        None \<Rightarrow> (NV_ERR_NO_MEMORY, vb)
      | Some vb1 \<Rightarrow>
          let run = (\<lambda>p. in_region rg p \<and> mm p \<and>
                          \<not> gs_pte_bits (gpu_st vb1 i) (get_gpu_pte_bit_index prot) p)
          in if \<not> mask_any run then (NV_OK, vb1)
             else if \<not> me_proc_mask_alloc me (vb_start vb) i then (NV_ERR_NO_MEMORY, vb1)
             else map_loop me vb1 i (me_closest me i (map_get_allowed_destinations me vb1 i)) rg run prot)"

fun map_procs ::
  "map_env \<Rightarrow> va_block \<Rightarrow> proc_id list \<Rightarrow> region \<Rightarrow> page_mask \<Rightarrow> uvm_prot \<Rightarrow> nv_status \<times> va_block" where
  "map_procs me vb [] rg mm prot = (NV_OK, vb)"
| "map_procs me vb (i # is) rg mm prot =
     (case uvm_va_block_map me vb i rg mm prot of
        (st, vb') \<Rightarrow> if st \<noteq> NV_OK then (st, vb') else map_procs me vb' is rg mm prot)"

definition uvm_va_block_map_mask ::
  "map_env \<Rightarrow> va_block \<Rightarrow> proc_id list \<Rightarrow> region \<Rightarrow> page_mask \<Rightarrow> uvm_prot \<Rightarrow> nv_status \<times> va_block" where
  "uvm_va_block_map_mask me vb is rg mm prot =
     (case map_procs me vb is rg mm prot of
        (st, vb') \<Rightarrow> (if st = NV_OK then me_tracker_merge me (vb_start vb) else st, vb'))"

section \<open>What revoking does\<close>

text \<open>Everything of a block but its permissions is the same.\<close>

definition same_data :: "va_block \<Rightarrow> va_block \<Rightarrow> bool" where
  "same_data vb vb' \<longleftrightarrow>
     vb_start vb' = vb_start vb \<and> vb_end vb' = vb_end vb \<and> vb_resident vb' = vb_resident vb \<and>
     vb_cpu_resident vb' = vb_cpu_resident vb \<and> vb_cpu_data vb' = vb_cpu_data vb \<and>
     vb_dirty vb' = vb_dirty vb \<and> vb_tracking vb' = vb_tracking vb \<and>
     (\<forall>g. gs_resident (gpu_st vb' g) = gs_resident (gpu_st vb g) \<and>
          gs_phys (gpu_st vb' g) = gs_phys (gpu_st vb g))"

text \<open>No permission was added.\<close>

definition perms_le :: "va_block \<Rightarrow> va_block \<Rightarrow> bool" where
  "perms_le vb' vb \<longleftrightarrow>
     (\<forall>g b p. gs_pte_bits (gpu_st vb' g) b p \<longrightarrow> gs_pte_bits (gpu_st vb g) b p) \<and>
     (\<forall>p. vb_cpu_write vb' p \<longrightarrow> vb_cpu_write vb p)"

definition same_read_perms :: "va_block \<Rightarrow> va_block \<Rightarrow> bool" where
  "same_read_perms vb vb' \<longleftrightarrow> (\<forall>g. gs_pte_bits (gpu_st vb' g) 0 = gs_pte_bits (gpu_st vb g) 0)"

text \<open>
  The block invariants the driver keeps and the revocation relies on: a block has at most
  512 pages, a GPU with permissions is in the mapped mask and has its pages resident
  somewhere, and permissions are cumulative.
\<close>

definition block_wf :: "va_block \<Rightarrow> bool" where
  "block_wf vb \<longleftrightarrow>
     block_num_pages vb \<le> PAGES_PER_UVM_VA_BLOCK \<and>
     (\<forall>g b p. b \<le> 2 \<longrightarrow> gs_pte_bits (gpu_st vb g) b p \<longrightarrow>
        g \<in> set (vb_mapped vb) \<and> (\<exists>r \<in> set (vb_resident vb). resident_mask_get vb r p)) \<and>
     (\<forall>g p. gs_pte_bits (gpu_st vb g) 2 p \<longrightarrow> gs_pte_bits (gpu_st vb g) 1 p)"

named_theorems perm_defs "definitions of the permission relations"

lemmas [perm_defs] = same_data_def perms_le_def same_read_perms_def

lemma gpu_st_set [simp]: "gpu_st (set_gpu_st vb g gs) h = (if h = g then gs else gpu_st vb h)"
  by (simp add: gpu_st_def set_gpu_st_def)

lemma gpu_st_upd [simp]:
  "gpu_st (vb\<lparr>vb_mapped := x\<rparr>) h = gpu_st vb h"
  "gpu_st (vb\<lparr>vb_cpu_write := y\<rparr>) h = gpu_st vb h"
  "gpu_st (vb\<lparr>vb_dirty := d\<rparr>) h = gpu_st vb h"
  "gpu_st (vb\<lparr>vb_tracking := d\<rparr>) h = gpu_st vb h"
  by (simp_all add: gpu_st_def)

lemma set_gpu_st_sel [simp]:
  "vb_start (set_gpu_st vb g gs) = vb_start vb"
  "vb_end (set_gpu_st vb g gs) = vb_end vb"
  "vb_resident (set_gpu_st vb g gs) = vb_resident vb"
  "vb_mapped (set_gpu_st vb g gs) = vb_mapped vb"
  "vb_cpu_resident (set_gpu_st vb g gs) = vb_cpu_resident vb"
  "vb_cpu_write (set_gpu_st vb g gs) = vb_cpu_write vb"
  "vb_cpu_data (set_gpu_st vb g gs) = vb_cpu_data vb"
  "vb_dirty (set_gpu_st vb g gs) = vb_dirty vb"
  "vb_tracking (set_gpu_st vb g gs) = vb_tracking vb"
  by (simp_all add: set_gpu_st_def)

lemma same_data_refl [simp]: "same_data vb vb"
  by (simp add: same_data_def)

lemma same_data_trans: "same_data a b \<Longrightarrow> same_data b c \<Longrightarrow> same_data a c"
  by (simp add: same_data_def)

lemma perms_le_refl [simp]: "perms_le vb vb"
  by (simp add: perms_le_def)

lemma perms_le_trans: "perms_le c b \<Longrightarrow> perms_le b a \<Longrightarrow> perms_le c a"
  by (simp add: perms_le_def)

lemma same_read_refl [simp]: "same_read_perms vb vb"
  by (simp add: same_read_perms_def)

lemma same_read_trans: "same_read_perms a b \<Longrightarrow> same_read_perms b c \<Longrightarrow> same_read_perms a c"
  by (simp add: same_read_perms_def)

lemma same_data_resident_mask: "same_data vb vb' \<Longrightarrow> resident_mask_get vb' r = resident_mask_get vb r"
  by (simp add: same_data_def resident_mask_get_def)

lemma mask_any_iff: "mask_any m \<longleftrightarrow> (\<exists>p < PAGES_PER_UVM_VA_BLOCK. m p)"
  by (auto simp: mask_any_def list_ex_iff)

lemma region_any_iff: "region_any rg m \<longleftrightarrow> (\<exists>p. in_region rg p \<and> m p)"
  by (auto simp: region_any_def list_ex_iff in_region_def)

lemma in_block_region [simp]: "in_region (block_region vb) p \<longleftrightarrow> p < block_num_pages vb"
  by (simp add: in_region_def block_region_def)

lemma block_region_snd [simp]: "snd (block_region vb) = block_num_pages vb"
  by (simp add: block_region_def)

text \<open>Every revocation keeps the data, adds no permission, and leaves the mapped mask.\<close>

definition revokes :: "va_block \<Rightarrow> va_block \<Rightarrow> bool" where
  "revokes vb vb' \<longleftrightarrow> same_data vb vb' \<and> perms_le vb' vb \<and> vb_mapped vb' = vb_mapped vb"

lemma revokes_refl [simp]: "revokes vb vb"
  by (simp add: revokes_def)

lemma revokes_trans: "revokes a b \<Longrightarrow> revokes b c \<Longrightarrow> revokes a c"
  unfolding revokes_def by (auto intro: same_data_trans perms_le_trans)

lemma revoke_gpu_to_revokes:
  "block_revoke_prot_gpu_to me vb g r m prot = (st, vb', m') \<Longrightarrow> revokes vb vb'"
  unfolding block_revoke_prot_gpu_to_def Let_def revokes_def
  by (auto simp: perm_defs clear_bits_def split: if_splits)

lemma revoke_loop_revokes: "revoke_loop me vb g rs rg m prot = (st, vb') \<Longrightarrow> revokes vb vb'"
  by (induction rs arbitrary: vb m)
     (auto split: prod.splits if_splits dest!: revoke_gpu_to_revokes intro: revokes_trans)

lemma revoke_cpu_write_revokes: "revokes vb (block_revoke_cpu_write vb m)"
  by (simp add: revokes_def perm_defs block_revoke_cpu_write_def)

lemma revoke_cpu_write_read: "same_read_perms vb (block_revoke_cpu_write vb m)"
  by (simp add: perm_defs block_revoke_cpu_write_def)

lemma revoke_prot_revokes: "uvm_va_block_revoke_prot me vb i rg rm prot = (st, vb') \<Longrightarrow> revokes vb vb'"
  unfolding uvm_va_block_revoke_prot_def Let_def
  by (auto split: if_splits intro: revoke_loop_revokes revoke_cpu_write_revokes)

lemma revoke_procs_revokes: "revoke_procs me vb is rg rm prot = (st, vb') \<Longrightarrow> revokes vb vb'"
  by (induction "is" arbitrary: vb)
     (auto split: prod.splits if_splits dest!: revoke_prot_revokes intro: revokes_trans)

lemma revoke_mask_revokes: "uvm_va_block_revoke_prot_mask me vb is rg rm prot = (st, vb') \<Longrightarrow> revokes vb vb'"
  unfolding uvm_va_block_revoke_prot_mask_def
  by (auto split: prod.splits intro: revoke_procs_revokes)

text \<open>Revoking write keeps read.\<close>

lemma revoke_gpu_to_read:
  "block_revoke_prot_gpu_to me vb g r m prot = (st, vb', m') \<Longrightarrow> UVM_PROT_READ_ONLY < prot \<Longrightarrow>
   same_read_perms vb vb'"
  unfolding block_revoke_prot_gpu_to_def Let_def
  by (cases prot) (auto simp: perm_defs clear_bits_def less_uvm_prot_def split: if_splits)

lemma revoke_loop_read:
  "revoke_loop me vb g rs rg m prot = (st, vb') \<Longrightarrow> UVM_PROT_READ_ONLY < prot \<Longrightarrow> same_read_perms vb vb'"
  by (induction rs arbitrary: vb m)
     (auto split: prod.splits if_splits dest!: revoke_gpu_to_read intro: same_read_trans)

lemma revoke_prot_read:
  "uvm_va_block_revoke_prot me vb i rg rm prot = (st, vb') \<Longrightarrow> UVM_PROT_READ_ONLY < prot \<Longrightarrow>
   same_read_perms vb vb'"
  unfolding uvm_va_block_revoke_prot_def Let_def
  by (auto split: if_splits intro: revoke_loop_read revoke_cpu_write_read)

lemma revoke_procs_read:
  "revoke_procs me vb is rg rm prot = (st, vb') \<Longrightarrow> UVM_PROT_READ_ONLY < prot \<Longrightarrow> same_read_perms vb vb'"
  by (induction "is" arbitrary: vb)
     (auto split: prod.splits if_splits dest!: revoke_prot_read intro: same_read_trans)

text \<open>
  The per-residency loop revokes every page of its mask that is resident somewhere in the
  list, whatever the order of the list.
\<close>

lemma revoke_loop_complete:
  assumes "revoke_loop me vb g rs rg m prot = (NV_OK, vb')"
    and "\<And>p. m p \<Longrightarrow> in_region rg p \<and> p < PAGES_PER_UVM_VA_BLOCK \<and> (\<exists>r \<in> set rs. resident_mask_get vb r p)"
    and "get_gpu_pte_bit_index prot \<le> b" "b \<le> 2" "m p"
  shows "\<not> gs_pte_bits (gpu_st vb' g) b p"
  using assms
proof (induction rs arbitrary: vb m)
  case Nil
  then show ?case by fastforce
next
  case (Cons r rs)
  obtain st vb1 m1 where step: "block_revoke_prot_gpu_to me vb g r m prot = (st, vb1, m1)"
    by (cases "block_revoke_prot_gpu_to me vb g r m prot") auto
  have st: "st = NV_OK"
    using Cons.prems(1) step by (auto split: if_splits)
  have m1: "m1 q \<longleftrightarrow> m q \<and> \<not> resident_mask_get vb r q" if "q < PAGES_PER_UVM_VA_BLOCK" for q
    using step st that unfolding block_revoke_prot_gpu_to_def Let_def
    by (auto simp: mask_any_iff split: if_splits)
  have m1_le: "m1 q \<Longrightarrow> m q" for q
    using step unfolding block_revoke_prot_gpu_to_def Let_def by (auto split: if_splits)
  have cleared: "\<not> gs_pte_bits (gpu_st vb1 g) b p" if "resident_mask_get vb r p"
  proof -
    have "mask_any (\<lambda>p. m p \<and> resident_mask_get vb r p)"
      using Cons.prems(2,5) that by (auto simp: mask_any_iff)
    then show ?thesis
      using step st that Cons.prems(3,4,5) unfolding block_revoke_prot_gpu_to_def Let_def
      by (auto simp: clear_bits_def split: if_splits)
  qed
  have rv: "revokes vb vb1" by (rule revoke_gpu_to_revokes [OF step])
  show ?case
  proof (cases "region_any rg m1")
    case False
    then have "resident_mask_get vb r p"
      using Cons.prems(2,5) m1 by (auto simp: region_any_iff)
    then show ?thesis
      using cleared Cons.prems(1) step st False by simp
  next
    case True
    then have rest: "revoke_loop me vb1 g rs rg m1 prot = (NV_OK, vb')"
      using Cons.prems(1) step st by simp
    show ?thesis
    proof (cases "resident_mask_get vb r p")
      case True
      from revoke_loop_revokes [OF rest] cleared [OF True] show ?thesis
        by (auto simp: revokes_def perms_le_def)
    next
      case False
      have "in_region rg q \<and> q < PAGES_PER_UVM_VA_BLOCK \<and> (\<exists>r' \<in> set rs. resident_mask_get vb1 r' q)"
        if "m1 q" for q
        using Cons.prems(2) [OF m1_le [OF that]] m1 that rv
        by (auto simp: revokes_def same_data_resident_mask)
      moreover have "m1 p"
        using False m1 Cons.prems(2,5) by auto
      ultimately show ?thesis
        using Cons.IH [OF rest] Cons.prems(3,4) by blast
    qed
  qed
qed

lemma block_wf_resident:
  "block_wf vb \<Longrightarrow> b \<le> 2 \<Longrightarrow> gs_pte_bits (gpu_st vb g) b p \<Longrightarrow>
   \<exists>r \<in> set (vb_resident vb). resident_mask_get vb r p"
  by (auto simp: block_wf_def)

lemma block_wf_revokes:
  assumes wf: "block_wf vb" and rv: "revokes vb vb'"
    and cum: "\<forall>g p. gs_pte_bits (gpu_st vb' g) 2 p \<longrightarrow> gs_pte_bits (gpu_st vb' g) 1 p"
  shows "block_wf vb'"
proof -
  have sd: "same_data vb vb'" and le: "perms_le vb' vb" and mp: "vb_mapped vb' = vb_mapped vb"
    using rv by (simp_all add: revokes_def)
  have np: "block_num_pages vb' = block_num_pages vb" and rs: "vb_resident vb' = vb_resident vb"
    using sd by (simp_all add: same_data_def block_num_pages_def)
  have "g \<in> set (vb_mapped vb') \<and> (\<exists>r \<in> set (vb_resident vb'). resident_mask_get vb' r p)"
    if "b \<le> 2" "gs_pte_bits (gpu_st vb' g) b p" for g b p
  proof -
    have "gs_pte_bits (gpu_st vb g) b p"
      using that(2) le by (simp add: perms_le_def)
    with wf that(1) show ?thesis
      unfolding block_wf_def mp rs same_data_resident_mask [OF sd] by blast
  qed
  then show ?thesis
    using wf cum np by (simp add: block_wf_def)
qed

lemma revoke_prot_write_complete:
  assumes "uvm_va_block_revoke_prot me vb g (block_region vb) (\<lambda>_. True) UVM_PROT_READ_WRITE = (NV_OK, vb')"
    and "block_wf vb" "closest_ok me" "UVM_ID_IS_GPU g" "p < block_num_pages vb"
  shows "\<not> gpu_can_write vb' g p"
proof
  assume w': "gpu_can_write vb' g p"
  with revoke_prot_revokes [OF assms(1)] have w: "gs_pte_bits (gpu_st vb g) 1 p"
    by (auto simp: gpu_can_write_def revokes_def perms_le_def)
  have np: "block_num_pages vb \<le> PAGES_PER_UVM_VA_BLOCK"
    using assms(2) by (simp add: block_wf_def)
  define run where "run = (\<lambda>q. q < block_num_pages vb \<and> gs_pte_bits (gpu_st vb g) 1 q)"
  have any: "mask_any run"
    unfolding mask_any_iff run_def using w assms(5) np by (intro exI [of _ p]) simp
  have mapped: "g \<in> set (vb_mapped vb)"
    using assms(2) w unfolding block_wf_def by (meson one_le_numeral)
  have loop: "revoke_loop me vb g (me_closest me g (vb_resident vb)) (block_region vb) run UVM_PROT_READ_WRITE
     = (NV_OK, vb')"
    using assms(1,4) any mapped
    by (auto simp: uvm_va_block_revoke_prot_def Let_def run_def split: if_splits)
  have "\<not> gs_pte_bits (gpu_st vb' g) 1 p"
  proof (rule revoke_loop_complete [OF loop])
    show "run p" using w assms(5) by (simp add: run_def)
    fix q assume "run q"
    then show "in_region (block_region vb) q \<and> q < PAGES_PER_UVM_VA_BLOCK \<and>
       (\<exists>r \<in> set (me_closest me g (vb_resident vb)). resident_mask_get vb r q)"
      using block_wf_resident [OF assms(2), of 1 g q] assms(3) np
      by (auto simp: closest_ok_def run_def)
  qed simp_all
  then show False using w' by (simp add: gpu_can_write_def)
qed

lemma clear_bits_cumulative:
  "(\<forall>p. bits 2 p \<longrightarrow> bits 1 p) \<Longrightarrow> \<forall>p. clear_bits 1 m bits 2 p \<longrightarrow> clear_bits 1 m bits 1 p"
  by (auto simp: clear_bits_def)

definition cumulative :: "va_block \<Rightarrow> bool" where
  "cumulative vb \<longleftrightarrow> (\<forall>g p. gs_pte_bits (gpu_st vb g) 2 p \<longrightarrow> gs_pte_bits (gpu_st vb g) 1 p)"

lemma revoke_gpu_to_cumulative:
  "block_revoke_prot_gpu_to me vb g r m UVM_PROT_READ_WRITE = (st, vb', m') \<Longrightarrow> cumulative vb \<Longrightarrow> cumulative vb'"
  unfolding block_revoke_prot_gpu_to_def Let_def cumulative_def
  by (auto simp: clear_bits_def split: if_splits)

lemma revoke_loop_cumulative:
  "revoke_loop me vb g rs rg m UVM_PROT_READ_WRITE = (st, vb') \<Longrightarrow> cumulative vb \<Longrightarrow> cumulative vb'"
  by (induction rs arbitrary: vb m) (auto split: prod.splits if_splits dest: revoke_gpu_to_cumulative)

lemma revoke_prot_cumulative:
  "uvm_va_block_revoke_prot me vb i rg rm UVM_PROT_READ_WRITE = (st, vb') \<Longrightarrow> cumulative vb \<Longrightarrow> cumulative vb'"
  unfolding uvm_va_block_revoke_prot_def Let_def
  by (auto split: if_splits intro: revoke_loop_cumulative)
     (auto simp: cumulative_def block_revoke_cpu_write_def)

lemma revoke_prot_wf:
  assumes "uvm_va_block_revoke_prot me vb i rg rm UVM_PROT_READ_WRITE = (st, vb')" "block_wf vb"
  shows "block_wf vb'"
proof (rule block_wf_revokes [OF assms(2)])
  show "revokes vb vb'" by (rule revoke_prot_revokes [OF assms(1)])
  have "cumulative vb" using assms(2) by (simp add: cumulative_def block_wf_def)
  from revoke_prot_cumulative [OF assms(1) this]
  show "\<forall>g p. gs_pte_bits (gpu_st vb' g) 2 p \<longrightarrow> gs_pte_bits (gpu_st vb' g) 1 p"
    by (simp add: cumulative_def)
qed

lemma block_region_same_data: "same_data vb vb' \<Longrightarrow> block_region vb' = block_region vb"
  by (simp add: same_data_def block_region_def block_num_pages_def)

lemma revoke_procs_complete:
  assumes "revoke_procs me vb is (block_region vb) (\<lambda>_. True) UVM_PROT_READ_WRITE = (NV_OK, vb')"
    and "block_wf vb" "closest_ok me" "g \<in> set is" "UVM_ID_IS_GPU g" "p < block_num_pages vb"
  shows "\<not> gpu_can_write vb' g p"
  using assms
proof (induction "is" arbitrary: vb)
  case Nil
  then show ?case by simp
next
  case (Cons i "is")
  obtain vb1 where step: "uvm_va_block_revoke_prot me vb i (block_region vb) (\<lambda>_. True) UVM_PROT_READ_WRITE = (NV_OK, vb1)"
    and rest: "revoke_procs me vb1 is (block_region vb) (\<lambda>_. True) UVM_PROT_READ_WRITE = (NV_OK, vb')"
    using Cons.prems(1) by (auto split: prod.splits if_splits)
  have sd: "same_data vb vb1"
    using revoke_prot_revokes [OF step] by (simp add: revokes_def)
  note rest' = rest [folded block_region_same_data [OF sd]]
  have np: "block_num_pages vb1 = block_num_pages vb"
    using sd by (simp add: same_data_def block_num_pages_def)
  show ?case
  proof (cases "g = i")
    case True
    have "\<not> gpu_can_write vb1 g p"
      using revoke_prot_write_complete [OF step Cons.prems(2,3)] Cons.prems(5,6) True by simp
    with revoke_procs_revokes [OF rest] show ?thesis
      by (auto simp: gpu_can_write_def revokes_def perms_le_def)
  next
    case False
    with Cons.IH [OF rest' revoke_prot_wf [OF step Cons.prems(2)] Cons.prems(3)] Cons.prems(4-6) np
    show ?thesis by simp
  qed
qed

section \<open>What mapping does\<close>

text \<open>
  Mapping keeps the data and every permission, and adds permissions only to the mapped
  processor, only up to the new protection, only on the requested pages.
\<close>

definition maps_only :: "proc_id \<Rightarrow> nat \<Rightarrow> page_mask \<Rightarrow> va_block \<Rightarrow> va_block \<Rightarrow> bool" where
  "maps_only g k m vb vb' \<longleftrightarrow>
     same_data vb vb' \<and> vb_cpu_write vb' = vb_cpu_write vb \<and>
     (\<forall>h b p. gs_pte_bits (gpu_st vb h) b p \<longrightarrow> gs_pte_bits (gpu_st vb' h) b p) \<and>
     (\<forall>h b p. gs_pte_bits (gpu_st vb' h) b p \<longrightarrow>
        gs_pte_bits (gpu_st vb h) b p \<or> (h = g \<and> b \<le> k \<and> m p))"

lemma maps_only_refl [simp]: "maps_only g k m vb vb"
  by (simp add: maps_only_def)

lemma maps_only_trans: "maps_only g k m a b \<Longrightarrow> maps_only g k m b c \<Longrightarrow> maps_only g k m a c"
  unfolding maps_only_def by (intro conjI; (elim conjE)?) (blast intro: same_data_trans | simp | blast)+

lemma maps_only_mono: "maps_only g k m a b \<Longrightarrow> (\<And>p. m p \<Longrightarrow> m' p) \<Longrightarrow> maps_only g k m' a b"
  unfolding maps_only_def by blast

lemma map_gpu_to_maps_only:
  assumes "block_map_gpu_to me vb g r m prot = (st, vb', m')"
  shows "maps_only g (get_gpu_pte_bit_index prot) m vb vb'" and "\<And>p. m' p \<Longrightarrow> m p"
  using assms unfolding block_map_gpu_to_def Let_def maps_only_def
  by (auto simp: perm_defs set_bits_def split: if_splits)

lemma map_loop_maps_only:
  "map_loop me vb g rs rg m prot = (st, vb') \<Longrightarrow> maps_only g (get_gpu_pte_bit_index prot) m vb vb'"
proof (induction rs arbitrary: vb m)
  case (Cons r rs)
  obtain s vb1 m1 where step: "block_map_gpu_to me vb g r m prot = (s, vb1, m1)"
    by (cases "block_map_gpu_to me vb g r m prot") auto
  note first = map_gpu_to_maps_only [OF step]
  show ?case
  proof (cases "s = NV_OK \<and> region_any rg m1")
    case True
    then have "map_loop me vb1 g rs rg m1 prot = (st, vb')"
      using Cons.prems step by simp
    from maps_only_mono [OF Cons.IH [OF this]] first show ?thesis
      by (blast intro: maps_only_trans)
  next
    case False
    then show ?thesis using Cons.prems step first(1) by (auto split: if_splits)
  qed
qed simp

lemma gpu_state_alloc_maps_only:
  "block_gpu_state_get_alloc me vb g = Some vb1 \<Longrightarrow> maps_only h k m vb vb1"
  by (auto simp: block_gpu_state_get_alloc_def maps_only_def same_data_def gpu_st_def set_gpu_st_def
           split: option.splits if_splits)

lemma uvm_va_block_map_maps_only:
  assumes "uvm_va_block_map me vb g rg mm prot = (st, vb')"
  shows "maps_only g (get_gpu_pte_bit_index prot) (\<lambda>p. in_region rg p \<and> mm p) vb vb'"
proof (cases "block_gpu_state_get_alloc me vb g")
  case None
  then show ?thesis using assms by (auto simp: uvm_va_block_map_def split: if_splits)
next
  case (Some vb1)
  define run where
    "run = (\<lambda>p. in_region rg p \<and> mm p \<and> \<not> gs_pte_bits (gpu_st vb1 g) (get_gpu_pte_bit_index prot) p)"
  have "vb' = vb \<or> vb' = vb1 \<or>
    map_loop me vb1 g (me_closest me g (map_get_allowed_destinations me vb1 g)) rg run prot = (st, vb')"
    using assms Some by (auto simp: uvm_va_block_map_def Let_def run_def split: if_splits)
  moreover have "maps_only g (get_gpu_pte_bit_index prot) (\<lambda>p. in_region rg p \<and> mm p) vb vb1"
    by (rule gpu_state_alloc_maps_only [OF Some])
  moreover have "maps_only g (get_gpu_pte_bit_index prot) (\<lambda>p. in_region rg p \<and> mm p) vb1 vb'"
    if "map_loop me vb1 g (me_closest me g (map_get_allowed_destinations me vb1 g)) rg run prot = (st, vb')"
    by (rule maps_only_mono [OF map_loop_maps_only [OF that]]) (simp add: run_def)
  ultimately show ?thesis
    by (auto intro: maps_only_trans)
qed

text \<open>The per-residency loop maps every requested page resident at a visited processor.\<close>

lemma map_loop_complete:
  assumes "map_loop me vb g rs rg m prot = (NV_OK, vb')"
    and "\<And>p. m p \<Longrightarrow> in_region rg p \<and> p < PAGES_PER_UVM_VA_BLOCK"
    and "m p" "r \<in> set rs" "resident_mask_get vb r p" "b \<le> get_gpu_pte_bit_index prot"
  shows "gs_pte_bits (gpu_st vb' g) b p"
  using assms
proof (induction rs arbitrary: vb m)
  case (Cons r0 rs)
  obtain s vb1 m1 where step: "block_map_gpu_to me vb g r0 m prot = (s, vb1, m1)"
    by (cases "block_map_gpu_to me vb g r0 m prot") auto
  have s: "s = NV_OK"
    using Cons.prems(1) step by (auto split: if_splits)
  note first = map_gpu_to_maps_only [OF step]
  have res: "resident_mask_get vb1 r p"
    using Cons.prems(5) first(1) same_data_resident_mask [of vb vb1 r] by (simp add: maps_only_def)
  have p512: "p < PAGES_PER_UVM_VA_BLOCK" and pin: "in_region rg p"
    using Cons.prems(2,3) by auto
  have m1: "m1 p \<or> gs_pte_bits (gpu_st vb1 g) b p"
    using step s Cons.prems(3,6) unfolding block_map_gpu_to_def Let_def
    by (auto simp: set_bits_def split: if_splits)
  have hit: "gs_pte_bits (gpu_st vb1 g) b p" if "r = r0"
    using step s Cons.prems(3,5,6) p512 that unfolding block_map_gpu_to_def Let_def
    by (auto simp: set_bits_def mask_any_iff split: if_splits)
  show ?case
  proof (cases "region_any rg m1")
    case False
    then have "gs_pte_bits (gpu_st vb1 g) b p"
      using m1 pin by (auto simp: region_any_iff)
    then show ?thesis using Cons.prems(1) step s False by simp
  next
    case True
    then have rest: "map_loop me vb1 g rs rg m1 prot = (NV_OK, vb')"
      using Cons.prems(1) step s by simp
    show ?thesis
    proof (cases "gs_pte_bits (gpu_st vb1 g) b p")
      case True
      with map_loop_maps_only [OF rest] show ?thesis by (simp add: maps_only_def)
    next
      case False
      then have "m1 p" "r \<in> set rs" using m1 hit Cons.prems(4) by auto
      with Cons.IH [OF rest _ _ _ res Cons.prems(6)] Cons.prems(2) first(2) show ?thesis by blast
    qed
  qed
qed simp

text \<open>An environment in which no allocation, push or tracker operation fails.\<close>

definition map_env_ok :: "map_env \<Rightarrow> bool" where
  "map_env_ok me \<longleftrightarrow> closest_ok me \<and>
     (\<forall>s g. me_proc_mask_alloc me s g \<and> me_state_alloc me s g) \<and>
     (\<forall>s g r. me_push me s g r = NV_OK \<and> me_track me s g r = NV_OK) \<and>
     (\<forall>s. me_tracker_merge me s = NV_OK)"

lemma map_loop_ok: "map_env_ok me \<Longrightarrow> fst (map_loop me vb g rs rg m prot) = NV_OK"
  by (induction rs arbitrary: vb m)
     (auto simp: map_env_ok_def block_map_gpu_to_def Let_def split: prod.splits)

lemma uvm_va_block_map_ok: "map_env_ok me \<Longrightarrow> fst (uvm_va_block_map me vb g rg mm prot) = NV_OK"
  using map_loop_ok [of me]
  by (auto simp: uvm_va_block_map_def Let_def block_gpu_state_get_alloc_def map_env_ok_def split: option.splits)

text \<open>A GPU may map the pages it holds itself.\<close>

definition maps_locally :: "map_env \<Rightarrow> va_block \<Rightarrow> proc_id \<Rightarrow> bool" where
  "maps_locally me vb g \<longleftrightarrow> UVM_ID_IS_GPU g \<and> g \<in> set (vb_resident vb) \<and> me_gpu_va_space me g \<and>
     me_can_access me g g \<and> (me_lite me (vb_start vb) g \<longrightarrow> me_preferred me (vb_start vb) = Some g)"

lemma uvm_va_block_map_complete:
  assumes ok: "map_env_ok me" and map: "uvm_va_block_map me vb g rg mm prot = (NV_OK, vb')"
    and loc: "maps_locally me vb g" and p: "in_region rg p" "mm p" "p < PAGES_PER_UVM_VA_BLOCK"
    and res: "gs_resident (gpu_st vb g) p" and rg: "snd rg \<le> PAGES_PER_UVM_VA_BLOCK"
  shows "gs_pte_bits (gpu_st vb' g) (get_gpu_pte_bit_index prot) p"
proof -
  obtain vb1 where vb1: "block_gpu_state_get_alloc me vb g = Some vb1"
    using ok by (cases "vb_gpu_state vb g") (auto simp: block_gpu_state_get_alloc_def map_env_ok_def)
  have mo: "maps_only g k m vb vb1" for k m
    by (rule gpu_state_alloc_maps_only [OF vb1])
  then have sd: "same_data vb vb1" by (simp add: maps_only_def)
  define k where "k = get_gpu_pte_bit_index prot"
  define run where "run = (\<lambda>q. in_region rg q \<and> mm q \<and> \<not> gs_pte_bits (gpu_st vb1 g) k q)"
  show ?thesis
  proof (cases "gs_pte_bits (gpu_st vb1 g) k p")
    case True
    have "maps_only g k (\<lambda>p. in_region rg p \<and> mm p) vb1 vb'"
    proof -
      have "vb' = vb1 \<or> map_loop me vb1 g (me_closest me g (map_get_allowed_destinations me vb1 g)) rg run prot = (NV_OK, vb')"
        using map vb1 loc ok
        by (auto simp: uvm_va_block_map_def Let_def run_def k_def maps_locally_def map_env_ok_def split: if_splits)
      then show ?thesis
        by (auto simp: k_def run_def intro: maps_only_mono [OF map_loop_maps_only])
    qed
    with True show ?thesis by (simp add: maps_only_def k_def)
  next
    case False
    then have "run p" using p by (simp add: run_def)
    then have any: "mask_any run" using p(3) by (auto simp: mask_any_iff)
    have loop: "map_loop me vb1 g (me_closest me g (map_get_allowed_destinations me vb1 g)) rg run prot = (NV_OK, vb')"
      using map vb1 loc ok any
      by (auto simp: uvm_va_block_map_def Let_def run_def k_def maps_locally_def map_env_ok_def split: if_splits)
    have "g \<in> set (map_get_allowed_destinations me vb1 g)"
      using loc sd by (auto simp: map_get_allowed_destinations_def Let_def maps_locally_def same_data_def)
    then have g: "g \<in> set (me_closest me g (map_get_allowed_destinations me vb1 g))"
      using ok by (simp add: map_env_ok_def closest_ok_def)
    have r: "resident_mask_get vb1 g p"
      using res sd loc by (simp add: resident_mask_get_def same_data_def maps_locally_def)
    show ?thesis
      by (rule map_loop_complete [OF loop _ \<open>run p\<close> g r]) (use rg in \<open>auto simp: run_def in_region_def\<close>)
  qed
qed

lemma maps_locally_same_data: "same_data vb vb' \<Longrightarrow> maps_locally me vb' g = maps_locally me vb g"
  by (simp add: maps_locally_def same_data_def)

lemma map_procs_keeps:
  "map_procs me vb is rg mm prot = (st, vb') \<Longrightarrow>
   same_data vb vb' \<and> (\<forall>h b p. gs_pte_bits (gpu_st vb h) b p \<longrightarrow> gs_pte_bits (gpu_st vb' h) b p)"
proof (induction "is" arbitrary: vb)
  case (Cons i "is")
  obtain s vb1 where s: "uvm_va_block_map me vb i rg mm prot = (s, vb1)" by fastforce
  note mo = uvm_va_block_map_maps_only [OF s, unfolded maps_only_def]
  show ?case
  proof (cases "s = NV_OK")
    case True
    then have "map_procs me vb1 is rg mm prot = (st, vb')" using Cons.prems s by simp
    from Cons.IH [OF this] mo show ?thesis by (blast intro: same_data_trans)
  next
    case False
    then show ?thesis using Cons.prems s mo by auto
  qed
qed simp

lemma map_procs_complete:
  assumes "map_env_ok me" "map_procs me vb is rg mm prot = (st, vb')" "g \<in> set is"
    and "maps_locally me vb g" "in_region rg p" "mm p" "p < PAGES_PER_UVM_VA_BLOCK"
    and "gs_resident (gpu_st vb g) p" "snd rg \<le> PAGES_PER_UVM_VA_BLOCK"
  shows "gs_pte_bits (gpu_st vb' g) (get_gpu_pte_bit_index prot) p"
  using assms(2-)
proof (induction "is" arbitrary: vb)
  case (Cons i "is")
  obtain vb1 where s: "uvm_va_block_map me vb i rg mm prot = (NV_OK, vb1)"
    using uvm_va_block_map_ok [OF assms(1), of vb i rg mm prot]
    by (cases "uvm_va_block_map me vb i rg mm prot") auto
  then have rest: "map_procs me vb1 is rg mm prot = (st, vb')" using Cons.prems(1) by simp
  have sd: "same_data vb vb1"
    using uvm_va_block_map_maps_only [OF s] by (simp add: maps_only_def)
  show ?case
  proof (cases "g = i")
    case True
    have "gs_pte_bits (gpu_st vb1 g) (get_gpu_pte_bit_index prot) p"
      by (rule uvm_va_block_map_complete [OF assms(1), of vb g rg mm]) (use s True Cons.prems in auto)
    with map_procs_keeps [OF rest] show ?thesis by blast
  next
    case False
    have "gs_resident (gpu_st vb1 g) p" using Cons.prems(7) sd by (simp add: same_data_def)
    with Cons.IH [OF rest] False Cons.prems maps_locally_same_data [OF sd] show ?thesis by simp
  qed
qed simp

section \<open>A sample block\<close>

definition sample_me :: map_env where
  "sample_me = \<lparr>me_ctx_alloc = (\<lambda>_. True), me_proc_mask_alloc = (\<lambda>_ _. True), me_closest = (\<lambda>_ ps. ps),
     me_push = (\<lambda>_ _ _. NV_OK), me_track = (\<lambda>_ _ _. NV_OK), me_tracker_merge = (\<lambda>_. NV_OK),
     me_gpu_va_space = (\<lambda>_. True), me_state_alloc = (\<lambda>_ _. True), me_lite = (\<lambda>_ _. False),
     me_preferred = (\<lambda>_. None), me_read_dup = (\<lambda>_. False), me_force_sysmem = False,
     me_has_memory = (\<lambda>_. True), me_can_access = (\<lambda>_ _. True), me_native_atomics = (\<lambda>_ _. True),
     me_system_atomics = (\<lambda>_. True), me_faultable = (\<lambda>_. True),
     me_logical_prot = (\<lambda>_ _. UVM_PROT_READ_WRITE_ATOMIC), me_might_dup = (\<lambda>_ _. False),
     me_authorized = (\<lambda>_ _. [])\<rparr>"

text \<open>One 4 KB page at 2 MB, resident on GPU 1 and mapped there for writing.\<close>

definition sample_block :: va_block where
  "sample_block = \<lparr>vb_start = 2097152, vb_end = 2101247, vb_resident = [1], vb_mapped = [1],
     vb_cpu_resident = (\<lambda>_. False), vb_cpu_write = (\<lambda>_. False), vb_cpu_data = (\<lambda>_ _. 0),
     vb_gpu_state = [1 \<mapsto> \<lparr>gs_resident = (\<lambda>p. p = 0), gs_pte_bits = (\<lambda>b p. b < 2 \<and> p = 0),
        gs_phys = (\<lambda>p. \<lparr>pa_aperture = 1, pa_address = 65536 + 4096 * p\<rparr>)\<rparr>],
     vb_dirty = False, vb_tracking = False\<rparr>"

lemma sample_me_ok: "map_env_ok sample_me" "closest_ok sample_me"
  by (simp_all add: map_env_ok_def closest_ok_def sample_me_def)

lemma sample_block_wf: "block_wf sample_block"
  by (auto simp: block_wf_def sample_block_def block_num_pages_def gpu_st_def resident_mask_get_def
                 UVM_ID_IS_GPU_def empty_gpu_state_def split: if_splits)

end
