(* ===== verification/Fault_Service.thy ===== *)
theory Fault_Service
  imports Block_Perms
begin

text \<open>
  Dirty recording: the write-fault record of \<open>uvm_live_migration.c\<close> and the part of
  \<open>uvm_va_block_service_finish\<close> (\<open>uvm_va_block.c\<close>) that calls it, for a faulting GPU:
  choosing protections, the bulk restore of a tracked block, recording, revoking other
  processors and mapping the requester. The mappings it then adds for SetAccessedBy and
  thrashing processors are not modelled.
\<close>

section \<open>Recording a write fault\<close>

record fault_ctrs =
  g_migration_write_fault_count :: "64 word"
  g_fault_log_count :: "64 word"

datatype fault_log =
    Detail "64 word" nat bool     \<comment> \<open>count, address, dirty before\<close>
  | Summary "64 word" nat

abbreviation FAULT_LOG_DETAIL_LIMIT :: "64 word" where "FAULT_LOG_DETAIL_LIMIT \<equiv> 200"
abbreviation FAULT_LOG_SUMMARY_INTERVAL :: "64 word" where "FAULT_LOG_SUMMARY_INTERVAL \<equiv> 1000"

definition record_write_fault ::
  "fault_ctrs \<Rightarrow> va_block \<Rightarrow> nat \<Rightarrow> fault_ctrs \<times> va_block \<times> fault_log list" where
  "record_write_fault fc vb addr =
     (if \<not> vb_tracking vb then (fc, vb, [])
      else let count = g_migration_write_fault_count fc + 1;
               log_count = g_fault_log_count fc + 1
           in (\<lparr>g_migration_write_fault_count = count, g_fault_log_count = log_count\<rparr>,
               vb\<lparr>vb_dirty := True\<rparr>,
               if log_count \<le> FAULT_LOG_DETAIL_LIMIT then [Detail count addr (vb_dirty vb)]
               else if log_count mod FAULT_LOG_SUMMARY_INTERVAL = 0 then [Summary count addr]
               else []))"

definition reset_tracking :: "fault_ctrs \<Rightarrow> fault_ctrs" where
  "reset_tracking fc = \<lparr>g_migration_write_fault_count = 0, g_fault_log_count = 0\<rparr>"

section \<open>Fault servicing\<close>

type_synonym prot_maps = "uvm_prot \<Rightarrow> 32 word \<times> page_mask"   \<comment> \<open>\<open>mappings_by_prot\<close>: count, mask\<close>

text \<open>
  The fields of the service context: \<open>sc_maps\<close> holds whatever an earlier fault left in the
  per-protection masks, \<open>sc_access\<close> the protection each page's access asks for.
\<close>

record service_ctx =
  sc_region :: region
  sc_new_residency :: proc_id
  sc_new_residency_mask :: page_mask
  sc_did_migrate :: page_mask
  sc_access :: "nat \<Rightarrow> uvm_prot"
  sc_maps :: prot_maps
  sc_thrash_count :: nat
  sc_thrash_mask :: page_mask
  sc_tools :: bool
  sc_revoke_alloc :: bool       \<comment> \<open>\<open>uvm_processor_mask_cache_alloc\<close> succeeds\<close>

definition compute_new_permission ::
  "map_env \<Rightarrow> va_block \<Rightarrow> nat \<Rightarrow> proc_id \<Rightarrow> proc_id \<Rightarrow> uvm_prot \<Rightarrow> uvm_prot" where
  "compute_new_permission me vb p proc residency access =
     (let lp = me_logical_prot me (vb_start vb) p;
          np = (if lp > UVM_PROT_READ_ONLY \<and> access = UVM_PROT_READ_ONLY \<and> \<not> me_might_dup me (vb_start vb) p
                   \<and> filter (\<lambda>i. \<not> me_native_atomics me residency i \<and> me_faultable me i)
                       (me_authorized me (vb_start vb) p) = []
                then UVM_PROT_READ_WRITE else access)
      in if lp = UVM_PROT_READ_WRITE_ATOMIC \<and> np = UVM_PROT_READ_WRITE \<and> me_native_atomics me residency proc
         then UVM_PROT_READ_WRITE_ATOMIC else np)"

text \<open>Step 1: one page is added to the mask of its protection, zeroing a mask on first use.\<close>

definition add_page :: "uvm_prot \<Rightarrow> nat \<Rightarrow> prot_maps \<Rightarrow> prot_maps" where
  "add_page q p mp =
     mp(q := (fst (mp q) + 1, (if fst (mp q) = 0 then (\<lambda>_. False) else snd (mp q))(p := True)))"

definition finish_compute :: "map_env \<Rightarrow> va_block \<Rightarrow> proc_id \<Rightarrow> service_ctx \<Rightarrow> prot_maps" where
  "finish_compute me vb proc sc =
     fold (\<lambda>p mp. add_page (compute_new_permission me vb p proc (sc_new_residency sc) (sc_access sc p)) p mp)
          (filter (sc_new_residency_mask sc) [fst (sc_region sc)..<snd (sc_region sc)])
          (\<lambda>q. (0, snd (sc_maps sc q)))"

text \<open>The bulk restore: read-write pages become read-write-atomic, then all resident pages do.\<close>

definition bulk_move :: "nat \<Rightarrow> prot_maps \<Rightarrow> prot_maps" where
  "bulk_move p mp =
     mp(UVM_PROT_READ_WRITE :=
          (fst (mp UVM_PROT_READ_WRITE) - 1, (snd (mp UVM_PROT_READ_WRITE))(p := False)),
        UVM_PROT_READ_WRITE_ATOMIC :=
          (fst (mp UVM_PROT_READ_WRITE_ATOMIC) + 1, (snd (mp UVM_PROT_READ_WRITE_ATOMIC))(p := True)))"

definition bulk_add :: "nat \<Rightarrow> prot_maps \<Rightarrow> prot_maps" where
  "bulk_add p mp =
     (if snd (mp UVM_PROT_READ_WRITE_ATOMIC) p then mp
      else mp(UVM_PROT_READ_ONLY :=
                (fst (mp UVM_PROT_READ_ONLY), (snd (mp UVM_PROT_READ_ONLY))(p := False)),
              UVM_PROT_READ_WRITE_ATOMIC :=
                (fst (mp UVM_PROT_READ_WRITE_ATOMIC) + 1, (snd (mp UVM_PROT_READ_WRITE_ATOMIC))(p := True))))"

definition finish_bulk_restore :: "va_block \<Rightarrow> proc_id \<Rightarrow> proc_id \<Rightarrow> region \<Rightarrow> prot_maps \<Rightarrow> region \<times> prot_maps" where
  "finish_bulk_restore vb proc residency rg mp =
     (if vb_tracking vb \<and> UVM_ID_IS_GPU proc \<and> proc = residency then
        let pages = [0..<block_num_pages vb];
            mp1 = fold bulk_move (filter (snd (mp UVM_PROT_READ_WRITE)) pages) mp;
            mp2 = fold bulk_add (filter (resident_mask_get vb residency) pages) mp1
        in (block_region vb, mp2)
      else (rg, mp))"

text \<open>Recording: every page of the region mapped for writing is a write fault.\<close>

fun record_faults ::
  "fault_ctrs \<Rightarrow> va_block \<Rightarrow> nat list \<Rightarrow> fault_ctrs \<times> va_block \<times> fault_log list" where
  "record_faults fc vb [] = (fc, vb, [])"
| "record_faults fc vb (p # ps) =
     (case record_write_fault fc vb (u64 (vb_start vb + p * PAGE_SIZE)) of
        (fc', vb', log) \<Rightarrow> (case record_faults fc' vb' ps of (fc'', vb'', log') \<Rightarrow> (fc'', vb'', log @ log')))"

definition finish_record ::
  "fault_ctrs \<Rightarrow> va_block \<Rightarrow> proc_id \<Rightarrow> region \<Rightarrow> prot_maps \<Rightarrow> fault_ctrs \<times> va_block \<times> fault_log list" where
  "finish_record fc vb proc rg mp =
     (if vb_tracking vb \<and> UVM_ID_IS_GPU proc then
        record_faults fc vb
          (filter (\<lambda>p. snd (mp UVM_PROT_READ_WRITE) p \<or> snd (mp UVM_PROT_READ_WRITE_ATOMIC) p)
             [fst rg..<snd rg])
      else (fc, vb, []))"

text \<open>Step 2: revoke the other processors' conflicting permissions.\<close>

fun finish_revoke ::
  "map_env \<Rightarrow> va_block \<Rightarrow> proc_id \<Rightarrow> service_ctx \<Rightarrow> region \<Rightarrow> prot_maps \<Rightarrow> uvm_prot list \<Rightarrow> nv_status \<times> va_block" where
  "finish_revoke me vb proc sc rg mp [] = (NV_OK, vb)"
| "finish_revoke me vb proc sc rg mp (np # nps) =
     (let residency = sc_new_residency sc;
          rmask = (\<lambda>p. sc_new_residency_mask sc p \<and> \<not> sc_did_migrate sc p \<and> snd (mp np) p);
          base = filter (\<lambda>i. me_faultable me i \<and> i \<noteq> proc) (vb_mapped vb);
          kept = (if np = UVM_PROT_READ_WRITE \<or> \<not> me_system_atomics me proc \<or> me_native_atomics me residency proc
                  then filter (\<lambda>i. \<not> me_native_atomics me residency i \<and> me_system_atomics me i) base
                  else base);
          procs = filter (\<lambda>i. \<not> me_lite me (vb_start vb) i) kept;
          rprot = (if \<not> UVM_ID_IS_GPU proc then UVM_PROT_READ_WRITE_ATOMIC
                   else if np = UVM_PROT_READ_WRITE_ATOMIC then UVM_PROT_READ_WRITE
                   else UVM_PROT_READ_WRITE_ATOMIC)
      in if fst (mp np) = 0 \<or> \<not> mask_any rmask \<or> procs = [] then finish_revoke me vb proc sc rg mp nps
         else case uvm_va_block_revoke_prot_mask me vb procs rg rmask rprot of
           (st, vb') \<Rightarrow> if st \<noteq> NV_OK then (st, vb') else finish_revoke me vb' proc sc rg mp nps)"

text \<open>Step 3: map the requester, thrashing pages first when tools are enabled.\<close>

fun finish_map ::
  "map_env \<Rightarrow> va_block \<Rightarrow> proc_id \<Rightarrow> service_ctx \<Rightarrow> region \<Rightarrow> prot_maps \<Rightarrow> uvm_prot list \<Rightarrow> nv_status \<times> va_block" where
  "finish_map me vb proc sc rg mp [] = (NV_OK, vb)"
| "finish_map me vb proc sc rg mp (np # nps) =
     (let mask = snd (mp np);
          thrash = (\<lambda>p. mask p \<and> sc_thrash_mask sc p);
          rest = (\<lambda>p. mask p \<and> \<not> sc_thrash_mask sc p)
      in if fst (mp np) = 0 then finish_map me vb proc sc rg mp nps
         else if sc_thrash_count sc > 0 \<and> sc_tools sc \<and> mask_any thrash then
           (case uvm_va_block_map me vb proc rg thrash np of
              (st, vb1) \<Rightarrow>
                if st \<noteq> NV_OK then (st, vb1)
                else if \<not> mask_any rest then finish_map me vb1 proc sc rg mp nps
                else case uvm_va_block_map me vb1 proc rg rest np of
                  (st2, vb2) \<Rightarrow> if st2 \<noteq> NV_OK then (st2, vb2) else finish_map me vb2 proc sc rg mp nps)
         else case uvm_va_block_map me vb proc rg mask np of
           (st, vb1) \<Rightarrow> if st \<noteq> NV_OK then (st, vb1) else finish_map me vb1 proc sc rg mp nps)"

definition service_finish_gpu ::
  "map_env \<Rightarrow> fault_ctrs \<Rightarrow> va_block \<Rightarrow> proc_id \<Rightarrow> service_ctx \<Rightarrow> nv_status \<times> fault_ctrs \<times> va_block \<times> fault_log list" where
  "service_finish_gpu me fc vb proc sc =
     (if \<not> sc_revoke_alloc sc then (NV_ERR_NO_MEMORY, fc, vb, [])
      else let mp0 = finish_compute me vb proc sc;
               (rg, mp) = finish_bulk_restore vb proc (sc_new_residency sc) (sc_region sc) mp0;
               (fc', vb1, log) = finish_record fc vb proc rg mp;
               (st, vb2) = finish_revoke me vb1 proc sc rg mp [UVM_PROT_READ_WRITE, UVM_PROT_READ_WRITE_ATOMIC]
           in if st \<noteq> NV_OK then (st, fc', vb2, log)
              else let (st3, vb3) = finish_map me vb2 proc sc rg mp
                                      [UVM_PROT_READ_ONLY, UVM_PROT_READ_WRITE, UVM_PROT_READ_WRITE_ATOMIC]
                   in (st3, fc', vb3, log))"

text \<open>\<open>uvm_va_block_service_locked\<close> asks for no prefetch hint on a tracked block.\<close>

definition prefetch_residency :: "va_block \<Rightarrow> proc_id option \<Rightarrow> proc_id option" where
  "prefetch_residency vb hint = (if vb_tracking vb then None else hint)"

section \<open>Recording is complete\<close>

text \<open>All but the dirty flag is kept by recording.\<close>

lemma record_write_fault_block:
  "record_write_fault fc vb a = (fc', vb', log) \<Longrightarrow> vb' = (if vb_tracking vb then vb\<lparr>vb_dirty := True\<rparr> else vb)"
  by (auto simp: record_write_fault_def Let_def split: if_splits)

lemma record_faults_block:
  "record_faults fc vb ps = (fc', vb', log) \<Longrightarrow>
   vb' = (if vb_tracking vb \<and> ps \<noteq> [] then vb\<lparr>vb_dirty := True\<rparr> else vb)"
proof (induction ps arbitrary: fc vb log)
  case (Cons p ps)
  obtain fc1 vb1 l1 where s: "record_write_fault fc vb (u64 (vb_start vb + p * PAGE_SIZE)) = (fc1, vb1, l1)"
    by (cases "record_write_fault fc vb (u64 (vb_start vb + p * PAGE_SIZE))") auto
  then obtain l2 where r: "record_faults fc1 vb1 ps = (fc', vb', l2)"
    using Cons.prems by (auto split: prod.splits)
  show ?case
    using Cons.IH [OF r] record_write_fault_block [OF s] by (auto split: if_splits)
qed simp

lemma record_faults_count:
  "record_faults fc vb ps = (fc', vb', log) \<Longrightarrow> vb_tracking vb \<Longrightarrow>
   g_migration_write_fault_count fc' = g_migration_write_fault_count fc + word_of_nat (length ps)"
proof (induction ps arbitrary: fc vb log)
  case (Cons p ps)
  obtain fc1 vb1 l1 where s: "record_write_fault fc vb (u64 (vb_start vb + p * PAGE_SIZE)) = (fc1, vb1, l1)"
    by (cases "record_write_fault fc vb (u64 (vb_start vb + p * PAGE_SIZE))") auto
  then obtain l2 where r: "record_faults fc1 vb1 ps = (fc', vb', l2)"
    using Cons.prems by (auto split: prod.splits)
  have "vb_tracking vb1"
    using record_write_fault_block [OF s] Cons.prems(2) by simp
  moreover have "g_migration_write_fault_count fc1 = g_migration_write_fault_count fc + 1"
    using s Cons.prems(2) by (auto simp: record_write_fault_def Let_def)
  ultimately show ?case
    using Cons.IH [OF r] by (simp add: add.assoc)
qed simp

lemma finish_record_block:
  "finish_record fc vb proc rg mp = (fc', vb', log) \<Longrightarrow>
   vb' = vb\<lparr>vb_dirty := vb_dirty vb \<or> (vb_tracking vb \<and> UVM_ID_IS_GPU proc \<and>
      region_any rg (\<lambda>p. snd (mp UVM_PROT_READ_WRITE) p \<or> snd (mp UVM_PROT_READ_WRITE_ATOMIC) p))\<rparr>"
  by (auto simp: finish_record_def region_any_def list_ex_iff filter_empty_conv
           split: if_splits dest!: record_faults_block)

lemma finish_revoke_revokes: "finish_revoke me vb proc sc rg mp nps = (st, vb') \<Longrightarrow> revokes vb vb'"
proof (induction nps arbitrary: vb)
  case (Cons np nps)
  then show ?case
    by (auto simp: Let_def split: prod.splits if_splits
             dest!: revoke_mask_revokes intro: revokes_trans)
qed simp

text \<open>The pages the requester's mapping step can make writable.\<close>

definition write_mask :: "region \<Rightarrow> prot_maps \<Rightarrow> page_mask" where
  "write_mask rg mp p \<longleftrightarrow> in_region rg p \<and>
     (snd (mp UVM_PROT_READ_WRITE) p \<or> snd (mp UVM_PROT_READ_WRITE_ATOMIC) p)"

definition writes_only :: "page_mask \<Rightarrow> va_block \<Rightarrow> va_block \<Rightarrow> bool" where
  "writes_only m vb vb' \<longleftrightarrow> same_data vb vb' \<and>
     (\<forall>h p. gpu_can_write vb' h p \<longrightarrow> gpu_can_write vb h p \<or> m p)"

lemma writes_only_refl [simp]: "writes_only m vb vb"
  by (simp add: writes_only_def)

lemma writes_only_trans: "writes_only m a b \<Longrightarrow> writes_only m b c \<Longrightarrow> writes_only m a c"
  unfolding writes_only_def by (blast intro: same_data_trans)

lemma maps_only_can_write:
  "maps_only g k m vb vb' \<Longrightarrow> gpu_can_write vb' h p \<Longrightarrow> gpu_can_write vb h p \<or> (1 \<le> k \<and> m p)"
  unfolding maps_only_def gpu_can_write_def by blast

lemma map_writes_only:
  assumes "uvm_va_block_map me vb g rg mm np = (st, vb')" "\<And>p. mm p \<Longrightarrow> snd (mp np) p" "np \<noteq> UVM_PROT_NONE"
  shows "writes_only (write_mask rg mp) vb vb'"
proof -
  note mo = uvm_va_block_map_maps_only [OF assms(1)]
  have "gpu_can_write vb h p \<or> write_mask rg mp p" if "gpu_can_write vb' h p" for h p
    using maps_only_can_write [OF mo that] assms(2) [of p] assms(3)
    by (cases np) (auto simp: write_mask_def)
  with mo show ?thesis by (auto simp: maps_only_def writes_only_def)
qed

lemma finish_map_writes_only:
  "finish_map me vb proc sc rg mp nps = (st, vb') \<Longrightarrow> UVM_PROT_NONE \<notin> set nps \<Longrightarrow>
   writes_only (write_mask rg mp) vb vb'"
proof (induction nps arbitrary: vb)
  case (Cons np nps)
  then have np: "np \<noteq> UVM_PROT_NONE" and IH: "\<And>vb. finish_map me vb proc sc rg mp nps = (st, vb') \<Longrightarrow>
    writes_only (write_mask rg mp) vb vb'"
    by auto
  note m = map_writes_only [OF _ _ np, where mp = mp]
  show ?case
    using Cons.prems(1)
    by (auto simp: Let_def split: prod.splits if_splits
             dest!: m IH intro: writes_only_trans)
qed simp

lemma revokes_writes_only: "revokes vb vb' \<Longrightarrow> writes_only m vb vb'"
  by (auto simp: revokes_def writes_only_def perms_le_def gpu_can_write_def)

text \<open>Servicing a fault never makes a page writable in a tracked block without marking it dirty.\<close>

lemma service_finish_no_lost_write:
  assumes "service_finish_gpu me fc vb proc sc = (st, fc', vb', log)" "UVM_ID_IS_GPU proc" "vb_tracking vb"
  shows "vb_tracking vb'" and "block_num_pages vb' = block_num_pages vb" and "vb_dirty vb \<Longrightarrow> vb_dirty vb'"
    and "gpu_can_write vb' h p \<Longrightarrow> \<not> gpu_can_write vb h p \<Longrightarrow> vb_dirty vb'"
proof -
  have "vb_tracking vb' \<and> block_num_pages vb' = block_num_pages vb \<and> (vb_dirty vb \<longrightarrow> vb_dirty vb') \<and>
        (gpu_can_write vb' h p \<longrightarrow> \<not> gpu_can_write vb h p \<longrightarrow> vb_dirty vb')"
  proof (cases "sc_revoke_alloc sc")
    case False
    then show ?thesis using assms by (simp add: service_finish_gpu_def)
  next
    case True
    define mp0 where "mp0 = finish_compute me vb proc sc"
    obtain rg mp where bulk: "finish_bulk_restore vb proc (sc_new_residency sc) (sc_region sc) mp0 = (rg, mp)"
      by fastforce
    obtain fc1 vb1 lg where rec: "finish_record fc vb proc rg mp = (fc1, vb1, lg)"
      by (cases "finish_record fc vb proc rg mp") auto
    obtain st2 vb2 where rev:
      "finish_revoke me vb1 proc sc rg mp [UVM_PROT_READ_WRITE, UVM_PROT_READ_WRITE_ATOMIC] = (st2, vb2)"
      by fastforce
    have w12: "writes_only (write_mask rg mp) vb1 vb2"
      by (rule revokes_writes_only [OF finish_revoke_revokes [OF rev]])
    have w23: "writes_only (write_mask rg mp) vb2 vb'"
    proof (cases "st2 = NV_OK")
      case True
      obtain st3 vb3 where m: "finish_map me vb2 proc sc rg mp
          [UVM_PROT_READ_ONLY, UVM_PROT_READ_WRITE, UVM_PROT_READ_WRITE_ATOMIC] = (st3, vb3)"
        by fastforce
      then have "vb3 = vb'"
        using assms(1) \<open>sc_revoke_alloc sc\<close> bulk rec rev True
        by (simp add: service_finish_gpu_def mp0_def [symmetric] Let_def)
      with finish_map_writes_only [OF m] show ?thesis by simp
    next
      case False
      then show ?thesis
        using assms(1) \<open>sc_revoke_alloc sc\<close> bulk rec rev
        by (simp add: service_finish_gpu_def mp0_def [symmetric] Let_def)
    qed
    have w: "writes_only (write_mask rg mp) vb1 vb'"
      by (rule writes_only_trans [OF w12 w23])
    have vb1: "vb1 = vb\<lparr>vb_dirty := vb_dirty vb \<or> region_any rg (\<lambda>p. snd (mp UVM_PROT_READ_WRITE) p \<or>
        snd (mp UVM_PROT_READ_WRITE_ATOMIC) p)\<rparr>"
      using finish_record_block [OF rec] assms(2,3) by simp
    have "vb_dirty vb1" if "write_mask rg mp p" for p
      using that unfolding vb1 by (auto simp: write_mask_def region_any_iff)
    moreover have "gpu_can_write vb1 h p = gpu_can_write vb h p"
      unfolding vb1 by (simp add: gpu_can_write_def)
    ultimately show ?thesis
      using w assms(3) vb1 by (auto simp: writes_only_def same_data_def block_num_pages_def)
  qed
  then show "vb_tracking vb'" and "block_num_pages vb' = block_num_pages vb" and "vb_dirty vb \<Longrightarrow> vb_dirty vb'"
    and "gpu_can_write vb' h p \<Longrightarrow> \<not> gpu_can_write vb h p \<Longrightarrow> vb_dirty vb'"
    by blast+
qed

end
