(* ===== verification/Dirty_Tracking.thy ===== *)
theory Dirty_Tracking
  imports Fault_Service
begin

text \<open>
  The tracking ioctls of \<open>uvm_live_migration.c\<close> (PREPARE_ALL, GET_DIRTY_PAGES,
  GET_VA_RANGES, FINALIZE), the creation of blocks while tracking is active
  (\<open>uvm_va_range.c\<close>), and the state machine they form with fault servicing.
\<close>

section \<open>PREPARE_ALL\<close>

definition is_managed :: "va_range \<Rightarrow> bool" where
  "is_managed r \<longleftrightarrow> vr_type r = UVM_VA_RANGE_TYPE_MANAGED"

fun prepare_blocks :: "map_env \<Rightarrow> va_block list \<Rightarrow> nv_status \<times> va_block list" where
  "prepare_blocks me [] = (NV_OK, [])"
| "prepare_blocks me (vb # vbs) =
     (let vb1 = vb\<lparr>vb_dirty := False, vb_tracking := True\<rparr>
      in if vb_resident vb = [] then
           (case prepare_blocks me vbs of (st, vbs') \<Rightarrow> (st, vb1 # vbs'))
         else case uvm_va_block_revoke_prot_mask me vb1 (vb_resident vb1) (block_region vb1) (\<lambda>_. True)
                     UVM_PROT_READ_WRITE of
           (st, vb2) \<Rightarrow> if st \<noteq> NV_OK then (st, vb2 # vbs)
                       else case prepare_blocks me vbs of (st', vbs') \<Rightarrow> (st', vb2 # vbs'))"

fun prepare_ranges :: "map_env \<Rightarrow> va_range list \<Rightarrow> nv_status \<times> va_range list" where
  "prepare_ranges me [] = (NV_OK, [])"
| "prepare_ranges me (r # rs) =
     (if \<not> is_managed r then (case prepare_ranges me rs of (st, rs') \<Rightarrow> (st, r # rs'))
      else if \<not> me_ctx_alloc me (vr_start r) then (NV_ERR_NO_MEMORY, r # rs)
      else case prepare_blocks me (vr_blocks r) of
        (st, vbs) \<Rightarrow> if st \<noteq> NV_OK then (st, r\<lparr>vr_blocks := vbs\<rparr> # rs)
                    else case prepare_ranges me rs of (st', rs') \<Rightarrow> (st', r\<lparr>vr_blocks := vbs\<rparr> # rs'))"

definition prepare_va_space_for_migration :: "map_env \<Rightarrow> va_space \<Rightarrow> nv_status \<times> va_space" where
  "prepare_va_space_for_migration me vs =
     (case prepare_ranges me (vs_ranges vs) of
        (st, rs) \<Rightarrow> (st, if st = NV_OK then vs\<lparr>vs_ranges := rs, vs_tracking_active := True\<rparr>
                         else vs\<lparr>vs_ranges := rs\<rparr>))"

text \<open>The loop over the snapshot: it goes on after a failure and counts the successes.\<close>

fun prepare_spaces ::
  "map_env \<Rightarrow> nat \<Rightarrow> va_space list \<Rightarrow> nv_status \<Rightarrow> nat \<Rightarrow> nv_status \<times> nat \<times> va_space list \<times> lock_op list" where
  "prepare_spaces me i [] st n = (st, n, [], [])"
| "prepare_spaces me i (vs # vss) st n =
     (case prepare_va_space_for_migration me vs of
        (st1, vs1) \<Rightarrow>
          (case prepare_spaces me (Suc i) vss st1 (if st1 = NV_OK then Suc n else n) of
             (st2, n2, vss2, ops) \<Rightarrow> (st2, n2, vs1 # vss2, DownWrite i # UpWrite i # ops)))"

definition uvm_api_live_migration_prepare_all ::
  "uvm_env \<Rightarrow> map_env \<Rightarrow> va_space list \<Rightarrow> nv_status \<times> va_space list \<times> lock_op list" where
  "uvm_api_live_migration_prepare_all env me vss =
     (if \<not> env_capable env then (NV_ERR_INSUFFICIENT_PERMISSIONS, vss, [])
      else if vss \<noteq> [] \<and> \<not> env_alloc env A_va_snapshot (length vss)
           then (NV_ERR_NO_MEMORY, vss, [GLock, GUnlock])
      else case prepare_spaces me 0 vss NV_OK 0 of
        (st, n, vss', ops) \<Rightarrow>
          (if n > 0 then NV_OK else if length vss = 0 then NV_WARN_NOTHING_TO_DO else st,
           vss', GLock # GUnlock # ops))"

section \<open>GET_DIRTY_PAGES\<close>

record dirty_out =
  do_count :: nat
  do_mem :: mem
  do_status :: nv_status
  do_done :: bool              \<comment> \<open>\<open>goto done\<close> was taken\<close>

definition managed_blocks :: "va_space \<Rightarrow> va_block list" where
  "managed_blocks vs = concat (map vr_blocks (filter is_managed (vs_ranges vs)))"

definition dirty_block_step :: "uvm_env \<Rightarrow> nat \<Rightarrow> nat \<Rightarrow> va_block \<Rightarrow> dirty_out \<Rightarrow> dirty_out" where
  "dirty_block_step env buf mx vb d =
     (if do_done d then d
      else if \<not> vb_tracking vb then d
      else if \<not> vb_dirty vb then d
      else if do_count d \<ge> mx then d\<lparr>do_done := True\<rparr>
      else let a = u64 (buf + 8 * do_count d)
           in if \<not> env_copy env a 8 then d\<lparr>do_status := NV_ERR_INVALID_ADDRESS, do_done := True\<rparr>
              else d\<lparr>do_mem := write_mem (do_mem d) a (le_bytes 8 (vb_start vb)), do_count := do_count d + 1\<rparr>)"

fun dirty_spaces ::
  "uvm_env \<Rightarrow> nat \<Rightarrow> nat \<Rightarrow> nat \<Rightarrow> va_space list \<Rightarrow> dirty_out \<Rightarrow> dirty_out \<times> lock_op list" where
  "dirty_spaces env buf mx i [] d = (d, [])"
| "dirty_spaces env buf mx i (vs # vss) d =
     (let d' = fold (dirty_block_step env buf mx) (managed_blocks vs) d
      in if do_done d' then (d', [DownRead i])
         else case dirty_spaces env buf mx (Suc i) vss d' of (d'', ops) \<Rightarrow> (d'', DownRead i # UpRead i # ops))"

definition uvm_api_live_migration_get_dirty_pages ::
  "uvm_env \<Rightarrow> va_space list \<Rightarrow> nat \<Rightarrow> nat \<Rightarrow> mem \<Rightarrow> nv_status \<times> nat \<times> mem \<times> lock_op list" where
  "uvm_api_live_migration_get_dirty_pages env vss buf mx m =
     (case dirty_spaces env buf mx 0 vss \<lparr>do_count = 0, do_mem = m, do_status = NV_OK, do_done = False\<rparr> of
        (d, ops) \<Rightarrow> (do_status d, do_count d, do_mem d, GLock # ops @ [GUnlock]))"

section \<open>GET_VA_RANGES\<close>

text \<open>Collected pairs; a full array stops the loops with \<open>NV_ERR_BUFFER_TOO_SMALL\<close>.\<close>

fun collect_ranges :: "nat \<Rightarrow> va_range list \<Rightarrow> (nat \<times> nat) list \<Rightarrow> nv_status \<times> (nat \<times> nat) list" where
  "collect_ranges mx [] acc = (NV_OK, acc)"
| "collect_ranges mx (r # rs) acc =
     (if \<not> is_managed r then collect_ranges mx rs acc
      else if length acc \<ge> mx then (NV_ERR_BUFFER_TOO_SMALL, acc)
      else collect_ranges mx rs (acc @ [(vr_start r, u64 (vr_end r - vr_start r + 1))]))"

fun collect_spaces ::
  "nat \<Rightarrow> nat \<Rightarrow> va_space list \<Rightarrow> (nat \<times> nat) list \<Rightarrow> nv_status \<times> (nat \<times> nat) list \<times> lock_op list" where
  "collect_spaces mx i [] acc = (NV_OK, acc, [])"
| "collect_spaces mx i (vs # vss) acc =
     (case collect_ranges mx (vs_ranges vs) acc of
        (st, acc') \<Rightarrow>
          if st \<noteq> NV_OK then (st, acc', [DownRead i, UpRead i])
          else case collect_spaces mx (Suc i) vss acc' of
            (st', acc'', ops) \<Rightarrow> (st', acc'', DownRead i # UpRead i # ops))"

definition uvm_api_live_migration_get_va_ranges ::
  "uvm_env \<Rightarrow> va_space list \<Rightarrow> nat \<Rightarrow> nat \<Rightarrow> nat \<Rightarrow> mem \<Rightarrow> nv_status \<times> nat option \<times> mem \<times> lock_op list" where
  "uvm_api_live_migration_get_va_ranges env vss bases sizes mx m =
     (if \<not> env_capable env then (NV_ERR_INSUFFICIENT_PERMISSIONS, None, m, [])
      else if bases = 0 \<or> sizes = 0 \<or> mx = 0 then (NV_ERR_INVALID_ARGUMENT, None, m, [])
      else if \<not> env_alloc env A_k_bases mx \<or> \<not> env_alloc env A_k_sizes mx then (NV_ERR_NO_MEMORY, None, m, [])
      else case collect_spaces mx 0 vss [] of
        (st, acc, ops) \<Rightarrow>
          let n = length acc;
              locks = GLock # ops @ [GUnlock];
              m1 = write_mem m bases (concat (map (le_bytes 8 \<circ> fst) acc));
              m2 = write_mem m1 sizes (concat (map (le_bytes 8 \<circ> snd) acc))
          in if \<not> env_copy env bases (8 * n) then (NV_ERR_INVALID_ARGUMENT, Some n, m, locks)
             else if \<not> env_copy env sizes (8 * n) then (NV_ERR_INVALID_ARGUMENT, Some n, m1, locks)
             else (st, Some n, m2, locks))"

section \<open>FINALIZE\<close>

definition finalize_block :: "map_env \<Rightarrow> va_block \<Rightarrow> va_block" where
  "finalize_block me vb =
     (let vb1 = vb\<lparr>vb_tracking := False, vb_dirty := False\<rparr>
      in if vb_resident vb = [] then vb1
         else snd (uvm_va_block_map_mask me vb1 (vb_resident vb1) (block_region vb1) (\<lambda>_. True)
                     UVM_PROT_READ_WRITE_ATOMIC))"

definition finalize_range :: "map_env \<Rightarrow> va_range \<Rightarrow> va_range" where
  "finalize_range me r =
     (if \<not> is_managed r then r
      else if \<not> me_ctx_alloc me (vr_start r) then r
      else r\<lparr>vr_blocks := map (finalize_block me) (vr_blocks r)\<rparr>)"

definition finalize_va_space :: "map_env \<Rightarrow> va_space \<Rightarrow> va_space" where
  "finalize_va_space me vs =
     vs\<lparr>vs_tracking_active := False, vs_ranges := map (finalize_range me) (vs_ranges vs)\<rparr>"

definition uvm_api_live_migration_finalize ::
  "uvm_env \<Rightarrow> map_env \<Rightarrow> va_space list \<Rightarrow> nv_status \<times> va_space list \<times> lock_op list" where
  "uvm_api_live_migration_finalize env me vss =
     (if \<not> env_capable env then (NV_ERR_INSUFFICIENT_PERMISSIONS, vss, [])
      else (NV_OK, map (finalize_va_space me) vss,
            GLock # concat (map (\<lambda>i. [DownWrite i, UpWrite i]) [0..<length vss]) @ [GUnlock]))"

section \<open>Blocks created on first touch\<close>

abbreviation UVM_VA_BLOCK_SIZE :: nat where "UVM_VA_BLOCK_SIZE \<equiv> 2097152"

definition block_calc_start :: "va_range \<Rightarrow> nat \<Rightarrow> nat" where
  "block_calc_start r idx =
     max (vr_start r) (u64 (vr_start r div UVM_VA_BLOCK_SIZE * UVM_VA_BLOCK_SIZE + idx * UVM_VA_BLOCK_SIZE))"

definition block_calc_end :: "va_range \<Rightarrow> nat \<Rightarrow> nat" where
  "block_calc_end r idx =
     min (vr_end r)
       ((block_calc_start r idx + 1 + (UVM_VA_BLOCK_SIZE - 1)) div UVM_VA_BLOCK_SIZE * UVM_VA_BLOCK_SIZE - 1)"

text \<open>
  \<open>uvm_va_range_block_create\<close>: \<open>create\<close> is \<open>uvm_va_block_create\<close>. A block that is already
  there (inserted before, or by the winner of a race) is left alone.
\<close>

definition uvm_va_range_block_create ::
  "(nat \<Rightarrow> nat \<Rightarrow> nv_status + va_block) \<Rightarrow> bool \<Rightarrow> va_range \<Rightarrow> nat \<Rightarrow> nv_status \<times> va_range" where
  "uvm_va_range_block_create create active r idx =
     (let s = block_calc_start r idx
      in if s \<in> set (map vb_start (vr_blocks r)) then (NV_OK, r)
         else case create s (block_calc_end r idx) of
           Inl st \<Rightarrow> (st, r)
         | Inr vb \<Rightarrow>
             let vb' = (if active then vb\<lparr>vb_dirty := False, vb_tracking := True\<rparr> else vb)
             in (NV_OK, r\<lparr>vr_blocks := insort_key vb_start vb' (vr_blocks r)\<rparr>))"

section \<open>What PREPARE_ALL establishes\<close>

text \<open>A tracked block that some GPU can write to is marked dirty.\<close>

definition gpu_writable :: "va_block \<Rightarrow> bool" where
  "gpu_writable vb \<longleftrightarrow> (\<exists>g p. UVM_ID_IS_GPU g \<and> p < block_num_pages vb \<and> gpu_can_write vb g p)"

definition block_tracked_ok :: "va_block \<Rightarrow> bool" where
  "block_tracked_ok vb \<longleftrightarrow> vb_tracking vb \<and> (gpu_writable vb \<longrightarrow> vb_dirty vb)"

text \<open>Only GPUs that hold pages of the block can write to it: there is no remote writer.\<close>

definition no_remote_writer :: "va_block \<Rightarrow> bool" where
  "no_remote_writer vb \<longleftrightarrow> (\<forall>g p. gpu_can_write vb g p \<longrightarrow> g \<in> set (vb_resident vb))"

lemma flags_sel [simp]:
  "block_num_pages (vb\<lparr>vb_dirty := d, vb_tracking := t\<rparr>) = block_num_pages vb"
  "gpu_can_write (vb\<lparr>vb_dirty := d, vb_tracking := t\<rparr>) g p = gpu_can_write vb g p"
  "resident_mask_get (vb\<lparr>vb_dirty := d, vb_tracking := t\<rparr>) r = resident_mask_get vb r"
  by (simp_all add: block_num_pages_def gpu_can_write_def resident_mask_get_def)

lemma flags_wf [simp]: "block_wf (vb\<lparr>vb_dirty := d, vb_tracking := t\<rparr>) = block_wf vb"
  by (simp add: block_wf_def)

lemma wf_unresident_not_writable: "block_wf vb \<Longrightarrow> vb_resident vb = [] \<Longrightarrow> \<not> gpu_can_write vb g p"
  using block_wf_resident [of vb 1 g p] by (auto simp: gpu_can_write_def)

text \<open>A block that PREPARE has processed: tracked, clean, and no GPU can write to it.\<close>

definition block_prepared :: "va_block \<Rightarrow> bool" where
  "block_prepared vb \<longleftrightarrow> vb_tracking vb \<and> \<not> vb_dirty vb \<and> \<not> gpu_writable vb"

lemma revoke_mask_prepared:
  assumes "uvm_va_block_revoke_prot_mask me vb1 (vb_resident vb1) (block_region vb1) (\<lambda>_. True)
             UVM_PROT_READ_WRITE = (NV_OK, vb2)"
    and "vb_tracking vb1" "\<not> vb_dirty vb1" "block_wf vb1" "no_remote_writer vb1" "closest_ok me"
  shows "block_prepared vb2"
proof -
  have rv: "revokes vb1 vb2" by (rule revoke_mask_revokes [OF assms(1)])
  then have sd: "same_data vb1 vb2" and le: "perms_le vb2 vb1" by (simp_all add: revokes_def)
  have procs: "revoke_procs me vb1 (vb_resident vb1) (block_region vb1) (\<lambda>_. True) UVM_PROT_READ_WRITE = (NV_OK, vb2)"
    using assms(1) by (auto simp: uvm_va_block_revoke_prot_mask_def split: prod.splits if_splits)
  have np: "block_num_pages vb2 = block_num_pages vb1"
    using sd by (simp add: same_data_def block_num_pages_def)
  have "\<not> gpu_can_write vb2 g p" if "UVM_ID_IS_GPU g" "p < block_num_pages vb2" for g p
  proof
    assume w: "gpu_can_write vb2 g p"
    then have "gpu_can_write vb1 g p" using le by (simp add: gpu_can_write_def perms_le_def)
    then have "g \<in> set (vb_resident vb1)" using assms(5) unfolding no_remote_writer_def by blast
    with revoke_procs_complete [OF procs assms(4,6)] that np w show False by simp
  qed
  then show ?thesis
    using sd assms(2,3) by (auto simp: block_prepared_def gpu_writable_def same_data_def)
qed

lemma prepare_blocks_prepared:
  "prepare_blocks me vbs = (NV_OK, vbs') \<Longrightarrow> closest_ok me \<Longrightarrow>
   (\<And>vb. vb \<in> set vbs \<Longrightarrow> block_wf vb \<and> no_remote_writer vb) \<Longrightarrow>
   (\<forall>vb \<in> set vbs'. block_prepared vb) \<and> map vb_start vbs' = map vb_start vbs"
proof (induction vbs arbitrary: vbs')
  case (Cons vb vbs)
  define vb1 where "vb1 = vb\<lparr>vb_dirty := False, vb_tracking := True\<rparr>"
  have wf: "block_wf vb1" and nr: "no_remote_writer vb1"
    using Cons.prems(3) [of vb] by (simp_all add: vb1_def no_remote_writer_def)
  obtain vb2 rest where rest: "prepare_blocks me vbs = (NV_OK, rest)" "vbs' = vb2 # rest"
    and vb2: "vb2 = vb1 \<and> vb_resident vb = [] \<or> vb_resident vb \<noteq> [] \<and>
      uvm_va_block_revoke_prot_mask me vb1 (vb_resident vb1) (block_region vb1) (\<lambda>_. True) UVM_PROT_READ_WRITE
        = (NV_OK, vb2)"
    using Cons.prems(1) unfolding vb1_def
    by (auto simp: Let_def split: prod.splits if_splits)
  have "block_prepared vb2 \<and> vb_start vb2 = vb_start vb"
    using vb2
  proof (elim disjE conjE)
    assume "vb2 = vb1" "vb_resident vb = []"
    then show ?thesis
      using wf_unresident_not_writable [OF wf]
      by (simp add: block_prepared_def gpu_writable_def) (simp add: vb1_def)
  next
    assume rv: "uvm_va_block_revoke_prot_mask me vb1 (vb_resident vb1) (block_region vb1) (\<lambda>_. True)
      UVM_PROT_READ_WRITE = (NV_OK, vb2)"
    have "block_prepared vb2"
      by (rule revoke_mask_prepared [OF rv _ _ wf nr Cons.prems(2)]) (simp_all add: vb1_def)
    moreover have "vb_start vb2 = vb_start vb"
      using revoke_mask_revokes [OF rv] by (simp add: revokes_def same_data_def vb1_def)
    ultimately show ?thesis by simp
  qed
  with Cons.IH [OF rest(1) Cons.prems(2)] Cons.prems(3) rest(2) show ?case by auto
qed simp

lemma prepare_ranges_prepared:
  "prepare_ranges me rs = (NV_OK, rs') \<Longrightarrow> closest_ok me \<Longrightarrow>
   (\<And>r vb. r \<in> set rs \<Longrightarrow> is_managed r \<Longrightarrow> vb \<in> set (vr_blocks r) \<Longrightarrow> block_wf vb \<and> no_remote_writer vb) \<Longrightarrow>
   (\<forall>r \<in> set rs'. is_managed r \<longrightarrow> (\<forall>vb \<in> set (vr_blocks r). block_prepared vb))"
proof (induction rs arbitrary: rs')
  case (Cons r rs)
  show ?case
  proof (cases "is_managed r")
    case False
    then obtain rest where "prepare_ranges me rs = (NV_OK, rest)" "rs' = r # rest"
      using Cons.prems(1) by (auto split: prod.splits)
    with Cons.IH [of rest] Cons.prems(2,3) False show ?thesis by auto
  next
    case True
    then obtain vbs rest where b: "prepare_blocks me (vr_blocks r) = (NV_OK, vbs)"
      and rest: "prepare_ranges me rs = (NV_OK, rest)" "rs' = r\<lparr>vr_blocks := vbs\<rparr> # rest"
      using Cons.prems(1) by (auto split: prod.splits if_splits)
    have "\<forall>vb \<in> set vbs. block_prepared vb"
      using prepare_blocks_prepared [OF b Cons.prems(2)] Cons.prems(3) [OF _ True] by auto
    with Cons.IH [OF rest(1) Cons.prems(2)] Cons.prems(3) rest(2) show ?thesis by auto
  qed
qed simp

section \<open>The tracking state machine\<close>

text \<open>
  What happens to a va space while live migration tracks it: preparing it, servicing a
  GPU fault on one of its blocks, other driver work that takes permissions away
  (migration, eviction), first touch of a new block, and finalizing.
\<close>

definition set_block :: "va_space \<Rightarrow> nat \<Rightarrow> nat \<Rightarrow> va_block \<Rightarrow> va_space" where
  "set_block vs i j vb =
     vs\<lparr>vs_ranges := (vs_ranges vs)[i := (vs_ranges vs ! i)\<lparr>vr_blocks := (vr_blocks (vs_ranges vs ! i))[j := vb]\<rparr>]\<rparr>"

definition set_range :: "va_space \<Rightarrow> nat \<Rightarrow> va_range \<Rightarrow> va_space" where
  "set_range vs i r = vs\<lparr>vs_ranges := (vs_ranges vs)[i := r]\<rparr>"

inductive track_step :: "map_env \<Rightarrow> va_space \<Rightarrow> va_space \<Rightarrow> bool" for me where
  prepare: "prepare_va_space_for_migration me vs = (NV_OK, vs') \<Longrightarrow>
    (\<forall>vb \<in> set (managed_blocks vs). block_wf vb \<and> no_remote_writer vb) \<Longrightarrow> track_step me vs vs'"
| gpu_fault: "i < length (vs_ranges vs) \<Longrightarrow> j < length (vr_blocks (vs_ranges vs ! i)) \<Longrightarrow> UVM_ID_IS_GPU g \<Longrightarrow>
    service_finish_gpu me fc (vr_blocks (vs_ranges vs ! i) ! j) g sc = (st, fc', vb', log) \<Longrightarrow>
    track_step me vs (set_block vs i j vb')"
| unmap: "i < length (vs_ranges vs) \<Longrightarrow> j < length (vr_blocks (vs_ranges vs ! i)) \<Longrightarrow>
    perms_le vb' (vr_blocks (vs_ranges vs ! i) ! j) \<Longrightarrow>
    block_num_pages vb' = block_num_pages (vr_blocks (vs_ranges vs ! i) ! j) \<Longrightarrow>
    vb_tracking vb' = vb_tracking (vr_blocks (vs_ranges vs ! i) ! j) \<Longrightarrow>
    vb_dirty vb' = vb_dirty (vr_blocks (vs_ranges vs ! i) ! j) \<Longrightarrow>
    track_step me vs (set_block vs i j vb')"
| new_block: "i < length (vs_ranges vs) \<Longrightarrow>
    (\<And>s e vb g p. create s e = Inr vb \<Longrightarrow> \<not> gpu_can_write vb g p) \<Longrightarrow>
    uvm_va_range_block_create create (vs_tracking_active vs) (vs_ranges vs ! i) idx = (st, r') \<Longrightarrow>
    track_step me vs (set_range vs i r')"
| finalize: "track_step me vs (finalize_va_space me vs)"

definition tracking_inv :: "va_space \<Rightarrow> bool" where
  "tracking_inv vs \<longleftrightarrow> (vs_tracking_active vs \<longrightarrow> (\<forall>vb \<in> set (managed_blocks vs). block_tracked_ok vb))"

lemma managed_blocks_iff:
  "vb \<in> set (managed_blocks vs) \<longleftrightarrow> (\<exists>r \<in> set (vs_ranges vs). is_managed r \<and> vb \<in> set (vr_blocks r))"
  by (auto simp: managed_blocks_def)

lemma managed_blocks_set_range:
  assumes "vb \<in> set (managed_blocks (set_range vs i r))" "is_managed r \<Longrightarrow> is_managed (vs_ranges vs ! i)"
  shows "vb \<in> set (managed_blocks vs) \<or> (is_managed r \<and> i < length (vs_ranges vs) \<and> vb \<in> set (vr_blocks r))"
proof -
  obtain r0 where r0: "r0 \<in> set ((vs_ranges vs)[i := r])" "is_managed r0" "vb \<in> set (vr_blocks r0)"
    using assms(1) by (auto simp: managed_blocks_iff set_range_def)
  then show ?thesis
    by (cases "i < length (vs_ranges vs)")
       (auto simp: managed_blocks_iff list_update_beyond dest: subsetD [OF set_update_subset_insert])
qed

lemma managed_blocks_set_block:
  assumes "vb \<in> set (managed_blocks (set_block vs i j vb'))"
    and "i < length (vs_ranges vs)" "j < length (vr_blocks (vs_ranges vs ! i))"
  shows "vb \<in> set (managed_blocks vs) \<or> (vb = vb' \<and> vr_blocks (vs_ranges vs ! i) ! j \<in> set (managed_blocks vs))"
proof -
  define r where "r = (vs_ranges vs ! i)\<lparr>vr_blocks := (vr_blocks (vs_ranges vs ! i))[j := vb']\<rparr>"
  have "set_block vs i j vb' = set_range vs i r"
    by (simp add: set_block_def set_range_def r_def)
  then have "vb \<in> set (managed_blocks vs) \<or> (is_managed r \<and> vb \<in> set (vr_blocks r))"
    using managed_blocks_set_range [of vb vs i r] assms(1) by (auto simp: is_managed_def r_def)
  then show ?thesis
  proof
    assume "is_managed r \<and> vb \<in> set (vr_blocks r)"
    moreover from this have "is_managed (vs_ranges vs ! i)" by (simp add: is_managed_def r_def)
    ultimately show ?thesis
      using assms(2,3) by (auto simp: r_def managed_blocks_iff dest!: subsetD [OF set_update_subset_insert])
  qed simp
qed

lemma block_tracked_ok_le:
  "block_tracked_ok vb \<Longrightarrow> perms_le vb' vb \<Longrightarrow> block_num_pages vb' = block_num_pages vb \<Longrightarrow>
   vb_tracking vb' = vb_tracking vb \<Longrightarrow> vb_dirty vb' = vb_dirty vb \<Longrightarrow> block_tracked_ok vb'"
  unfolding block_tracked_ok_def gpu_writable_def gpu_can_write_def perms_le_def by metis

lemma service_finish_tracked_ok:
  assumes "service_finish_gpu me fc vb g sc = (st, fc', vb', log)" "UVM_ID_IS_GPU g" "block_tracked_ok vb"
  shows "block_tracked_ok vb'"
  using service_finish_no_lost_write [OF assms(1,2)] assms(3)
  unfolding block_tracked_ok_def gpu_writable_def by metis

lemma block_create_blocks:
  assumes "uvm_va_range_block_create create active r idx = (st, r')"
    and "\<And>s e vb g p. create s e = Inr vb \<Longrightarrow> \<not> gpu_can_write vb g p"
    and "active" "vb \<in> set (vr_blocks r')"
  shows "vb \<in> set (vr_blocks r) \<or> block_tracked_ok vb"
  using assms
  by (auto simp: uvm_va_range_block_create_def Let_def set_insort_key block_tracked_ok_def gpu_writable_def
           split: if_splits sum.splits)

lemma block_create_type:
  "uvm_va_range_block_create create active r idx = (st, r') \<Longrightarrow> is_managed r' = is_managed r"
  by (auto simp: uvm_va_range_block_create_def Let_def is_managed_def split: if_splits sum.splits)

lemma track_step_inv:
  assumes "closest_ok me" "track_step me vs vs'" "tracking_inv vs"
  shows "tracking_inv vs'"
  using assms(2)
proof cases
  case prepare
  then obtain rs where rs: "prepare_ranges me (vs_ranges vs) = (NV_OK, rs)" "vs_ranges vs' = rs"
    by (auto simp: prepare_va_space_for_migration_def split: prod.splits if_splits)
  have "\<forall>r \<in> set rs. is_managed r \<longrightarrow> (\<forall>vb \<in> set (vr_blocks r). block_prepared vb)"
    by (rule prepare_ranges_prepared [OF rs(1) assms(1)]) (use prepare(2) in \<open>auto simp: managed_blocks_iff\<close>)
  then show ?thesis
    using rs(2) by (auto simp: tracking_inv_def managed_blocks_iff block_prepared_def block_tracked_ok_def)
next
  case (gpu_fault i j g fc sc st fc' vb' log)
  have "block_tracked_ok vb'" if "block_tracked_ok (vr_blocks (vs_ranges vs ! i) ! j)"
    by (rule service_finish_tracked_ok [OF gpu_fault(5,4) that])
  then show ?thesis
    using assms(3) gpu_fault(1) managed_blocks_set_block [OF _ gpu_fault(2,3)]
    by (auto simp: tracking_inv_def) (auto simp: set_block_def)
next
  case (unmap i j vb')
  have "block_tracked_ok vb'" if "block_tracked_ok (vr_blocks (vs_ranges vs ! i) ! j)"
    by (rule block_tracked_ok_le [OF that unmap(4-7)])
  then show ?thesis
    using assms(3) unmap(1) managed_blocks_set_block [OF _ unmap(2,3)]
    by (auto simp: tracking_inv_def) (auto simp: set_block_def)
next
  case (new_block i create idx st r')
  have "block_tracked_ok vb" if a: "vs_tracking_active vs" and vb: "vb \<in> set (managed_blocks vs')" for vb
  proof -
    have inv: "block_tracked_ok b" if "b \<in> set (managed_blocks vs)" for b
      using assms(3) a that by (simp add: tracking_inv_def)
    from vb have "vb \<in> set (managed_blocks vs) \<or> (is_managed r' \<and> vb \<in> set (vr_blocks r'))"
      using managed_blocks_set_range [of vb vs i r'] block_create_type [OF new_block(4)] new_block(1) by auto
    then show ?thesis
    proof
      assume m: "is_managed r' \<and> vb \<in> set (vr_blocks r')"
      then have "vb \<in> set (vr_blocks (vs_ranges vs ! i)) \<or> block_tracked_ok vb"
        using block_create_blocks [OF new_block(4) _ a, of vb] new_block(3) by blast
      moreover have "vb \<in> set (managed_blocks vs)" if "vb \<in> set (vr_blocks (vs_ranges vs ! i))"
        using that m new_block(2) block_create_type [OF new_block(4)] by (auto simp: managed_blocks_iff)
      ultimately show ?thesis using inv by blast
    qed (rule inv)
  qed
  then show ?thesis
    using new_block(1) by (simp add: tracking_inv_def set_range_def)
next
  case finalize
  then show ?thesis by (simp add: tracking_inv_def finalize_va_space_def)
qed

interpretation tracking: step_invariant "\<lambda>vs vs'. closest_ok me \<and> track_step me vs vs'" tracking_inv for me
  by unfold_locales (blast intro: track_step_inv)

lemma tracking_reachable:
  assumes "closest_ok me" "(track_step me)\<^sup>*\<^sup>* vs vs'" "tracking_inv vs"
  shows "tracking_inv vs'"
proof (rule tracking.steps_inv [OF _ assms(3)])
  show "(\<lambda>vs vs'. closest_ok me \<and> track_step me vs vs')\<^sup>*\<^sup>* vs vs'"
    using assms(2) by (rule rtranclp_mono [THEN predicate2D, rotated]) (use assms(1) in auto)
qed

section \<open>What GET_DIRTY_PAGES reports\<close>

definition is_dirty_block :: "va_block \<Rightarrow> bool" where
  "is_dirty_block vb \<longleftrightarrow> vb_tracking vb \<and> vb_dirty vb"

definition dirty_addresses :: "va_space list \<Rightarrow> nat list" where
  "dirty_addresses vss = map vb_start (filter is_dirty_block (concat (map managed_blocks vss)))"

definition enc_addrs :: "nat list \<Rightarrow> byte list" where
  "enc_addrs as = concat (map (le_bytes 8) as)"

lemma length_enc_addrs [simp, layout_simps]: "length (enc_addrs as) = 8 * length as"
  by (induction as) (auto simp: enc_addrs_def)

lemma enc_addrs_Cons: "enc_addrs (a # as) = le_bytes 8 a @ enc_addrs as"
  by (simp add: enc_addrs_def)

lemma enc_addrs_append: "enc_addrs (as @ bs) = enc_addrs as @ enc_addrs bs"
  by (simp add: enc_addrs_def)

lemma dirty_fold_done: "do_done d \<Longrightarrow> fold (dirty_block_step env buf mx) vbs d = d"
  by (induction vbs) (simp_all add: dirty_block_step_def)

text \<open>The buffer \<open>[buf, buf + 8 * mx)\<close> is accessible and does not wrap.\<close>

definition dirty_buf_ok :: "uvm_env \<Rightarrow> nat \<Rightarrow> nat \<Rightarrow> bool" where
  "dirty_buf_ok env buf mx \<longleftrightarrow> buf + 8 * mx \<le> 2 ^ 64 \<and> (\<forall>k < mx. env_copy env (buf + 8 * k) 8)"

text \<open>The block loop appends the dirty blocks' addresses until the buffer is full.\<close>

lemma dirty_fold:
  fixes vbs :: "va_block list"
  assumes "dirty_buf_ok env buf mx" "\<not> do_done d" "do_count d \<le> mx"
  defines "as \<equiv> map vb_start (filter is_dirty_block vbs)"
  shows "fold (dirty_block_step env buf mx) vbs d =
    d\<lparr>do_count := do_count d + length (take (mx - do_count d) as),
      do_mem := write_mem (do_mem d) (buf + 8 * do_count d) (enc_addrs (take (mx - do_count d) as)),
      do_done := mx - do_count d < length as\<rparr>"
  using assms(2,3) unfolding as_def
proof (induction vbs arbitrary: d)
  case Nil
  then show ?case by (simp add: enc_addrs_def)
next
  case (Cons vb vbs)
  show ?case
  proof (cases "is_dirty_block vb")
    case False
    then have "dirty_block_step env buf mx vb d = d"
      by (auto simp: dirty_block_step_def is_dirty_block_def)
    with Cons False show ?thesis by simp
  next
    case True
    show ?thesis
    proof (cases "do_count d < mx")
      case False
      then have "dirty_block_step env buf mx vb d = d\<lparr>do_done := True\<rparr>" and c: "do_count d = mx"
        using True Cons.prems by (auto simp: dirty_block_step_def is_dirty_block_def)
      then show ?thesis
        using True by (simp add: dirty_fold_done enc_addrs_def)
    next
      case lt: True
      define d1 where "d1 = d\<lparr>do_mem := write_mem (do_mem d) (buf + 8 * do_count d) (le_bytes 8 (vb_start vb)),
        do_count := do_count d + 1\<rparr>"
      have "u64 (buf + 8 * do_count d) = buf + 8 * do_count d"
        using assms(1) lt by (intro u64_small) (simp add: dirty_buf_ok_def)
      then have step: "dirty_block_step env buf mx vb d = d1"
        using True lt Cons.prems assms(1)
        by (auto simp: dirty_block_step_def is_dirty_block_def Let_def d1_def dirty_buf_ok_def)
      obtain k where k: "mx - do_count d = Suc k" "mx - do_count d1 = k"
        using lt by (cases "mx - do_count d") (auto simp: d1_def)
      have wm: "write_mem (write_mem m (buf + 8 * c) (le_bytes 8 a)) (buf + (8 + 8 * c)) bs
          = write_mem m (buf + 8 * c) (le_bytes 8 a @ bs)" for m c a bs
        using write_mem_append [of m "buf + 8 * c" "le_bytes 8 a" bs] by (simp add: algebra_simps)
      show ?thesis
        using Cons.IH [of d1] lt Cons.prems(1) True k
        by (simp add: step) (simp add: d1_def enc_addrs_Cons wm)
    qed
  qed
qed

lemma dirty_spaces_spec:
  fixes vss :: "va_space list"
  assumes "dirty_buf_ok env buf mx" "\<not> do_done d" "do_count d \<le> mx"
  defines "as \<equiv> dirty_addresses vss"
  shows "fst (dirty_spaces env buf mx i vss d) =
    d\<lparr>do_count := do_count d + length (take (mx - do_count d) as),
      do_mem := write_mem (do_mem d) (buf + 8 * do_count d) (enc_addrs (take (mx - do_count d) as)),
      do_done := mx - do_count d < length as\<rparr>"
  using assms(2,3) unfolding as_def
proof (induction vss arbitrary: d i)
  case Nil
  then show ?case by (simp add: dirty_addresses_def enc_addrs_def)
next
  case (Cons vs vss)
  define xs where "xs = map vb_start (filter is_dirty_block (managed_blocks vs))"
  define d1 where "d1 = fold (dirty_block_step env buf mx) (managed_blocks vs) d"
  have as: "dirty_addresses (vs # vss) = xs @ dirty_addresses vss"
    by (simp add: dirty_addresses_def xs_def)
  have d1: "d1 = d\<lparr>do_count := do_count d + length (take (mx - do_count d) xs),
      do_mem := write_mem (do_mem d) (buf + 8 * do_count d) (enc_addrs (take (mx - do_count d) xs)),
      do_done := mx - do_count d < length xs\<rparr>"
    unfolding d1_def xs_def by (rule dirty_fold [OF assms(1) Cons.prems])
  show ?case
  proof (cases "mx - do_count d < length xs")
    case True
    then have "fst (dirty_spaces env buf mx i (vs # vss) d) = d1"
      using d1 by (simp add: d1_def [symmetric] Let_def)
    with True d1 as show ?thesis by simp
  next
    case False
    then have nd: "\<not> do_done d1" and c1: "do_count d1 = do_count d + length xs" and le: "do_count d1 \<le> mx"
      using d1 Cons.prems(2) by auto
    have "fst (dirty_spaces env buf mx i (vs # vss) d) = fst (dirty_spaces env buf mx (Suc i) vss d1)"
      using nd by (simp add: d1_def [symmetric] Let_def split: prod.splits)
    also note Cons.IH [OF nd le]
    also have "write_mem (do_mem d1) (buf + 8 * do_count d1) ys =
        write_mem (do_mem d) (buf + 8 * do_count d) (enc_addrs xs @ ys)" for ys
      using False d1 c1 write_mem_append [of "do_mem d" "buf + 8 * do_count d" "enc_addrs xs" ys]
      by (simp add: algebra_simps)
    finally have eq: "fst (dirty_spaces env buf mx i (vs # vss) d) =
        d1\<lparr>do_count := do_count d1 + length (take (mx - do_count d1) (dirty_addresses vss)),
          do_mem := write_mem (do_mem d) (buf + 8 * do_count d)
            (enc_addrs xs @ enc_addrs (take (mx - do_count d1) (dirty_addresses vss))),
          do_done := mx - do_count d1 < length (dirty_addresses vss)\<rparr>" .
    have "(mx - do_count d1 < n) = (mx - do_count d < length xs + n)" for n
      using False c1 by arith
    with False d1 c1 show ?thesis
      unfolding eq by (simp add: as enc_addrs_append add.assoc)
  qed
qed

text \<open>The locks: balanced when every va space is finished, one reader left when \<open>done\<close> is jumped to.\<close>

lemma dirty_spaces_locks:
  assumes "\<And>k. \<not> lk_writer l k"
  shows "if do_done (fst (dirty_spaces env buf mx i vss d)) \<and> vss \<noteq> []
    then \<exists>k. lock_run (snd (dirty_spaces env buf mx i vss d)) l =
           Some (l\<lparr>lk_readers := (lk_readers l)(k := Suc (lk_readers l k))\<rparr>)
    else lock_run (snd (dirty_spaces env buf mx i vss d)) l = Some l"
  using assms
proof (induction vss arbitrary: d i)
  case (Cons vs vss)
  define d1 where "d1 = fold (dirty_block_step env buf mx) (managed_blocks vs) d"
  show ?case
  proof (cases "do_done d1")
    case True
    then show ?thesis
      using Cons.prems by (auto simp: d1_def [symmetric] Let_def)
  next
    case False
    have *: "dirty_spaces env buf mx i (vs # vss) d =
        (fst (dirty_spaces env buf mx (Suc i) vss d1), DownRead i # UpRead i # snd (dirty_spaces env buf mx (Suc i) vss d1))"
      using False by (simp add: d1_def [symmetric] Let_def split: prod.splits)
    have ne: "(do_done (fst (dirty_spaces env buf mx (Suc i) vss d1)) \<and> vss \<noteq> []) =
        (do_done (fst (dirty_spaces env buf mx (Suc i) vss d1)) \<and> vs # vss \<noteq> [])"
      using False by auto
    show ?thesis
      using Cons.IH [where d = d1 and i = "Suc i", unfolded ne] Cons.prems
      unfolding * fst_conv snd_conv lock_run_read_pair [OF Cons.prems] by blast
  qed
qed simp

section \<open>FINALIZE and GET_VA_RANGES\<close>

lemma finalize_block_flags: "\<not> vb_tracking (finalize_block me vb) \<and> \<not> vb_dirty (finalize_block me vb)"
proof -
  define vb1 where "vb1 = vb\<lparr>vb_tracking := False, vb_dirty := False\<rparr>"
  have "same_data vb1 (snd (uvm_va_block_map_mask me vb1 ps rg mm prot))" for ps rg mm prot
    by (cases "map_procs me vb1 ps rg mm prot")
       (auto simp: uvm_va_block_map_mask_def dest: map_procs_keeps)
  then show ?thesis
    by (auto simp: finalize_block_def Let_def vb1_def same_data_def)
qed

lemma finalize_block_restores:
  assumes "map_env_ok me" "maps_locally me vb g" "block_num_pages vb \<le> PAGES_PER_UVM_VA_BLOCK"
    and "p < block_num_pages vb" "gs_resident (gpu_st vb g) p"
  shows "gs_pte_bits (gpu_st (finalize_block me vb) g) 2 p"
proof -
  define vb1 where "vb1 = vb\<lparr>vb_tracking := False, vb_dirty := False\<rparr>"
  obtain st vb' where mp: "map_procs me vb1 (vb_resident vb1) (block_region vb1) (\<lambda>_. True)
      UVM_PROT_READ_WRITE_ATOMIC = (st, vb')" by fastforce
  have ne: "vb_resident vb \<noteq> []" and g: "g \<in> set (vb_resident vb1)"
    using assms(2) by (auto simp: maps_locally_def vb1_def)
  have np: "block_num_pages vb1 = block_num_pages vb"
    by (simp add: vb1_def block_num_pages_def)
  have "gs_pte_bits (gpu_st vb' g) (get_gpu_pte_bit_index UVM_PROT_READ_WRITE_ATOMIC) p"
    by (rule map_procs_complete [OF assms(1) mp g])
       (use assms np in \<open>auto simp: vb1_def maps_locally_def\<close>)
  then show ?thesis
    using ne mp by (simp add: finalize_block_def Let_def vb1_def uvm_va_block_map_mask_def split: prod.splits)
qed

lemma finalize_locks_run:
  "(\<And>k. \<not> lk_writer l k \<and> lk_readers l k = 0) \<Longrightarrow>
   lock_run (concat (map (\<lambda>i. [DownWrite i, UpWrite i]) is) @ ops) l = lock_run ops l"
proof (induction "is")
  case (Cons a "is")
  have "lock_run (concat (map (\<lambda>i. [DownWrite i, UpWrite i]) (a # is)) @ ops) l =
      lock_run (concat (map (\<lambda>i. [DownWrite i, UpWrite i]) is) @ ops) l"
    using lock_run_write_pair [of l a] Cons.prems by simp
  then show ?case using Cons.IH [OF Cons.prems] by simp
qed simp

definition managed_pairs :: "va_space list \<Rightarrow> (nat \<times> nat) list" where
  "managed_pairs vss = map (\<lambda>r. (vr_start r, u64 (vr_end r - vr_start r + 1)))
     (filter is_managed (concat (map vs_ranges vss)))"

lemma collect_ranges_spec:
  "length acc \<le> mx \<Longrightarrow>
   collect_ranges mx rs acc =
     (let ps = map (\<lambda>r. (vr_start r, u64 (vr_end r - vr_start r + 1))) (filter is_managed rs)
      in (if length acc + length ps \<le> mx then NV_OK else NV_ERR_BUFFER_TOO_SMALL,
          acc @ take (mx - length acc) ps))"
proof (induction rs arbitrary: acc)
  case (Cons r rs)
  show ?case
  proof (cases "is_managed r \<and> length acc < mx")
    case True
    then have "mx - length acc = Suc (mx - Suc (length acc))" by (simp add: Suc_diff_Suc)
    with True Cons.IH [of "acc @ [(vr_start r, u64 (vr_end r - vr_start r + 1))]"] show ?thesis
      by (simp add: Let_def)
  next
    case False
    with Cons show ?thesis by (auto simp: Let_def)
  qed
qed simp

lemma collect_spaces_spec:
  "length acc \<le> mx \<Longrightarrow> \<exists>ops. collect_spaces mx i vss acc =
     (if length acc + length (managed_pairs vss) \<le> mx then NV_OK else NV_ERR_BUFFER_TOO_SMALL,
      acc @ take (mx - length acc) (managed_pairs vss), ops) \<and>
     (\<forall>l. (\<forall>k. \<not> lk_writer l k) \<longrightarrow> lock_run ops l = Some l)"
proof (induction vss arbitrary: acc i)
  case Nil
  then show ?case by (simp add: managed_pairs_def)
next
  case (Cons vs vss)
  define ps where "ps = map (\<lambda>r. (vr_start r, u64 (vr_end r - vr_start r + 1))) (filter is_managed (vs_ranges vs))"
  have mp: "managed_pairs (vs # vss) = ps @ managed_pairs vss"
    by (simp add: managed_pairs_def ps_def)
  note cr = collect_ranges_spec [OF Cons.prems, of "vs_ranges vs", folded ps_def, unfolded Let_def]
  show ?case
  proof (cases "length acc + length ps \<le> mx")
    case False
    then show ?thesis by (simp add: cr mp)
  next
    case True
    then have acc': "length (acc @ ps) \<le> mx" and tk: "take (mx - length acc) ps = ps" by auto
    from Cons.IH [OF acc', of "Suc i"] True tk show ?thesis
      by (auto simp: cr mp ps_def [symmetric] add.assoc)
  qed
qed

section \<open>Sample va spaces\<close>

definition sample_range :: va_range where
  "sample_range = \<lparr>vr_start = 2097152, vr_end = 2101247, vr_type = UVM_VA_RANGE_TYPE_MANAGED,
     vr_blocks = [sample_block]\<rparr>"

definition sample_vs :: va_space where
  "sample_vs = \<lparr>vs_ranges = [sample_range], vs_tracking_active = False,
     vs_gpus = [\<lparr>gpu_id = 1, gpu_uuid = replicate 16 1\<rparr>]\<rparr>"

definition sample_sc :: service_ctx where
  "sample_sc = \<lparr>sc_region = (0, 1), sc_new_residency = 1, sc_new_residency_mask = (\<lambda>p. p = 0),
     sc_did_migrate = (\<lambda>_. False), sc_access = (\<lambda>_. UVM_PROT_READ_WRITE),
     sc_maps = (\<lambda>_. (0, \<lambda>_. False)), sc_thrash_count = 0, sc_thrash_mask = (\<lambda>_. False),
     sc_tools = False, sc_revoke_alloc = True\<rparr>"

text \<open>The sample block prepared, the va space with it, and the result of a write fault of GPU 1.\<close>

definition sample_block1 :: va_block where
  "sample_block1 = sample_block\<lparr>vb_tracking := True,
     vb_gpu_state := [1 \<mapsto> \<lparr>gs_resident = (\<lambda>p. p = 0), gs_pte_bits = (\<lambda>b p. b = 0 \<and> p = 0),
        gs_phys = (\<lambda>p. \<lparr>pa_aperture = 1, pa_address = 65536 + 4096 * p\<rparr>)\<rparr>]\<rparr>"

definition sample_vs1 :: va_space where
  "sample_vs1 = sample_vs\<lparr>vs_ranges := [sample_range\<lparr>vr_blocks := [sample_block1]\<rparr>], vs_tracking_active := True\<rparr>"

definition sample_fault :: "nv_status \<times> fault_ctrs \<times> va_block \<times> fault_log list" where
  "sample_fault = service_finish_gpu sample_me \<lparr>g_migration_write_fault_count = 0, g_fault_log_count = 0\<rparr>
     sample_block1 1 sample_sc"

definition sample_block2 :: va_block where
  "sample_block2 = fst (snd (snd sample_fault))"

definition sample_vs2 :: va_space where
  "sample_vs2 = set_block sample_vs1 0 0 sample_block2"

text \<open>A page resident on the CPU that GPU 1 maps remotely for writing.\<close>

definition remote_block :: va_block where
  "remote_block = sample_block\<lparr>vb_resident := [UVM_ID_CPU], vb_cpu_resident := (\<lambda>p. p = 0)\<rparr>"

lemmas sample_defs = sample_vs_def sample_range_def sample_block_def sample_me_def sample_sc_def

lemmas revoke_defs = uvm_va_block_revoke_prot_mask_def uvm_va_block_revoke_prot_def
  block_revoke_prot_gpu_to_def mask_any_iff region_any_iff in_region_def block_region_def
  block_num_pages_def resident_mask_get_def UVM_ID_IS_GPU_def clear_bits_def

lemmas map_defs = uvm_va_block_map_mask_def uvm_va_block_map_def block_map_gpu_to_def map_get_allowed_destinations_def
  block_gpu_state_get_alloc_def set_bits_def

lemmas finish_defs = service_finish_gpu_def finish_compute_def finish_bulk_restore_def finish_record_def
  compute_new_permission_def less_uvm_prot_def add_page_def bulk_move_def bulk_add_def record_write_fault_def

lemma all_pos_below [simp]: "(\<forall>p < (n::nat). 0 < p) \<longleftrightarrow> n = 0"
  by auto

lemma sample_block_simps [simp]:
  "vb_resident sample_block = [1]" "block_region (sample_block\<lparr>vb_dirty := d, vb_tracking := t\<rparr>) = (0, 1)"
  "block_num_pages sample_block = 1" "vb_resident sample_block1 = [1]"
  by (simp_all add: sample_block_def sample_block1_def block_region_def block_num_pages_def)

lemma sample_revoke:
  "uvm_va_block_revoke_prot_mask sample_me (sample_block\<lparr>vb_dirty := False, vb_tracking := True\<rparr>) [1] (0, 1) (\<lambda>_. True)
     UVM_PROT_READ_WRITE = (NV_OK, sample_block1)"
  by (auto simp: revoke_defs sample_block1_def sample_defs gpu_st_def set_gpu_st_def fun_eq_iff Let_def)

lemma sample_prepare: "prepare_va_space_for_migration sample_me sample_vs = (NV_OK, sample_vs1)"
  by (simp add: prepare_va_space_for_migration_def sample_vs1_def sample_vs_def sample_range_def is_managed_def
                sample_revoke Let_def del: One_nat_def)
     (simp add: sample_me_def)

lemma sample_fault_writable:
  "gpu_can_write sample_block2 1 0" "vb_start sample_block2 = 2097152" "block_num_pages sample_block2 = 1"
  by (simp_all add: sample_block2_def sample_fault_def finish_defs map_defs revoke_defs Let_def sample_block1_def
                sample_defs gpu_st_def set_gpu_st_def gpu_can_write_def)

lemma sample_no_remote: "no_remote_writer sample_block"
  by (auto simp: no_remote_writer_def gpu_can_write_def gpu_st_def sample_block_def empty_gpu_state_def split: if_splits)

lemma sample_managed: "managed_blocks sample_vs = [sample_block]" "managed_blocks sample_vs2 = [sample_block2]"
  by (simp_all add: managed_blocks_def sample_vs2_def set_block_def sample_vs1_def sample_vs_def sample_range_def is_managed_def)

lemma sample_steps: "(track_step sample_me)\<^sup>*\<^sup>* sample_vs sample_vs2"
proof -
  have "track_step sample_me sample_vs sample_vs1"
    by (rule track_step.prepare [OF sample_prepare]) (simp add: sample_managed sample_block_wf sample_no_remote)
  moreover have "track_step sample_me sample_vs1 sample_vs2"
    unfolding sample_vs2_def
    by (rule track_step.gpu_fault [where g = 1 and sc = sample_sc and st = "fst sample_fault"
          and fc = "\<lparr>g_migration_write_fault_count = 0, g_fault_log_count = 0\<rparr>"
          and fc' = "fst (snd sample_fault)" and log = "snd (snd (snd sample_fault))"])
       (simp_all add: UVM_ID_IS_GPU_def sample_vs1_def sample_vs_def sample_block2_def sample_fault_def)
  ultimately show ?thesis by (meson converse_rtranclp_into_rtranclp rtranclp.rtrancl_refl)
qed

section \<open>Properties\<close>





text \<open>
  PREPARE revokes only from processors that hold pages of a block. A GPU that maps a
  CPU-resident block remotely keeps its write permission, and the block is left clean.
\<close>

theorem prepare_misses_remote_writer:
  "\<exists>vb'. prepare_blocks sample_me [remote_block] = (NV_OK, [vb']) \<and> block_wf remote_block \<and>
     vb_tracking vb' \<and> \<not> vb_dirty vb' \<and> gpu_can_write vb' 1 0"
proof -
  have "uvm_va_block_revoke_prot_mask sample_me (remote_block\<lparr>vb_dirty := False, vb_tracking := True\<rparr>) [UVM_ID_CPU]
      (0, 1) (\<lambda>_. True) UVM_PROT_READ_WRITE = (NV_OK, remote_block\<lparr>vb_dirty := False, vb_tracking := True\<rparr>)"
    by (simp add: revoke_defs remote_block_def sample_defs Let_def)
  moreover have "block_wf remote_block"
    by (auto simp: block_wf_def remote_block_def sample_block_def block_num_pages_def gpu_st_def resident_mask_get_def
          UVM_ID_IS_GPU_def empty_gpu_state_def split: if_splits)
  ultimately show ?thesis
    by (simp add: remote_block_def Let_def block_region_def block_num_pages_def sample_block_def
          gpu_can_write_def gpu_st_def)
qed

lemma get_dirty_pages_all:
  assumes "dirty_buf_ok env buf mx" "length (dirty_addresses vss) \<le> mx"
    and "uvm_api_live_migration_get_dirty_pages env vss buf mx m = (st, n, m', ops)"
  shows "st = NV_OK \<and> n = length (dirty_addresses vss) \<and>
    m' = write_mem m buf (enc_addrs (dirty_addresses vss)) \<and> locks_balanced ops"
proof -
  let ?d0 = "\<lparr>do_count = 0, do_mem = m, do_status = NV_OK, do_done = False\<rparr>"
  let ?D = "dirty_spaces env buf mx 0 vss ?d0"
  have spec: "fst ?D = ?d0\<lparr>do_count := length (dirty_addresses vss),
      do_mem := write_mem m buf (enc_addrs (dirty_addresses vss)), do_done := False\<rparr>"
    using dirty_spaces_spec [OF assms(1), of ?d0 0 vss] assms(2) by simp
  have "lock_run (snd ?D) (no_locks\<lparr>lk_global := True\<rparr>) = Some (no_locks\<lparr>lk_global := True\<rparr>)"
    using dirty_spaces_locks [of "no_locks\<lparr>lk_global := True\<rparr>" env buf mx 0 vss ?d0] spec by simp
  then have "locks_balanced (GLock # snd ?D @ [GUnlock])"
    by (simp add: locks_balanced_def lock_run_append)
  with spec assms(3) show ?thesis
    by (auto simp: uvm_api_live_migration_get_dirty_pages_def split: prod.splits)
qed

text \<open>
  C34: with a buffer large enough, GET_DIRTY_PAGES writes exactly the start addresses of
  the tracked dirty blocks, in va-space and address order, touches nothing else, returns
  their number and \<open>NV_OK\<close>, and gives every lock back.
\<close>

theorem get_dirty_pages_exact:
  assumes "dirty_buf_ok env buf mx" "length (dirty_addresses vss) \<le> mx"
    and "uvm_api_live_migration_get_dirty_pages env vss buf mx m = (st, n, m', ops)"
  shows "st = NV_OK \<and> n = length (dirty_addresses vss) \<and>
    m' = write_mem m buf (enc_addrs (dirty_addresses vss)) \<and> locks_balanced ops"
  by (rule get_dirty_pages_all [OF assms])

theorem get_dirty_pages_exact_witness:
  "uvm_api_live_migration_get_dirty_pages sample_env [sample_vs2] 4096 1 (\<lambda>_. 0) =
     (NV_OK, 1, write_mem (\<lambda>_. 0) 4096 (le_bytes 8 2097152),
      snd (snd (snd (uvm_api_live_migration_get_dirty_pages sample_env [sample_vs2] 4096 1 (\<lambda>_. 0)))))"
proof -
  have "is_dirty_block sample_block2"
    by (simp add: is_dirty_block_def sample_block2_def sample_fault_def finish_defs map_defs revoke_defs Let_def
        sample_block1_def sample_defs gpu_st_def set_gpu_st_def)
  then have d: "dirty_addresses [sample_vs2] = [2097152]"
    by (simp add: dirty_addresses_def sample_managed sample_fault_writable)
  have ok: "dirty_buf_ok sample_env 4096 1"
    by (simp add: dirty_buf_ok_def sample_env_def)
  obtain st n m' ops where r: "uvm_api_live_migration_get_dirty_pages sample_env [sample_vs2] 4096 1 (\<lambda>_. 0) = (st, n, m', ops)"
    by (cases "uvm_api_live_migration_get_dirty_pages sample_env [sample_vs2] 4096 1 (\<lambda>_. 0)") auto
  from get_dirty_pages_exact [OF ok _ r] d show ?thesis
    unfolding r by (simp add: enc_addrs_def)
qed

text \<open>
  C37: when there are more dirty blocks than the buffer holds, GET_DIRTY_PAGES returns
  \<open>NV_OK\<close> and the first \<open>max\<close> addresses only, and leaves a va space's read lock held: the
  jump to \<open>done\<close> skips \<open>uvm_va_space_up_read\<close>.
\<close>

theorem get_dirty_pages_full_leaks_lock:
  assumes "dirty_buf_ok env buf mx" "mx < length (dirty_addresses vss)"
    and "uvm_api_live_migration_get_dirty_pages env vss buf mx m = (st, n, m', ops)"
  shows "st = NV_OK \<and> n = mx \<and> m' = write_mem m buf (enc_addrs (take mx (dirty_addresses vss))) \<and>
    (\<exists>k. lock_run ops no_locks = Some (no_locks\<lparr>lk_readers := (\<lambda>i. if i = k then 1 else 0)\<rparr>)) \<and>
    \<not> locks_balanced ops"
proof -
  let ?d0 = "\<lparr>do_count = 0, do_mem = m, do_status = NV_OK, do_done = False\<rparr>"
  let ?D = "dirty_spaces env buf mx 0 vss ?d0"
  let ?G = "no_locks\<lparr>lk_global := True\<rparr>"
  have spec: "fst ?D = ?d0\<lparr>do_count := mx,
      do_mem := write_mem m buf (enc_addrs (take mx (dirty_addresses vss))), do_done := True\<rparr>"
    using dirty_spaces_spec [OF assms(1), of ?d0 0 vss] assms(2) by simp
  have ne: "vss \<noteq> []" using assms(2) by (auto simp: dirty_addresses_def)
  obtain k where k: "lock_run (snd ?D) ?G = Some (?G\<lparr>lk_readers := (lk_readers ?G)(k := Suc (lk_readers ?G k))\<rparr>)"
    using dirty_spaces_locks [of ?G env buf mx 0 vss ?d0] spec ne by auto
  have run: "lock_run (GLock # snd ?D @ [GUnlock]) no_locks =
      Some (no_locks\<lparr>lk_readers := (\<lambda>i. if i = k then 1 else 0)\<rparr>)"
    using k by (simp add: lock_run_append) (simp add: no_locks_def fun_eq_iff)
  have "no_locks\<lparr>lk_readers := (\<lambda>i. if i = k then 1 else 0)\<rparr> \<noteq> no_locks"
    by (simp add: no_locks_def fun_eq_iff)
  then have nb: "\<not> locks_balanced (GLock # snd ?D @ [GUnlock])"
    unfolding locks_balanced_def run by simp
  have "st = do_status (fst ?D)" "n = do_count (fst ?D)" "m' = do_mem (fst ?D)" "ops = GLock # snd ?D @ [GUnlock]"
    using assms(3) by (auto simp: uvm_api_live_migration_get_dirty_pages_def split: prod.splits)
  with spec run nb show ?thesis by auto
qed

theorem get_dirty_pages_full_leaks_lock_witness:
  "\<not> locks_balanced (snd (snd (snd (uvm_api_live_migration_get_dirty_pages sample_env [sample_vs2] 4096 0 (\<lambda>_. 0)))))"
proof -
  have "is_dirty_block sample_block2"
    by (simp add: is_dirty_block_def sample_block2_def sample_fault_def finish_defs map_defs revoke_defs Let_def
        sample_block1_def sample_defs gpu_st_def set_gpu_st_def)
  then have d: "0 < length (dirty_addresses [sample_vs2])"
    by (simp add: dirty_addresses_def sample_managed)
  have ok: "dirty_buf_ok sample_env 4096 0"
    by (simp add: dirty_buf_ok_def)
  show ?thesis
    using get_dirty_pages_full_leaks_lock [OF ok d, where m = "\<lambda>_. 0"]
    by (cases "uvm_api_live_migration_get_dirty_pages sample_env [sample_vs2] 4096 0 (\<lambda>_. 0)") auto
qed

text \<open>
  GET_VA_RANGES with accessible buffers returns start and size of every managed range in
  va-space order: all of them with \<open>NV_OK\<close> when they fit, else the first \<open>max\<close> with
  \<open>NV_ERR_BUFFER_TOO_SMALL\<close>; its locks are balanced either way.
\<close>

theorem get_va_ranges_spec:
  assumes "env_capable env" "bases \<noteq> 0" "sizes \<noteq> 0" "mx \<noteq> 0"
    and "\<And>s. env_alloc env s mx" "\<And>a n. env_copy env a n"
    and "uvm_api_live_migration_get_va_ranges env vss bases sizes mx m = (st, n, m', ops)"
  shows "st = (if length (managed_pairs vss) \<le> mx then NV_OK else NV_ERR_BUFFER_TOO_SMALL) \<and>
    n = Some (min mx (length (managed_pairs vss))) \<and>
    m' = write_mem (write_mem m bases (enc_addrs (map fst (take mx (managed_pairs vss)))))
           sizes (enc_addrs (map snd (take mx (managed_pairs vss)))) \<and>
    locks_balanced ops"
proof -
  obtain ops0 where c: "collect_spaces mx 0 vss [] =
      (if length (managed_pairs vss) \<le> mx then NV_OK else NV_ERR_BUFFER_TOO_SMALL,
       take mx (managed_pairs vss), ops0)"
    and l: "\<And>l. (\<forall>k. \<not> lk_writer l k) \<Longrightarrow> lock_run ops0 l = Some l"
    using collect_spaces_spec [of "[]" mx 0 vss] by auto
  have "locks_balanced (GLock # ops0 @ [GUnlock])"
    using l [of "no_locks\<lparr>lk_global := True\<rparr>"]
    by (simp add: locks_balanced_def lock_run_append)
  then show ?thesis
    using assms by (auto simp: uvm_api_live_migration_get_va_ranges_def c Let_def enc_addrs_def o_def min.commute)
qed

theorem get_va_ranges_spec_witness:
  "fst (uvm_api_live_migration_get_va_ranges sample_env [sample_vs] 4096 8192 1 (\<lambda>_. 0)) = NV_OK"
  using get_va_ranges_spec [of sample_env 4096 8192 1 "[sample_vs]" "\<lambda>_. 0"]
  by (cases "uvm_api_live_migration_get_va_ranges sample_env [sample_vs] 4096 8192 1 (\<lambda>_. 0)")
     (simp add: sample_env_def managed_pairs_def sample_vs_def sample_range_def is_managed_def)

text \<open>
  C38: FINALIZE by a privileged caller ends tracking on every va space; every block of a
  managed range whose block context was allocated is untracked and clean; when no callee
  fails, each page a GPU holds is mapped for that GPU with read-write-atomic permission
  again; and the locks are balanced.
\<close>

theorem finalize_restores:
  assumes "env_capable env" "uvm_api_live_migration_finalize env me vss = (st, vss', ops)"
    and "map_env_ok me" "i < length vss" "r \<in> set (vs_ranges (vss' ! i))" "is_managed r"
    and "me_ctx_alloc me (vr_start r)" "vb' \<in> set (vr_blocks r)"
  shows "st = NV_OK \<and> locks_balanced ops \<and> \<not> vs_tracking_active (vss' ! i) \<and>
    \<not> vb_tracking vb' \<and> \<not> vb_dirty vb' \<and>
    (\<exists>vb \<in> set (managed_blocks (vss ! i)). vb' = finalize_block me vb \<and>
       (\<forall>g p. maps_locally me vb g \<longrightarrow> block_num_pages vb \<le> PAGES_PER_UVM_VA_BLOCK \<longrightarrow>
          p < block_num_pages vb \<longrightarrow> gs_resident (gpu_st vb g) p \<longrightarrow> gs_pte_bits (gpu_st vb' g) 2 p))"
proof -
  have v: "vss' = map (finalize_va_space me) vss" "st = NV_OK"
    "ops = GLock # concat (map (\<lambda>i. [DownWrite i, UpWrite i]) [0..<length vss]) @ [GUnlock]"
    using assms(1,2) by (auto simp: uvm_api_live_migration_finalize_def)
  have "locks_balanced ops"
    using finalize_locks_run [of "no_locks\<lparr>lk_global := True\<rparr>" "[0..<length vss]" "[GUnlock]"]
    by (simp add: v(3) locks_balanced_def)
  moreover obtain r0 where r0: "r0 \<in> set (vs_ranges (vss ! i))" "r = finalize_range me r0"
    using assms(4,5) by (auto simp: v(1) finalize_va_space_def)
  have mg: "is_managed r0" "vr_start r = vr_start r0"
    using assms(6) r0(2) by (auto simp: finalize_range_def is_managed_def split: if_splits)
  with r0 assms(7,8) obtain vb where vb: "vb \<in> set (vr_blocks r0)" "vb' = finalize_block me vb"
    by (auto simp: finalize_range_def)
  with mg r0 have "vb \<in> set (managed_blocks (vss ! i))" by (auto simp: managed_blocks_iff)
  ultimately show ?thesis
    using vb(2) finalize_block_flags [of me vb] finalize_block_restores [OF assms(3)] v(1,2) assms(4)
    by (auto simp: finalize_va_space_def)
qed

theorem finalize_restores_witness:
  "gs_pte_bits (gpu_st (finalize_block sample_me sample_block1) 1) 2 0"
proof -
  let ?r = "sample_range\<lparr>vr_blocks := [finalize_block sample_me sample_block1]\<rparr>"
  have f: "uvm_api_live_migration_finalize sample_env sample_me [sample_vs1] =
      (NV_OK, [finalize_va_space sample_me sample_vs1], [GLock, DownWrite 0, UpWrite 0, GUnlock])"
    by (simp add: uvm_api_live_migration_finalize_def sample_env_def)
  have r: "vs_ranges (finalize_va_space sample_me sample_vs1) = [?r]"
    by (simp add: finalize_va_space_def finalize_range_def sample_vs1_def sample_range_def is_managed_def sample_me_def)
  have mb: "managed_blocks sample_vs1 = [sample_block1]"
    by (simp add: managed_blocks_def sample_vs1_def sample_range_def is_managed_def)
  have "\<forall>g p. maps_locally sample_me sample_block1 g \<longrightarrow> block_num_pages sample_block1 \<le> PAGES_PER_UVM_VA_BLOCK \<longrightarrow>
      p < block_num_pages sample_block1 \<longrightarrow> gs_resident (gpu_st sample_block1 g) p \<longrightarrow>
      gs_pte_bits (gpu_st (finalize_block sample_me sample_block1) g) 2 p"
    using finalize_restores [OF _ f sample_me_ok(1), of 0 ?r "finalize_block sample_me sample_block1"] r mb
    by (simp add: sample_env_def sample_me_def sample_range_def is_managed_def)
  then show ?thesis
    by (simp add: maps_locally_def UVM_ID_IS_GPU_def sample_block1_def sample_block_def sample_me_def
        block_num_pages_def gpu_st_def)
qed

end
