(* ===== verification/Residency_Scan.thy ===== *)
theory Residency_Scan
  imports Dirty_Tracking
begin

text \<open>
  Pass 1 of the read ioctls (\<open>uvm_live_migration.c\<close>, ioctls 109, 111, 113 and
  \<open>lm_mt_pass1\<close> of 114 to 117): find the va space, walk the 4 KB pages of the requested
  range in its managed blocks, classify each as CPU-resident, GPU-resident or absent, copy
  CPU pages out densely packed, and collect the physical addresses of the GPU pages.
  Page addresses are below \<open>2^64 - 4096\<close> as all user addresses are, so that the page loop's
  counter does not wrap.
\<close>

section \<open>Data\<close>

text \<open>\<open>struct live_migration_gpu_page\<close>.\<close>

record gpu_page =
  gp_phys :: phys_addr
  gp_off :: nat               \<comment> \<open>\<open>gpu_buf_offset\<close>\<close>

text \<open>The locals of pass 1; a \<open>goto done\<close> is a status other than \<open>NV_OK\<close>.\<close>

record p1 =
  p1_cpu_off :: nat
  p1_gpu_off :: nat
  p1_pages :: "gpu_page list"
  p1_cap :: nat
  p1_resmap :: "byte list"
  p1_mem :: mem
  p1_status :: nv_status

text \<open>What pass 1 gets: the allocations that grow with the page list, the GPU, the request.\<close>

record scan_cfg =
  sn_grow_meta :: bool        \<comment> \<open>the metadata array grows with the page list (111, 113)\<close>
  sn_gpu :: "uvm_gpu option"
  sn_base :: nat
  sn_cpu_buf :: nat

section \<open>Classification\<close>

definition is_cpu_page :: "va_block \<Rightarrow> nat \<Rightarrow> bool" where
  "is_cpu_page vb pi \<longleftrightarrow> vb_cpu_resident vb pi"

definition is_gpu_page :: "uvm_gpu option \<Rightarrow> va_block \<Rightarrow> nat \<Rightarrow> bool" where
  "is_gpu_page gpu vb pi \<longleftrightarrow> \<not> is_cpu_page vb pi \<and>
     (case gpu of None \<Rightarrow> False
      | Some g \<Rightarrow> (case vb_gpu_state vb (gpu_id g) of None \<Rightarrow> False | Some gs \<Rightarrow> gs_resident gs pi))"

text \<open>\<open>uvm_va_block_gpu_phys_page_address\<close> for the resolved GPU.\<close>

definition page_phys :: "uvm_gpu option \<Rightarrow> va_block \<Rightarrow> nat \<Rightarrow> phys_addr" where
  "page_phys gpu vb pi = (case gpu of None \<Rightarrow> gs_phys empty_gpu_state pi | Some g \<Rightarrow> gs_phys (gpu_st vb (gpu_id g)) pi)"

definition cpu_page_bytes :: "va_block \<Rightarrow> nat \<Rightarrow> byte list" where
  "cpu_page_bytes vb pi = map (vb_cpu_data vb pi) [0..<PAGE_SIZE]"

section \<open>One page\<close>

definition scan_cpu_page :: "uvm_env \<Rightarrow> scan_cfg \<Rightarrow> va_block \<Rightarrow> nat \<Rightarrow> nat \<Rightarrow> p1 \<Rightarrow> p1" where
  "scan_cpu_page env cfg vb pi px s =
     (let s1 = s\<lparr>p1_resmap := (p1_resmap s)[px := 0]\<rparr>;
          a = u64 (sn_cpu_buf cfg + p1_cpu_off s)
      in if sn_cpu_buf cfg \<noteq> 0 \<and> \<not> env_copy env a PAGE_SIZE then s1\<lparr>p1_status := NV_ERR_INVALID_ARGUMENT\<rparr>
         else s1\<lparr>p1_mem := (if sn_cpu_buf cfg \<noteq> 0 then write_mem (p1_mem s) a (cpu_page_bytes vb pi) else p1_mem s),
                 p1_cpu_off := p1_cpu_off s + PAGE_SIZE\<rparr>)"

definition scan_gpu_page :: "uvm_env \<Rightarrow> scan_cfg \<Rightarrow> va_block \<Rightarrow> nat \<Rightarrow> nat \<Rightarrow> p1 \<Rightarrow> p1" where
  "scan_gpu_page env cfg vb pi px s =
     (let s1 = s\<lparr>p1_resmap := (p1_resmap s)[px := 1]\<rparr>;
          full = (p1_cap s \<le> length (p1_pages s));
          nc = p1_cap s * 2
      in if full \<and> (\<not> env_alloc env A_gpu_pages_grow nc \<or> (sn_grow_meta cfg \<and> \<not> env_alloc env A_crypto_meta_grow nc))
         then s1\<lparr>p1_status := NV_ERR_NO_MEMORY\<rparr>
         else s1\<lparr>p1_cap := (if full then nc else p1_cap s),
                 p1_pages := p1_pages s @ [\<lparr>gp_phys = page_phys (sn_gpu cfg) vb pi, gp_off = p1_gpu_off s\<rparr>],
                 p1_gpu_off := p1_gpu_off s + PAGE_SIZE\<rparr>)"

definition page_slot :: "nat \<Rightarrow> nat \<Rightarrow> nat" where
  "page_slot base va = (va - base) div PAGE_SIZE"

definition scan_page :: "uvm_env \<Rightarrow> scan_cfg \<Rightarrow> va_block \<times> nat \<Rightarrow> p1 \<Rightarrow> p1" where
  "scan_page env cfg x s =
     (case x of (vb, va) \<Rightarrow>
        if p1_status s \<noteq> NV_OK then s
        else let pi = page_index vb va; px = page_slot (sn_base cfg) va
             in if is_cpu_page vb pi then scan_cpu_page env cfg vb pi px s
                else if is_gpu_page (sn_gpu cfg) vb pi then scan_gpu_page env cfg vb pi px s
                else s)"

section \<open>The walk\<close>

text \<open>The page addresses of a block inside \<open>[base, e]\<close>.\<close>

definition block_pages :: "nat \<Rightarrow> nat \<Rightarrow> va_block \<Rightarrow> nat list" where
  "block_pages base e vb =
     (let bs = max (vb_start vb) base; be = min (vb_end vb) e
      in if be < bs then [] else map (\<lambda>k. bs + k * PAGE_SIZE) [0..<(be - bs) div PAGE_SIZE + 1])"

definition blocks_in :: "va_space \<Rightarrow> nat \<Rightarrow> nat \<Rightarrow> va_block list" where
  "blocks_in vs base e = concat (map vr_blocks (filter is_managed (va_ranges_in vs base e)))"

text \<open>The blocks walked: all of them, or only the tracked dirty ones (\<open>dirty_only\<close>).\<close>

definition scan_list :: "bool \<Rightarrow> va_space \<Rightarrow> nat \<Rightarrow> nat \<Rightarrow> (va_block \<times> nat) list" where
  "scan_list dirty_only vs base e =
     concat (map (\<lambda>vb. map (Pair vb) (block_pages base e vb))
       (filter (\<lambda>vb. dirty_only \<longrightarrow> is_dirty_block vb) (blocks_in vs base e)))"

definition p1_init :: "nat \<Rightarrow> nat \<Rightarrow> mem \<Rightarrow> p1" where
  "p1_init n_pages cap m =
     \<lparr>p1_cpu_off = 0, p1_gpu_off = 0, p1_pages = [], p1_cap = cap, p1_resmap = replicate n_pages 2,
      p1_mem = m, p1_status = NV_OK\<rparr>"

definition range_end :: "nat \<Rightarrow> nat \<Rightarrow> nat" where
  "range_end base len = u64 (base + len - 1)"

text \<open>The lock operations of the search and of the walk that follows it.\<close>

definition search_locks :: "nat \<Rightarrow> lock_op list" where
  "search_locks n = concat (map (\<lambda>i. [DownRead i, UpRead i]) [0..<n])"

definition found_locks :: "nat \<Rightarrow> lock_op list" where
  "found_locks i = GLock # search_locks i @ [DownRead i, UpRead i, GUnlock]"

definition missing_locks :: "va_space list \<Rightarrow> lock_op list" where
  "missing_locks vss = GLock # search_locks (length vss) @ [GUnlock]"

text \<open>
  The result of pass 1: the status (\<open>NV_ERR_INVALID_ADDRESS\<close> when no va space has a managed
  range at the base), the locals, the resolved GPU and the lock operations.
\<close>

record p1_result =
  pr_p1 :: p1
  pr_gpu :: "uvm_gpu option"
  pr_locks :: "lock_op list"

definition pass1 ::
  "uvm_env \<Rightarrow> bool \<Rightarrow> bool \<Rightarrow> va_space list \<Rightarrow> nat \<Rightarrow> nat \<Rightarrow> nat \<Rightarrow> uuid \<Rightarrow> p1 \<Rightarrow> p1_result" where
  "pass1 env grow_meta dirty_only vss base len cpu_buf uu s0 =
     (case find_va_space vss base 0 of
        None \<Rightarrow> \<lparr>pr_p1 = s0\<lparr>p1_status := NV_ERR_INVALID_ADDRESS\<rparr>, pr_gpu = None, pr_locks = missing_locks vss\<rparr>
      | Some (i, vs) \<Rightarrow>
          let gpu = resolve_gpu vs uu;
              cfg = \<lparr>sn_grow_meta = grow_meta, sn_gpu = gpu, sn_base = base, sn_cpu_buf = cpu_buf\<rparr>
          in \<lparr>pr_p1 = fold (scan_page env cfg) (scan_list dirty_only vs base (range_end base len)) s0,
              pr_gpu = gpu, pr_locks = found_locks i\<rparr>)"

text \<open>The four copies of pass 1 in the source.\<close>

definition r109_pass1 :: "uvm_env \<Rightarrow> va_space list \<Rightarrow> nat \<Rightarrow> nat \<Rightarrow> nat \<Rightarrow> uuid \<Rightarrow> p1 \<Rightarrow> p1_result" where
  "r109_pass1 env = pass1 env False False"

definition r111_pass1 :: "uvm_env \<Rightarrow> va_space list \<Rightarrow> nat \<Rightarrow> nat \<Rightarrow> nat \<Rightarrow> uuid \<Rightarrow> p1 \<Rightarrow> p1_result" where
  "r111_pass1 env = pass1 env True False"

definition v2_pass1 :: "uvm_env \<Rightarrow> va_space list \<Rightarrow> nat \<Rightarrow> nat \<Rightarrow> nat \<Rightarrow> uuid \<Rightarrow> p1 \<Rightarrow> p1_result" where
  "v2_pass1 env = pass1 env True False"

definition lm_mt_pass1 ::
  "uvm_env \<Rightarrow> bool \<Rightarrow> va_space list \<Rightarrow> nat \<Rightarrow> nat \<Rightarrow> nat \<Rightarrow> uuid \<Rightarrow> p1 \<Rightarrow> p1_result" where
  "lm_mt_pass1 env = pass1 env False"

section \<open>What pass 1 computes\<close>

text \<open>The reference: the CPU pages and the GPU pages of the walk, in walk order.\<close>

definition cpu_visit :: "va_block \<times> nat \<Rightarrow> bool" where
  "cpu_visit x = is_cpu_page (fst x) (page_index (fst x) (snd x))"

definition gpu_visit :: "uvm_gpu option \<Rightarrow> va_block \<times> nat \<Rightarrow> bool" where
  "gpu_visit gpu x = is_gpu_page gpu (fst x) (page_index (fst x) (snd x))"

definition visit_bytes :: "va_block \<times> nat \<Rightarrow> byte list" where
  "visit_bytes x = cpu_page_bytes (fst x) (page_index (fst x) (snd x))"

definition visit_phys :: "uvm_gpu option \<Rightarrow> va_block \<times> nat \<Rightarrow> phys_addr" where
  "visit_phys gpu x = page_phys gpu (fst x) (page_index (fst x) (snd x))"

definition cpu_section :: "(va_block \<times> nat) list \<Rightarrow> byte list" where
  "cpu_section xs = concat (map visit_bytes (filter cpu_visit xs))"

fun gpu_list :: "nat \<Rightarrow> phys_addr list \<Rightarrow> gpu_page list" where
  "gpu_list off [] = []"
| "gpu_list off (p # ps) = \<lparr>gp_phys = p, gp_off = off\<rparr> # gpu_list (off + PAGE_SIZE) ps"

definition gpu_phys_list :: "uvm_gpu option \<Rightarrow> (va_block \<times> nat) list \<Rightarrow> phys_addr list" where
  "gpu_phys_list gpu xs = map (visit_phys gpu) (filter (gpu_visit gpu) xs)"

definition mark_page :: "uvm_gpu option \<Rightarrow> nat \<Rightarrow> va_block \<times> nat \<Rightarrow> byte list \<Rightarrow> byte list" where
  "mark_page gpu base x rm =
     (if cpu_visit x then rm[page_slot base (snd x) := 0]
      else if gpu_visit gpu x then rm[page_slot base (snd x) := 1] else rm)"

lemma length_cpu_page_bytes [simp, layout_simps]: "length (cpu_page_bytes vb pi) = PAGE_SIZE"
  by (simp add: cpu_page_bytes_def)

lemma length_cpu_section [simp, layout_simps]:
  "length (cpu_section xs) = PAGE_SIZE * length (filter cpu_visit xs)"
  by (induction xs) (auto simp: cpu_section_def visit_bytes_def)

lemma length_gpu_list [simp]: "length (gpu_list off ps) = length ps"
  by (induction ps arbitrary: off) auto

lemma nth_gpu_list: "k < length ps \<Longrightarrow> gpu_list off ps ! k = \<lparr>gp_phys = ps ! k, gp_off = off + k * PAGE_SIZE\<rparr>"
  by (induction ps arbitrary: off k) (auto simp: nth_Cons split: nat.splits)

lemma scan_page_stopped: "p1_status s \<noteq> NV_OK \<Longrightarrow> scan_page env cfg x s = s"
  by (cases x) (simp add: scan_page_def)

lemma scan_fold_stopped: "p1_status s \<noteq> NV_OK \<Longrightarrow> fold (scan_page env cfg) xs s = s"
  by (induction xs) (simp_all add: scan_page_stopped)

lemma gpu_visit_not_cpu: "gpu_visit gpu x \<Longrightarrow> \<not> cpu_visit x"
  by (simp add: gpu_visit_def cpu_visit_def is_gpu_page_def)

text \<open>What one successful step does, by class of the page.\<close>

lemma scan_page_cases:
  assumes "p1_status s = NV_OK" "p1_status (scan_page env cfg x s) = NV_OK"
  shows "scan_page env cfg x s =
    (let a = u64 (sn_cpu_buf cfg + p1_cpu_off s) in
     if cpu_visit x then
       s\<lparr>p1_resmap := mark_page (sn_gpu cfg) (sn_base cfg) x (p1_resmap s),
         p1_mem := (if sn_cpu_buf cfg \<noteq> 0 then write_mem (p1_mem s) a (visit_bytes x) else p1_mem s),
         p1_cpu_off := p1_cpu_off s + PAGE_SIZE\<rparr>
     else if gpu_visit (sn_gpu cfg) x then
       s\<lparr>p1_resmap := mark_page (sn_gpu cfg) (sn_base cfg) x (p1_resmap s),
         p1_cap := (if p1_cap s \<le> length (p1_pages s) then p1_cap s * 2 else p1_cap s),
         p1_pages := p1_pages s @ [\<lparr>gp_phys = visit_phys (sn_gpu cfg) x, gp_off = p1_gpu_off s\<rparr>],
         p1_gpu_off := p1_gpu_off s + PAGE_SIZE\<rparr>
     else s)"
  using assms
  by (cases x)
     (auto simp: scan_page_def scan_cpu_page_def scan_gpu_page_def mark_page_def cpu_visit_def gpu_visit_def
                 visit_bytes_def visit_phys_def Let_def split: if_splits)

text \<open>The whole walk, when it succeeds.\<close>

lemma scan_fold:
  assumes "p1_status s = NV_OK" "p1_status (fold (scan_page env cfg) xs s) = NV_OK"
    and "sn_cpu_buf cfg = 0 \<or> sn_cpu_buf cfg + p1_cpu_off s + PAGE_SIZE * length (filter cpu_visit xs) \<le> 2 ^ 64"
  shows "p1_cpu_off (fold (scan_page env cfg) xs s) = p1_cpu_off s + PAGE_SIZE * length (filter cpu_visit xs) \<and>
    p1_gpu_off (fold (scan_page env cfg) xs s) = p1_gpu_off s + PAGE_SIZE * length (filter (gpu_visit (sn_gpu cfg)) xs) \<and>
    p1_pages (fold (scan_page env cfg) xs s) =
      p1_pages s @ gpu_list (p1_gpu_off s) (gpu_phys_list (sn_gpu cfg) xs) \<and>
    p1_resmap (fold (scan_page env cfg) xs s) = fold (mark_page (sn_gpu cfg) (sn_base cfg)) xs (p1_resmap s) \<and>
    p1_mem (fold (scan_page env cfg) xs s) =
      (if sn_cpu_buf cfg \<noteq> 0 then write_mem (p1_mem s) (sn_cpu_buf cfg + p1_cpu_off s) (cpu_section xs) else p1_mem s)"
  using assms
proof (induction xs arbitrary: s)
  case Nil
  then show ?case by (simp add: gpu_phys_list_def cpu_section_def)
next
  case (Cons x xs)
  define s1 where "s1 = scan_page env cfg x s"
  have ok1: "p1_status s1 = NV_OK"
  proof (rule ccontr)
    assume "p1_status s1 \<noteq> NV_OK"
    from scan_fold_stopped [OF this, of env cfg xs] this Cons.prems(2) show False by (simp add: s1_def)
  qed
  have s1: "s1 = (let a = u64 (sn_cpu_buf cfg + p1_cpu_off s) in
     if cpu_visit x then
       s\<lparr>p1_resmap := mark_page (sn_gpu cfg) (sn_base cfg) x (p1_resmap s),
         p1_mem := (if sn_cpu_buf cfg \<noteq> 0 then write_mem (p1_mem s) a (visit_bytes x) else p1_mem s),
         p1_cpu_off := p1_cpu_off s + PAGE_SIZE\<rparr>
     else if gpu_visit (sn_gpu cfg) x then
       s\<lparr>p1_resmap := mark_page (sn_gpu cfg) (sn_base cfg) x (p1_resmap s),
         p1_cap := (if p1_cap s \<le> length (p1_pages s) then p1_cap s * 2 else p1_cap s),
         p1_pages := p1_pages s @ [\<lparr>gp_phys = visit_phys (sn_gpu cfg) x, gp_off = p1_gpu_off s\<rparr>],
         p1_gpu_off := p1_gpu_off s + PAGE_SIZE\<rparr>
     else s)"
    unfolding s1_def by (rule scan_page_cases [OF Cons.prems(1) ok1 [unfolded s1_def]])
  have fold1: "fold (scan_page env cfg) (x # xs) s = fold (scan_page env cfg) xs s1"
    by (simp add: s1_def)
  have ok: "p1_status (fold (scan_page env cfg) xs s1) = NV_OK"
    using Cons.prems(2) unfolding fold1 .
  show ?case
  proof (cases "cpu_visit x")
    case True
    have bound: "sn_cpu_buf cfg = 0 \<or> sn_cpu_buf cfg + p1_cpu_off s1 + PAGE_SIZE * length (filter cpu_visit xs) \<le> 2 ^ 64"
      using Cons.prems(3) True s1 by (auto simp: Let_def)
    have u: "sn_cpu_buf cfg \<noteq> 0 \<Longrightarrow> u64 (sn_cpu_buf cfg + p1_cpu_off s) = sn_cpu_buf cfg + p1_cpu_off s"
      using Cons.prems(3) True by (intro u64_small) auto
    have ng: "\<not> gpu_visit (sn_gpu cfg) x" using True gpu_visit_not_cpu by blast
    have app: "write_mem (write_mem m p (visit_bytes x)) (p + PAGE_SIZE) ys = write_mem m p (visit_bytes x @ ys)" for m p ys
      using write_mem_append [of m p "visit_bytes x" ys] by (simp add: visit_bytes_def)
    show ?thesis
      unfolding fold1 using Cons.IH [OF ok1 ok bound] True ng u
      by (simp add: s1 Let_def gpu_phys_list_def cpu_section_def app [symmetric] add.assoc)
  next
    case False
    have bound: "sn_cpu_buf cfg = 0 \<or> sn_cpu_buf cfg + p1_cpu_off s1 + PAGE_SIZE * length (filter cpu_visit xs) \<le> 2 ^ 64"
      using Cons.prems(3) False s1 by (auto simp: Let_def)
    show ?thesis
      unfolding fold1 using Cons.IH [OF ok1 ok bound] False
      by (simp add: s1 Let_def gpu_phys_list_def cpu_section_def mark_page_def)
  qed
qed

text \<open>An environment in which user memory is accessible and allocations succeed.\<close>

definition env_mem_ok :: "uvm_env \<Rightarrow> bool" where
  "env_mem_ok env \<longleftrightarrow> (\<forall>a n. env_copy env a n) \<and> (\<forall>s n. env_alloc env s n)"

lemma scan_fold_ok:
  "env_mem_ok env \<Longrightarrow> p1_status s = NV_OK \<Longrightarrow> p1_status (fold (scan_page env cfg) xs s) = NV_OK"
  by (induction xs arbitrary: s)
     (auto simp: env_mem_ok_def scan_page_def scan_cpu_page_def scan_gpu_page_def Let_def split: prod.splits)

text \<open>Pass 1 fails in two ways only: user memory, or memory for the page list.\<close>

lemma scan_fold_status:
  "p1_status s \<in> {NV_OK, NV_ERR_INVALID_ARGUMENT, NV_ERR_NO_MEMORY} \<Longrightarrow>
   p1_status (fold (scan_page env cfg) xs s) \<in> {NV_OK, NV_ERR_INVALID_ARGUMENT, NV_ERR_NO_MEMORY}"
  by (induction xs arbitrary: s)
     (auto simp: scan_page_def scan_cpu_page_def scan_gpu_page_def Let_def split: prod.splits)

section \<open>Bounds\<close>

text \<open>
  A well-formed va space: the managed blocks are page-aligned, non-empty, ordered by
  address and disjoint.
\<close>

definition vs_wf :: "va_space \<Rightarrow> bool" where
  "vs_wf vs \<longleftrightarrow> sorted_wrt (\<lambda>a b. vb_end a < vb_start b) (managed_blocks vs) \<and>
     (\<forall>vb \<in> set (managed_blocks vs). vb_start vb mod PAGE_SIZE = 0 \<and> (vb_end vb + 1) mod PAGE_SIZE = 0 \<and>
        vb_start vb \<le> vb_end vb)"

lemma sorted_wrt_concat_filter:
  "sorted_wrt R (concat (map f (filter Q xs))) \<Longrightarrow> sorted_wrt R (concat (map f (filter (\<lambda>x. P x \<and> Q x) xs)))"
proof (induction xs)
  case (Cons x xs)
  then show ?case
    by (cases "P x"; cases "Q x") (auto simp: sorted_wrt_append)
qed simp

lemma blocks_in_wf:
  assumes "vs_wf vs"
  shows "sorted_wrt (\<lambda>a b. vb_end a < vb_start b) (blocks_in vs base e)"
    and "set (blocks_in vs base e) \<subseteq> set (managed_blocks vs)"
proof -
  have eq: "blocks_in vs base e =
      concat (map vr_blocks (filter (\<lambda>r. (base \<le> vr_end r \<and> vr_start r \<le> e) \<and> is_managed r) (vs_ranges vs)))"
    by (simp add: blocks_in_def va_ranges_in_def conj_commute)
  show "sorted_wrt (\<lambda>a b. vb_end a < vb_start b) (blocks_in vs base e)"
    unfolding eq using assms by (intro sorted_wrt_concat_filter) (simp add: vs_wf_def managed_blocks_def)
  show "set (blocks_in vs base e) \<subseteq> set (managed_blocks vs)"
    unfolding eq by (auto simp: managed_blocks_iff)
qed

lemma block_pages_props:
  assumes "va \<in> set (block_pages base e vb)" "vb_start vb mod PAGE_SIZE = 0" "base mod PAGE_SIZE = 0"
  shows "va mod PAGE_SIZE = 0" "base \<le> va" "va \<le> e" "vb_start vb \<le> va" "va \<le> vb_end vb"
proof -
  define bs where "bs = max (vb_start vb) base"
  define be where "be = min (vb_end vb) e"
  obtain k where k: "k < (be - bs) div PAGE_SIZE + 1" "va = bs + k * PAGE_SIZE" "bs \<le> be"
    using assms(1) unfolding block_pages_def Let_def bs_def [symmetric] be_def [symmetric]
    by (auto simp del: upt_Suc split: if_splits)
  have "k * PAGE_SIZE \<le> (be - bs) div PAGE_SIZE * PAGE_SIZE"
    using k(1) by (intro mult_le_mono1) simp
  also have "\<dots> \<le> be - bs" by (rule div_times_less_eq_dividend)
  finally have "va \<le> be" using k(2,3) by simp
  moreover have "bs mod PAGE_SIZE = 0" using assms(2,3) by (simp add: bs_def max_def)
  ultimately show "va mod PAGE_SIZE = 0" "base \<le> va" "va \<le> e" "vb_start vb \<le> va" "va \<le> vb_end vb"
    using k(2) by (auto simp: bs_def be_def)
qed

lemma page_run_sorted: "sorted_wrt (<) (map (\<lambda>k. b + k * PAGE_SIZE) [0..<n])"
  by (simp add: sorted_wrt_map sorted_wrt_iff_nth_less)

lemma block_pages_sorted: "sorted_wrt (<) (block_pages base e vb)"
  using page_run_sorted by (simp add: block_pages_def Let_def del: upt_Suc)

lemma sorted_wrt_concat_map:
  assumes "sorted_wrt R xs" "\<And>x. x \<in> set xs \<Longrightarrow> sorted_wrt (<) (f x)"
    and "\<And>x y a b. R x y \<Longrightarrow> x \<in> set xs \<Longrightarrow> y \<in> set xs \<Longrightarrow> a \<in> set (f x) \<Longrightarrow> b \<in> set (f y) \<Longrightarrow> a < b"
  shows "sorted_wrt ((<) :: nat \<Rightarrow> nat \<Rightarrow> bool) (concat (map f xs))"
  using assms
proof (induction xs)
  case (Cons x xs)
  have "sorted_wrt (<) (concat (map f xs))"
    by (rule Cons.IH) (use Cons.prems in auto)
  then show ?case
    using Cons.prems by (fastforce simp: sorted_wrt_append)
qed simp

lemma map_snd_scan_list:
  "map snd (scan_list d vs base e) = concat (map (block_pages base e) (filter (\<lambda>vb. d \<longrightarrow> is_dirty_block vb) (blocks_in vs base e)))"
  by (simp add: scan_list_def map_concat o_def)

lemma scan_list_mem:
  assumes "(vb, va) \<in> set (scan_list d vs base e)"
  shows "vb \<in> set (blocks_in vs base e)" "va \<in> set (block_pages base e vb)" "d \<Longrightarrow> is_dirty_block vb"
  using assms by (auto simp: scan_list_def)

text \<open>The walk visits page addresses in strictly increasing order.\<close>

lemma scan_list_sorted:
  assumes "vs_wf vs" "base mod PAGE_SIZE = 0"
  shows "sorted_wrt (<) (map snd (scan_list d vs base e))"
  unfolding map_snd_scan_list
proof (rule sorted_wrt_concat_map)
  let ?bs = "filter (\<lambda>vb. d \<longrightarrow> is_dirty_block vb) (blocks_in vs base e)"
  show "sorted_wrt (\<lambda>a b. vb_end a < vb_start b) ?bs"
    using blocks_in_wf(1) [OF assms(1)] by (simp add: sorted_wrt_filter)
  show "sorted_wrt (<) (block_pages base e vb)" for vb by (rule block_pages_sorted)
  fix x y a b
  assume *: "vb_end x < vb_start y" "x \<in> set ?bs" "y \<in> set ?bs" "a \<in> set (block_pages base e x)" "b \<in> set (block_pages base e y)"
  then have "vb_start x mod PAGE_SIZE = 0" "vb_start y mod PAGE_SIZE = 0"
    using assms(1) blocks_in_wf(2) [OF assms(1), of base e] by (auto simp: vs_wf_def)
  then show "a < b"
    using block_pages_props [OF *(4)] block_pages_props [OF *(5)] assms(2) *(1) by force
qed

text \<open>Slots in the residency map: in range, and increasing along the walk.\<close>

lemma scan_list_props:
  assumes "vs_wf vs" "base mod PAGE_SIZE = 0" "(vb, va) \<in> set (scan_list d vs base e)"
  shows "va mod PAGE_SIZE = 0" "base \<le> va" "va \<le> e"
proof -
  have "vb \<in> set (managed_blocks vs)"
    using scan_list_mem(1) [OF assms(3)] blocks_in_wf(2) [OF assms(1)] by blast
  then have "vb_start vb mod PAGE_SIZE = 0" using assms(1) by (simp add: vs_wf_def)
  from block_pages_props [OF scan_list_mem(2) [OF assms(3)] this assms(2)]
  show "va mod PAGE_SIZE = 0" "base \<le> va" "va \<le> e" by auto
qed

lemma page_slot_bound:
  assumes "0 < len" "base \<le> va" "va \<le> range_end base len" "len mod PAGE_SIZE = 0"
  shows "page_slot base va < len div PAGE_SIZE"
proof -
  have "range_end base len \<le> base + len - 1"
    unfolding range_end_def u64_def by (rule mod_less_eq_dividend)
  then have "va - base < len" using assms(1-3) by linarith
  moreover have "len = len div PAGE_SIZE * PAGE_SIZE"
    using assms(4) by (simp add: mod_eq_0_iff_dvd)
  ultimately show ?thesis
    unfolding page_slot_def by (metis less_mult_imp_div_less)
qed

lemma page_slot_mono:
  assumes "base mod PAGE_SIZE = 0" "a mod PAGE_SIZE = 0" "b mod PAGE_SIZE = 0" "base \<le> a" "a < b"
  shows "page_slot base a < page_slot base b"
proof -
  obtain i j k where "base = PAGE_SIZE * i" "a = PAGE_SIZE * j" "b = PAGE_SIZE * k"
    using assms(1-3) by (metis dvd_def mod_0_imp_dvd)
  with assms(4,5) show ?thesis
    by (simp add: page_slot_def flip: diff_mult_distrib2)
qed

lemma scan_slots_sorted:
  assumes "vs_wf vs" "base mod PAGE_SIZE = 0"
  shows "sorted_wrt (<) (map (page_slot base \<circ> snd) (scan_list d vs base e))"
proof -
  have "sorted_wrt (\<lambda>x y. snd x < snd y) (scan_list d vs base e)"
    using scan_list_sorted [OF assms] by (simp add: sorted_wrt_map)
  then have "sorted_wrt (\<lambda>x y. page_slot base (snd x) < page_slot base (snd y)) (scan_list d vs base e)"
  proof (rule sorted_wrt_mono_rel [rotated])
    fix x y assume "x \<in> set (scan_list d vs base e)" "y \<in> set (scan_list d vs base e)" "snd x < snd y"
    then show "page_slot base (snd x) < page_slot base (snd y)"
      using scan_list_props [OF assms, of "fst x" "snd x" d e] scan_list_props [OF assms, of "fst y" "snd y" d e] assms(2)
      by (intro page_slot_mono) auto
  qed
  then show ?thesis by (simp add: sorted_wrt_map)
qed

lemma scan_slots_bound:
  assumes "vs_wf vs" "base mod PAGE_SIZE = 0" "0 < len" "len mod PAGE_SIZE = 0"
    and "x \<in> set (scan_list d vs base (range_end base len))"
  shows "page_slot base (snd x) < len div PAGE_SIZE"
proof -
  have "(fst x, snd x) \<in> set (scan_list d vs base (range_end base len))" using assms(5) by simp
  note pr = scan_list_props [OF assms(1,2) this]
  show ?thesis by (rule page_slot_bound [OF assms(3) pr(2,3) assms(4)])
qed

lemma scan_list_length:
  assumes "vs_wf vs" "base mod PAGE_SIZE = 0" "0 < len" "len mod PAGE_SIZE = 0"
  shows "length (scan_list d vs base (range_end base len)) \<le> len div PAGE_SIZE"
proof -
  let ?xs = "scan_list d vs base (range_end base len)"
  let ?ss = "map (page_slot base \<circ> snd) ?xs"
  have "distinct ?ss"
    using scan_slots_sorted [OF assms(1,2), of d "range_end base len"]
    by (simp add: strict_sorted_iff)
  moreover have "set ?ss \<subseteq> {..<len div PAGE_SIZE}"
    using scan_slots_bound [OF assms] by auto
  ultimately have "length ?ss \<le> card {..<len div PAGE_SIZE}"
    by (metis card_mono distinct_card finite_lessThan)
  then show ?thesis by simp
qed

text \<open>The residency map: each visited page's slot holds its class, all others stay absent.\<close>

definition visit_class :: "uvm_gpu option \<Rightarrow> va_block \<times> nat \<Rightarrow> byte" where
  "visit_class gpu x = (if cpu_visit x then 0 else if gpu_visit gpu x then 1 else 2)"

lemma length_mark_fold [simp]: "length (fold (mark_page gpu base) xs rm) = length rm"
  by (induction xs arbitrary: rm) (simp_all add: mark_page_def)

lemma mark_fold_other:
  "k \<notin> set (map (page_slot base \<circ> snd) xs) \<Longrightarrow> fold (mark_page gpu base) xs rm ! k = rm ! k"
  by (induction xs arbitrary: rm) (auto simp: mark_page_def)

lemma mark_fold_hit:
  assumes "distinct (map (page_slot base \<circ> snd) xs)" "x \<in> set xs"
    and "\<forall>y \<in> set xs. page_slot base (snd y) < length rm \<and> rm ! page_slot base (snd y) = 2"
  shows "fold (mark_page gpu base) xs rm ! page_slot base (snd x) = visit_class gpu x"
  using assms
proof (induction xs arbitrary: rm)
  case (Cons y xs)
  show ?case
  proof (cases "x = y")
    case True
    have "fold (mark_page gpu base) (y # xs) rm ! page_slot base (snd x) = mark_page gpu base y rm ! page_slot base (snd y)"
      using Cons.prems(1) mark_fold_other [of "page_slot base (snd y)" base xs gpu "mark_page gpu base y rm"] True by simp
    also have "\<dots> = visit_class gpu y"
      using Cons.prems(3) by (simp add: mark_page_def visit_class_def)
    finally show ?thesis using True by simp
  next
    case False
    then have x: "x \<in> set xs" using Cons.prems(2) by simp
    have "\<forall>z \<in> set xs. page_slot base (snd z) < length (mark_page gpu base y rm) \<and>
        mark_page gpu base y rm ! page_slot base (snd z) = 2"
    proof
      fix z assume z: "z \<in> set xs"
      then have "page_slot base (snd z) \<in> set (map (page_slot base \<circ> snd) xs)" by simp
      then have "page_slot base (snd z) \<noteq> page_slot base (snd y)"
        using Cons.prems(1) by (metis comp_apply distinct.simps(2) list.simps(9))
      then show "page_slot base (snd z) < length (mark_page gpu base y rm) \<and>
          mark_page gpu base y rm ! page_slot base (snd z) = 2"
        using Cons.prems(3) z by (simp add: mark_page_def)
    qed
    with Cons.IH [OF _ x] Cons.prems(1) show ?thesis by simp
  qed
qed simp

section \<open>Pass 1 as a whole\<close>

text \<open>The pages a request visits and the GPU it resolves to.\<close>

definition request_visits :: "bool \<Rightarrow> va_space list \<Rightarrow> nat \<Rightarrow> nat \<Rightarrow> (va_block \<times> nat) list" where
  "request_visits d vss base len =
     (case find_va_space vss base 0 of None \<Rightarrow> []
      | Some (i, vs) \<Rightarrow> scan_list d vs base (range_end base len))"

definition request_gpu :: "va_space list \<Rightarrow> nat \<Rightarrow> uuid \<Rightarrow> uvm_gpu option" where
  "request_gpu vss base uu = (case find_va_space vss base 0 of None \<Rightarrow> None | Some (i, vs) \<Rightarrow> resolve_gpu vs uu)"

text \<open>A request the handlers accept, on well-formed va spaces, whose CPU buffer does not wrap.\<close>

definition request_ok :: "va_space list \<Rightarrow> nat \<Rightarrow> nat \<Rightarrow> nat \<Rightarrow> bool" where
  "request_ok vss base len cpu_buf \<longleftrightarrow>
     (\<forall>vs \<in> set vss. vs_wf vs) \<and> base mod PAGE_SIZE = 0 \<and> 0 < len \<and> len mod PAGE_SIZE = 0 \<and>
     (cpu_buf = 0 \<or> cpu_buf + len \<le> 2 ^ 64)"

lemma find_va_space_mem: "find_va_space vss base i = Some (j, vs) \<Longrightarrow> vs \<in> set vss"
  by (induction vss arbitrary: i) (auto split: option.splits if_splits)

lemma filter_disjoint_length:
  "(\<And>x. P x \<Longrightarrow> \<not> Q x) \<Longrightarrow> length (filter P xs) + length (filter Q xs) \<le> length xs"
  by (induction xs) auto

lemma request_visits_length:
  assumes "request_ok vss base len cpu_buf"
  shows "length (request_visits d vss base len) \<le> len div PAGE_SIZE"
proof (cases "find_va_space vss base 0")
  case (Some iv)
  then obtain i vs where "find_va_space vss base 0 = Some (i, vs)" by (cases iv) auto
  then show ?thesis
    using scan_list_length [of vs base len d] assms find_va_space_mem
    by (auto simp: request_visits_def request_ok_def)
qed (simp add: request_visits_def)

lemma request_parts_bound:
  assumes "request_ok vss base len cpu_buf"
  shows "PAGE_SIZE * length (filter cpu_visit (request_visits d vss base len)) +
         PAGE_SIZE * length (filter (gpu_visit g) (request_visits d vss base len)) \<le> len"
proof -
  have "length (filter cpu_visit (request_visits d vss base len)) + length (filter (gpu_visit g) (request_visits d vss base len))
      \<le> len div PAGE_SIZE"
    using filter_disjoint_length [of cpu_visit "gpu_visit g"] gpu_visit_not_cpu request_visits_length [OF assms]
    by (meson order_trans)
  then have "PAGE_SIZE * (length (filter cpu_visit (request_visits d vss base len)) +
      length (filter (gpu_visit g) (request_visits d vss base len))) \<le> PAGE_SIZE * (len div PAGE_SIZE)"
    by (rule mult_le_mono2)
  also have "\<dots> \<le> len" by simp
  finally show ?thesis by (simp add: algebra_simps)
qed

lemma pass1_found:
  assumes "p1_status (pr_p1 (pass1 env gm d vss base len cpu_buf uu s0)) \<noteq> NV_ERR_INVALID_ADDRESS"
  obtains i vs where "find_va_space vss base 0 = Some (i, vs)"
  using assms by (auto simp: pass1_def split: option.splits)

lemma pass1_facts:
  assumes ok: "p1_status (pr_p1 (pass1 env gm d vss base len cpu_buf uu (p1_init (len div PAGE_SIZE) cap m))) = NV_OK"
    and req: "request_ok vss base len cpu_buf"
  defines "r \<equiv> pr_p1 (pass1 env gm d vss base len cpu_buf uu (p1_init (len div PAGE_SIZE) cap m))"
    and "V \<equiv> request_visits d vss base len" and "G \<equiv> request_gpu vss base uu"
  shows "p1_cpu_off r = PAGE_SIZE * length (filter cpu_visit V)"
    and "p1_gpu_off r = PAGE_SIZE * length (filter (gpu_visit G) V)"
    and "p1_pages r = gpu_list 0 (gpu_phys_list G V)"
    and "p1_mem r = (if cpu_buf \<noteq> 0 then write_mem m cpu_buf (cpu_section V) else m)"
    and "p1_resmap r = fold (mark_page G base) V (replicate (len div PAGE_SIZE) 2)"
    and "pr_gpu (pass1 env gm d vss base len cpu_buf uu (p1_init (len div PAGE_SIZE) cap m)) = G"
proof -
  obtain i vs where f: "find_va_space vss base 0 = Some (i, vs)"
    using pass1_found [of env gm d vss base len cpu_buf uu] ok by fastforce
  define cfg where "cfg = \<lparr>sn_grow_meta = gm, sn_gpu = G, sn_base = base, sn_cpu_buf = cpu_buf\<rparr>"
  define s0 where "s0 = p1_init (len div PAGE_SIZE) cap m"
  have G: "G = resolve_gpu vs uu" and V: "V = scan_list d vs base (range_end base len)"
    using f by (simp_all add: G_def V_def request_gpu_def request_visits_def)
  have r: "r = fold (scan_page env cfg) V s0" and g: "pr_gpu (pass1 env gm d vss base len cpu_buf uu s0) = G"
    using f by (simp_all add: r_def pass1_def cfg_def V G s0_def Let_def)
  have bound: "sn_cpu_buf cfg = 0 \<or> sn_cpu_buf cfg + p1_cpu_off s0 + PAGE_SIZE * length (filter cpu_visit V) \<le> 2 ^ 64"
    using request_parts_bound [OF req, of d G] req by (auto simp: cfg_def s0_def p1_init_def V_def request_ok_def)
  have "p1_status s0 = NV_OK" by (simp add: s0_def p1_init_def)
  note sf = scan_fold [OF this _ bound, of env, folded r]
  have "p1_status r = NV_OK" using ok by (simp add: r_def)
  from sf [OF this] show "p1_cpu_off r = PAGE_SIZE * length (filter cpu_visit V)"
    "p1_gpu_off r = PAGE_SIZE * length (filter (gpu_visit G) V)"
    "p1_pages r = gpu_list 0 (gpu_phys_list G V)"
    "p1_mem r = (if cpu_buf \<noteq> 0 then write_mem m cpu_buf (cpu_section V) else m)"
    "p1_resmap r = fold (mark_page G base) V (replicate (len div PAGE_SIZE) 2)"
    by (simp_all add: cfg_def s0_def p1_init_def)
  show "pr_gpu (pass1 env gm d vss base len cpu_buf uu (p1_init (len div PAGE_SIZE) cap m)) = G"
    using g by (simp add: s0_def)
qed

text \<open>The residency map of a request, slot by slot.\<close>

lemma request_slots:
  assumes "request_ok vss base len cpu_buf"
  shows "distinct (map (page_slot base \<circ> snd) (request_visits d vss base len))"
    and "x \<in> set (request_visits d vss base len) \<Longrightarrow> page_slot base (snd x) < len div PAGE_SIZE"
proof -
  show "distinct (map (page_slot base \<circ> snd) (request_visits d vss base len))"
  proof (cases "find_va_space vss base 0")
    case (Some iv)
    then obtain i vs where f: "find_va_space vss base 0 = Some (i, vs)" by (cases iv) auto
    then have "vs_wf vs" using assms find_va_space_mem by (auto simp: request_ok_def)
    from scan_slots_sorted [OF this, of base d "range_end base len"] assms f show ?thesis
      by (simp add: request_ok_def request_visits_def strict_sorted_iff)
  qed (simp add: request_visits_def)
  show "page_slot base (snd x) < len div PAGE_SIZE" if "x \<in> set (request_visits d vss base len)"
  proof (cases "find_va_space vss base 0")
    case (Some iv)
    then obtain i vs where f: "find_va_space vss base 0 = Some (i, vs)" by (cases iv) auto
    then have "vs_wf vs" using assms find_va_space_mem by (auto simp: request_ok_def)
    from scan_slots_bound [OF this, of base len x d] assms f that show ?thesis
      by (simp add: request_ok_def request_visits_def)
  qed (use that in \<open>simp add: request_visits_def\<close>)
qed

definition request_resmap :: "bool \<Rightarrow> va_space list \<Rightarrow> nat \<Rightarrow> nat \<Rightarrow> uuid \<Rightarrow> byte list" where
  "request_resmap d vss base len uu =
     fold (mark_page (request_gpu vss base uu) base) (request_visits d vss base len) (replicate (len div PAGE_SIZE) 2)"

lemma request_resmap_hit:
  assumes "request_ok vss base len cpu_buf" "x \<in> set (request_visits d vss base len)"
  shows "request_resmap d vss base len uu ! page_slot base (snd x) = visit_class (request_gpu vss base uu) x"
  unfolding request_resmap_def
  by (rule mark_fold_hit [OF request_slots(1) [OF assms(1)] assms(2)])
     (use request_slots(2) [OF assms(1)] in auto)

lemma request_resmap_absent:
  assumes "k < len div PAGE_SIZE" "k \<notin> page_slot base ` snd ` set (request_visits d vss base len)"
  shows "request_resmap d vss base len uu ! k = 2"
  unfolding request_resmap_def using assms mark_fold_other [of k base "request_visits d vss base len"]
  by (simp add: image_comp)

lemma length_request_resmap [simp]: "length (request_resmap d vss base len uu) = len div PAGE_SIZE"
  by (simp add: request_resmap_def)

lemma search_locks_run: "(\<And>k. \<not> lk_writer l k) \<Longrightarrow> lock_run (search_locks n @ ops) l = lock_run ops l"
proof (induction n arbitrary: ops)
  case (Suc n)
  have "lock_run (search_locks (Suc n) @ ops) l = lock_run (search_locks n @ (DownRead n # UpRead n # ops)) l"
    by (simp add: search_locks_def)
  also have "\<dots> = lock_run (DownRead n # UpRead n # ops) l"
    by (rule Suc.IH [OF Suc.prems])
  also have "\<dots> = lock_run ops l" by (rule lock_run_read_pair [OF Suc.prems])
  finally show ?case .
qed (simp add: search_locks_def)

lemma pass1_locks: "locks_balanced (pr_locks (pass1 env gm d vss base len cpu_buf uu s0))"
proof -
  have G: "\<not> lk_writer (no_locks\<lparr>lk_global := True\<rparr>) k" for k by simp
  have "locks_balanced (found_locks i)" for i
    using search_locks_run [OF G, of i "[DownRead i, UpRead i, GUnlock]"]
    by (simp add: locks_balanced_def found_locks_def) (simp add: no_locks_def fun_upd_idem)
  moreover have "locks_balanced (missing_locks vss)"
    using search_locks_run [OF G, of "length vss" "[GUnlock]"]
    by (simp add: locks_balanced_def missing_locks_def)
  ultimately show ?thesis by (simp add: pass1_def Let_def split: option.splits prod.splits)
qed

section \<open>Properties\<close>

text \<open>
  C31: a successful pass 1 on a well-formed va space classifies every page of the request:
  the residency map holds each visited page's class in that page's own slot (inside the
  array) and "absent" elsewhere; CPU pages are packed at the front of the CPU buffer in
  address order and nothing else is written; the page list holds the GPU pages in address
  order at offsets 0, 4096, 8192, ...; and the two sections together are no longer than the
  request.
\<close>

theorem pass1_correct:
  assumes "request_ok vss base len cpu_buf"
    and "r = pr_p1 (lm_mt_pass1 env d vss base len cpu_buf uu (p1_init (len div PAGE_SIZE) cap m))"
    and "p1_status r = NV_OK"
    and "V = request_visits d vss base len" "G = request_gpu vss base uu"
  shows "length (p1_resmap r) = len div PAGE_SIZE \<and>
    (\<forall>x \<in> set V. page_slot base (snd x) < len div PAGE_SIZE \<and>
       p1_resmap r ! page_slot base (snd x) = visit_class G x) \<and>
    (\<forall>k < len div PAGE_SIZE. k \<notin> page_slot base ` snd ` set V \<longrightarrow> p1_resmap r ! k = 2) \<and>
    p1_mem r = (if cpu_buf \<noteq> 0 then write_mem m cpu_buf (concat (map visit_bytes (filter cpu_visit V))) else m) \<and>
    map gp_phys (p1_pages r) = map (visit_phys G) (filter (gpu_visit G) V) \<and>
    (\<forall>k < length (p1_pages r). gp_off (p1_pages r ! k) = k * PAGE_SIZE) \<and>
    p1_cpu_off r + p1_gpu_off r \<le> len"
proof -
  have r: "r = pr_p1 (pass1 env False d vss base len cpu_buf uu (p1_init (len div PAGE_SIZE) cap m))"
    using assms(2) by (simp add: lm_mt_pass1_def)
  note f = pass1_facts [OF assms(3) [unfolded r] assms(1), folded r]
  have rm: "p1_resmap r = request_resmap d vss base len uu"
    by (simp add: f(5) request_resmap_def)
  have pl: "map gp_phys (gpu_list off ps) = ps" for off ps
    by (induction ps arbitrary: off) auto
  show ?thesis
    using request_resmap_hit [OF assms(1)] request_slots(2) [OF assms(1)] request_resmap_absent
      request_parts_bound [OF assms(1), of d G]
    unfolding assms(4,5) rm f(1-4)
    by (auto simp: pl gpu_phys_list_def cpu_section_def nth_gpu_list)
qed

lemma sample_vs_wf: "vs_wf sample_vs"
  by (simp add: vs_wf_def sample_managed) (simp add: sample_block_def)

lemma sample_find: "find_va_space [sample_vs] 2097152 0 = Some (0, sample_vs)"
  by (simp add: uvm_va_range_find_def sample_vs_def sample_range_def)

lemma sample_request: "request_ok [sample_vs] 2097152 4096 8192"
  by (simp add: request_ok_def sample_vs_wf)

lemma sample_visits: "request_visits False [sample_vs] 2097152 4096 = [(sample_block, 2097152)]"
  by (simp add: request_visits_def sample_find del: find_va_space.simps)
     (simp add: scan_list_def blocks_in_def va_ranges_in_def sample_vs_def sample_range_def
        is_managed_def range_end_def u64_def block_pages_def sample_block_def)

lemma sample_env_mem: "env_mem_ok sample_env"
  by (simp add: env_mem_ok_def sample_env_def)

lemma pass1_status_ok:
  assumes "env_mem_ok env" "find_va_space vss base 0 = Some (i, vs)" "p1_status s0 = NV_OK"
  shows "p1_status (pr_p1 (pass1 env gm d vss base len cpu_buf uu s0)) = NV_OK"
  using scan_fold_ok [OF assms(1,3)] assms(2) by (simp add: pass1_def Let_def)

theorem pass1_correct_witness:
  "p1_resmap (pr_p1 (lm_mt_pass1 sample_env False [sample_vs] 2097152 4096 8192 zero_uuid (p1_init 1 1 (\<lambda>_. 0)))) ! 0 = 1"
proof -
  let ?r = "pr_p1 (lm_mt_pass1 sample_env False [sample_vs] 2097152 4096 8192 zero_uuid (p1_init (4096 div PAGE_SIZE) 1 (\<lambda>_. 0)))"
  have "p1_status ?r = NV_OK"
    unfolding lm_mt_pass1_def by (rule pass1_status_ok [OF sample_env_mem sample_find]) (simp add: p1_init_def)
  from pass1_correct [OF sample_request refl this refl refl]
  have "\<forall>x \<in> set (request_visits False [sample_vs] 2097152 4096).
      p1_resmap ?r ! page_slot 2097152 (snd x) = visit_class (request_gpu [sample_vs] 2097152 zero_uuid) x"
    by blast
  then have "p1_resmap ?r ! page_slot 2097152 2097152 = visit_class (request_gpu [sample_vs] 2097152 zero_uuid) (sample_block, 2097152)"
    unfolding sample_visits by simp
  then show ?thesis
    by (simp add: page_slot_def visit_class_def cpu_visit_def gpu_visit_def is_cpu_page_def is_gpu_page_def request_gpu_def
          sample_find resolve_gpu_def page_index_def del: find_va_space.simps) (simp add: sample_vs_def sample_block_def)
qed

text \<open>
  a dirty-only pass 1 visits only pages of blocks that are tracked and dirty, and all
  the pages of the request in such blocks.
\<close>

theorem pass1_dirty_only:
  assumes "find_va_space vss base 0 = Some (i, vs)"
  shows "set (request_visits True vss base len) =
    {(vb, va). vb \<in> set (blocks_in vs base (range_end base len)) \<and> vb_tracking vb \<and> vb_dirty vb \<and>
       va \<in> set (block_pages base (range_end base len) vb)}"
  using assms by (auto simp: request_visits_def scan_list_def is_dirty_block_def)

theorem pass1_dirty_only_witness: "set (request_visits True [sample_vs] 2097152 4096) = {}"
  using pass1_dirty_only [OF sample_find, of 4096]
  by (auto simp: blocks_in_def va_ranges_in_def sample_vs_def sample_range_def sample_block_def split: if_splits)

end
