(* ===== verification/Run_List.thy ===== *)
theory Run_List
  imports Residency_Scan
begin

text \<open>
  Coalescing of GPU pages into transfers (\<open>lm_mt_build_runs\<close> and its copies in ioctls 109,
  111 and 113): consecutive entries of the page list with consecutive physical addresses,
  one aperture and consecutive buffer offsets form a run of at most \<open>max_xfer\<close> bytes.
\<close>

abbreviation UVM_CONF_COMPUTING_DMA_BUFFER_SIZE :: nat where
  "UVM_CONF_COMPUTING_DMA_BUFFER_SIZE \<equiv> 2097152"

section \<open>The loops\<close>

text \<open>The inner loop's condition on pages \<open>i\<close> and \<open>i + 1\<close> of the run that starts at \<open>rs\<close>.\<close>

definition run_joins :: "gpu_page list \<Rightarrow> nat \<Rightarrow> nat \<Rightarrow> bool" where
  "run_joins pages rs i \<longleftrightarrow>
     pa_address (gp_phys (pages ! (i + 1))) = u64 (pa_address (gp_phys (pages ! i)) + PAGE_SIZE) \<and>
     pa_aperture (gp_phys (pages ! (i + 1))) = pa_aperture (gp_phys (pages ! rs)) \<and>
     gp_off (pages ! (i + 1)) = u64 (gp_off (pages ! i) + PAGE_SIZE)"

function extend_run :: "gpu_page list \<Rightarrow> nat \<Rightarrow> nat \<Rightarrow> nat \<Rightarrow> nat \<Rightarrow> nat \<times> nat" where
  "extend_run pages mx rs i rb =
     (if i + 1 < length pages \<and> run_joins pages rs i \<and> rb + PAGE_SIZE \<le> mx
      then extend_run pages mx rs (i + 1) (rb + PAGE_SIZE) else (i, rb))"
  by pat_completeness auto
termination by (relation "measure (\<lambda>(pages, mx, rs, i, rb). length pages - i)") auto

declare extend_run.simps [simp del]

lemma extend_run_ge: "i \<le> fst (extend_run pages mx rs i rb)"
proof (induction pages mx rs i rb rule: extend_run.induct)
  case (1 pages mx rs i rb)
  then show ?case by (subst extend_run.simps) auto
qed

text \<open>
  The outer loop. The run arrays start at 256 entries and double; a failed allocation frees
  everything and ends with \<open>NV_ERR_NO_MEMORY\<close>.
\<close>

function build_runs_loop ::
  "uvm_env \<Rightarrow> gpu_page list \<Rightarrow> nat \<Rightarrow> nat \<Rightarrow> nat \<Rightarrow> (nat \<times> nat) list \<Rightarrow> nv_status + (nat \<times> nat) list" where
  "build_runs_loop env pages mx i rc acc =
     (if i < length pages then
        let (i', rb) = extend_run pages mx i i PAGE_SIZE;
            nc = (if rc \<noteq> 0 then rc * 2 else 256)
        in if rc \<le> length acc \<and> \<not> (env_alloc env A_run_starts nc \<and> env_alloc env A_run_bytes nc)
           then Inl NV_ERR_NO_MEMORY
           else build_runs_loop env pages mx (i' + 1) (if rc \<le> length acc then nc else rc) (acc @ [(i, rb)])
      else Inr acc)"
  by pat_completeness auto
termination
proof (relation "measure (\<lambda>(env, pages, mx, i, rc, acc). length pages - i)")
  fix env :: uvm_env and pages :: "gpu_page list" and mx i rc :: nat and acc :: "(nat \<times> nat) list" and x xa y nc
  assume "i < length pages" "x = extend_run pages mx i i PAGE_SIZE" "(xa, y) = x"
  then show "((env, pages, mx, xa + 1, if rc \<le> length acc then nc else rc, acc @ [(i, y)]), env, pages, mx, i, rc, acc)
      \<in> measure (\<lambda>(env, pages, mx, i, rc, acc). length pages - i)"
    using extend_run_ge [of i pages mx i PAGE_SIZE] by (metis (no_types, lifting) case_prod_conv diff_less_mono2 fst_conv
        in_measure le_imp_less_Suc Suc_eq_plus1 order_less_le_trans)
qed simp

declare build_runs_loop.simps [simp del]

lemma build_runs_loop_step:
  assumes "i < length pages" "extend_run pages mx i i PAGE_SIZE = (i', rb)" "nc = (if rc \<noteq> 0 then rc * 2 else 256)"
  shows "build_runs_loop env pages mx i rc acc =
    (if rc \<le> length acc \<and> \<not> (env_alloc env A_run_starts nc \<and> env_alloc env A_run_bytes nc) then Inl NV_ERR_NO_MEMORY
     else build_runs_loop env pages mx (i' + 1) (if rc \<le> length acc then nc else rc) (acc @ [(i, rb)]))"
  by (subst build_runs_loop.simps) (use assms in \<open>auto simp: Let_def\<close>)

definition lm_mt_build_runs :: "uvm_env \<Rightarrow> gpu_page list \<Rightarrow> nat \<Rightarrow> nv_status + (nat \<times> nat) list" where
  "lm_mt_build_runs env pages mx = build_runs_loop env pages mx 0 0 []"

section \<open>What the runs are\<close>

definition run_idx :: "nat \<times> nat \<Rightarrow> nat list" where
  "run_idx r = [fst r ..< fst r + snd r div PAGE_SIZE]"

text \<open>A run: a whole number of pages, at least one, at most \<open>mx\<close> bytes, contiguous throughout.\<close>

definition good_run :: "gpu_page list \<Rightarrow> nat \<Rightarrow> nat \<times> nat \<Rightarrow> bool" where
  "good_run pages mx r \<longleftrightarrow>
     snd r mod PAGE_SIZE = 0 \<and> 0 < snd r \<and> snd r \<le> max PAGE_SIZE mx \<and>
     fst r + snd r div PAGE_SIZE \<le> length pages \<and>
     (\<forall>k. k + 1 < snd r div PAGE_SIZE \<longrightarrow> run_joins pages (fst r) (fst r + k))"

text \<open>A run that could not have been longer: the next page does not join, or would not fit.\<close>

definition maximal_run :: "gpu_page list \<Rightarrow> nat \<Rightarrow> nat \<times> nat \<Rightarrow> bool" where
  "maximal_run pages mx r \<longleftrightarrow>
     fst r + snd r div PAGE_SIZE = length pages \<or>
     \<not> run_joins pages (fst r) (fst r + snd r div PAGE_SIZE - 1) \<or> mx < snd r + PAGE_SIZE"

lemma extend_run_good:
  assumes "extend_run pages mx rs i rb = (i', rb')" "rs \<le> i" "i < length pages"
    and "rb = (i - rs + 1) * PAGE_SIZE" "rb \<le> max PAGE_SIZE mx"
    and "\<And>k. k < i - rs \<Longrightarrow> run_joins pages rs (rs + k)"
  shows "good_run pages mx (rs, rb') \<and> maximal_run pages mx (rs, rb') \<and> i' + 1 = rs + rb' div PAGE_SIZE"
  using assms
proof (induction pages mx rs i rb rule: extend_run.induct)
  case (1 pages mx rs i rb)
  show ?case
  proof (cases "i + 1 < length pages \<and> run_joins pages rs i \<and> rb + PAGE_SIZE \<le> mx")
    case True
    have rec: "extend_run pages mx rs (i + 1) (rb + PAGE_SIZE) = (i', rb')"
      using "1.prems"(1) True by (subst (asm) extend_run.simps) simp
    show ?thesis
    proof (rule "1.IH" [OF True rec])
      show "run_joins pages rs (rs + k)" if "k < i + 1 - rs" for k
        using that "1.prems"(2,6) True by (cases "k = i - rs") auto
      show "rb + PAGE_SIZE = (i + 1 - rs + 1) * PAGE_SIZE"
        using "1.prems"(2,4) by (simp add: Suc_diff_le)
    qed (use True "1.prems"(2) in auto)
  next
    case False
    then have "extend_run pages mx rs i rb = (i, rb)"
      by (subst extend_run.simps) (simp only: if_False)
    then have "i' = i" "rb' = rb" using "1.prems"(1) by simp_all
    with False show ?thesis
      using "1.prems"(2-6) by (auto simp: good_run_def maximal_run_def)
  qed
qed

lemma run_idx_append: "[0..<i] @ run_idx (i, rb) = [0..<i + rb div PAGE_SIZE]"
  by (simp add: run_idx_def upt_add_eq_append [symmetric])

lemma build_runs_loop_good:
  assumes "build_runs_loop env pages mx i rc acc = Inr runs"
    and "concat (map run_idx acc) = [0..<i]" "i \<le> length pages"
    and "\<forall>r \<in> set acc. good_run pages mx r \<and> maximal_run pages mx r"
  shows "concat (map run_idx runs) = [0..<length pages] \<and>
    (\<forall>r \<in> set runs. good_run pages mx r \<and> maximal_run pages mx r)"
  using assms
proof (induction env pages mx i rc acc rule: build_runs_loop.induct)
  case (1 env pages mx i rc acc)
  show ?case
  proof (cases "i < length pages")
    case True
    obtain i' rb where e: "extend_run pages mx i i PAGE_SIZE = (i', rb)" by fastforce
    define nc where "nc = (if rc \<noteq> 0 then rc * 2 else 256)"
    note step = build_runs_loop_step [OF True e nc_def, where env = env and acc = acc]
    have al: "\<not> (rc \<le> length acc \<and> \<not> (env_alloc env A_run_starts nc \<and> env_alloc env A_run_bytes nc))"
      using "1.prems"(1) unfolding step by (auto split: if_splits)
    then have rec: "build_runs_loop env pages mx (i' + 1) (if rc \<le> length acc then nc else rc) (acc @ [(i, rb)]) = Inr runs"
      using "1.prems"(1) unfolding step by (simp only: if_False)
    have g: "good_run pages mx (i, rb) \<and> maximal_run pages mx (i, rb) \<and> i' + 1 = i + rb div PAGE_SIZE"
      by (rule extend_run_good [OF e]) (use True in auto)
    have le: "i' + 1 \<le> length pages" using g by (simp add: good_run_def)
    have idx: "concat (map run_idx (acc @ [(i, rb)])) = [0..<i' + 1]"
      using "1.prems"(2) run_idx_append [of i rb] g by simp
    show ?thesis
      by (rule "1.IH" [OF True refl e [symmetric] refl al [unfolded nc_def] rec [unfolded nc_def] idx le])
         (use "1.prems"(4) g in auto)
  next
    case False
    then have "runs = acc"
      using "1.prems"(1) by (subst (asm) build_runs_loop.simps) simp
    with False "1.prems" show ?thesis by auto
  qed
qed

text \<open>The only failure is memory, and with memory the loop always delivers.\<close>

lemma build_runs_loop_total:
  "build_runs_loop env pages mx i rc acc = Inl st \<Longrightarrow> st = NV_ERR_NO_MEMORY \<and> \<not> env_mem_ok env"
proof (induction env pages mx i rc acc rule: build_runs_loop.induct)
  case (1 env pages mx i rc acc)
  obtain i' rb where e: "extend_run pages mx i i PAGE_SIZE = (i', rb)" by fastforce
  show ?case
  proof (cases "i < length pages")
    case True
    show ?thesis
      using "1.prems" "1.IH" [OF True refl e [symmetric] refl]
      unfolding build_runs_loop_step [OF True e refl, where env = env and acc = acc]
      by (auto simp: env_mem_ok_def split: if_splits)
  next
    case False
    then show ?thesis using "1.prems" by (subst (asm) build_runs_loop.simps) simp
  qed
qed

lemma build_runs_good:
  assumes "lm_mt_build_runs env pages mx = Inr runs"
  shows "concat (map run_idx runs) = [0..<length pages]"
    and "r \<in> set runs \<Longrightarrow> good_run pages mx r" "r \<in> set runs \<Longrightarrow> maximal_run pages mx r"
  using build_runs_loop_good [OF assms [unfolded lm_mt_build_runs_def]] by auto

section \<open>Contents of a run\<close>

text \<open>GPU memory at a physical address.\<close>

definition gpu_bytes :: "uvm_env \<Rightarrow> phys_addr \<Rightarrow> nat \<Rightarrow> byte list" where
  "gpu_bytes env ph n = map (\<lambda>k. env_vidmem env (pa_aperture ph) (pa_address ph + k)) [0..<n]"

definition page_bytes :: "uvm_env \<Rightarrow> gpu_page \<Rightarrow> byte list" where
  "page_bytes env p = gpu_bytes env (gp_phys p) PAGE_SIZE"

text \<open>Physical pages lie inside the 64-bit address space.\<close>

definition phys_ok :: "gpu_page list \<Rightarrow> bool" where
  "phys_ok pages \<longleftrightarrow> (\<forall>p \<in> set pages. pa_address (gp_phys p) + PAGE_SIZE < 2 ^ 64)"

lemma length_gpu_bytes [simp, layout_simps]: "length (gpu_bytes env ph n) = n"
  by (simp add: gpu_bytes_def)

lemma length_page_bytes [simp, layout_simps]: "length (page_bytes env p) = PAGE_SIZE"
  by (simp add: page_bytes_def)

lemma gpu_bytes_append:
  "gpu_bytes env ph (a + b) = gpu_bytes env ph a @ gpu_bytes env (ph\<lparr>pa_address := pa_address ph + a\<rparr>) b"
  by (rule nth_equalityI) (auto simp: gpu_bytes_def nth_append)

lemma good_run_phys:
  assumes "good_run pages mx r" "phys_ok pages" "k < snd r div PAGE_SIZE"
  shows "gp_phys (pages ! (fst r + k)) =
    (gp_phys (pages ! fst r))\<lparr>pa_address := pa_address (gp_phys (pages ! fst r)) + k * PAGE_SIZE\<rparr>"
  using assms(3)
proof (induction k)
  case (Suc k)
  have j: "run_joins pages (fst r) (fst r + k)"
    using assms(1) Suc.prems by (auto simp: good_run_def)
  have "pages ! (fst r + k) \<in> set pages"
    using assms(1) Suc.prems by (auto simp: good_run_def)
  then have "pa_address (gp_phys (pages ! (fst r + k))) + PAGE_SIZE < 2 ^ 64"
    using assms(2) by (simp add: phys_ok_def)
  then have "pa_address (gp_phys (pages ! (fst r + Suc k))) = pa_address (gp_phys (pages ! (fst r + k))) + PAGE_SIZE"
    using j by (simp add: run_joins_def u64_small)
  moreover have "pa_aperture (gp_phys (pages ! (fst r + Suc k))) = pa_aperture (gp_phys (pages ! fst r))"
    using j by (simp add: run_joins_def)
  ultimately show ?case
    using Suc.IH Suc.prems by (intro phys_addr.equality) auto
qed simp

text \<open>One transfer of a run reads exactly its pages, one after the other.\<close>

lemma run_contents:
  assumes "good_run pages mx r" "phys_ok pages"
  shows "gpu_bytes env (gp_phys (pages ! fst r)) (snd r) = concat (map (\<lambda>k. page_bytes env (pages ! k)) (run_idx r))"
proof -
  have "gpu_bytes env (gp_phys (pages ! fst r)) (n * PAGE_SIZE) =
      concat (map (\<lambda>k. page_bytes env (pages ! k)) [fst r..<fst r + n])" if "n \<le> snd r div PAGE_SIZE" for n
    using that
  proof (induction n)
    case 0
    then show ?case by (simp add: gpu_bytes_def)
  next
    case (Suc n)
    have eq: "Suc n * PAGE_SIZE = n * PAGE_SIZE + PAGE_SIZE" by simp
    have "page_bytes env (pages ! (fst r + n)) =
        gpu_bytes env ((gp_phys (pages ! fst r))\<lparr>pa_address := pa_address (gp_phys (pages ! fst r)) + n * PAGE_SIZE\<rparr>) PAGE_SIZE"
      using good_run_phys [OF assms, of n] Suc.prems by (simp add: page_bytes_def)
    then show ?case
      unfolding eq gpu_bytes_append using Suc by simp
  qed
  from this [of "snd r div PAGE_SIZE"] show ?thesis
    using assms(1) by (simp add: good_run_def run_idx_def mod_eq_0_iff_dvd)
qed

section \<open>Properties\<close>

text \<open>
  C30: the run list covers the page list exactly: the runs' page ranges, in order, are
  0, 1, ..., n - 1 with no gap and no overlap. Each run is a positive whole number of
  pages of at most the transfer size (or one page), its pages are contiguous in physical
  memory and in the output buffer and share an aperture, and it is maximal: it ends at the
  end of the list, at a discontinuity, or because one more page would not fit.
\<close>

theorem build_runs_partition:
  assumes "lm_mt_build_runs env pages mx = Inr runs"
  shows "concat (map run_idx runs) = [0..<length pages] \<and>
    (\<forall>r \<in> set runs. 0 < snd r \<and> snd r mod PAGE_SIZE = 0 \<and> snd r \<le> max PAGE_SIZE mx \<and>
       (\<forall>k. k + 1 < snd r div PAGE_SIZE \<longrightarrow> run_joins pages (fst r) (fst r + k)) \<and> maximal_run pages mx r)"
  using build_runs_good [OF assms] by (auto simp: good_run_def)

definition sample_pages :: "gpu_page list" where
  "sample_pages = [\<lparr>gp_phys = \<lparr>pa_aperture = 1, pa_address = 65536\<rparr>, gp_off = 0\<rparr>,
     \<lparr>gp_phys = \<lparr>pa_aperture = 1, pa_address = 69632\<rparr>, gp_off = 4096\<rparr>,
     \<lparr>gp_phys = \<lparr>pa_aperture = 1, pa_address = 81920\<rparr>, gp_off = 8192\<rparr>]"

lemma sample_runs: "lm_mt_build_runs sample_env sample_pages 2097152 = Inr [(0, 8192), (2, 4096)]"
  by (simp add: lm_mt_build_runs_def build_runs_loop.simps extend_run.simps sample_pages_def run_joins_def u64_def
        sample_env_def)

theorem build_runs_partition_witness: "concat (map run_idx [(0, 8192), (2, 4096)]) = [0..<length sample_pages]"
  using build_runs_partition [OF sample_runs] by simp

text \<open>
  coalescing fails only when its arrays cannot be allocated, and then with
  \<open>NV_ERR_NO_MEMORY\<close>; with memory it returns a run list for every page list.
\<close>

theorem build_runs_total:
  "(\<forall>st. lm_mt_build_runs env pages mx = Inl st \<longrightarrow> st = NV_ERR_NO_MEMORY) \<and>
   (env_mem_ok env \<longrightarrow> (\<exists>runs. lm_mt_build_runs env pages mx = Inr runs))"
  using build_runs_loop_total [of env pages mx 0 0 "[]"]
  by (cases "lm_mt_build_runs env pages mx") (auto simp: lm_mt_build_runs_def)

theorem build_runs_total_witness: "\<exists>runs. lm_mt_build_runs sample_env sample_pages 2097152 = Inr runs"
  using build_runs_total [of sample_env sample_pages 2097152] sample_env_mem by blast

end
