(* ===== verification/Copy_Pipeline.thy ===== *)
theory Copy_Pipeline
  imports Run_List
begin

text \<open>
  Pass 2 of the read ioctls: the double-buffered loop that submits copy-engine encryptions
  on two DMA buffers in turn and hands each finished buffer to user space
  (\<open>lm_mt_worker_fn\<close>, and the single-threaded copies in ioctls 109, 111 and 113), and the
  splitting of the run list over worker threads (\<open>lm_mt_run_workers\<close>).
  What a thread does is a list of actions; memory changes by the actions of all threads in
  the order the scheduler picks. Transfers are numbered by their index in the run list,
  which is also their index in the metadata array.
\<close>

section \<open>One transfer\<close>

record copy_cfg =
  cc_pages :: "gpu_page list"
  cc_runs :: "(nat \<times> nat) list"
  cc_buf :: nat               \<comment> \<open>\<open>user_gpu_buf\<close>\<close>
  cc_cipher :: bool           \<comment> \<open>\<open>is_ciphertext\<close>\<close>

text \<open>\<open>uvm_conf_computing_log_gpu_encryption\<close>: the IV of a transfer.\<close>

definition log_gpu_encryption :: "uvm_env \<Rightarrow> nat \<Rightarrow> csl_iv" where
  "log_gpu_encryption env j = env_iv env j"

definition cpu_decrypt :: "uvm_env \<Rightarrow> nat \<Rightarrow> csl_iv \<Rightarrow> byte list \<Rightarrow> byte list \<Rightarrow> nv_status \<times> byte list" where
  "cpu_decrypt env kv iv c t = env_csl_decrypt env kv iv c t"

definition run_plain :: "uvm_env \<Rightarrow> copy_cfg \<Rightarrow> nat \<Rightarrow> byte list" where
  "run_plain env cfg j =
     gpu_bytes env (gp_phys (cc_pages cfg ! fst (cc_runs cfg ! j))) (snd (cc_runs cfg ! j))"

text \<open>What the copy engine leaves in the DMA buffer: ciphertext and authentication tag.\<close>

definition ce_transfer :: "uvm_env \<Rightarrow> copy_cfg \<Rightarrow> nat \<Rightarrow> byte list \<times> byte list" where
  "ce_transfer env cfg j =
     env_ce_encrypt env (env_key_version env j) (log_gpu_encryption env j) (run_plain env cfg j)"

definition transfer_meta :: "uvm_env \<Rightarrow> copy_cfg \<Rightarrow> nat \<Rightarrow> crypto_meta" where
  "transfer_meta env cfg j =
     \<lparr>cm_size = snd (cc_runs cfg ! j), cm_iv = iv_bytes (log_gpu_encryption env j),
      cm_iv_fresh = iv_fresh (log_gpu_encryption env j), cm_auth_tag = snd (ce_transfer env cfg j),
      cm_key_version = env_key_version env j\<rparr>"

definition run_addr :: "copy_cfg \<Rightarrow> nat \<Rightarrow> nat" where
  "run_addr cfg j = u64 (cc_buf cfg + gp_off (cc_pages cfg ! fst (cc_runs cfg ! j)))"

definition copy_out :: "uvm_env \<Rightarrow> copy_cfg \<Rightarrow> nat \<Rightarrow> byte list \<Rightarrow> nv_status \<times> action list" where
  "copy_out env cfg j bs =
     (if cc_buf cfg = 0 then (NV_OK, [])
      else if env_copy env (run_addr cfg j) (snd (cc_runs cfg ! j)) then (NV_OK, [CopyOut (run_addr cfg j) bs])
      else (NV_ERR_INVALID_ARGUMENT, []))"

text \<open>Consuming a finished transfer: metadata and ciphertext, or decryption and plaintext.\<close>

definition process_transfer :: "uvm_env \<Rightarrow> copy_cfg \<Rightarrow> nat \<Rightarrow> nv_status \<times> action list" where
  "process_transfer env cfg j =
     (case ce_transfer env cfg j of
        (cipher, atag) \<Rightarrow>
          if cc_cipher cfg then
            (case copy_out env cfg j cipher of
               (st, as) \<Rightarrow> (st, SetMeta j (transfer_meta env cfg j) # as))
          else
            (case cpu_decrypt env (env_key_version env j) (log_gpu_encryption env j) cipher atag of
               (st, plain) \<Rightarrow> if st \<noteq> NV_OK then (st, []) else copy_out env cfg j plain))"

section \<open>The ping-pong loop\<close>

record pp =
  pp_status :: nv_status
  pp_act :: "nat \<Rightarrow> nat option"     \<comment> \<open>per slot: the transfer in flight (\<open>act\<close>, \<open>s_ti\<close>)\<close>
  pp_acts :: "action list"
  pp_nt :: nat

definition pp_init :: pp where
  "pp_init = \<lparr>pp_status = NV_OK, pp_act = (\<lambda>_. None), pp_acts = [], pp_nt = 0\<rparr>"

definition pp_emit :: "action list \<Rightarrow> pp \<Rightarrow> pp" where
  "pp_emit as p = p\<lparr>pp_acts := pp_acts p @ as\<rparr>"

text \<open>Wait for the slot's previous transfer and consume it; a failure leaves the slot active.\<close>

definition pp_consume :: "uvm_env \<Rightarrow> (nat \<Rightarrow> nv_status \<times> action list) \<Rightarrow> nat \<Rightarrow> pp \<Rightarrow> pp" where
  "pp_consume env prc c p =
     (case pp_act p c of
        None \<Rightarrow> p
      | Some j \<Rightarrow>
          let p1 = pp_emit [Waited j] p
          in if env_push_wait env j \<noteq> NV_OK then p1\<lparr>pp_status := env_push_wait env j\<rparr>
             else case prc j of
               (st, as) \<Rightarrow> if st \<noteq> NV_OK then (pp_emit as p1)\<lparr>pp_status := st\<rparr>
                          else (pp_emit as p1)\<lparr>pp_act := (pp_act p)(c := None)\<rparr>)"

definition pp_submit :: "uvm_env \<Rightarrow> nat \<Rightarrow> nat \<Rightarrow> pp \<Rightarrow> pp" where
  "pp_submit env c j p =
     (if env_push_begin env j \<noteq> NV_OK then p\<lparr>pp_status := env_push_begin env j\<rparr>
      else (pp_emit [Submitted j] p)\<lparr>pp_act := (pp_act p)(c := Some j), pp_nt := pp_nt p + 1\<rparr>)"

definition pp_iter :: "uvm_env \<Rightarrow> (nat \<Rightarrow> nv_status \<times> action list) \<Rightarrow> nat \<Rightarrow> nat \<Rightarrow> pp \<Rightarrow> pp" where
  "pp_iter env prc start i p =
     (let p1 = pp_consume env prc (i mod 2) p
      in if pp_status p1 \<noteq> NV_OK then p1 else pp_submit env (i mod 2) (start + i) p1)"

fun pp_loop :: "uvm_env \<Rightarrow> (nat \<Rightarrow> nv_status \<times> action list) \<Rightarrow> nat \<Rightarrow> nat list \<Rightarrow> pp \<Rightarrow> pp" where
  "pp_loop env prc start [] p = p"
| "pp_loop env prc start (i # is) p =
     (let p' = pp_iter env prc start i p
      in if pp_status p' \<noteq> NV_OK then p' else pp_loop env prc start is p')"

text \<open>The drain: wait for whatever is in flight, and consume it only while nothing has failed.\<close>

definition pp_drain :: "uvm_env \<Rightarrow> (nat \<Rightarrow> nv_status \<times> action list) \<Rightarrow> nat \<Rightarrow> pp \<Rightarrow> pp" where
  "pp_drain env prc c p =
     (case pp_act p c of
        None \<Rightarrow> p
      | Some j \<Rightarrow>
          let p1 = (pp_emit [Waited j] p)\<lparr>pp_act := (pp_act p)(c := None)\<rparr>;
              st = (if pp_status p = NV_OK then env_push_wait env j else pp_status p)
          in if st \<noteq> NV_OK then p1\<lparr>pp_status := st\<rparr>
             else case prc j of (st', as) \<Rightarrow> (pp_emit as p1)\<lparr>pp_status := st'\<rparr>)"

definition ping_pong :: "uvm_env \<Rightarrow> (nat \<Rightarrow> nv_status \<times> action list) \<Rightarrow> nat \<Rightarrow> nat \<Rightarrow> pp" where
  "ping_pong env prc start cnt =
     pp_drain env prc 1 (pp_drain env prc 0 (pp_loop env prc start [0..<cnt] pp_init))"

section \<open>Workers\<close>

record worker_result =
  wr_status :: nv_status
  wr_nt :: nat
  wr_acts :: "action list"

definition failed_worker :: "nv_status \<Rightarrow> worker_result" where
  "failed_worker st = \<lparr>wr_status = st, wr_nt = 0, wr_acts = []\<rparr>"

definition lm_mt_worker_fn :: "uvm_env \<Rightarrow> copy_cfg \<Rightarrow> nat \<Rightarrow> nat \<times> nat \<Rightarrow> worker_result" where
  "lm_mt_worker_fn env cfg t sl =
     (if \<not> cc_cipher cfg \<and> \<not> env_alloc env A_plain_buf UVM_CONF_COMPUTING_DMA_BUFFER_SIZE
      then failed_worker NV_ERR_NO_MEMORY
      else if env_dma_alloc env t 0 \<noteq> NV_OK then failed_worker (env_dma_alloc env t 0)
      else if env_dma_alloc env t 1 \<noteq> NV_OK then failed_worker (env_dma_alloc env t 1)
      else let p = ping_pong env (process_transfer env cfg) (fst sl) (snd sl)
           in \<lparr>wr_status = pp_status p, wr_nt = (if cc_cipher cfg then pp_nt p else 0), wr_acts = pp_acts p\<rparr>)"

text \<open>A thread that cannot be created counts as a worker that failed.\<close>

definition run_thread :: "uvm_env \<Rightarrow> copy_cfg \<Rightarrow> nat \<Rightarrow> nat \<times> nat \<Rightarrow> worker_result" where
  "run_thread env cfg t sl =
     (if env_kthread env t then lm_mt_worker_fn env cfg t sl else failed_worker NV_ERR_NO_MEMORY)"

definition first_error :: "nv_status list \<Rightarrow> nv_status" where
  "first_error sts = (case filter (\<lambda>s. s \<noteq> NV_OK) sts of [] \<Rightarrow> NV_OK | s # _ \<Rightarrow> s)"

definition norm_threads :: "nat \<Rightarrow> nat \<Rightarrow> nat" where
  "norm_threads req nr =
     (let n = (if req = 0 \<or> req > 16 then 4 else req) in if n > nr then max 1 nr else n)"

text \<open>User memory and the metadata array, and what an action does to them.\<close>

record store =
  st_mem :: mem
  st_meta :: "nat \<Rightarrow> crypto_meta option"

fun run_action :: "action \<Rightarrow> store \<Rightarrow> store" where
  "run_action (Submitted j) s = s"
| "run_action (Waited j) s = s"
| "run_action (CopyOut a bs) s = s\<lparr>st_mem := write_mem (st_mem s) a bs\<rparr>"
| "run_action (SetMeta i m) s = s\<lparr>st_meta := (st_meta s)(i \<mapsto> m)\<rparr>"

definition lm_mt_run_workers ::
  "uvm_env \<Rightarrow> copy_cfg \<Rightarrow> nat \<Rightarrow> store \<Rightarrow> nv_status \<times> nat \<times> store" where
  "lm_mt_run_workers env cfg req s =
     (let nr = length (cc_runs cfg); t = norm_threads req nr
      in if \<not> env_task_mm env then (NV_ERR_INVALID_OPERATION, 0, s)
         else if \<not> env_alloc env A_workers t then (NV_ERR_NO_MEMORY, 0, s)
         else let rs = map (\<lambda>(i, sl). run_thread env cfg i sl) (enumerate 0 (split_work nr t));
                  s' = fold run_action (env_sched env (map wr_acts rs)) s
              in (first_error (map wr_status rs),
                  if cc_cipher cfg then sum_list (map wr_nt rs) else nr, s'))"

section \<open>Every submitted push is waited for\<close>

text \<open>Pushes submitted and not yet waited for, along an action list.\<close>

fun pend :: "action \<Rightarrow> nat set \<Rightarrow> nat set" where
  "pend (Submitted j) S = insert j S"
| "pend (Waited j) S = S - {j}"
| "pend (CopyOut a bs) S = S"
| "pend (SetMeta i m) S = S"

definition pending :: "action list \<Rightarrow> nat set" where
  "pending as = fold pend as {}"

fun is_data :: "action \<Rightarrow> bool" where
  "is_data (CopyOut a bs) = True"
| "is_data (SetMeta i m) = True"
| "is_data _ = False"

lemma pend_data: "\<forall>a \<in> set as. is_data a \<Longrightarrow> fold pend as S = S"
proof (induction as)
  case (Cons a as)
  then show ?case by (cases a) auto
qed simp

lemma pending_append: "pending (as @ bs) = fold pend bs (pending as)"
  by (simp add: pending_def)

text \<open>What consumers emit is data.\<close>

definition data_only :: "(nat \<Rightarrow> nv_status \<times> action list) \<Rightarrow> bool" where
  "data_only prc \<longleftrightarrow> (\<forall>j. \<forall>a \<in> set (snd (prc j)). is_data a)"

lemma process_transfer_data: "data_only (process_transfer env cfg)"
  unfolding data_only_def process_transfer_def copy_out_def by (auto split: prod.splits if_splits)

text \<open>Whatever is pending is in one of the two slots.\<close>

definition slots_cover :: "pp \<Rightarrow> bool" where
  "slots_cover p \<longleftrightarrow> (\<forall>j \<in> pending (pp_acts p). pp_act p 0 = Some j \<or> pp_act p 1 = Some j)"

lemma pp_consume_cover:
  assumes "data_only prc" "slots_cover p" "c < 2"
  shows "slots_cover (pp_consume env prc c p)"
proof (cases "pp_act p c")
  case (Some j)
  have d: "fold pend (snd (prc j)) S = S" for S
    using assms(1) by (intro pend_data) (simp add: data_only_def)
  have c: "c = 0 \<or> c = 1" using assms(3) by auto
  from Some assms(2) c d show ?thesis
    by (cases "prc j")
       (auto simp: pp_consume_def slots_cover_def pp_emit_def pending_append Let_def)
qed (use assms in \<open>simp add: pp_consume_def\<close>)

lemma pp_consume_slot: "pp_status (pp_consume env prc c p) = NV_OK \<Longrightarrow> pp_act (pp_consume env prc c p) c = None"
  by (auto simp: pp_consume_def Let_def pp_emit_def split: option.splits prod.splits if_splits)

lemma pp_submit_cover:
  "slots_cover p \<Longrightarrow> pp_act p c = None \<Longrightarrow> c < 2 \<Longrightarrow> slots_cover (pp_submit env c j p)"
  by (auto simp: pp_submit_def slots_cover_def pp_emit_def pending_append less_2_cases_iff)

lemma pp_iter_cover: "data_only prc \<Longrightarrow> slots_cover p \<Longrightarrow> slots_cover (pp_iter env prc start i p)"
  by (simp add: pp_iter_def Let_def pp_consume_cover pp_submit_cover pp_consume_slot)

lemma pp_loop_cover: "data_only prc \<Longrightarrow> slots_cover p \<Longrightarrow> slots_cover (pp_loop env prc start is p)"
  by (induction "is" arbitrary: p) (auto simp: Let_def pp_iter_cover)

lemma pp_drain_cover:
  assumes "data_only prc" "slots_cover p" "c < 2"
  shows "slots_cover (pp_drain env prc c p)" and "pp_act (pp_drain env prc c p) c = None"
    and "pp_act p c' = None \<Longrightarrow> pp_act (pp_drain env prc c p) c' = None"
proof -
  have d: "fold pend (snd (prc j)) S = S" for j S
    using assms(1) by (intro pend_data) (simp add: data_only_def)
  have c: "c = 0 \<or> c = 1" using assms(3) by auto
  show "slots_cover (pp_drain env prc c p)"
  proof (cases "pp_act p c")
    case (Some j)
    from Some assms(2) c d [of j] show ?thesis
      by (cases "prc j")
         (auto simp: pp_drain_def slots_cover_def pp_emit_def pending_append Let_def)
  qed (use assms in \<open>simp add: pp_drain_def\<close>)
  show "pp_act (pp_drain env prc c p) c = None"
    and "pp_act p c' = None \<Longrightarrow> pp_act (pp_drain env prc c p) c' = None"
    by (auto simp: pp_drain_def Let_def pp_emit_def split: option.splits prod.splits)
qed

lemma ping_pong_nothing_pending:
  assumes "data_only prc"
  shows "pending (pp_acts (ping_pong env prc start cnt)) = {}"
proof -
  have s0: "slots_cover (pp_loop env prc start [0..<cnt] pp_init)"
    by (rule pp_loop_cover [OF assms]) (simp add: slots_cover_def pp_init_def pending_def)
  note s1 = pp_drain_cover [OF assms s0, where c = 0 and env = env]
  note s2 = pp_drain_cover [OF assms s1(1), where c = 1 and env = env]
  have "slots_cover (ping_pong env prc start cnt)" "pp_act (ping_pong env prc start cnt) 0 = None"
    "pp_act (ping_pong env prc start cnt) 1 = None"
    unfolding ping_pong_def using s1 s2 by auto
  then show ?thesis by (auto simp: slots_cover_def)
qed

section \<open>The pipeline delivers every transfer\<close>

definition xfer_ok :: "uvm_env \<Rightarrow> (nat \<Rightarrow> nv_status \<times> action list) \<Rightarrow> nat \<Rightarrow> bool" where
  "xfer_ok env prc j \<longleftrightarrow> env_push_begin env j = NV_OK \<and> env_push_wait env j = NV_OK \<and> fst (prc j) = NV_OK"

definition data_acts :: "action list \<Rightarrow> action list" where
  "data_acts as = filter is_data as"

lemma data_acts_simps [simp]:
  "data_acts [] = []" "data_acts (as @ bs) = data_acts as @ data_acts bs"
  "data_acts (Waited j # as) = data_acts as" "data_acts (Submitted j # as) = data_acts as"
  by (simp_all add: data_acts_def)

lemma data_acts_prc: "data_only prc \<Longrightarrow> data_acts (snd (prc j)) = snd (prc j)"
  by (simp add: data_acts_def data_only_def)

text \<open>The state after \<open>n\<close> iterations without failure: all but the last two transfers are consumed.\<close>

definition pp_after :: "uvm_env \<Rightarrow> (nat \<Rightarrow> nv_status \<times> action list) \<Rightarrow> nat \<Rightarrow> nat \<Rightarrow> pp \<Rightarrow> bool" where
  "pp_after env prc start n p \<longleftrightarrow>
     pp_status p = NV_OK \<and> pp_nt p = n \<and>
     data_acts (pp_acts p) = concat (map (\<lambda>j. snd (prc (start + j))) [0..<n - 2]) \<and>
     (\<forall>j < n - 2. xfer_ok env prc (start + j)) \<and> (\<forall>j < n. env_push_begin env (start + j) = NV_OK) \<and>
     pp_act p (n mod 2) = (if 2 \<le> n then Some (start + (n - 2)) else None) \<and>
     pp_act p ((n + 1) mod 2) = (if 1 \<le> n then Some (start + (n - 1)) else None)"

lemma pp_after_step:
  assumes "data_only prc" "pp_after env prc start n p" "pp_status (pp_iter env prc start n p) = NV_OK"
  shows "pp_after env prc start (Suc n) (pp_iter env prc start n p)"
proof -
  let ?c = "n mod 2"
  have par: "Suc n mod 2 \<noteq> n mod 2" "(Suc n + 1) mod 2 = n mod 2" by presburger+
  show ?thesis
  proof (cases "2 \<le> n")
    case False
    then have a: "pp_act p ?c = None" using assms(2) by (simp add: pp_after_def)
    then have it: "pp_iter env prc start n p = pp_submit env ?c (start + n) p"
      using assms(2) by (simp add: pp_iter_def pp_consume_def pp_after_def)
    have b: "env_push_begin env (start + n) = NV_OK"
      using assms(2,3) unfolding it by (auto simp: pp_submit_def split: if_splits)
    have "n - 2 = 0" "Suc n - 2 = 0" using False by auto
    with assms(2) False b par show ?thesis
      unfolding it by (auto simp: pp_after_def pp_submit_def pp_emit_def less_Suc_eq)
  next
    case True
    define j where "j = start + (n - 2)"
    have a: "pp_act p ?c = Some j" using assms(2) True by (simp add: pp_after_def j_def)
    define p1 where "p1 = pp_consume env prc ?c p"
    have st1: "pp_status p1 = NV_OK"
      using assms(3) by (auto simp: pp_iter_def p1_def [symmetric] Let_def split: if_splits)
    then have w: "env_push_wait env j = NV_OK" "fst (prc j) = NV_OK"
      using a unfolding p1_def by (auto simp: pp_consume_def Let_def split: if_splits prod.splits)
    then have p1: "p1 = (pp_emit (snd (prc j)) (pp_emit [Waited j] p))\<lparr>pp_act := (pp_act p)(?c := None)\<rparr>"
      using a unfolding p1_def by (cases "prc j") (simp add: pp_consume_def Let_def)
    have it: "pp_iter env prc start n p = pp_submit env ?c (start + n) p1"
      using st1 by (simp add: pp_iter_def p1_def [symmetric] Let_def)
    have b: "env_push_begin env (start + n) = NV_OK"
      using st1 assms(3) unfolding it by (auto simp: pp_submit_def split: if_splits)
    have bj: "env_push_begin env j = NV_OK"
    proof -
      have "n - 2 < n" using True by simp
      then show ?thesis using assms(2) unfolding pp_after_def j_def by blast
    qed
    have n2: "Suc n - 2 = Suc (n - 2)" using True by simp
    have d: "data_acts (pp_acts p1) = concat (map (\<lambda>j. snd (prc (start + j))) [0..<Suc n - 2])"
      using assms(2) unfolding n2 p1
      by (simp add: pp_emit_def data_acts_prc [OF assms(1)] pp_after_def j_def)
    have x: "\<forall>k < Suc n - 2. xfer_ok env prc (start + k)"
      using assms(2) w bj unfolding n2 by (auto simp: pp_after_def xfer_ok_def j_def less_Suc_eq)
    have act: "pp_act p (Suc n mod 2) = Some (start + (n - 1))" "pp_nt p = n" "\<forall>j < n. env_push_begin env (start + j) = NV_OK"
      using assms(2) True by (auto simp: pp_after_def)
    have "pp_act p1 (Suc n mod 2) = Some (start + (n - 1))" "pp_nt p1 = n"
      using act par(1) by (simp_all add: p1 pp_emit_def)
    with d x b act(3) st1 True par show ?thesis
      unfolding it by (auto simp: pp_after_def pp_submit_def pp_emit_def less_Suc_eq)
  qed
qed

lemma pp_loop_snoc:
  "pp_status p = NV_OK \<Longrightarrow> pp_loop env prc start (is @ [i]) p =
     (let p' = pp_loop env prc start is p in if pp_status p' \<noteq> NV_OK then p' else pp_iter env prc start i p')"
proof (induction "is" arbitrary: p)
  case (Cons a "is")
  then show ?case by (cases "pp_status (pp_iter env prc start a p) = NV_OK") (auto simp: Let_def)
qed (simp add: Let_def)

lemma pp_loop_after:
  assumes "data_only prc" "pp_status (pp_loop env prc start [0..<n] pp_init) = NV_OK"
  shows "pp_after env prc start n (pp_loop env prc start [0..<n] pp_init)"
  using assms(2)
proof (induction n)
  case 0
  then show ?case by (simp add: pp_after_def pp_init_def)
next
  case (Suc n)
  have i: "pp_status pp_init = NV_OK" by (simp add: pp_init_def)
  let ?p = "pp_loop env prc start [0..<n] pp_init"
  have e: "pp_loop env prc start [0..<Suc n] pp_init = (if pp_status ?p \<noteq> NV_OK then ?p else pp_iter env prc start n ?p)"
    using pp_loop_snoc [OF i, of env prc start "[0..<n]" n] by (simp add: Let_def)
  have ok: "pp_status ?p = NV_OK" using Suc.prems unfolding e by (auto split: if_splits)
  from pp_after_step [OF assms(1) Suc.IH [OF ok]] Suc.prems ok show ?case unfolding e by simp
qed

text \<open>
  Draining the slots of a state after \<open>n\<close> good iterations. The slots hold the last two
  transfers; which of them comes first depends on the parity of \<open>n\<close>.
\<close>

lemma pp_drain_ok:
  assumes "data_only prc" "pp_status p = NV_OK" "pp_status (pp_drain env prc c p) = NV_OK"
  shows "pp_nt (pp_drain env prc c p) = pp_nt p"
    and "data_acts (pp_acts (pp_drain env prc c p)) =
      data_acts (pp_acts p) @ (case pp_act p c of None \<Rightarrow> [] | Some j \<Rightarrow> snd (prc j))"
    and "pp_act p c = Some j \<Longrightarrow> env_push_wait env j = NV_OK \<and> fst (prc j) = NV_OK"
    and "pp_act (pp_drain env prc c p) = (pp_act p)(c := None)"
proof -
  have "pp_nt (pp_drain env prc c p) = pp_nt p \<and>
    data_acts (pp_acts (pp_drain env prc c p)) =
      data_acts (pp_acts p) @ (case pp_act p c of None \<Rightarrow> [] | Some j \<Rightarrow> snd (prc j)) \<and>
    (pp_act p c = Some j \<longrightarrow> env_push_wait env j = NV_OK \<and> fst (prc j) = NV_OK) \<and>
    pp_act (pp_drain env prc c p) = (pp_act p)(c := None)"
  proof (cases "pp_act p c")
    case None
    then show ?thesis by (simp add: pp_drain_def fun_upd_idem)
  next
    case (Some k)
    obtain st as where pr: "prc k = (st, as)" by fastforce
    have w: "env_push_wait env k = NV_OK"
      using assms(2,3) Some by (auto simp: pp_drain_def Let_def pp_emit_def split: if_splits)
    have "data_acts as = as" using data_acts_prc [OF assms(1), of k] pr by simp
    with w assms(2,3) Some pr show ?thesis
      by (auto simp: pp_drain_def Let_def pp_emit_def)
  qed
  then show "pp_nt (pp_drain env prc c p) = pp_nt p"
    and "data_acts (pp_acts (pp_drain env prc c p)) =
      data_acts (pp_acts p) @ (case pp_act p c of None \<Rightarrow> [] | Some j \<Rightarrow> snd (prc j))"
    and "pp_act p c = Some j \<Longrightarrow> env_push_wait env j = NV_OK \<and> fst (prc j) = NV_OK"
    and "pp_act (pp_drain env prc c p) = (pp_act p)(c := None)"
    by blast+
qed

lemma pp_drain_bad: "pp_status p \<noteq> NV_OK \<Longrightarrow> pp_status (pp_drain env prc c p) = pp_status p"
  by (auto simp: pp_drain_def Let_def pp_emit_def split: option.splits)

lemma concat_split_last2:
  assumes "2 \<le> n"
  shows "concat (map f [0..<n]) = concat (map f [0..<n - 2]) @ f (n - 2) @ f (n - 1)"
proof -
  obtain k where "n = Suc (Suc k)" using assms by (metis Suc_le_D numeral_2_eq_2 Suc_le_mono)
  then show ?thesis by simp
qed

lemma ping_pong_success:
  assumes "data_only prc" "pp_status (ping_pong env prc start n) = NV_OK"
  shows "mset (data_acts (pp_acts (ping_pong env prc start n))) =
           mset (concat (map (\<lambda>j. snd (prc (start + j))) [0..<n]))"
    and "pp_nt (ping_pong env prc start n) = n"
    and "\<forall>j < n. xfer_ok env prc (start + j)"
proof -
  define p0 where "p0 = pp_loop env prc start [0..<n] pp_init"
  define p1 where "p1 = pp_drain env prc 0 p0"
  define p2 where "p2 = pp_drain env prc 1 p1"
  have pp: "ping_pong env prc start n = p2" by (simp add: ping_pong_def p0_def p1_def p2_def)
  have ok2: "pp_status p2 = NV_OK" using assms(2) pp by simp
  then have ok1: "pp_status p1 = NV_OK" using pp_drain_bad [of p1 env prc 1] by (auto simp: p2_def)
  then have ok0: "pp_status p0 = NV_OK" using pp_drain_bad [of p0 env prc 0] by (auto simp: p1_def)
  have af: "pp_after env prc start n p0"
    unfolding p0_def by (rule pp_loop_after [OF assms(1) ok0 [unfolded p0_def]])
  note d1 = pp_drain_ok [OF assms(1) ok0 ok1 [unfolded p1_def], folded p1_def]
  note d2 = pp_drain_ok [OF assms(1) ok1 ok2 [unfolded p2_def], folded p2_def]
  have acts: "data_acts (pp_acts p2) = data_acts (pp_acts p0) @
      (case pp_act p0 0 of None \<Rightarrow> [] | Some j \<Rightarrow> snd (prc j)) @ (case pp_act p0 1 of None \<Rightarrow> [] | Some j \<Rightarrow> snd (prc j))"
    using d1(2,4) d2(2) by simp
  have wp: "env_push_wait env j = NV_OK \<and> fst (prc j) = NV_OK" if "pp_act p0 0 = Some j \<or> pp_act p0 1 = Some j" for j
    using that d1(3,4) d2(3) by auto
  consider "n = 0" | "n = 1" | "2 \<le> n" by linarith
  then have "mset (data_acts (pp_acts p2)) = mset (concat (map (\<lambda>j. snd (prc (start + j))) [0..<n])) \<and>
      (\<forall>j < n. xfer_ok env prc (start + j))"
  proof cases
    case 1
    with af acts show ?thesis by (simp add: pp_after_def)
  next
    case 2
    with af acts wp show ?thesis by (auto simp: pp_after_def xfer_ok_def)
  next
    case 3
    have sl: "(pp_act p0 0 = Some (start + (n - 2)) \<and> pp_act p0 1 = Some (start + (n - 1))) \<or>
        (pp_act p0 0 = Some (start + (n - 1)) \<and> pp_act p0 1 = Some (start + (n - 2)))"
    proof (cases "even n")
      case True
      then have "n mod 2 = 0" "(n + 1) mod 2 = 1" by presburger+
      then show ?thesis using af 3 by (simp add: pp_after_def)
    next
      case False
      then have "n mod 2 = 1" "(n + 1) mod 2 = 0" by presburger+
      then show ?thesis using af 3 by (simp add: pp_after_def)
    qed
    have x: "xfer_ok env prc (start + j)" if "j < n" for j
    proof (cases "j < n - 2")
      case True
      then show ?thesis using af by (simp add: pp_after_def)
    next
      case False
      then have "j = n - 2 \<or> j = n - 1" using that 3 by linarith
      then have "pp_act p0 0 = Some (start + j) \<or> pp_act p0 1 = Some (start + j)" using sl by auto
      from wp [OF this] af that show ?thesis by (simp add: pp_after_def xfer_ok_def)
    qed
    have "data_acts (pp_acts p0) = concat (map (\<lambda>j. snd (prc (start + j))) [0..<n - 2])"
      using af by (simp add: pp_after_def)
    with acts sl x show ?thesis
      unfolding concat_split_last2 [OF 3] by (auto simp: ac_simps)
  qed
  then show "mset (data_acts (pp_acts (ping_pong env prc start n))) =
           mset (concat (map (\<lambda>j. snd (prc (start + j))) [0..<n]))"
    and "\<forall>j < n. xfer_ok env prc (start + j)" unfolding pp by auto
  show "pp_nt (ping_pong env prc start n) = n"
    unfolding pp using d1(1) d2(1) af by (simp add: pp_after_def)
qed

text \<open>Conversely, when no callee fails on the slice, neither does the pipeline.\<close>

lemma pp_consume_ok:
  "pp_status p = NV_OK \<Longrightarrow> (\<And>j. pp_act p c = Some j \<Longrightarrow> env_push_wait env j = NV_OK \<and> fst (prc j) = NV_OK) \<Longrightarrow>
   pp_status (pp_consume env prc c p) = NV_OK"
  by (auto simp: pp_consume_def Let_def pp_emit_def split: option.splits prod.splits)

lemma pp_loop_status_ok:
  assumes "data_only prc" "\<forall>j < n. xfer_ok env prc (start + j)"
  shows "pp_status (pp_loop env prc start [0..<n] pp_init) = NV_OK"
  using assms(2)
proof (induction n)
  case 0
  then show ?case by (simp add: pp_init_def)
next
  case (Suc n)
  let ?p = "pp_loop env prc start [0..<n] pp_init"
  have i: "pp_status pp_init = NV_OK" by (simp add: pp_init_def)
  have ok: "pp_status ?p = NV_OK" using Suc by simp
  note af = pp_loop_after [OF assms(1) ok]
  have e: "pp_loop env prc start [0..<Suc n] pp_init = pp_iter env prc start n ?p"
    using pp_loop_snoc [OF i, of env prc start "[0..<n]" n] ok by (simp add: Let_def)
  have "pp_status (pp_consume env prc (n mod 2) ?p) = NV_OK"
  proof (rule pp_consume_ok [OF ok])
    fix j assume "pp_act ?p (n mod 2) = Some j"
    then have "j = start + (n - 2)" "2 \<le> n" using af by (auto simp: pp_after_def split: if_splits)
    moreover have "n - 2 < Suc n" by simp
    ultimately show "env_push_wait env j = NV_OK \<and> fst (prc j) = NV_OK"
      using Suc.prems unfolding xfer_ok_def by blast
  qed
  then show ?case
    unfolding e using Suc.prems by (auto simp: pp_iter_def Let_def pp_submit_def pp_emit_def xfer_ok_def)
qed

lemma pp_drain_status_ok:
  "pp_status p = NV_OK \<Longrightarrow> (\<And>j. pp_act p c = Some j \<Longrightarrow> env_push_wait env j = NV_OK \<and> fst (prc j) = NV_OK) \<Longrightarrow>
   pp_status (pp_drain env prc c p) = NV_OK"
  by (auto simp: pp_drain_def Let_def pp_emit_def split: option.splits prod.splits)

lemma pp_after_slot:
  assumes "pp_after env prc start n p" "pp_act p c = Some j" "c < 2"
  shows "\<exists>k < n. j = start + k"
proof -
  have "c = n mod 2 \<or> c = (n + 1) mod 2" using assms(3) by presburger
  then show ?thesis
    using assms(1,2) by (auto simp: pp_after_def split: if_splits intro: exI [of _ "n - 1"] exI [of _ "n - 2"])
qed

lemma ping_pong_status_ok:
  assumes "data_only prc" "\<forall>j < n. xfer_ok env prc (start + j)"
  shows "pp_status (ping_pong env prc start n) = NV_OK"
proof -
  let ?p0 = "pp_loop env prc start [0..<n] pp_init"
  let ?p1 = "pp_drain env prc 0 ?p0"
  have ok0: "pp_status ?p0 = NV_OK" by (rule pp_loop_status_ok [OF assms])
  have slot: "env_push_wait env j = NV_OK \<and> fst (prc j) = NV_OK" if "pp_act ?p0 c = Some j" "c < 2" for c j
    using pp_after_slot [OF pp_loop_after [OF assms(1) ok0] that] assms(2) by (auto simp: xfer_ok_def)
  have ok1: "pp_status ?p1 = NV_OK"
    by (rule pp_drain_status_ok [OF ok0]) (use slot in auto)
  have "pp_act ?p1 1 = pp_act ?p0 1"
    using pp_drain_ok(4) [OF assms(1) ok0 ok1] by simp
  then show ?thesis
    unfolding ping_pong_def by (intro pp_drain_status_ok [OF ok1]) (use slot in auto)
qed

end
