(* ===== verification/Copy_Effects.thy ===== *)
theory Copy_Effects
  imports Copy_Pipeline
begin

text \<open>
  What pass 2 leaves in user memory and in the metadata array: the same for every schedule
  of the worker threads, and equal to copying the runs one after the other.
\<close>

section \<open>Actions on disjoint places commute\<close>

fun act_indep :: "action \<Rightarrow> action \<Rightarrow> bool" where
  "act_indep (CopyOut p xs) (CopyOut q ys) \<longleftrightarrow> p + length xs \<le> q \<or> q + length ys \<le> p"
| "act_indep (SetMeta i m) (SetMeta j n) \<longleftrightarrow> i \<noteq> j"
| "act_indep _ _ \<longleftrightarrow> True"

interpretation store_actions: indep_actions run_action act_indep
proof
  fix a b s
  assume "act_indep a b"
  then show "run_action a (run_action b s) = run_action b (run_action a s)"
    by (cases a; cases b) (auto simp: write_mem_commute fun_upd_twist)
qed

lemma run_action_data: "fold run_action as s = fold run_action (data_acts as) s"
proof (induction as arbitrary: s)
  case (Cons a as)
  then show ?case by (cases a) (auto simp: data_acts_def)
qed simp

section \<open>The layout of the runs\<close>

definition cfg_ok :: "copy_cfg \<Rightarrow> bool" where
  "cfg_ok cfg \<longleftrightarrow>
     concat (map run_idx (cc_runs cfg)) = [0..<length (cc_pages cfg)] \<and>
     (\<forall>r \<in> set (cc_runs cfg). good_run (cc_pages cfg) UVM_CONF_COMPUTING_DMA_BUFFER_SIZE r) \<and>
     (\<forall>k < length (cc_pages cfg). gp_off (cc_pages cfg ! k) = k * PAGE_SIZE) \<and>
     cc_buf cfg + length (cc_pages cfg) * PAGE_SIZE \<le> 2 ^ 64 \<and> cc_buf cfg \<noteq> 0 \<and>
     phys_ok (cc_pages cfg)"

lemma concat_prefix_upt:
  assumes "concat (map f (xs @ x # ys)) = [0..<n]" "f x \<noteq> []"
  shows "concat (map f xs) = [0..<hd (f x)]" "hd (f x) + length (f x) \<le> n"
proof -
  let ?L = "length (concat (map f xs))"
  have eq: "[0..<n] = concat (map f xs) @ f x @ concat (map f ys)" using assms(1) by simp
  then have len: "?L + length (f x) \<le> n" by (metis length_append length_upt minus_nat.diff_0 add.assoc le_add1)
  have lt: "?L < n" using len assms(2) by (cases "f x") auto
  have "hd (f x) = ([0..<n]) ! ?L"
    unfolding eq using assms(2) by (cases "f x") (simp_all add: nth_append)
  then have hd: "hd (f x) = ?L" using lt by simp
  have "concat (map f xs) = take ?L [0..<n]" unfolding eq by simp
  then show "concat (map f xs) = [0..<hd (f x)]" using lt hd by (simp add: take_upt)
  show "hd (f x) + length (f x) \<le> n" using hd len by simp
qed

lemma run_idx_nonempty: "good_run pages mx r \<Longrightarrow> run_idx r \<noteq> []"
  by (auto simp: good_run_def run_idx_def div_greater_zero_iff mod_eq_0_iff_dvd dest: dvd_imp_le)

lemma length_run_idx [simp]: "length (run_idx r) = snd r div PAGE_SIZE"
  by (simp add: run_idx_def)

lemma hd_run_idx: "run_idx r \<noteq> [] \<Longrightarrow> hd (run_idx r) = fst r"
  by (simp add: run_idx_def)

text \<open>The runs before run \<open>j\<close> cover exactly the pages before its first page.\<close>

lemma runs_before:
  assumes "cfg_ok cfg" "j < length (cc_runs cfg)"
  shows "concat (map run_idx (take j (cc_runs cfg))) = [0..<fst (cc_runs cfg ! j)]"
    and "fst (cc_runs cfg ! j) + snd (cc_runs cfg ! j) div PAGE_SIZE \<le> length (cc_pages cfg)"
    and "snd (cc_runs cfg ! j) div PAGE_SIZE * PAGE_SIZE = snd (cc_runs cfg ! j)"
proof -
  let ?r = "cc_runs cfg ! j"
  have split: "cc_runs cfg = take j (cc_runs cfg) @ ?r # drop (Suc j) (cc_runs cfg)"
    using assms(2) by (rule id_take_nth_drop)
  have good: "good_run (cc_pages cfg) UVM_CONF_COMPUTING_DMA_BUFFER_SIZE ?r"
    using assms by (auto simp: cfg_ok_def)
  note ne = run_idx_nonempty [OF good]
  have all: "concat (map run_idx (take j (cc_runs cfg) @ ?r # drop (Suc j) (cc_runs cfg))) = [0..<length (cc_pages cfg)]"
    using assms(1) split by (simp add: cfg_ok_def)
  from concat_prefix_upt [OF all ne] hd_run_idx [OF ne]
  show "concat (map run_idx (take j (cc_runs cfg))) = [0..<fst ?r]"
    and "fst ?r + snd ?r div PAGE_SIZE \<le> length (cc_pages cfg)"
    by simp_all
  show "snd ?r div PAGE_SIZE * PAGE_SIZE = snd ?r"
    using good by (simp add: good_run_def mod_eq_0_iff_dvd)
qed

lemma runs_ordered:
  assumes "cfg_ok cfg" "i < j" "j < length (cc_runs cfg)"
  shows "fst (cc_runs cfg ! i) * PAGE_SIZE + snd (cc_runs cfg ! i) \<le> fst (cc_runs cfg ! j) * PAGE_SIZE"
proof -
  let ?ri = "cc_runs cfg ! i" and ?rj = "cc_runs cfg ! j"
  have i: "i < length (cc_runs cfg)" using assms(2,3) by simp
  have "good_run (cc_pages cfg) UVM_CONF_COMPUTING_DMA_BUFFER_SIZE ?ri"
    using assms(1) i by (auto simp: cfg_ok_def)
  then have "run_idx ?ri \<noteq> []" by (rule run_idx_nonempty)
  then have last: "fst ?ri + snd ?ri div PAGE_SIZE - 1 \<in> set (run_idx ?ri)" "0 < snd ?ri div PAGE_SIZE"
    by (auto simp: run_idx_def)
  have "?ri \<in> set (take j (cc_runs cfg))"
    using assms(2,3) by (auto simp: in_set_conv_nth intro!: exI [of _ i])
  then have "fst ?ri + snd ?ri div PAGE_SIZE - 1 \<in> set (concat (map run_idx (take j (cc_runs cfg))))"
    using last(1) by auto
  then have "fst ?ri + snd ?ri div PAGE_SIZE \<le> fst ?rj"
    using last(2) unfolding runs_before(1) [OF assms(1,3)] by auto
  then have "(fst ?ri + snd ?ri div PAGE_SIZE) * PAGE_SIZE \<le> fst ?rj * PAGE_SIZE"
    by (rule mult_le_mono1)
  then show ?thesis using runs_before(3) [OF assms(1) i] by (simp add: add_mult_distrib)
qed

lemma run_addr_eq:
  assumes "cfg_ok cfg" "j < length (cc_runs cfg)"
  shows "run_addr cfg j = cc_buf cfg + fst (cc_runs cfg ! j) * PAGE_SIZE"
proof -
  let ?r = "cc_runs cfg ! j"
  have good: "good_run (cc_pages cfg) UVM_CONF_COMPUTING_DMA_BUFFER_SIZE ?r"
    using assms by (auto simp: cfg_ok_def)
  have "0 < snd ?r div PAGE_SIZE" using run_idx_nonempty [OF good] by (simp add: run_idx_def)
  then have lt: "fst ?r < length (cc_pages cfg)" using runs_before(2) [OF assms] by simp
  then have "gp_off (cc_pages cfg ! fst ?r) = fst ?r * PAGE_SIZE" using assms(1) by (simp add: cfg_ok_def)
  moreover have "cc_buf cfg + fst ?r * PAGE_SIZE < 2 ^ 64"
  proof -
    have "fst ?r * PAGE_SIZE < length (cc_pages cfg) * PAGE_SIZE" using lt by simp
    then show ?thesis using assms(1) by (simp add: cfg_ok_def)
  qed
  ultimately show ?thesis by (simp add: run_addr_def u64_small)
qed

section \<open>What one transfer writes\<close>

definition xfer_out :: "uvm_env \<Rightarrow> copy_cfg \<Rightarrow> nat \<Rightarrow> byte list" where
  "xfer_out env cfg j = (if cc_cipher cfg then fst (ce_transfer env cfg j) else run_plain env cfg j)"

lemma length_run_plain [simp, layout_simps]: "length (run_plain env cfg j) = snd (cc_runs cfg ! j)"
  by (simp add: run_plain_def)

lemma length_xfer_out:
  "csl_ok env \<Longrightarrow> length (xfer_out env cfg j) = snd (cc_runs cfg ! j)"
  using csl_okD(1) [of env "env_key_version env j" "log_gpu_encryption env j" "run_plain env cfg j"]
  by (cases "ce_transfer env cfg j") (auto simp: xfer_out_def ce_transfer_def)

lemma process_transfer_effect:
  assumes "csl_ok env" "cc_buf cfg \<noteq> 0" "fst (process_transfer env cfg j) = NV_OK"
  shows "snd (process_transfer env cfg j) =
    (if cc_cipher cfg then [SetMeta j (transfer_meta env cfg j)] else []) @ [CopyOut (run_addr cfg j) (xfer_out env cfg j)]"
proof (cases "ce_transfer env cfg j")
  case (Pair c t)
  then have "cpu_decrypt env (env_key_version env j) (log_gpu_encryption env j) c t = (NV_OK, run_plain env cfg j)"
    using csl_okD(2) [OF assms(1)] by (simp add: ce_transfer_def cpu_decrypt_def)
  with Pair assms(2,3) show ?thesis
    by (auto simp: process_transfer_def copy_out_def xfer_out_def split: if_splits)
qed

definition seq_effects :: "uvm_env \<Rightarrow> copy_cfg \<Rightarrow> nat \<Rightarrow> action list" where
  "seq_effects env cfg n = concat (map (\<lambda>j.
     (if cc_cipher cfg then [SetMeta j (transfer_meta env cfg j)] else []) @ [CopyOut (run_addr cfg j) (xfer_out env cfg j)]) [0..<n])"

lemma seq_effects_indep:
  assumes "cfg_ok cfg" "csl_ok env" "n \<le> length (cc_runs cfg)"
  shows "pairwise_indep act_indep (seq_effects env cfg n)"
proof -
  have co: "act_indep (CopyOut (run_addr cfg i) (xfer_out env cfg i)) (CopyOut (run_addr cfg j) (xfer_out env cfg j))"
    if "i < n" "j < n" "i \<noteq> j" for i j
  proof (cases "i < j")
    case True
    have "run_addr cfg i + length (xfer_out env cfg i) \<le> run_addr cfg j"
      using runs_ordered [OF assms(1) True] that assms(3)
      by (simp add: run_addr_eq [OF assms(1)] length_xfer_out [OF assms(2)])
    then show ?thesis by simp
  next
    case False
    then have ji: "j < i" using that(3) by simp
    have "run_addr cfg j + length (xfer_out env cfg j) \<le> run_addr cfg i"
      using runs_ordered [OF assms(1) ji] that assms(3)
      by (simp add: run_addr_eq [OF assms(1)] length_xfer_out [OF assms(2)])
    then show ?thesis by simp
  qed
  have mem: "a \<in> set (seq_effects env cfg n) \<Longrightarrow> \<exists>i < n. a = SetMeta i (transfer_meta env cfg i) \<or>
      a = CopyOut (run_addr cfg i) (xfer_out env cfg i)" for a
    by (auto simp: seq_effects_def split: if_splits)
  show ?thesis
    unfolding pairwise_indep_def
  proof (intro ballI)
    fix a b assume "a \<in> set (seq_effects env cfg n)" "b \<in> set (seq_effects env cfg n)"
    from mem [OF this(1)] mem [OF this(2)] obtain i j where
      ij: "i < n" "j < n" "a = SetMeta i (transfer_meta env cfg i) \<or> a = CopyOut (run_addr cfg i) (xfer_out env cfg i)"
      "b = SetMeta j (transfer_meta env cfg j) \<or> b = CopyOut (run_addr cfg j) (xfer_out env cfg j)" by blast
    then show "a = b \<or> act_indep a b"
      using co [of i j] by (cases "i = j") auto
  qed
qed

text \<open>Running the effects one after the other fills the buffer densely from its start.\<close>

lemma length_out_prefix:
  assumes "cfg_ok cfg" "csl_ok env" "n < length (cc_runs cfg)"
  shows "length (concat (map (xfer_out env cfg) [0..<n])) = fst (cc_runs cfg ! n) * PAGE_SIZE"
proof -
  have "length (concat (map (xfer_out env cfg) [0..<k])) = PAGE_SIZE * length (concat (map run_idx (take k (cc_runs cfg))))"
    if "k \<le> n" for k
    using that
  proof (induction k)
    case (Suc k)
    then have k: "k < length (cc_runs cfg)" using assms(3) by simp
    have "take (Suc k) (cc_runs cfg) = take k (cc_runs cfg) @ [cc_runs cfg ! k]"
      by (rule take_Suc_conv_app_nth [OF k])
    with Suc runs_before(3) [OF assms(1) k] show ?case
      by (simp add: length_xfer_out [OF assms(2)] algebra_simps)
  qed simp
  from this [of n] show ?thesis
    using runs_before(1) [OF assms(1,3)] by simp
qed

lemma fold_seq_effects:
  assumes "cfg_ok cfg" "csl_ok env" "n \<le> length (cc_runs cfg)"
  shows "fold run_action (seq_effects env cfg n) s =
    s\<lparr>st_mem := write_mem (st_mem s) (cc_buf cfg) (concat (map (xfer_out env cfg) [0..<n])),
      st_meta := (\<lambda>i. if cc_cipher cfg \<and> i < n then Some (transfer_meta env cfg i) else st_meta s i)\<rparr>"
  using assms(3)
proof (induction n)
  case 0
  then show ?case by (simp add: seq_effects_def)
next
  case (Suc n)
  then have n: "n < length (cc_runs cfg)" by simp
  let ?xs = "concat (map (xfer_out env cfg) [0..<n])"
  have addr: "run_addr cfg n = cc_buf cfg + length ?xs"
    using run_addr_eq [OF assms(1) n] length_out_prefix [OF assms(1,2) n] by simp
  have se: "seq_effects env cfg (Suc n) = seq_effects env cfg n @
      (if cc_cipher cfg then [SetMeta n (transfer_meta env cfg n)] else []) @ [CopyOut (run_addr cfg n) (xfer_out env cfg n)]"
    by (simp add: seq_effects_def)
  have upd: "(\<lambda>i. if i < n then Some (transfer_meta env cfg i) else st_meta s i)(n \<mapsto> transfer_meta env cfg n) =
      (\<lambda>i. if i < Suc n then Some (transfer_meta env cfg i) else st_meta s i)"
    by (auto simp: fun_eq_iff less_Suc_eq)
  show ?case
    using Suc.IH n by (simp add: se addr write_mem_append upd)
qed

section \<open>All workers together\<close>

lemma first_error_OK: "first_error sts = NV_OK \<longleftrightarrow> (\<forall>s \<in> set sts. s = NV_OK)"
proof (cases "filter (\<lambda>s. s \<noteq> NV_OK) sts")
  case Nil
  then show ?thesis by (auto simp: first_error_def filter_empty_conv)
next
  case (Cons a xs)
  then have "a \<in> set (filter (\<lambda>s. s \<noteq> NV_OK) sts)" by simp
  then have "a \<noteq> NV_OK" "a \<in> set sts" by simp_all
  with Cons show ?thesis by (auto simp: first_error_def)
qed

lemma norm_threads_pos: "0 < norm_threads req nr"
  by (auto simp: norm_threads_def Let_def)

lemma run_thread_success:
  assumes "wr_status (run_thread env cfg t sl) = NV_OK"
  shows "mset (data_acts (wr_acts (run_thread env cfg t sl))) =
      mset (concat (map (\<lambda>j. snd (process_transfer env cfg j)) (slice_idx sl)))"
    and "cc_cipher cfg \<Longrightarrow> wr_nt (run_thread env cfg t sl) = snd sl"
    and "j \<in> set (slice_idx sl) \<Longrightarrow> xfer_ok env (process_transfer env cfg) j"
proof -
  define p where "p = ping_pong env (process_transfer env cfg) (fst sl) (snd sl)"
  have r: "run_thread env cfg t sl = \<lparr>wr_status = pp_status p, wr_nt = (if cc_cipher cfg then pp_nt p else 0), wr_acts = pp_acts p\<rparr>"
    using assms by (auto simp: run_thread_def lm_mt_worker_fn_def failed_worker_def p_def Let_def split: if_splits)
  have ok: "pp_status (ping_pong env (process_transfer env cfg) (fst sl) (snd sl)) = NV_OK"
    using assms r by (simp add: p_def)
  note pp = ping_pong_success [OF process_transfer_data ok]
  have idx: "slice_idx sl = map ((+) (fst sl)) [0..<snd sl]"
    by (rule nth_equalityI) (simp_all add: slice_idx_def)
  show "mset (data_acts (wr_acts (run_thread env cfg t sl))) =
      mset (concat (map (\<lambda>j. snd (process_transfer env cfg j)) (slice_idx sl)))"
    using pp(1) by (simp add: r p_def idx o_def)
  show "cc_cipher cfg \<Longrightarrow> wr_nt (run_thread env cfg t sl) = snd sl"
    using pp(2) by (simp add: r p_def)
  show "xfer_ok env (process_transfer env cfg) j" if "j \<in> set (slice_idx sl)"
    using pp(3) [rule_format, of "j - fst sl"] that by (auto simp: slice_idx_def)
qed

text \<open>The actions of all threads, when all succeed: the effects of every run, once.\<close>

lemma workers_effects:
  assumes "\<forall>r \<in> set (map (\<lambda>(i, sl). run_thread env cfg i sl) (enumerate k sls)). wr_status r = NV_OK"
  shows "mset (data_acts (concat (map wr_acts (map (\<lambda>(i, sl). run_thread env cfg i sl) (enumerate k sls))))) =
      mset (concat (map (\<lambda>j. snd (process_transfer env cfg j)) (concat (map slice_idx sls))))"
    and "cc_cipher cfg \<Longrightarrow> sum_list (map wr_nt (map (\<lambda>(i, sl). run_thread env cfg i sl) (enumerate k sls))) =
      length (concat (map slice_idx sls))"
    and "\<forall>j \<in> set (concat (map slice_idx sls)). xfer_ok env (process_transfer env cfg) j"
proof -
  have "mset (data_acts (concat (map wr_acts (map (\<lambda>(i, sl). run_thread env cfg i sl) (enumerate k sls))))) =
      mset (concat (map (\<lambda>j. snd (process_transfer env cfg j)) (concat (map slice_idx sls)))) \<and>
    (cc_cipher cfg \<longrightarrow> sum_list (map wr_nt (map (\<lambda>(i, sl). run_thread env cfg i sl) (enumerate k sls))) =
      length (concat (map slice_idx sls))) \<and>
    (\<forall>j \<in> set (concat (map slice_idx sls)). xfer_ok env (process_transfer env cfg) j)"
    using assms
  proof (induction sls arbitrary: k)
    case (Cons sl sls)
    have ok: "wr_status (run_thread env cfg k sl) = NV_OK" using Cons.prems by simp
    have rest: "\<forall>r \<in> set (map (\<lambda>(i, sl). run_thread env cfg i sl) (enumerate (Suc k) sls)). wr_status r = NV_OK"
      using Cons.prems by simp
    have "length (slice_idx sl) = snd sl" by (simp add: slice_idx_def)
    with run_thread_success [OF ok] Cons.IH [OF rest] show ?case by auto
  qed simp
  then show "mset (data_acts (concat (map wr_acts (map (\<lambda>(i, sl). run_thread env cfg i sl) (enumerate k sls))))) =
      mset (concat (map (\<lambda>j. snd (process_transfer env cfg j)) (concat (map slice_idx sls))))"
    and "cc_cipher cfg \<Longrightarrow> sum_list (map wr_nt (map (\<lambda>(i, sl). run_thread env cfg i sl) (enumerate k sls))) =
      length (concat (map slice_idx sls))"
    and "\<forall>j \<in> set (concat (map slice_idx sls)). xfer_ok env (process_transfer env cfg) j"
    by blast+
qed

lemma mset_data_acts: "mset as = mset bs \<Longrightarrow> mset (data_acts as) = mset (data_acts bs)"
  by (simp add: data_acts_def mset_filter)

lemma schedule_seq_effects:
  assumes "cfg_ok cfg" "csl_ok env" "mset (data_acts as) = mset (seq_effects env cfg n)" "n \<le> length (cc_runs cfg)"
  shows "fold run_action as s = fold run_action (seq_effects env cfg n) s"
proof -
  have "fold run_action (seq_effects env cfg n) s = fold run_action (data_acts as) s"
    by (rule store_actions.schedule_perm [OF seq_effects_indep [OF assms(1,2,4)]]) (use assms(3) in simp)
  then show ?thesis using run_action_data [of as s] by simp
qed

lemma run_workers_success:
  assumes "lm_mt_run_workers env cfg req s = (NV_OK, nt, s')" "cfg_ok cfg" "csl_ok env" "sched_ok env"
  shows "nt = length (cc_runs cfg)"
    and "s' = s\<lparr>st_mem := write_mem (st_mem s) (cc_buf cfg) (concat (map (xfer_out env cfg) [0..<length (cc_runs cfg)])),
      st_meta := (\<lambda>i. if cc_cipher cfg \<and> i < length (cc_runs cfg) then Some (transfer_meta env cfg i) else st_meta s i)\<rparr>"
proof -
  define nr where "nr = length (cc_runs cfg)"
  define t where "t = norm_threads req nr"
  define rs where "rs = map (\<lambda>(i, sl). run_thread env cfg i sl) (enumerate 0 (split_work nr t))"
  have w: "first_error (map wr_status rs) = NV_OK" "nt = (if cc_cipher cfg then sum_list (map wr_nt rs) else nr)"
    "s' = fold run_action (env_sched env (map wr_acts rs)) s"
    using assms(1) by (auto simp: lm_mt_run_workers_def Let_def nr_def [symmetric] t_def [symmetric] rs_def [symmetric]
        split: if_splits)
  have cover: "concat (map slice_idx (split_work nr t)) = [0..<nr]"
    using even_split.slices_cover norm_threads_pos by (simp add: t_def)
  have allok: "\<forall>r \<in> set rs. wr_status r = NV_OK"
    using w(1) by (simp add: first_error_OK)
  note eff = workers_effects [OF allok [unfolded rs_def], folded rs_def, unfolded cover]
  have "snd (process_transfer env cfg j) = (if cc_cipher cfg then [SetMeta j (transfer_meta env cfg j)] else []) @
      [CopyOut (run_addr cfg j) (xfer_out env cfg j)]" if "j < nr" for j
    by (rule process_transfer_effect [OF assms(3)]) (use assms(2) eff(3) that in \<open>auto simp: cfg_ok_def xfer_ok_def\<close>)
  then have "concat (map (\<lambda>j. snd (process_transfer env cfg j)) [0..<nr]) = seq_effects env cfg nr"
    unfolding seq_effects_def by (intro arg_cong [where f = concat] map_cong) auto
  then have "mset (data_acts (env_sched env (map wr_acts rs))) = mset (seq_effects env cfg nr)"
    using mset_data_acts [OF sched_ok_mset [OF assms(4), of "map wr_acts rs"]] eff(1) by simp
  then show "s' = s\<lparr>st_mem := write_mem (st_mem s) (cc_buf cfg) (concat (map (xfer_out env cfg) [0..<length (cc_runs cfg)])),
      st_meta := (\<lambda>i. if cc_cipher cfg \<and> i < length (cc_runs cfg) then Some (transfer_meta env cfg i) else st_meta s i)\<rparr>"
    using schedule_seq_effects [OF assms(2,3), of _ nr] fold_seq_effects [OF assms(2,3), of nr] w(3) by (simp add: nr_def)
  show "nt = length (cc_runs cfg)"
    using w(2) eff(2) by (auto simp: nr_def)
qed

text \<open>With nothing failing, the workers succeed.\<close>

definition env_copy_ok :: "uvm_env \<Rightarrow> bool" where
  "env_copy_ok env \<longleftrightarrow> env_mem_ok env \<and> csl_ok env \<and> sched_ok env \<and> env_task_mm env \<and>
     (\<forall>t. env_kthread env t \<and> env_dma_alloc env t 0 = NV_OK \<and> env_dma_alloc env t 1 = NV_OK) \<and>
     (\<forall>j. env_push_begin env j = NV_OK \<and> env_push_wait env j = NV_OK)"

lemma process_transfer_ok: "env_mem_ok env \<Longrightarrow> csl_ok env \<Longrightarrow> fst (process_transfer env cfg j) = NV_OK"
proof (cases "ce_transfer env cfg j")
  case (Pair c t)
  assume *: "env_mem_ok env" "csl_ok env"
  have "cpu_decrypt env (env_key_version env j) (log_gpu_encryption env j) c t = (NV_OK, run_plain env cfg j)"
    using csl_okD(2) [OF *(2)] Pair by (simp add: ce_transfer_def cpu_decrypt_def)
  with * Pair show ?thesis
    by (auto simp: process_transfer_def copy_out_def env_mem_ok_def split: prod.splits)
qed

lemma run_workers_status_ok:
  assumes "env_copy_ok env"
  shows "fst (lm_mt_run_workers env cfg req s) = NV_OK"
proof -
  have "wr_status (run_thread env cfg t sl) = NV_OK" for t sl
  proof -
    have "\<forall>j < snd sl. xfer_ok env (process_transfer env cfg) (fst sl + j)"
      using assms process_transfer_ok by (auto simp: env_copy_ok_def xfer_ok_def)
    from ping_pong_status_ok [OF process_transfer_data this] assms show ?thesis
      by (auto simp: run_thread_def lm_mt_worker_fn_def Let_def env_copy_ok_def env_mem_ok_def)
  qed
  then show ?thesis
    using assms by (auto simp: lm_mt_run_workers_def Let_def first_error_OK env_copy_ok_def env_mem_ok_def)
qed

text \<open>The plaintext of all runs is the GPU pages' contents in order.\<close>

lemma plain_concat:
  assumes "cfg_ok cfg"
  shows "concat (map (run_plain env cfg) [0..<length (cc_runs cfg)]) = concat (map (page_bytes env) (cc_pages cfg))"
proof -
  have "concat (map (run_plain env cfg) [0..<length (cc_runs cfg)]) =
      concat (map (\<lambda>r. concat (map (\<lambda>k. page_bytes env (cc_pages cfg ! k)) (run_idx r))) (cc_runs cfg))"
  proof (rule arg_cong [where f = concat])
    show "map (run_plain env cfg) [0..<length (cc_runs cfg)] =
        map (\<lambda>r. concat (map (\<lambda>k. page_bytes env (cc_pages cfg ! k)) (run_idx r))) (cc_runs cfg)"
    proof (rule nth_equalityI)
      fix i assume "i < length (map (run_plain env cfg) [0..<length (cc_runs cfg)])"
      then have i: "i < length (cc_runs cfg)" by simp
      then have "good_run (cc_pages cfg) UVM_CONF_COMPUTING_DMA_BUFFER_SIZE (cc_runs cfg ! i)" "phys_ok (cc_pages cfg)"
        using assms by (auto simp: cfg_ok_def)
      from run_contents [OF this] i
      show "map (run_plain env cfg) [0..<length (cc_runs cfg)] ! i =
          map (\<lambda>r. concat (map (\<lambda>k. page_bytes env (cc_pages cfg ! k)) (run_idx r))) (cc_runs cfg) ! i"
        by (simp add: run_plain_def)
    qed simp
  qed
  also have "\<dots> = concat (map (\<lambda>k. page_bytes env (cc_pages cfg ! k)) (concat (map run_idx (cc_runs cfg))))"
    by (rule concat_map_concat)
  also have "\<dots> = concat (map (page_bytes env) (map ((!) (cc_pages cfg)) [0..<length (cc_pages cfg)]))"
    using assms by (simp add: cfg_ok_def o_def)
  also have "\<dots> = concat (map (page_bytes env) (cc_pages cfg))"
    by (simp only: map_nth)
  finally show ?thesis .
qed

section \<open>A sample configuration\<close>

definition sample_cfg :: "bool \<Rightarrow> copy_cfg" where
  "sample_cfg ci = \<lparr>cc_pages = sample_pages, cc_runs = [(0, 8192), (2, 4096)], cc_buf = 1048576, cc_cipher = ci\<rparr>"

lemma sample_cfg_ok: "cfg_ok (sample_cfg ci)"
proof -
  note g = build_runs_good [OF sample_runs]
  have "gp_off (sample_pages ! k) = k * PAGE_SIZE" if "k < length sample_pages" for k
    using that by (auto simp: sample_pages_def nth_Cons split: nat.splits)
  moreover have "phys_ok sample_pages" by (simp add: phys_ok_def sample_pages_def)
  ultimately show ?thesis
    using g(1,2) by (simp add: cfg_ok_def sample_cfg_def) (simp add: sample_pages_def)
qed

lemma sample_env_copy: "env_copy_ok sample_env"
  using sample_env_mem sample_env_csl sample_env_sched
  by (simp add: env_copy_ok_def) (simp add: sample_env_def)

definition empty_store :: store where
  "empty_store = \<lparr>st_mem = (\<lambda>_. 0), st_meta = (\<lambda>_. None)\<rparr>"

lemma sample_workers:
  "lm_mt_run_workers sample_env (sample_cfg ci) 2 empty_store =
     (NV_OK, fst (snd (lm_mt_run_workers sample_env (sample_cfg ci) 2 empty_store)),
      snd (snd (lm_mt_run_workers sample_env (sample_cfg ci) 2 empty_store)))"
  using run_workers_status_ok [OF sample_env_copy, of "sample_cfg ci" 2 empty_store]
  by (metis prod.collapse)

section \<open>Properties\<close>

text \<open>
  C29: whatever fails, a copy worker has waited for every push it submitted before it
  frees its DMA buffers: no copy-engine write can hit a freed buffer.
\<close>

theorem worker_waits_for_every_push:
  "pending (wr_acts (lm_mt_worker_fn env cfg t sl)) = {}"
  using ping_pong_nothing_pending [OF process_transfer_data, of env env cfg "fst sl" "snd sl"]
  by (simp add: lm_mt_worker_fn_def failed_worker_def Let_def) (simp add: pending_def)

text \<open>
  a successful plaintext copy (114) leaves in the GPU buffer exactly the contents of
  the GPU pages, page after page from the start of the buffer, and changes no other byte,
  for every number of threads and every schedule of them.
\<close>

theorem run_workers_plaintext:
  assumes "lm_mt_run_workers env cfg req s = (NV_OK, nt, s')" "\<not> cc_cipher cfg"
    and "cfg_ok cfg" "csl_ok env" "sched_ok env"
  shows "st_mem s' = write_mem (st_mem s) (cc_buf cfg) (concat (map (page_bytes env) (cc_pages cfg))) \<and>
    st_meta s' = st_meta s \<and> nt = length (cc_runs cfg)"
proof -
  have "xfer_out env cfg = run_plain env cfg"
    using assms(2) by (simp add: xfer_out_def fun_eq_iff)
  then show ?thesis
    using run_workers_success [OF assms(1,3,4,5)] plain_concat [OF assms(3)] assms(2) by simp
qed

theorem run_workers_plaintext_witness:
  "st_mem (snd (snd (lm_mt_run_workers sample_env (sample_cfg False) 2 empty_store))) =
     write_mem (\<lambda>_. 0) 1048576 (concat (map (page_bytes sample_env) sample_pages))"
  using run_workers_plaintext [OF sample_workers [of False] _ sample_cfg_ok sample_env_csl sample_env_sched]
  by (simp add: empty_store_def sample_cfg_def)

text \<open>
  C32: a successful ciphertext copy (115, 116) leaves in the GPU buffer the ciphertexts of
  the runs one after the other, and in entry \<open>j\<close> of the metadata array the size, IV, tag and
  key version of run \<open>j\<close>, for every number of threads and every schedule of them.
\<close>

theorem run_workers_ciphertext:
  assumes "lm_mt_run_workers env cfg req s = (NV_OK, nt, s')" "cc_cipher cfg"
    and "cfg_ok cfg" "csl_ok env" "sched_ok env"
  shows "st_mem s' = write_mem (st_mem s) (cc_buf cfg)
      (concat (map (\<lambda>j. fst (ce_transfer env cfg j)) [0..<length (cc_runs cfg)])) \<and>
    (\<forall>j < length (cc_runs cfg). st_meta s' j = Some (transfer_meta env cfg j)) \<and> nt = length (cc_runs cfg)"
proof -
  have "xfer_out env cfg = (\<lambda>j. fst (ce_transfer env cfg j))"
    using assms(2) by (simp add: xfer_out_def fun_eq_iff)
  then show ?thesis
    using run_workers_success [OF assms(1,3,4,5)] assms(2) by simp
qed

theorem run_workers_ciphertext_witness:
  "st_meta (snd (snd (lm_mt_run_workers sample_env (sample_cfg True) 2 empty_store))) 1 =
     Some (transfer_meta sample_env (sample_cfg True) 1)"
  using run_workers_ciphertext [OF sample_workers [of True] _ sample_cfg_ok sample_env_csl sample_env_sched]
  by (simp add: sample_cfg_def)

text \<open>
  when no callee fails the workers return \<open>NV_OK\<close>, for every thread count requested
  (0 and anything above 16 mean 4, and there are never more threads than runs, unless
  there are no runs).
\<close>

theorem run_workers_live:
  "(env_copy_ok env \<longrightarrow> fst (lm_mt_run_workers env cfg req s) = NV_OK) \<and>
   0 < norm_threads req n \<and> norm_threads req n \<le> 16 \<and> norm_threads req n \<le> max 1 n"
  using run_workers_status_ok by (auto simp: norm_threads_def Let_def)

theorem run_workers_live_witness: "fst (lm_mt_run_workers sample_env (sample_cfg True) 40 empty_store) = NV_OK"
  using run_workers_live [of sample_env "sample_cfg True" 40] sample_env_copy by blast

end
