(* ===== verification/Read_Ioctls.thy ===== *)
theory Read_Ioctls
  imports Copy_Effects
begin

text \<open>
  The read ioctls of \<open>uvm_live_migration.c\<close>: 109 (READ_PAGES_RESIDENT), 111 and 113
  (ciphertext, single-threaded), 114 (plaintext, multi-threaded), 115 (ciphertext,
  multi-threaded) and 116 (dirty blocks only). Each checks its arguments, runs pass 1,
  coalesces, runs pass 2 and copies the residency map and the metadata out.
  Freeing memory and the debug messages are not modelled.
\<close>

section \<open>Parameters and results\<close>

record read_params =
  rp_base :: nat
  rp_length :: nat
  rp_cpu_buf :: nat
  rp_gpu_buf :: nat
  rp_residency_map :: nat
  rp_gpu_uuid :: uuid
  rp_crypto_meta :: nat
  rp_crypto_meta_size :: nat
  rp_num_threads :: nat

text \<open>An output field a path does not assign is \<open>None\<close>.\<close>

record read_result =
  rr_status :: nv_status
  rr_cpu_bytes :: "nat option"
  rr_gpu_bytes :: "nat option"
  rr_num_pages :: "nat option"
  rr_num_transfers :: "nat option"
  rr_mem :: mem
  rr_locks :: "lock_op list"

definition early_return :: "nv_status \<Rightarrow> mem \<Rightarrow> lock_op list \<Rightarrow> read_result" where
  "early_return st m ops =
     \<lparr>rr_status = st, rr_cpu_bytes = None, rr_gpu_bytes = None, rr_num_pages = None, rr_num_transfers = None,
      rr_mem = m, rr_locks = ops\<rparr>"

text \<open>The argument checks at the top of every read ioctl.\<close>

definition read_check :: "uvm_env \<Rightarrow> read_params \<Rightarrow> nv_status" where
  "read_check env pr =
     (if \<not> env_capable env then NV_ERR_INSUFFICIENT_PERMISSIONS
      else if rp_length pr = 0 \<or> rp_length pr mod PAGE_SIZE \<noteq> 0 \<or> rp_base pr mod PAGE_SIZE \<noteq> 0
           then NV_ERR_INVALID_ARGUMENT
      else if rp_residency_map pr = 0 then NV_ERR_INVALID_ARGUMENT
      else NV_OK)"

definition n_pages :: "read_params \<Rightarrow> nat" where
  "n_pages pr = rp_length pr div PAGE_SIZE"

definition page_cap0 :: "read_params \<Rightarrow> nat" where
  "page_cap0 pr = min (n_pages pr) 512"

section \<open>Serial reads of GPU memory\<close>

text \<open>
  \<open>uvm_conf_computing_util_memcopy_gpu_to_cpu\<close> and its \<open>_encrypted\<close> variant: one DMA buffer,
  one push, one wait; transfer \<open>j\<close> of the call.
\<close>

definition util_memcopy_gpu_to_cpu :: "uvm_env \<Rightarrow> phys_addr \<Rightarrow> nat \<Rightarrow> nat \<Rightarrow> nv_status \<times> byte list" where
  "util_memcopy_gpu_to_cpu env ph n j =
     (if env_dma_alloc env 0 0 \<noteq> NV_OK then (env_dma_alloc env 0 0, [])
      else if env_push_begin env j \<noteq> NV_OK then (env_push_begin env j, [])
      else if env_push_wait env j \<noteq> NV_OK then (env_push_wait env j, [])
      else case env_ce_encrypt env (env_key_version env j) (log_gpu_encryption env j) (gpu_bytes env ph n) of
        (c, t) \<Rightarrow> cpu_decrypt env (env_key_version env j) (log_gpu_encryption env j) c t)"

definition util_memcopy_gpu_to_cpu_encrypted ::
  "uvm_env \<Rightarrow> phys_addr \<Rightarrow> nat \<Rightarrow> nat \<Rightarrow> nv_status \<times> byte list \<times> crypto_meta option" where
  "util_memcopy_gpu_to_cpu_encrypted env ph n j =
     (if env_dma_alloc env 0 0 \<noteq> NV_OK then (env_dma_alloc env 0 0, [], None)
      else if env_push_begin env j \<noteq> NV_OK then (env_push_begin env j, [], None)
      else if env_push_wait env j \<noteq> NV_OK then (env_push_wait env j, [], None)
      else case env_ce_encrypt env (env_key_version env j) (log_gpu_encryption env j) (gpu_bytes env ph n) of
        (c, t) \<Rightarrow> (NV_OK, c, Some \<lparr>cm_size = 0, cm_iv = iv_bytes (log_gpu_encryption env j),
           cm_iv_fresh = iv_fresh (log_gpu_encryption env j), cm_auth_tag = t, cm_key_version = env_key_version env j\<rparr>))"

definition read_gpu_physical_memory :: "uvm_env \<Rightarrow> phys_addr \<Rightarrow> nat \<Rightarrow> nat \<Rightarrow> nv_status \<times> byte list" where
  "read_gpu_physical_memory env ph n j =
     (if env_cc env then util_memcopy_gpu_to_cpu env ph n j
      else if env_staging env j \<noteq> NV_OK then (env_staging env j, [])
      else if \<not> env_staging_va env j then (NV_ERR_INVALID_ADDRESS, [])
      else if env_map_phys env j \<noteq> NV_OK then (env_map_phys env j, [])
      else if env_push_begin env j \<noteq> NV_OK then (env_push_begin env j, [])
      else if env_push_wait env j \<noteq> NV_OK then (env_push_wait env j, [])
      else (NV_OK, gpu_bytes env ph n))"

definition zero_meta :: crypto_meta where
  "zero_meta = \<lparr>cm_size = 0, cm_iv = replicate 12 0, cm_iv_fresh = 0, cm_auth_tag = replicate 16 0, cm_key_version = 0\<rparr>"

definition read_gpu_physical_memory_encrypted ::
  "uvm_env \<Rightarrow> phys_addr \<Rightarrow> nat \<Rightarrow> nat \<Rightarrow> nv_status \<times> byte list \<times> crypto_meta option" where
  "read_gpu_physical_memory_encrypted env ph n j =
     (if \<not> env_cc env then (case read_gpu_physical_memory env ph n j of (st, bs) \<Rightarrow> (st, bs, Some zero_meta))
      else util_memcopy_gpu_to_cpu_encrypted env ph n j)"

text \<open>The run boundaries of the serial fallback, found on the fly (no arrays).\<close>

function coalesce_from :: "gpu_page list \<Rightarrow> nat \<Rightarrow> nat \<Rightarrow> (nat \<times> nat) list" where
  "coalesce_from pages mx i =
     (if i < length pages then
        (i, snd (extend_run pages mx i i PAGE_SIZE)) # coalesce_from pages mx (fst (extend_run pages mx i i PAGE_SIZE) + 1)
      else [])"
  by pat_completeness auto
termination
proof (relation "measure (\<lambda>(pages, mx, i). length pages - i)")
  fix pages :: "gpu_page list" and mx i :: nat
  assume "i < length pages"
  then show "((pages, mx, fst (extend_run pages mx i i PAGE_SIZE) + 1), pages, mx, i) \<in> measure (\<lambda>(pages, mx, i). length pages - i)"
    using extend_run_ge [of i pages mx i PAGE_SIZE] by auto
qed simp

declare coalesce_from.simps [simp del]

text \<open>The serial loop of the fallback; \<open>cc_cipher\<close> selects the variant of 111 and 113.\<close>

fun serial_loop :: "uvm_env \<Rightarrow> copy_cfg \<Rightarrow> (nat \<times> nat) list \<Rightarrow> nat \<Rightarrow> store \<Rightarrow> nv_status \<times> nat \<times> store" where
  "serial_loop env cfg [] j s = (NV_OK, j, s)"
| "serial_loop env cfg ((rs, rb) # rest) j s =
     (let ph = gp_phys (cc_pages cfg ! rs); a = u64 (cc_buf cfg + gp_off (cc_pages cfg ! rs));
          (st, bs, mo) = (if cc_cipher cfg then read_gpu_physical_memory_encrypted env ph rb j
                          else (case read_gpu_physical_memory env ph rb j of (st, bs) \<Rightarrow> (st, bs, None)))
      in if st \<noteq> NV_OK then (st, j, s)
         else let s1 = (case mo of None \<Rightarrow> s | Some m \<Rightarrow> s\<lparr>st_meta := (st_meta s)(j \<mapsto> m\<lparr>cm_size := rb\<rparr>)\<rparr>)
              in if cc_buf cfg = 0 then serial_loop env cfg rest (j + 1) s1
                 else if \<not> env_copy env a rb then (NV_ERR_INVALID_ARGUMENT, j, s1)
                 else serial_loop env cfg rest (j + 1) (s1\<lparr>st_mem := write_mem (st_mem s1) a bs\<rparr>))"

section \<open>Pass 2, single-threaded\<close>

definition serial_pass2 :: "uvm_env \<Rightarrow> bool \<Rightarrow> gpu_page list \<Rightarrow> nat \<Rightarrow> store \<Rightarrow> nv_status \<times> nat \<times> store" where
  "serial_pass2 env ci pages buf s =
     (let mx = (if env_alloc env A_bounce UVM_CONF_COMPUTING_DMA_BUFFER_SIZE then UVM_CONF_COMPUTING_DMA_BUFFER_SIZE
                else PAGE_SIZE);
          runs = coalesce_from pages mx 0
      in serial_loop env \<lparr>cc_pages = pages, cc_runs = runs, cc_buf = buf, cc_cipher = ci\<rparr> runs 0 s)"

definition pingpong_pass2 :: "uvm_env \<Rightarrow> bool \<Rightarrow> gpu_page list \<Rightarrow> nat \<Rightarrow> store \<Rightarrow> nv_status \<times> nat \<times> store" where
  "pingpong_pass2 env ci pages buf s =
     (if env_dma_alloc env 0 0 \<noteq> NV_OK then (env_dma_alloc env 0 0, 0, s)
      else if env_dma_alloc env 0 1 \<noteq> NV_OK then (env_dma_alloc env 0 1, 0, s)
      else case lm_mt_build_runs env pages UVM_CONF_COMPUTING_DMA_BUFFER_SIZE of
        Inl st \<Rightarrow> (st, 0, s)
      | Inr runs \<Rightarrow>
          let cfg = \<lparr>cc_pages = pages, cc_runs = runs, cc_buf = buf, cc_cipher = ci\<rparr>;
              p = ping_pong env (process_transfer env cfg) 0 (length runs)
          in (pp_status p, pp_nt p, fold run_action (pp_acts p) s))"

definition r109_pass2 :: "uvm_env \<Rightarrow> uvm_gpu option \<Rightarrow> gpu_page list \<Rightarrow> nat \<Rightarrow> store \<Rightarrow> nv_status \<times> nat \<times> store" where
  "r109_pass2 env gpu pages buf s =
     (if \<not> env_cc env \<or> gpu = None then serial_pass2 env False pages buf s
      else if \<not> env_alloc env A_plain_buf UVM_CONF_COMPUTING_DMA_BUFFER_SIZE then (NV_ERR_NO_MEMORY, 0, s)
      else pingpong_pass2 env False pages buf s)"

definition r111_pass2 :: "uvm_env \<Rightarrow> uvm_gpu option \<Rightarrow> gpu_page list \<Rightarrow> nat \<Rightarrow> store \<Rightarrow> nv_status \<times> nat \<times> store" where
  "r111_pass2 env gpu pages buf s =
     (if \<not> env_cc env \<or> gpu = None then serial_pass2 env True pages buf s
      else pingpong_pass2 env True pages buf s)"

definition v2_pass2 :: "uvm_env \<Rightarrow> uvm_gpu option \<Rightarrow> gpu_page list \<Rightarrow> nat \<Rightarrow> store \<Rightarrow> nv_status \<times> nat \<times> store" where
  "v2_pass2 env gpu pages buf s =
     (if \<not> env_cc env \<or> gpu = None then serial_pass2 env True pages buf s
      else pingpong_pass2 env True pages buf s)"

section \<open>Copying the residency map and the metadata\<close>

text \<open>The packed 41-byte metadata entry.\<close>

definition enc_meta :: "crypto_meta \<Rightarrow> byte list" where
  "enc_meta m = le_bytes 8 (cm_size m) @ cm_iv m @ [cm_iv_fresh m] @ cm_auth_tag m @ le_bytes 4 (cm_key_version m)"

abbreviation META_SIZE :: nat where "META_SIZE \<equiv> 41"

text \<open>Entries below the number of transfers are all filled when pass 2 succeeded.\<close>

definition meta_bytes :: "store \<Rightarrow> nat \<Rightarrow> byte list" where
  "meta_bytes s n = concat (map (\<lambda>i. case st_meta s i of Some m \<Rightarrow> enc_meta m | None \<Rightarrow> replicate META_SIZE 0) [0..<n])"

definition copy_resmap :: "uvm_env \<Rightarrow> read_params \<Rightarrow> byte list \<Rightarrow> mem \<Rightarrow> nv_status \<times> mem" where
  "copy_resmap env pr rm m =
     (if env_copy env (rp_residency_map pr) (n_pages pr) then (NV_OK, write_mem m (rp_residency_map pr) rm)
      else (NV_ERR_INVALID_ARGUMENT, m))"

definition copy_meta :: "uvm_env \<Rightarrow> read_params \<Rightarrow> nat \<Rightarrow> store \<Rightarrow> mem \<Rightarrow> nv_status \<times> mem" where
  "copy_meta env pr nt s m =
     (if nt = 0 \<or> rp_crypto_meta pr = 0 then (NV_OK, m)
      else if nt * META_SIZE > rp_crypto_meta_size pr then (NV_ERR_INVALID_ARGUMENT, m)
      else if \<not> env_copy env (rp_crypto_meta pr) (nt * META_SIZE) then (NV_ERR_INVALID_ARGUMENT, m)
      else (NV_OK, write_mem m (rp_crypto_meta pr) (meta_bytes s nt)))"

definition copy_results ::
  "uvm_env \<Rightarrow> bool \<Rightarrow> read_params \<Rightarrow> byte list \<Rightarrow> nat \<Rightarrow> store \<Rightarrow> nv_status \<times> mem" where
  "copy_results env ci pr rm nt s =
     (case copy_resmap env pr rm (st_mem s) of
        (st, m) \<Rightarrow> if st \<noteq> NV_OK then (st, m) else if ci then copy_meta env pr nt s m else (NV_OK, m))"

section \<open>The handlers\<close>

text \<open>
  The common exit of 109 and 111: byte counts and page number are reported on every path
  after the first allocation, the number of transfers on success only.
\<close>

definition exit109 :: "nv_status \<Rightarrow> read_params \<Rightarrow> p1 \<Rightarrow> nat option \<Rightarrow> mem \<Rightarrow> lock_op list \<Rightarrow> read_result" where
  "exit109 st pr s nt m ops =
     \<lparr>rr_status = st, rr_cpu_bytes = Some (p1_cpu_off s), rr_gpu_bytes = Some (p1_gpu_off s),
      rr_num_pages = Some (n_pages pr), rr_num_transfers = nt, rr_mem = m, rr_locks = ops\<rparr>"

definition uvm_api_live_migration_read_pages_resident :: "uvm_env \<Rightarrow> va_space list \<Rightarrow> read_params \<Rightarrow> mem \<Rightarrow> read_result" where
  "uvm_api_live_migration_read_pages_resident env vss pr m =
     (let p0 = p1_init (n_pages pr) (page_cap0 pr) m in
      if read_check env pr \<noteq> NV_OK then early_return (read_check env pr) m []
      else if \<not> env_alloc env A_page_buf PAGE_SIZE then early_return NV_ERR_NO_MEMORY m []
      else if \<not> env_alloc env A_resmap (n_pages pr) \<or> \<not> env_alloc env A_gpu_pages (page_cap0 pr)
           then exit109 NV_ERR_NO_MEMORY pr p0 None m []
      else let r = r109_pass1 env vss (rp_base pr) (rp_length pr) (rp_cpu_buf pr) (rp_gpu_uuid pr) p0; s1 = pr_p1 r
           in if p1_status s1 \<noteq> NV_OK then exit109 (p1_status s1) pr s1 None (p1_mem s1) (pr_locks r)
              else case r109_pass2 env (pr_gpu r) (p1_pages s1) (rp_gpu_buf pr) \<lparr>st_mem = p1_mem s1, st_meta = (\<lambda>_. None)\<rparr> of
                (st, nt, s2) \<Rightarrow>
                  if st \<noteq> NV_OK then exit109 st pr s1 None (st_mem s2) (pr_locks r)
                  else case copy_results env False pr (p1_resmap s1) nt s2 of
                    (st', m') \<Rightarrow> exit109 st' pr s1 None m' (pr_locks r))"

definition uvm_api_live_migration_read_pages_resident_encrypted ::
  "uvm_env \<Rightarrow> va_space list \<Rightarrow> read_params \<Rightarrow> mem \<Rightarrow> read_result" where
  "uvm_api_live_migration_read_pages_resident_encrypted env vss pr m =
     (let p0 = p1_init (n_pages pr) (page_cap0 pr) m in
      if read_check env pr \<noteq> NV_OK then early_return (read_check env pr) m []
      else if \<not> env_alloc env A_page_buf PAGE_SIZE then early_return NV_ERR_NO_MEMORY m []
      else if \<not> env_alloc env A_resmap (n_pages pr) \<or> \<not> env_alloc env A_gpu_pages (page_cap0 pr) \<or>
              \<not> env_alloc env A_crypto_meta (page_cap0 pr)
           then exit109 NV_ERR_NO_MEMORY pr p0 None m []
      else let r = r111_pass1 env vss (rp_base pr) (rp_length pr) (rp_cpu_buf pr) (rp_gpu_uuid pr) p0; s1 = pr_p1 r
           in if p1_status s1 \<noteq> NV_OK then exit109 (p1_status s1) pr s1 None (p1_mem s1) (pr_locks r)
              else case r111_pass2 env (pr_gpu r) (p1_pages s1) (rp_gpu_buf pr) \<lparr>st_mem = p1_mem s1, st_meta = (\<lambda>_. None)\<rparr> of
                (st, nt, s2) \<Rightarrow>
                  if st \<noteq> NV_OK then exit109 st pr s1 None (st_mem s2) (pr_locks r)
                  else case copy_results env True pr (p1_resmap s1) nt s2 of
                    (st', m') \<Rightarrow> exit109 st' pr s1 (if st' = NV_OK then Some nt else None) m' (pr_locks r))"

text \<open>The exits of 113 to 116 report their outputs on success only.\<close>

definition exit_ok :: "read_params \<Rightarrow> p1 \<Rightarrow> nat option \<Rightarrow> mem \<Rightarrow> lock_op list \<Rightarrow> read_result" where
  "exit_ok pr s nt m ops = exit109 NV_OK pr s nt m ops"

definition uvm_api_live_migration_read_pages_resident_encrypted_v2 ::
  "uvm_env \<Rightarrow> va_space list \<Rightarrow> read_params \<Rightarrow> mem \<Rightarrow> read_result" where
  "uvm_api_live_migration_read_pages_resident_encrypted_v2 env vss pr m =
     (let p0 = p1_init (n_pages pr) (page_cap0 pr) m in
      if read_check env pr \<noteq> NV_OK then early_return (read_check env pr) m []
      else if \<not> env_alloc env A_page_buf PAGE_SIZE \<or> \<not> env_alloc env A_resmap (n_pages pr) \<or>
              \<not> env_alloc env A_gpu_pages (page_cap0 pr) \<or> \<not> env_alloc env A_crypto_meta (page_cap0 pr)
           then early_return NV_ERR_NO_MEMORY m []
      else let r = v2_pass1 env vss (rp_base pr) (rp_length pr) (rp_cpu_buf pr) (rp_gpu_uuid pr) p0; s1 = pr_p1 r
           in if p1_status s1 \<noteq> NV_OK then early_return (p1_status s1) (p1_mem s1) (pr_locks r)
              else case v2_pass2 env (pr_gpu r) (p1_pages s1) (rp_gpu_buf pr) \<lparr>st_mem = p1_mem s1, st_meta = (\<lambda>_. None)\<rparr> of
                (st, nt, s2) \<Rightarrow>
                  if st \<noteq> NV_OK then early_return st (st_mem s2) (pr_locks r)
                  else case copy_results env True pr (p1_resmap s1) nt s2 of
                    (st', m') \<Rightarrow> if st' \<noteq> NV_OK then early_return st' m' (pr_locks r)
                                else exit_ok pr s1 (Some nt) m' (pr_locks r))"

text \<open>Coalescing and the workers; nothing is started when there is no GPU page.\<close>

definition mt_pass2 :: "uvm_env \<Rightarrow> bool \<Rightarrow> gpu_page list \<Rightarrow> read_params \<Rightarrow> store \<Rightarrow> nv_status \<times> nat \<times> store" where
  "mt_pass2 env ci pages pr s =
     (if pages = [] then (NV_OK, 0, s)
      else case lm_mt_build_runs env pages UVM_CONF_COMPUTING_DMA_BUFFER_SIZE of
        Inl st \<Rightarrow> (st, 0, s)
      | Inr runs \<Rightarrow>
          lm_mt_run_workers env \<lparr>cc_pages = pages, cc_runs = runs, cc_buf = rp_gpu_buf pr, cc_cipher = ci\<rparr>
            (rp_num_threads pr) s)"

definition uvm_api_live_migration_read_pages_resident_mt ::
  "uvm_env \<Rightarrow> va_space list \<Rightarrow> read_params \<Rightarrow> mem \<Rightarrow> read_result" where
  "uvm_api_live_migration_read_pages_resident_mt env vss pr m =
     (let p0 = p1_init (n_pages pr) (page_cap0 pr) m in
      if read_check env pr \<noteq> NV_OK then early_return (read_check env pr) m []
      else if \<not> env_cc env then
        (let fb = uvm_api_live_migration_read_pages_resident env vss pr m
         in fb\<lparr>rr_cpu_bytes := Some (case rr_cpu_bytes fb of Some n \<Rightarrow> n | None \<Rightarrow> 0),
               rr_gpu_bytes := Some (case rr_gpu_bytes fb of Some n \<Rightarrow> n | None \<Rightarrow> 0),
               rr_num_pages := Some (case rr_num_pages fb of Some n \<Rightarrow> n | None \<Rightarrow> 0)\<rparr>)
      else if \<not> env_alloc env A_page_buf PAGE_SIZE \<or> \<not> env_alloc env A_resmap (n_pages pr) \<or>
              \<not> env_alloc env A_gpu_pages (page_cap0 pr)
           then early_return NV_ERR_NO_MEMORY m []
      else let r = lm_mt_pass1 env False vss (rp_base pr) (rp_length pr) (rp_cpu_buf pr) (rp_gpu_uuid pr) p0; s1 = pr_p1 r
           in if p1_status s1 \<noteq> NV_OK then early_return (p1_status s1) (p1_mem s1) (pr_locks r)
              else if pr_gpu r = None then early_return NV_ERR_INVALID_DEVICE (p1_mem s1) (pr_locks r)
              else case mt_pass2 env False (p1_pages s1) pr \<lparr>st_mem = p1_mem s1, st_meta = (\<lambda>_. None)\<rparr> of
                (st, nt, s2) \<Rightarrow>
                  if st \<noteq> NV_OK then early_return st (st_mem s2) (pr_locks r)
                  else case copy_results env False pr (p1_resmap s1) nt s2 of
                    (st', m') \<Rightarrow> if st' \<noteq> NV_OK then early_return st' m' (pr_locks r)
                                else exit_ok pr s1 None m' (pr_locks r))"

text \<open>
  115 and 116 are two functions of the same text, apart from \<open>dirty_only\<close>. The metadata
  array is reallocated to the grown capacity; a capacity whose byte size overflows is refused.
\<close>

definition encrypted_mt_body :: "bool \<Rightarrow> uvm_env \<Rightarrow> va_space list \<Rightarrow> read_params \<Rightarrow> mem \<Rightarrow> read_result" where
  "encrypted_mt_body d env vss pr m =
     (let p0 = p1_init (n_pages pr) (page_cap0 pr) m in
      if read_check env pr \<noteq> NV_OK then early_return (read_check env pr) m []
      else if \<not> env_cc env then early_return NV_ERR_NOT_SUPPORTED m []
      else if \<not> env_alloc env A_page_buf PAGE_SIZE \<or> \<not> env_alloc env A_resmap (n_pages pr) \<or>
              \<not> env_alloc env A_gpu_pages (page_cap0 pr) \<or> \<not> env_alloc env A_crypto_meta (page_cap0 pr)
           then early_return NV_ERR_NO_MEMORY m []
      else let r = lm_mt_pass1 env d vss (rp_base pr) (rp_length pr) (rp_cpu_buf pr) (rp_gpu_uuid pr) p0; s1 = pr_p1 r
           in if p1_status s1 \<noteq> NV_OK then early_return (p1_status s1) (p1_mem s1) (pr_locks r)
              else if pr_gpu r = None then early_return NV_ERR_INVALID_DEVICE (p1_mem s1) (pr_locks r)
              else if p1_cap s1 > (2 ^ 64 - 1) div META_SIZE \<or> \<not> env_alloc env A_crypto_meta (p1_cap s1)
                   then early_return NV_ERR_NO_MEMORY (p1_mem s1) (pr_locks r)
              else case mt_pass2 env True (p1_pages s1) pr \<lparr>st_mem = p1_mem s1, st_meta = (\<lambda>_. None)\<rparr> of
                (st, nt, s2) \<Rightarrow>
                  if st \<noteq> NV_OK then early_return st (st_mem s2) (pr_locks r)
                  else case copy_results env True pr (p1_resmap s1) nt s2 of
                    (st', m') \<Rightarrow> if st' \<noteq> NV_OK then early_return st' m' (pr_locks r)
                                else exit_ok pr s1 (Some nt) m' (pr_locks r))"

definition uvm_api_live_migration_read_pages_resident_encrypted_mt ::
  "uvm_env \<Rightarrow> va_space list \<Rightarrow> read_params \<Rightarrow> mem \<Rightarrow> read_result" where
  "uvm_api_live_migration_read_pages_resident_encrypted_mt = encrypted_mt_body False"

definition uvm_api_live_migration_read_dirty_delta_encrypted_mt ::
  "uvm_env \<Rightarrow> va_space list \<Rightarrow> read_params \<Rightarrow> mem \<Rightarrow> read_result" where
  "uvm_api_live_migration_read_dirty_delta_encrypted_mt = encrypted_mt_body True"

end
