(* ===== verification/Read_Correct.thy ===== *)
theory Read_Correct
  imports Read_Ioctls
begin

text \<open>
  What the read ioctls deliver: the exact contents of user memory after a successful call,
  the agreement of the single-threaded and the multi-threaded variants, the errors, the
  balance of locks and the bounds of the outputs.
\<close>

section \<open>Reference definitions\<close>

text \<open>The plaintext of a request's GPU pages, in address order.\<close>

definition gpu_section :: "uvm_env \<Rightarrow> uvm_gpu option \<Rightarrow> (va_block \<times> nat) list \<Rightarrow> byte list" where
  "gpu_section env G V = concat (map (\<lambda>ph. gpu_bytes env ph PAGE_SIZE) (gpu_phys_list G V))"

definition read_cfg :: "bool \<Rightarrow> gpu_page list \<Rightarrow> nat \<Rightarrow> copy_cfg" where
  "read_cfg ci pages buf =
     \<lparr>cc_pages = pages, cc_runs = coalesce_from pages UVM_CONF_COMPUTING_DMA_BUFFER_SIZE 0, cc_buf = buf, cc_cipher = ci\<rparr>"

text \<open>The configuration a request leads to.\<close>

definition request_cfg :: "bool \<Rightarrow> bool \<Rightarrow> va_space list \<Rightarrow> read_params \<Rightarrow> copy_cfg" where
  "request_cfg ci d vss pr =
     read_cfg ci (gpu_list 0 (gpu_phys_list (request_gpu vss (rp_base pr) (rp_gpu_uuid pr)) (request_visits d vss (rp_base pr) (rp_length pr))))
       (rp_gpu_buf pr)"

definition all_meta :: "uvm_env \<Rightarrow> copy_cfg \<Rightarrow> byte list" where
  "all_meta env cfg = concat (map (\<lambda>j. enc_meta (transfer_meta env cfg j)) [0..<length (cc_runs cfg)])"

text \<open>Memory after the CPU pages, a GPU section and the residency map have been written.\<close>

definition read_image :: "bool \<Rightarrow> va_space list \<Rightarrow> read_params \<Rightarrow> byte list \<Rightarrow> mem \<Rightarrow> mem" where
  "read_image d vss pr g m =
     (let V = request_visits d vss (rp_base pr) (rp_length pr);
          m1 = (if rp_cpu_buf pr \<noteq> 0 then write_mem m (rp_cpu_buf pr) (cpu_section V) else m)
      in write_mem (write_mem m1 (rp_gpu_buf pr) g) (rp_residency_map pr)
           (request_resmap d vss (rp_base pr) (rp_length pr) (rp_gpu_uuid pr)))"

definition plain_image :: "bool \<Rightarrow> uvm_env \<Rightarrow> va_space list \<Rightarrow> read_params \<Rightarrow> mem \<Rightarrow> mem" where
  "plain_image d env vss pr m =
     read_image d vss pr (gpu_section env (request_gpu vss (rp_base pr) (rp_gpu_uuid pr)) (request_visits d vss (rp_base pr) (rp_length pr))) m"

definition cipher_image :: "bool \<Rightarrow> uvm_env \<Rightarrow> va_space list \<Rightarrow> read_params \<Rightarrow> mem \<Rightarrow> mem" where
  "cipher_image d env vss pr m =
     (let cfg = request_cfg True d vss pr;
          m1 = read_image d vss pr (concat (map (\<lambda>j. fst (ce_transfer env cfg j)) [0..<length (cc_runs cfg)])) m
      in if rp_crypto_meta pr \<noteq> 0 then write_mem m1 (rp_crypto_meta pr) (all_meta env cfg) else m1)"

text \<open>A request on well-formed va spaces whose buffers do not wrap.\<close>

definition params_ok :: "va_space list \<Rightarrow> read_params \<Rightarrow> bool" where
  "params_ok vss pr \<longleftrightarrow>
     request_ok vss (rp_base pr) (rp_length pr) (rp_cpu_buf pr) \<and>
     rp_gpu_buf pr \<noteq> 0 \<and> rp_gpu_buf pr + rp_length pr \<le> 2 ^ 64 \<and>
     (\<forall>vs \<in> set vss. \<forall>vb \<in> set (managed_blocks vs). \<forall>g gs pi.
        vb_gpu_state vb g = Some gs \<and> gs_resident gs pi \<longrightarrow> pa_address (gs_phys gs pi) + PAGE_SIZE < 2 ^ 64)"

section \<open>Coalescing on the fly is the same coalescing\<close>

lemma build_runs_loop_coalesce:
  "build_runs_loop env pages mx i rc acc = Inr runs \<Longrightarrow> runs = acc @ coalesce_from pages mx i"
proof (induction env pages mx i rc acc rule: build_runs_loop.induct)
  case (1 env pages mx i rc acc)
  obtain i' rb where e: "extend_run pages mx i i PAGE_SIZE = (i', rb)" by fastforce
  show ?case
  proof (cases "i < length pages")
    case True
    from "1.prems" "1.IH" [OF True refl e [symmetric] refl] e True show ?thesis
      unfolding build_runs_loop_step [OF True e refl, where env = env and acc = acc]
      by (subst coalesce_from.simps) (auto split: if_splits)
  next
    case False
    then show ?thesis
      using "1.prems" by (subst (asm) build_runs_loop.simps) (simp add: coalesce_from.simps)
  qed
qed

lemma build_runs_coalesce: "lm_mt_build_runs env pages mx = Inr runs \<Longrightarrow> runs = coalesce_from pages mx 0"
  using build_runs_loop_coalesce [of env pages mx 0 0 "[]"] by (simp add: lm_mt_build_runs_def)

lemma coalesce_build: "lm_mt_build_runs sample_env pages mx = Inr (coalesce_from pages mx 0)"
proof (cases "lm_mt_build_runs sample_env pages mx")
  case (Inl st)
  then show ?thesis
    using build_runs_loop_total [of sample_env pages mx 0 0 "[]" st] sample_env_mem by (simp add: lm_mt_build_runs_def)
next
  case (Inr runs)
  then show ?thesis using build_runs_coalesce by simp
qed

lemma build_runs_no_OK [simp]: "lm_mt_build_runs env pages mx \<noteq> Inl NV_OK"
  using build_runs_loop_total [of env pages mx 0 0 "[]" NV_OK] by (auto simp: lm_mt_build_runs_def)

lemmas coalesce_good = build_runs_good [OF coalesce_build]

lemma run_idx_length_bound:
  assumes "\<forall>r \<in> set rs. run_idx r \<noteq> []"
  shows "length rs \<le> length (concat (map run_idx rs))"
  using assms
proof (induction rs)
  case (Cons r rs)
  then have "1 \<le> length (run_idx r)" by (cases "run_idx r") auto
  with Cons show ?case by simp
qed simp

lemma coalesce_length: "length (coalesce_from pages mx 0) \<le> length pages"
  using run_idx_length_bound [of "coalesce_from pages mx 0"] run_idx_nonempty [OF coalesce_good(2)]
  by (metis coalesce_good(1) length_upt minus_nat.diff_0)

lemma coalesce_Nil [simp]: "coalesce_from [] mx 0 = []"
  by (simp add: coalesce_from.simps)

lemma good_run_mono: "good_run pages mx r \<Longrightarrow> mx \<le> mx' \<Longrightarrow> good_run pages mx' r"
  by (auto simp: good_run_def)

lemma gpu_list_phys: "p \<in> set (gpu_list off ps) \<Longrightarrow> gp_phys p \<in> set ps"
  by (induction ps arbitrary: off) auto

lemma read_cfg_ok:
  assumes "\<And>p. p \<in> set ps \<Longrightarrow> pa_address p + PAGE_SIZE < 2 ^ 64" "buf \<noteq> 0" "buf + length ps * PAGE_SIZE \<le> 2 ^ 64"
    and "mx \<le> UVM_CONF_COMPUTING_DMA_BUFFER_SIZE"
  shows "cfg_ok \<lparr>cc_pages = gpu_list 0 ps, cc_runs = coalesce_from (gpu_list 0 ps) mx 0, cc_buf = buf, cc_cipher = ci\<rparr>"
  using assms coalesce_good [where pages = "gpu_list 0 ps" and mx = mx]
  by (auto simp: cfg_ok_def nth_gpu_list phys_ok_def dest!: gpu_list_phys intro: good_run_mono)

section \<open>Pass 2 of a successful call\<close>

text \<open>The store after a successful pass 2.\<close>

definition pass2_store :: "uvm_env \<Rightarrow> copy_cfg \<Rightarrow> store \<Rightarrow> store" where
  "pass2_store env cfg s =
     s\<lparr>st_mem := write_mem (st_mem s) (cc_buf cfg) (concat (map (xfer_out env cfg) [0..<length (cc_runs cfg)])),
       st_meta := (\<lambda>i. if cc_cipher cfg \<and> i < length (cc_runs cfg) then Some (transfer_meta env cfg i) else st_meta s i)\<rparr>"

lemma pass2_store_Nil: "cc_runs cfg = [] \<Longrightarrow> pass2_store env cfg s = s"
  by (simp add: pass2_store_def)

lemma pingpong_pass2_success:
  assumes "pingpong_pass2 env ci pages buf s = (NV_OK, nt, s')" "cfg_ok (read_cfg ci pages buf)" "csl_ok env"
  shows "nt = length (cc_runs (read_cfg ci pages buf)) \<and> s' = pass2_store env (read_cfg ci pages buf) s"
proof -
  define cfg where "cfg = read_cfg ci pages buf"
  define nr where "nr = length (cc_runs cfg)"
  obtain runs where "lm_mt_build_runs env pages UVM_CONF_COMPUTING_DMA_BUFFER_SIZE = Inr runs"
    using assms(1) by (auto simp: pingpong_pass2_def split: if_splits sum.splits)
  then have b: "lm_mt_build_runs env pages UVM_CONF_COMPUTING_DMA_BUFFER_SIZE = Inr (cc_runs cfg)"
    using build_runs_coalesce by (simp add: cfg_def read_cfg_def)
  have c: "\<lparr>cc_pages = pages, cc_runs = cc_runs cfg, cc_buf = buf, cc_cipher = ci\<rparr> = cfg"
    by (simp add: cfg_def read_cfg_def)
  define p where "p = ping_pong env (process_transfer env cfg) 0 nr"
  have ok: "pp_status p = NV_OK" "nt = pp_nt p" "s' = fold run_action (pp_acts p) s"
    using assms(1) by (auto simp: pingpong_pass2_def b c p_def nr_def Let_def split: if_splits)
  note pp = ping_pong_success [OF process_transfer_data ok(1) [unfolded p_def], folded p_def]
  have "snd (process_transfer env cfg j) = (if cc_cipher cfg then [SetMeta j (transfer_meta env cfg j)] else []) @
      [CopyOut (run_addr cfg j) (xfer_out env cfg j)]" if "j < nr" for j
    by (rule process_transfer_effect [OF assms(3)])
       (use assms(2) [folded cfg_def] pp(3) that in \<open>auto simp: cfg_ok_def xfer_ok_def\<close>)
  then have "concat (map (\<lambda>j. snd (process_transfer env cfg (0 + j))) [0..<nr]) = seq_effects env cfg nr"
    unfolding seq_effects_def by (intro arg_cong [where f = concat] map_cong) auto
  then have "mset (data_acts (pp_acts p)) = mset (seq_effects env cfg nr)"
    using pp(1) by simp
  from schedule_seq_effects [OF assms(2) [folded cfg_def] assms(3) this] fold_seq_effects [OF assms(2) [folded cfg_def] assms(3), of nr s]
  show ?thesis
    using ok pp(2) by (simp add: nr_def pass2_store_def cfg_def [symmetric])
qed

lemma mt_pass2_success:
  assumes "mt_pass2 env ci pages pr s = (NV_OK, nt, s')" "cfg_ok (read_cfg ci pages (rp_gpu_buf pr))" "csl_ok env" "sched_ok env"
  shows "nt = length (cc_runs (read_cfg ci pages (rp_gpu_buf pr))) \<and> s' = pass2_store env (read_cfg ci pages (rp_gpu_buf pr)) s"
proof (cases "pages = []")
  case True
  then show ?thesis using assms(1) by (simp add: mt_pass2_def read_cfg_def pass2_store_Nil)
next
  case False
  then obtain runs where b: "lm_mt_build_runs env pages UVM_CONF_COMPUTING_DMA_BUFFER_SIZE = Inr runs"
    using assms(1) by (auto simp: mt_pass2_def split: if_splits sum.splits)
  with False build_runs_coalesce [OF b] assms(1)
  have "lm_mt_run_workers env (read_cfg ci pages (rp_gpu_buf pr)) (rp_num_threads pr) s = (NV_OK, nt, s')"
    by (simp add: mt_pass2_def read_cfg_def)
  from run_workers_success [OF this assms(2-4)] show ?thesis by (simp add: pass2_store_def)
qed

text \<open>The serial fallback: each read returns GPU memory, with and without confidential computing.\<close>

lemma read_gpu_physical_memory_correct:
  "csl_ok env \<Longrightarrow> read_gpu_physical_memory env ph n j = (NV_OK, bs) \<Longrightarrow> bs = gpu_bytes env ph n"
  using csl_okD(2) [of env "env_key_version env j" "log_gpu_encryption env j" "gpu_bytes env ph n"]
  by (auto simp: read_gpu_physical_memory_def util_memcopy_gpu_to_cpu_def cpu_decrypt_def split: if_splits prod.splits)

lemma serial_loop_effects:
  assumes "serial_loop env cfg (drop j (cc_runs cfg)) j s = (NV_OK, nt, s')"
    and "\<not> cc_cipher cfg" "cc_buf cfg \<noteq> 0" "csl_ok env" "j \<le> length (cc_runs cfg)"
  shows "nt = length (cc_runs cfg) \<and>
    s' = fold run_action (map (\<lambda>j. CopyOut (run_addr cfg j) (run_plain env cfg j)) [j..<length (cc_runs cfg)]) s"
  using assms
proof (induction "length (cc_runs cfg) - j" arbitrary: j s)
  case 0
  then show ?case by simp
next
  case (Suc n)
  then have lt: "j < length (cc_runs cfg)" by simp
  obtain rs rb where r: "cc_runs cfg ! j = (rs, rb)" by fastforce
  then have dr: "drop j (cc_runs cfg) = (rs, rb) # drop (j + 1) (cc_runs cfg)"
    using lt Cons_nth_drop_Suc [of j "cc_runs cfg"] by simp
  obtain bs where rd: "read_gpu_physical_memory env (gp_phys (cc_pages cfg ! rs)) rb j = (NV_OK, bs)"
    and rest: "serial_loop env cfg (drop (j + 1) (cc_runs cfg)) (j + 1)
        (s\<lparr>st_mem := write_mem (st_mem s) (run_addr cfg j) bs\<rparr>) = (NV_OK, nt, s')"
    using Suc.prems(1-3) unfolding dr
    by (cases "read_gpu_physical_memory env (gp_phys (cc_pages cfg ! rs)) rb j")
       (auto simp: Let_def run_addr_def r split: if_splits)
  have bs: "bs = run_plain env cfg j"
    using read_gpu_physical_memory_correct [OF Suc.prems(4) rd] by (simp add: run_plain_def r)
  from Suc.hyps(1) [OF _ rest Suc.prems(2-4)] Suc.hyps(2) lt bs show ?case
    by (simp add: upt_conv_Cons [of j])
qed

lemma serial_plain_success:
  assumes "serial_loop env cfg (cc_runs cfg) 0 s = (NV_OK, nt, s')" "cfg_ok cfg" "csl_ok env" "\<not> cc_cipher cfg"
  shows "s' = s\<lparr>st_mem := write_mem (st_mem s) (cc_buf cfg) (concat (map (page_bytes env) (cc_pages cfg)))\<rparr>"
proof -
  have "s' = fold run_action (seq_effects env cfg (length (cc_runs cfg))) s"
    using serial_loop_effects [of env cfg 0 s nt s'] assms by (simp add: cfg_ok_def seq_effects_def xfer_out_def)
  moreover have "xfer_out env cfg = run_plain env cfg"
    using assms(4) by (simp add: xfer_out_def fun_eq_iff)
  ultimately show ?thesis
    using fold_seq_effects [OF assms(2,3) order_refl, of s] plain_concat [OF assms(2)] assms(4) by simp
qed

lemma pass2_store_plain:
  assumes "cfg_ok (read_cfg False pages buf)"
  shows "pass2_store env (read_cfg False pages buf) s = s\<lparr>st_mem := write_mem (st_mem s) buf (concat (map (page_bytes env) pages))\<rparr>"
proof -
  have "xfer_out env (read_cfg False pages buf) = run_plain env (read_cfg False pages buf)"
    by (simp add: xfer_out_def fun_eq_iff read_cfg_def)
  with plain_concat [OF assms] show ?thesis by (simp add: pass2_store_def) (simp add: read_cfg_def)
qed

text \<open>Pages inside the address space and a GPU buffer that does not wrap.\<close>

definition pages_ok :: "gpu_page list \<Rightarrow> nat \<Rightarrow> bool" where
  "pages_ok pages buf \<longleftrightarrow> (\<exists>ps. pages = gpu_list 0 ps \<and> (\<forall>p \<in> set ps. pa_address p + PAGE_SIZE < 2 ^ 64) \<and>
     buf \<noteq> 0 \<and> buf + length ps * PAGE_SIZE \<le> 2 ^ 64)"

lemma pages_ok_cfg:
  "pages_ok pages buf \<Longrightarrow> mx \<le> UVM_CONF_COMPUTING_DMA_BUFFER_SIZE \<Longrightarrow>
   cfg_ok \<lparr>cc_pages = pages, cc_runs = coalesce_from pages mx 0, cc_buf = buf, cc_cipher = ci\<rparr>"
  by (auto simp: pages_ok_def intro!: read_cfg_ok)

lemma pages_ok_read_cfg: "pages_ok pages buf \<Longrightarrow> cfg_ok (read_cfg ci pages buf)"
  by (simp add: read_cfg_def pages_ok_cfg)

lemma r109_pass2_success:
  assumes "r109_pass2 env gpu pages buf s = (NV_OK, nt, s')" "pages_ok pages buf" "csl_ok env"
  shows "s' = s\<lparr>st_mem := write_mem (st_mem s) buf (concat (map (page_bytes env) pages))\<rparr>"
proof (cases "\<not> env_cc env \<or> gpu = None")
  case True
  define mx where "mx = (if env_alloc env A_bounce UVM_CONF_COMPUTING_DMA_BUFFER_SIZE then UVM_CONF_COMPUTING_DMA_BUFFER_SIZE else PAGE_SIZE)"
  have "cfg_ok \<lparr>cc_pages = pages, cc_runs = coalesce_from pages mx 0, cc_buf = buf, cc_cipher = False\<rparr>"
    by (rule pages_ok_cfg [OF assms(2)]) (simp add: mx_def)
  from serial_plain_success [OF _ this assms(3), of s nt s'] assms(1) True show ?thesis
    by (simp add: r109_pass2_def serial_pass2_def mx_def [symmetric] Let_def)
next
  case False
  then have "pingpong_pass2 env False pages buf s = (NV_OK, nt, s')"
    using assms(1) by (auto simp: r109_pass2_def split: if_splits)
  from pingpong_pass2_success [OF this pages_ok_read_cfg [OF assms(2)] assms(3)] pass2_store_plain [OF pages_ok_read_cfg [OF assms(2)]]
  show ?thesis by simp
qed

section \<open>Pass 1 as the handlers see it\<close>

lemma request_phys_bound:
  assumes "params_ok vss pr" "ph \<in> set (gpu_phys_list G (request_visits d vss (rp_base pr) (rp_length pr)))"
  shows "pa_address ph + PAGE_SIZE < 2 ^ 64"
proof -
  obtain vb va where v: "(vb, va) \<in> set (request_visits d vss (rp_base pr) (rp_length pr))" "gpu_visit G (vb, va)"
    "ph = visit_phys G (vb, va)"
    using assms(2) by (auto simp: gpu_phys_list_def)
  obtain i vs where f: "find_va_space vss (rp_base pr) 0 = Some (i, vs)"
    using v(1) by (cases "find_va_space vss (rp_base pr) 0") (auto simp: request_visits_def)
  have vs: "vs \<in> set vss" using f by (rule find_va_space_mem)
  then have "vs_wf vs" using assms(1) by (simp add: params_ok_def request_ok_def)
  then have vb: "vb \<in> set (managed_blocks vs)"
    using v(1) f scan_list_mem(1) blocks_in_wf(2) by (fastforce simp: request_visits_def)
  obtain g gs where "G = Some g" "vb_gpu_state vb (gpu_id g) = Some gs" "gs_resident gs (page_index vb va)"
    using v(2) by (auto simp: gpu_visit_def is_gpu_page_def split: option.splits)
  with v(3) vs vb assms(1) show ?thesis
    by (auto simp: visit_phys_def page_phys_def gpu_st_def params_ok_def)
qed

lemma request_pages_ok:
  assumes "params_ok vss pr"
  shows "pages_ok (gpu_list 0 (gpu_phys_list G (request_visits d vss (rp_base pr) (rp_length pr)))) (rp_gpu_buf pr)"
proof -
  have "PAGE_SIZE * length (gpu_phys_list G (request_visits d vss (rp_base pr) (rp_length pr))) \<le> rp_length pr"
    using request_parts_bound [of vss "rp_base pr" "rp_length pr" "rp_cpu_buf pr" d G] assms
    by (simp add: params_ok_def gpu_phys_list_def)
  with request_phys_bound [OF assms] assms show ?thesis
    by (auto simp: pages_ok_def params_ok_def intro!: exI [of _ "gpu_phys_list G (request_visits d vss (rp_base pr) (rp_length pr))"])
qed

text \<open>Memory after the CPU pages have been written.\<close>

definition cpu_image :: "bool \<Rightarrow> va_space list \<Rightarrow> read_params \<Rightarrow> mem \<Rightarrow> mem" where
  "cpu_image d vss pr m =
     (if rp_cpu_buf pr \<noteq> 0 then write_mem m (rp_cpu_buf pr) (cpu_section (request_visits d vss (rp_base pr) (rp_length pr))) else m)"

lemma handler_pass1:
  assumes "p1_status (pr_p1 (pass1 env gm d vss (rp_base pr) (rp_length pr) (rp_cpu_buf pr) (rp_gpu_uuid pr) (p1_init (n_pages pr) cap m))) = NV_OK"
    and "params_ok vss pr"
  defines "r \<equiv> pass1 env gm d vss (rp_base pr) (rp_length pr) (rp_cpu_buf pr) (rp_gpu_uuid pr) (p1_init (n_pages pr) cap m)"
    and "V \<equiv> request_visits d vss (rp_base pr) (rp_length pr)" and "G \<equiv> request_gpu vss (rp_base pr) (rp_gpu_uuid pr)"
  shows "p1_pages (pr_p1 r) = gpu_list 0 (gpu_phys_list G V)" "p1_mem (pr_p1 r) = cpu_image d vss pr m"
    and "p1_resmap (pr_p1 r) = request_resmap d vss (rp_base pr) (rp_length pr) (rp_gpu_uuid pr)"
    and "p1_cpu_off (pr_p1 r) = length (cpu_section V)" "p1_gpu_off (pr_p1 r) = length (gpu_section env G V)"
    and "pr_gpu r = G" "pages_ok (p1_pages (pr_p1 r)) (rp_gpu_buf pr)"
proof -
  have req: "request_ok vss (rp_base pr) (rp_length pr) (rp_cpu_buf pr)" using assms(2) by (simp add: params_ok_def)
  note f = pass1_facts [OF assms(1) [unfolded n_pages_def] req, folded n_pages_def, folded r_def V_def G_def]
  show "p1_pages (pr_p1 r) = gpu_list 0 (gpu_phys_list G V)" by (rule f(3))
  then show "pages_ok (p1_pages (pr_p1 r)) (rp_gpu_buf pr)" using request_pages_ok [OF assms(2)] by (simp add: V_def)
  show "p1_mem (pr_p1 r) = cpu_image d vss pr m" using f(4) by (simp add: cpu_image_def V_def)
  show "p1_resmap (pr_p1 r) = request_resmap d vss (rp_base pr) (rp_length pr) (rp_gpu_uuid pr)"
    using f(5) by (simp add: request_resmap_def V_def G_def n_pages_def)
  show "p1_cpu_off (pr_p1 r) = length (cpu_section V)" using f(1) by simp
  show "p1_gpu_off (pr_p1 r) = length (gpu_section env G V)"
    using f(2) by (simp add: gpu_section_def gpu_phys_list_def length_concat o_def sum_list_triv)
  show "pr_gpu r = G" by (rule f(6))
qed

lemma gpu_list_bytes: "concat (map (page_bytes env) (gpu_list off ps)) = concat (map (\<lambda>ph. gpu_bytes env ph PAGE_SIZE) ps)"
  by (induction ps arbitrary: off) (auto simp: page_bytes_def)

lemma read_image_alt:
  "read_image d vss pr g m = write_mem (write_mem (cpu_image d vss pr m) (rp_gpu_buf pr) g) (rp_residency_map pr)
     (request_resmap d vss (rp_base pr) (rp_length pr) (rp_gpu_uuid pr))"
  by (simp add: read_image_def cpu_image_def Let_def)

lemma copy_results_plain: "copy_results env False pr rm nt s = (NV_OK, m') \<Longrightarrow> m' = write_mem (st_mem s) (rp_residency_map pr) rm"
  by (auto simp: copy_results_def copy_resmap_def split: if_splits)

lemma pass2_plain_image:
  assumes "p1_pages s1 = gpu_list 0 (gpu_phys_list G V)" "p1_mem s1 = cpu_image d vss pr m"
    and "p1_resmap s1 = request_resmap d vss (rp_base pr) (rp_length pr) (rp_gpu_uuid pr)"
    and "V = request_visits d vss (rp_base pr) (rp_length pr)" "G = request_gpu vss (rp_base pr) (rp_gpu_uuid pr)"
    and "st_mem s2 = write_mem (p1_mem s1) (rp_gpu_buf pr) (concat (map (page_bytes env) (p1_pages s1)))"
    and "copy_results env False pr (p1_resmap s1) nt s2 = (NV_OK, m')"
  shows "m' = plain_image d env vss pr m"
  using copy_results_plain [OF assms(7)] assms(1-6)
  by (simp add: plain_image_def read_image_alt gpu_section_def gpu_list_bytes)

text \<open>The plaintext handlers.\<close>

lemma resident_109_success:
  assumes "params_ok vss pr" "csl_ok env"
    and "rr_status (uvm_api_live_migration_read_pages_resident env vss pr m) = NV_OK"
  shows "rr_mem (uvm_api_live_migration_read_pages_resident env vss pr m) = plain_image False env vss pr m \<and>
    rr_cpu_bytes (uvm_api_live_migration_read_pages_resident env vss pr m) =
      Some (length (cpu_section (request_visits False vss (rp_base pr) (rp_length pr)))) \<and>
    rr_gpu_bytes (uvm_api_live_migration_read_pages_resident env vss pr m) =
      Some (length (gpu_section env (request_gpu vss (rp_base pr) (rp_gpu_uuid pr)) (request_visits False vss (rp_base pr) (rp_length pr)))) \<and>
    rr_num_pages (uvm_api_live_migration_read_pages_resident env vss pr m) = Some (n_pages pr)"
proof -
  define r where "r = pass1 env False False vss (rp_base pr) (rp_length pr) (rp_cpu_buf pr) (rp_gpu_uuid pr) (p1_init (n_pages pr) (page_cap0 pr) m)"
  obtain nt s2 m' where ok: "p1_status (pr_p1 r) = NV_OK"
    "r109_pass2 env (pr_gpu r) (p1_pages (pr_p1 r)) (rp_gpu_buf pr) \<lparr>st_mem = p1_mem (pr_p1 r), st_meta = (\<lambda>_. None)\<rparr> = (NV_OK, nt, s2)"
    "copy_results env False pr (p1_resmap (pr_p1 r)) nt s2 = (NV_OK, m')"
    and res: "uvm_api_live_migration_read_pages_resident env vss pr m = exit109 NV_OK pr (pr_p1 r) None m' (pr_locks r)"
    using assms(3)
    by (auto simp: uvm_api_live_migration_read_pages_resident_def r109_pass1_def r_def [symmetric] early_return_def exit109_def Let_def
        split: if_splits prod.splits)
  note f = handler_pass1 [OF ok(1) [unfolded r_def] assms(1), folded r_def]
  have "m' = plain_image False env vss pr m"
    by (rule pass2_plain_image [OF f(1-3) refl refl _ ok(3)]) (use r109_pass2_success [OF ok(2) f(7) assms(2)] in simp)
  with res f(4,5) show ?thesis by (simp add: exit109_def)
qed

lemma mt_114_success:
  assumes "params_ok vss pr" "csl_ok env" "sched_ok env"
    and "rr_status (uvm_api_live_migration_read_pages_resident_mt env vss pr m) = NV_OK"
  shows "rr_mem (uvm_api_live_migration_read_pages_resident_mt env vss pr m) = plain_image False env vss pr m \<and>
    rr_cpu_bytes (uvm_api_live_migration_read_pages_resident_mt env vss pr m) =
      Some (length (cpu_section (request_visits False vss (rp_base pr) (rp_length pr)))) \<and>
    rr_gpu_bytes (uvm_api_live_migration_read_pages_resident_mt env vss pr m) =
      Some (length (gpu_section env (request_gpu vss (rp_base pr) (rp_gpu_uuid pr)) (request_visits False vss (rp_base pr) (rp_length pr)))) \<and>
    rr_num_pages (uvm_api_live_migration_read_pages_resident_mt env vss pr m) = Some (n_pages pr)"
proof (cases "env_cc env")
  case False
  have chk: "read_check env pr = NV_OK"
    using assms(4) by (auto simp: uvm_api_live_migration_read_pages_resident_mt_def early_return_def Let_def split: if_splits)
  then have "rr_status (uvm_api_live_migration_read_pages_resident env vss pr m) = NV_OK"
    using assms(4) False by (simp add: uvm_api_live_migration_read_pages_resident_mt_def Let_def)
  from resident_109_success [OF assms(1,2) this] False chk show ?thesis
    by (simp add: uvm_api_live_migration_read_pages_resident_mt_def Let_def)
next
  case True
  define r where "r = pass1 env False False vss (rp_base pr) (rp_length pr) (rp_cpu_buf pr) (rp_gpu_uuid pr) (p1_init (n_pages pr) (page_cap0 pr) m)"
  obtain nt s2 m' where ok: "p1_status (pr_p1 r) = NV_OK"
    "mt_pass2 env False (p1_pages (pr_p1 r)) pr \<lparr>st_mem = p1_mem (pr_p1 r), st_meta = (\<lambda>_. None)\<rparr> = (NV_OK, nt, s2)"
    "copy_results env False pr (p1_resmap (pr_p1 r)) nt s2 = (NV_OK, m')"
    and res: "uvm_api_live_migration_read_pages_resident_mt env vss pr m = exit_ok pr (pr_p1 r) None m' (pr_locks r)"
    using assms(4) True
    by (auto simp: uvm_api_live_migration_read_pages_resident_mt_def lm_mt_pass1_def r_def [symmetric] early_return_def exit_ok_def Let_def
        split: if_splits prod.splits)
  note f = handler_pass1 [OF ok(1) [unfolded r_def] assms(1), folded r_def]
  have c: "cfg_ok (read_cfg False (p1_pages (pr_p1 r)) (rp_gpu_buf pr))" by (rule pages_ok_read_cfg [OF f(7)])
  have "m' = plain_image False env vss pr m"
    by (rule pass2_plain_image [OF f(1-3) refl refl _ ok(3)])
       (use mt_pass2_success [OF ok(2) c assms(2,3)] pass2_store_plain [OF c] in simp)
  with res f(4,5) show ?thesis by (simp add: exit_ok_def exit109_def)
qed

text \<open>The ciphertext handlers, under confidential computing.\<close>

lemma copy_results_cipher:
  "copy_results env True pr rm nt s = (NV_OK, m') \<Longrightarrow>
   m' = (let m1 = write_mem (st_mem s) (rp_residency_map pr) rm in
     if nt = 0 \<or> rp_crypto_meta pr = 0 then m1 else write_mem m1 (rp_crypto_meta pr) (meta_bytes s nt)) \<and>
   (rp_crypto_meta pr \<noteq> 0 \<longrightarrow> nt * META_SIZE \<le> rp_crypto_meta_size pr)"
  by (auto simp: copy_results_def copy_resmap_def copy_meta_def Let_def split: if_splits)

lemma meta_bytes_pass2:
  "cc_cipher cfg \<Longrightarrow> meta_bytes (pass2_store env cfg s) (length (cc_runs cfg)) = all_meta env cfg"
  unfolding meta_bytes_def all_meta_def by (intro arg_cong [where f = concat] map_cong) (auto simp: pass2_store_def)

lemma pass2_cipher_image:
  assumes "p1_pages s1 = gpu_list 0 (gpu_phys_list G V)" "p1_mem s1 = cpu_image d vss pr m"
    and "p1_resmap s1 = request_resmap d vss (rp_base pr) (rp_length pr) (rp_gpu_uuid pr)"
    and "V = request_visits d vss (rp_base pr) (rp_length pr)" "G = request_gpu vss (rp_base pr) (rp_gpu_uuid pr)"
    and "nt = length (cc_runs (read_cfg True (p1_pages s1) (rp_gpu_buf pr))) \<and>
         s2 = pass2_store env (read_cfg True (p1_pages s1) (rp_gpu_buf pr)) \<lparr>st_mem = p1_mem s1, st_meta = (\<lambda>_. None)\<rparr>"
    and "copy_results env True pr (p1_resmap s1) nt s2 = (NV_OK, m')"
  shows "m' = cipher_image d env vss pr m \<and> nt = length (cc_runs (request_cfg True d vss pr)) \<and>
    (rp_crypto_meta pr \<noteq> 0 \<longrightarrow> nt * META_SIZE \<le> rp_crypto_meta_size pr)"
proof -
  have c: "read_cfg True (p1_pages s1) (rp_gpu_buf pr) = request_cfg True d vss pr"
    by (simp add: request_cfg_def assms(1,4,5))
  have ci: "cc_cipher (request_cfg True d vss pr)" "cc_buf (request_cfg True d vss pr) = rp_gpu_buf pr"
    by (simp_all add: request_cfg_def read_cfg_def)
  have x: "xfer_out env (request_cfg True d vss pr) = (\<lambda>j. fst (ce_transfer env (request_cfg True d vss pr) j))"
    by (simp add: xfer_out_def ci fun_eq_iff)
  have mem: "st_mem s2 = write_mem (cpu_image d vss pr m) (rp_gpu_buf pr)
      (concat (map (\<lambda>j. fst (ce_transfer env (request_cfg True d vss pr) j)) [0..<length (cc_runs (request_cfg True d vss pr))]))"
    using assms(6) by (simp add: c pass2_store_def assms(2) ci x)
  have mb: "meta_bytes s2 nt = all_meta env (request_cfg True d vss pr)"
    using assms(6) meta_bytes_pass2 [OF ci(1)] by (simp add: c)
  have nil: "nt = 0 \<Longrightarrow> all_meta env (request_cfg True d vss pr) = []"
    using assms(6) by (simp add: c all_meta_def)
  show ?thesis
    using copy_results_cipher [OF assms(7)] assms(6) mem mb nil
    by (auto simp: cipher_image_def read_image_alt Let_def c assms(3))
qed

lemma encrypted_mt_success:
  assumes "params_ok vss pr" "csl_ok env" "sched_ok env"
    and "rr_status (encrypted_mt_body d env vss pr m) = NV_OK"
  shows "rr_mem (encrypted_mt_body d env vss pr m) = cipher_image d env vss pr m \<and>
    rr_num_transfers (encrypted_mt_body d env vss pr m) = Some (length (cc_runs (request_cfg True d vss pr))) \<and>
    (rp_crypto_meta pr \<noteq> 0 \<longrightarrow> length (cc_runs (request_cfg True d vss pr)) * META_SIZE \<le> rp_crypto_meta_size pr)"
proof -
  define r where "r = pass1 env False d vss (rp_base pr) (rp_length pr) (rp_cpu_buf pr) (rp_gpu_uuid pr) (p1_init (n_pages pr) (page_cap0 pr) m)"
  obtain nt s2 m' where ok: "p1_status (pr_p1 r) = NV_OK"
    "mt_pass2 env True (p1_pages (pr_p1 r)) pr \<lparr>st_mem = p1_mem (pr_p1 r), st_meta = (\<lambda>_. None)\<rparr> = (NV_OK, nt, s2)"
    "copy_results env True pr (p1_resmap (pr_p1 r)) nt s2 = (NV_OK, m')"
    and res: "encrypted_mt_body d env vss pr m = exit_ok pr (pr_p1 r) (Some nt) m' (pr_locks r)"
    using assms(4)
    by (auto simp: encrypted_mt_body_def lm_mt_pass1_def r_def [symmetric] early_return_def exit_ok_def Let_def split: if_splits prod.splits)
  note f = handler_pass1 [OF ok(1) [unfolded r_def] assms(1), folded r_def]
  have c: "cfg_ok (read_cfg True (p1_pages (pr_p1 r)) (rp_gpu_buf pr))" by (rule pages_ok_read_cfg [OF f(7)])
  from pass2_cipher_image [OF f(1-3) refl refl mt_pass2_success [OF ok(2) c assms(2,3)] ok(3)] res
  show ?thesis by (auto simp: exit_ok_def exit109_def)
qed

text \<open>Without a GPU no page is a GPU page.\<close>

lemma no_gpu_no_pages: "gpu_phys_list None V = []"
  by (simp add: gpu_phys_list_def gpu_visit_def is_gpu_page_def)

lemma encrypted_pass2_success:
  assumes "r111_pass2 env G (gpu_list 0 (gpu_phys_list G V)) buf s = (NV_OK, nt, s')" "env_cc env" "csl_ok env"
    and "pages_ok (gpu_list 0 (gpu_phys_list G V)) buf"
  shows "nt = length (cc_runs (read_cfg True (gpu_list 0 (gpu_phys_list G V)) buf)) \<and>
    s' = pass2_store env (read_cfg True (gpu_list 0 (gpu_phys_list G V)) buf) s"
proof (cases "G = None")
  case True
  then show ?thesis
    using assms(1) by (simp add: r111_pass2_def serial_pass2_def no_gpu_no_pages read_cfg_def pass2_store_Nil)
next
  case False
  then have "pingpong_pass2 env True (gpu_list 0 (gpu_phys_list G V)) buf s = (NV_OK, nt, s')"
    using assms(1,2) by (auto simp: r111_pass2_def)
  from pingpong_pass2_success [OF this pages_ok_read_cfg [OF assms(4)] assms(3)] show ?thesis .
qed

lemma encrypted_111_success:
  assumes "params_ok vss pr" "csl_ok env" "env_cc env"
    and "rr_status (uvm_api_live_migration_read_pages_resident_encrypted env vss pr m) = NV_OK"
  shows "rr_mem (uvm_api_live_migration_read_pages_resident_encrypted env vss pr m) = cipher_image False env vss pr m \<and>
    rr_num_transfers (uvm_api_live_migration_read_pages_resident_encrypted env vss pr m) =
      Some (length (cc_runs (request_cfg True False vss pr)))"
proof -
  define r where "r = pass1 env True False vss (rp_base pr) (rp_length pr) (rp_cpu_buf pr) (rp_gpu_uuid pr) (p1_init (n_pages pr) (page_cap0 pr) m)"
  obtain nt s2 m' where ok: "p1_status (pr_p1 r) = NV_OK"
    "r111_pass2 env (pr_gpu r) (p1_pages (pr_p1 r)) (rp_gpu_buf pr) \<lparr>st_mem = p1_mem (pr_p1 r), st_meta = (\<lambda>_. None)\<rparr> = (NV_OK, nt, s2)"
    "copy_results env True pr (p1_resmap (pr_p1 r)) nt s2 = (NV_OK, m')"
    and res: "uvm_api_live_migration_read_pages_resident_encrypted env vss pr m = exit109 NV_OK pr (pr_p1 r) (Some nt) m' (pr_locks r)"
    using assms(4)
    by (auto simp: uvm_api_live_migration_read_pages_resident_encrypted_def r111_pass1_def r_def [symmetric] early_return_def exit109_def Let_def
        split: if_splits prod.splits)
  note f = handler_pass1 [OF ok(1) [unfolded r_def] assms(1), folded r_def]
  from pass2_cipher_image [OF f(1-3) refl refl _ ok(3)]
    encrypted_pass2_success [OF ok(2) [unfolded f(1,6)] assms(3,2) f(7) [unfolded f(1)]] res f(1)
  show ?thesis by (auto simp: exit109_def)
qed

lemma encrypted_v2_success:
  assumes "params_ok vss pr" "csl_ok env" "env_cc env"
    and "rr_status (uvm_api_live_migration_read_pages_resident_encrypted_v2 env vss pr m) = NV_OK"
  shows "rr_mem (uvm_api_live_migration_read_pages_resident_encrypted_v2 env vss pr m) = cipher_image False env vss pr m \<and>
    rr_num_transfers (uvm_api_live_migration_read_pages_resident_encrypted_v2 env vss pr m) =
      Some (length (cc_runs (request_cfg True False vss pr)))"
proof -
  define r where "r = pass1 env True False vss (rp_base pr) (rp_length pr) (rp_cpu_buf pr) (rp_gpu_uuid pr) (p1_init (n_pages pr) (page_cap0 pr) m)"
  obtain nt s2 m' where ok: "p1_status (pr_p1 r) = NV_OK"
    "v2_pass2 env (pr_gpu r) (p1_pages (pr_p1 r)) (rp_gpu_buf pr) \<lparr>st_mem = p1_mem (pr_p1 r), st_meta = (\<lambda>_. None)\<rparr> = (NV_OK, nt, s2)"
    "copy_results env True pr (p1_resmap (pr_p1 r)) nt s2 = (NV_OK, m')"
    and res: "uvm_api_live_migration_read_pages_resident_encrypted_v2 env vss pr m = exit_ok pr (pr_p1 r) (Some nt) m' (pr_locks r)"
    using assms(4)
    by (auto simp: uvm_api_live_migration_read_pages_resident_encrypted_v2_def v2_pass1_def r_def [symmetric] early_return_def exit_ok_def Let_def
        split: if_splits prod.splits)
  note f = handler_pass1 [OF ok(1) [unfolded r_def] assms(1), folded r_def]
  have p2: "r111_pass2 env (pr_gpu r) (p1_pages (pr_p1 r)) (rp_gpu_buf pr) \<lparr>st_mem = p1_mem (pr_p1 r), st_meta = (\<lambda>_. None)\<rparr> = (NV_OK, nt, s2)"
    using ok(2) by (simp add: v2_pass2_def r111_pass2_def)
  from pass2_cipher_image [OF f(1-3) refl refl _ ok(3)]
    encrypted_pass2_success [OF p2 [unfolded f(1,6)] assms(3,2) f(7) [unfolded f(1)]] res f(1)
  show ?thesis by (auto simp: exit_ok_def exit109_def)
qed

section \<open>Locks, errors and liveness\<close>

lemma no_locks_balanced [simp]: "locks_balanced []"
  by (simp add: locks_balanced_def)

lemma read_locks:
  "locks_balanced (rr_locks (uvm_api_live_migration_read_pages_resident env vss pr m))"
  "locks_balanced (rr_locks (uvm_api_live_migration_read_pages_resident_encrypted env vss pr m))"
  "locks_balanced (rr_locks (uvm_api_live_migration_read_pages_resident_encrypted_v2 env vss pr m))"
  "locks_balanced (rr_locks (encrypted_mt_body d env vss pr m))"
  by (auto simp: uvm_api_live_migration_read_pages_resident_def uvm_api_live_migration_read_pages_resident_encrypted_def
      uvm_api_live_migration_read_pages_resident_encrypted_v2_def encrypted_mt_body_def Let_def
      early_return_def exit109_def exit_ok_def r109_pass1_def r111_pass1_def v2_pass1_def lm_mt_pass1_def pass1_locks
      split: prod.splits)

lemma read_mt_locks: "locks_balanced (rr_locks (uvm_api_live_migration_read_pages_resident_mt env vss pr m))"
  by (auto simp: uvm_api_live_migration_read_pages_resident_mt_def Let_def early_return_def exit109_def exit_ok_def lm_mt_pass1_def
      pass1_locks read_locks split: prod.splits)

text \<open>The page list never outgrows its capacity, so neither do the run and metadata indices.\<close>

lemma scan_cap:
  "0 < p1_cap s \<Longrightarrow> length (p1_pages s) \<le> p1_cap s \<Longrightarrow>
   0 < p1_cap (scan_page env cfg x s) \<and> length (p1_pages (scan_page env cfg x s)) \<le> p1_cap (scan_page env cfg x s)"
  by (cases x) (auto simp: scan_page_def scan_cpu_page_def scan_gpu_page_def Let_def)

lemma scan_fold_cap:
  "0 < p1_cap s \<Longrightarrow> length (p1_pages s) \<le> p1_cap s \<Longrightarrow>
   length (p1_pages (fold (scan_page env cfg) xs s)) \<le> p1_cap (fold (scan_page env cfg) xs s)"
proof (induction xs arbitrary: s)
  case (Cons x xs)
  from Cons.IH [of "scan_page env cfg x s"] scan_cap [OF Cons.prems] show ?case by simp
qed simp

lemma pass1_cap:
  "0 < cap \<Longrightarrow> length (p1_pages (pr_p1 (pass1 env gm d vss base len cb uu (p1_init n cap m))))
     \<le> p1_cap (pr_p1 (pass1 env gm d vss base len cb uu (p1_init n cap m)))"
  by (auto simp: pass1_def Let_def p1_init_def intro!: scan_fold_cap split: option.splits)

end
