(* ===== verification/Read_Props.thy ===== *)
theory Read_Props
  imports Read_Correct
begin

text \<open>
  The properties of the read ioctls: contents, agreement of the variants, errors, locks,
  bounds of the metadata array and liveness.
\<close>

section \<open>Metadata indices\<close>

text \<open>A consumer that touches no metadata entry but its own.\<close>

definition own_meta :: "(nat \<Rightarrow> nv_status \<times> action list) \<Rightarrow> bool" where
  "own_meta prc \<longleftrightarrow> (\<forall>j i m. SetMeta i m \<in> set (snd (prc j)) \<longrightarrow> i = j)"

lemma process_transfer_own: "own_meta (process_transfer env cfg)"
  by (auto simp: own_meta_def process_transfer_def copy_out_def split: prod.splits if_splits)

text \<open>Slots hold transfers of the slice, and metadata is written for transfers of the slice.\<close>

definition in_slice :: "nat \<Rightarrow> nat \<Rightarrow> pp \<Rightarrow> bool" where
  "in_slice a b p \<longleftrightarrow> (\<forall>c j. pp_act p c = Some j \<longrightarrow> a \<le> j \<and> j < b) \<and>
     (\<forall>i m. SetMeta i m \<in> set (pp_acts p) \<longrightarrow> a \<le> i \<and> i < b)"

lemma in_slice_status [simp]: "in_slice a b (p\<lparr>pp_status := st\<rparr>) = in_slice a b p"
  by (simp add: in_slice_def)

lemma in_slice_emit:
  "in_slice a b p \<Longrightarrow> (\<And>i m. SetMeta i m \<in> set as \<Longrightarrow> a \<le> i \<and> i < b) \<Longrightarrow> in_slice a b (pp_emit as p)"
  by (auto simp: in_slice_def pp_emit_def)

lemma in_slice_free: "in_slice a b p \<Longrightarrow> in_slice a b q \<Longrightarrow> in_slice a b (p\<lparr>pp_act := (pp_act q)(c := None)\<rparr>)"
  by (simp add: in_slice_def)

lemma in_slice_prc:
  assumes "own_meta prc" "in_slice a b p" "pp_act p c = Some j" "prc j = (st, as)" "SetMeta i m \<in> set as"
  shows "a \<le> i \<and> i < b"
  using assms by (metis own_meta_def in_slice_def snd_conv)

lemma pp_consume_slice: "own_meta prc \<Longrightarrow> in_slice a b p \<Longrightarrow> in_slice a b (pp_consume env prc c p)"
  using in_slice_prc [of prc a b p c]
  by (auto simp: pp_consume_def Let_def intro!: in_slice_emit in_slice_free split: option.splits prod.splits)

lemma pp_submit_slice: "in_slice a b p \<Longrightarrow> a \<le> j \<Longrightarrow> j < b \<Longrightarrow> in_slice a b (pp_submit env c j p)"
  by (auto simp: pp_submit_def in_slice_def pp_emit_def)

lemma pp_iter_slice: "own_meta prc \<Longrightarrow> in_slice a b p \<Longrightarrow> a + i < b \<Longrightarrow> in_slice a b (pp_iter env prc a i p)"
  by (simp add: pp_iter_def Let_def pp_consume_slice pp_submit_slice)

lemma pp_loop_slice: "own_meta prc \<Longrightarrow> in_slice a b p \<Longrightarrow> \<forall>i \<in> set is. a + i < b \<Longrightarrow> in_slice a b (pp_loop env prc a is p)"
  by (induction "is" arbitrary: p) (auto simp: Let_def pp_iter_slice)

lemma pp_drain_slice: "own_meta prc \<Longrightarrow> in_slice a b p \<Longrightarrow> in_slice a b (pp_drain env prc c p)"
proof (cases "pp_act p c")
  case (Some j)
  assume *: "own_meta prc" "in_slice a b p"
  have "in_slice a b (pp_emit [Waited j] p)" using *(2) by (intro in_slice_emit) auto
  then have "in_slice a b ((pp_emit [Waited j] p)\<lparr>pp_act := (pp_act p)(c := None)\<rparr>)" using *(2) by (rule in_slice_free)
  then show ?thesis
    using Some in_slice_prc [OF * Some]
    by (auto simp: pp_drain_def Let_def intro!: in_slice_emit split: prod.splits)
qed (simp add: pp_drain_def)

lemma ping_pong_slice: "own_meta prc \<Longrightarrow> in_slice a (a + n) (ping_pong env prc a n)"
  unfolding ping_pong_def by (intro pp_drain_slice pp_loop_slice) (auto simp: in_slice_def pp_init_def)

lemma run_thread_slice: "SetMeta i m \<in> set (wr_acts (run_thread env cfg t sl)) \<Longrightarrow> i \<in> set (slice_idx sl)"
  using ping_pong_slice [OF process_transfer_own, of "fst sl" "snd sl" env env cfg]
  by (auto simp: run_thread_def lm_mt_worker_fn_def failed_worker_def in_slice_def slice_idx_def Let_def split: if_splits)

section \<open>Liveness\<close>

lemma mt_pass2_live: "env_copy_ok env \<Longrightarrow> fst (mt_pass2 env ci pages pr s) = NV_OK"
  using build_runs_loop_total [of env pages UVM_CONF_COMPUTING_DMA_BUFFER_SIZE 0 0 "[]"] run_workers_status_ok
  by (auto simp: mt_pass2_def lm_mt_build_runs_def env_copy_ok_def split: sum.splits)

lemma pingpong_live: "env_copy_ok env \<Longrightarrow> fst (pingpong_pass2 env ci pages buf s) = NV_OK"
proof -
  assume e: "env_copy_ok env"
  then obtain runs where b: "lm_mt_build_runs env pages UVM_CONF_COMPUTING_DMA_BUFFER_SIZE = Inr runs"
    using build_runs_loop_total [of env pages UVM_CONF_COMPUTING_DMA_BUFFER_SIZE 0 0 "[]"]
    by (cases "lm_mt_build_runs env pages UVM_CONF_COMPUTING_DMA_BUFFER_SIZE") (auto simp: lm_mt_build_runs_def env_copy_ok_def)
  let ?cfg = "\<lparr>cc_pages = pages, cc_runs = runs, cc_buf = buf, cc_cipher = ci\<rparr>"
  have "\<forall>j < length runs. xfer_ok env (process_transfer env ?cfg) (0 + j)"
    using e process_transfer_ok by (auto simp: env_copy_ok_def xfer_ok_def)
  from ping_pong_status_ok [OF process_transfer_data this] e b show ?thesis
    by (auto simp: pingpong_pass2_def Let_def env_copy_ok_def)
qed

lemma copy_results_live:
  "env_mem_ok env \<Longrightarrow> (ci \<Longrightarrow> nt * META_SIZE \<le> rp_crypto_meta_size pr) \<Longrightarrow> fst (copy_results env ci pr rm nt s) = NV_OK"
  by (auto simp: copy_results_def copy_resmap_def copy_meta_def env_mem_ok_def)

lemma scan_cap_bound:
  "p1_cap s \<le> max c (2 * length (p1_pages s)) \<Longrightarrow> p1_cap (scan_page env cfg x s) \<le> max c (2 * length (p1_pages (scan_page env cfg x s)))"
  by (cases x) (auto simp: scan_page_def scan_cpu_page_def scan_gpu_page_def Let_def)

lemma scan_fold_cap_bound:
  "p1_cap s \<le> max c (2 * length (p1_pages s)) \<Longrightarrow>
   p1_cap (fold (scan_page env cfg) xs s) \<le> max c (2 * length (p1_pages (fold (scan_page env cfg) xs s)))"
proof (induction xs arbitrary: s)
  case (Cons x xs)
  from Cons.IH [OF scan_cap_bound [OF Cons.prems]] show ?case by simp
qed simp

lemma pass1_cap_bound:
  "p1_cap (pr_p1 (pass1 env gm d vss base len cb uu (p1_init n cap m)))
     \<le> max cap (2 * length (p1_pages (pr_p1 (pass1 env gm d vss base len cb uu (p1_init n cap m)))))"
  using scan_fold_cap_bound [of "p1_init n cap m" cap]
  by (auto simp: pass1_def Let_def p1_init_def split: option.splits)

text \<open>Everything the handlers ask for: privilege, arguments, a managed range, a GPU, room for the metadata.\<close>

definition request_live :: "uvm_env \<Rightarrow> va_space list \<Rightarrow> read_params \<Rightarrow> bool" where
  "request_live env vss pr \<longleftrightarrow>
     env_copy_ok env \<and> env_capable env \<and> env_cc env \<and> params_ok vss pr \<and> rp_residency_map pr \<noteq> 0 \<and>
     find_va_space vss (rp_base pr) 0 \<noteq> None \<and> request_gpu vss (rp_base pr) (rp_gpu_uuid pr) \<noteq> None \<and>
     n_pages pr * META_SIZE \<le> rp_crypto_meta_size pr"

lemma request_live_check: "request_live env vss pr \<Longrightarrow> read_check env pr = NV_OK"
  by (simp add: request_live_def read_check_def params_ok_def request_ok_def)

lemma request_live_mem: "request_live env vss pr \<Longrightarrow> env_alloc env a n \<and> env_mem_ok env \<and> env_cc env \<and> env_copy_ok env"
  by (simp add: request_live_def env_copy_ok_def env_mem_ok_def)

lemma request_live_pass1:
  fixes gm d :: bool and m :: mem
  assumes "request_live env vss pr"
  defines "r \<equiv> pass1 env gm d vss (rp_base pr) (rp_length pr) (rp_cpu_buf pr) (rp_gpu_uuid pr) (p1_init (n_pages pr) (page_cap0 pr) m)"
  shows "p1_status (pr_p1 r) = NV_OK" "pr_gpu r \<noteq> None" "length (p1_pages (pr_p1 r)) \<le> n_pages pr"
    and "p1_cap (pr_p1 r) \<le> (2 ^ 64 - 1) div META_SIZE"
proof -
  obtain i vs where f: "find_va_space vss (rp_base pr) 0 = Some (i, vs)"
    using assms(1) by (auto simp: request_live_def)
  show ok: "p1_status (pr_p1 r) = NV_OK"
    unfolding r_def by (rule pass1_status_ok [OF _ f]) (use assms(1) in \<open>auto simp: request_live_def env_copy_ok_def p1_init_def\<close>)
  have pr: "params_ok vss pr" using assms(1) by (simp add: request_live_def)
  note h = handler_pass1 [OF ok [unfolded r_def] pr, folded r_def]
  show "pr_gpu r \<noteq> None" using h(6) assms(1) by (simp add: request_live_def)
  have req: "request_ok vss (rp_base pr) (rp_length pr) (rp_cpu_buf pr)" using pr by (simp add: params_ok_def)
  have "length (gpu_phys_list (request_gpu vss (rp_base pr) (rp_gpu_uuid pr)) (request_visits d vss (rp_base pr) (rp_length pr)))
      \<le> rp_length pr div PAGE_SIZE"
    unfolding gpu_phys_list_def length_map by (rule le_trans [OF length_filter_le request_visits_length [OF req]])
  then show n: "length (p1_pages (pr_p1 r)) \<le> n_pages pr" using h(1) by (simp add: n_pages_def)
  have "n_pages pr \<le> 2 ^ 64 div PAGE_SIZE"
    unfolding n_pages_def using pr by (intro div_le_mono) (simp add: params_ok_def)
  moreover have "p1_cap (pr_p1 r) \<le> max (page_cap0 pr) (2 * length (p1_pages (pr_p1 r)))"
    unfolding r_def by (rule pass1_cap_bound)
  ultimately show "p1_cap (pr_p1 r) \<le> (2 ^ 64 - 1) div META_SIZE"
    using n by (simp add: page_cap0_def max_def split: if_splits)
qed

text \<open>Every handler succeeds on such a request.\<close>

lemma encrypted_mt_live:
  assumes "request_live env vss pr" "csl_ok env" "sched_ok env"
  shows "rr_status (encrypted_mt_body d env vss pr m) = NV_OK"
proof -
  let ?r = "pass1 env False d vss (rp_base pr) (rp_length pr) (rp_cpu_buf pr) (rp_gpu_uuid pr) (p1_init (n_pages pr) (page_cap0 pr) m)"
  note f = request_live_pass1 [OF assms(1), of False d m]
  have pr: "params_ok vss pr" using assms(1) by (simp add: request_live_def)
  obtain nt s2 where p2: "mt_pass2 env True (p1_pages (pr_p1 ?r)) pr \<lparr>st_mem = p1_mem (pr_p1 ?r), st_meta = (\<lambda>_. None)\<rparr> = (NV_OK, nt, s2)"
    using mt_pass2_live [of env True "p1_pages (pr_p1 ?r)" pr] request_live_mem [OF assms(1)] by (metis prod.collapse)
  have "nt \<le> n_pages pr"
    using mt_pass2_success [OF p2 pages_ok_read_cfg [OF handler_pass1(7) [OF f(1) pr]] assms(2,3)] f(3)
      coalesce_length [of "p1_pages (pr_p1 ?r)" UVM_CONF_COMPUTING_DMA_BUFFER_SIZE] by (simp add: read_cfg_def)
  then have "nt * META_SIZE \<le> n_pages pr * META_SIZE" by (rule mult_le_mono1)
  then have "fst (copy_results env True pr (p1_resmap (pr_p1 ?r)) nt s2) = NV_OK"
    using assms(1) request_live_mem [OF assms(1)] by (intro copy_results_live) (auto simp: request_live_def)
  then show ?thesis
    using f p2 request_live_check [OF assms(1)] request_live_mem [OF assms(1)]
    by (auto simp: encrypted_mt_body_def lm_mt_pass1_def Let_def exit_ok_def exit109_def split: prod.splits)
qed

lemma resident_mt_live:
  assumes "request_live env vss pr"
  shows "rr_status (uvm_api_live_migration_read_pages_resident_mt env vss pr m) = NV_OK"
proof -
  let ?r = "pass1 env False False vss (rp_base pr) (rp_length pr) (rp_cpu_buf pr) (rp_gpu_uuid pr) (p1_init (n_pages pr) (page_cap0 pr) m)"
  note f = request_live_pass1 [OF assms(1), of False False m]
  obtain nt s2 where p2: "mt_pass2 env False (p1_pages (pr_p1 ?r)) pr \<lparr>st_mem = p1_mem (pr_p1 ?r), st_meta = (\<lambda>_. None)\<rparr> = (NV_OK, nt, s2)"
    using mt_pass2_live [of env False "p1_pages (pr_p1 ?r)" pr] request_live_mem [OF assms(1)] by (metis prod.collapse)
  have "fst (copy_results env False pr (p1_resmap (pr_p1 ?r)) nt s2) = NV_OK"
    using request_live_mem [OF assms(1)] by (intro copy_results_live) auto
  then show ?thesis
    using f p2 request_live_check [OF assms(1)] request_live_mem [OF assms(1)]
    by (auto simp: uvm_api_live_migration_read_pages_resident_mt_def lm_mt_pass1_def Let_def exit_ok_def exit109_def split: prod.splits)
qed

lemma resident_live:
  assumes "request_live env vss pr"
  shows "rr_status (uvm_api_live_migration_read_pages_resident env vss pr m) = NV_OK"
proof -
  let ?r = "pass1 env False False vss (rp_base pr) (rp_length pr) (rp_cpu_buf pr) (rp_gpu_uuid pr) (p1_init (n_pages pr) (page_cap0 pr) m)"
  note f = request_live_pass1 [OF assms(1), of False False m]
  obtain nt s2 where p2: "r109_pass2 env (pr_gpu ?r) (p1_pages (pr_p1 ?r)) (rp_gpu_buf pr) \<lparr>st_mem = p1_mem (pr_p1 ?r), st_meta = (\<lambda>_. None)\<rparr> = (NV_OK, nt, s2)"
    using pingpong_live [of env False "p1_pages (pr_p1 ?r)" "rp_gpu_buf pr"] request_live_mem [OF assms(1)] f(2)
    by (simp add: r109_pass2_def) (metis prod.collapse)
  have "fst (copy_results env False pr (p1_resmap (pr_p1 ?r)) nt s2) = NV_OK"
    using request_live_mem [OF assms(1)] by (intro copy_results_live) auto
  then show ?thesis
    using f p2 request_live_check [OF assms(1)] request_live_mem [OF assms(1)]
    by (auto simp: uvm_api_live_migration_read_pages_resident_def r109_pass1_def Let_def exit109_def split: prod.splits)
qed

lemma encrypted_single_pass2_live:
  fixes m :: mem
  assumes "request_live env vss pr" "csl_ok env"
  defines "r \<equiv> pass1 env True False vss (rp_base pr) (rp_length pr) (rp_cpu_buf pr) (rp_gpu_uuid pr) (p1_init (n_pages pr) (page_cap0 pr) m)"
  obtains nt s2 m' where "r111_pass2 env (pr_gpu r) (p1_pages (pr_p1 r)) (rp_gpu_buf pr) \<lparr>st_mem = p1_mem (pr_p1 r), st_meta = (\<lambda>_. None)\<rparr> = (NV_OK, nt, s2)"
    "copy_results env True pr (p1_resmap (pr_p1 r)) nt s2 = (NV_OK, m')"
proof -
  note f = request_live_pass1 [OF assms(1), of True False m, folded r_def]
  have pr: "params_ok vss pr" using assms(1) by (simp add: request_live_def)
  note h = handler_pass1 [OF f(1) [unfolded r_def] pr, folded r_def]
  obtain nt s2 where p: "pingpong_pass2 env True (p1_pages (pr_p1 r)) (rp_gpu_buf pr) \<lparr>st_mem = p1_mem (pr_p1 r), st_meta = (\<lambda>_. None)\<rparr> = (NV_OK, nt, s2)"
    using pingpong_live [of env True "p1_pages (pr_p1 r)" "rp_gpu_buf pr"] request_live_mem [OF assms(1)]
    by (metis prod.collapse)
  have "nt \<le> n_pages pr"
    using pingpong_pass2_success [OF p pages_ok_read_cfg [OF h(7)] assms(2)] f(3)
      coalesce_length [of "p1_pages (pr_p1 r)" UVM_CONF_COMPUTING_DMA_BUFFER_SIZE] by (simp add: read_cfg_def)
  then have "nt * META_SIZE \<le> n_pages pr * META_SIZE" by (rule mult_le_mono1)
  then have "fst (copy_results env True pr (p1_resmap (pr_p1 r)) nt s2) = NV_OK"
    using assms(1) request_live_mem [OF assms(1)] by (intro copy_results_live) (auto simp: request_live_def)
  moreover have "r111_pass2 env (pr_gpu r) (p1_pages (pr_p1 r)) (rp_gpu_buf pr) \<lparr>st_mem = p1_mem (pr_p1 r), st_meta = (\<lambda>_. None)\<rparr> = (NV_OK, nt, s2)"
    using p f(2) request_live_mem [OF assms(1)] by (auto simp: r111_pass2_def)
  ultimately show ?thesis using that by (metis prod.collapse)
qed

lemma v2_pass2_eq: "v2_pass2 = r111_pass2"
  by (intro ext) (simp add: v2_pass2_def r111_pass2_def)

lemma encrypted_single_live:
  assumes "request_live env vss pr" "csl_ok env"
  shows "rr_status (uvm_api_live_migration_read_pages_resident_encrypted env vss pr m) = NV_OK"
    and "rr_status (uvm_api_live_migration_read_pages_resident_encrypted_v2 env vss pr m) = NV_OK"
proof -
  let ?r = "pass1 env True False vss (rp_base pr) (rp_length pr) (rp_cpu_buf pr) (rp_gpu_uuid pr) (p1_init (n_pages pr) (page_cap0 pr) m)"
  note f = request_live_pass1 [OF assms(1), of True False m]
  note live = request_live_check [OF assms(1)] request_live_mem [OF assms(1)]
  obtain nt s2 m' where
    "r111_pass2 env (pr_gpu ?r) (p1_pages (pr_p1 ?r)) (rp_gpu_buf pr) \<lparr>st_mem = p1_mem (pr_p1 ?r), st_meta = (\<lambda>_. None)\<rparr> = (NV_OK, nt, s2)"
    "copy_results env True pr (p1_resmap (pr_p1 ?r)) nt s2 = (NV_OK, m')"
    by (rule encrypted_single_pass2_live [OF assms, of m])
  then show "rr_status (uvm_api_live_migration_read_pages_resident_encrypted env vss pr m) = NV_OK"
    and "rr_status (uvm_api_live_migration_read_pages_resident_encrypted_v2 env vss pr m) = NV_OK"
    using f live
    by (simp_all add: uvm_api_live_migration_read_pages_resident_encrypted_def uvm_api_live_migration_read_pages_resident_encrypted_v2_def
        v2_pass2_eq r111_pass1_def v2_pass1_def Let_def exit_ok_def exit109_def)
qed

section \<open>All read ioctls\<close>

definition read_ioctls :: "(uvm_env \<Rightarrow> va_space list \<Rightarrow> read_params \<Rightarrow> mem \<Rightarrow> read_result) list" where
  "read_ioctls = [uvm_api_live_migration_read_pages_resident, uvm_api_live_migration_read_pages_resident_encrypted,
     uvm_api_live_migration_read_pages_resident_encrypted_v2, uvm_api_live_migration_read_pages_resident_mt,
     uvm_api_live_migration_read_pages_resident_encrypted_mt, uvm_api_live_migration_read_dirty_delta_encrypted_mt]"

lemma read_rejected_each:
  assumes "read_check env pr \<noteq> NV_OK"
  shows "uvm_api_live_migration_read_pages_resident env vss pr m = early_return (read_check env pr) m []"
    and "uvm_api_live_migration_read_pages_resident_encrypted env vss pr m = early_return (read_check env pr) m []"
    and "uvm_api_live_migration_read_pages_resident_encrypted_v2 env vss pr m = early_return (read_check env pr) m []"
    and "uvm_api_live_migration_read_pages_resident_mt env vss pr m = early_return (read_check env pr) m []"
    and "encrypted_mt_body d env vss pr m = early_return (read_check env pr) m []"
  using assms
  by (simp_all only: uvm_api_live_migration_read_pages_resident_def uvm_api_live_migration_read_pages_resident_encrypted_def
        uvm_api_live_migration_read_pages_resident_encrypted_v2_def uvm_api_live_migration_read_pages_resident_mt_def
        encrypted_mt_body_def Let_def not_False_eq_True if_True)

lemma read_rejected:
  assumes "h \<in> set read_ioctls" "read_check env pr \<noteq> NV_OK"
  shows "h env vss pr m = early_return (read_check env pr) m []"
proof -
  have "h = uvm_api_live_migration_read_pages_resident \<or> h = uvm_api_live_migration_read_pages_resident_encrypted \<or>
    h = uvm_api_live_migration_read_pages_resident_encrypted_v2 \<or> h = uvm_api_live_migration_read_pages_resident_mt \<or>
    h = encrypted_mt_body False \<or> h = encrypted_mt_body True"
    using assms(1) by (simp add: read_ioctls_def uvm_api_live_migration_read_pages_resident_encrypted_mt_def
        uvm_api_live_migration_read_dirty_delta_encrypted_mt_def)
  then show ?thesis by (elim disjE) (simp_all only: read_rejected_each [OF assms(2)])
qed

section \<open>A sample request\<close>

definition sample_pr :: read_params where
  "sample_pr = \<lparr>rp_base = 2097152, rp_length = 4096, rp_cpu_buf = 8192, rp_gpu_buf = 1048576, rp_residency_map = 65536,
     rp_gpu_uuid = zero_uuid, rp_crypto_meta = 131072, rp_crypto_meta_size = 4100, rp_num_threads = 2\<rparr>"

lemma sample_params: "params_ok [sample_vs] sample_pr"
  using sample_request
  by (auto simp: params_ok_def sample_pr_def sample_managed) (auto simp: sample_block_def split: if_splits)

lemma sample_live: "request_live sample_env [sample_vs] sample_pr"
  using sample_env_copy sample_params
  by (simp add: request_live_def n_pages_def request_gpu_def sample_pr_def sample_find resolve_gpu_def del: find_va_space.simps)
     (simp add: sample_env_def sample_vs_def)

section \<open>Properties\<close>

text \<open>
  C12: a successful READ_PAGES_RESIDENT (109), with or without confidential computing, on
  well-formed va spaces leaves user memory as it was except for three areas: the CPU-resident
  pages packed at the CPU buffer in address order, the plaintext of the GPU-resident pages
  packed at the GPU buffer in address order, and the residency map; and it reports the sizes
  of both sections, which together are at most the requested length.
\<close>

theorem read_resident_correct:
  assumes "params_ok vss pr" "csl_ok env"
    and "r = uvm_api_live_migration_read_pages_resident env vss pr m" "rr_status r = NV_OK"
    and "V = request_visits False vss (rp_base pr) (rp_length pr)" "G = request_gpu vss (rp_base pr) (rp_gpu_uuid pr)"
  shows "rr_mem r = plain_image False env vss pr m \<and>
    rr_cpu_bytes r = Some (length (cpu_section V)) \<and> rr_gpu_bytes r = Some (length (gpu_section env G V)) \<and>
    length (cpu_section V) + length (gpu_section env G V) \<le> rp_length pr \<and> rr_num_pages r = Some (n_pages pr)"
proof -
  have "length (gpu_section env G V) = PAGE_SIZE * length (filter (gpu_visit G) V)"
    by (simp add: gpu_section_def gpu_phys_list_def length_concat o_def sum_list_triv)
  then show ?thesis
    using resident_109_success [OF assms(1,2) assms(4) [unfolded assms(3)]] assms(1)
      request_parts_bound [of vss "rp_base pr" "rp_length pr" "rp_cpu_buf pr" False G]
    by (simp add: assms(3,5,6) params_ok_def)
qed

theorem read_resident_correct_witness:
  "rr_mem (uvm_api_live_migration_read_pages_resident sample_env [sample_vs] sample_pr (\<lambda>_. 0)) =
     plain_image False sample_env [sample_vs] sample_pr (\<lambda>_. 0)"
  using read_resident_correct [OF sample_params sample_env_csl refl resident_live [OF sample_live] refl refl] by simp

text \<open>
  C14: the multi-threaded plaintext read (114) is equivalent to the single-threaded one (109):
  when both succeed they leave the same memory and report the same sizes, for every thread
  count and every schedule of the threads.
\<close>

theorem read_mt_equals_single:
  assumes "params_ok vss pr" "csl_ok env" "sched_ok env"
    and "r = uvm_api_live_migration_read_pages_resident_mt env vss pr m" "rr_status r = NV_OK"
    and "q = uvm_api_live_migration_read_pages_resident env vss (pr\<lparr>rp_num_threads := n\<rparr>) m" "rr_status q = NV_OK"
  shows "rr_mem r = rr_mem q \<and> rr_cpu_bytes r = rr_cpu_bytes q \<and> rr_gpu_bytes r = rr_gpu_bytes q \<and>
    rr_num_pages r = rr_num_pages q"
proof -
  have "params_ok vss (pr\<lparr>rp_num_threads := n\<rparr>)" using assms(1) by (auto simp: params_ok_def)
  from resident_109_success [OF this assms(2) assms(7) [unfolded assms(6)]] mt_114_success [OF assms(1-3) assms(5) [unfolded assms(4)]]
  show ?thesis by (simp add: assms(4,6) plain_image_def read_image_def n_pages_def)
qed

theorem read_mt_equals_single_witness:
  "rr_mem (uvm_api_live_migration_read_pages_resident_mt sample_env [sample_vs] sample_pr (\<lambda>_. 0)) =
   rr_mem (uvm_api_live_migration_read_pages_resident sample_env [sample_vs] (sample_pr\<lparr>rp_num_threads := 2\<rparr>) (\<lambda>_. 0))"
  using read_mt_equals_single [OF sample_params sample_env_csl sample_env_sched refl resident_mt_live [OF sample_live] refl, of 2]
    resident_live [OF sample_live] by (simp add: sample_pr_def)

text \<open>
  C13: a successful multi-threaded ciphertext read, of all pages (115, \<open>d\<close> false) or of the
  tracked dirty blocks only (116, \<open>d\<close> true), leaves the CPU pages, the ciphertexts of the runs
  of GPU pages one after the other, the residency map and, when asked for, one 41-byte
  metadata entry per run in run order; nothing else changes. The number of transfers is the
  number of runs, and their metadata fits the buffer the caller announced.
\<close>

theorem encrypted_reads_correct:
  assumes "params_ok vss pr" "csl_ok env" "sched_ok env" "cfg = request_cfg True d vss pr"
    and "r = (if d then uvm_api_live_migration_read_dirty_delta_encrypted_mt env vss pr m
              else uvm_api_live_migration_read_pages_resident_encrypted_mt env vss pr m)" "rr_status r = NV_OK"
  shows "rr_mem r = cipher_image d env vss pr m \<and> rr_num_transfers r = Some (length (cc_runs cfg)) \<and>
    (rp_crypto_meta pr \<noteq> 0 \<longrightarrow> length (cc_runs cfg) * META_SIZE \<le> rp_crypto_meta_size pr) \<and>
    length (cc_runs cfg) \<le> n_pages pr"
proof -
  have r: "r = encrypted_mt_body d env vss pr m"
    by (simp add: assms(5) uvm_api_live_migration_read_dirty_delta_encrypted_mt_def uvm_api_live_migration_read_pages_resident_encrypted_mt_def)
  let ?V = "request_visits d vss (rp_base pr) (rp_length pr)" and ?G = "request_gpu vss (rp_base pr) (rp_gpu_uuid pr)"
  have "length (cc_runs cfg) \<le> length (filter (gpu_visit ?G) ?V)"
    using coalesce_length [of "gpu_list 0 (gpu_phys_list ?G ?V)"] by (simp add: assms(4) request_cfg_def read_cfg_def gpu_phys_list_def)
  also have "\<dots> \<le> n_pages pr"
    unfolding n_pages_def using assms(1)
    by (intro le_trans [OF length_filter_le request_visits_length [of _ _ _ "rp_cpu_buf pr"]]) (simp add: params_ok_def)
  finally show ?thesis
    using encrypted_mt_success [OF assms(1-3) assms(6) [unfolded r]] by (simp add: r assms(4))
qed

theorem encrypted_reads_correct_witness:
  "rr_mem (uvm_api_live_migration_read_pages_resident_encrypted_mt sample_env [sample_vs] sample_pr (\<lambda>_. 0)) =
     cipher_image False sample_env [sample_vs] sample_pr (\<lambda>_. 0) \<and>
   rr_mem (uvm_api_live_migration_read_dirty_delta_encrypted_mt sample_env [sample_vs] sample_pr (\<lambda>_. 0)) =
     cipher_image True sample_env [sample_vs] sample_pr (\<lambda>_. 0)"
  using encrypted_reads_correct [OF sample_params sample_env_csl sample_env_sched refl refl, of False]
    encrypted_reads_correct [OF sample_params sample_env_csl sample_env_sched refl refl, of True]
    encrypted_mt_live [OF sample_live sample_env_csl sample_env_sched]
  by (simp add: uvm_api_live_migration_read_dirty_delta_encrypted_mt_def uvm_api_live_migration_read_pages_resident_encrypted_mt_def)

text \<open>
  C15: under confidential computing the three ciphertext reads of all pages, 111, 113 and 115,
  are equivalent: whenever they succeed, with the same IVs, they leave the same memory
  (pages, residency map and metadata) and report the same number of transfers.
\<close>

theorem encrypted_reads_agree:
  assumes "params_ok vss pr" "csl_ok env" "sched_ok env" "env_cc env"
    and "r111 = uvm_api_live_migration_read_pages_resident_encrypted env vss pr m" "rr_status r111 = NV_OK"
    and "r113 = uvm_api_live_migration_read_pages_resident_encrypted_v2 env vss pr m" "rr_status r113 = NV_OK"
    and "r115 = uvm_api_live_migration_read_pages_resident_encrypted_mt env vss pr m" "rr_status r115 = NV_OK"
  shows "rr_mem r111 = rr_mem r115 \<and> rr_mem r113 = rr_mem r115 \<and>
    rr_num_transfers r111 = rr_num_transfers r115 \<and> rr_num_transfers r113 = rr_num_transfers r115"
proof -
  have r: "r115 = encrypted_mt_body False env vss pr m"
    by (simp add: assms(9) uvm_api_live_migration_read_pages_resident_encrypted_mt_def)
  from encrypted_111_success [OF assms(1,2,4) assms(6) [unfolded assms(5)]]
    encrypted_v2_success [OF assms(1,2,4) assms(8) [unfolded assms(7)]]
    encrypted_mt_success [OF assms(1-3) assms(10) [unfolded r]]
  show ?thesis by (simp add: assms(5,7) r)
qed

theorem encrypted_reads_agree_witness:
  "rr_mem (uvm_api_live_migration_read_pages_resident_encrypted sample_env [sample_vs] sample_pr (\<lambda>_. 0)) =
   rr_mem (uvm_api_live_migration_read_pages_resident_encrypted_mt sample_env [sample_vs] sample_pr (\<lambda>_. 0))"
proof -
  have cc: "env_cc sample_env" by (simp add: sample_env_def)
  have l: "rr_status (uvm_api_live_migration_read_pages_resident_encrypted_mt sample_env [sample_vs] sample_pr (\<lambda>_. 0)) = NV_OK"
    using encrypted_mt_live [OF sample_live sample_env_csl sample_env_sched]
    by (simp add: uvm_api_live_migration_read_pages_resident_encrypted_mt_def)
  from encrypted_reads_agree [OF sample_params sample_env_csl sample_env_sched cc refl encrypted_single_live(1) [OF sample_live sample_env_csl]
      refl encrypted_single_live(2) [OF sample_live sample_env_csl] refl l]
  show ?thesis by blast
qed

text \<open>
  a caller without the capability, a length that is zero or not a multiple of the page
  size, a misaligned base, or no residency map: all six read ioctls refuse, without touching
  user memory and without taking a lock; the multi-threaded ciphertext reads also refuse
  when confidential computing is off.
\<close>

theorem read_ioctls_reject:
  assumes "h \<in> set read_ioctls"
  shows "(\<not> env_capable env \<longrightarrow> h env vss pr m = early_return NV_ERR_INSUFFICIENT_PERMISSIONS m []) \<and>
    (env_capable env \<and> (rp_length pr = 0 \<or> rp_length pr mod PAGE_SIZE \<noteq> 0 \<or> rp_base pr mod PAGE_SIZE \<noteq> 0 \<or> rp_residency_map pr = 0) \<longrightarrow>
       h env vss pr m = early_return NV_ERR_INVALID_ARGUMENT m []) \<and>
    (\<not> env_cc env \<and> read_check env pr = NV_OK \<longrightarrow>
       uvm_api_live_migration_read_pages_resident_encrypted_mt env vss pr m = early_return NV_ERR_NOT_SUPPORTED m [] \<and>
       uvm_api_live_migration_read_dirty_delta_encrypted_mt env vss pr m = early_return NV_ERR_NOT_SUPPORTED m [])"
proof (intro conjI impI)
  show "h env vss pr m = early_return NV_ERR_INSUFFICIENT_PERMISSIONS m []" if "\<not> env_capable env"
    using read_rejected [OF assms, of env pr vss m] that by (simp add: read_check_def)
  show "h env vss pr m = early_return NV_ERR_INVALID_ARGUMENT m []"
    if "env_capable env \<and> (rp_length pr = 0 \<or> rp_length pr mod PAGE_SIZE \<noteq> 0 \<or> rp_base pr mod PAGE_SIZE \<noteq> 0 \<or> rp_residency_map pr = 0)"
  proof -
    have "read_check env pr = NV_ERR_INVALID_ARGUMENT" using that by (auto simp: read_check_def)
    with read_rejected [OF assms, of env pr vss m] show ?thesis by simp
  qed
qed (simp_all add: encrypted_mt_body_def Let_def uvm_api_live_migration_read_pages_resident_encrypted_mt_def
      uvm_api_live_migration_read_dirty_delta_encrypted_mt_def)

theorem read_ioctls_reject_witness:
  "uvm_api_live_migration_read_pages_resident_mt sample_env [sample_vs] (sample_pr\<lparr>rp_length := 100\<rparr>) (\<lambda>_. 0) =
     early_return NV_ERR_INVALID_ARGUMENT (\<lambda>_. 0) []"
  using read_ioctls_reject [of uvm_api_live_migration_read_pages_resident_mt sample_env "[sample_vs]" "sample_pr\<lparr>rp_length := 100\<rparr>" "\<lambda>_. 0"]
  by (simp add: sample_env_def read_ioctls_def)

text \<open>
  every read ioctl releases every lock it takes, on every path: the global mutex and the
  va space locks are free again when it returns.
\<close>

theorem read_ioctls_release_locks:
  assumes "h \<in> set read_ioctls"
  shows "locks_balanced (rr_locks (h env vss pr m))"
  using assms read_locks read_mt_locks
  by (auto simp: read_ioctls_def uvm_api_live_migration_read_pages_resident_encrypted_mt_def
      uvm_api_live_migration_read_dirty_delta_encrypted_mt_def)

theorem read_ioctls_release_locks_witness:
  "locks_balanced (rr_locks (uvm_api_live_migration_read_dirty_delta_encrypted_mt sample_env [sample_vs] sample_pr (\<lambda>_. 0)))"
  using read_ioctls_release_locks [of uvm_api_live_migration_read_dirty_delta_encrypted_mt] by (simp add: read_ioctls_def)

text \<open>
  C33: no worker of a ciphertext read writes a metadata entry outside the array, even when
  transfers fail: the entries a schedule writes are indices of runs, and there are no more
  runs than pages collected, and no more pages than the capacity the array was allocated
  with.
\<close>

theorem metadata_in_bounds:
  assumes "s1 = pr_p1 (lm_mt_pass1 env d vss base len cpu_buf uu (p1_init n cap m))" "0 < cap" "sched_ok env"
    and "lm_mt_build_runs env (p1_pages s1) mx = Inr runs" "cc_runs cfg = runs" "0 < t"
    and "SetMeta i mt \<in> set (env_sched env (map (\<lambda>(k, sl). wr_acts (run_thread env cfg k sl)) (enumerate 0 (split_work (length runs) t))))"
  shows "i < length runs \<and> length runs \<le> length (p1_pages s1) \<and> length (p1_pages s1) \<le> p1_cap s1"
proof -
  let ?acts = "map (\<lambda>(k, sl). wr_acts (run_thread env cfg k sl)) (enumerate 0 (split_work (length runs) t))"
  have "set (env_sched env ?acts) = set (concat ?acts)"
    using sched_ok_mset [OF assms(3), of ?acts] by (metis set_mset_mset)
  then obtain k sl where ks: "(k, sl) \<in> set (enumerate 0 (split_work (length runs) t))"
    and in_thread: "SetMeta i mt \<in> set (wr_acts (run_thread env cfg k sl))"
    using assms(7) by auto
  have "sl \<in> set (split_work (length runs) t)"
    using set_zip_rightD [OF ks [unfolded enumerate_eq_zip]] .
  then have "i \<in> set (concat (map slice_idx (split_work (length runs) t)))"
    using run_thread_slice [OF in_thread] by auto
  then have "i < length runs" using even_split.slices_cover [OF assms(6)] by simp
  moreover have "length runs \<le> length (p1_pages s1)"
    using build_runs_coalesce [OF assms(4)] coalesce_length by simp
  moreover have "length (p1_pages s1) \<le> p1_cap s1"
    unfolding assms(1) lm_mt_pass1_def by (rule pass1_cap [OF assms(2)])
  ultimately show ?thesis by simp
qed

theorem metadata_in_bounds_witness:
  "let s1 = pr_p1 (lm_mt_pass1 sample_env False [sample_vs] 2097152 4096 8192 zero_uuid (p1_init 1 1 (\<lambda>_. 0)))
   in 0 < length (coalesce_from (p1_pages s1) 2097152 0) \<and> length (p1_pages s1) \<le> p1_cap s1"
proof -
  define s1 where "s1 = pr_p1 (lm_mt_pass1 sample_env False [sample_vs] 2097152 4096 8192 zero_uuid (p1_init 1 1 (\<lambda>_. 0)))"
  define runs where "runs = coalesce_from (p1_pages s1) 2097152 0"
  define cfg where "cfg = \<lparr>cc_pages = p1_pages s1, cc_runs = runs, cc_buf = 1048576, cc_cipher = True\<rparr>"
  have ok: "p1_status (pr_p1 (pass1 sample_env False False [sample_vs] 2097152 4096 8192 zero_uuid (p1_init (4096 div PAGE_SIZE) 1 (\<lambda>_. 0)))) = NV_OK"
    by (rule pass1_status_ok [OF sample_env_mem sample_find]) (simp add: p1_init_def)
  have "gpu_visit (request_gpu [sample_vs] 2097152 zero_uuid) (sample_block, 2097152)"
    by (simp add: gpu_visit_def is_gpu_page_def is_cpu_page_def request_gpu_def sample_find resolve_gpu_def page_index_def del: find_va_space.simps)
       (simp add: sample_vs_def sample_block_def)
  then have pages: "length (p1_pages s1) = 1"
    using pass1_facts(3) [OF ok sample_request] by (simp add: s1_def lm_mt_pass1_def sample_visits gpu_phys_list_def)
  then have one: "length runs = 1"
    using coalesce_length [of "p1_pages s1" 2097152] coalesce_from.simps [of "p1_pages s1" 2097152 0] by (simp add: runs_def)
  have build: "lm_mt_build_runs sample_env (p1_pages s1) 2097152 = Inr runs"
    unfolding runs_def by (rule coalesce_build)
  have split: "split_work (length runs) 1 = [(0, 1)]" by (simp add: one split_work_def)
  have "\<forall>j < snd (0, 1). xfer_ok sample_env (process_transfer sample_env cfg) (fst (0, 1) + j)"
    using sample_env_copy process_transfer_ok by (auto simp: env_copy_ok_def xfer_ok_def)
  from ping_pong_status_ok [OF process_transfer_data this] have st: "wr_status (run_thread sample_env cfg 0 (0, 1)) = NV_OK"
    by (simp add: run_thread_def lm_mt_worker_fn_def Let_def) (simp add: sample_env_def)
  have "fst (process_transfer sample_env cfg 0) = NV_OK" by (rule process_transfer_ok [OF sample_env_mem sample_env_csl])
  from process_transfer_effect [OF sample_env_csl _ this]
  have "SetMeta 0 (transfer_meta sample_env cfg 0) \<in> set (snd (process_transfer sample_env cfg 0))" by (simp add: cfg_def)
  then have "SetMeta 0 (transfer_meta sample_env cfg 0) \<in> set (data_acts (wr_acts (run_thread sample_env cfg 0 (0, 1))))"
    using run_thread_success(1) [OF st] by (metis (no_types, lifting) One_nat_def append_Nil2 concat.simps(1) concat.simps(2) fst_conv
        list.simps(8) list.simps(9) mset_eq_setD slice_idx_def snd_conv upt_0 upt_Suc_append upt_rec plus_nat.add_0 append_Nil less_eq_nat.simps(1))
  then have "SetMeta 0 (transfer_meta sample_env cfg 0) \<in> set (wr_acts (run_thread sample_env cfg 0 (0, 1)))"
    by (simp add: data_acts_def)
  then have sm: "SetMeta 0 (transfer_meta sample_env cfg 0) \<in>
      set (env_sched sample_env (map (\<lambda>(k, sl). wr_acts (run_thread sample_env cfg k sl)) (enumerate 0 (split_work (length runs) 1))))"
    unfolding split by (simp add: sample_env_def)
  have "cc_runs cfg = runs" by (simp add: cfg_def)
  from metadata_in_bounds [OF s1_def _ sample_env_sched build this _ sm]
  have "0 < length runs \<and> length (p1_pages s1) \<le> p1_cap s1" by auto
  then show ?thesis
    unfolding Let_def runs_def s1_def .
qed

text \<open>
  C40: when nothing the driver calls fails, a privileged caller with well-formed arguments, a
  managed range at the base address, a registered GPU and room for the metadata always gets
  \<open>NV_OK\<close> from each of the six read ioctls.
\<close>

theorem read_ioctls_live:
  assumes "request_live env vss pr" "h \<in> set read_ioctls"
  shows "rr_status (h env vss pr m) = NV_OK"
proof -
  have e: "csl_ok env" "sched_ok env" using assms(1) by (simp_all add: request_live_def env_copy_ok_def)
  show ?thesis
    using assms(2) resident_live [OF assms(1)] encrypted_single_live [OF assms(1) e(1)] resident_mt_live [OF assms(1)]
      encrypted_mt_live [OF assms(1) e]
    by (auto simp: read_ioctls_def uvm_api_live_migration_read_pages_resident_encrypted_mt_def
        uvm_api_live_migration_read_dirty_delta_encrypted_mt_def)
qed

theorem read_ioctls_live_witness:
  "rr_status (uvm_api_live_migration_read_pages_resident_encrypted_mt sample_env [sample_vs] sample_pr (\<lambda>_. 0)) = NV_OK"
  using read_ioctls_live [OF sample_live, of uvm_api_live_migration_read_pages_resident_encrypted_mt] by (simp add: read_ioctls_def)

end
