(* ===== verification/Decrypt_Ioctl.thy ===== *)
theory Decrypt_Ioctl
  imports Read_Props
begin

text \<open>
  Ioctl 112 (DECRYPT_ENCRYPTED_PAGES) of \<open>uvm_live_migration.c\<close>: the inverse of the ciphertext
  reads. A read of the kernel's copy of the metadata array beyond its end is the outcome \<open>None\<close>.
  The GPUs are those of the driver (\<open>for_each_gpu\<close>), in order. Offsets are not wrapped: the
  loops end long before the end of the address space.
\<close>

record decrypt_params =
  dp_cipher_buf :: nat
  dp_plain_buf :: nat
  dp_total_size :: nat
  dp_crypto_meta :: nat
  dp_num_transfers :: nat
  dp_gpu_uuid :: uuid

text \<open>The packed metadata entry, read back.\<close>

definition dec_meta :: "byte list \<Rightarrow> crypto_meta" where
  "dec_meta bs =
     \<lparr>cm_size = le_nat (take 8 bs), cm_iv = take 12 (drop 8 bs), cm_iv_fresh = bs ! 20,
      cm_auth_tag = take 16 (drop 21 bs), cm_key_version = le_nat (take 4 (drop 37 bs))\<rparr>"

definition meta_entry :: "byte list \<Rightarrow> nat \<Rightarrow> crypto_meta option" where
  "meta_entry mb i =
     (if (i + 1) * META_SIZE \<le> length mb then Some (dec_meta (take META_SIZE (drop (i * META_SIZE) mb))) else None)"

text \<open>Without confidential computing: a copy, page by page.\<close>

function copy_chunks :: "uvm_env \<Rightarrow> decrypt_params \<Rightarrow> nat \<Rightarrow> mem \<Rightarrow> nv_status \<times> mem" where
  "copy_chunks env pr off m =
     (if off < dp_total_size pr then
        let n = min PAGE_SIZE (dp_total_size pr - off); a = u64 (dp_cipher_buf pr + off); b = u64 (dp_plain_buf pr + off)
        in if \<not> env_copy env a n \<or> \<not> env_copy env b n then (NV_ERR_INVALID_ARGUMENT, m)
           else copy_chunks env pr (off + PAGE_SIZE) (write_mem m b (read_mem m a n))
      else (NV_OK, m))"
  by pat_completeness auto
termination by (relation "measure (\<lambda>(env, pr, off, m). dp_total_size pr - off)") auto

declare copy_chunks.simps [simp del]

text \<open>The decryption loop: \<open>k\<close> transfers left, the next one is \<open>i\<close>.\<close>

fun decrypt_loop :: "uvm_env \<Rightarrow> decrypt_params \<Rightarrow> byte list \<Rightarrow> nat \<Rightarrow> nat \<Rightarrow> nat \<Rightarrow> mem \<Rightarrow> (nv_status \<times> mem) option" where
  "decrypt_loop env pr mb 0 i off m = Some (NV_OK, m)"
| "decrypt_loop env pr mb (Suc k) i off m =
     (case meta_entry mb i of
        None \<Rightarrow> None
      | Some me \<Rightarrow>
          let n = cm_size me; a = u64 (dp_cipher_buf pr + off); b = u64 (dp_plain_buf pr + off)
          in if n = 0 \<or> n > UVM_CONF_COMPUTING_DMA_BUFFER_SIZE \<or> u64 (off + n) > dp_total_size pr
             then Some (NV_ERR_INVALID_ARGUMENT, m)
             else if \<not> env_copy env a n then Some (NV_ERR_INVALID_ARGUMENT, m)
             else case cpu_decrypt env (cm_key_version me) \<lparr>iv_bytes = cm_iv me, iv_fresh = cm_iv_fresh me\<rparr>
                         (read_mem m a n) (cm_auth_tag me) of
               (st, plain) \<Rightarrow>
                 if st \<noteq> NV_OK then Some (st, m)
                 else if \<not> env_copy env b n then Some (NV_ERR_INVALID_ARGUMENT, m)
                 else decrypt_loop env pr mb k (i + 1) (off + n) (write_mem m b plain))"

definition find_gpu :: "uvm_gpu list \<Rightarrow> uuid \<Rightarrow> uvm_gpu option" where
  "find_gpu gpus uu = find (\<lambda>g. uu = zero_uuid \<or> gpu_uuid g = uu) gpus"

definition decrypt_check :: "uvm_env \<Rightarrow> decrypt_params \<Rightarrow> nv_status" where
  "decrypt_check env pr =
     (if \<not> env_capable env then NV_ERR_INSUFFICIENT_PERMISSIONS
      else if dp_num_transfers pr = 0 \<or> dp_total_size pr = 0 then NV_ERR_INVALID_ARGUMENT
      else if dp_cipher_buf pr = 0 \<or> dp_plain_buf pr = 0 \<or> dp_crypto_meta pr = 0 then NV_ERR_INVALID_ARGUMENT
      else NV_OK)"

text \<open>The byte size of the metadata array, a 64-bit product.\<close>

definition meta_alloc_size :: "decrypt_params \<Rightarrow> nat" where
  "meta_alloc_size pr = u64 (dp_num_transfers pr * META_SIZE)"

definition uvm_api_live_migration_decrypt_encrypted_pages ::
  "uvm_env \<Rightarrow> uvm_gpu list \<Rightarrow> decrypt_params \<Rightarrow> mem \<Rightarrow> (nv_status \<times> mem) option" where
  "uvm_api_live_migration_decrypt_encrypted_pages env gpus pr m =
     (if decrypt_check env pr \<noteq> NV_OK then Some (decrypt_check env pr, m)
      else if \<not> env_cc env then
        (if \<not> env_alloc env A_page_buf PAGE_SIZE then Some (NV_ERR_NO_MEMORY, m) else Some (copy_chunks env pr 0 m))
      else if \<not> env_alloc env A_cipher_buf UVM_CONF_COMPUTING_DMA_BUFFER_SIZE \<or>
              \<not> env_alloc env A_plain_buf UVM_CONF_COMPUTING_DMA_BUFFER_SIZE \<or> \<not> env_alloc env A_meta_buf (meta_alloc_size pr)
           then Some (NV_ERR_NO_MEMORY, m)
      else if \<not> env_copy env (dp_crypto_meta pr) (meta_alloc_size pr) then Some (NV_ERR_INVALID_ARGUMENT, m)
      else if find_gpu gpus (dp_gpu_uuid pr) = None then Some (NV_ERR_INVALID_DEVICE, m)
      else if env_push_begin env 0 \<noteq> NV_OK then Some (env_push_begin env 0, m)
      else if env_push_wait env 0 \<noteq> NV_OK then Some (env_push_wait env 0, m)
      else decrypt_loop env pr (read_mem m (dp_crypto_meta pr) (meta_alloc_size pr)) (dp_num_transfers pr) 0 0 m)"

section \<open>The metadata entry\<close>

definition meta_wf :: "crypto_meta \<Rightarrow> bool" where
  "meta_wf me \<longleftrightarrow> cm_size me < 2 ^ 64 \<and> length (cm_iv me) = 12 \<and> length (cm_auth_tag me) = 16 \<and> cm_key_version me < 2 ^ 32"

lemma length_enc_meta: "meta_wf me \<Longrightarrow> length (enc_meta me) = META_SIZE"
  by (simp add: enc_meta_def meta_wf_def)

lemma dec_enc_meta: "meta_wf me \<Longrightarrow> dec_meta (enc_meta me) = me"
  by (simp add: dec_meta_def enc_meta_def meta_wf_def le_nat_le_bytes nth_append)

lemma nth_concat_blocks:
  assumes "\<And>x. x \<in> set xs \<Longrightarrow> length (f x) = n" "i < length xs"
  shows "take n (drop (i * n) (concat (map f xs))) = f (xs ! i)"
  using assms
proof (induction xs arbitrary: i)
  case (Cons x xs)
  then show ?case by (cases i) auto
qed simp

lemma length_concat_blocks:
  "(\<And>x. x \<in> set xs \<Longrightarrow> length (f x) = n) \<Longrightarrow> length (concat (map f xs)) = length xs * n"
  by (induction xs) auto

lemma meta_entry_all:
  assumes "\<And>j. j < length (cc_runs cfg) \<Longrightarrow> meta_wf (transfer_meta env cfg j)" "i < length (cc_runs cfg)"
  shows "meta_entry (all_meta env cfg) i = Some (transfer_meta env cfg i)"
proof -
  have l: "length (enc_meta (transfer_meta env cfg j)) = META_SIZE" if "j \<in> set [0..<length (cc_runs cfg)]" for j
    using that assms(1) by (simp add: length_enc_meta)
  have "length (all_meta env cfg) = length (cc_runs cfg) * META_SIZE"
    unfolding all_meta_def 
    using length_concat_blocks [of "[0..<length (cc_runs cfg)]" "\<lambda>j. enc_meta (transfer_meta env cfg j)" META_SIZE] l by simp
  moreover have "take META_SIZE (drop (i * META_SIZE) (all_meta env cfg)) = enc_meta (transfer_meta env cfg i)"
    unfolding all_meta_def using nth_concat_blocks [where xs = "[0..<length (cc_runs cfg)]" and f = "\<lambda>j. enc_meta (transfer_meta env cfg j)" and n = META_SIZE and i = i]
      l assms(2) by simp
  ultimately show ?thesis
    using assms by (simp add: meta_entry_def dec_enc_meta)
qed

section \<open>The loop undoes the encryption\<close>

lemma read_mem_slice:
  assumes "read_mem m p (length (xs @ ys @ zs)) = xs @ ys @ zs"
  shows "read_mem m (p + length xs) (length ys) = ys"
proof -
  have "read_mem m p (length xs + (length ys + length zs)) = xs @ ys @ zs" using assms by (simp add: add.assoc)
  then have "read_mem m (p + length xs) (length ys + length zs) = ys @ zs"
    by (simp add: read_mem_append)
  then show ?thesis by (simp add: read_mem_append)
qed

text \<open>Shapes of what CSL and the copy engine deliver: 12-byte IVs, 16-byte tags, 32-bit key versions.\<close>

definition csl_shape :: "uvm_env \<Rightarrow> bool" where
  "csl_shape env \<longleftrightarrow> (\<forall>j. length (iv_bytes (env_iv env j)) = 12 \<and> env_key_version env j < 2 ^ 32) \<and>
     (\<forall>kv iv p. length (snd (env_ce_encrypt env kv iv p)) = 16)"

text \<open>Buffers of 112 that do not wrap and do not overlap.\<close>

definition decrypt_buffers_ok :: "decrypt_params \<Rightarrow> bool" where
  "decrypt_buffers_ok pr \<longleftrightarrow>
     dp_cipher_buf pr + dp_total_size pr < 2 ^ 64 \<and> dp_plain_buf pr + dp_total_size pr < 2 ^ 64 \<and>
     (dp_plain_buf pr + dp_total_size pr \<le> dp_cipher_buf pr \<or> dp_cipher_buf pr + dp_total_size pr \<le> dp_plain_buf pr)"

abbreviation plains :: "uvm_env \<Rightarrow> copy_cfg \<Rightarrow> nat \<Rightarrow> byte list" where
  "plains env cfg n \<equiv> concat (map (run_plain env cfg) [0..<n])"

abbreviation ciphers :: "uvm_env \<Rightarrow> copy_cfg \<Rightarrow> nat \<Rightarrow> byte list" where
  "ciphers env cfg n \<equiv> concat (map (\<lambda>j. fst (ce_transfer env cfg j)) [0..<n])"

lemma length_cipher: "csl_ok env \<Longrightarrow> length (fst (ce_transfer env cfg j)) = snd (cc_runs cfg ! j)"
  by (simp add: csl_ok_def ce_transfer_def)

lemma length_ciphers: "csl_ok env \<Longrightarrow> length (ciphers env cfg n) = length (plains env cfg n)"
  by (induction n) (simp_all add: length_cipher)

lemma plains_mono: "i \<le> n \<Longrightarrow> length (plains env cfg i) \<le> length (plains env cfg n)"
  by (induction rule: dec_induct) auto

lemma concat_split_at: "i < n \<Longrightarrow> concat (map f [0..<n]) = concat (map f [0..<i]) @ f i @ concat (map f [Suc i..<n])"
  using upt_add_eq_append [of 0 i "n - i"] upt_conv_Cons [of i n] by simp

lemma transfer_meta_wf:
  "csl_shape env \<Longrightarrow> snd (cc_runs cfg ! j) \<le> UVM_CONF_COMPUTING_DMA_BUFFER_SIZE \<Longrightarrow> meta_wf (transfer_meta env cfg j)"
  by (simp add: meta_wf_def transfer_meta_def csl_shape_def ce_transfer_def log_gpu_encryption_def)

lemma iv_eta: "\<lparr>iv_bytes = iv_bytes r, iv_fresh = iv_fresh r\<rparr> = r"
  by simp

lemma decrypt_loop_step:
  assumes "csl_ok env" "csl_shape env" "env_mem_ok env" "decrypt_buffers_ok pr"
    and "\<forall>j < length (cc_runs cfg). 0 < snd (cc_runs cfg ! j) \<and> snd (cc_runs cfg ! j) \<le> UVM_CONF_COMPUTING_DMA_BUFFER_SIZE"
    and "length (plains env cfg (length (cc_runs cfg))) \<le> dp_total_size pr"
    and "read_mem m0 (dp_cipher_buf pr) (length (ciphers env cfg (length (cc_runs cfg)))) = ciphers env cfg (length (cc_runs cfg))"
    and "i < length (cc_runs cfg)"
  shows "decrypt_loop env pr (all_meta env cfg) (Suc k) i (length (plains env cfg i)) (write_mem m0 (dp_plain_buf pr) (plains env cfg i)) =
    decrypt_loop env pr (all_meta env cfg) k (Suc i) (length (plains env cfg (Suc i))) (write_mem m0 (dp_plain_buf pr) (plains env cfg (Suc i)))"
proof -
  let ?nr = "length (cc_runs cfg)" and ?off = "length (plains env cfg i)" and ?n = "snd (cc_runs cfg ! i)"
  have e: "meta_entry (all_meta env cfg) i = Some (transfer_meta env cfg i)"
    using assms(2,5,8) by (intro meta_entry_all transfer_meta_wf) auto
  have sz: "cm_size (transfer_meta env cfg i) = ?n" by (simp add: transfer_meta_def)
  have le: "?off + ?n \<le> dp_total_size pr"
    using plains_mono [of "Suc i" ?nr env cfg] assms(6,8) by simp
  have u: "u64 (dp_cipher_buf pr + ?off) = dp_cipher_buf pr + ?off" "u64 (dp_plain_buf pr + ?off) = dp_plain_buf pr + ?off" "u64 (?off + ?n) = ?off + ?n"
    using le assms(4) by (auto simp: decrypt_buffers_ok_def intro!: u64_small)
  have rd0: "read_mem m0 (dp_cipher_buf pr + ?off) ?n = fst (ce_transfer env cfg i)"
    using read_mem_slice [OF assms(7) [unfolded concat_split_at [OF assms(8)]]] length_ciphers [OF assms(1), of cfg i]
    by (simp add: length_cipher [OF assms(1)])
  have rd: "read_mem (write_mem m0 (dp_plain_buf pr) (plains env cfg i)) (dp_cipher_buf pr + ?off) ?n = fst (ce_transfer env cfg i)"
    using rd0 assms(4) le by (subst read_write_disjoint) (auto simp: decrypt_buffers_ok_def)
  have dec: "cpu_decrypt env (cm_key_version (transfer_meta env cfg i)) \<lparr>iv_bytes = cm_iv (transfer_meta env cfg i), iv_fresh = cm_iv_fresh (transfer_meta env cfg i)\<rparr>
      (fst (ce_transfer env cfg i)) (cm_auth_tag (transfer_meta env cfg i)) = (NV_OK, run_plain env cfg i)"
    using assms(1) by (simp add: transfer_meta_def cpu_decrypt_def ce_transfer_def csl_ok_def iv_eta)
  have "env_copy env a n" for a n using assms(3) by (simp add: env_mem_ok_def)
  moreover have "0 < ?n" "\<not> ?n > UVM_CONF_COMPUTING_DMA_BUFFER_SIZE" using assms(5,8) by auto
  ultimately show ?thesis
    using le u rd dec
    by (simp add: e sz Let_def write_mem_append)
qed

lemma decrypt_loop_correct:
  assumes "csl_ok env" "csl_shape env" "env_mem_ok env" "decrypt_buffers_ok pr"
    and "\<forall>j < length (cc_runs cfg). 0 < snd (cc_runs cfg ! j) \<and> snd (cc_runs cfg ! j) \<le> UVM_CONF_COMPUTING_DMA_BUFFER_SIZE"
    and "length (plains env cfg (length (cc_runs cfg))) \<le> dp_total_size pr"
    and "read_mem m0 (dp_cipher_buf pr) (length (ciphers env cfg (length (cc_runs cfg)))) = ciphers env cfg (length (cc_runs cfg))"
    and "i + k = length (cc_runs cfg)"
  shows "decrypt_loop env pr (all_meta env cfg) k i (length (plains env cfg i)) (write_mem m0 (dp_plain_buf pr) (plains env cfg i)) =
    Some (NV_OK, write_mem m0 (dp_plain_buf pr) (plains env cfg (length (cc_runs cfg))))"
  using assms(8)
proof (induction k arbitrary: i)
  case (Suc k)
  then have "i < length (cc_runs cfg)" by simp
  from decrypt_loop_step [OF assms(1-7) this, of k] Suc.IH [of "Suc i"] Suc.prems show ?case by simp
qed simp

text \<open>What is at the GPU buffer and at the metadata after a ciphertext read.\<close>

definition areas_disjoint :: "read_params \<Rightarrow> nat \<Rightarrow> nat \<Rightarrow> bool" where
  "areas_disjoint pr tot nt \<longleftrightarrow>
     (rp_gpu_buf pr + tot \<le> rp_residency_map pr \<or> rp_residency_map pr + n_pages pr \<le> rp_gpu_buf pr) \<and>
     (rp_gpu_buf pr + tot \<le> rp_crypto_meta pr \<or> rp_crypto_meta pr + nt * META_SIZE \<le> rp_gpu_buf pr)"

lemma request_cfg_ok: "params_ok vss pr \<Longrightarrow> cfg_ok (request_cfg ci d vss pr)"
  unfolding request_cfg_def by (rule pages_ok_read_cfg [OF request_pages_ok])

lemma request_plains:
  assumes "params_ok vss pr"
  shows "plains env (request_cfg ci d vss pr) (length (cc_runs (request_cfg ci d vss pr))) =
    gpu_section env (request_gpu vss (rp_base pr) (rp_gpu_uuid pr)) (request_visits d vss (rp_base pr) (rp_length pr))"
  using plain_concat [OF request_cfg_ok [OF assms]]
  by (simp add: request_cfg_def read_cfg_def gpu_list_bytes gpu_section_def)

lemma request_run_sizes:
  assumes "params_ok vss pr" "j < length (cc_runs (request_cfg ci d vss pr))"
  shows "0 < snd (cc_runs (request_cfg ci d vss pr) ! j) \<and> snd (cc_runs (request_cfg ci d vss pr) ! j) \<le> UVM_CONF_COMPUTING_DMA_BUFFER_SIZE"
proof -
  have "good_run (cc_pages (request_cfg ci d vss pr)) UVM_CONF_COMPUTING_DMA_BUFFER_SIZE (cc_runs (request_cfg ci d vss pr) ! j)"
    using request_cfg_ok [OF assms(1), of ci d] assms(2) by (simp add: cfg_ok_def)
  then show ?thesis by (simp add: good_run_def)
qed

lemma length_all_meta:
  assumes "params_ok vss pr" "csl_shape env"
  shows "length (all_meta env (request_cfg True d vss pr)) = length (cc_runs (request_cfg True d vss pr)) * META_SIZE"
proof -
  let ?cfg = "request_cfg True d vss pr"
  have "length (enc_meta (transfer_meta env ?cfg j)) = META_SIZE" if "j < length (cc_runs ?cfg)" for j
    using transfer_meta_wf [OF assms(2)] request_run_sizes [OF assms(1) that] length_enc_meta by blast
  then show ?thesis
    unfolding all_meta_def
    using length_concat_blocks [of "[0..<length (cc_runs ?cfg)]" "\<lambda>j. enc_meta (transfer_meta env ?cfg j)" META_SIZE] by simp
qed

lemma cipher_image_contents:
  assumes "params_ok vss pr" "csl_ok env" "csl_shape env" "rp_crypto_meta pr \<noteq> 0" "cfg = request_cfg True d vss pr"
    and "areas_disjoint pr (length (plains env cfg (length (cc_runs cfg)))) (length (cc_runs cfg))"
  shows "read_mem (cipher_image d env vss pr m) (rp_gpu_buf pr) (length (ciphers env cfg (length (cc_runs cfg)))) = ciphers env cfg (length (cc_runs cfg))"
    and "read_mem (cipher_image d env vss pr m) (rp_crypto_meta pr) (length (cc_runs cfg) * META_SIZE) = all_meta env cfg"
proof -
  note lm = length_all_meta [OF assms(1,3), of d, folded assms(5)]
  let ?c = "ciphers env cfg (length (cc_runs cfg))"
  have img: "cipher_image d env vss pr m = write_mem (write_mem (write_mem (cpu_image d vss pr m) (rp_gpu_buf pr) ?c) (rp_residency_map pr)
      (request_resmap d vss (rp_base pr) (rp_length pr) (rp_gpu_uuid pr))) (rp_crypto_meta pr) (all_meta env cfg)"
    using assms(4) by (simp add: cipher_image_def Let_def read_image_alt assms(5))
  have d1: "rp_gpu_buf pr + length ?c \<le> rp_crypto_meta pr \<or> rp_crypto_meta pr + length (all_meta env cfg) \<le> rp_gpu_buf pr"
    using assms(6) length_ciphers [OF assms(2), of cfg "length (cc_runs cfg)"] lm by (simp add: areas_disjoint_def)
  have d2: "rp_gpu_buf pr + length ?c \<le> rp_residency_map pr \<or>
      rp_residency_map pr + length (request_resmap d vss (rp_base pr) (rp_length pr) (rp_gpu_uuid pr)) \<le> rp_gpu_buf pr"
    using assms(6) length_ciphers [OF assms(2), of cfg "length (cc_runs cfg)"] by (simp add: areas_disjoint_def n_pages_def)
  show "read_mem (cipher_image d env vss pr m) (rp_gpu_buf pr) (length ?c) = ?c"
    unfolding img read_write_disjoint [OF d1] read_write_disjoint [OF d2] by (simp add: read_write_same)
  show "read_mem (cipher_image d env vss pr m) (rp_crypto_meta pr) (length (cc_runs cfg) * META_SIZE) = all_meta env cfg"
    unfolding img using lm by (simp add: read_write_same)
qed

section \<open>The kernel's metadata copy\<close>

lemma decrypt_loop_in_bounds: "(i + k) * META_SIZE \<le> length mb \<Longrightarrow> decrypt_loop env pr mb k i off m \<noteq> None"
proof (induction k arbitrary: i off m)
  case (Suc k)
  have "(i + 1) * META_SIZE \<le> (i + Suc k) * META_SIZE" by (rule mult_le_mono1) simp
  then have "meta_entry mb i \<noteq> None" using Suc.prems by (simp add: meta_entry_def)
  with Suc show ?case by (auto simp: Let_def split: prod.splits)
qed simp

lemma decrypt_enters_loop:
  assumes "decrypt_check env pr = NV_OK" "env_cc env" "env_mem_ok env" "find_gpu gpus (dp_gpu_uuid pr) \<noteq> None"
    and "env_push_begin env 0 = NV_OK" "env_push_wait env 0 = NV_OK"
  shows "uvm_api_live_migration_decrypt_encrypted_pages env gpus pr m =
    decrypt_loop env pr (read_mem m (dp_crypto_meta pr) (meta_alloc_size pr)) (dp_num_transfers pr) 0 0 m"
proof -
  have "env_copy env a n" "env_alloc env site n" for a n site using assms(3) by (simp_all add: env_mem_ok_def)
  then show ?thesis using assms by (auto simp: uvm_api_live_migration_decrypt_encrypted_pages_def)
qed

lemma decrypt_loop_short: "0 < k \<Longrightarrow> meta_entry mb i = None \<Longrightarrow> decrypt_loop env pr mb k i off m = None"
  by (cases k) simp_all

text \<open>Writes stay inside the plaintext buffer when decryption keeps the length.\<close>

definition csl_length :: "uvm_env \<Rightarrow> bool" where
  "csl_length env \<longleftrightarrow> (\<forall>kv iv c t p. env_csl_decrypt env kv iv c t = (NV_OK, p) \<longrightarrow> length p = length c)"

lemma decrypt_loop_frame:
  assumes "decrypt_loop env pr mb k i off m = Some (st, m')" "csl_length env"
    and "dp_plain_buf pr + dp_total_size pr < 2 ^ 63" "off \<le> dp_total_size pr"
    and "x < dp_plain_buf pr \<or> dp_plain_buf pr + dp_total_size pr \<le> x"
  shows "m' x = m x"
  using assms(1,4)
proof (induction k arbitrary: i off m)
  case (Suc k)
  from Suc.prems(1) obtain me where me: "meta_entry mb i = Some me" by (auto split: option.splits)
  let ?n = "cm_size me" and ?b = "u64 (dp_plain_buf pr + off)"
  obtain st1 plain where d: "cpu_decrypt env (cm_key_version me) \<lparr>iv_bytes = cm_iv me, iv_fresh = cm_iv_fresh me\<rparr>
      (read_mem m (u64 (dp_cipher_buf pr + off)) ?n) (cm_auth_tag me) = (st1, plain)" by fastforce
  show ?case
  proof (cases "m' = m")
    case False
    with Suc.prems(1) me d have step: "decrypt_loop env pr mb k (i + 1) (off + ?n) (write_mem m ?b plain) = Some (st, m')"
      and ok: "st1 = NV_OK" "u64 (off + ?n) \<le> dp_total_size pr" "?n \<le> UVM_CONF_COMPUTING_DMA_BUFFER_SIZE"
      by (auto simp: Let_def split: if_splits)
    have "off + ?n < 2 ^ 64" using Suc.prems(2) assms(3) ok(3) by simp
    then have le: "off + ?n \<le> dp_total_size pr" using ok(2) by (simp add: u64_small)
    have len: "length plain = ?n" using d ok(1) assms(2) by (auto simp: csl_length_def cpu_decrypt_def)
    have b: "?b = dp_plain_buf pr + off" using le assms(3) by (intro u64_small) simp
    have "write_mem m ?b plain x = m x" using assms(5) le len by (intro write_mem_out) (auto simp: b)
    then show ?thesis using Suc.IH [OF step le] by simp
  qed simp
qed simp

lemma copy_chunks_frame:
  assumes "copy_chunks env pr off m = (st, m')" "dp_plain_buf pr + dp_total_size pr < 2 ^ 63"
    and "x < dp_plain_buf pr \<or> dp_plain_buf pr + dp_total_size pr \<le> x"
  shows "m' x = m x"
  using assms
proof (induction env pr off m rule: copy_chunks.induct)
  case (1 env pr off m)
  let ?n = "min PAGE_SIZE (dp_total_size pr - off)" and ?a = "u64 (dp_cipher_buf pr + off)" and ?b = "u64 (dp_plain_buf pr + off)"
  show ?case
  proof (cases "off < dp_total_size pr \<and> env_copy env ?a ?n \<and> env_copy env ?b ?n")
    case True
    then have rec: "copy_chunks env pr (off + PAGE_SIZE) (write_mem m ?b (read_mem m ?a ?n)) = (st, m')"
      using "1.prems"(1) by (subst (asm) copy_chunks.simps) (simp add: Let_def)
    have b: "?b = dp_plain_buf pr + off" using True "1.prems"(2) by (intro u64_small) simp
    have "write_mem m ?b (read_mem m ?a ?n) x = m x"
      using "1.prems"(3) True by (intro write_mem_out) (auto simp: b)
    moreover have "m' x = write_mem m ?b (read_mem m ?a ?n) x"
      by (rule "1.IH" [OF _ refl refl refl _ rec "1.prems"(2,3)]) (use True in auto)
    ultimately show ?thesis by simp
  next
    case False
    then show ?thesis
      using "1.prems"(1) by (subst (asm) copy_chunks.simps) (auto simp: Let_def split: if_splits)
  qed
qed

section \<open>A sample call\<close>

definition sample_dp :: decrypt_params where
  "sample_dp = \<lparr>dp_cipher_buf = 1048576, dp_plain_buf = 2097152, dp_total_size = 4096, dp_crypto_meta = 131072,
     dp_num_transfers = 1, dp_gpu_uuid = zero_uuid\<rparr>"

lemma sample_env_shape: "csl_shape sample_env" "csl_length sample_env"
  by (auto simp: csl_shape_def csl_length_def sample_env_def)

lemma sample_gpu_visit: "gpu_visit (request_gpu [sample_vs] 2097152 zero_uuid) (sample_block, 2097152)"
  by (simp add: gpu_visit_def is_gpu_page_def is_cpu_page_def request_gpu_def sample_find resolve_gpu_def page_index_def del: find_va_space.simps)
     (simp add: sample_vs_def sample_block_def)

lemma sample_section:
  "length (gpu_section sample_env (request_gpu [sample_vs] (rp_base sample_pr) (rp_gpu_uuid sample_pr))
     (request_visits False [sample_vs] (rp_base sample_pr) (rp_length sample_pr))) = 4096"
  using sample_gpu_visit by (simp add: sample_pr_def gpu_section_def gpu_phys_list_def sample_visits)

lemma sample_run_count: "length (cc_runs (request_cfg True False [sample_vs] sample_pr)) = 1"
  using sample_gpu_visit
  by (simp add: request_cfg_def read_cfg_def sample_pr_def gpu_phys_list_def sample_visits coalesce_from.simps extend_run.simps)

section \<open>Properties\<close>



text \<open>
  as long as the byte size of the metadata array does not overflow, 112 never reads its
  copy of the metadata out of bounds, and whatever the metadata says and however it ends, it
  writes nowhere but into the plaintext buffer.
\<close>

theorem decrypt_memory_safe:
  assumes "dp_num_transfers pr * META_SIZE < 2 ^ 64"
  shows "\<exists>st m'. uvm_api_live_migration_decrypt_encrypted_pages env gpus pr m = Some (st, m') \<and>
    (csl_length env \<and> dp_plain_buf pr + dp_total_size pr < 2 ^ 63 \<longrightarrow>
       (\<forall>x. x < dp_plain_buf pr \<or> dp_plain_buf pr + dp_total_size pr \<le> x \<longrightarrow> m' x = m x))"
proof -
  let ?mb = "read_mem m (dp_crypto_meta pr) (meta_alloc_size pr)"
  have "meta_alloc_size pr = dp_num_transfers pr * META_SIZE" using assms by (simp add: meta_alloc_size_def u64_small)
  then obtain st2 m2 where l: "decrypt_loop env pr ?mb (dp_num_transfers pr) 0 0 m = Some (st2, m2)"
    using decrypt_loop_in_bounds [of 0 "dp_num_transfers pr" ?mb env pr 0 m] by fastforce
  obtain st1 m1 where c: "copy_chunks env pr 0 m = (st1, m1)" by fastforce
  have f1: "m1 x = m x" if "dp_plain_buf pr + dp_total_size pr < 2 ^ 63" "x < dp_plain_buf pr \<or> dp_plain_buf pr + dp_total_size pr \<le> x" for x
    by (rule copy_chunks_frame [OF c that])
  have f2: "m2 x = m x" if "csl_length env" "dp_plain_buf pr + dp_total_size pr < 2 ^ 63" "x < dp_plain_buf pr \<or> dp_plain_buf pr + dp_total_size pr \<le> x" for x
    by (rule decrypt_loop_frame [OF l that(1,2) _ that(3)]) simp
  show ?thesis
    using f1 f2 by (simp add: uvm_api_live_migration_decrypt_encrypted_pages_def l c)
qed

theorem decrypt_memory_safe_witness:
  "\<exists>st m'. uvm_api_live_migration_decrypt_encrypted_pages sample_env [] sample_dp (\<lambda>_. 0) = Some (st, m')"
  using decrypt_memory_safe [of sample_dp sample_env "[]" "\<lambda>_. 0"] by (auto simp: sample_dp_def)

text \<open>
  the byte size of the metadata array is a 64-bit product without an overflow check:
  with 10348173504763894809 transfers it wraps to one byte, so the kernel allocates and
  copies one byte and then reads a 41-byte entry from it.
\<close>

theorem decrypt_size_overflow:
  "meta_alloc_size (sample_dp\<lparr>dp_num_transfers := 10348173504763894809\<rparr>) = 1 \<and>
   uvm_api_live_migration_decrypt_encrypted_pages sample_env [\<lparr>gpu_id = 1, gpu_uuid = replicate 16 1\<rparr>]
     (sample_dp\<lparr>dp_num_transfers := 10348173504763894809\<rparr>) m = None"
proof -
  let ?dp = "sample_dp\<lparr>dp_num_transfers := 10348173504763894809\<rparr>"
  have sz: "meta_alloc_size ?dp = 1" by (simp add: meta_alloc_size_def u64_def)
  have l: "decrypt_loop sample_env ?dp (read_mem m (dp_crypto_meta ?dp) 1) (dp_num_transfers ?dp) 0 0 m = None"
    by (rule decrypt_loop_short) (simp_all add: meta_entry_def)
  have e: "env_cc sample_env" "env_push_begin sample_env 0 = NV_OK" "env_push_wait sample_env 0 = NV_OK" "env_capable sample_env"
    by (simp_all add: sample_env_def)
  have chk: "decrypt_check sample_env ?dp = NV_OK" by (simp add: decrypt_check_def e) (simp add: sample_dp_def)
  have g: "find_gpu [\<lparr>gpu_id = 1, gpu_uuid = replicate 16 1\<rparr>] (dp_gpu_uuid ?dp) \<noteq> None" by (simp add: find_gpu_def sample_dp_def)
  from decrypt_enters_loop [OF chk e(1) sample_env_mem g e(2,3), of m] l sz show ?thesis by simp
qed

text \<open>
  a caller without the capability, no transfers, no bytes or a missing buffer: 112
  refuses and leaves memory as it was; with confidential computing it also refuses when no
  GPU has the UUID asked for.
\<close>

theorem decrypt_reject:
  "(\<not> env_capable env \<longrightarrow> uvm_api_live_migration_decrypt_encrypted_pages env gpus pr m = Some (NV_ERR_INSUFFICIENT_PERMISSIONS, m)) \<and>
   (env_capable env \<and> 0 \<in> {dp_num_transfers pr, dp_total_size pr, dp_cipher_buf pr, dp_plain_buf pr, dp_crypto_meta pr} \<longrightarrow>
      uvm_api_live_migration_decrypt_encrypted_pages env gpus pr m = Some (NV_ERR_INVALID_ARGUMENT, m)) \<and>
   (decrypt_check env pr = NV_OK \<and> env_mem_ok env \<and> env_cc env \<and> dp_gpu_uuid pr \<noteq> zero_uuid \<and> dp_gpu_uuid pr \<notin> gpu_uuid ` set gpus \<longrightarrow>
      uvm_api_live_migration_decrypt_encrypted_pages env gpus pr m = Some (NV_ERR_INVALID_DEVICE, m))"
proof -
  have "find_gpu gpus (dp_gpu_uuid pr) = None" if "dp_gpu_uuid pr \<noteq> zero_uuid" "dp_gpu_uuid pr \<notin> gpu_uuid ` set gpus"
    using that by (force simp: find_gpu_def find_None_iff)
  then show ?thesis
    by (auto simp: uvm_api_live_migration_decrypt_encrypted_pages_def decrypt_check_def env_mem_ok_def)
qed

theorem decrypt_reject_witness:
  "uvm_api_live_migration_decrypt_encrypted_pages sample_env [] (sample_dp\<lparr>dp_gpu_uuid := replicate 16 1\<rparr>) (\<lambda>_. 0) =
     Some (NV_ERR_INVALID_DEVICE, \<lambda>_. 0)"
proof -
  let ?dp = "sample_dp\<lparr>dp_gpu_uuid := replicate 16 1\<rparr>"
  have "decrypt_check sample_env ?dp = NV_OK \<and> env_cc sample_env" by (simp add: decrypt_check_def sample_dp_def sample_env_def)
  moreover have "dp_gpu_uuid ?dp \<noteq> zero_uuid \<and> dp_gpu_uuid ?dp \<notin> gpu_uuid ` set []" by (simp add: zero_uuid_def)
  ultimately show ?thesis using decrypt_reject [of sample_env "[]" ?dp "\<lambda>_. 0"] sample_env_mem by blast
qed

end
