(* ===== verification/Image_Format.thy ===== *)
theory Image_Format
  imports Decrypt_Ioctl
begin

text \<open>
  The checkpoint images of \<open>ckpt_core.c\<close>: the baseline image (\<open>write_baseline\<close>), the delta image
  (\<open>write_delta\<close>), and the delta image written through a mapping by several threads
  (\<open>write_delta_parallel\<close>). A file is its size and its bytes. Sizes are not wrapped: images are
  far smaller than the address space. Timing output is not modelled.
\<close>

section \<open>Captures, headers and descriptors\<close>

text \<open>\<open>range_capture_t\<close>; the buffers may be longer than what is used of them.\<close>

record range_capture =
  rc_base :: nat
  rc_length :: nat
  rc_n_pages :: nat
  rc_cpu_bytes :: nat
  rc_gpu_bytes :: nat
  rc_enc_count :: nat                     \<comment> \<open>\<open>encrypted_page_count\<close>\<close>
  rc_resmap :: "byte list"
  rc_cpu_buf :: "byte list"
  rc_gpu_buf :: "byte list"
  rc_crypto_meta :: "byte list option"    \<comment> \<open>\<open>NULL\<close> is \<open>None\<close>\<close>

text \<open>\<open>ckpt_v2_range_desc_t\<close> and \<open>ckpt_inc_delta_block_t\<close>, which have the same layout.\<close>

record range_desc =
  rd_base_va :: nat
  rd_length :: nat
  rd_num_pages :: nat
  rd_data_offset :: nat
  rd_resmap_size :: nat
  rd_cpu_bytes :: nat
  rd_gpu_bytes :: nat
  rd_crypto_meta_bytes :: nat

definition enc_desc :: "range_desc \<Rightarrow> byte list" where
  "enc_desc d = le_bytes 8 (rd_base_va d) @ le_bytes 8 (rd_length d) @ le_bytes 8 (rd_num_pages d) @
     le_bytes 8 (rd_data_offset d) @ le_bytes 8 (rd_resmap_size d) @ le_bytes 8 (rd_cpu_bytes d) @
     le_bytes 8 (rd_gpu_bytes d) @ le_bytes 8 (rd_crypto_meta_bytes d)"

abbreviation DESC_SIZE :: nat where "DESC_SIZE \<equiv> 64"
abbreviation V2_HDR_SIZE :: nat where "V2_HDR_SIZE \<equiv> 24"
abbreviation DELTA_HDR_SIZE :: nat where "DELTA_HDR_SIZE \<equiv> 40"
abbreviation CKPT_V2_MAGIC :: nat where "CKPT_V2_MAGIC \<equiv> 3267543746"
abbreviation CKPT_INC_DELTA_MAGIC :: nat where "CKPT_INC_DELTA_MAGIC \<equiv> 3726090241"

text \<open>\<open>ckpt_v2_file_hdr_t\<close> and \<open>ckpt_inc_delta_hdr_t\<close>; version and page size as written.\<close>

definition enc_v2_hdr :: "nat \<Rightarrow> nat \<Rightarrow> nat \<Rightarrow> byte list" where
  "enc_v2_hdr ver num_ranges tot =
     le_bytes 4 CKPT_V2_MAGIC @ le_bytes 4 ver @ le_bytes 4 num_ranges @ le_bytes 4 4096 @ le_bytes 8 tot"

definition enc_delta_hdr :: "nat \<Rightarrow> nat \<Rightarrow> nat \<Rightarrow> nat \<Rightarrow> byte list" where
  "enc_delta_hdr num_blocks va sz dirty =
     le_bytes 4 CKPT_INC_DELTA_MAGIC @ le_bytes 4 1 @ le_bytes 4 num_blocks @ le_bytes 4 4096 @
     le_bytes 8 va @ le_bytes 8 sz @ le_bytes 8 dirty"

section \<open>Layout\<close>

definition cap_meta_bytes :: "range_capture \<Rightarrow> nat" where
  "cap_meta_bytes c = (if rc_crypto_meta c \<noteq> None \<and> 0 < rc_enc_count c then rc_enc_count c * META_SIZE else 0)"

definition cap_bytes :: "range_capture \<Rightarrow> nat" where
  "cap_bytes c = rc_n_pages c + rc_cpu_bytes c + rc_gpu_bytes c + cap_meta_bytes c"

definition desc_of :: "nat \<Rightarrow> range_capture \<Rightarrow> range_desc" where
  "desc_of off c =
     \<lparr>rd_base_va = rc_base c, rd_length = rc_length c, rd_num_pages = rc_n_pages c, rd_data_offset = off,
      rd_resmap_size = rc_n_pages c, rd_cpu_bytes = rc_cpu_bytes c, rd_gpu_bytes = rc_gpu_bytes c,
      rd_crypto_meta_bytes = cap_meta_bytes c\<rparr>"

text \<open>The loop that fills the descriptors and advances \<open>cur_off\<close>.\<close>

fun build_descs :: "nat \<Rightarrow> range_capture list \<Rightarrow> range_desc list" where
  "build_descs off [] = []"
| "build_descs off (c # cs) = desc_of off c # build_descs (off + cap_bytes c) cs"

definition cap_meta :: "range_capture \<Rightarrow> byte list" where
  "cap_meta c = (case rc_crypto_meta c of None \<Rightarrow> [] | Some b \<Rightarrow> take (cap_meta_bytes c) b)"

definition cap_sections :: "range_capture \<Rightarrow> byte list" where
  "cap_sections c = take (rc_n_pages c) (rc_resmap c) @ take (rc_cpu_bytes c) (rc_cpu_buf c) @
     take (rc_gpu_bytes c) (rc_gpu_buf c) @ cap_meta c"

definition v2_data_off :: "range_capture list \<Rightarrow> nat" where
  "v2_data_off caps = V2_HDR_SIZE + length caps * DESC_SIZE"

definition delta_data_off :: "range_capture list \<Rightarrow> nat" where
  "delta_data_off caps = DELTA_HDR_SIZE + length caps * DESC_SIZE"

section \<open>Files and the I/O environment\<close>

record ckpt_file =
  fl_size :: nat
  fl_bytes :: mem

definition file_list :: "ckpt_file \<Rightarrow> byte list" where
  "file_list f = read_mem (fl_bytes f) 0 (fl_size f)"

text \<open>Growing fills with zeros.\<close>

definition file_resize :: "nat \<Rightarrow> ckpt_file \<Rightarrow> ckpt_file" where
  "file_resize n f = \<lparr>fl_size = n, fl_bytes = (\<lambda>a. if a < fl_size f \<and> a < n then fl_bytes f a else 0)\<rparr>"

definition file_write :: "nat \<Rightarrow> byte list \<Rightarrow> ckpt_file \<Rightarrow> ckpt_file" where
  "file_write p bs f = \<lparr>fl_size = max (fl_size f) (p + length bs), fl_bytes = write_mem (fl_bytes f) p bs\<rparr>"

record io_env =
  io_malloc :: "nat \<Rightarrow> bool"
  io_open :: bool
  io_fstat :: bool
  io_truncate :: "nat \<Rightarrow> bool"
  io_mmap :: "nat \<Rightarrow> bool"
  io_fwrite :: "nat \<Rightarrow> bool"            \<comment> \<open>the k-th \<open>fwrite\<close> writes everything\<close>
  io_write :: "nat \<Rightarrow> nat \<Rightarrow> nat"      \<comment> \<open>position, chunk: bytes written, 0 for an error\<close>
  io_no_image_write :: bool            \<comment> \<open>\<open>g_no_image_write\<close>\<close>
  io_writers :: "int option"           \<comment> \<open>\<open>CKPT_WRITER_THREADS\<close>\<close>
  io_sched :: "(nat \<times> byte list) list list \<Rightarrow> (nat \<times> byte list) list"

section \<open>The baseline image\<close>

definition base_image :: "range_capture list \<Rightarrow> nat \<Rightarrow> byte list" where
  "base_image caps ver =
     enc_v2_hdr ver (length caps) (sum_list (map rc_length caps)) @
     concat (map enc_desc (build_descs (v2_data_off caps) caps)) @ concat (map cap_sections caps)"

definition align_up :: "nat \<Rightarrow> nat \<Rightarrow> nat" where
  "align_up x a = (x + a - 1) div a * a"

text \<open>The \<open>write\<close> loop, in chunks of at most 256 MB.\<close>

function write_loop :: "io_env \<Rightarrow> byte list \<Rightarrow> nat \<Rightarrow> ckpt_file \<Rightarrow> bool \<times> ckpt_file" where
  "write_loop io img written f =
     (if written < length img then
        let chunk = min (length img - written) 268435456; ret = min chunk (io_write io written chunk)
        in if ret = 0 then (False, f)
           else write_loop io img (written + ret) (file_write written (take ret (drop written img)) f)
      else (True, f))"
  by pat_completeness auto
termination
proof (relation "measure (\<lambda>(io, img, written, f). length img - written)")
  fix io :: io_env and img :: "byte list" and written chunk ret :: nat and f :: ckpt_file
  assume "written < length img" "ret \<noteq> 0"
  then have "length img - (written + ret) < length img - written" by (intro diff_less_mono2) simp_all
  then show "((io, img, written + ret, file_write written (take ret (drop written img)) f), io, img, written, f)
      \<in> measure (\<lambda>(io, img, written, f). length img - written)"
    by (simp only: in_measure case_prod_conv)
qed simp

declare write_loop.simps [simp del]

definition write_baseline :: "io_env \<Rightarrow> range_capture list \<Rightarrow> nat \<Rightarrow> ckpt_file \<Rightarrow> bool \<times> ckpt_file" where
  "write_baseline io caps ver old =
     (let img = base_image caps ver; asz = align_up (length img) 4096
      in if \<not> io_malloc io (length caps * DESC_SIZE) then (False, old)
         else if \<not> io_malloc io asz then (False, old)
         else if \<not> io_open io then (False, old)
         else if io_fstat io \<and> fl_size old < asz \<and> \<not> io_truncate io asz then (False, old)
         else let f0 = (if io_fstat io \<and> fl_size old < asz then file_resize asz old else old)
              in case write_loop io (img @ replicate (asz - length img) 0) 0 f0 of
                (ok, f1) \<Rightarrow> (ok, if ok \<and> io_truncate io (length img) then file_resize (length img) f1 else f1))"

section \<open>The delta image\<close>

definition delta_image :: "range_capture list \<Rightarrow> nat \<Rightarrow> nat \<Rightarrow> nat \<Rightarrow> byte list" where
  "delta_image caps va sz dirty =
     enc_delta_hdr (length caps) va sz dirty @
     concat (map enc_desc (build_descs (delta_data_off caps) caps)) @ concat (map cap_sections caps)"

text \<open>The sequence of \<open>fwrite\<close> calls.\<close>

definition delta_fwrites :: "range_capture list \<Rightarrow> nat \<Rightarrow> nat \<Rightarrow> nat \<Rightarrow> byte list list" where
  "delta_fwrites caps va sz dirty =
     enc_delta_hdr (length caps) va sz dirty # concat (map enc_desc (build_descs (delta_data_off caps) caps)) #
     concat (map (\<lambda>c. [take (rc_n_pages c) (rc_resmap c), take (rc_cpu_bytes c) (rc_cpu_buf c), take (rc_gpu_bytes c) (rc_gpu_buf c)] @
       (if rc_crypto_meta c \<noteq> None \<and> 0 < rc_enc_count c then [cap_meta c] else [])) caps)"

fun fwrites :: "io_env \<Rightarrow> nat \<Rightarrow> byte list list \<Rightarrow> ckpt_file \<Rightarrow> bool \<times> ckpt_file" where
  "fwrites io k [] f = (True, f)"
| "fwrites io k (b # bs) f = (if b = [] \<or> io_fwrite io k then fwrites io (k + 1) bs (file_write (fl_size f) b f) else (False, f))"

definition write_delta :: "io_env \<Rightarrow> range_capture list \<Rightarrow> nat \<Rightarrow> nat \<Rightarrow> nat \<Rightarrow> ckpt_file \<Rightarrow> bool \<times> ckpt_file" where
  "write_delta io caps va sz dirty old =
     (if \<not> io_malloc io (max 1 (length caps) * DESC_SIZE) then (False, old)
      else if \<not> io_open io then (False, old)
      else fwrites io 0 (delta_fwrites caps va sz dirty) \<lparr>fl_size = 0, fl_bytes = (\<lambda>_. 0)\<rparr>)"

section \<open>The delta image, written in parallel\<close>

text \<open>Here the metadata size does not depend on the metadata pointer.\<close>

definition par_meta_bytes :: "range_capture \<Rightarrow> nat" where
  "par_meta_bytes c = rc_enc_count c * META_SIZE"

fun par_descs :: "nat \<Rightarrow> range_capture list \<Rightarrow> range_desc list" where
  "par_descs off [] = []"
| "par_descs off (c # cs) = (desc_of off c)\<lparr>rd_crypto_meta_bytes := par_meta_bytes c\<rparr> #
     par_descs (off + rc_n_pages c + rc_cpu_bytes c + rc_gpu_bytes c + par_meta_bytes c) cs"

definition region_writes :: "range_desc \<Rightarrow> range_capture \<Rightarrow> (nat \<times> byte list) list" where
  "region_writes d c =
     [(rd_data_offset d, take (rd_resmap_size d) (rc_resmap c)),
      (rd_data_offset d + rd_resmap_size d, take (rd_cpu_bytes d) (rc_cpu_buf c)),
      (rd_data_offset d + rd_resmap_size d + rd_cpu_bytes d, take (rd_gpu_bytes d) (rc_gpu_buf c))] @
     (if rd_crypto_meta_bytes d \<noteq> 0 then
        [(rd_data_offset d + rd_resmap_size d + rd_cpu_bytes d + rd_gpu_bytes d,
          take (rd_crypto_meta_bytes d) (case rc_crypto_meta c of None \<Rightarrow> [] | Some b \<Rightarrow> b))] else [])"

definition delta_writer_thread :: "range_desc list \<Rightarrow> range_capture list \<Rightarrow> nat \<times> nat \<Rightarrow> (nat \<times> byte list) list" where
  "delta_writer_thread descs caps sl = concat (map (\<lambda>i. region_writes (descs ! i) (caps ! i)) (slice_idx sl))"

definition n_writers :: "int option \<Rightarrow> nat \<Rightarrow> nat" where
  "n_writers req num_blocks =
     (let n = (case req of None \<Rightarrow> 8 | Some r \<Rightarrow> r); n1 = (if n < 1 then 1 else if n > 16 then 16 else nat n)
      in if num_blocks \<noteq> 0 \<and> n1 > num_blocks then num_blocks else n1)"

definition put_bytes :: "nat \<times> byte list \<Rightarrow> mem \<Rightarrow> mem" where
  "put_bytes w m = write_mem m (fst w) (snd w)"

definition write_delta_parallel :: "io_env \<Rightarrow> range_capture list \<Rightarrow> nat \<Rightarrow> nat \<Rightarrow> nat \<Rightarrow> ckpt_file \<Rightarrow> bool \<times> ckpt_file" where
  "write_delta_parallel io caps va sz dirty old =
     (let descs = par_descs (delta_data_off caps) caps;
          isz = delta_data_off caps + sum_list (map (\<lambda>c. rc_n_pages c + rc_cpu_bytes c + rc_gpu_bytes c + par_meta_bytes c) caps)
      in if \<not> io_malloc io (max 1 (length caps) * DESC_SIZE) then (False, old)
         else if io_no_image_write io then (io_mmap io isz, old)
         else if \<not> io_open io then (False, old)
         else if \<not> io_fstat io then (False, old)
         else if fl_size old < isz \<and> \<not> io_truncate io isz then (False, old)
         else let f0 = (if fl_size old < isz then file_resize isz old else old)
              in if \<not> io_mmap io isz then (False, f0)
                 else let m1 = write_mem (fl_bytes f0) 0 (enc_delta_hdr (length caps) va sz dirty);
                          m2 = write_mem m1 DELTA_HDR_SIZE (concat (map enc_desc descs));
                          acts = map (delta_writer_thread descs caps) (split_work (length caps) (n_writers (io_writers io) (length caps)))
                      in (True, f0\<lparr>fl_bytes := fold put_bytes (io_sched io acts) m2\<rparr>))"

section \<open>Layout lemmas\<close>

text \<open>A capture whose buffers hold what it says they hold.\<close>

definition cap_wf :: "range_capture \<Rightarrow> bool" where
  "cap_wf c \<longleftrightarrow> rc_n_pages c \<le> length (rc_resmap c) \<and> rc_cpu_bytes c \<le> length (rc_cpu_buf c) \<and>
     rc_gpu_bytes c \<le> length (rc_gpu_buf c) \<and>
     (0 < rc_enc_count c \<longrightarrow> (\<exists>b. rc_crypto_meta c = Some b \<and> rc_enc_count c * META_SIZE \<le> length b))"

lemma length_enc_desc [simp, layout_simps]: "length (enc_desc d) = DESC_SIZE"
  by (simp add: enc_desc_def)

lemma length_hdrs [simp, layout_simps]:
  "length (enc_v2_hdr ver n tot) = V2_HDR_SIZE" "length (enc_delta_hdr n va sz dirty) = DELTA_HDR_SIZE"
  by (simp_all add: enc_v2_hdr_def enc_delta_hdr_def)

lemma length_build_descs [simp]: "length (build_descs off caps) = length caps"
  by (induction caps arbitrary: off) auto

lemma length_enc_descs [simp]: "length (concat (map enc_desc ds)) = length ds * DESC_SIZE"
  by (induction ds) auto

lemma length_cap_meta: "cap_wf c \<Longrightarrow> length (cap_meta c) = cap_meta_bytes c"
  by (auto simp: cap_wf_def cap_meta_def cap_meta_bytes_def split: option.splits)

lemma length_cap_sections: "cap_wf c \<Longrightarrow> length (cap_sections c) = cap_bytes c"
  using length_cap_meta [of c] by (simp add: cap_sections_def cap_bytes_def) (simp add: cap_wf_def)

lemma length_sections: "\<forall>c \<in> set caps. cap_wf c \<Longrightarrow> length (concat (map cap_sections caps)) = sum_list (map cap_bytes caps)"
  by (induction caps) (simp_all add: length_cap_sections)

text \<open>The sections of capture \<open>i\<close> are at the offset its descriptor names.\<close>

lemma build_descs_data:
  assumes "i < length caps" "\<forall>c \<in> set caps. cap_wf c" "length pre = off"
  shows "rd_data_offset (build_descs off caps ! i) + cap_bytes (caps ! i) \<le> off + length (concat (map cap_sections caps)) \<and>
    take (cap_bytes (caps ! i)) (drop (rd_data_offset (build_descs off caps ! i)) (pre @ concat (map cap_sections caps) @ junk)) =
      cap_sections (caps ! i) \<and>
    build_descs off caps ! i = desc_of (rd_data_offset (build_descs off caps ! i)) (caps ! i)"
  using assms
proof (induction caps arbitrary: i off pre)
  case (Cons c cs)
  have l: "length (cap_sections c) = cap_bytes c" using Cons.prems(2) by (simp add: length_cap_sections)
  show ?case
  proof (cases i)
    case 0
    then show ?thesis using Cons.prems(3) l by (simp add: desc_of_def)
  next
    case (Suc j)
    have "length (pre @ cap_sections c) = off + cap_bytes c" using Cons.prems(3) l by simp
    from Cons.IH [OF _ _ this, of j] Suc Cons.prems l show ?thesis by (simp del: take_append drop_append add: add.assoc)
  qed
qed simp

lemma desc_of_simps [simp]:
  "rd_base_va (desc_of off c) = rc_base c" "rd_length (desc_of off c) = rc_length c" "rd_num_pages (desc_of off c) = rc_n_pages c"
  "rd_data_offset (desc_of off c) = off" "rd_resmap_size (desc_of off c) = rc_n_pages c" "rd_cpu_bytes (desc_of off c) = rc_cpu_bytes c"
  "rd_gpu_bytes (desc_of off c) = rc_gpu_bytes c" "rd_crypto_meta_bytes (desc_of off c) = cap_meta_bytes c"
  by (simp_all add: desc_of_def)

section \<open>The serial writers\<close>

lemma write_loop_step:
  assumes "written < length img" "chunk = min (length img - written) 268435456" "ret = min chunk (io_write io written chunk)" "ret \<noteq> 0"
  shows "write_loop io img written f = write_loop io img (written + ret) (file_write written (take ret (drop written img)) f)"
  by (subst write_loop.simps) (simp only: Let_def assms(1) if_True assms(2) [symmetric] assms(3) [symmetric] assms(4) if_False)

lemma write_loop_stop:
  assumes "\<not> written < length img \<or> ret = 0" "chunk = min (length img - written) 268435456" "ret = min chunk (io_write io written chunk)"
  shows "write_loop io img written f = (\<not> written < length img, f)"
proof (cases "written < length img")
  case True
  then have "ret = 0" using assms(1) by simp
  with True show ?thesis
    by (subst write_loop.simps) (simp only: Let_def if_True assms(2) [symmetric] assms(3) [symmetric] not_True_eq_False simp_thms)
qed (simp add: write_loop.simps)

lemma write_loop_success:
  assumes "write_loop io img written f = (True, f')" "written \<le> length img"
  shows "fl_bytes f' = write_mem (fl_bytes f) written (drop written img) \<and>
    (written \<le> fl_size f \<longrightarrow> fl_size f' = max (fl_size f) (length img))"
  using assms
proof (induction "length img - written" arbitrary: written f rule: less_induct)
  case less
  define chunk where "chunk = min (length img - written) 268435456"
  define ret where "ret = min chunk (io_write io written chunk)"
  show ?case
  proof (cases "written < length img \<and> ret \<noteq> 0")
    case True
    let ?bs = "take ret (drop written img)"
    have rec: "write_loop io img (written + ret) (file_write written ?bs f) = (True, f')"
      using less.prems(1) write_loop_step [OF _ chunk_def ret_def] True by simp
    have "ret \<le> length img - written" unfolding ret_def chunk_def by (rule min.coboundedI1) (rule min.cobounded1)
    then have le: "written + ret \<le> length img" using True by linarith
    then have len: "length ?bs = ret" by simp
    have app: "write_mem (write_mem m written ?bs) (written + ret) (drop (written + ret) img) = write_mem m written (drop written img)" for m
      using write_mem_append [of m written ?bs "drop (written + ret) img"] len
      by (metis add.commute append_take_drop_id drop_drop)
    have dec: "length img - (written + ret) < length img - written" using True by linarith
    show ?thesis
      using less.hyps [OF dec rec le] le len app [of "fl_bytes f"] by (auto simp: file_write_def max_def)
  next
    case False
    then show ?thesis
      using write_loop_stop [OF _ chunk_def ret_def, of f] less.prems(1,2) by auto
  qed
qed

lemma fwrites_success:
  "fwrites io k bs f = (True, f') \<Longrightarrow>
   f' = \<lparr>fl_size = fl_size f + length (concat bs), fl_bytes = write_mem (fl_bytes f) (fl_size f) (concat bs)\<rparr>"
proof (induction bs arbitrary: k f)
  case (Cons b bs)
  then have "fwrites io (k + 1) bs (file_write (fl_size f) b f) = (True, f')" by (auto split: if_splits)
  from Cons.IH [OF this] show ?case by (simp add: file_write_def write_mem_append)
qed simp

lemma delta_fwrites_concat: "concat (delta_fwrites caps va sz dirty) = delta_image caps va sz dirty"
proof -
  have "concat ([take (rc_n_pages c) (rc_resmap c), take (rc_cpu_bytes c) (rc_cpu_buf c), take (rc_gpu_bytes c) (rc_gpu_buf c)] @
       (if rc_crypto_meta c \<noteq> None \<and> 0 < rc_enc_count c then [cap_meta c] else [])) = cap_sections c" for c
    by (auto simp: cap_sections_def cap_meta_def cap_meta_bytes_def split: option.splits)
  then have "concat (concat (map (\<lambda>c. [take (rc_n_pages c) (rc_resmap c), take (rc_cpu_bytes c) (rc_cpu_buf c), take (rc_gpu_bytes c) (rc_gpu_buf c)] @
       (if rc_crypto_meta c \<noteq> None \<and> 0 < rc_enc_count c then [cap_meta c] else [])) caps)) = concat (map cap_sections caps)"
    by (induction caps) auto
  then show ?thesis by (simp add: delta_fwrites_def delta_image_def)
qed

lemma write_delta_success:
  assumes "write_delta io caps va sz dirty old = (True, f)"
  shows "file_list f = delta_image caps va sz dirty"
proof -
  have "fwrites io 0 (delta_fwrites caps va sz dirty) \<lparr>fl_size = 0, fl_bytes = (\<lambda>_. 0)\<rparr> = (True, f)"
    using assms by (auto simp: write_delta_def split: if_splits)
  from fwrites_success [OF this] show ?thesis
    by (simp add: delta_fwrites_concat file_list_def read_write_same)
qed

lemma read_mem_take: "k \<le> n \<Longrightarrow> take k (read_mem m p n) = read_mem m p k"
  by (simp add: read_mem_def take_map)

lemma align_up_ge: "0 < a \<Longrightarrow> x \<le> align_up x a"
  unfolding align_up_def using div_mult_mod_eq [of "x + a - 1" a] mod_less_divisor [of a "x + a - 1"] by linarith

lemma write_baseline_success:
  assumes "write_baseline io caps ver old = (True, f)"
  shows "take (length (base_image caps ver)) (file_list f) = base_image caps ver"
    and "io_truncate io (length (base_image caps ver)) \<Longrightarrow> file_list f = base_image caps ver"
proof -
  define img where "img = base_image caps ver"
  define asz where "asz = align_up (length img) 4096"
  define f0 where "f0 = (if io_fstat io \<and> fl_size old < asz then file_resize asz old else old)"
  obtain ok f1 where w0: "write_loop io (img @ replicate (asz - length img) 0) 0 f0 = (ok, f1)" by fastforce
  have wb: "write_baseline io caps ver old = (True, f)" by (rule assms)
  have wf: "ok \<and> f = (if io_truncate io (length img) then file_resize (length img) f1 else f1)"
    using wb unfolding write_baseline_def Let_def img_def [symmetric] asz_def [symmetric] f0_def [symmetric] w0 prod.case
    by (auto split: if_splits)
  then have w: "write_loop io (img @ replicate (asz - length img) 0) 0 f0 = (True, f1)"
    and f: "f = (if io_truncate io (length img) then file_resize (length img) f1 else f1)"
    using w0 by simp_all
  have le: "length img \<le> asz" unfolding asz_def by (rule align_up_ge) simp
  have f1: "fl_bytes f1 = write_mem (fl_bytes f0) 0 (img @ replicate (asz - length img) 0)"
    and sz0: "length img \<le> fl_size f1"
    using write_loop_success [OF w] le by simp_all
  have rd: "read_mem (write_mem m 0 (img @ zs)) 0 (length img) = img" for m zs
    by (rule nth_equalityI) (simp_all add: write_mem_def nth_append)
  have rz: "read_mem (fl_bytes (file_resize (length img) f1)) 0 (length img) = img"
  proof -
    have "read_mem (fl_bytes (file_resize (length img) f1)) 0 (length img) = read_mem (fl_bytes f1) 0 (length img)"
      by (rule read_mem_cong) (use le sz0 f1 in \<open>simp add: file_resize_def\<close>)
    then show ?thesis using f1 rd by simp
  qed
  show "take (length (base_image caps ver)) (file_list f) = base_image caps ver"
    unfolding img_def [symmetric] using f f1 rd rz le sz0
    by (auto simp: file_list_def read_mem_take file_resize_def)
  show "file_list f = base_image caps ver" if "io_truncate io (length (base_image caps ver))"
    unfolding img_def [symmetric] using f that rz by (simp add: img_def [symmetric] file_list_def file_resize_def)
qed

section \<open>The parallel writer\<close>

definition writes_disjoint :: "nat \<times> byte list \<Rightarrow> nat \<times> byte list \<Rightarrow> bool" where
  "writes_disjoint v w \<longleftrightarrow> fst v + length (snd v) \<le> fst w \<or> fst w + length (snd w) \<le> fst v"

interpretation file_writes: indep_actions put_bytes writes_disjoint
  by unfold_locales (auto simp: put_bytes_def writes_disjoint_def write_mem_commute)

text \<open>Writes that follow each other without a gap.\<close>

fun contig :: "nat \<Rightarrow> (nat \<times> byte list) list \<Rightarrow> bool" where
  "contig p [] \<longleftrightarrow> True"
| "contig p (w # ws) \<longleftrightarrow> fst w = p \<and> contig (p + length (snd w)) ws"

lemma contig_append: "contig p (xs @ ys) \<longleftrightarrow> contig p xs \<and> contig (p + length (concat (map snd xs))) ys"
  by (induction xs arbitrary: p) (auto simp: add.assoc)

lemma contig_fold: "contig p ws \<Longrightarrow> fold put_bytes ws m = write_mem m p (concat (map snd ws))"
proof (induction ws arbitrary: p m)
  case (Cons w ws)
  then have "contig (p + length (snd w)) ws" by simp
  from Cons.IH [OF this, of "write_mem m p (snd w)"] Cons.prems show ?case
    by (simp add: put_bytes_def [of w] write_mem_append)
qed simp

lemma contig_ge: "contig p ws \<Longrightarrow> w \<in> set ws \<Longrightarrow> p \<le> fst w"
  by (induction ws arbitrary: p) (auto dest: add_leD1)

lemma contig_indep: "contig p ws \<Longrightarrow> pairwise_indep writes_disjoint ws"
proof (induction ws arbitrary: p)
  case (Cons w ws)
  then have "pairwise_indep writes_disjoint ws" using Cons.IH [of "p + length (snd w)"] by simp
  moreover have "writes_disjoint w v \<and> writes_disjoint v w" if "v \<in> set ws" for v
    using contig_ge [OF _ that, of "p + length (snd w)"] Cons.prems by (auto simp: writes_disjoint_def)
  ultimately show ?case by (auto simp: pairwise_indep_def)
qed (simp add: pairwise_indep_def)

lemma par_meta: "cap_wf c \<Longrightarrow> par_meta_bytes c = cap_meta_bytes c"
  by (auto simp: par_meta_bytes_def cap_meta_bytes_def cap_wf_def)

lemma par_descs_eq: "\<forall>c \<in> set caps. cap_wf c \<Longrightarrow> par_descs off caps = build_descs off caps"
  by (induction caps arbitrary: off) (simp_all add: par_meta desc_of_def cap_bytes_def add.assoc)

lemma region_writes_contig:
  assumes "cap_wf c"
  shows "contig off (region_writes (desc_of off c) c)"
    and "concat (map snd (region_writes (desc_of off c) c)) = cap_sections c"
  using assms
  by (auto simp: region_writes_def cap_sections_def cap_wf_def cap_meta_def cap_meta_bytes_def split: option.splits)

lemma regions_contig:
  assumes "\<forall>c \<in> set caps. cap_wf c"
  shows "contig off (concat (map2 region_writes (build_descs off caps) caps))"
    and "concat (map snd (concat (map2 region_writes (build_descs off caps) caps))) = concat (map cap_sections caps)"
  using assms
proof (induction caps arbitrary: off)
  case (Cons c cs)
  case 1
  then show ?case using Cons(1) [of "off + cap_bytes c"] region_writes_contig [of c off]
    by (simp add: contig_append length_cap_sections)
  case 2
  then show ?case using Cons(2) [of "off + cap_bytes c"] region_writes_contig [of c off] by simp
qed simp_all

lemma map2_nth: "length xs = length ys \<Longrightarrow> map2 f xs ys = map (\<lambda>i. f (xs ! i) (ys ! i)) [0..<length ys]"
  by (rule nth_equalityI) auto

lemma n_writers_pos: "0 < n_writers req n"
  by (simp add: n_writers_def Let_def)

lemma threads_writes:
  "length descs = length caps \<Longrightarrow>
   concat (map (delta_writer_thread descs caps) (split_work (length caps) (n_writers req (length caps)))) = concat (map2 region_writes descs caps)"
  using even_split.slices_cover [OF n_writers_pos [of req "length caps"], of "length caps"]
  unfolding delta_writer_thread_def concat_map_concat by (simp add: map2_nth)

lemma image_size_eq:
  "\<forall>c \<in> set caps. cap_wf c \<Longrightarrow>
   sum_list (map (\<lambda>c. rc_n_pages c + rc_cpu_bytes c + rc_gpu_bytes c + par_meta_bytes c) caps) = length (concat (map cap_sections caps))"
  by (induction caps) (simp_all add: length_cap_sections cap_bytes_def par_meta)

lemma length_delta_image:
  "length (delta_image caps va sz dirty) = delta_data_off caps + length (concat (map cap_sections caps))"
  by (simp add: delta_image_def delta_data_off_def)

lemma write_delta_parallel_success:
  assumes "write_delta_parallel io caps va sz dirty old = (True, f)" "\<not> io_no_image_write io"
    and "\<forall>c \<in> set caps. cap_wf c" "\<forall>ws. io_sched io ws \<in> interleave ws"
  shows "take (length (delta_image caps va sz dirty)) (file_list f) = delta_image caps va sz dirty"
proof -
  define isz where "isz = length (delta_image caps va sz dirty)"
  define f0 where "f0 = (if fl_size old < isz then file_resize isz old else old)"
  define descs where "descs = build_descs (delta_data_off caps) caps"
  let ?hdr = "enc_delta_hdr (length caps) va sz dirty" and ?ws = "concat (map2 region_writes descs caps)"
  let ?acts = "map (delta_writer_thread descs caps) (split_work (length caps) (n_writers (io_writers io) (length caps)))"
  define m2 where "m2 = write_mem (fl_bytes f0) 0 (?hdr @ concat (map enc_desc descs))"
  have sz: "isz \<le> fl_size f0" by (simp add: f0_def file_resize_def)
  have "delta_data_off caps + sum_list (map (\<lambda>c. rc_n_pages c + rc_cpu_bytes c + rc_gpu_bytes c + par_meta_bytes c) caps) = isz"
    by (simp add: isz_def length_delta_image image_size_eq [OF assms(3)])
  moreover have "write_mem (write_mem (fl_bytes f0) 0 ?hdr) DELTA_HDR_SIZE (concat (map enc_desc descs)) = m2"
    using write_mem_append [of "fl_bytes f0" 0 ?hdr] by (simp add: m2_def)
  ultimately have f: "f = f0\<lparr>fl_bytes := fold put_bytes (io_sched io ?acts) m2\<rparr>"
    using assms(1,2) unfolding write_delta_parallel_def Let_def par_descs_eq [OF assms(3)] descs_def [symmetric]
    by (simp add: f0_def split: if_splits)
  have "contig (delta_data_off caps) ?ws" unfolding descs_def by (rule regions_contig(1) [OF assms(3)])
  then have "fold put_bytes (io_sched io ?acts) m2 = write_mem m2 (delta_data_off caps) (concat (map snd ?ws))"
    using file_writes.schedule_irrelevant [of ?acts "io_sched io ?acts" m2] assms(4) threads_writes [of descs caps "io_writers io"]
    by (simp add: descs_def contig_indep contig_fold)
  also have "\<dots> = write_mem (fl_bytes f0) 0 (delta_image caps va sz dirty)"
    using write_mem_append [of "fl_bytes f0" 0 "?hdr @ concat (map enc_desc descs)" "concat (map cap_sections caps)"]
    by (simp add: m2_def descs_def regions_contig(2) [OF assms(3)] delta_image_def delta_data_off_def)
  finally show ?thesis
    using sz by (simp add: f file_list_def read_mem_take read_write_same isz_def)
qed

section \<open>What the writers promise\<close>

text \<open>An environment in which every call succeeds, with the threads run one after the other.\<close>

definition good_io :: io_env where
  "good_io = \<lparr>io_malloc = (\<lambda>_. True), io_open = True, io_fstat = True, io_truncate = (\<lambda>_. True), io_mmap = (\<lambda>_. True),
     io_fwrite = (\<lambda>_. True), io_write = (\<lambda>_ n. n), io_no_image_write = False, io_writers = None, io_sched = concat\<rparr>"

lemma good_io_simps [simp]:
  "io_malloc good_io n" "io_open good_io" "io_fstat good_io" "io_truncate good_io n" "io_mmap good_io n" "io_fwrite good_io n"
  "io_write good_io p n = n" "\<not> io_no_image_write good_io" "io_sched good_io = concat"
  by (simp_all add: good_io_def)

lemma fwrites_good: "fst (fwrites good_io k bs f)"
  by (induction bs arbitrary: k f) auto

lemma write_loop_good: "fst (write_loop good_io img written f)"
proof (induction "length img - written" arbitrary: written f rule: less_induct)
  case less
  define ret where "ret = min (length img - written) (268435456::nat)"
  have r: "ret = min ret (io_write good_io written ret)" by simp
  show ?case
  proof (cases "written < length img \<and> ret \<noteq> 0")
    case True
    then have "length img - (written + ret) < length img - written" by linarith
    from less [OF this] show ?thesis using write_loop_step [OF _ ret_def r] True by simp
  next
    case False
    then have "\<not> written < length img" by (auto simp: ret_def)
    then show ?thesis using write_loop_stop [OF _ ret_def r] by simp
  qed
qed

lemma good_io_writes:
  "fst (write_baseline good_io caps ver old)" "fst (write_delta good_io caps va sz dirty old)"
  "fst (write_delta_parallel good_io caps va sz dirty old)"
proof -
  have "fst (case write_loop good_io img 0 f0 of (ok, f1) \<Rightarrow> (ok, h ok f1))" for img f0 and h :: "bool \<Rightarrow> ckpt_file \<Rightarrow> ckpt_file"
    using write_loop_good [of img 0 f0] by (simp add: case_prod_beta)
  then show "fst (write_baseline good_io caps ver old)"
    by (simp add: write_baseline_def Let_def)
qed (simp_all add: write_delta_def write_delta_parallel_def Let_def fwrites_good)

lemma write_baseline_image_parts:
  assumes "\<forall>c \<in> set caps. cap_wf c"
  shows "write_baseline io caps ver old = (True, f) \<Longrightarrow>
      take (length (base_image caps ver)) (file_list f) = base_image caps ver \<and>
      (io_truncate io (length (base_image caps ver)) \<longrightarrow> file_list f = base_image caps ver)"
    and "length (base_image caps ver) = v2_data_off caps + sum_list (map cap_bytes caps)"
    and "\<exists>g. write_baseline good_io caps ver old = (True, g)"
proof -
  show "length (base_image caps ver) = v2_data_off caps + sum_list (map cap_bytes caps)"
    using assms by (simp add: base_image_def v2_data_off_def length_sections)
  show "\<exists>g. write_baseline good_io caps ver old = (True, g)"
    using good_io_writes(1) [of caps ver old] by (metis prod.collapse)
qed (use write_baseline_success in blast)

text \<open>
  When the baseline writer reports success, whatever the sizes of the single \<open>write\<close> calls and the old
  contents and size of the preallocated file, the file starts with exactly the image (header, descriptors,
  sections in order, nothing of the zero padding or of the old file in between); when the final truncation
  succeeds too, the file is that image and nothing else. With no failing call it does report success.
\<close>
theorem write_baseline_image:
  assumes "\<forall>c \<in> set caps. cap_wf c"
  shows "(\<forall>f. write_baseline io caps ver old = (True, f) \<longrightarrow>
      take (length (base_image caps ver)) (file_list f) = base_image caps ver \<and>
      (io_truncate io (length (base_image caps ver)) \<longrightarrow> file_list f = base_image caps ver)) \<and>
    length (base_image caps ver) = v2_data_off caps + sum_list (map cap_bytes caps) \<and>
    (\<exists>g. write_baseline good_io caps ver old = (True, g))"
  using write_baseline_image_parts [OF assms] by blast

definition demo_cap :: range_capture where
  "demo_cap = \<lparr>rc_base = 8192, rc_length = 8192, rc_n_pages = 2, rc_cpu_bytes = 1, rc_gpu_bytes = 2, rc_enc_count = 0,
     rc_resmap = [0, 1], rc_cpu_buf = [7], rc_gpu_buf = [8, 9], rc_crypto_meta = None\<rparr>"

lemma demo_cap_wf: "cap_wf demo_cap"
  by (simp add: cap_wf_def demo_cap_def)

theorem write_baseline_image_witness:
  "file_list (snd (write_baseline good_io [demo_cap] 2 \<lparr>fl_size = 3, fl_bytes = (\<lambda>_. 5)\<rparr>)) = base_image [demo_cap] 2 \<and>
   length (base_image [demo_cap] 2) = 93"
proof -
  have wf: "\<forall>c \<in> set [demo_cap]. cap_wf c" by (simp add: demo_cap_wf)
  obtain g where g: "write_baseline good_io [demo_cap] 2 \<lparr>fl_size = 3, fl_bytes = (\<lambda>_. 5)\<rparr> = (True, g)"
    using write_baseline_image [OF wf] by blast
  show ?thesis
    using write_baseline_image [OF wf, of good_io 2 "\<lparr>fl_size = 3, fl_bytes = (\<lambda>_. 5)\<rparr>"] g
    by (simp add: v2_data_off_def cap_bytes_def cap_meta_bytes_def demo_cap_def)
qed

lemma write_delta_parallel_is_write_delta_parts:
  assumes "\<forall>c \<in> set caps. cap_wf c" "\<forall>ws. io_sched io ws \<in> interleave ws" "\<not> io_no_image_write io"
  shows "write_delta_parallel io caps va sz dirty old = (True, f) \<Longrightarrow> write_delta io' caps va sz dirty old' = (True, g) \<Longrightarrow>
      take (length (file_list g)) (file_list f) = file_list g"
    and "\<exists>f g. write_delta_parallel good_io caps va sz dirty old = (True, f) \<and> write_delta good_io caps va sz dirty old' = (True, g)"
proof -
  show "\<exists>f g. write_delta_parallel good_io caps va sz dirty old = (True, f) \<and> write_delta good_io caps va sz dirty old' = (True, g)"
    using good_io_writes(2,3) by (metis prod.collapse)
  assume "write_delta_parallel io caps va sz dirty old = (True, f)" "write_delta io' caps va sz dirty old' = (True, g)"
  then show "take (length (file_list g)) (file_list f) = file_list g"
    using write_delta_parallel_success assms write_delta_success by metis
qed

text \<open>
  C23: The parallel delta writer is the serial one: for every number of writer threads, every schedule of their
  copies and every old file, when both report success the file behind the mapping starts with exactly the bytes
  of the file the serial writer leaves. With no failing call both report success.
\<close>
theorem write_delta_parallel_is_write_delta:
  assumes "\<forall>c \<in> set caps. cap_wf c" "\<forall>ws. io_sched io ws \<in> interleave ws" "\<not> io_no_image_write io"
  shows "(\<forall>f g. write_delta_parallel io caps va sz dirty old = (True, f) \<longrightarrow> write_delta io' caps va sz dirty old' = (True, g) \<longrightarrow>
      take (length (file_list g)) (file_list f) = file_list g) \<and>
    (\<exists>f g. write_delta_parallel good_io caps va sz dirty old = (True, f) \<and> write_delta good_io caps va sz dirty old' = (True, g))"
  using write_delta_parallel_is_write_delta_parts [OF assms] by blast

theorem write_delta_parallel_is_write_delta_witness:
  "\<exists>f g. write_delta_parallel good_io [demo_cap, demo_cap] 8192 8192 1 \<lparr>fl_size = 300, fl_bytes = (\<lambda>_. 5)\<rparr> = (True, f) \<and>
     write_delta good_io [demo_cap, demo_cap] 8192 8192 1 \<lparr>fl_size = 0, fl_bytes = (\<lambda>_. 0)\<rparr> = (True, g) \<and>
     take (length (file_list g)) (file_list f) = file_list g"
proof -
  have h: "\<forall>c \<in> set [demo_cap, demo_cap]. cap_wf c" "\<forall>ws. io_sched good_io ws \<in> interleave ws" "\<not> io_no_image_write good_io"
    by (simp_all add: demo_cap_wf concat_in_interleave)
  from write_delta_parallel_is_write_delta [OF h] show ?thesis by metis
qed

end
