(* ===== verification/Restore_Image.thy ===== *)
theory Restore_Image
  imports Image_Format
begin

text \<open>
  The restore library \<open>librst_vllm.c\<close>: \<open>ckpt_restore_from_files\<close> reads a baseline and a delta image and
  rebuilds the memory of the checkpointed ranges in heap buffers, one per group of contiguous ranges.
  A call ends in \<open>Done\<close>, in \<open>Fail\<close> (the code's -1) or in \<open>Undefined\<close>, an access outside a heap buffer
  or a read of bytes that were never filled in.
\<close>

section \<open>Reading the images\<close>

datatype 'a outcome = Done 'a | Fail | Undefined

record rst_env =
  re_open :: "bool \<times> bool"                              \<comment> \<open>\<open>fopen\<close> of the baseline, of the delta\<close>
  re_alloc :: "nat \<Rightarrow> bool"                             \<comment> \<open>\<open>malloc\<close> and \<open>calloc\<close> by size\<close>
  re_qsort :: "range_desc list \<Rightarrow> range_desc list"      \<comment> \<open>\<open>qsort\<close> with \<open>cmp_range_va\<close>\<close>

text \<open>What C promises of \<open>qsort\<close>: a permutation in the order of the comparison.\<close>

definition qsort_ok :: "rst_env \<Rightarrow> bool" where
  "qsort_ok env \<longleftrightarrow> (\<forall>ds. mset (re_qsort env ds) = mset ds \<and> sorted (map rd_base_va (re_qsort env ds)))"

definition field :: "nat \<Rightarrow> nat \<Rightarrow> byte list \<Rightarrow> nat" where
  "field off n bs = le_nat (take n (drop off bs))"

definition dec_desc :: "byte list \<Rightarrow> range_desc" where
  "dec_desc bs =
     \<lparr>rd_base_va = field 0 8 bs, rd_length = field 8 8 bs, rd_num_pages = field 16 8 bs, rd_data_offset = field 24 8 bs,
      rd_resmap_size = field 32 8 bs, rd_cpu_bytes = field 40 8 bs, rd_gpu_bytes = field 48 8 bs,
      rd_crypto_meta_bytes = field 56 8 bs\<rparr>"

text \<open>\<open>fread\<close> of \<open>n\<close> descriptors at the current position: all of them or a short read.\<close>

definition read_descs :: "byte list \<Rightarrow> nat \<Rightarrow> nat \<Rightarrow> range_desc list option" where
  "read_descs f pos n =
     (if length f < pos + n * DESC_SIZE then None
      else Some (map (\<lambda>i. dec_desc (take DESC_SIZE (drop (pos + i * DESC_SIZE) f))) [0..<n]))"

definition read_bytes :: "byte list \<Rightarrow> nat \<Rightarrow> nat \<Rightarrow> byte list option" where
  "read_bytes f off n = (if n = 0 then Some [] else if length f < off + n then None else Some (take n (drop off f)))"

section \<open>Groups and page assembly\<close>

record group =
  g_va :: nat
  g_sz :: nat
  g_mem :: mem       \<comment> \<open>the heap buffer, by offset\<close>

text \<open>The page loop of \<open>assemble_data\<close>: page \<open>p\<close> of a range whose buffer starts at \<open>off\<close> of a group buffer of size \<open>sz\<close>.\<close>

fun assemble_loop ::
  "byte list \<Rightarrow> byte list \<Rightarrow> byte list \<Rightarrow> nat \<Rightarrow> nat \<Rightarrow> nat \<Rightarrow> nat \<Rightarrow> nat \<Rightarrow> nat \<Rightarrow> mem \<Rightarrow> mem outcome" where
  "assemble_loop rm cpu gpu sz off p 0 cpu_off gpu_off m = Done m"
| "assemble_loop rm cpu gpu sz off p (Suc n) cpu_off gpu_off m =
     (let dst = off + p * PAGE_SIZE
      in if length rm \<le> p then Undefined
         else if rm ! p = 0 then
           (if length cpu < cpu_off + PAGE_SIZE \<or> sz < dst + PAGE_SIZE then Undefined
            else assemble_loop rm cpu gpu sz off (p + 1) n (cpu_off + PAGE_SIZE) gpu_off
                   (write_mem m dst (take PAGE_SIZE (drop cpu_off cpu))))
         else if rm ! p = 1 then
           (if length gpu < gpu_off + PAGE_SIZE \<or> sz < dst + PAGE_SIZE then Undefined
            else assemble_loop rm cpu gpu sz off (p + 1) n cpu_off (gpu_off + PAGE_SIZE)
                   (write_mem m dst (take PAGE_SIZE (drop gpu_off gpu))))
         else assemble_loop rm cpu gpu sz off (p + 1) n cpu_off gpu_off m)"

definition assemble_data :: "rst_env \<Rightarrow> byte list \<Rightarrow> range_desc \<Rightarrow> group \<Rightarrow> group outcome" where
  "assemble_data env f d g =
     (if \<not> re_alloc env (rd_num_pages d) \<or> \<not> re_alloc env (max 1 (rd_cpu_bytes d)) \<or> \<not> re_alloc env (max 1 (rd_gpu_bytes d)) then Fail
      else if rd_num_pages d < rd_resmap_size d then Undefined
      else let cpu_sec_off = u64 (rd_data_offset d + rd_resmap_size d); gpu_sec_off = u64 (cpu_sec_off + rd_cpu_bytes d)
           in case (read_bytes f (rd_data_offset d) (rd_resmap_size d), read_bytes f cpu_sec_off (rd_cpu_bytes d),
                    read_bytes f gpu_sec_off (rd_gpu_bytes d)) of
                (Some rm, Some cpu, Some gpu) \<Rightarrow>
                  (case assemble_loop rm cpu gpu (g_sz g) (rd_base_va d - g_va g) 0 (rd_num_pages d) 0 0 (g_mem g) of
                     Done m \<Rightarrow> Done (g\<lparr>g_mem := m\<rparr>) | Fail \<Rightarrow> Fail | Undefined \<Rightarrow> Undefined)
              | _ \<Rightarrow> Fail)"

abbreviation MAX_GROUPS :: nat where "MAX_GROUPS \<equiv> 64"
abbreviation MAX_RANGES :: nat where "MAX_RANGES \<equiv> 256"

text \<open>Grouping the sorted ranges: the groups so far as (start, size), and \<open>range_group\<close>; \<open>None\<close> for too many groups.\<close>

fun group_ranges :: "range_desc list \<Rightarrow> (nat \<times> nat) list \<Rightarrow> nat list \<Rightarrow> ((nat \<times> nat) list \<times> nat list) option" where
  "group_ranges [] gs rg = Some (gs, rg)"
| "group_ranges (d # ds) gs rg =
     (let va_end = u64 (rd_base_va d + rd_length d); gend = u64 (fst (last gs) + snd (last gs))
      in if gs = [] \<or> gend < rd_base_va d then
           (if MAX_GROUPS \<le> length gs then None
            else group_ranges ds (gs @ [(rd_base_va d, rd_length d)]) (rg @ [length gs]))
         else group_ranges ds
                (if gend < va_end then butlast gs @ [(fst (last gs), u64 (snd (last gs) + (va_end - gend)))] else gs)
                (rg @ [length gs - 1]))"

fun assemble_ranges :: "rst_env \<Rightarrow> byte list \<Rightarrow> (range_desc \<times> nat) list \<Rightarrow> group list \<Rightarrow> group list outcome" where
  "assemble_ranges env f [] gs = Done gs"
| "assemble_ranges env f ((d, i) # ps) gs =
     (case assemble_data env f d (gs ! i) of
        Done g \<Rightarrow> assemble_ranges env f ps (gs[i := g]) | Fail \<Rightarrow> Fail | Undefined \<Rightarrow> Undefined)"

text \<open>The group a delta block lies in: the first one that holds it.\<close>

fun find_group :: "range_desc \<Rightarrow> nat \<Rightarrow> group list \<Rightarrow> nat option" where
  "find_group d i [] = None"
| "find_group d i (g # gs) =
     (if g_va g \<le> rd_base_va d \<and> u64 (rd_base_va d + rd_length d) \<le> u64 (g_va g + g_sz g) then Some i else find_group d (i + 1) gs)"

fun apply_blocks :: "rst_env \<Rightarrow> byte list \<Rightarrow> range_desc list \<Rightarrow> group list \<Rightarrow> group list outcome" where
  "apply_blocks env f [] gs = Done gs"
| "apply_blocks env f (d # ds) gs =
     (case find_group d 0 gs of None \<Rightarrow> Fail
      | Some i \<Rightarrow> (case assemble_data env f d (gs ! i) of
          Done g \<Rightarrow> apply_blocks env f ds (gs[i := g]) | Fail \<Rightarrow> Fail | Undefined \<Rightarrow> Undefined))"

section \<open>The two steps of a restore\<close>

definition restore_base :: "rst_env \<Rightarrow> byte list \<Rightarrow> group list outcome" where
  "restore_base env fb =
     (let n = field 8 4 fb
      in if \<not> fst (re_open env) then Fail
         else if length fb < V2_HDR_SIZE \<or> field 0 4 fb \<noteq> CKPT_V2_MAGIC then Fail
         else if MAX_RANGES < n then Fail
         else if \<not> re_alloc env (n * DESC_SIZE) then Fail
         else case read_descs fb V2_HDR_SIZE n of None \<Rightarrow> Fail
           | Some ds \<Rightarrow>
               (case group_ranges (re_qsort env ds) [] [] of None \<Rightarrow> Fail
                | Some (gs, rg) \<Rightarrow>
                    if \<not> list_all (\<lambda>g. re_alloc env (snd g)) gs then Fail
                    else assemble_ranges env fb (zip (re_qsort env ds) rg)
                           (map (\<lambda>g. \<lparr>g_va = fst g, g_sz = snd g, g_mem = (\<lambda>_. 0)\<rparr>) gs)))"

definition restore_delta :: "rst_env \<Rightarrow> byte list \<Rightarrow> group list \<Rightarrow> group list outcome" where
  "restore_delta env fd gs =
     (let n = field 8 4 fd
      in if \<not> snd (re_open env) then Fail
         else if length fd < DELTA_HDR_SIZE \<or> field 0 4 fd \<noteq> CKPT_INC_DELTA_MAGIC then Fail
         else if n = 0 then Done gs
         else if \<not> re_alloc env (n * DESC_SIZE) then Fail
         else case read_descs fd DELTA_HDR_SIZE n of None \<Rightarrow> Fail | Some ds \<Rightarrow> apply_blocks env fd ds gs)"

abbreviation MEM_BLOCK_SIZE :: nat where "MEM_BLOCK_SIZE \<equiv> 24"   \<comment> \<open>\<open>sizeof(ckpt_mem_block_t)\<close>\<close>

definition ckpt_restore_from_files :: "rst_env \<Rightarrow> byte list \<Rightarrow> byte list \<Rightarrow> group list outcome" where
  "ckpt_restore_from_files env fb fd =
     (case restore_base env fb of Fail \<Rightarrow> Fail | Undefined \<Rightarrow> Undefined
      | Done gs \<Rightarrow> (case restore_delta env fd gs of Fail \<Rightarrow> Fail | Undefined \<Rightarrow> Undefined
          | Done gs' \<Rightarrow> if re_alloc env (length gs' * MEM_BLOCK_SIZE) then Done gs' else Fail))"

section \<open>The specification: captures laid over a flat memory\<close>

text \<open>Page by page: 0 takes the next page of the CPU section, 1 the next of the GPU section, anything else leaves the page.\<close>

fun overlay :: "nat \<Rightarrow> byte list \<Rightarrow> byte list \<Rightarrow> byte list \<Rightarrow> mem \<Rightarrow> mem" where
  "overlay va [] cpu gpu m = m"
| "overlay va (r # rm) cpu gpu m =
     (if r = 0 then overlay (va + PAGE_SIZE) rm (drop PAGE_SIZE cpu) gpu (write_mem m va (take PAGE_SIZE cpu))
      else if r = 1 then overlay (va + PAGE_SIZE) rm cpu (drop PAGE_SIZE gpu) (write_mem m va (take PAGE_SIZE gpu))
      else overlay (va + PAGE_SIZE) rm cpu gpu m)"

definition apply_cap :: "range_capture \<Rightarrow> mem \<Rightarrow> mem" where
  "apply_cap c = overlay (rc_base c) (take (rc_n_pages c) (rc_resmap c)) (take (rc_cpu_bytes c) (rc_cpu_buf c)) (take (rc_gpu_bytes c) (rc_gpu_buf c))"

definition cap_end :: "range_capture \<Rightarrow> nat" where
  "cap_end c = rc_base c + rc_length c"

text \<open>A capture as the read ioctls fill it: whole pages, sections as long as the residency map says.\<close>

definition cap_ok :: "range_capture \<Rightarrow> bool" where
  "cap_ok c \<longleftrightarrow> cap_wf c \<and> rc_length c = rc_n_pages c * PAGE_SIZE \<and> 0 < rc_n_pages c \<and> cap_end c < 2 ^ 64 \<and>
     rc_cpu_bytes c = PAGE_SIZE * count_list (take (rc_n_pages c) (rc_resmap c)) 0 \<and>
     rc_gpu_bytes c = PAGE_SIZE * count_list (take (rc_n_pages c) (rc_resmap c)) 1"

definition caps_disjoint :: "range_capture \<Rightarrow> range_capture \<Rightarrow> bool" where
  "caps_disjoint c d \<longleftrightarrow> cap_ok c \<and> cap_ok d \<and> (cap_end c \<le> rc_base d \<or> cap_end d \<le> rc_base c)"

section \<open>Overlays\<close>

lemma overlay_shift: "m k = M (v + k) \<Longrightarrow> overlay off rm cpu gpu m k = overlay (v + off) rm cpu gpu M (v + k)"
proof (induction rm arbitrary: off cpu gpu m M)
  case (Cons r rm)
  have w: "write_mem m off bs k = write_mem M (v + off) bs (v + k)" for bs
    using Cons.prems by (auto simp: write_mem_def)
  show ?case
    using Cons.IH [of "write_mem m off (take PAGE_SIZE cpu)" "write_mem M (v + off) (take PAGE_SIZE cpu)"]
      Cons.IH [of "write_mem m off (take PAGE_SIZE gpu)" "write_mem M (v + off) (take PAGE_SIZE gpu)"] Cons.IH [of m M] Cons.prems w
    by (simp add: add.assoc)
qed simp

lemmas overlay_cong = overlay_shift [where v = 0, simplified]

lemma overlay_out: "a < va \<or> va + length rm * PAGE_SIZE \<le> a \<Longrightarrow> overlay va rm cpu gpu m a = m a"
proof (induction rm arbitrary: va cpu gpu m)
  case (Cons r rm)
  then have n: "a < va + PAGE_SIZE \<or> va + PAGE_SIZE + length rm * PAGE_SIZE \<le> a" and o: "a < va \<or> va + PAGE_SIZE \<le> a" by auto
  have "write_mem m va (take PAGE_SIZE bs) a = m a" for bs using o by (auto simp: write_mem_def)
  with Cons.IH [OF n] show ?case by simp
qed simp

text \<open>The loop is the overlay, when the sections are as long as the map says and the buffer has room.\<close>

lemma assemble_loop_overlay:
  "p + n = length rm \<Longrightarrow> off + (p + n) * PAGE_SIZE \<le> sz \<Longrightarrow>
   cpu_off + PAGE_SIZE * count_list (drop p rm) 0 \<le> length cpu \<Longrightarrow> gpu_off + PAGE_SIZE * count_list (drop p rm) 1 \<le> length gpu \<Longrightarrow>
   assemble_loop rm cpu gpu sz off p n cpu_off gpu_off m =
     Done (overlay (off + p * PAGE_SIZE) (drop p rm) (drop cpu_off cpu) (drop gpu_off gpu) m)"
proof (induction n arbitrary: p cpu_off gpu_off m)
  case (Suc n)
  have d: "drop p rm = rm ! p # drop (Suc p) rm" using Suc.prems(1) by (simp add: Cons_nth_drop_Suc)
  have e: "off + (p + 1) * PAGE_SIZE = off + p * PAGE_SIZE + PAGE_SIZE" by simp
  have sz: "off + p * PAGE_SIZE + PAGE_SIZE \<le> sz" using Suc.prems(2) by simp
  consider "rm ! p = 0" | "rm ! p = 1" | "rm ! p \<noteq> 0" "rm ! p \<noteq> 1" by blast
  then show ?case
  proof cases
    case 1
    then show ?thesis
      using Suc.prems Suc.IH [of "p + 1" "cpu_off + PAGE_SIZE" gpu_off] sz by (simp add: d e add.commute add.left_commute)
  next
    case 2
    then show ?thesis
      using Suc.prems Suc.IH [of "p + 1" cpu_off "gpu_off + PAGE_SIZE"] sz by (simp add: d e add.commute add.left_commute)
  next
    case 3
    then show ?thesis
      using Suc.prems Suc.IH [of "p + 1" cpu_off gpu_off] by (simp add: d e add.commute add.left_commute)
  qed
qed simp

lemma apply_cap_out: "a < rc_base c \<or> rc_base c + rc_n_pages c * PAGE_SIZE \<le> a \<Longrightarrow> apply_cap c m a = m a"
  unfolding apply_cap_def by (rule overlay_out) (auto simp: min_def intro: order_trans [rotated])

lemma apply_cap_cong: "m a = m' a \<Longrightarrow> apply_cap c m a = apply_cap c m' a"
  unfolding apply_cap_def by (rule overlay_cong)

interpretation cap_writes: indep_actions apply_cap caps_disjoint
proof
  fix c d m
  assume "caps_disjoint c d"
  then have dj: "cap_end c \<le> rc_base d \<or> cap_end d \<le> rc_base c"
    and l: "cap_end c = rc_base c + rc_n_pages c * PAGE_SIZE" "cap_end d = rc_base d + rc_n_pages d * PAGE_SIZE"
    by (auto simp: caps_disjoint_def cap_ok_def cap_end_def)
  show "apply_cap c (apply_cap d m) = apply_cap d (apply_cap c m)"
  proof
    fix a
    show "apply_cap c (apply_cap d m) a = apply_cap d (apply_cap c m) a"
    proof (cases "rc_base c \<le> a \<and> a < cap_end c")
      case True
      then have "apply_cap d m' a = m' a" for m' using dj l by (intro apply_cap_out) auto
      then show ?thesis using apply_cap_cong [of "apply_cap d m" a m c] by simp
    next
      case False
      then have "apply_cap c m' a = m' a" for m' using l by (intro apply_cap_out) auto
      then show ?thesis using apply_cap_cong [of "apply_cap c m" a m d] by simp
    qed
  qed
qed

section \<open>Descriptors survive the file\<close>

definition desc_small :: "range_desc \<Rightarrow> bool" where
  "desc_small d \<longleftrightarrow> rd_base_va d < 2 ^ 64 \<and> rd_length d < 2 ^ 64 \<and> rd_num_pages d < 2 ^ 64 \<and> rd_data_offset d < 2 ^ 64 \<and>
     rd_resmap_size d < 2 ^ 64 \<and> rd_cpu_bytes d < 2 ^ 64 \<and> rd_gpu_bytes d < 2 ^ 64 \<and> rd_crypto_meta_bytes d < 2 ^ 64"

lemma dec_enc_desc: "desc_small d \<Longrightarrow> dec_desc (enc_desc d) = d"
  by (simp add: desc_small_def dec_desc_def enc_desc_def field_def le_nat_le_bytes)

lemma take_drop_concat_descs:
  "i < length ds \<Longrightarrow> take DESC_SIZE (drop (i * DESC_SIZE) (concat (map enc_desc ds) @ r)) = enc_desc (ds ! i)"
proof (induction ds arbitrary: i)
  case (Cons d ds)
  then show ?case by (cases i) simp_all
qed simp

lemma read_descs_image:
  assumes "\<forall>d \<in> set ds. desc_small d" "length h = pos"
  shows "read_descs (h @ concat (map enc_desc ds) @ r) pos (length ds) = Some ds"
proof -
  have "map (\<lambda>i. dec_desc (take DESC_SIZE (drop (pos + i * DESC_SIZE) (h @ concat (map enc_desc ds) @ r)))) [0..<length ds] = ds"
    by (rule nth_equalityI) (use assms take_drop_concat_descs [of _ ds r] in \<open>simp_all add: dec_enc_desc del: take_append drop_append add: drop_append [of _ h]\<close>)
  then show ?thesis using assms(2) by (simp add: read_descs_def)
qed

section \<open>Grouping\<close>

definition rd_end :: "range_desc \<Rightarrow> nat" where
  "rd_end d = rd_base_va d + rd_length d"

definition in_group :: "range_desc \<Rightarrow> nat \<times> nat \<Rightarrow> bool" where
  "in_group d g \<longleftrightarrow> fst g \<le> rd_base_va d \<and> rd_end d \<le> fst g + snd g"

definition ivl :: "nat \<times> nat \<Rightarrow> nat set" where
  "ivl g = {fst g ..< fst g + snd g}"

text \<open>
  The groups of the ranges seen so far: in order with gaps between them, each starting where a range starts,
  together covering exactly the ranges, every range in the group it was assigned.
\<close>

definition group_inv :: "(nat \<times> nat) list \<Rightarrow> nat list \<Rightarrow> range_desc list \<Rightarrow> bool" where
  "group_inv gs rg ds \<longleftrightarrow> sorted_wrt (\<lambda>a b. fst a + snd a < fst b) gs \<and> length rg = length ds \<and>
     (\<forall>g \<in> set gs. fst g + snd g < 2 ^ 64 \<and> fst g \<in> rd_base_va ` set ds) \<and>
     (\<forall>i < length ds. rg ! i < length gs \<and> in_group (ds ! i) (gs ! (rg ! i))) \<and>
     (\<Union>g \<in> set gs. ivl g) = (\<Union>d \<in> set ds. ivl (rd_base_va d, rd_length d))"

lemma group_inv_new:
  assumes "group_inv gs rg ds" "rd_end d < 2 ^ 64" "gs = [] \<or> fst (last gs) + snd (last gs) < rd_base_va d"
  shows "group_inv (gs @ [(rd_base_va d, rd_length d)]) (rg @ [length gs]) (ds @ [d])"
proof -
  have "fst g + snd g < rd_base_va d" if "g \<in> set gs" for g
    using that assms(1,3) by (cases gs rule: rev_cases) (auto simp: group_inv_def sorted_wrt_append)
  then show ?thesis
    using assms(1,2) by (auto simp: group_inv_def sorted_wrt_append nth_append in_group_def rd_end_def ivl_def less_Suc_eq)
qed

lemma group_inv_extend:
  assumes "group_inv (gs @ [(a, n)]) rg ds" "a \<le> rd_base_va d" "rd_base_va d \<le> a + n" "rd_end d < 2 ^ 64" "n' = max n (rd_end d - a)"
  shows "group_inv (gs @ [(a, n')]) (rg @ [length gs]) (ds @ [d])"
proof -
  have c: "(\<Union>g \<in> set gs. ivl g) \<union> ivl (a, n) = (\<Union>d \<in> set ds. ivl (rd_base_va d, rd_length d))"
    using assms(1) by (simp add: group_inv_def Un_commute)
  have "ivl (a, n') = ivl (a, n) \<union> ivl (rd_base_va d, rd_length d)"
    using assms(2,3,5) by (auto simp: ivl_def rd_end_def)
  with c have cov: "(\<Union>g \<in> set (gs @ [(a, n')]). ivl g) = (\<Union>d \<in> set (ds @ [d]). ivl (rd_base_va d, rd_length d))"
    by auto
  have "in_group (ds ! i) ((gs @ [(a, n')]) ! (rg ! i)) \<and> rg ! i < length (gs @ [(a, n')])" if "i < length ds" for i
    using assms(1,5) that by (auto simp: group_inv_def in_group_def nth_append split: if_splits)
  moreover have "in_group d (a, n')" using assms(2,5) by (auto simp: in_group_def rd_end_def)
  moreover have "length rg = length ds" using assms(1) by (simp add: group_inv_def)
  ultimately have "\<forall>i < length (ds @ [d]). (rg @ [length gs]) ! i < length (gs @ [(a, n')]) \<and> in_group ((ds @ [d]) ! i) ((gs @ [(a, n')]) ! ((rg @ [length gs]) ! i))"
    by (simp add: less_Suc_eq nth_append_left) (metis nth_append_length nth_append_left)
  moreover have "a + n' < 2 ^ 64" using assms(1,2,4,5) by (auto simp: group_inv_def rd_end_def max_def)
  ultimately show ?thesis
    using assms(1) cov unfolding group_inv_def by (auto simp: sorted_wrt_append)
qed

lemma group_ranges_inv:
  assumes "group_ranges ds gs rg = Some (gs', rg')" "group_inv gs rg done" "sorted (map rd_base_va (done @ ds))" "\<forall>d \<in> set ds. rd_end d < 2 ^ 64"
  shows "group_inv gs' rg' (done @ ds)"
  using assms
proof (induction ds arbitrary: gs rg "done")
  case (Cons d ds)
  have e: "u64 (rd_base_va d + rd_length d) = rd_end d" using Cons.prems(4) by (simp add: rd_end_def u64_small)
  have sd: "sorted (map rd_base_va ((done @ [d]) @ ds))" and sm: "\<forall>d \<in> set ds. rd_end d < 2 ^ 64" and d64: "rd_end d < 2 ^ 64"
    using Cons.prems(3,4) by simp_all
  have step: "\<And>gs1 rg1. group_ranges (d # ds) gs rg = group_ranges ds gs1 rg1 \<Longrightarrow> group_inv gs1 rg1 (done @ [d]) \<Longrightarrow> group_inv gs' rg' (done @ d # ds)"
    using Cons.IH [OF _ _ sd sm] Cons.prems(1) by simp
  show ?case
  proof (cases gs rule: rev_cases)
    case Nil
    then show ?thesis
      using step group_inv_new [OF Cons.prems(2) d64] by simp
  next
    case (snoc gs0 g)
    obtain a n where g: "g = (a, n)" by fastforce
    have i: "group_inv (gs0 @ [(a, n)]) rg done" using Cons.prems(2) snoc g by simp
    then have an: "a + n < 2 ^ 64" and "a \<in> rd_base_va ` set done" by (auto simp: group_inv_def)
    then have a: "a \<le> rd_base_va d" using Cons.prems(3) by (auto simp: sorted_append)
    have u: "u64 (a + n) = a + n" using an by (simp add: u64_small)
    show ?thesis
    proof (cases "a + n < rd_base_va d")
      case True
      then show ?thesis
        using group_inv_new [OF Cons.prems(2) d64] snoc g u Cons.prems(1) by (intro step) (auto split: if_splits)
    next
      case False
      have "group_ranges (d # ds) gs rg = group_ranges ds (gs0 @ [(a, max n (rd_end d - a))]) (rg @ [length gs0])"
        using False snoc g u e d64 an by (simp add: Let_def) (auto simp: u64_small max_def)
      then show ?thesis
        using step group_inv_extend [OF i a _ d64 refl] False by simp
    qed
  qed
qed simp

lemma group_ranges_total: "length gs + length ds \<le> MAX_GROUPS \<Longrightarrow> group_ranges ds gs rg \<noteq> None"
proof (induction ds arbitrary: gs rg)
  case (Cons d ds)
  have "length (butlast gs) + 1 = length gs" if "gs \<noteq> []" using that by (cases gs rule: rev_cases) simp_all
  then show ?case using Cons by (auto simp: Let_def)
qed simp

section \<open>Assembling captures into groups\<close>

definition shape :: "group \<Rightarrow> nat \<times> nat" where
  "shape g = (g_va g, g_sz g)"

definition groups_wf :: "group list \<Rightarrow> bool" where
  "groups_wf gs \<longleftrightarrow> sorted_wrt (\<lambda>a b. fst a + snd a < fst b) (map shape gs) \<and> (\<forall>g \<in> set gs. g_va g + g_sz g < 2 ^ 64)"

text \<open>The group buffers are the flat memory \<open>M\<close>, where they have bytes.\<close>

definition groups_hold :: "group list \<Rightarrow> mem \<Rightarrow> bool" where
  "groups_hold gs M \<longleftrightarrow> (\<forall>g \<in> set gs. \<forall>k < g_sz g. g_mem g k = M (g_va g + k))"

text \<open>Descriptor \<open>d\<close> points at the sections of capture \<open>c\<close> in the file.\<close>

definition desc_at :: "byte list \<Rightarrow> range_desc \<Rightarrow> range_capture \<Rightarrow> bool" where
  "desc_at f d c \<longleftrightarrow> cap_ok c \<and> d = desc_of (rd_data_offset d) c \<and> rd_data_offset d + cap_bytes c \<le> length f \<and> length f < 2 ^ 64 \<and>
     take (cap_bytes c) (drop (rd_data_offset d) f) = cap_sections c"

definition all_alloc :: "rst_env \<Rightarrow> bool" where
  "all_alloc env \<longleftrightarrow> (\<forall>n. re_alloc env n)"

lemma read_bytes_part:
  assumes "take n (drop off f) = xs @ ys @ zs" "off + n \<le> length f" "length (xs @ ys @ zs) = n"
  shows "read_bytes f (off + length xs) (length ys) = Some ys"
proof -
  have "take (length ys) (drop (length xs) (take n (drop off f))) = ys" using assms(1) by simp
  then have "take (length ys) (drop (off + length xs) f) = ys"
    using assms(3) by (simp add: drop_take add.commute)
  then show ?thesis using assms(2,3) by (simp add: read_bytes_def)
qed

lemma desc_at_reads:
  assumes "desc_at f d c"
  shows "read_bytes f (rd_data_offset d) (rd_resmap_size d) = Some (take (rc_n_pages c) (rc_resmap c))"
    and "read_bytes f (u64 (rd_data_offset d + rd_resmap_size d)) (rd_cpu_bytes d) = Some (take (rc_cpu_bytes c) (rc_cpu_buf c))"
    and "read_bytes f (u64 (u64 (rd_data_offset d + rd_resmap_size d) + rd_cpu_bytes d)) (rd_gpu_bytes d) = Some (take (rc_gpu_bytes c) (rc_gpu_buf c))"
proof -
  define off where "off = rd_data_offset d"
  let ?r = "take (rc_n_pages c) (rc_resmap c)" and ?c = "take (rc_cpu_bytes c) (rc_cpu_buf c)" and ?g = "take (rc_gpu_bytes c) (rc_gpu_buf c)"
  have d: "d = desc_of off c" and le: "off + cap_bytes c \<le> length f" "length f < 2 ^ 64"
    and t: "take (cap_bytes c) (drop off f) = ?r @ ?c @ ?g @ cap_meta c" and wf: "cap_wf c"
    using assms by (auto simp: desc_at_def off_def cap_sections_def cap_ok_def)
  have l: "length ?r = rc_n_pages c" "length ?c = rc_cpu_bytes c" "length ?g = rc_gpu_bytes c" using wf by (simp_all add: cap_wf_def)
  have n: "length (?r @ ?c @ ?g @ cap_meta c) = cap_bytes c" using length_cap_sections [OF wf] by (simp add: cap_sections_def)
  have u: "u64 (off + rc_n_pages c) = off + rc_n_pages c" "u64 (off + rc_n_pages c + rc_cpu_bytes c) = off + rc_n_pages c + rc_cpu_bytes c"
    using le by (auto intro!: u64_small simp: cap_bytes_def)
  have "read_bytes f (off + length ([]::byte list)) (length ?r) = Some ?r"
    by (rule read_bytes_part [OF _ le(1), of "[]" ?r "?c @ ?g @ cap_meta c"]) (use t n in simp_all)
  then show "read_bytes f (rd_data_offset d) (rd_resmap_size d) = Some ?r" by (simp only: d desc_of_simps l list.size add_0_right)
  have "read_bytes f (off + length ?r) (length ?c) = Some ?c"
    by (rule read_bytes_part [OF _ le(1), of ?r ?c "?g @ cap_meta c"]) (use t n in simp_all)
  then show "read_bytes f (u64 (rd_data_offset d + rd_resmap_size d)) (rd_cpu_bytes d) = Some ?c" by (simp only: d desc_of_simps l u)
  have "read_bytes f (off + length (?r @ ?c)) (length ?g) = Some ?g"
    by (rule read_bytes_part [OF _ le(1), of "?r @ ?c" ?g "cap_meta c"]) (use t n in simp_all)
  then show "read_bytes f (u64 (u64 (rd_data_offset d + rd_resmap_size d) + rd_cpu_bytes d)) (rd_gpu_bytes d) = Some ?g"
    by (simp only: d desc_of_simps l u length_append add.assoc [symmetric])
qed

text \<open>The group buffer with a capture laid over it.\<close>

definition overlay_group :: "range_capture \<Rightarrow> group \<Rightarrow> group" where
  "overlay_group c g = g\<lparr>g_mem := overlay (rc_base c - g_va g) (take (rc_n_pages c) (rc_resmap c))
     (take (rc_cpu_bytes c) (rc_cpu_buf c)) (take (rc_gpu_bytes c) (rc_gpu_buf c)) (g_mem g)\<rparr>"

text \<open>One range or block: no access out of bounds, and the group buffer gets the capture's overlay.\<close>

lemma assemble_data_cap:
  assumes "desc_at f d c" "in_group d (shape g)"
  shows "assemble_data env f d g = Fail \<and> \<not> all_alloc env \<or> assemble_data env f d g = Done (overlay_group c g)"
proof -
  let ?rm = "take (rc_n_pages c) (rc_resmap c)"
  have ok: "cap_ok c" and d: "d = desc_of (rd_data_offset d) c" using assms(1) by (auto simp: desc_at_def)
  then have f: "rd_num_pages d = rc_n_pages c" "rd_resmap_size d = rc_n_pages c" "rd_base_va d = rc_base c" "rd_length d = rc_length c"
    by (metis desc_of_simps(3), metis desc_of_simps(5), metis desc_of_simps(1), metis desc_of_simps(2))
  have wf: "cap_wf c" "rc_length c = rc_n_pages c * PAGE_SIZE" "rc_cpu_bytes c = PAGE_SIZE * count_list ?rm 0" "rc_gpu_bytes c = PAGE_SIZE * count_list ?rm 1"
    using ok by (auto simp: cap_ok_def)
  have "rc_base c + rc_n_pages c * PAGE_SIZE \<le> g_va g + g_sz g" "g_va g \<le> rc_base c"
    using assms(2) wf(2) by (simp_all add: in_group_def shape_def rd_end_def f)
  then have room: "rc_base c - g_va g + rc_n_pages c * PAGE_SIZE \<le> g_sz g" by linarith
  have loop: "assemble_loop ?rm (take (rc_cpu_bytes c) (rc_cpu_buf c)) (take (rc_gpu_bytes c) (rc_gpu_buf c)) (g_sz g) (rc_base c - g_va g) 0 (rc_n_pages c) 0 0 (g_mem g) =
      Done (overlay (rc_base c - g_va g) ?rm (take (rc_cpu_bytes c) (rc_cpu_buf c)) (take (rc_gpu_bytes c) (rc_gpu_buf c)) (g_mem g))"
    using assemble_loop_overlay [of 0 "rc_n_pages c" ?rm "rc_base c - g_va g" "g_sz g" 0 "take (rc_cpu_bytes c) (rc_cpu_buf c)" 0 "take (rc_gpu_bytes c) (rc_gpu_buf c)" "g_mem g"]
      wf room by (simp add: cap_wf_def)
  show ?thesis
    unfolding assemble_data_def Let_def desc_at_reads [OF assms(1)]
    by (auto simp: f loop all_alloc_def overlay_group_def)
qed

lemma groups_wf_disjoint:
  assumes "groups_wf gs" "i < length gs" "j < length gs" "i \<noteq> j"
  shows "g_va (gs ! i) + g_sz (gs ! i) < g_va (gs ! j) \<or> g_va (gs ! j) + g_sz (gs ! j) < g_va (gs ! i)"
proof -
  have s: "\<And>a b. a < b \<Longrightarrow> b < length gs \<Longrightarrow> g_va (gs ! a) + g_sz (gs ! a) < g_va (gs ! b)"
    using assms(1) by (auto simp: groups_wf_def sorted_wrt_iff_nth_less shape_def)
  show ?thesis using s [of i j] s [of j i] assms(2-4) by linarith
qed

lemma overlay_step:
  assumes "groups_wf gs" "groups_hold gs M" "i < length gs" "cap_ok c" "rd_base_va d = rc_base c \<and> rd_length d = rc_length c"
    and "in_group d (shape (gs ! i))"
  shows "map shape (gs[i := overlay_group c (gs ! i)]) = map shape gs"
    and "groups_hold (gs[i := overlay_group c (gs ! i)]) (apply_cap c M)"
proof -
  define g where "g = overlay_group c (gs ! i)"
  note g_def = g_def [unfolded overlay_group_def]
  have sh: "shape g = shape (gs ! i)" by (simp add: g_def shape_def)
  have b: "rd_base_va d = rc_base c" "rd_end d = cap_end c" using assms(5) by (simp_all add: rd_end_def cap_end_def)
  have in_g: "g_va (gs ! i) \<le> rc_base c" "cap_end c \<le> g_va (gs ! i) + g_sz (gs ! i)"
    using assms(6) by (simp_all add: in_group_def shape_def b)
  have ce: "cap_end c = rc_base c + rc_n_pages c * PAGE_SIZE" using assms(4) by (simp add: cap_ok_def cap_end_def)
  have "g_mem (gs[i := g] ! j) k = apply_cap c M (g_va (gs[i := g] ! j) + k)" if j: "j < length gs" and k: "k < g_sz (gs[i := g] ! j)" for j k
  proof (cases "j = i")
    case True
    then have "g_mem (gs ! i) k = M (g_va (gs ! i) + k)" using assms(2,3) k by (simp add: groups_hold_def g_def)
    then show ?thesis
      using overlay_shift [of "g_mem (gs ! i)" k M "g_va (gs ! i)"] True assms(3) in_g(1) by (simp add: g_def apply_cap_def)
  next
    case False
    then have "g_mem (gs ! j) k = M (g_va (gs ! j) + k)" using assms(2) j k by (simp add: groups_hold_def)
    moreover have "apply_cap c M (g_va (gs ! j) + k) = M (g_va (gs ! j) + k)"
      by (rule apply_cap_out) (use groups_wf_disjoint [OF assms(1) assms(3) j] False k in_g ce in auto)
    ultimately show ?thesis using False by simp
  qed
  then show "groups_hold (gs[i := overlay_group c (gs ! i)]) (apply_cap c M)"
    by (auto simp: groups_hold_def in_set_conv_nth g_def overlay_group_def)
  show "map shape (gs[i := overlay_group c (gs ! i)]) = map shape gs"
    using sh assms(3) by (metis g_def overlay_group_def list_update_id map_update nth_map)
qed

text \<open>Whole lists of ranges and of delta blocks.\<close>

definition restored :: "rst_env \<Rightarrow> group list \<Rightarrow> mem \<Rightarrow> group list outcome \<Rightarrow> bool" where
  "restored env gs M r \<longleftrightarrow>
     (case r of Undefined \<Rightarrow> False | Fail \<Rightarrow> \<not> all_alloc env
      | Done gs' \<Rightarrow> map shape gs' = map shape gs \<and> groups_hold gs' M)"

lemma groups_wf_shape:
  assumes "map shape gs' = map shape gs"
  shows "groups_wf gs' = groups_wf gs"
proof -
  have "(\<forall>g \<in> set gs. g_va g + g_sz g < 2 ^ 64) \<longleftrightarrow> (\<forall>x \<in> set (map shape gs). fst x + snd x < 2 ^ 64)" for gs
    by (simp add: shape_def)
  then show ?thesis unfolding groups_wf_def assms by (simp only: assms)
qed

lemma find_group_Some: "find_group d k gs = Some i \<Longrightarrow> k \<le> i \<and> i < k + length gs \<and>
   g_va (gs ! (i - k)) \<le> rd_base_va d \<and> u64 (rd_end d) \<le> u64 (g_va (gs ! (i - k)) + g_sz (gs ! (i - k)))"
proof (induction gs arbitrary: k)
  case (Cons g gs)
  show ?case
  proof (cases "find_group d (k + 1) gs = Some i \<and> \<not> (g_va g \<le> rd_base_va d \<and> u64 (rd_end d) \<le> u64 (g_va g + g_sz g))")
    case True
    from Cons.IH [of "k + 1"] True have "k + 1 \<le> i" "i < k + 1 + length gs" 
      "g_va (gs ! (i - (k + 1))) \<le> rd_base_va d \<and> u64 (rd_end d) \<le> u64 (g_va (gs ! (i - (k + 1))) + g_sz (gs ! (i - (k + 1))))" by auto
    then show ?thesis by (simp add: nth_Cons')
  next
    case False
    then show ?thesis using Cons.prems by (auto simp: rd_end_def split: if_splits)
  qed
qed simp

lemma find_group_ex: "g \<in> set gs \<Longrightarrow> g_va g \<le> rd_base_va d \<Longrightarrow> u64 (rd_end d) \<le> u64 (g_va g + g_sz g) \<Longrightarrow> find_group d k gs \<noteq> None"
  by (induction gs arbitrary: k) (auto simp: rd_end_def)

lemma find_group_in:
  assumes "groups_wf gs" "rd_end d < 2 ^ 64" "\<exists>g \<in> set gs. in_group d (shape g)"
  shows "\<exists>i. find_group d 0 gs = Some i \<and> i < length gs \<and> in_group d (shape (gs ! i))"
proof -
  have u: "u64 (g_va g + g_sz g) = g_va g + g_sz g" if "g \<in> set gs" for g
    using assms(1) that by (intro u64_small) (simp add: groups_wf_def)
  have e: "u64 (rd_end d) = rd_end d" using assms(2) by (simp add: u64_small)
  obtain i where i: "find_group d 0 gs = Some i"
    using assms(3) find_group_ex [of _ gs d 0] u e by (fastforce simp: in_group_def shape_def)
  from find_group_Some [OF i] show ?thesis
    using u [of "gs ! i"] e by (auto simp: i in_group_def shape_def)
qed

text \<open>
  The two loops over a function \<open>asm\<close> that puts range or block number \<open>k\<close> into its group. A block in no group is an
  error of the loop or is skipped.
\<close>

fun run_ranges :: "(nat \<Rightarrow> range_desc \<Rightarrow> group \<Rightarrow> group outcome) \<Rightarrow> nat \<Rightarrow> (range_desc \<times> nat) list \<Rightarrow> group list \<Rightarrow> group list outcome" where
  "run_ranges asm k [] gs = Done gs"
| "run_ranges asm k ((d, i) # ps) gs =
     (case asm k d (gs ! i) of Done g \<Rightarrow> run_ranges asm (k + 1) ps (gs[i := g]) | Fail \<Rightarrow> Fail | Undefined \<Rightarrow> Undefined)"

fun run_blocks :: "(nat \<Rightarrow> range_desc \<Rightarrow> group \<Rightarrow> group outcome) \<Rightarrow> bool \<Rightarrow> nat \<Rightarrow> range_desc list \<Rightarrow> group list \<Rightarrow> group list outcome" where
  "run_blocks asm skip k [] gs = Done gs"
| "run_blocks asm skip k (d # ds) gs =
     (case find_group d 0 gs of None \<Rightarrow> if skip then run_blocks asm skip (k + 1) ds gs else Fail
      | Some i \<Rightarrow> (case asm k d (gs ! i) of
          Done g \<Rightarrow> run_blocks asm skip (k + 1) ds (gs[i := g]) | Fail \<Rightarrow> Fail | Undefined \<Rightarrow> Undefined))"

lemma assemble_ranges_run: "assemble_ranges env f ps gs = run_ranges (\<lambda>_. assemble_data env f) k ps gs"
  by (induction ps arbitrary: gs k) (auto split: outcome.splits)

lemma apply_blocks_run: "apply_blocks env f ds gs = run_blocks (\<lambda>_. assemble_data env f) False k ds gs"
  by (induction ds arbitrary: gs k) (auto split: outcome.splits option.splits)

text \<open>
  The interface of such a function: a descriptor \<open>at\<close> a capture gets the capture laid over its group, unless an
  allocation fails.
\<close>

locale range_assembly =
  fixes env :: rst_env and at :: "range_desc \<Rightarrow> range_capture \<Rightarrow> bool" and asm :: "nat \<Rightarrow> range_desc \<Rightarrow> group \<Rightarrow> group outcome"
  assumes at_cap: "at d c \<Longrightarrow> cap_ok c \<and> rd_base_va d = rc_base c \<and> rd_length d = rc_length c"
    and asm_cap: "at d c \<Longrightarrow> in_group d (shape g) \<Longrightarrow> asm k d g = Fail \<and> \<not> all_alloc env \<or> asm k d g = Done (overlay_group c g)"
begin

lemma ranges_restored:
  assumes "list_all2 at ds cs" "list_all2 (\<lambda>d i. i < length gs \<and> in_group d (map shape gs ! i)) ds rg" "groups_wf gs" "groups_hold gs M"
  shows "restored env gs (fold apply_cap cs M) (run_ranges asm k (zip ds rg) gs)"
  using assms
proof (induction ds cs arbitrary: rg gs M k rule: list_all2_induct)
  case Nil
  then show ?case by (simp add: restored_def)
next
  case (Cons d ds c cs)
  obtain i rg' where rg: "rg = i # rg'" and i: "i < length gs" "in_group d (shape (gs ! i))"
      "list_all2 (\<lambda>d i. i < length gs \<and> in_group d (map shape gs ! i)) ds rg'"
    using Cons.prems(1) by (auto simp: list_all2_Cons1)
  let ?gs = "gs[i := overlay_group c (gs ! i)]"
  note st = overlay_step [OF Cons.prems(2,3) i(1) _ _ i(2), of c]
  have st: "map shape ?gs = map shape gs" "groups_hold ?gs (apply_cap c M)" using st at_cap [OF Cons.hyps(1)] by simp_all
  have "restored env ?gs (fold apply_cap cs (apply_cap c M)) (run_ranges asm (k + 1) (zip ds rg') ?gs)"
    by (rule Cons.IH) (use i(3) st Cons.prems(2) groups_wf_shape [OF st(1)] in simp_all)
  then show ?case using asm_cap [OF Cons.hyps(1) i(2), of k] st(1) by (auto simp: rg restored_def split: outcome.splits)
qed

lemma blocks_restored:
  assumes "list_all2 at ds cs" "\<forall>d \<in> set ds. \<exists>x \<in> set (map shape gs). in_group d x" "groups_wf gs" "groups_hold gs M"
  shows "restored env gs (fold apply_cap cs M) (run_blocks asm skip k ds gs)"
  using assms
proof (induction ds cs arbitrary: gs M k rule: list_all2_induct)
  case Nil
  then show ?case by (simp add: restored_def)
next
  case (Cons d ds c cs)
  have "rd_end d < 2 ^ 64" using at_cap [OF Cons.hyps(1)] by (auto simp: cap_ok_def rd_end_def cap_end_def)
  then obtain i where i: "find_group d 0 gs = Some i" "i < length gs" "in_group d (shape (gs ! i))"
    using find_group_in [OF Cons.prems(2), of d] Cons.prems(1) by auto
  let ?gs = "gs[i := overlay_group c (gs ! i)]"
  note st = overlay_step [OF Cons.prems(2,3) i(2) _ _ i(3), of c]
  have st: "map shape ?gs = map shape gs" "groups_hold ?gs (apply_cap c M)" using st at_cap [OF Cons.hyps(1)] by simp_all
  have "restored env ?gs (fold apply_cap cs (apply_cap c M)) (run_blocks asm skip (k + 1) ds ?gs)"
    by (rule Cons.IH) (use Cons.prems(1,2) st groups_wf_shape [OF st(1)] in simp_all)
  then show ?case using asm_cap [OF Cons.hyps(1) i(3), of k] st(1) i(1) by (auto simp: restored_def split: outcome.splits)
qed

end

section \<open>Images of captures\<close>

lemma desc_at_build:
  assumes "\<forall>c \<in> set caps. cap_ok c" "f = pre @ concat (map cap_sections caps) @ junk" "length pre = off" "length f < 2 ^ 64"
  shows "list_all2 (desc_at f) (build_descs off caps) caps"
proof -
  have wf: "\<forall>c \<in> set caps. cap_wf c" using assms(1) by (simp add: cap_ok_def)
  have "desc_at f (build_descs off caps ! i) (caps ! i)" if "i < length caps" for i
    using build_descs_data [OF that wf assms(3), of junk, folded assms(2)] assms(1,4) that
    unfolding desc_at_def by (simp add: assms(2,3) del: take_append drop_append)
  then show ?thesis by (simp add: list_all2_conv_all_nth)
qed

lemma desc_at_small: "desc_at f d c \<Longrightarrow> desc_small d"
proof -
  assume a: "desc_at f d c"
  define off where "off = rd_data_offset d"
  have d: "d = desc_of off c" and le: "off + cap_bytes c < 2 ^ 64" and ok: "cap_ok c"
    using a by (auto simp: desc_at_def off_def)
  have "rc_n_pages c \<le> rc_length c" "rc_base c + rc_length c < 2 ^ 64" using ok by (auto simp: cap_ok_def cap_end_def)
  then show ?thesis using le by (simp add: d desc_small_def cap_bytes_def)
qed

lemma desc_at_fields: "desc_at f d c \<Longrightarrow> rd_base_va d = rc_base c \<and> rd_length d = rc_length c \<and> rd_end d = cap_end c \<and> cap_end c < 2 ^ 64"
  by (metis desc_at_def desc_of_simps(1,2) rd_end_def cap_end_def cap_ok_def)

lemma hdr_fields:
  "n < 2 ^ 32 \<Longrightarrow> field 0 4 (enc_v2_hdr ver n tot @ r) = CKPT_V2_MAGIC \<and> field 8 4 (enc_v2_hdr ver n tot @ r) = n"
  "n < 2 ^ 32 \<Longrightarrow> field 0 4 (enc_delta_hdr n va sz dirty @ r) = CKPT_INC_DELTA_MAGIC \<and> field 8 4 (enc_delta_hdr n va sz dirty @ r) = n"
  by (simp_all add: field_def enc_v2_hdr_def enc_delta_hdr_def le_nat_le_bytes)

text \<open>What the readers find in a file that starts with an image.\<close>

lemma base_image_parse:
  assumes "\<forall>c \<in> set caps. cap_ok c" "length caps < 2 ^ 32" "fb = base_image caps ver @ junk" "length fb < 2 ^ 64"
  defines "ds \<equiv> build_descs (v2_data_off caps) caps"
  shows "field 0 4 fb = CKPT_V2_MAGIC" "field 8 4 fb = length caps" "V2_HDR_SIZE \<le> length fb"
    and "read_descs fb V2_HDR_SIZE (length caps) = Some ds" "list_all2 (desc_at fb) ds caps"
proof -
  let ?h = "enc_v2_hdr ver (length caps) (sum_list (map rc_length caps))"
  have fb: "fb = ?h @ concat (map enc_desc ds) @ concat (map cap_sections caps) @ junk" by (simp add: assms(3) base_image_def ds_def)
  show at: "list_all2 (desc_at fb) ds caps"
    unfolding ds_def by (rule desc_at_build [OF assms(1), where pre = "?h @ concat (map enc_desc ds)" and junk = junk])
      (use fb assms(4) in \<open>simp_all add: v2_data_off_def ds_def\<close>)
  have len: "length ds = length caps" by (simp add: ds_def)
  have small: "\<forall>d \<in> set ds. desc_small d" using at by (metis desc_at_small list_all2_conv_all_nth in_set_conv_nth)
  show "read_descs fb V2_HDR_SIZE (length caps) = Some ds"
    unfolding fb len [symmetric] by (rule read_descs_image [OF small]) simp
  show "field 0 4 fb = CKPT_V2_MAGIC" "field 8 4 fb = length caps" "V2_HDR_SIZE \<le> length fb"
    using hdr_fields(1) [of "length caps" ver "sum_list (map rc_length caps)" "concat (map enc_desc ds) @ concat (map cap_sections caps) @ junk"] assms(2)
    by (simp_all add: fb)
qed

lemma delta_image_parse:
  assumes "\<forall>c \<in> set caps. cap_ok c" "length caps < 2 ^ 32" "fd = delta_image caps va sz dirty @ junk" "length fd < 2 ^ 64"
  defines "ds \<equiv> build_descs (delta_data_off caps) caps"
  shows "field 0 4 fd = CKPT_INC_DELTA_MAGIC" "field 8 4 fd = length caps" "DELTA_HDR_SIZE \<le> length fd"
    and "read_descs fd DELTA_HDR_SIZE (length caps) = Some ds" "list_all2 (desc_at fd) ds caps"
proof -
  let ?h = "enc_delta_hdr (length caps) va sz dirty"
  have fd: "fd = ?h @ concat (map enc_desc ds) @ concat (map cap_sections caps) @ junk" by (simp add: assms(3) delta_image_def ds_def)
  show at: "list_all2 (desc_at fd) ds caps"
    unfolding ds_def by (rule desc_at_build [OF assms(1), where pre = "?h @ concat (map enc_desc ds)" and junk = junk])
      (use fd assms(4) in \<open>simp_all add: delta_data_off_def ds_def\<close>)
  have len: "length ds = length caps" by (simp add: ds_def)
  have small: "\<forall>d \<in> set ds. desc_small d" using at by (metis desc_at_small list_all2_conv_all_nth in_set_conv_nth)
  show "read_descs fd DELTA_HDR_SIZE (length caps) = Some ds"
    unfolding fd len [symmetric] by (rule read_descs_image [OF small]) simp
  show "field 0 4 fd = CKPT_INC_DELTA_MAGIC" "field 8 4 fd = length caps" "DELTA_HDR_SIZE \<le> length fd"
    using hdr_fields(2) [of "length caps" va sz dirty "concat (map enc_desc ds) @ concat (map cap_sections caps) @ junk"] assms(2)
    by (simp_all add: fd)
qed

definition cap_ivl :: "range_capture \<Rightarrow> nat set" where
  "cap_ivl c = {rc_base c ..< cap_end c}"

definition empty_groups :: "(nat \<times> nat) list \<Rightarrow> group list" where
  "empty_groups gs = map (\<lambda>g. \<lparr>g_va = fst g, g_sz = snd g, g_mem = (\<lambda>_. 0)\<rparr>) gs"

lemma shape_empty: "map shape (empty_groups gs) = gs"
  by (simp add: empty_groups_def shape_def o_def)

text \<open>The groups of a baseline, filled: what the restores of a baseline have in common.\<close>

definition base_restored :: "range_capture list \<Rightarrow> group list \<Rightarrow> bool" where
  "base_restored caps gs \<longleftrightarrow> groups_wf gs \<and> groups_hold gs (fold apply_cap caps (\<lambda>_. 0)) \<and>
     (\<forall>c \<in> set caps. \<exists>x \<in> set (map shape gs). fst x \<le> rc_base c \<and> cap_end c \<le> fst x + snd x) \<and>
     (\<Union>g \<in> set gs. ivl (shape g)) = (\<Union>c \<in> set caps. cap_ivl c)"

context range_assembly
begin

lemma at_fields: "at d c \<Longrightarrow> rd_base_va d = rc_base c \<and> rd_length d = rc_length c \<and> rd_end d = cap_end c \<and> cap_end c < 2 ^ 64"
  using at_cap [of d c] by (auto simp: rd_end_def cap_end_def cap_ok_def)

lemma groups_of_caps:
  assumes "list_all2 at qs cs" "sorted (map rd_base_va qs)" "group_ranges qs [] [] = Some (gs, rg)"
  shows "groups_wf (empty_groups gs)" "list_all2 (\<lambda>d i. i < length (empty_groups gs) \<and> in_group d (map shape (empty_groups gs) ! i)) qs rg"
    and "\<forall>c \<in> set cs. \<exists>x \<in> set gs. fst x \<le> rc_base c \<and> cap_end c \<le> fst x + snd x" "(\<Union>x \<in> set gs. ivl x) = (\<Union>c \<in> set cs. cap_ivl c)"
proof -
  have q64: "\<forall>d \<in> set qs. rd_end d < 2 ^ 64"
    using assms(1) at_fields by (metis list_all2_conv_all_nth in_set_conv_nth)
  have inv: "group_inv gs rg qs"
    using group_ranges_inv [OF assms(3) _ _ q64, of "[]"] assms(2) by (simp add: group_inv_def)
  have "\<forall>g \<in> set (empty_groups gs). g_va g + g_sz g < 2 ^ 64" using inv by (auto simp: group_inv_def empty_groups_def)
  then show "groups_wf (empty_groups gs)" using inv unfolding groups_wf_def shape_empty by (simp add: group_inv_def)
  show "list_all2 (\<lambda>d i. i < length (empty_groups gs) \<and> in_group d (map shape (empty_groups gs) ! i)) qs rg"
    using inv by (simp add: list_all2_conv_all_nth group_inv_def shape_empty) (simp add: empty_groups_def)
  show "\<forall>c \<in> set cs. \<exists>x \<in> set gs. fst x \<le> rc_base c \<and> cap_end c \<le> fst x + snd x"
  proof
    fix c assume "c \<in> set cs"
    then obtain i where i: "i < length cs" "c = cs ! i" by (auto simp: in_set_conv_nth)
    then have "at (qs ! i) c" "i < length qs" using assms(1) by (auto simp: list_all2_conv_all_nth)
    then show "\<exists>x \<in> set gs. fst x \<le> rc_base c \<and> cap_end c \<le> fst x + snd x"
      using inv at_fields [of "qs ! i" c] nth_mem [of "rg ! i" gs] by (fastforce simp: group_inv_def in_group_def)
  qed
  have "ivl (rd_base_va (qs ! i), rd_length (qs ! i)) = cap_ivl (cs ! i)" if "i < length cs" for i
    using assms(1) that at_fields by (auto simp: list_all2_conv_all_nth ivl_def cap_ivl_def cap_end_def)
  then have "(\<Union>d \<in> set qs. ivl (rd_base_va d, rd_length d)) = (\<Union>c \<in> set cs. cap_ivl c)"
    using list_all2_lengthD [OF assms(1)] by (auto simp: set_conv_nth)
  then show "(\<Union>x \<in> set gs. ivl x) = (\<Union>c \<in> set cs. cap_ivl c)" using inv by (simp add: group_inv_def)
qed

lemma base_groups_restored:
  assumes "list_all2 at ds caps" "pairwise_indep caps_disjoint caps" "qsort_ok env" "group_ranges (re_qsort env ds) [] [] = Some (gs, rg)"
    and "r = run_ranges asm 0 (zip (re_qsort env ds) rg) (empty_groups gs)"
  shows "r = Fail \<and> \<not> all_alloc env \<or> (\<exists>gs'. r = Done gs' \<and> base_restored caps gs')"
proof -
  have qm: "mset (re_qsort env ds) = mset ds" "sorted (map rd_base_va (re_qsort env ds))" using assms(3) by (simp_all add: qsort_ok_def)
  obtain cs where cs: "list_all2 at (re_qsort env ds) cs" "mset cs = mset caps"
    using list_all2_reorder_left_invariance [OF assms(1) qm(1)] by blast
  note g = groups_of_caps [OF cs(1) qm(2) assms(4)]
  have "groups_hold (empty_groups gs) (\<lambda>_. 0)" by (simp add: groups_hold_def empty_groups_def)
  then have r: "restored env (empty_groups gs) (fold apply_cap cs (\<lambda>_. 0)) r"
    unfolding assms(5) using ranges_restored [OF cs(1) g(2,1)] by blast
  have f: "fold apply_cap cs m = fold apply_cap caps m" for m
    using cap_writes.schedule_perm [OF assms(2), of cs] cs(2) by simp
  have u: "(\<Union>g \<in> set gs'. ivl (shape g)) = (\<Union>x \<in> set (map shape gs'). ivl x)" for gs' by simp
  show ?thesis
  proof (cases r)
    case (Done gs')
    then have sh: "map shape gs' = gs" "groups_hold gs' (fold apply_cap caps (\<lambda>_. 0))"
      using r by (auto simp: f restored_def shape_empty)
    then have "groups_wf gs'" using g(1) groups_wf_shape [of gs' "empty_groups gs"] by (simp only: shape_empty)
    then have "base_restored caps gs'" using sh(2) g(3,4) unfolding base_restored_def u sh(1) mset_eq_setD [OF cs(2)] by blast
    then show ?thesis using Done by blast
  qed (use r in \<open>simp_all add: restored_def\<close>)
qed

end

interpretation plain_ranges: range_assembly env "desc_at f" "\<lambda>_. assemble_data env f" for env f
proof
  show "desc_at f d c \<Longrightarrow> cap_ok c \<and> rd_base_va d = rc_base c \<and> rd_length d = rc_length c" for d c
    using desc_at_fields [of f d c] by (simp add: desc_at_def)
qed (rule assemble_data_cap)

lemma restore_base_image:
  assumes "\<forall>c \<in> set caps. cap_ok c" "pairwise_indep caps_disjoint caps" "length caps \<le> MAX_RANGES" "qsort_ok env"
    and "fb = base_image caps ver @ junk" "length fb < 2 ^ 64"
  shows "restore_base env fb = Fail \<and> \<not> (all_alloc env \<and> fst (re_open env) \<and> length caps \<le> MAX_GROUPS) \<or>
    (\<exists>gs. restore_base env fb = Done gs \<and> base_restored caps gs)"
proof -
  define ds where "ds = build_descs (v2_data_off caps) caps"
  define qs where "qs = re_qsort env ds"
  have n32: "length caps < 2 ^ 32" using assms(3) by simp
  note hf = base_image_parse(1-3) [OF assms(1) n32 assms(5,6)] and rd = base_image_parse(4) [OF assms(1) n32 assms(5,6), folded ds_def]
    and at = base_image_parse(5) [OF assms(1) n32 assms(5,6), folded ds_def]
  have run: "restore_base env fb = (if \<not> fst (re_open env) \<or> \<not> re_alloc env (length caps * DESC_SIZE) then Fail
      else case group_ranges qs [] [] of None \<Rightarrow> Fail | Some (gs, rg) \<Rightarrow>
        if \<not> list_all (\<lambda>g. re_alloc env (snd g)) gs then Fail else run_ranges (\<lambda>_. assemble_data env fb) 0 (zip qs rg) (empty_groups gs))"
    unfolding restore_base_def Let_def hf(2) rd qs_def empty_groups_def assemble_ranges_run [where k = 0] using hf(1,3) assms(3) by simp
  have tot: "group_ranges qs [] [] \<noteq> None" if "length caps \<le> MAX_GROUPS"
    using that group_ranges_total [of "[]" qs "[]"] assms(4) mset_eq_length [of qs ds] by (simp add: ds_def qsort_ok_def qs_def)
  show ?thesis
  proof (cases "group_ranges qs [] []")
    case None
    then show ?thesis using run tot by auto
  next
    case (Some x)
    obtain gs rg where x: "x = (gs, rg)" by fastforce
    note g = plain_ranges.base_groups_restored [OF at assms(2,4) Some [unfolded x qs_def] refl, folded qs_def]
    show ?thesis
    proof (cases "\<not> fst (re_open env) \<or> \<not> re_alloc env (length caps * DESC_SIZE) \<or> \<not> list_all (\<lambda>g. re_alloc env (snd g)) gs")
      case True
      then show ?thesis using run Some x by (auto simp: all_alloc_def list_all_iff)
    next
      case False
      then have "restore_base env fb = run_ranges (\<lambda>_. assemble_data env fb) 0 (zip qs rg) (empty_groups gs)" using run Some x by simp
      then show ?thesis using g by simp blast
    qed
  qed
qed

lemma restore_delta_image:
  assumes "\<forall>c \<in> set caps. cap_ok c" "length caps < 2 ^ 32" "fd = delta_image caps va sz dirty @ junk" "length fd < 2 ^ 64"
    and "\<forall>c \<in> set caps. \<exists>x \<in> set (map shape gs). fst x \<le> rc_base c \<and> cap_end c \<le> fst x + snd x" "groups_wf gs" "groups_hold gs M"
  shows "restore_delta env fd gs = Fail \<and> \<not> (all_alloc env \<and> snd (re_open env)) \<or>
    (\<exists>gs'. restore_delta env fd gs = Done gs' \<and> map shape gs' = map shape gs \<and> groups_hold gs' (fold apply_cap caps M))"
proof -
  define ds where "ds = build_descs (delta_data_off caps) caps"
  note hf = delta_image_parse(1-3) [OF assms(1-4)] and rd = delta_image_parse(4) [OF assms(1-4), folded ds_def]
    and at = delta_image_parse(5) [OF assms(1-4), folded ds_def]
  have "\<exists>x \<in> set (map shape gs). in_group d x" if "d \<in> set ds" for d
  proof -
    obtain c where "c \<in> set caps" "desc_at fd d c" using at \<open>d \<in> set ds\<close> by (metis list_all2_conv_all_nth in_set_conv_nth)
    then show ?thesis using assms(5) desc_at_fields [of fd d c] by (auto simp: in_group_def)
  qed
  then have r: "restored env gs (fold apply_cap caps M) (apply_blocks env fd ds gs)"
    unfolding apply_blocks_run [where k = 0] using plain_ranges.blocks_restored [OF at _ assms(6,7)] by blast
  have "restore_delta env fd gs = (if \<not> snd (re_open env) then Fail else if caps = [] then Done gs
      else if \<not> re_alloc env (length caps * DESC_SIZE) then Fail else apply_blocks env fd ds gs)"
    unfolding restore_delta_def Let_def hf(2) rd using hf(1,3) by simp
  then show ?thesis
    using r assms(7) by (auto simp: restored_def all_alloc_def split: outcome.splits)
qed

section \<open>What a restore gives back\<close>

lemma fold_apply_cap_out: "(\<forall>c \<in> set caps. cap_ok c \<and> a \<notin> cap_ivl c) \<Longrightarrow> fold apply_cap caps m a = m a"
proof (induction caps arbitrary: m)
  case (Cons c caps)
  have "apply_cap c m a = m a" by (rule apply_cap_out) (use Cons.prems in \<open>auto simp: cap_ok_def cap_ivl_def cap_end_def\<close>)
  then show ?case using Cons by simp
qed simp

text \<open>A capture whose addresses the baseline covers lies in one of the separate buffers.\<close>

lemma base_covers:
  assumes "base_restored ps gs" "cap_ok p" "cap_ivl p \<subseteq> (\<Union>c \<in> set ps. cap_ivl c)"
  shows "\<exists>x \<in> set (map shape gs). fst x \<le> rc_base p \<and> cap_end p \<le> fst x + snd x"
proof -
  have cov: "\<exists>x \<in> set (map shape gs). fst x \<le> a \<and> a < fst x + snd x" if "rc_base p \<le> a" "a < cap_end p" for a
  proof -
    have "a \<in> cap_ivl p" using that by (simp add: cap_ivl_def)
    then have "a \<in> (\<Union>c \<in> set ps. cap_ivl c)" using assms(3) by blast
    then have "a \<in> (\<Union>g \<in> set gs. ivl (shape g))" using assms(1) by (simp add: base_restored_def)
    then show ?thesis by (auto simp: ivl_def)
  qed
  have sep: "x = y \<or> fst x + snd x < fst y \<or> fst y + snd y < fst x" if xy: "x \<in> set (map shape gs)" "y \<in> set (map shape gs)" for x y
  proof -
    obtain i j where ij: "i < length (map shape gs)" "j < length (map shape gs)" "x = map shape gs ! i" "y = map shape gs ! j"
      using xy unfolding in_set_conv_nth by blast
    have "sorted_wrt (\<lambda>a b. fst a + snd a < fst b) (map shape gs)" using assms(1) by (simp add: base_restored_def groups_wf_def)
    then have lt: "fst (map shape gs ! a) + snd (map shape gs ! a) < fst (map shape gs ! b)" if "a < b" "b < length (map shape gs)" for a b
      using that unfolding sorted_wrt_iff_nth_less by blast
    consider "i = j" | "i < j" | "j < i" by linarith
    then show ?thesis
    proof cases
      case 2 then show ?thesis using lt [OF 2 ij(2)] unfolding ij(3,4) by blast
    next
      case 3 then show ?thesis using lt [OF 3 ij(1)] unfolding ij(3,4) by blast
    qed (simp add: ij)
  qed
  have "rc_base p < cap_end p" using assms(2) by (auto simp: cap_ok_def cap_end_def)
  then obtain x where x: "x \<in> set (map shape gs)" "fst x \<le> rc_base p" "rc_base p < fst x + snd x" using cov [of "rc_base p"] by blast
  have "cap_end p \<le> fst x + snd x"
  proof (rule ccontr)
    assume "\<not> cap_end p \<le> fst x + snd x"
    then obtain y where y: "y \<in> set (map shape gs)" "fst y \<le> fst x + snd x" "fst x + snd x < fst y + snd y" using cov [of "fst x + snd x"] x(3) by fastforce
    then show False using sep [OF x(1) y(1)] x by auto
  qed
  then show ?thesis using x by blast
qed

lemma inside_covered:
  "\<forall>d \<in> set dps. \<exists>c \<in> set ps. rc_base c \<le> rc_base d \<and> cap_end d \<le> cap_end c \<Longrightarrow> \<forall>d \<in> set dps. cap_ivl d \<subseteq> (\<Union>c \<in> set ps. cap_ivl c)"
  by (fastforce simp: cap_ivl_def)

lemma restore_main:
  assumes "\<forall>c \<in> set caps \<union> set dcaps. cap_ok c" "pairwise_indep caps_disjoint caps" "length caps \<le> MAX_RANGES" "length dcaps < 2 ^ 32"
    and "\<forall>d \<in> set dcaps. cap_ivl d \<subseteq> (\<Union>c \<in> set caps. cap_ivl c)" "qsort_ok env"
    and "fb = base_image caps ver @ junk" "length fb < 2 ^ 64" "fd = delta_image dcaps va sz dirty @ djunk" "length fd < 2 ^ 64"
  shows "ckpt_restore_from_files env fb fd = Fail \<and> \<not> (re_open env = (True, True) \<and> all_alloc env \<and> length caps \<le> MAX_GROUPS) \<or>
    (\<exists>gs. ckpt_restore_from_files env fb fd = Done gs \<and> groups_wf gs \<and> groups_hold gs (fold apply_cap dcaps (fold apply_cap caps (\<lambda>_. 0))) \<and>
       (\<Union>g \<in> set gs. ivl (shape g)) = (\<Union>c \<in> set caps. cap_ivl c) \<and>
       (\<forall>c \<in> set caps. \<exists>x \<in> set (map shape gs). fst x \<le> rc_base c \<and> cap_end c \<le> fst x + snd x))"
proof -
  let ?M = "fold apply_cap caps (\<lambda>_. 0)"
  have caps: "\<forall>c \<in> set caps. cap_ok c" "\<forall>c \<in> set dcaps. cap_ok c" using assms(1) by auto
  note base = restore_base_image [OF caps(1) assms(2,3,6,7,8)]
  show ?thesis
    using base
  proof (elim disjE exE conjE)
    fix gs
    assume bd: "restore_base env fb = Done gs" "base_restored caps gs"
    then have b: "restore_base env fb = Done gs" "groups_wf gs" "groups_hold gs ?M" "(\<Union>g \<in> set gs. ivl (shape g)) = (\<Union>c \<in> set caps. cap_ivl c)"
      "\<forall>c \<in> set caps. \<exists>x \<in> set (map shape gs). fst x \<le> rc_base c \<and> cap_end c \<le> fst x + snd x" by (simp_all add: base_restored_def)
    have "\<forall>d \<in> set dcaps. \<exists>x \<in> set (map shape gs). fst x \<le> rc_base d \<and> cap_end d \<le> fst x + snd x"
      using base_covers [OF bd(2)] assms(5) caps(2) by blast
    note delta = restore_delta_image [OF caps(2) assms(4,9,10) this b(2,3), of env]
    have u: "(\<Union>g \<in> set gs'. ivl (shape g)) = (\<Union>x \<in> set (map shape gs'). ivl x)" for gs' by simp
    from delta show ?thesis
    proof (elim disjE exE conjE)
      fix gs'
      assume d: "restore_delta env fd gs = Done gs'" "map shape gs' = map shape gs" "groups_hold gs' (fold apply_cap dcaps ?M)"
      have "groups_wf gs'" "(\<Union>g \<in> set gs'. ivl (shape g)) = (\<Union>c \<in> set caps. cap_ivl c)"
          "\<forall>c \<in> set caps. \<exists>x \<in> set (map shape gs'). fst x \<le> rc_base c \<and> cap_end c \<le> fst x + snd x"
        using b(2,4,5) groups_wf_shape [OF d(2)] unfolding u d(2) by simp_all
      moreover have "ckpt_restore_from_files env fb fd = (if re_alloc env (length gs' * MEM_BLOCK_SIZE) then Done gs' else Fail)"
        by (simp add: ckpt_restore_from_files_def b(1) d(1))
      ultimately show ?thesis using d(3) by (cases "re_alloc env (length gs' * MEM_BLOCK_SIZE)") (auto simp: all_alloc_def)
    qed (auto simp: ckpt_restore_from_files_def b(1))
  qed (auto simp: ckpt_restore_from_files_def)
qed

lemma restored_bytes:
  assumes "\<forall>c \<in> set caps \<union> set dcaps. cap_ok c" "pairwise_indep caps_disjoint caps" "length caps \<le> MAX_RANGES" "length dcaps < 2 ^ 32"
    and "\<forall>d \<in> set dcaps. \<exists>c \<in> set caps. rc_base c \<le> rc_base d \<and> cap_end d \<le> cap_end c" "qsort_ok env"
    and "fb = base_image caps ver @ junk" "length fb < 2 ^ 64" "fd = delta_image dcaps va sz dirty @ djunk" "length fd < 2 ^ 64"
    and "ckpt_restore_from_files env fb fd = Done gs" "g \<in> set gs" "j < g_sz g"
  shows "g_mem g j = fold apply_cap dcaps (fold apply_cap caps (\<lambda>_. 0)) (g_va g + j)"
  using restore_main [OF assms(1-4) inside_covered [OF assms(5)] assms(6-10)] assms(11-13) by (auto simp: groups_hold_def)

lemma restore_refines_overlay_parts:
  assumes "\<forall>c \<in> set caps \<union> set dcaps. cap_ok c" "pairwise_indep caps_disjoint caps" "length caps \<le> MAX_RANGES" "length dcaps < 2 ^ 32"
    and "\<forall>d \<in> set dcaps. \<exists>c \<in> set caps. rc_base c \<le> rc_base d \<and> cap_end d \<le> cap_end c" "qsort_ok env"
    and "fb = base_image caps ver @ junk" "length fb < 2 ^ 64" "fd = delta_image dcaps va sz dirty @ djunk" "length fd < 2 ^ 64"
  shows "ckpt_restore_from_files env fb fd \<noteq> Undefined"
    and "ckpt_restore_from_files env fb fd = Done gs \<Longrightarrow>
      sorted_wrt (\<lambda>g h. g_va g + g_sz g < g_va h) gs \<and>
      (\<Union>g \<in> set gs. {g_va g ..< g_va g + g_sz g}) = (\<Union>c \<in> set caps. {rc_base c ..< cap_end c}) \<and>
      (\<forall>g \<in> set gs. read_mem (g_mem g) 0 (g_sz g) = read_mem (fold apply_cap dcaps (fold apply_cap caps (\<lambda>_. 0))) (g_va g) (g_sz g))"
    and "re_open env = (True, True) \<Longrightarrow> (\<forall>n. re_alloc env n) \<Longrightarrow> length caps \<le> MAX_GROUPS \<Longrightarrow> \<exists>gs. ckpt_restore_from_files env fb fd = Done gs"
proof -
  let ?M = "fold apply_cap caps (\<lambda>_. 0)"
  note main = restore_main [OF assms(1-4) inside_covered [OF assms(5)] assms(6-)]
  then show "ckpt_restore_from_files env fb fd \<noteq> Undefined"
    and "re_open env = (True, True) \<Longrightarrow> (\<forall>n. re_alloc env n) \<Longrightarrow> length caps \<le> MAX_GROUPS \<Longrightarrow> \<exists>gs. ckpt_restore_from_files env fb fd = Done gs"
    unfolding all_alloc_def by fastforce+
  assume "ckpt_restore_from_files env fb fd = Done gs"
  with main have "groups_wf gs" "groups_hold gs (fold apply_cap dcaps ?M)" "(\<Union>g \<in> set gs. ivl (shape g)) = (\<Union>c \<in> set caps. cap_ivl c)" by auto
  then show "sorted_wrt (\<lambda>g h. g_va g + g_sz g < g_va h) gs \<and>
      (\<Union>g \<in> set gs. {g_va g ..< g_va g + g_sz g}) = (\<Union>c \<in> set caps. {rc_base c ..< cap_end c}) \<and>
      (\<forall>g \<in> set gs. read_mem (g_mem g) 0 (g_sz g) = read_mem (fold apply_cap dcaps ?M) (g_va g) (g_sz g))"
    by (auto simp: groups_wf_def sorted_wrt_map shape_def ivl_def cap_ivl_def groups_hold_def intro!: read_mem_cong)
qed

text \<open>
  C7: Restoring from the two images gives back the captured memory. Let the baseline file start with the image of
  disjoint captures and the delta file with the image of captures that each lie inside a captured range (both files
  may have anything after the image, as the writers leave it). Then the restore, for every conforming \<open>qsort\<close>, never
  leaves a heap buffer; what it returns are buffers for disjoint address intervals, separated by gaps, that together
  cover exactly the captured ranges, and their bytes are those of the flat memory in which the baseline captures and
  then, in file order, the delta captures are laid over zeros (absent pages keep what was there). It fails only for a
  failed \<open>fopen\<close> or allocation or more than 64 separate groups.
\<close>
theorem restore_refines_overlay:
  assumes "\<forall>c \<in> set caps \<union> set dcaps. cap_ok c" "pairwise_indep caps_disjoint caps" "length caps \<le> MAX_RANGES" "length dcaps < 2 ^ 32"
    and "\<forall>d \<in> set dcaps. \<exists>c \<in> set caps. rc_base c \<le> rc_base d \<and> cap_end d \<le> cap_end c" "qsort_ok env"
    and "fb = base_image caps ver @ junk" "length fb < 2 ^ 64" "fd = delta_image dcaps va sz dirty @ djunk" "length fd < 2 ^ 64"
  shows "ckpt_restore_from_files env fb fd \<noteq> Undefined \<and>
    (\<forall>gs. ckpt_restore_from_files env fb fd = Done gs \<longrightarrow>
      sorted_wrt (\<lambda>g h. g_va g + g_sz g < g_va h) gs \<and>
      (\<Union>g \<in> set gs. {g_va g ..< g_va g + g_sz g}) = (\<Union>c \<in> set caps. {rc_base c ..< cap_end c}) \<and>
      (\<forall>g \<in> set gs. read_mem (g_mem g) 0 (g_sz g) = read_mem (fold apply_cap dcaps (fold apply_cap caps (\<lambda>_. 0))) (g_va g) (g_sz g))) \<and>
    (re_open env = (True, True) \<longrightarrow> (\<forall>n. re_alloc env n) \<longrightarrow> length caps \<le> MAX_GROUPS \<longrightarrow> (\<exists>gs. ckpt_restore_from_files env fb fd = Done gs))"
  using restore_refines_overlay_parts [OF assms] by blast

text \<open>A one-page baseline, on the CPU, and a delta that has the page on the GPU.\<close>

definition page_cap :: "byte \<Rightarrow> range_capture" where
  "page_cap r =
     \<lparr>rc_base = 8192, rc_length = 4096, rc_n_pages = 1, rc_cpu_bytes = (if r = 0 then 4096 else 0), rc_gpu_bytes = (if r = 1 then 4096 else 0),
      rc_enc_count = 0, rc_resmap = [r], rc_cpu_buf = replicate 4096 5, rc_gpu_buf = replicate 4096 7, rc_crypto_meta = None\<rparr>"

definition good_rst :: rst_env where
  "good_rst = \<lparr>re_open = (True, True), re_alloc = (\<lambda>_. True), re_qsort = sort_key rd_base_va\<rparr>"

lemma good_rst_qsort: "qsort_ok good_rst"
  by (simp add: qsort_ok_def good_rst_def)

lemma page_cap_ok: "r = 0 \<or> r = 1 \<Longrightarrow> cap_ok (page_cap r)"
  by (auto simp: cap_ok_def cap_wf_def page_cap_def cap_end_def)

lemma page_cap_apply: "apply_cap (page_cap 1) m = write_mem m 8192 (replicate 4096 7)"
  by (simp add: apply_cap_def page_cap_def)

lemma page_image_small:
  "r = 0 \<or> r = 1 \<Longrightarrow> length (base_image [page_cap r] 2) < 2 ^ 64" "r = 0 \<or> r = 1 \<Longrightarrow> length (delta_image [page_cap r] 8192 4096 1) < 2 ^ 64"
  using length_cap_sections [of "page_cap r"] page_cap_ok [of r]
  by (auto simp: base_image_def delta_image_def cap_ok_def cap_bytes_def cap_meta_bytes_def) (auto simp: page_cap_def)

theorem restore_refines_overlay_witness:
  "\<exists>gs. ckpt_restore_from_files good_rst (base_image [page_cap 0] 2) (delta_image [page_cap 1] 8192 4096 1) = Done gs \<and>
     (\<Union>g \<in> set gs. {g_va g ..< g_va g + g_sz g}) = {8192..<12288} \<and>
     (\<forall>g \<in> set gs. read_mem (g_mem g) 0 (g_sz g) = read_mem (apply_cap (page_cap 1) (apply_cap (page_cap 0) (\<lambda>_. 0))) (g_va g) (g_sz g))"
proof -
  have h: "\<forall>c \<in> set [page_cap 0] \<union> set [page_cap 1]. cap_ok c" "pairwise_indep caps_disjoint [page_cap 0]" "length [page_cap 0] \<le> MAX_RANGES"
    "length [page_cap 1] < 2 ^ 32" "\<forall>d \<in> set [page_cap 1]. \<exists>c \<in> set [page_cap 0]. rc_base c \<le> rc_base d \<and> cap_end d \<le> cap_end c"
    by (simp_all add: page_cap_ok pairwise_indep_def) (simp add: page_cap_def cap_end_def)
  have f: "base_image [page_cap 0] 2 = base_image [page_cap 0] 2 @ []" "delta_image [page_cap 1] 8192 4096 1 = delta_image [page_cap 1] 8192 4096 1 @ []"
    by simp_all
  note r = restore_refines_overlay [OF h good_rst_qsort f(1) page_image_small(1) f(2) page_image_small(2)]
  obtain gs where g: "ckpt_restore_from_files good_rst (base_image [page_cap 0] 2) (delta_image [page_cap 1] 8192 4096 1) = Done gs"
    using r by (auto simp: good_rst_def)
  have e: "{rc_base (page_cap 0) ..< cap_end (page_cap 0)} = {8192..<12288}" by (simp add: page_cap_def cap_end_def)
  show ?thesis using g r e by (intro exI [of _ gs]) simp
qed

end
