(* ===== verification/Restore_Selective.thy ===== *)
theory Restore_Selective
  imports Restore_Image
begin

text \<open>
  \<open>ckpt_restore_selective\<close> of \<open>librst_vllm.c\<close>: restoring only requested address intervals. The output
  blocks are \<open>group\<close> records whose address and size are those of the request; requests need not be
  aligned to pages and may lie anywhere.
\<close>

section \<open>The code\<close>

text \<open>The page loop of \<open>assemble_data_selective\<close>, for the target interval at \<open>tva\<close> of size \<open>tsz\<close>.\<close>

fun selective_loop ::
  "byte list \<Rightarrow> byte list \<Rightarrow> byte list \<Rightarrow> nat \<Rightarrow> nat \<Rightarrow> nat \<Rightarrow> nat \<Rightarrow> nat \<Rightarrow> nat \<Rightarrow> nat \<Rightarrow> mem \<Rightarrow> mem outcome" where
  "selective_loop rm cpu gpu base tva tsz p 0 cpu_off gpu_off m = Done m"
| "selective_loop rm cpu gpu base tva tsz p (Suc n) cpu_off gpu_off m =
     (let page_va = u64 (base + p * PAGE_SIZE); page_end = u64 (page_va + PAGE_SIZE); target_end = u64 (tva + tsz);
          src = (if rm ! p = 0 then Some (drop cpu_off cpu) else if rm ! p = 1 then Some (drop gpu_off gpu) else None);
          co = (if rm ! p = 0 then cpu_off + PAGE_SIZE else cpu_off); go = (if rm ! p = 1 then gpu_off + PAGE_SIZE else gpu_off);
          copy_start = (if tva \<le> page_va then page_va else tva); copy_end = (if page_end \<le> target_end then page_end else target_end)
      in if length rm \<le> p then Undefined
         else if page_end \<le> tva \<or> target_end \<le> page_va then selective_loop rm cpu gpu base tva tsz (p + 1) n co go m
         else case src of None \<Rightarrow> selective_loop rm cpu gpu base tva tsz (p + 1) n co go m
           | Some s \<Rightarrow>
               if length s < copy_end - page_va \<or> tsz < copy_end - tva then Undefined
               else selective_loop rm cpu gpu base tva tsz (p + 1) n co go
                      (write_mem m (copy_start - tva) (take (copy_end - copy_start) (drop (copy_start - page_va) s))))"

definition assemble_data_selective :: "rst_env \<Rightarrow> byte list \<Rightarrow> range_desc \<Rightarrow> group \<Rightarrow> group outcome" where
  "assemble_data_selective env f d g =
     (if \<not> re_alloc env (rd_num_pages d) \<or> \<not> re_alloc env (max 1 (rd_cpu_bytes d)) \<or> \<not> re_alloc env (max 1 (rd_gpu_bytes d)) then Fail
      else if rd_num_pages d < rd_resmap_size d then Undefined
      else let cpu_sec_off = u64 (rd_data_offset d + rd_resmap_size d); gpu_sec_off = u64 (cpu_sec_off + rd_cpu_bytes d)
           in case (read_bytes f (rd_data_offset d) (rd_resmap_size d), read_bytes f cpu_sec_off (rd_cpu_bytes d),
                    read_bytes f gpu_sec_off (rd_gpu_bytes d)) of
                (Some rm, Some cpu, Some gpu) \<Rightarrow>
                  (case selective_loop rm cpu gpu (rd_base_va d) (g_va g) (g_sz g) 0 (rd_num_pages d) 0 0 (g_mem g) of
                     Done m \<Rightarrow> Done (g\<lparr>g_mem := m\<rparr>) | Fail \<Rightarrow> Fail | Undefined \<Rightarrow> Undefined)
              | _ \<Rightarrow> Fail)"

text \<open>One range or block against every request, then all of them.\<close>

fun selective_requests :: "rst_env \<Rightarrow> byte list \<Rightarrow> range_desc \<Rightarrow> group list \<Rightarrow> group list outcome" where
  "selective_requests env f d [] = Done []"
| "selective_requests env f d (g # gs) =
     (let range_end = u64 (rd_base_va d + rd_length d); req_end = u64 (g_va g + g_sz g)
      in case (if range_end \<le> g_va g \<or> req_end \<le> rd_base_va d then Done g else assemble_data_selective env f d g) of
           Done g' \<Rightarrow> (case selective_requests env f d gs of Done gs' \<Rightarrow> Done (g' # gs') | Fail \<Rightarrow> Fail | Undefined \<Rightarrow> Undefined)
         | Fail \<Rightarrow> Fail | Undefined \<Rightarrow> Undefined)"

fun selective_ranges :: "rst_env \<Rightarrow> byte list \<Rightarrow> range_desc list \<Rightarrow> group list \<Rightarrow> group list outcome" where
  "selective_ranges env f [] gs = Done gs"
| "selective_ranges env f (d # ds) gs =
     (case selective_requests env f d gs of Done gs' \<Rightarrow> selective_ranges env f ds gs' | Fail \<Rightarrow> Fail | Undefined \<Rightarrow> Undefined)"

definition selective_base :: "rst_env \<Rightarrow> byte list \<Rightarrow> group list \<Rightarrow> group list outcome" where
  "selective_base env fb gs =
     (let n = field 8 4 fb
      in if \<not> fst (re_open env) then Fail
         else if length fb < V2_HDR_SIZE \<or> field 0 4 fb \<noteq> CKPT_V2_MAGIC then Fail
         else if MAX_RANGES < n then Fail
         else if \<not> re_alloc env (n * DESC_SIZE) then Fail
         else case read_descs fb V2_HDR_SIZE n of None \<Rightarrow> Fail | Some ds \<Rightarrow> selective_ranges env fb ds gs)"

definition selective_delta :: "rst_env \<Rightarrow> byte list \<Rightarrow> group list \<Rightarrow> group list outcome" where
  "selective_delta env fd gs =
     (let n = field 8 4 fd
      in if \<not> snd (re_open env) then Fail
         else if length fd < DELTA_HDR_SIZE \<or> field 0 4 fd \<noteq> CKPT_INC_DELTA_MAGIC then Fail
         else if n = 0 then Done gs
         else if \<not> re_alloc env (n * DESC_SIZE) then Fail
         else case read_descs fd DELTA_HDR_SIZE n of None \<Rightarrow> Fail | Some ds \<Rightarrow> selective_ranges env fd ds gs)"

definition ckpt_restore_selective :: "rst_env \<Rightarrow> byte list \<Rightarrow> byte list \<Rightarrow> (nat \<times> nat) list \<Rightarrow> group list outcome" where
  "ckpt_restore_selective env fb fd reqs =
     (if reqs = [] then Done []
      else if \<not> re_alloc env (length reqs * MEM_BLOCK_SIZE) \<or> \<not> list_all (\<lambda>r. re_alloc env (snd r)) reqs then Fail
      else case selective_base env fb (map (\<lambda>r. \<lparr>g_va = fst r, g_sz = snd r, g_mem = (\<lambda>_. 0)\<rparr>) reqs) of
             Fail \<Rightarrow> Fail | Undefined \<Rightarrow> Undefined | Done gs \<Rightarrow> selective_delta env fd gs)"

section \<open>One capture\<close>

text \<open>The part of a page that lies in the target interval.\<close>

lemma selective_page:
  assumes "m k = M (tva + k)" "k < tsz" "PAGE_SIZE \<le> length s" "cs = max pva tva" "ce = min (pva + PAGE_SIZE) (tva + tsz)" "cs < ce"
  shows "write_mem m (cs - tva) (take (ce - cs) (drop (cs - pva) s)) k = write_mem M pva (take PAGE_SIZE s) (tva + k)"
proof -
  have c: "tva \<le> cs" "pva \<le> cs" "ce \<le> pva + PAGE_SIZE" "ce \<le> tva + tsz" using assms(4,5) by simp_all
  have len: "length (take (ce - cs) (drop (cs - pva) s)) = ce - cs" using c assms(3) by simp
  show ?thesis
  proof (cases "pva \<le> tva + k \<and> tva + k < pva + PAGE_SIZE")
    case True
    then have in_t: "cs \<le> tva + k" "tva + k < ce" using assms(2,4,5) by auto
    then have "cs - tva \<le> k \<and> k < cs - tva + (ce - cs)" "k - (cs - tva) < ce - cs" "cs - pva + (k - (cs - tva)) = tva + k - pva" "cs - pva \<le> length s"
      using c assms(3) by linarith+
    then have "write_mem m (cs - tva) (take (ce - cs) (drop (cs - pva) s)) k = s ! (tva + k - pva)"
      unfolding write_mem_def len by simp
    moreover have "write_mem M pva (take PAGE_SIZE s) (tva + k) = s ! (tva + k - pva)"
      using True assms(3) by (auto simp: write_mem_def)
    ultimately show ?thesis by simp
  next
    case False
    then have "k < cs - tva \<or> cs - tva + (ce - cs) \<le> k" using assms(4,5) c by linarith
    then have "write_mem m (cs - tva) (take (ce - cs) (drop (cs - pva) s)) k = m k" by (intro write_mem_out) (simp only: len)
    moreover have "write_mem M pva (take PAGE_SIZE s) (tva + k) = M (tva + k)" using False assms(3) by (intro write_mem_out) auto
    ultimately show ?thesis using assms(1) by simp
  qed
qed

lemma selective_loop_overlay:
  assumes "p + n = length rm" "base + (p + n) * PAGE_SIZE < 2 ^ 64" "tva + tsz < 2 ^ 64"
    and "cpu_off + PAGE_SIZE * count_list (drop p rm) 0 \<le> length cpu" "gpu_off + PAGE_SIZE * count_list (drop p rm) 1 \<le> length gpu"
    and "\<forall>k < tsz. m k = M (tva + k)"
  shows "\<exists>m'. selective_loop rm cpu gpu base tva tsz p n cpu_off gpu_off m = Done m' \<and>
    (\<forall>k < tsz. m' k = overlay (base + p * PAGE_SIZE) (drop p rm) (drop cpu_off cpu) (drop gpu_off gpu) M (tva + k))"
  using assms
proof (induction n arbitrary: p cpu_off gpu_off m M)
  case (Suc n)
  define pva where "pva = base + p * PAGE_SIZE"
  define cs where "cs = max pva tva"
  define ce where "ce = min (pva + PAGE_SIZE) (tva + tsz)"
  define co where "co = (if rm ! p = 0 then cpu_off + PAGE_SIZE else cpu_off)"
  define go where "go = (if rm ! p = 1 then gpu_off + PAGE_SIZE else gpu_off)"
  define src where "src = (if rm ! p = 0 then Some (drop cpu_off cpu) else if rm ! p = 1 then Some (drop gpu_off gpu) else None)"
  have pe: "pva + PAGE_SIZE < 2 ^ 64" using Suc.prems(2) by (simp add: pva_def)
  have u: "u64 (base + p * PAGE_SIZE) = pva" "u64 (pva + PAGE_SIZE) = pva + PAGE_SIZE" "u64 (tva + tsz) = tva + tsz"
    using pe Suc.prems(3) by (simp_all add: u64_small pva_def)
  have d: "drop p rm = rm ! p # drop (p + 1) rm" using Suc.prems(1) by (simp add: Cons_nth_drop_Suc)
  have pre: "p + 1 + n = length rm" "base + (p + 1 + n) * PAGE_SIZE < 2 ^ 64"
    "co + PAGE_SIZE * count_list (drop (p + 1) rm) 0 \<le> length cpu" "go + PAGE_SIZE * count_list (drop (p + 1) rm) 1 \<le> length gpu"
    using Suc.prems(1,2,4,5) by (simp_all add: d co_def go_def split: if_splits)
  have e: "(if tva \<le> pva then pva else tva) = cs" "(if pva + PAGE_SIZE \<le> tva + tsz then pva + PAGE_SIZE else tva + tsz) = ce"
    by (auto simp: cs_def ce_def)
  let ?W = "\<lambda>s. write_mem m (cs - tva) (take (ce - cs) (drop (cs - pva) s))"
  have body: "selective_loop rm cpu gpu base tva tsz p (Suc n) cpu_off gpu_off m =
      (if pva + PAGE_SIZE \<le> tva \<or> tva + tsz \<le> pva then selective_loop rm cpu gpu base tva tsz (p + 1) n co go m
       else case src of None \<Rightarrow> selective_loop rm cpu gpu base tva tsz (p + 1) n co go m
         | Some s \<Rightarrow> if length s < ce - pva \<or> tsz < ce - tva then Undefined
             else selective_loop rm cpu gpu base tva tsz (p + 1) n co go (?W s))"
    unfolding selective_loop.simps Let_def u e src_def [symmetric] co_def [symmetric] go_def [symmetric]
    by (rule if_not_P) (use Suc.prems(1) in simp)
  let ?M = "case src of None \<Rightarrow> M | Some s \<Rightarrow> write_mem M pva (take PAGE_SIZE s)"
  have ov: "overlay pva (drop p rm) (drop cpu_off cpu) (drop gpu_off gpu) M = overlay (base + (p + 1) * PAGE_SIZE) (drop (p + 1) rm) (drop co cpu) (drop go gpu) ?M"
    by (simp add: d src_def co_def go_def pva_def add.commute add.left_commute)
  have sl: "PAGE_SIZE \<le> length s" if "src = Some s" for s
    using that Suc.prems(4,5) by (auto simp: src_def d split: if_splits)
  have out: "write_mem M pva (take PAGE_SIZE s) (tva + k) = M (tva + k)" if "pva + PAGE_SIZE \<le> tva \<or> tva + tsz \<le> pva" "k < tsz" for s k
    using that by (intro write_mem_out) auto
  have IH: "\<exists>m'. selective_loop rm cpu gpu base tva tsz (p + 1) n co go m1 = Done m' \<and>
      (\<forall>k < tsz. m' k = overlay (base + (p + 1) * PAGE_SIZE) (drop (p + 1) rm) (drop co cpu) (drop go gpu) ?M (tva + k))"
    if "\<forall>k < tsz. m1 k = ?M (tva + k)" for m1
    using Suc.IH [OF pre(1,2) Suc.prems(3) pre(3,4) that] by simp
  show ?case
  proof (cases "src = None \<or> pva + PAGE_SIZE \<le> tva \<or> tva + tsz \<le> pva")
    case True
    then have "\<forall>k < tsz. m k = ?M (tva + k)" using Suc.prems(6) out by (auto split: option.splits)
    from IH [OF this] True show ?thesis unfolding body pva_def [symmetric] ov by auto
  next
    case False
    then obtain s where s: "src = Some s" by auto
    have lt: "cs < ce" if "0 < tsz" using False that by (auto simp: cs_def ce_def)
    have "\<forall>k < tsz. ?W s k = ?M (tva + k)"
      using selective_page [of m _ M tva tsz s cs pva ce] Suc.prems(6) sl [OF s] lt s by (auto simp: cs_def ce_def)
    note ih = IH [OF this]
    have "\<not> (length s < ce - pva \<or> tsz < ce - tva)" using sl [OF s] by (auto simp: ce_def)
    then show ?thesis using ih False s unfolding body pva_def [symmetric] ov by simp
  qed
qed simp

lemma assemble_data_selective_cap:
  assumes "desc_at f d c" "g_va g + g_sz g < 2 ^ 64" "groups_hold [g] M"
  shows "assemble_data_selective env f d g = Fail \<and> \<not> all_alloc env \<or>
    (\<exists>g'. assemble_data_selective env f d g = Done g' \<and> shape g' = shape g \<and> groups_hold [g'] (apply_cap c M))"
proof -
  let ?rm = "take (rc_n_pages c) (rc_resmap c)" and ?cpu = "take (rc_cpu_bytes c) (rc_cpu_buf c)" and ?gpu = "take (rc_gpu_bytes c) (rc_gpu_buf c)"
  have ok: "cap_ok c" and d: "d = desc_of (rd_data_offset d) c" using assms(1) by (auto simp: desc_at_def)
  then have f: "rd_num_pages d = rc_n_pages c" "rd_resmap_size d = rc_n_pages c" "rd_base_va d = rc_base c"
    by (metis desc_of_simps(3), metis desc_of_simps(5), metis desc_of_simps(1))
  have wf: "cap_wf c" "rc_base c + rc_n_pages c * PAGE_SIZE < 2 ^ 64" "rc_cpu_bytes c = PAGE_SIZE * count_list ?rm 0" "rc_gpu_bytes c = PAGE_SIZE * count_list ?rm 1"
    using ok by (auto simp: cap_ok_def cap_end_def)
  obtain m where m: "selective_loop ?rm ?cpu ?gpu (rc_base c) (g_va g) (g_sz g) 0 (rc_n_pages c) 0 0 (g_mem g) = Done m"
      "\<forall>k < g_sz g. m k = apply_cap c M (g_va g + k)"
    using selective_loop_overlay [of 0 "rc_n_pages c" ?rm "rc_base c" "g_va g" "g_sz g" 0 ?cpu 0 ?gpu "g_mem g" M] assms(2,3) wf
    by (auto simp: cap_wf_def groups_hold_def apply_cap_def)
  then show ?thesis
    unfolding assemble_data_selective_def Let_def desc_at_reads [OF assms(1)]
    by (auto simp: f all_alloc_def shape_def groups_hold_def)
qed

section \<open>All captures, all requests\<close>

lemma groups_hold_ConsI: "groups_hold [g] M \<Longrightarrow> groups_hold gs M \<Longrightarrow> groups_hold (g # gs) M"
  by (simp add: groups_hold_def)

lemma selective_requests_restored:
  assumes "desc_at f d c"
  shows "\<forall>g \<in> set gs. g_va g + g_sz g < 2 ^ 64 \<Longrightarrow> groups_hold gs M \<Longrightarrow> restored env gs (apply_cap c M) (selective_requests env f d gs)"
proof (induction gs)
  case Nil
  then show ?case by (simp add: restored_def groups_hold_def)
next
  case (Cons g gs)
  have h: "groups_hold [g] M" "g_va g + g_sz g < 2 ^ 64" and IH: "restored env gs (apply_cap c M) (selective_requests env f d gs)"
    using Cons by (auto simp: groups_hold_def)
  note fl = desc_at_fields [OF assms]
  have ok: "cap_end c = rc_base c + rc_n_pages c * PAGE_SIZE" using assms by (simp add: desc_at_def cap_ok_def cap_end_def)
  have ends: "u64 (rd_base_va d + rd_length d) = cap_end c" "u64 (g_va g + g_sz g) = g_va g + g_sz g"
    using fl h(2) by (simp_all add: u64_small cap_end_def)
  define r where "r = (if cap_end c \<le> g_va g \<or> g_va g + g_sz g \<le> rc_base c then Done g else assemble_data_selective env f d g)"
  have "groups_hold [g] (apply_cap c M)" if "cap_end c \<le> g_va g \<or> g_va g + g_sz g \<le> rc_base c"
  proof -
    have "apply_cap c M (g_va g + k) = M (g_va g + k)" if "k < g_sz g" for k
      by (rule apply_cap_out) (use ok \<open>cap_end c \<le> g_va g \<or> g_va g + g_sz g \<le> rc_base c\<close> that in auto)
    then show ?thesis using h(1) by (simp add: groups_hold_def)
  qed
  then have "r = Fail \<and> \<not> all_alloc env \<or> (\<exists>g'. r = Done g' \<and> shape g' = shape g \<and> groups_hold [g'] (apply_cap c M))"
    using assemble_data_selective_cap [OF assms h(2,1), of env] by (auto simp: r_def)
  moreover have "selective_requests env f d (g # gs) = (case r of
      Done g' \<Rightarrow> (case selective_requests env f d gs of Done gs' \<Rightarrow> Done (g' # gs') | Fail \<Rightarrow> Fail | Undefined \<Rightarrow> Undefined)
      | Fail \<Rightarrow> Fail | Undefined \<Rightarrow> Undefined)"
    unfolding selective_requests.simps Let_def ends r_def using fl by simp
  ultimately show ?case
    using IH by (cases "selective_requests env f d gs") (auto simp: restored_def intro: groups_hold_ConsI)
qed

lemma shape_bound: "map shape gs' = map shape gs \<Longrightarrow> \<forall>g \<in> set gs. g_va g + g_sz g < 2 ^ 64 \<Longrightarrow> \<forall>g \<in> set gs'. g_va g + g_sz g < 2 ^ 64"
proof -
  assume "map shape gs' = map shape gs" "\<forall>g \<in> set gs. g_va g + g_sz g < 2 ^ 64"
  then have "\<forall>x \<in> set (map shape gs'). fst x + snd x < 2 ^ 64" by (simp only:) (simp add: shape_def)
  then show ?thesis by (simp add: shape_def)
qed

lemma selective_ranges_restored:
  assumes "list_all2 (desc_at f) ds cs" "\<forall>g \<in> set gs. g_va g + g_sz g < 2 ^ 64" "groups_hold gs M"
  shows "restored env gs (fold apply_cap cs M) (selective_ranges env f ds gs)"
  using assms
proof (induction ds cs arbitrary: gs M rule: list_all2_induct)
  case (Cons d ds c cs)
  have r: "restored env gs (apply_cap c M) (selective_requests env f d gs)"
    by (rule selective_requests_restored [OF Cons.hyps(1) Cons.prems])
  show ?case
  proof (cases "selective_requests env f d gs")
    case (Done gs1)
    then have g: "map shape gs1 = map shape gs" "groups_hold gs1 (apply_cap c M)" using r by (simp_all add: restored_def)
    from Cons.IH [OF shape_bound [OF g(1) Cons.prems(1)] g(2)] show ?thesis using Done g(1) by (simp add: restored_def split: outcome.splits)
  qed (use r in \<open>simp_all add: restored_def\<close>)
qed (simp add: restored_def)

section \<open>A selective restore is a window on the full restore\<close>

lemma selective_restored:
  assumes "\<forall>c \<in> set caps \<union> set dcaps. cap_ok c" "length caps \<le> MAX_RANGES" "length dcaps < 2 ^ 32"
    and "fb = base_image caps ver @ junk" "length fb < 2 ^ 64" "fd = delta_image dcaps va sz dirty @ djunk" "length fd < 2 ^ 64"
    and "\<forall>r \<in> set reqs. fst r + snd r < 2 ^ 64"
  defines "gs0 \<equiv> map (\<lambda>r. \<lparr>g_va = fst r, g_sz = snd r, g_mem = (\<lambda>_. 0)\<rparr>) reqs"
  shows "ckpt_restore_selective env fb fd reqs = Fail \<and> \<not> (all_alloc env \<and> re_open env = (True, True)) \<or>
    (\<exists>gs. ckpt_restore_selective env fb fd reqs = Done gs \<and> map shape gs = reqs \<and> groups_hold gs (fold apply_cap dcaps (fold apply_cap caps (\<lambda>_. 0))))"
proof -
  have caps: "\<forall>c \<in> set caps. cap_ok c" "\<forall>c \<in> set dcaps. cap_ok c" and n32: "length caps < 2 ^ 32" using assms(1,2) by auto
  note b = base_image_parse [OF caps(1) n32 assms(4,5)] and d = delta_image_parse [OF caps(2) assms(3,6,7)]
  have sh: "map shape gs0 = reqs" and h0: "groups_hold gs0 (\<lambda>_. 0)" and bd: "\<forall>g \<in> set gs0. g_va g + g_sz g < 2 ^ 64"
    using assms(8) by (auto simp: gs0_def shape_def groups_hold_def o_def)
  have rb: "selective_base env fb gs0 = Fail \<and> \<not> (all_alloc env \<and> fst (re_open env)) \<or>
      restored env gs0 (fold apply_cap caps (\<lambda>_. 0)) (selective_base env fb gs0)"
    using selective_ranges_restored [OF b(5) bd h0, of env] b(1,3) assms(2)
    unfolding selective_base_def Let_def b(2,4) by (auto simp: all_alloc_def)
  have rd: "selective_delta env fd gs = Fail \<and> \<not> (all_alloc env \<and> snd (re_open env)) \<or>
      restored env gs (fold apply_cap dcaps M) (selective_delta env fd gs)"
    if "\<forall>g \<in> set gs. g_va g + g_sz g < 2 ^ 64" "groups_hold gs M" for gs M
    using selective_ranges_restored [OF d(5) that, of env] d(1,3) that(2)
    unfolding selective_delta_def Let_def d(2,4) by (auto simp: all_alloc_def restored_def)
  show ?thesis
  proof (cases "reqs = []")
    case True
    then show ?thesis by (simp add: ckpt_restore_selective_def groups_hold_def)
  next
    case False
    show ?thesis
    proof (cases "re_alloc env (length reqs * MEM_BLOCK_SIZE) \<and> list_all (\<lambda>r. re_alloc env (snd r)) reqs")
      case True
      then have run: "ckpt_restore_selective env fb fd reqs = (case selective_base env fb gs0 of Fail \<Rightarrow> Fail | Undefined \<Rightarrow> Undefined | Done gs \<Rightarrow> selective_delta env fd gs)"
        using False by (simp add: ckpt_restore_selective_def gs0_def)
      show ?thesis
      proof (cases "selective_base env fb gs0")
        case (Done gs)
        then have g: "map shape gs = reqs" "groups_hold gs (fold apply_cap caps (\<lambda>_. 0))" using rb sh by (auto simp: restored_def)
        have "\<forall>g \<in> set gs. g_va g + g_sz g < 2 ^ 64" using shape_bound [of gs gs0] g(1) sh bd by simp
        from rd [OF this g(2)] show ?thesis
          unfolding run Done by (cases "selective_delta env fd gs") (auto simp: restored_def g(1))
      qed (use rb in \<open>auto simp: run restored_def\<close>)
    next
      case allocs: False
      then show ?thesis using False by (auto simp: ckpt_restore_selective_def all_alloc_def list_all_iff)
    qed
  qed
qed

lemma restore_selective_window_parts:
  assumes "\<forall>c \<in> set caps \<union> set dcaps. cap_ok c" "pairwise_indep caps_disjoint caps" "length caps \<le> MAX_RANGES" "length dcaps < 2 ^ 32"
    and "\<forall>d \<in> set dcaps. \<exists>c \<in> set caps. rc_base c \<le> rc_base d \<and> cap_end d \<le> cap_end c" "qsort_ok env"
    and "fb = base_image caps ver @ junk" "length fb < 2 ^ 64" "fd = delta_image dcaps va sz dirty @ djunk" "length fd < 2 ^ 64"
    and "\<forall>r \<in> set reqs. fst r + snd r < 2 ^ 64"
  shows "ckpt_restore_selective env fb fd reqs \<noteq> Undefined"
    and "ckpt_restore_selective env fb fd reqs = Done bs \<Longrightarrow> map (\<lambda>b. (g_va b, g_sz b)) bs = reqs"
    and "ckpt_restore_selective env fb fd reqs = Done bs \<Longrightarrow> ckpt_restore_from_files env fb fd = Done gs \<Longrightarrow> b \<in> set bs \<Longrightarrow> k < g_sz b \<Longrightarrow>
      (\<forall>g \<in> set gs. \<forall>j < g_sz g. g_va g + j = g_va b + k \<longrightarrow> g_mem b k = g_mem g j) \<and>
      (g_va b + k \<notin> (\<Union>c \<in> set caps. {rc_base c ..< cap_end c}) \<longrightarrow> g_mem b k = 0)"
    and "re_open env = (True, True) \<Longrightarrow> (\<forall>n. re_alloc env n) \<Longrightarrow> \<exists>bs. ckpt_restore_selective env fb fd reqs = Done bs"
proof -
  let ?M = "fold apply_cap dcaps (fold apply_cap caps (\<lambda>_. 0))"
  note sel = selective_restored [OF assms(1,3,4,7-11), of env]
  show "ckpt_restore_selective env fb fd reqs \<noteq> Undefined" using sel by auto
  show "\<exists>bs. ckpt_restore_selective env fb fd reqs = Done bs" if "re_open env = (True, True)" "\<forall>n. re_alloc env n"
    using sel that by (auto simp: all_alloc_def)
  have fin: "map shape bs = reqs \<and> groups_hold bs ?M" if "ckpt_restore_selective env fb fd reqs = Done bs"
    using sel that by auto
  show "map (\<lambda>b. (g_va b, g_sz b)) bs = reqs" if "ckpt_restore_selective env fb fd reqs = Done bs"
    using fin [OF that] by (simp add: shape_def [abs_def])
  assume bs: "ckpt_restore_selective env fb fd reqs = Done bs" and gs: "ckpt_restore_from_files env fb fd = Done gs" and b: "b \<in> set bs" "k < g_sz b"
  have mb: "g_mem b k = ?M (g_va b + k)" using fin [OF bs] b by (simp add: groups_hold_def)
  have "g_mem g j = ?M (g_va g + j)" if "g \<in> set gs" "j < g_sz g" for g j
    using restored_bytes [OF assms(1-10) gs that] .
  moreover have "?M (g_va b + k) = 0" if "g_va b + k \<notin> (\<Union>c \<in> set caps. {rc_base c ..< cap_end c})"
  proof -
    have out: "\<forall>c \<in> set caps. g_va b + k \<notin> cap_ivl c" using that by (auto simp: cap_ivl_def)
    have "\<forall>d \<in> set dcaps. cap_ok d \<and> g_va b + k \<notin> cap_ivl d"
    proof
      fix d assume d: "d \<in> set dcaps"
      then obtain c where "c \<in> set caps" "rc_base c \<le> rc_base d" "cap_end d \<le> cap_end c" using assms(5) by blast
      then show "cap_ok d \<and> g_va b + k \<notin> cap_ivl d" using out assms(1) d by (auto simp: cap_ivl_def)
    qed
    then show ?thesis using out assms(1) fold_apply_cap_out [of caps "g_va b + k"] fold_apply_cap_out [of dcaps "g_va b + k"] by simp
  qed
  ultimately show "(\<forall>g \<in> set gs. \<forall>j < g_sz g. g_va g + j = g_va b + k \<longrightarrow> g_mem b k = g_mem g j) \<and>
      (g_va b + k \<notin> (\<Union>c \<in> set caps. {rc_base c ..< cap_end c}) \<longrightarrow> g_mem b k = 0)"
    using mb by metis
qed

text \<open>
  C21: A selective restore delivers exactly a window of the full restore. For images of captures as in the full
  restore, and requests of any alignment whose end does not wrap, it never leaves a buffer, returns one block per
  request at the requested address and size, and every byte of a request that lies in a restored group is the byte
  of that group; bytes outside every captured range are zero. With no failing call both restores succeed.
\<close>
theorem restore_selective_window:
  assumes "\<forall>c \<in> set caps \<union> set dcaps. cap_ok c" "pairwise_indep caps_disjoint caps" "length caps \<le> MAX_RANGES" "length dcaps < 2 ^ 32"
    and "\<forall>d \<in> set dcaps. \<exists>c \<in> set caps. rc_base c \<le> rc_base d \<and> cap_end d \<le> cap_end c" "qsort_ok env"
    and "fb = base_image caps ver @ junk" "length fb < 2 ^ 64" "fd = delta_image dcaps va sz dirty @ djunk" "length fd < 2 ^ 64"
    and "\<forall>r \<in> set reqs. fst r + snd r < 2 ^ 64"
  shows "ckpt_restore_selective env fb fd reqs \<noteq> Undefined \<and>
    (\<forall>bs. ckpt_restore_selective env fb fd reqs = Done bs \<longrightarrow>
      map (\<lambda>b. (g_va b, g_sz b)) bs = reqs \<and>
      (\<forall>gs. ckpt_restore_from_files env fb fd = Done gs \<longrightarrow> (\<forall>b \<in> set bs. \<forall>k < g_sz b.
        (\<forall>g \<in> set gs. \<forall>j < g_sz g. g_va g + j = g_va b + k \<longrightarrow> g_mem b k = g_mem g j) \<and>
        (g_va b + k \<notin> (\<Union>c \<in> set caps. {rc_base c ..< cap_end c}) \<longrightarrow> g_mem b k = 0)))) \<and>
    (re_open env = (True, True) \<longrightarrow> (\<forall>n. re_alloc env n) \<longrightarrow> (\<exists>bs. ckpt_restore_selective env fb fd reqs = Done bs))"
  using restore_selective_window_parts(1,4) [OF assms] restore_selective_window_parts(2) [OF assms] restore_selective_window_parts(3) [OF assms]
  by blast

theorem restore_selective_window_witness:
  "\<exists>bs. ckpt_restore_selective good_rst (base_image [page_cap 0] 2) (delta_image [page_cap 1] 8192 4096 1) [(8000, 200), (12287, 5)] = Done bs \<and>
     map (\<lambda>b. (g_va b, g_sz b)) bs = [(8000, 200), (12287, 5)]"
proof -
  have h: "\<forall>c \<in> set [page_cap 0] \<union> set [page_cap 1]. cap_ok c" "pairwise_indep caps_disjoint [page_cap 0]" "length [page_cap 0] \<le> MAX_RANGES"
    "length [page_cap 1] < 2 ^ 32" "\<forall>d \<in> set [page_cap 1]. \<exists>c \<in> set [page_cap 0]. rc_base c \<le> rc_base d \<and> cap_end d \<le> cap_end c"
    by (simp_all add: page_cap_ok pairwise_indep_def) (simp add: page_cap_def cap_end_def)
  have f: "base_image [page_cap 0] 2 = base_image [page_cap 0] 2 @ []" "delta_image [page_cap 1] 8192 4096 1 = delta_image [page_cap 1] 8192 4096 1 @ []"
    by simp_all
  have q: "\<forall>r \<in> set [(8000, 200), (12287, 5::nat)]. fst r + snd r < (2::nat) ^ 64" by simp
  note r = restore_selective_window [OF h good_rst_qsort f(1) page_image_small(1) f(2) page_image_small(2) q]
  obtain bs where g: "ckpt_restore_selective good_rst (base_image [page_cap 0] 2) (delta_image [page_cap 1] 8192 4096 1) [(8000, 200), (12287, 5)] = Done bs"
    using r by (auto simp: good_rst_def)
  then show ?thesis using r by auto
qed

end
