(* ===== verification/Capture_Range.thy ===== *)
theory Capture_Range
  imports Restore_Selective
begin

text \<open>
  \<open>capture_range\<close> of \<open>ckpt_core.c\<close>: one READ_PAGES_RESIDENT ioctl on freshly allocated buffers, whose
  outputs become a capture. The lemmas relate the capture to the memory of the va space it was taken of,
  which connects the driver's read ioctl to the images and to the restore.
\<close>

section \<open>The code\<close>

text \<open>The addresses \<open>malloc\<close> returned for the residency map, the CPU and the GPU buffer.\<close>

type_synonym buf_addrs = "nat option \<times> nat option \<times> nat option"

definition capture_params :: "nat \<Rightarrow> nat \<Rightarrow> nat \<Rightarrow> nat \<Rightarrow> nat \<Rightarrow> read_params" where
  "capture_params base len r c g =
     \<lparr>rp_base = base, rp_length = len, rp_cpu_buf = c, rp_gpu_buf = g, rp_residency_map = r, rp_gpu_uuid = zero_uuid,
      rp_crypto_meta = 0, rp_crypto_meta_size = 0, rp_num_threads = 0\<rparr>"

definition capture_range :: "uvm_env \<Rightarrow> va_space list \<Rightarrow> buf_addrs \<Rightarrow> nat \<Rightarrow> nat \<Rightarrow> mem \<Rightarrow> range_capture option \<times> mem" where
  "capture_range env vss bufs base len m =
     (case bufs of
        (Some r, Some c, Some g) \<Rightarrow>
          let n = len div 4096; m0 = write_mem m r (replicate n 2);
              res = uvm_api_live_migration_read_pages_resident env vss (capture_params base len r c g) m0
          in if rr_status res \<noteq> NV_OK then (None, rr_mem res)
             else (Some \<lparr>rc_base = base, rc_length = len, rc_n_pages = n, rc_cpu_bytes = the (rr_cpu_bytes res),
                         rc_gpu_bytes = the (rr_gpu_bytes res), rc_enc_count = 0, rc_resmap = read_mem (rr_mem res) r n,
                         rc_cpu_buf = read_mem (rr_mem res) c len, rc_gpu_buf = read_mem (rr_mem res) g len,
                         rc_crypto_meta = None\<rparr>, rr_mem res)
      | _ \<Rightarrow> (None, m))"

section \<open>The memory of a va space\<close>

definition visit_content :: "uvm_env \<Rightarrow> uvm_gpu option \<Rightarrow> va_block \<times> nat \<Rightarrow> byte list" where
  "visit_content env G x = (if cpu_visit x then visit_bytes x else gpu_bytes env (visit_phys G x) PAGE_SIZE)"

definition visit_resident :: "uvm_gpu option \<Rightarrow> va_block \<times> nat \<Rightarrow> bool" where
  "visit_resident G x \<longleftrightarrow> cpu_visit x \<or> gpu_visit G x"

definition place_visit :: "uvm_env \<Rightarrow> uvm_gpu option \<Rightarrow> va_block \<times> nat \<Rightarrow> mem \<Rightarrow> mem" where
  "place_visit env G x M = (if visit_resident G x then write_mem M (snd x) (visit_content env G x) else M)"

text \<open>The resident pages of a range, laid over \<open>M\<close> at their own addresses.\<close>

definition snapshot :: "uvm_env \<Rightarrow> va_space list \<Rightarrow> nat \<Rightarrow> nat \<Rightarrow> mem \<Rightarrow> mem" where
  "snapshot env vss base len = fold (place_visit env (request_gpu vss base zero_uuid)) (request_visits False vss base len)"

section \<open>Residency maps and packed sections\<close>

text \<open>A residency map from slot \<open>p\<close> on matches a walk: each visited page in its slot, absent in between.\<close>

fun resmap_of :: "uvm_gpu option \<Rightarrow> nat \<Rightarrow> nat \<Rightarrow> byte list \<Rightarrow> (va_block \<times> nat) list \<Rightarrow> bool" where
  "resmap_of G base p [] V \<longleftrightarrow> V = []"
| "resmap_of G base p (r # rm) [] \<longleftrightarrow> r = 2 \<and> resmap_of G base (p + 1) rm []"
| "resmap_of G base p (r # rm) (x # V) \<longleftrightarrow>
     (if snd x = base + p * PAGE_SIZE then r = visit_class G x \<and> resmap_of G base (p + 1) rm V
      else r = 2 \<and> resmap_of G base (p + 1) rm (x # V))"

lemma length_visit_content [simp]: "length (visit_content env G x) = PAGE_SIZE"
  by (simp add: visit_content_def visit_bytes_def gpu_bytes_def)

lemma section_Cons:
  "cpu_section (x # V) = (if cpu_visit x then visit_bytes x @ cpu_section V else cpu_section V)"
  "gpu_section env G (x # V) = (if gpu_visit G x then gpu_bytes env (visit_phys G x) PAGE_SIZE @ gpu_section env G V else gpu_section env G V)"
  by (simp_all add: cpu_section_def gpu_section_def gpu_phys_list_def)

lemma class_ne: "(2::byte) \<noteq> 0" "(2::byte) \<noteq> 1" "(0::byte) \<noteq> 1"
  by simp_all

lemma overlay_resmap:
  "resmap_of G base p rm V \<Longrightarrow>
   overlay (base + p * PAGE_SIZE) rm (cpu_section V) (gpu_section env G V) M = fold (place_visit env G) V M"
proof (induction G base p rm V arbitrary: M rule: resmap_of.induct)
  case (3 G base p r rm x V)
  have e: "base + (p + 1) * PAGE_SIZE = base + p * PAGE_SIZE + PAGE_SIZE" by simp
  show ?case
  proof (cases "snd x = base + p * PAGE_SIZE")
    case True
    then show ?thesis
      using 3 gpu_visit_not_cpu [of G x]
      by (auto simp: section_Cons place_visit_def [of _ _ x] visit_content_def visit_resident_def visit_class_def e add.assoc
            add.commute [of PAGE_SIZE] visit_bytes_def gpu_bytes_def)
  next
    case False
    then show ?thesis using 3 by (simp add: add.assoc add.commute [of PAGE_SIZE])
  qed
qed (simp_all add: cpu_section_def gpu_section_def gpu_phys_list_def add.commute add.left_commute)

lemma count_resmap:
  "resmap_of G base p rm V \<Longrightarrow> length (cpu_section V) = PAGE_SIZE * count_list rm 0 \<and> length (gpu_section env G V) = PAGE_SIZE * count_list rm 1"
proof (induction G base p rm V rule: resmap_of.induct)
  case (3 G base p r rm x V)
  then show ?case
    using gpu_visit_not_cpu [of G x] by (auto simp: section_Cons visit_class_def visit_bytes_def gpu_bytes_def split: if_splits)
qed (simp_all add: cpu_section_def gpu_section_def gpu_phys_list_def)

lemma resmap_of_slots:
  assumes "sorted_wrt (<) (map (page_slot base \<circ> snd) V)"
    and "\<forall>x \<in> set V. snd x = base + page_slot base (snd x) * PAGE_SIZE \<and> p \<le> page_slot base (snd x) \<and> page_slot base (snd x) < p + length rm"
    and "\<forall>x \<in> set V. rm ! (page_slot base (snd x) - p) = visit_class G x"
    and "\<forall>k < length rm. p + k \<notin> page_slot base ` snd ` set V \<longrightarrow> rm ! k = 2"
  shows "resmap_of G base p rm V"
  using assms
proof (induction G base p rm V rule: resmap_of.induct)
  case (1 G base p V)
  then show ?case by (cases V) auto
next
  case (2 G base p r rm)
  have "rm ! k = 2" if "k < length rm" for k using 2(5) that by (auto dest: spec [of _ "Suc k"])
  moreover have "r = 2" using 2(5) by (auto dest: spec [of _ 0])
  ultimately show ?case using 2(1) by simp
next
  case (3 G base p r rm x V)
  let ?s = "\<lambda>x. page_slot base (snd x)"
  have gt: "?s x < ?s y" if "y \<in> set V" for y using 3(3) that by simp
  have xs: "snd x = base + ?s x * PAGE_SIZE" "p \<le> ?s x" using 3(4) by simp_all
  have rest: "rm ! k = 2" if "k < length rm" "Suc (p + k) \<notin> ?s ` set (x # V)" for k
    using spec [OF 3(6), of "Suc k"] that by (simp add: image_comp)
  show ?case
  proof (cases "snd x = base + p * PAGE_SIZE")
    case True
    then have sx: "?s x = p" using xs(1) by simp
    have "r = visit_class G x" using 3(5) sx by simp
    moreover have "resmap_of G base (p + 1) rm V"
    proof (rule 3(1) [OF True])
      show "sorted_wrt (<) (map (page_slot base \<circ> snd) V)" using 3(3) by (simp add: o_def)
      show "\<forall>y \<in> set V. snd y = base + ?s y * PAGE_SIZE \<and> p + 1 \<le> ?s y \<and> ?s y < p + 1 + length rm"
        using 3(4) gt sx by force
      show "\<forall>y \<in> set V. rm ! (?s y - (p + 1)) = visit_class G y"
      proof
        fix y assume y: "y \<in> set V"
        then have "?s y - p = Suc (?s y - (p + 1))" using gt [OF y] sx by simp
        then show "rm ! (?s y - (p + 1)) = visit_class G y" using 3(5) y by (metis list.set_intros(2) nth_Cons_Suc)
      qed
      show "\<forall>k < length rm. p + 1 + k \<notin> page_slot base ` snd ` set V \<longrightarrow> rm ! k = 2"
        using rest sx by (auto simp: image_comp)
    qed
    ultimately show ?thesis using True by simp
  next
    case False
    then have px: "p < ?s x" using xs by (metis le_neq_implies_less)
    then have p: "p \<notin> ?s ` set (x # V)" using gt by (auto dest: less_trans)
    then have "r = 2" using spec [OF 3(6), of 0] by (simp add: image_comp)
    moreover have "resmap_of G base (p + 1) rm (x # V)"
    proof (rule 3(2) [OF False])
      show "sorted_wrt (<) (map (page_slot base \<circ> snd) (x # V))" using 3(3) .
      show "\<forall>y \<in> set (x # V). snd y = base + ?s y * PAGE_SIZE \<and> p + 1 \<le> ?s y \<and> ?s y < p + 1 + length rm"
        using 3(4) gt px by force
      show "\<forall>y \<in> set (x # V). rm ! (?s y - (p + 1)) = visit_class G y"
      proof
        fix y assume y: "y \<in> set (x # V)"
        then have "p < ?s y" using gt px by (metis less_trans set_ConsD)
        then have "?s y - p = Suc (?s y - (p + 1))" by simp
        then show "rm ! (?s y - (p + 1)) = visit_class G y" using 3(5) y by (metis nth_Cons_Suc)
      qed
      show "\<forall>k < length rm. p + 1 + k \<notin> page_slot base ` snd ` set (x # V) \<longrightarrow> rm ! k = 2"
        using rest by (auto simp: image_comp)
    qed
    ultimately show ?thesis using False by simp
  qed
qed

section \<open>A capture is a snapshot\<close>

lemma request_visits_aligned:
  assumes "request_ok vss base len cpu_buf"
  shows "sorted_wrt (<) (map (page_slot base \<circ> snd) (request_visits d vss base len))"
    and "x \<in> set (request_visits d vss base len) \<Longrightarrow> snd x = base + page_slot base (snd x) * PAGE_SIZE"
proof -
  have b: "base mod PAGE_SIZE = 0" using assms by (simp add: request_ok_def)
  show "sorted_wrt (<) (map (page_slot base \<circ> snd) (request_visits d vss base len))"
  proof (cases "find_va_space vss base 0")
    case (Some iv)
    then obtain i vs where f: "find_va_space vss base 0 = Some (i, vs)" by (cases iv) auto
    then have "vs_wf vs" using assms find_va_space_mem by (auto simp: request_ok_def)
    from scan_slots_sorted [OF this b] f show ?thesis by (simp add: request_visits_def)
  qed (simp add: request_visits_def)
  show "snd x = base + page_slot base (snd x) * PAGE_SIZE" if "x \<in> set (request_visits d vss base len)"
  proof (cases "find_va_space vss base 0")
    case (Some iv)
    then obtain i vs where f: "find_va_space vss base 0 = Some (i, vs)" by (cases iv) auto
    then have "vs_wf vs" using assms find_va_space_mem by (auto simp: request_ok_def)
    moreover have "(fst x, snd x) \<in> set (scan_list d vs base (range_end base len))" using that f by (simp add: request_visits_def)
    ultimately have "snd x mod PAGE_SIZE = 0" "base \<le> snd x" using scan_list_props [OF _ b] by blast+
    then have "(snd x - base) mod PAGE_SIZE = 0" using b by (metis mod_0_imp_dvd dvd_diff_nat mod_eq_0_iff_dvd)
    then have "page_slot base (snd x) * PAGE_SIZE = snd x - base" by (simp add: page_slot_def mod_eq_0_iff_dvd)
    then show ?thesis using \<open>base \<le> snd x\<close> by simp
  qed (use that in \<open>simp add: request_visits_def\<close>)
qed

lemma request_resmap_of:
  assumes "request_ok vss base len cpu_buf"
  shows "resmap_of (request_gpu vss base uu) base 0 (request_resmap d vss base len uu) (request_visits d vss base len)"
  by (rule resmap_of_slots [OF request_visits_aligned(1) [OF assms]])
    (use request_visits_aligned(2) [OF assms] request_slots(2) [OF assms] request_resmap_hit [OF assms] request_resmap_absent in auto)

text \<open>The three buffers \<open>malloc\<close> handed out: present, not overlapping, below the end of the address space.\<close>

definition bufs_ok :: "nat \<Rightarrow> buf_addrs \<Rightarrow> bool" where
  "bufs_ok len bufs \<longleftrightarrow> (case bufs of
     (Some r, Some c, Some g) \<Rightarrow> c \<noteq> 0 \<and> g \<noteq> 0 \<and> c + len \<le> 2 ^ 64 \<and> g + len \<le> 2 ^ 64 \<and>
       (r + len div PAGE_SIZE \<le> c \<or> c + len \<le> r) \<and> (r + len div PAGE_SIZE \<le> g \<or> g + len \<le> r) \<and> (c + len \<le> g \<or> g + len \<le> c)
   | _ \<Rightarrow> True)"

text \<open>Well-formed va spaces: blocks inside their ranges, GPU pages at representable addresses.\<close>

definition vss_ok :: "va_space list \<Rightarrow> bool" where
  "vss_ok vss \<longleftrightarrow> (\<forall>vs \<in> set vss. vs_wf vs \<and>
     (\<forall>r \<in> set (vs_ranges vs). \<forall>vb \<in> set (vr_blocks r). vr_start r \<le> vb_start vb \<and> vb_end vb \<le> vr_end r) \<and> (\<forall>vb \<in> set (managed_blocks vs). \<forall>g gs pi.
     vb_gpu_state vb g = Some gs \<and> gs_resident gs pi \<longrightarrow> pa_address (gs_phys gs pi) + PAGE_SIZE < 2 ^ 64))"

lemma read_mem_inside: "q + k \<le> length bs \<Longrightarrow> read_mem (write_mem m p bs) (p + q) k = take k (drop q bs)"
  by (rule nth_equalityI) (auto simp: write_mem_def)

lemma capture_range_facts:
  assumes "capture_range env vss bufs base len m = (Some c, m')" "vss_ok vss" "csl_ok env" "bufs_ok len bufs"
  defines "V \<equiv> request_visits False vss base len" and "G \<equiv> request_gpu vss base zero_uuid"
  shows "request_ok vss base len 0" "rc_base c = base" "rc_length c = len" "rc_n_pages c = len div PAGE_SIZE" "rc_crypto_meta c = None" "rc_enc_count c = 0"
    "rc_resmap c = request_resmap False vss base len zero_uuid"
    "rc_cpu_bytes c = length (cpu_section V)" "rc_gpu_bytes c = length (gpu_section env G V)" "length (rc_cpu_buf c) = len" "length (rc_gpu_buf c) = len"
    "take (rc_cpu_bytes c) (rc_cpu_buf c) = cpu_section V" "take (rc_gpu_bytes c) (rc_gpu_buf c) = gpu_section env G V"
proof -
  obtain ra ca ga where bf: "bufs = (Some ra, Some ca, Some ga)"
    using assms(1) by (auto simp: capture_range_def split: option.splits prod.splits)
  define pr where "pr = capture_params base len ra ca ga"
  define n where "n = len div PAGE_SIZE"
  define m0 where "m0 = write_mem m ra (replicate n 2)"
  define res where "res = uvm_api_live_migration_read_pages_resident env vss pr m0"
  have prs: "rp_base pr = base" "rp_length pr = len" "rp_cpu_buf pr = ca" "rp_gpu_buf pr = ga" "rp_residency_map pr = ra" "rp_gpu_uuid pr = zero_uuid"
    by (simp_all add: pr_def capture_params_def)
  have ok: "rr_status res = NV_OK" and c: "c = \<lparr>rc_base = base, rc_length = len, rc_n_pages = n, rc_cpu_bytes = the (rr_cpu_bytes res),
       rc_gpu_bytes = the (rr_gpu_bytes res), rc_enc_count = 0, rc_resmap = read_mem (rr_mem res) ra n,
       rc_cpu_buf = read_mem (rr_mem res) ca len, rc_gpu_buf = read_mem (rr_mem res) ga len, rc_crypto_meta = None\<rparr>"
    using assms(1) by (auto simp: capture_range_def bf Let_def res_def m0_def n_def pr_def split: if_splits)
  have "read_check env pr = NV_OK" using ok by (auto simp: res_def uvm_api_live_migration_read_pages_resident_def early_return_def Let_def split: if_splits)
  then have al: "base mod PAGE_SIZE = 0" "0 < len" "len mod PAGE_SIZE = 0" by (auto simp: read_check_def prs split: if_splits)
  have b: "ca \<noteq> 0" "ga \<noteq> 0" "ca + len \<le> 2 ^ 64" "ga + len \<le> 2 ^ 64" "ra + n \<le> ca \<or> ca + len \<le> ra" "ra + n \<le> ga \<or> ga + len \<le> ra" "ca + len \<le> ga \<or> ga + len \<le> ca"
    using assms(4) by (auto simp: bufs_ok_def bf n_def)
  have po: "params_ok vss pr" using assms(2) al b(2-4) by (auto simp: params_ok_def request_ok_def prs vss_ok_def)
  show rq: "request_ok vss base len 0" using assms(2) al by (auto simp: request_ok_def vss_ok_def)
  let ?cs = "cpu_section V" and ?gs = "gpu_section env G V" and ?rm = "request_resmap False vss base len zero_uuid"
  have s: "rr_mem res = plain_image False env vss pr m0" "rr_cpu_bytes res = Some (length ?cs)" "rr_gpu_bytes res = Some (length ?gs)"
    using resident_109_success [OF po assms(3) ok [unfolded res_def]] by (auto simp: res_def prs V_def G_def)
  have len: "length ?cs + length ?gs \<le> len"
    using request_parts_bound [OF rq, of False G]
    by (simp add: V_def cpu_section_def gpu_section_def gpu_phys_list_def length_concat o_def sum_list_triv visit_bytes_def gpu_bytes_def mult.commute)
  have im: "rr_mem res = write_mem (write_mem (write_mem m0 ca ?cs) ga ?gs) ra ?rm"
    unfolding s(1) by (simp add: plain_image_def read_image_def prs Let_def b(1) V_def G_def)
  have lrm: "length ?rm = n" by (simp add: n_def)
  show "rc_base c = base" "rc_length c = len" "rc_n_pages c = len div PAGE_SIZE" "rc_crypto_meta c = None" "rc_enc_count c = 0"
    "rc_cpu_bytes c = length ?cs" "rc_gpu_bytes c = length ?gs" "length (rc_cpu_buf c) = len" "length (rc_gpu_buf c) = len"
    by (simp_all add: c n_def s)
  show "rc_resmap c = ?rm" unfolding c im range_capture.simps by (rule read_write_same [OF lrm])
  have "read_mem (rr_mem res) ca (length ?cs) = read_mem (write_mem m0 ca ?cs) ca (length ?cs)"
  proof -
    have "ca + length ?cs \<le> ra \<or> ra + length ?rm \<le> ca" "ca + length ?cs \<le> ga \<or> ga + length ?gs \<le> ca" using b(5,7) len unfolding lrm by linarith+
    then show ?thesis unfolding im by (simp only: read_write_disjoint)
  qed
  then show "take (rc_cpu_bytes c) (rc_cpu_buf c) = ?cs" using len by (simp add: c s read_mem_take read_write_same)
  have "read_mem (rr_mem res) ga (length ?gs) = read_mem (write_mem (write_mem m0 ca ?cs) ga ?gs) ga (length ?gs)"
    unfolding im by (rule read_write_disjoint) (use b(6) len in \<open>unfold lrm, linarith\<close>)
  then show "take (rc_gpu_bytes c) (rc_gpu_buf c) = ?gs" using len by (simp add: c s read_mem_take read_write_same)
qed

lemma capture_range_ok:
  assumes "capture_range env vss bufs base len m = (Some c, m')" "vss_ok vss" "csl_ok env" "bufs_ok len bufs" "base + len < 2 ^ 64"
  shows "cap_ok c" "apply_cap c = snapshot env vss base len"
proof -
  note f = capture_range_facts [OF assms(1-4)]
  note rm = request_resmap_of [OF f(1), of zero_uuid False]
  have l: "len = len div PAGE_SIZE * PAGE_SIZE" "0 < len div PAGE_SIZE" using f(1) by (auto simp: request_ok_def mod_eq_0_iff_dvd)
  have lr: "take (rc_n_pages c) (rc_resmap c) = request_resmap False vss base len zero_uuid" using f(4,7) by simp
  have le: "rc_cpu_bytes c \<le> len" "rc_gpu_bytes c \<le> len"
    using arg_cong [OF f(12), of length] arg_cong [OF f(13), of length] f(8-11) by simp_all
  show "cap_ok c"
    using f(2-11) l le count_resmap [OF rm, of env] assms(5) lr by (simp add: cap_ok_def cap_wf_def cap_end_def)
  show "apply_cap c = snapshot env vss base len"
    using overlay_resmap [OF rm, of env] f(2,12,13) lr by (simp add: apply_cap_def snapshot_def fun_eq_iff)
qed

section \<open>What a snapshot holds\<close>

lemma place_fold_out:
  "\<forall>x \<in> set V. visit_resident G x \<longrightarrow> a < snd x \<or> snd x + PAGE_SIZE \<le> a \<Longrightarrow> fold (place_visit env G) V M a = M a"
  by (induction V arbitrary: M) (auto simp: place_visit_def write_mem_out)

lemma place_fold_page:
  assumes "sorted_wrt (\<lambda>x y. snd x + PAGE_SIZE \<le> snd y) V" "x \<in> set V" "visit_resident G x"
  shows "read_mem (fold (place_visit env G) V M) (snd x) PAGE_SIZE = visit_content env G x"
  using assms
proof (induction V arbitrary: M)
  case (Cons y V)
  show ?case
  proof (cases "x \<in> set V")
    case True
    then show ?thesis using Cons by simp
  next
    case False
    then have y: "y = x" using Cons.prems(2) by simp
    have "fold (place_visit env G) V M' (snd x + k) = M' (snd x + k)" if "k < PAGE_SIZE" for k M'
      by (rule place_fold_out) (use Cons.prems(1) y that in auto)
    then have "read_mem (fold (place_visit env G) V M') (snd x) PAGE_SIZE = read_mem M' (snd x) PAGE_SIZE" for M'
      by (intro read_mem_cong) simp
    then show ?thesis using Cons.prems(3) by (simp add: y place_visit_def [of _ _ x] read_write_same)
  qed
qed simp

lemma request_visits_spaced:
  assumes "request_ok vss base len cpu_buf"
  shows "sorted_wrt (\<lambda>x y. snd x + PAGE_SIZE \<le> snd y) (request_visits d vss base len)"
proof -
  have "sorted_wrt (\<lambda>x y. page_slot base (snd x) < page_slot base (snd y)) (request_visits d vss base len)"
    using request_visits_aligned(1) [OF assms] by (simp add: sorted_wrt_map)
  then show ?thesis
  proof (rule sorted_wrt_mono_rel [rotated])
    fix x y assume m: "x \<in> set (request_visits d vss base len)" "y \<in> set (request_visits d vss base len)" "page_slot base (snd x) < page_slot base (snd y)"
    have "(page_slot base (snd x) + 1) * PAGE_SIZE \<le> page_slot base (snd y) * PAGE_SIZE" using m(3) by (intro mult_le_mono1) simp
    then show "snd x + PAGE_SIZE \<le> snd y"
      using request_visits_aligned(2) [OF assms m(1)] request_visits_aligned(2) [OF assms m(2)] by simp
  qed
qed

lemma snapshot_page:
  assumes "request_ok vss base len cpu_buf" "x \<in> set (request_visits False vss base len)" "visit_resident (request_gpu vss base zero_uuid) x"
  shows "read_mem (snapshot env vss base len M) (snd x) PAGE_SIZE = visit_content env (request_gpu vss base zero_uuid) x"
  unfolding snapshot_def by (rule place_fold_page [OF request_visits_spaced [OF assms(1)] assms(2,3)])

lemma request_visits_in:
  assumes "request_ok vss base len cpu_buf" "x \<in> set (request_visits d vss base len)"
  shows "base \<le> snd x" "snd x + PAGE_SIZE \<le> base + len"
proof -
  have "page_slot base (snd x) < len div PAGE_SIZE" by (rule request_slots(2) [OF assms])
  then have "(page_slot base (snd x) + 1) * PAGE_SIZE \<le> len div PAGE_SIZE * PAGE_SIZE" by (intro mult_le_mono1) simp
  also have "\<dots> \<le> len" by simp
  finally show "base \<le> snd x" "snd x + PAGE_SIZE \<le> base + len" using request_visits_aligned(2) [OF assms] by simp_all
qed

lemma snapshot_out:
  assumes "request_ok vss base len cpu_buf" "a < base \<or> base + len \<le> a"
  shows "snapshot env vss base len M a = M a"
  unfolding snapshot_def by (rule place_fold_out) (use request_visits_in [OF assms(1)] assms(2) in fastforce)

text \<open>A page of a range is a page of every sub-range it lies in.\<close>

lemma block_pages_mem:
  assumes "vb_start vb mod PAGE_SIZE = 0" "base mod PAGE_SIZE = 0" "va mod PAGE_SIZE = 0" "max (vb_start vb) base \<le> va" "va \<le> min (vb_end vb) e"
  shows "va \<in> set (block_pages base e vb)"
proof -
  define bs where "bs = max (vb_start vb) base"
  define be where "be = min (vb_end vb) e"
  define k where "k = (va - bs) div PAGE_SIZE"
  have le: "bs \<le> va" "va \<le> be" using assms(4,5) by (simp_all add: bs_def be_def)
  have "bs mod PAGE_SIZE = 0" using assms(1,2) by (simp add: bs_def max_def)
  then have "(va - bs) mod PAGE_SIZE = 0" using assms(3) by (metis mod_0_imp_dvd dvd_diff_nat mod_eq_0_iff_dvd)
  then have "va = bs + k * PAGE_SIZE" using le(1) by (simp add: k_def mod_eq_0_iff_dvd)
  moreover have "k < (be - bs) div PAGE_SIZE + 1" unfolding k_def using le(2) by (simp add: less_Suc_eq_le div_le_mono diff_le_mono)
  ultimately show ?thesis
    using le unfolding block_pages_def Let_def bs_def [symmetric] be_def [symmetric] by (auto simp del: upt_Suc)
qed

lemma request_visits_sub:
  assumes "vss_ok vss" "request_ok vss base len 0" "request_ok vss sub sublen 0" "find_va_space vss sub 0 = find_va_space vss base 0"
    and "sub + sublen < 2 ^ 64" "x \<in> set (request_visits False vss base len)" "sub \<le> snd x" "snd x < sub + sublen"
  shows "x \<in> set (request_visits False vss sub sublen)"
proof -
  obtain i vs where f: "find_va_space vss base 0 = Some (i, vs)"
    using assms(6) by (cases "find_va_space vss base 0") (auto simp: request_visits_def)
  then have vs: "vs \<in> set vss" by (rule find_va_space_mem)
  obtain vb va where x: "x = (vb, va)" by fastforce
  have m: "(vb, va) \<in> set (scan_list False vs base (range_end base len))" using assms(6) f x by (simp add: request_visits_def)
  have wf: "vs_wf vs" and b: "base mod PAGE_SIZE = 0" "sub mod PAGE_SIZE = 0" using assms(1-3) vs by (simp_all add: vss_ok_def request_ok_def)
  obtain r where r: "r \<in> set (vs_ranges vs)" "is_managed r" "vb \<in> set (vr_blocks r)"
    using scan_list_mem(1) [OF m] by (auto simp: blocks_in_def va_ranges_in_def)
  have st: "vb_start vb mod PAGE_SIZE = 0" 
    using wf blocks_in_wf(2) [OF wf] scan_list_mem(1) [OF m] by (auto simp: vs_wf_def)
  note bp = block_pages_props [OF scan_list_mem(2) [OF m] st b(1)]
  have in_r: "vr_start r \<le> va" "va \<le> vr_end r" using assms(1) vs r bp(4,5) by (force simp: vss_ok_def)+
  have e: "range_end sub sublen = sub + sublen - 1" using assms(5) by (simp add: range_end_def u64_small)
  have le: "sub \<le> va" "va \<le> sub + sublen - 1" using assms(7,8) x by simp_all
  have "r \<in> set (va_ranges_in vs sub (sub + sublen - 1))" using r(1) in_r le by (simp add: va_ranges_in_def)
  then have "vb \<in> set (blocks_in vs sub (sub + sublen - 1))" using r(2,3) by (auto simp: blocks_in_def)
  moreover have "va \<in> set (block_pages sub (sub + sublen - 1) vb)"
    by (rule block_pages_mem [OF st b(2) bp(1)]) (use bp(4,5) le in simp_all)
  ultimately have "x \<in> set (scan_list False vs sub (range_end sub sublen))" by (auto simp: scan_list_def e x)
  then show ?thesis using f assms(4) by (simp add: request_visits_def)
qed

section \<open>Property\<close>

text \<open>
  C22: A successful \<open>capture_range\<close> is a snapshot of the range: the capture is one the writers and the restore accept
  (sections exactly as long as the residency map says), and laying it over any memory puts every page of the range
  that is resident on the CPU or on the GPU at its own address with its contents, and changes nothing else.
\<close>
theorem capture_range_snapshot:
  assumes "capture_range env vss bufs base len m = (Some c, m')" "vss_ok vss" "csl_ok env" "bufs_ok len bufs" "base + len < 2 ^ 64"
    and "V = request_visits False vss base len" "G = request_gpu vss base zero_uuid"
  shows "cap_ok c \<and> rc_base c = base \<and> rc_length c = len \<and>
    (\<forall>x \<in> set V. visit_resident G x \<longrightarrow> read_mem (apply_cap c M) (snd x) PAGE_SIZE = visit_content env G x) \<and>
    (\<forall>a. (\<forall>x \<in> set V. visit_resident G x \<longrightarrow> a \<notin> {snd x ..< snd x + PAGE_SIZE}) \<longrightarrow> apply_cap c M a = M a)"
proof -
  note f = capture_range_facts [OF assms(1-4)] and ok = capture_range_ok [OF assms(1-5)]
  have "apply_cap c M a = M a" if "\<forall>x \<in> set V. visit_resident G x \<longrightarrow> a \<notin> {snd x ..< snd x + PAGE_SIZE}" for a
    unfolding ok(2) snapshot_def assms(7) [symmetric] assms(6) [symmetric] by (rule place_fold_out) (use that in auto)
  then show ?thesis using ok snapshot_page [OF f(1)] f(2,3) assms(6,7) by simp
qed

lemma sample_capture:
  "\<exists>c m'. capture_range sample_env [sample_vs] (Some 65536, Some 8192, Some 1048576) 2097152 4096 m = (Some c, m')"
proof -
  let ?pr = "capture_params 2097152 4096 65536 8192 1048576"
  have f: "rp_base ?pr = rp_base sample_pr" "rp_length ?pr = rp_length sample_pr" "rp_cpu_buf ?pr = rp_cpu_buf sample_pr"
    "rp_gpu_buf ?pr = rp_gpu_buf sample_pr" "rp_residency_map ?pr = rp_residency_map sample_pr" "rp_gpu_uuid ?pr = rp_gpu_uuid sample_pr"
    by (simp_all add: capture_params_def sample_pr_def)
  have "uvm_api_live_migration_read_pages_resident sample_env [sample_vs] ?pr m0 = uvm_api_live_migration_read_pages_resident sample_env [sample_vs] sample_pr m0" for m0
    unfolding uvm_api_live_migration_read_pages_resident_def read_check_def n_pages_def page_cap0_def exit109_def copy_results_def copy_resmap_def f simp_thms if_False if_True
    by simp
  then show ?thesis using resident_live [OF sample_live] by (simp add: capture_range_def Let_def)
qed

lemma sample_vss: "vss_ok [sample_vs]"
  using sample_vs_wf by (auto simp: vss_ok_def sample_managed) (auto simp: sample_vs_def sample_range_def sample_block_def split: if_splits)

lemma sample_bufs: "bufs_ok 4096 (Some 65536, Some 8192, Some 1048576)"
  by (simp add: bufs_ok_def)

lemma sample_page_resident: "visit_resident (request_gpu [sample_vs] 2097152 zero_uuid) (sample_block, 2097152)"
  by (simp add: visit_resident_def gpu_visit_def is_gpu_page_def cpu_visit_def is_cpu_page_def request_gpu_def sample_find resolve_gpu_def del: find_va_space.simps)
     (simp add: sample_vs_def sample_block_def page_index_def zero_uuid_def)

theorem capture_range_snapshot_witness:
  "\<exists>c m'. capture_range sample_env [sample_vs] (Some 65536, Some 8192, Some 1048576) 2097152 4096 (\<lambda>_. 0) = (Some c, m') \<and>
     read_mem (apply_cap c (\<lambda>_. 0)) 2097152 PAGE_SIZE = visit_content sample_env (request_gpu [sample_vs] 2097152 zero_uuid) (sample_block, 2097152)"
proof -
  obtain c m' where c: "capture_range sample_env [sample_vs] (Some 65536, Some 8192, Some 1048576) 2097152 4096 (\<lambda>_. 0) = (Some c, m')"
    using sample_capture by blast
  have "2097152 + (4096::nat) < 2 ^ 64" by simp
  from capture_range_snapshot [OF c sample_vss sample_env_csl sample_bufs this refl refl, of "\<lambda>_. 0"] c sample_page_resident
  show ?thesis by (auto simp: sample_visits)
qed

end
