(* ===== verification/Snapshots.thy ===== *)
theory Snapshots
  imports Capture_Range
begin

text \<open>
  Snapshots of ranges laid over each other: the ranges of a baseline, then the regions of a delta taken later. When
  nothing outside the regions changed, the result has the later contents of every resident page.
\<close>

definition snap :: "uvm_env \<Rightarrow> va_space list \<Rightarrow> nat \<times> nat \<Rightarrow> mem \<Rightarrow> mem" where
  "snap env vss r = snapshot env vss (fst r) (snd r)"

text \<open>Later regions leave a page they do not meet, and agree on the pages they hold.\<close>

lemma snap_out:
  assumes "request_ok vss (fst r) (snd r) 0" "va mod PAGE_SIZE = 0" "\<not> (fst r \<le> va \<and> va < fst r + snd r)"
  shows "read_mem (snap env vss r M) va PAGE_SIZE = read_mem M va PAGE_SIZE"
proof (rule read_mem_cong)
  fix k assume "k < PAGE_SIZE"
  obtain i j l where "fst r = PAGE_SIZE * i" "snd r = PAGE_SIZE * j" "va = PAGE_SIZE * l"
    using assms(1,2) by (auto simp: request_ok_def mod_eq_0_iff_dvd dvd_def)
  then have "va + PAGE_SIZE \<le> fst r \<or> fst r + snd r \<le> va" using assms(3) by (cases "l < i") (auto simp: not_less)
  then show "snap env vss r M (va + k) = M (va + k)"
    unfolding snap_def using \<open>k < PAGE_SIZE\<close> by (intro snapshot_out [OF assms(1)]) auto
qed

lemma fold_snap_out:
  assumes "\<forall>r \<in> set rs. request_ok vss (fst r) (snd r) 0 \<and> \<not> (fst r \<le> va \<and> va < fst r + snd r)" "va mod PAGE_SIZE = 0"
  shows "read_mem (fold (snap env vss) rs M) va PAGE_SIZE = read_mem M va PAGE_SIZE"
  using assms(1) by (induction rs arbitrary: M) (simp_all add: snap_out [OF _ assms(2)])

lemma fold_snap_page:
  assumes "\<forall>r \<in> set rs. request_ok vss (fst r) (snd r) 0"
    and "\<And>r M. r \<in> set rs \<Longrightarrow> fst r \<le> va \<Longrightarrow> va < fst r + snd r \<Longrightarrow> read_mem (snap env vss r M) va PAGE_SIZE = bs"
    and "va mod PAGE_SIZE = 0" "\<exists>r \<in> set rs. fst r \<le> va \<and> va < fst r + snd r"
  shows "read_mem (fold (snap env vss) rs M) va PAGE_SIZE = bs"
  using assms
proof (induction rs arbitrary: M)
  case (Cons r rs)
  show ?case
  proof (cases "\<exists>r \<in> set rs. fst r \<le> va \<and> va < fst r + snd r")
    case True
    then show ?thesis using Cons.IH [OF _ _ assms(3) True] Cons.prems(1,2) by simp
  next
    case False
    then have "read_mem (fold (snap env vss) rs (snap env vss r M)) va PAGE_SIZE = read_mem (snap env vss r M) va PAGE_SIZE"
      using Cons.prems(1) assms(3) by (intro fold_snap_out) auto
    also have "\<dots> = bs" using Cons.prems(2,4) False by auto
    finally show ?thesis by simp
  qed
qed simp

lemma take_prefix: "take (length xs) ys = xs \<Longrightarrow> \<exists>zs. ys = xs @ zs"
  by (metis append_take_drop_id)

text \<open>Ranges that do not overlap.\<close>

definition ranges_disjoint :: "(nat \<times> nat) list \<Rightarrow> bool" where
  "ranges_disjoint rs \<longleftrightarrow> sorted_wrt (\<lambda>r s. fst r + snd r \<le> fst s \<or> fst s + snd s \<le> fst r) rs"

lemma ranges_disjoint_nth:
  assumes "ranges_disjoint rs" "i < length rs" "j < length rs" "i \<noteq> j"
  shows "fst (rs ! i) + snd (rs ! i) \<le> fst (rs ! j) \<or> fst (rs ! j) + snd (rs ! j) \<le> fst (rs ! i)"
proof -
  have "\<And>a b. a < b \<Longrightarrow> b < length rs \<Longrightarrow> fst (rs ! a) + snd (rs ! a) \<le> fst (rs ! b) \<or> fst (rs ! b) + snd (rs ! b) \<le> fst (rs ! a)"
    using assms(1) by (auto simp: ranges_disjoint_def sorted_wrt_iff_nth_less)
  from this [of i j] this [of j i] show ?thesis using assms(2-4) by linarith
qed

lemma ranges_disjoint_unique:
  assumes "ranges_disjoint rs" "r \<in> set rs" "s \<in> set rs" "fst r \<le> a" "a < fst r + snd r" "fst s \<le> a" "a < fst s + snd s"
  shows "r = s"
proof -
  obtain i j where ij: "i < length rs" "j < length rs" "r = rs ! i" "s = rs ! j" using assms(2,3) by (metis in_set_conv_nth)
  show ?thesis
  proof (cases "i = j")
    case False
    from ranges_disjoint_nth [OF assms(1) ij(1,2) False] assms(4-7) show ?thesis unfolding ij(3,4) by linarith
  qed (simp add: ij)
qed

lemma visit_aligned: "request_ok vss b l 0 \<Longrightarrow> x \<in> set (request_visits False vss b l) \<Longrightarrow> snd x mod PAGE_SIZE = 0"
  using request_visits_aligned(2) [of vss b l 0 x False] by (metis (no_types) request_ok_def mod_add_left_eq mod_mult_self2_is_0 add_0 add.commute mod_mod_trivial)

text \<open>A region is found in the va space of every range it meets; so it is when it lies inside one of several disjoint ranges.\<close>

definition same_space :: "va_space list \<Rightarrow> (nat \<times> nat) list \<Rightarrow> (nat \<times> nat) list \<Rightarrow> bool" where
  "same_space vss drgs rgs \<longleftrightarrow> list_all (\<lambda>d. list_all (\<lambda>r. 0 < snd d \<longrightarrow> 0 < snd r \<longrightarrow> fst d < fst r + snd r \<longrightarrow> fst r < fst d + snd d \<longrightarrow>
     find_va_space vss (fst d) 0 = find_va_space vss (fst r) 0) rgs) drgs"

lemma inside_same_space:
  assumes "ranges_disjoint rgs" "\<forall>d \<in> set drgs. \<exists>r \<in> set rgs. fst r \<le> fst d \<and> fst d + snd d \<le> fst r + snd r \<and> find_va_space vss (fst d) 0 = find_va_space vss (fst r) 0"
  shows "same_space vss drgs rgs"
  unfolding same_space_def list_all_iff
proof (intro ballI impI)
  fix d r assume d: "d \<in> set drgs" and r: "r \<in> set rgs" and o: "0 < snd d" "0 < snd r" "fst d < fst r + snd r" "fst r < fst d + snd d"
  obtain r' where r': "r' \<in> set rgs" "fst r' \<le> fst d" "fst d + snd d \<le> fst r' + snd r'" "find_va_space vss (fst d) 0 = find_va_space vss (fst r') 0"
    using assms(2) d by blast
  have "r' = r"
  proof (cases "fst d \<le> fst r")
    case True
    show ?thesis by (rule ranges_disjoint_unique [OF assms(1) r'(1) r, of "fst r"]) (use True o r'(2,3) in linarith)+
  next
    case False
    show ?thesis by (rule ranges_disjoint_unique [OF assms(1) r'(1) r, of "fst d"]) (use False o r'(2,3) in linarith)+
  qed
  then show "find_va_space vss (fst d) 0 = find_va_space vss (fst r) 0" using r'(4) by simp
qed

text \<open>The delta over the baseline has the later contents of every resident page.\<close>

lemma delta_over_baseline:
  assumes "vss_ok vss1" "\<forall>r \<in> set rgs. request_ok vss0 (fst r) (snd r) 0 \<and> request_ok vss1 (fst r) (snd r) 0" "\<forall>d \<in> set drgs. request_ok vss1 (fst d) (snd d) 0 \<and> fst d + snd d < 2 ^ 64"
    and "ranges_disjoint rgs" "same_space vss1 drgs rgs"
    and "r \<in> set rgs" "x \<in> set (request_visits False vss1 (fst r) (snd r))" "visit_resident (request_gpu vss1 (fst r) zero_uuid) x"
    and same: "\<forall>d \<in> set drgs. \<not> (fst d \<le> snd x \<and> snd x < fst d + snd d) \<Longrightarrow>
      \<exists>y \<in> set (request_visits False vss0 (fst r) (snd r)). snd y = snd x \<and> visit_resident (request_gpu vss0 (fst r) zero_uuid) y \<and>
         visit_content env0 (request_gpu vss0 (fst r) zero_uuid) y = visit_content env1 (request_gpu vss1 (fst r) zero_uuid) x"
  shows "read_mem (fold (snap env1 vss1) drgs (fold (snap env0 vss0) rgs M)) (snd x) PAGE_SIZE = visit_content env1 (request_gpu vss1 (fst r) zero_uuid) x"
proof -
  let ?va = "snd x"
  have rq: "request_ok vss1 (fst r) (snd r) 0" using assms(2,6) by blast
  have al: "?va mod PAGE_SIZE = 0" by (rule visit_aligned [OF rq assms(7)])
  have inr: "fst r \<le> ?va" "?va < fst r + snd r" using request_visits_in [OF rq assms(7)] by simp_all
  show ?thesis
  proof (cases "\<exists>d \<in> set drgs. fst d \<le> ?va \<and> ?va < fst d + snd d")
    case True
    have "read_mem (snap env1 vss1 d M') ?va PAGE_SIZE = visit_content env1 (request_gpu vss1 (fst r) zero_uuid) x"
      if d: "d \<in> set drgs" "fst d \<le> ?va" "?va < fst d + snd d" for d M'
    proof -
      have f: "find_va_space vss1 (fst d) 0 = find_va_space vss1 (fst r) 0"
        using assms(5,6) d inr by (auto simp: same_space_def list_all_iff)
      have dq: "request_ok vss1 (fst d) (snd d) 0" "fst d + snd d < 2 ^ 64" using assms(3) d(1) by auto
      have "x \<in> set (request_visits False vss1 (fst d) (snd d))"
        by (rule request_visits_sub [OF assms(1) rq dq(1) f dq(2) assms(7) d(2,3)])
      moreover have "request_gpu vss1 (fst d) zero_uuid = request_gpu vss1 (fst r) zero_uuid" using f by (simp add: request_gpu_def)
      ultimately show ?thesis using snapshot_page [OF dq(1), of x env1 M'] assms(8) by (simp add: snap_def)
    qed
    from fold_snap_page [OF _ this al True] assms(3) show ?thesis by blast
  next
    case False
    then obtain y where y: "y \<in> set (request_visits False vss0 (fst r) (snd r))" "snd y = ?va" "visit_resident (request_gpu vss0 (fst r) zero_uuid) y"
        "visit_content env0 (request_gpu vss0 (fst r) zero_uuid) y = visit_content env1 (request_gpu vss1 (fst r) zero_uuid) x"
      using same by blast
    have "read_mem (fold (snap env1 vss1) drgs M') ?va PAGE_SIZE = read_mem M' ?va PAGE_SIZE" for M'
      using False assms(3) by (intro fold_snap_out [OF _ al]) blast
    moreover have "read_mem (snap env0 vss0 r' M') ?va PAGE_SIZE = visit_content env1 (request_gpu vss1 (fst r) zero_uuid) x"
      if "r' \<in> set rgs" "fst r' \<le> ?va" "?va < fst r' + snd r'" for r' M'
    proof -
      have "r' = r" by (rule ranges_disjoint_unique [OF assms(4) that(1) assms(6) that(2,3) inr])
      then show ?thesis using snapshot_page [OF _ y(1,3), of 0 env0 M'] assms(2,6) y(2,4) by (simp add: snap_def)
    qed
    then have "read_mem (fold (snap env0 vss0) rgs M) ?va PAGE_SIZE = visit_content env1 (request_gpu vss1 (fst r) zero_uuid) x"
      using assms(2,6) inr by (intro fold_snap_page [OF _ _ al]) blast+
    ultimately show ?thesis by simp
  qed
qed

text \<open>What did not change: pages outside the regions that are resident now have the contents they had.\<close>

definition clean_outside :: "uvm_env \<Rightarrow> va_space list \<Rightarrow> uvm_env \<Rightarrow> va_space list \<Rightarrow> (nat \<times> nat) list \<Rightarrow> nat \<times> nat \<Rightarrow> bool" where
  "clean_outside env0 vss0 env1 vss1 drgs r \<longleftrightarrow>
     (\<forall>x \<in> set (request_visits False vss1 (fst r) (snd r)).
        visit_resident (request_gpu vss1 (fst r) zero_uuid) x \<longrightarrow> list_all (\<lambda>d. \<not> (fst d \<le> snd x \<and> snd x < fst d + snd d)) drgs \<longrightarrow>
        (\<exists>y \<in> set (request_visits False vss0 (fst r) (snd r)). snd y = snd x \<and> visit_resident (request_gpu vss0 (fst r) zero_uuid) y \<and>
           visit_content env0 (request_gpu vss0 (fst r) zero_uuid) y = visit_content env1 (request_gpu vss1 (fst r) zero_uuid) x))"

lemma sample_clean: "clean_outside sample_env [sample_vs] sample_env [sample_vs] drgs r"
  by (auto simp: clean_outside_def)

text \<open>A buffer that holds the delta over the baseline has every page of its ranges as it was at the later moment.\<close>

lemma restored_page:
  assumes "vss_ok vss0" "vss_ok vss1" "\<forall>r \<in> set rgs. request_ok vss0 (fst r) (snd r) 0" "\<forall>d \<in> set drgs. request_ok vss1 (fst d) (snd d) 0 \<and> fst d + snd d < 2 ^ 64"
    and "ranges_disjoint rgs" "same_space vss1 drgs rgs"
    and "\<forall>r \<in> set rgs. clean_outside env0 vss0 env1 vss1 drgs r"
    and "r \<in> set rgs" "x \<in> set (request_visits False vss1 (fst r) (snd r))" "visit_resident (request_gpu vss1 (fst r) zero_uuid) x"
    and "\<forall>k < g_sz g. g_mem g k = fold (snap env1 vss1) drgs (fold (snap env0 vss0) rgs (\<lambda>_. 0)) (g_va g + k)"
    and "g_va g \<le> fst r" "fst r + snd r \<le> g_va g + g_sz g"
  shows "g_va g \<le> snd x \<and> snd x + PAGE_SIZE \<le> g_va g + g_sz g \<and>
    read_mem (g_mem g) (snd x - g_va g) PAGE_SIZE = visit_content env1 (request_gpu vss1 (fst r) zero_uuid) x"
proof -
  have r1: "request_ok vss1 (fst s) (snd s) 0" if "s \<in> set rgs" for s
    using assms(2,3) that by (auto simp: request_ok_def vss_ok_def)
  have inr: "fst r \<le> snd x" "snd x + PAGE_SIZE \<le> fst r + snd r" using request_visits_in [OF r1 [OF assms(8)] assms(9)] by simp_all
  have "read_mem (g_mem g) (snd x - g_va g) PAGE_SIZE = read_mem (fold (snap env1 vss1) drgs (fold (snap env0 vss0) rgs (\<lambda>_. 0))) (snd x) PAGE_SIZE"
    by (rule read_mem_cong) (use assms(11-13) inr in auto)
  also have "\<dots> = visit_content env1 (request_gpu vss1 (fst r) zero_uuid) x"
  proof (rule delta_over_baseline [OF assms(2) _ assms(4-6,8-10)])
    show "\<forall>r \<in> set rgs. request_ok vss0 (fst r) (snd r) 0 \<and> request_ok vss1 (fst r) (snd r) 0" using assms(3) r1 by blast
    show "\<exists>y \<in> set (request_visits False vss0 (fst r) (snd r)). snd y = snd x \<and> visit_resident (request_gpu vss0 (fst r) zero_uuid) y \<and>
         visit_content env0 (request_gpu vss0 (fst r) zero_uuid) y = visit_content env1 (request_gpu vss1 (fst r) zero_uuid) x"
      if "\<forall>d \<in> set drgs. \<not> (fst d \<le> snd x \<and> snd x < fst d + snd d)"
      using assms(7-10) that unfolding clean_outside_def list_all_iff by blast
  qed
  finally show ?thesis using assms(12,13) inr by auto
qed

section \<open>Captures that are snapshots\<close>

definition snap_cap :: "uvm_env \<Rightarrow> va_space list \<Rightarrow> nat \<times> nat \<Rightarrow> range_capture \<Rightarrow> bool" where
  "snap_cap env vss r c \<longleftrightarrow> cap_ok c \<and> apply_cap c = snap env vss r \<and> rc_base c = fst r \<and> cap_end c = fst r + snd r \<and>
     request_ok vss (fst r) (snd r) 0 \<and> fst r + snd r < 2 ^ 64"

lemma snap_caps:
  assumes "list_all2 (snap_cap env vss) rs cs"
  shows "\<forall>c \<in> set cs. cap_ok c" "fold apply_cap cs = fold (snap env vss) rs" "\<forall>r \<in> set rs. request_ok vss (fst r) (snd r) 0 \<and> fst r + snd r < 2 ^ 64"
  using assms
proof (induction rule: list_all2_induct)
  case (Cons r rs c cs)
  { case 1 then show ?case using Cons by (simp add: snap_cap_def) next case 2 then show ?case using Cons by (simp add: snap_cap_def)
    next case 3 then show ?case using Cons by (simp add: snap_cap_def) }
qed simp_all

lemma snap_cap_at:
  assumes "list_all2 (snap_cap env vss) rs cs"
  shows "r \<in> set rs \<Longrightarrow> \<exists>c \<in> set cs. snap_cap env vss r c" "c \<in> set cs \<Longrightarrow> \<exists>r \<in> set rs. snap_cap env vss r c"
  using assms by (metis in_set_conv_nth list_all2_conv_all_nth)+

lemma snap_caps_disjoint:
  assumes "list_all2 (snap_cap env vss) rs cs" "ranges_disjoint rs"
  shows "pairwise_indep caps_disjoint cs"
  unfolding pairwise_indep_def
proof (intro ballI)
  fix a b assume "a \<in> set cs" "b \<in> set cs"
  then obtain i j where ij: "i < length cs" "j < length cs" "a = cs ! i" "b = cs ! j" by (metis in_set_conv_nth)
  have at: "snap_cap env vss (rs ! k) (cs ! k)" if "k < length cs" for k using assms(1) that by (simp add: list_all2_conv_all_nth)
  have l: "length rs = length cs" using assms(1) by (rule list_all2_lengthD)
  show "a = b \<or> caps_disjoint a b"
  proof (cases "i = j")
    case False
    then show ?thesis
      using ranges_disjoint_nth [OF assms(2), of i j] at [OF ij(1)] at [OF ij(2)] ij l by (simp add: caps_disjoint_def snap_cap_def)
  qed (simp add: ij)
qed

lemma snap_caps_inside:
  assumes "list_all2 (snap_cap env0 vss0) rgs caps" "list_all2 (snap_cap env1 vss1) drgs dcaps"
    and "\<forall>d \<in> set drgs. \<exists>r \<in> set rgs. fst r \<le> fst d \<and> fst d + snd d \<le> fst r + snd r \<and> find_va_space vss1 (fst d) 0 = find_va_space vss1 (fst r) 0"
  shows "\<forall>d \<in> set dcaps. \<exists>c \<in> set caps. rc_base c \<le> rc_base d \<and> cap_end d \<le> cap_end c"
proof
  fix d assume "d \<in> set dcaps"
  then obtain s where s: "s \<in> set drgs" "snap_cap env1 vss1 s d" using snap_cap_at(2) [OF assms(2)] by blast
  then obtain r where r: "r \<in> set rgs" "fst r \<le> fst s" "fst s + snd s \<le> fst r + snd r" using assms(3) by blast
  then obtain c where "c \<in> set caps" "snap_cap env0 vss0 r c" using snap_cap_at(1) [OF assms(1)] by blast
  then show "\<exists>c \<in> set caps. rc_base c \<le> rc_base d \<and> cap_end d \<le> cap_end c" using s(2) r by (intro bexI [of _ c]) (auto simp: snap_cap_def)
qed

lemma snaps_restored:
  assumes "vss_ok vss0" "vss_ok vss1" "list_all2 (snap_cap env0 vss0) rgs caps" "list_all2 (snap_cap env1 vss1) drgs dcaps"
    and "ranges_disjoint rgs" "same_space vss1 drgs rgs"
    and "\<forall>r \<in> set rgs. clean_outside env0 vss0 env1 vss1 drgs r"
    and "r \<in> set rgs" "x \<in> set (request_visits False vss1 (fst r) (snd r))" "visit_resident (request_gpu vss1 (fst r) zero_uuid) x"
    and "groups_hold gs (fold apply_cap dcaps (fold apply_cap caps (\<lambda>_. 0)))"
    and "\<forall>c \<in> set caps. \<exists>x \<in> set (map shape gs). fst x \<le> rc_base c \<and> cap_end c \<le> fst x + snd x"
  shows "\<exists>g \<in> set gs. g_va g \<le> snd x \<and> snd x + PAGE_SIZE \<le> g_va g + g_sz g \<and>
    read_mem (g_mem g) (snd x - g_va g) PAGE_SIZE = visit_content env1 (request_gpu vss1 (fst r) zero_uuid) x"
proof -
  note c0 = snap_caps [OF assms(3)] and c1 = snap_caps [OF assms(4)]
  obtain c where "c \<in> set caps" "snap_cap env0 vss0 r c" using snap_cap_at(1) [OF assms(3,8)] by blast
  then obtain g where g: "g \<in> set gs" "g_va g \<le> fst r" "fst r + snd r \<le> g_va g + g_sz g"
    using assms(12) by (auto simp: shape_def snap_cap_def)
  then have hold: "\<forall>k < g_sz g. g_mem g k = fold (snap env1 vss1) drgs (fold (snap env0 vss0) rgs (\<lambda>_. 0)) (g_va g + k)"
    using assms(11) by (simp add: groups_hold_def c0(2) c1(2))
  have rq: "\<forall>r \<in> set rgs. request_ok vss0 (fst r) (snd r) 0" using c0(3) by blast
  from restored_page [OF assms(1,2) rq c1(3) assms(5-10) hold g(2,3)] g(1) show ?thesis by blast
qed

end
