(* ===== verification/Bench_Decompose.thy ===== *)
theory Bench_Decompose
  imports Read_Props
begin

text \<open>
  Ioctl 117 (BENCH_DECOMPOSE) of \<open>uvm_live_migration.c\<close>: a fork of the multi-threaded reads whose
  flags switch the stages of pass 2 on and off. \<open>SERIAL\<close> uses one DMA buffer and no overlap,
  \<open>DECRYPT\<close> decrypts on the CPU as 114 does, \<open>COPY_TO_SHARED\<close> copies to a DMA buffer and
  \<open>SKIP_COPY\<close> copies nothing. Passes 1 and the coalescing are those of the other reads.
  The times it measures are not modelled. Its parameters have no metadata buffer: of
  \<open>read_params\<close> the two metadata fields are not read here.
\<close>

unbundle bit_operations_syntax

section \<open>Flags\<close>

definition BENCH_SERIAL :: "32 word" where "BENCH_SERIAL = 0x1"
definition BENCH_DECRYPT :: "32 word" where "BENCH_DECRYPT = 0x2"
definition BENCH_COPY_TO_SHARED :: "32 word" where "BENCH_COPY_TO_SHARED = 0x4"
definition BENCH_SKIP_COPY :: "32 word" where "BENCH_SKIP_COPY = 0x8"

definition has_flag :: "32 word \<Rightarrow> 32 word \<Rightarrow> bool" where
  "has_flag fl f \<longleftrightarrow> fl AND f \<noteq> 0"

section \<open>One slot\<close>

text \<open>What is done with a buffer whose push has been waited for with success.\<close>

definition bench_process :: "uvm_env \<Rightarrow> 32 word \<Rightarrow> copy_cfg \<Rightarrow> nat \<Rightarrow> nv_status \<times> action list" where
  "bench_process env fl cfg j =
     (case ce_transfer env cfg j of
        (cipher, atag) \<Rightarrow>
          let meta = SetMeta j (transfer_meta env cfg j);
              (st, src) = (if has_flag fl BENCH_DECRYPT
                           then cpu_decrypt env (env_key_version env j) (log_gpu_encryption env j) cipher atag
                           else (NV_OK, cipher))
          in if st \<noteq> NV_OK then (st, [meta])
             else if has_flag fl BENCH_SKIP_COPY \<or> has_flag fl BENCH_COPY_TO_SHARED then (NV_OK, [meta])
             else case copy_out env cfg j src of (st', as) \<Rightarrow> (st', meta # as))"

text \<open>\<open>lm_bench_process_slot\<close> and the \<open>act[c] = 0\<close> its callers do after it, on success and on failure.\<close>

definition lm_bench_process_slot :: "uvm_env \<Rightarrow> (nat \<Rightarrow> nv_status \<times> action list) \<Rightarrow> nat \<Rightarrow> pp \<Rightarrow> nv_status \<times> pp" where
  "lm_bench_process_slot env prc c p =
     (case pp_act p c of
        None \<Rightarrow> (NV_OK, p)
      | Some j \<Rightarrow>
          let p1 = (pp_emit [Waited j] p)\<lparr>pp_act := (pp_act p)(c := None)\<rparr>
          in if env_push_wait env j \<noteq> NV_OK then (env_push_wait env j, p1)
             else case prc j of (st, as) \<Rightarrow> (st, pp_emit as p1))"

text \<open>In the loop the status of the slot is the worker's status.\<close>

definition bench_consume :: "uvm_env \<Rightarrow> (nat \<Rightarrow> nv_status \<times> action list) \<Rightarrow> nat \<Rightarrow> pp \<Rightarrow> pp" where
  "bench_consume env prc c p = (case lm_bench_process_slot env prc c p of (st, p') \<Rightarrow> p'\<lparr>pp_status := st\<rparr>)"

text \<open>In the drain every active slot is processed and the first error is kept.\<close>

definition bench_drain :: "uvm_env \<Rightarrow> (nat \<Rightarrow> nv_status \<times> action list) \<Rightarrow> nat \<Rightarrow> pp \<Rightarrow> pp" where
  "bench_drain env prc c p =
     (case lm_bench_process_slot env prc c p of
        (st, p') \<Rightarrow> if st \<noteq> NV_OK \<and> pp_status p = NV_OK then p'\<lparr>pp_status := st\<rparr> else p')"

section \<open>The worker\<close>

definition bench_iter :: "uvm_env \<Rightarrow> bool \<Rightarrow> (nat \<Rightarrow> nv_status \<times> action list) \<Rightarrow> nat \<Rightarrow> nat \<Rightarrow> pp \<Rightarrow> pp" where
  "bench_iter env serial prc start i p =
     (let c = (if serial then 0 else i mod 2);
          p1 = (if serial then p else bench_consume env prc c p)
      in if pp_status p1 \<noteq> NV_OK then p1
         else let p2 = pp_submit env c (start + i) p1
              in if pp_status p2 \<noteq> NV_OK then p2
                 else if serial then bench_consume env prc c p2 else p2)"

fun bench_loop :: "uvm_env \<Rightarrow> bool \<Rightarrow> (nat \<Rightarrow> nv_status \<times> action list) \<Rightarrow> nat \<Rightarrow> nat list \<Rightarrow> pp \<Rightarrow> pp" where
  "bench_loop env serial prc start [] p = p"
| "bench_loop env serial prc start (i # is) p =
     (let p' = bench_iter env serial prc start i p
      in if pp_status p' \<noteq> NV_OK then p' else bench_loop env serial prc start is p')"

definition bench_pipe :: "uvm_env \<Rightarrow> bool \<Rightarrow> (nat \<Rightarrow> nv_status \<times> action list) \<Rightarrow> nat \<Rightarrow> nat \<Rightarrow> pp" where
  "bench_pipe env serial prc start cnt =
     fold (bench_drain env prc) [0..<if serial then 1 else 2] (bench_loop env serial prc start [0..<cnt] pp_init)"

text \<open>The buffers of a worker: one per slot, and the sink of \<open>COPY_TO_SHARED\<close>.\<close>

definition bench_buffers :: "uvm_env \<Rightarrow> 32 word \<Rightarrow> nat \<Rightarrow> nv_status" where
  "bench_buffers env fl t =
     first_error (map (env_dma_alloc env t)
       ([0..<if has_flag fl BENCH_SERIAL then 1 else 2] @ (if has_flag fl BENCH_COPY_TO_SHARED then [2] else [])))"

definition lm_bench_worker_fn :: "uvm_env \<Rightarrow> 32 word \<Rightarrow> copy_cfg \<Rightarrow> nat \<Rightarrow> nat \<times> nat \<Rightarrow> worker_result" where
  "lm_bench_worker_fn env fl cfg t sl =
     (if has_flag fl BENCH_DECRYPT \<and> \<not> env_alloc env A_plain_buf UVM_CONF_COMPUTING_DMA_BUFFER_SIZE
      then failed_worker NV_ERR_NO_MEMORY
      else if bench_buffers env fl t \<noteq> NV_OK then failed_worker (bench_buffers env fl t)
      else let p = bench_pipe env (has_flag fl BENCH_SERIAL) (bench_process env fl cfg) (fst sl) (snd sl)
           in \<lparr>wr_status = pp_status p, wr_nt = pp_nt p, wr_acts = pp_acts p\<rparr>)"

definition bench_thread :: "uvm_env \<Rightarrow> 32 word \<Rightarrow> copy_cfg \<Rightarrow> nat \<Rightarrow> nat \<times> nat \<Rightarrow> worker_result" where
  "bench_thread env fl cfg t sl =
     (if env_kthread env t then lm_bench_worker_fn env fl cfg t sl else failed_worker NV_ERR_NO_MEMORY)"

text \<open>Status, \<open>num_transfers\<close> and \<open>threads_used\<close>, and the store.\<close>

definition lm_bench_run_workers ::
  "uvm_env \<Rightarrow> 32 word \<Rightarrow> copy_cfg \<Rightarrow> nat \<Rightarrow> store \<Rightarrow> nv_status \<times> (nat \<times> nat) \<times> store" where
  "lm_bench_run_workers env fl cfg req s =
     (let nr = length (cc_runs cfg); t = norm_threads req nr
      in if \<not> env_task_mm env then (NV_ERR_INVALID_OPERATION, (0, 0), s)
         else if \<not> env_alloc env A_workers t then (NV_ERR_NO_MEMORY, (0, 0), s)
         else let rs = map (\<lambda>(i, sl). bench_thread env fl cfg i sl) (enumerate 0 (split_work nr t))
              in (first_error (map wr_status rs), (sum_list (map wr_nt rs), t),
                  fold run_action (env_sched env (map wr_acts rs)) s))"

section \<open>The handler\<close>

definition bench_pass2 ::
  "uvm_env \<Rightarrow> 32 word \<Rightarrow> gpu_page list \<Rightarrow> read_params \<Rightarrow> store \<Rightarrow> nv_status \<times> (nat \<times> nat) \<times> store" where
  "bench_pass2 env fl pages pr s =
     (if pages = [] then (NV_OK, (0, 0), s)
      else case lm_mt_build_runs env pages UVM_CONF_COMPUTING_DMA_BUFFER_SIZE of
        Inl st \<Rightarrow> (st, (0, 0), s)
      | Inr runs \<Rightarrow>
          lm_bench_run_workers env fl
            \<lparr>cc_pages = pages, cc_runs = runs, cc_buf = rp_gpu_buf pr, cc_cipher = \<not> has_flag fl BENCH_DECRYPT\<rparr>
            (rp_num_threads pr) s)"

record bench_result = read_result +
  br_threads :: "nat option"

text \<open>
  Past the argument checks the two counters are assigned on every path, the byte counts and
  the page number on success only.
\<close>

definition bench_exit :: "read_result \<Rightarrow> (nat \<times> nat) option \<Rightarrow> bench_result" where
  "bench_exit r cs = read_result.extend (r\<lparr>rr_num_transfers := map_option fst cs\<rparr>) (bench_result.fields (map_option snd cs))"

definition uvm_api_live_migration_bench_decompose ::
  "uvm_env \<Rightarrow> 32 word \<Rightarrow> va_space list \<Rightarrow> read_params \<Rightarrow> mem \<Rightarrow> bench_result" where
  "uvm_api_live_migration_bench_decompose env fl vss pr m =
     (let p0 = p1_init (n_pages pr) (page_cap0 pr) m in
      if read_check env pr \<noteq> NV_OK then bench_exit (early_return (read_check env pr) m []) None
      else if \<not> env_cc env then bench_exit (early_return NV_ERR_NOT_SUPPORTED m []) None
      else if \<not> env_alloc env A_page_buf PAGE_SIZE \<or> \<not> env_alloc env A_resmap (n_pages pr) \<or>
              \<not> env_alloc env A_gpu_pages (page_cap0 pr)
           then bench_exit (early_return NV_ERR_NO_MEMORY m []) (Some (0, 0))
      else let r = lm_mt_pass1 env False vss (rp_base pr) (rp_length pr) (rp_cpu_buf pr) (rp_gpu_uuid pr) p0; s1 = pr_p1 r
           in if p1_status s1 \<noteq> NV_OK then bench_exit (early_return (p1_status s1) (p1_mem s1) (pr_locks r)) (Some (0, 0))
              else if pr_gpu r = None then bench_exit (early_return NV_ERR_INVALID_DEVICE (p1_mem s1) (pr_locks r)) (Some (0, 0))
              else if \<not> env_alloc env A_crypto_meta (p1_cap s1)
                   then bench_exit (early_return NV_ERR_NO_MEMORY (p1_mem s1) (pr_locks r)) (Some (0, 0))
              else case bench_pass2 env fl (p1_pages s1) pr \<lparr>st_mem = p1_mem s1, st_meta = (\<lambda>_. None)\<rparr> of
                (st, cs, s2) \<Rightarrow>
                  if st \<noteq> NV_OK then bench_exit (early_return st (st_mem s2) (pr_locks r)) (Some cs)
                  else case copy_resmap env pr (p1_resmap s1) (st_mem s2) of
                    (st', m') \<Rightarrow> if st' \<noteq> NV_OK then bench_exit (early_return st' m' (pr_locks r)) (Some cs)
                                else bench_exit (exit_ok pr s1 None m' (pr_locks r)) (Some cs))"

section \<open>Nothing is left in flight\<close>

lemma bench_process_data: "data_only (bench_process env fl cfg)"
  unfolding data_only_def bench_process_def copy_out_def by (auto simp: Let_def split: prod.splits if_splits)

lemma process_slot_cover:
  assumes "data_only prc" "slots_cover p" "c < 2"
  shows "slots_cover (snd (lm_bench_process_slot env prc c p))"
    and "pp_act (snd (lm_bench_process_slot env prc c p)) = (pp_act p)(c := None)"
    and "pp_status (snd (lm_bench_process_slot env prc c p)) = pp_status p"
proof -
  have d: "fold pend (snd (prc j)) S = S" for j S
    using assms(1) by (intro pend_data) (simp add: data_only_def)
  have c: "c = 0 \<or> c = 1" using assms(3) by auto
  show "slots_cover (snd (lm_bench_process_slot env prc c p))"
  proof (cases "pp_act p c")
    case (Some j)
    from Some assms(2) c d [of j] show ?thesis
      by (cases "prc j") (auto simp: lm_bench_process_slot_def slots_cover_def pp_emit_def pending_append Let_def)
  qed (use assms in \<open>simp add: lm_bench_process_slot_def\<close>)
  show "pp_act (snd (lm_bench_process_slot env prc c p)) = (pp_act p)(c := None)"
    and "pp_status (snd (lm_bench_process_slot env prc c p)) = pp_status p"
    by (auto simp: lm_bench_process_slot_def Let_def pp_emit_def fun_upd_idem split: option.splits prod.splits)
qed

lemma slots_cover_status [simp]: "slots_cover (p\<lparr>pp_status := st\<rparr>) = slots_cover p"
  by (simp add: slots_cover_def)

text \<open>Consuming and draining: both process the slot, and differ in the status they keep.\<close>

lemma bench_step_cover:
  assumes "data_only prc" "slots_cover p" "c < 2"
  shows "slots_cover (bench_consume env prc c p)" "pp_act (bench_consume env prc c p) = (pp_act p)(c := None)"
    and "slots_cover (bench_drain env prc c p)" "pp_act (bench_drain env prc c p) = (pp_act p)(c := None)"
  using process_slot_cover [OF assms, of env]
  by (auto simp: bench_consume_def bench_drain_def split: prod.splits)

text \<open>A serial worker never has slot 1 in use.\<close>

definition slots_used :: "bool \<Rightarrow> pp \<Rightarrow> bool" where
  "slots_used serial p \<longleftrightarrow> slots_cover p \<and> (serial \<longrightarrow> pp_act p 1 = None)"

lemma bench_iter_used:
  assumes "data_only prc" "slots_used serial p" "serial \<Longrightarrow> pp_act p 0 = None"
  shows "slots_used serial (bench_iter env serial prc start i p)"
    and "serial \<Longrightarrow> pp_status (bench_iter env serial prc start i p) = NV_OK \<Longrightarrow> pp_act (bench_iter env serial prc start i p) 0 = None"
proof -
  note st = bench_step_cover [OF assms(1), where env = env]
  have sub: "slots_cover q \<Longrightarrow> pp_act q c = None \<Longrightarrow> c < 2 \<Longrightarrow> slots_cover (pp_submit env c (start + i) q)" for q c
    by (rule pp_submit_cover)
  have act: "pp_act (pp_submit env 0 (start + i) q) 1 = pp_act q 1" for q
    by (simp add: pp_submit_def pp_emit_def)
  show "slots_used serial (bench_iter env serial prc start i p)"
  proof (cases serial)
    case True
    then have s: "slots_cover (pp_submit env 0 (start + i) p)" "pp_act (pp_submit env 0 (start + i) p) 1 = None"
      using assms(2,3) sub act by (simp_all add: slots_used_def)
    show ?thesis
      using True assms(2) s st(1,2) [OF s(1), of 0] by (simp add: slots_used_def bench_iter_def Let_def)
  next
    case False
    have c: "slots_cover (bench_consume env prc (i mod 2) p)" "pp_act (bench_consume env prc (i mod 2) p) (i mod 2) = None"
      using st(1,2) [of p "i mod 2"] assms(2) by (simp_all add: slots_used_def)
    show ?thesis
      using False c sub [OF c] by (simp add: slots_used_def bench_iter_def Let_def)
  qed
  show "pp_act (bench_iter env serial prc start i p) 0 = None"
    if "serial" "pp_status (bench_iter env serial prc start i p) = NV_OK"
  proof -
    have "slots_cover (pp_submit env 0 (start + i) p)" using that(1) assms(2,3) sub by (simp add: slots_used_def)
    from st(2) [OF this, of 0] that assms(3) show ?thesis
      by (auto simp: bench_iter_def Let_def split: if_splits)
  qed
qed

lemma bench_loop_used:
  "data_only prc \<Longrightarrow> slots_used serial p \<Longrightarrow> (serial \<Longrightarrow> pp_act p 0 = None) \<Longrightarrow>
   slots_used serial (bench_loop env serial prc start is p)"
proof (induction "is" arbitrary: p)
  case (Cons i "is")
  note u = bench_iter_used [OF Cons.prems, where env = env and start = start and i = i]
  show ?case
    using u(1) Cons.IH [OF Cons.prems(1) u(1)] u(2) by (cases serial) (auto simp: Let_def)
qed simp

lemma bench_pipe_nothing_pending:
  assumes "data_only prc"
  shows "pending (pp_acts (bench_pipe env serial prc start cnt)) = {}"
proof -
  let ?p = "bench_loop env serial prc start [0..<cnt] pp_init"
  have u: "slots_used serial ?p"
    by (rule bench_loop_used [OF assms]) (simp_all add: slots_used_def slots_cover_def pp_init_def pending_def)
  then have c: "slots_cover ?p" "serial \<Longrightarrow> pp_act ?p 1 = None" by (simp_all add: slots_used_def)
  note d0 = bench_step_cover(3,4) [OF assms c(1), of 0 env]
  note d1 = bench_step_cover(3,4) [OF assms d0(1), of 1 env]
  show ?thesis
    using c(2) d0 d1 by (cases serial) (auto simp: bench_pipe_def slots_cover_def upt_rec)
qed

section \<open>Success delivers every transfer\<close>

text \<open>Without \<open>SERIAL\<close> the fork is the shipped pipeline as long as nothing fails.\<close>

lemma bench_consume_pp:
  assumes "pp_status p = NV_OK"
  shows "pp_status (bench_consume env prc c p) = pp_status (pp_consume env prc c p)"
    and "pp_status (pp_consume env prc c p) = NV_OK \<Longrightarrow> bench_consume env prc c p = pp_consume env prc c p"
  using assms
  by (auto simp: bench_consume_def lm_bench_process_slot_def pp_consume_def pp_emit_def Let_def split: option.splits prod.splits)

lemma bench_iter_pp:
  assumes "pp_status p = NV_OK"
  shows "pp_status (bench_iter env False prc start i p) = pp_status (pp_iter env prc start i p)"
    and "pp_status (pp_iter env prc start i p) = NV_OK \<Longrightarrow> bench_iter env False prc start i p = pp_iter env prc start i p"
  using bench_consume_pp [OF assms, of env prc "i mod 2"]
  by (auto simp: bench_iter_def pp_iter_def Let_def split: if_splits)

lemma bench_loop_pp:
  assumes "pp_status p = NV_OK"
  shows "pp_status (bench_loop env False prc start is p) = pp_status (pp_loop env prc start is p)"
    and "pp_status (pp_loop env prc start is p) = NV_OK \<Longrightarrow> bench_loop env False prc start is p = pp_loop env prc start is p"
proof -
  have "pp_status (bench_loop env False prc start is p) = pp_status (pp_loop env prc start is p) \<and>
    (pp_status (pp_loop env prc start is p) = NV_OK \<longrightarrow> bench_loop env False prc start is p = pp_loop env prc start is p)"
    using assms
  proof (induction "is" arbitrary: p)
    case (Cons i "is")
    with bench_iter_pp [OF Cons.prems, of env prc start i] show ?case by (auto simp: Let_def)
  qed simp
  then show "pp_status (bench_loop env False prc start is p) = pp_status (pp_loop env prc start is p)"
    and "pp_status (pp_loop env prc start is p) = NV_OK \<Longrightarrow> bench_loop env False prc start is p = pp_loop env prc start is p"
    by simp_all
qed

lemma bench_drain_pp:
  "pp_status p = NV_OK \<Longrightarrow> bench_drain env prc c p = pp_drain env prc c p"
  "pp_status p \<noteq> NV_OK \<Longrightarrow> pp_status (bench_drain env prc c p) = pp_status p"
  by (auto simp: bench_drain_def lm_bench_process_slot_def pp_drain_def pp_emit_def Let_def split: option.splits prod.splits)

lemma bench_pipe_pp:
  shows "pp_status (bench_pipe env False prc start n) = pp_status (ping_pong env prc start n)"
    and "pp_status (ping_pong env prc start n) = NV_OK \<Longrightarrow> bench_pipe env False prc start n = ping_pong env prc start n"
proof -
  have i: "pp_status pp_init = NV_OK" by (simp add: pp_init_def)
  let ?b = "bench_loop env False prc start [0..<n] pp_init" and ?q = "pp_loop env prc start [0..<n] pp_init"
  note l = bench_loop_pp [OF i, of env prc start "[0..<n]"]
  have pipe: "bench_pipe env False prc start n = bench_drain env prc 1 (bench_drain env prc 0 ?b)"
    by (simp add: bench_pipe_def upt_rec)
  have "pp_status (bench_pipe env False prc start n) = pp_status (ping_pong env prc start n) \<and>
    (pp_status (ping_pong env prc start n) = NV_OK \<longrightarrow> bench_pipe env False prc start n = ping_pong env prc start n)"
  proof (cases "pp_status ?q = NV_OK")
    case True
    let ?r = "pp_drain env prc 0 ?q"
    have b: "bench_drain env prc 0 ?b = ?r" using l True bench_drain_pp(1) by simp
    show ?thesis
      using bench_drain_pp [of ?r env prc 1] pp_drain_bad [of ?r env prc 1]
      by (cases "pp_status ?r = NV_OK") (simp_all add: pipe ping_pong_def b)
  next
    case False
    then have s: "pp_status (bench_drain env prc 0 ?b) = pp_status ?q" "pp_status (pp_drain env prc 0 ?q) = pp_status ?q"
      using l bench_drain_pp(2) pp_drain_bad by simp_all
    then show ?thesis
      using False bench_drain_pp(2) [of "bench_drain env prc 0 ?b"] pp_drain_bad [of "pp_drain env prc 0 ?q"]
      by (simp add: pipe ping_pong_def)
  qed
  then show "pp_status (bench_pipe env False prc start n) = pp_status (ping_pong env prc start n)"
    and "pp_status (ping_pong env prc start n) = NV_OK \<Longrightarrow> bench_pipe env False prc start n = ping_pong env prc start n"
    by simp_all
qed

text \<open>With \<open>SERIAL\<close> each transfer is consumed before the next one is submitted.\<close>

definition serial_after :: "uvm_env \<Rightarrow> (nat \<Rightarrow> nv_status \<times> action list) \<Rightarrow> nat \<Rightarrow> nat \<Rightarrow> pp \<Rightarrow> bool" where
  "serial_after env prc start n p \<longleftrightarrow>
     pp_nt p = n \<and> pp_act p = (\<lambda>_. None) \<and> data_acts (pp_acts p) = concat (map (\<lambda>j. snd (prc (start + j))) [0..<n]) \<and>
     (\<forall>j < n. xfer_ok env prc (start + j))"

lemma bench_iter_serial:
  assumes "data_only prc" "serial_after env prc start n p" "pp_status p = NV_OK"
  shows "pp_status (bench_iter env True prc start n p) = NV_OK \<longleftrightarrow> xfer_ok env prc (start + n)"
    and "xfer_ok env prc (start + n) \<Longrightarrow> serial_after env prc start (Suc n) (bench_iter env True prc start n p)"
  using assms data_acts_prc [OF assms(1), of "start + n"]
  by (auto simp: bench_iter_def Let_def pp_submit_def bench_consume_def lm_bench_process_slot_def xfer_ok_def pp_emit_def
      serial_after_def less_Suc_eq split: prod.splits)

lemma bench_loop_snoc:
  "pp_status p = NV_OK \<Longrightarrow> bench_loop env sr prc start (is @ [i]) p =
     (let p' = bench_loop env sr prc start is p in if pp_status p' \<noteq> NV_OK then p' else bench_iter env sr prc start i p')"
proof (induction "is" arbitrary: p)
  case (Cons a "is")
  then show ?case by (cases "pp_status (bench_iter env sr prc start a p) = NV_OK") (auto simp: Let_def)
qed (simp add: Let_def)

lemma bench_loop_serial:
  fixes env :: uvm_env and start :: nat
  assumes "data_only prc"
  defines "p \<equiv> \<lambda>n. bench_loop env True prc start [0..<n] pp_init"
  shows "(pp_status (p n) = NV_OK \<longleftrightarrow> (\<forall>j < n. xfer_ok env prc (start + j))) \<and>
    (pp_status (p n) = NV_OK \<longrightarrow> serial_after env prc start n (p n))"
proof (induction n)
  case 0
  then show ?case by (simp add: p_def pp_init_def serial_after_def)
next
  case (Suc n)
  have i: "pp_status pp_init = NV_OK" by (simp add: pp_init_def)
  have e: "p (Suc n) = (if pp_status (p n) \<noteq> NV_OK then p n else bench_iter env True prc start n (p n))"
    using bench_loop_snoc [OF i, of env True prc start "[0..<n]" n] by (simp add: p_def Let_def)
  show ?case
    using Suc bench_iter_serial [OF assms(1), of env start n "p n"] unfolding e by (auto simp: less_Suc_eq)
qed

lemma bench_drain_idle: "pp_act p c = None \<Longrightarrow> bench_drain env prc c p = p"
  by (simp add: bench_drain_def lm_bench_process_slot_def)

lemma bench_drain_status: "pp_status p \<noteq> NV_OK \<Longrightarrow> pp_status (bench_drain env prc c p) \<noteq> NV_OK"
  using bench_drain_pp(2) [of p env prc c] by simp

text \<open>Both modes, together: success is success of every transfer, and then all of their effects are there.\<close>

lemma bench_pipe_success:
  assumes "data_only prc" "pp_status (bench_pipe env sr prc start n) = NV_OK"
  shows "mset (data_acts (pp_acts (bench_pipe env sr prc start n))) = mset (concat (map (\<lambda>j. snd (prc (start + j))) [0..<n])) \<and>
    pp_nt (bench_pipe env sr prc start n) = n \<and> (\<forall>j < n. xfer_ok env prc (start + j))"
proof (cases sr)
  case True
  let ?p = "bench_loop env True prc start [0..<n] pp_init"
  have pipe: "bench_pipe env True prc start n = bench_drain env prc 0 ?p" by (simp add: bench_pipe_def)
  have ok: "pp_status ?p = NV_OK"
    using assms(2) bench_drain_status [of ?p env prc 0] True by (auto simp: pipe)
  then have a: "serial_after env prc start n ?p" using bench_loop_serial [OF assms(1), of env start n] by simp
  then have "bench_pipe env True prc start n = ?p"
    unfolding pipe by (intro bench_drain_idle) (simp add: serial_after_def)
  with a True show ?thesis by (simp add: serial_after_def)
next
  case False
  then have ok: "pp_status (ping_pong env prc start n) = NV_OK" using assms(2) bench_pipe_pp(1) by simp
  show ?thesis
    using False ping_pong_success [OF assms(1) ok] bench_pipe_pp(2) [OF ok] by simp
qed

lemma bench_pipe_status_ok:
  assumes "data_only prc" "\<forall>j < n. xfer_ok env prc (start + j)"
  shows "pp_status (bench_pipe env sr prc start n) = NV_OK"
proof (cases sr)
  case True
  let ?p = "bench_loop env True prc start [0..<n] pp_init"
  have "pp_status ?p = NV_OK" "serial_after env prc start n ?p"
    using bench_loop_serial [OF assms(1), of env start n] assms(2) by auto
  then show ?thesis
    using True bench_drain_idle [of ?p 0 env prc] by (simp add: bench_pipe_def serial_after_def)
next
  case False
  then show ?thesis using bench_pipe_pp(1) ping_pong_status_ok [OF assms] by simp
qed

section \<open>What the workers leave in memory\<close>

definition copies :: "32 word \<Rightarrow> bool" where
  "copies fl \<longleftrightarrow> \<not> has_flag fl BENCH_SKIP_COPY \<and> \<not> has_flag fl BENCH_COPY_TO_SHARED"

lemma bench_process_effect:
  assumes "csl_ok env" "cc_buf cfg \<noteq> 0" "cc_cipher cfg = (\<not> has_flag fl BENCH_DECRYPT)" "fst (bench_process env fl cfg j) = NV_OK"
  shows "snd (bench_process env fl cfg j) = SetMeta j (transfer_meta env cfg j) #
    (if copies fl then [CopyOut (run_addr cfg j) (xfer_out env cfg j)] else [])"
proof (cases "ce_transfer env cfg j")
  case (Pair c t)
  then have "cpu_decrypt env (env_key_version env j) (log_gpu_encryption env j) c t = (NV_OK, run_plain env cfg j)"
    using csl_okD(2) [OF assms(1)] by (simp add: ce_transfer_def cpu_decrypt_def)
  with Pair assms(2-4) show ?thesis
    by (auto simp: bench_process_def copies_def copy_out_def xfer_out_def Let_def split: if_splits)
qed

text \<open>User memory depends on the copies alone.\<close>

fun is_copy :: "action \<Rightarrow> bool" where
  "is_copy (CopyOut a bs) = True"
| "is_copy _ = False"

lemma run_actions_copy: "st_mem (fold run_action as s) = st_mem (fold run_action (filter is_copy as) s)"
proof -
  have "st_mem s = st_mem s' \<Longrightarrow> st_mem (fold run_action as s) = st_mem (fold run_action (filter is_copy as) s')" for s'
  proof (induction as arbitrary: s s')
    case (Cons a as)
    show ?case
    proof (cases a)
      case (CopyOut x y)
      with Cons.prems Cons.IH [of "run_action a s" "run_action a s'"] show ?thesis by simp
    qed (use Cons in auto)
  qed simp
  then show ?thesis by simp
qed

lemma filter_copy_data: "filter is_copy (data_acts as) = filter is_copy as"
proof (induction as)
  case (Cons a as)
  then show ?case by (cases a) (simp_all add: data_acts_def)
qed (simp add: data_acts_def)

lemma filter_copy_seq:
  "filter is_copy (seq_effects env cfg n) = map (\<lambda>j. CopyOut (run_addr cfg j) (xfer_out env cfg j)) [0..<n]"
  by (induction n) (auto simp: seq_effects_def)

lemma schedule_copies:
  assumes "cfg_ok cfg" "csl_ok env" "mset (filter is_copy as) = mset (filter is_copy (seq_effects env cfg n))" "n \<le> length (cc_runs cfg)"
  shows "st_mem (fold run_action as s) = write_mem (st_mem s) (cc_buf cfg) (concat (map (xfer_out env cfg) [0..<n]))"
proof -
  have "pairwise_indep act_indep (filter is_copy (seq_effects env cfg n))"
    using seq_effects_indep [OF assms(1,2,4)] by (auto simp: pairwise_indep_def)
  from store_actions.schedule_perm [OF this assms(3) [symmetric], of s]
  have "st_mem (fold run_action as s) = st_mem (fold run_action (seq_effects env cfg n) s)"
    by (subst (1 2) run_actions_copy) simp
  then show ?thesis using fold_seq_effects [OF assms(1,2,4), of s] by simp
qed

lemma bench_thread_success:
  assumes "wr_status (bench_thread env fl cfg t sl) = NV_OK"
  shows "mset (data_acts (wr_acts (bench_thread env fl cfg t sl))) =
      mset (concat (map (\<lambda>j. snd (bench_process env fl cfg j)) (slice_idx sl))) \<and>
    wr_nt (bench_thread env fl cfg t sl) = snd sl \<and> (\<forall>j \<in> set (slice_idx sl). xfer_ok env (bench_process env fl cfg) j)"
proof -
  let ?p = "bench_pipe env (has_flag fl BENCH_SERIAL) (bench_process env fl cfg) (fst sl) (snd sl)"
  have r: "bench_thread env fl cfg t sl = \<lparr>wr_status = pp_status ?p, wr_nt = pp_nt ?p, wr_acts = pp_acts ?p\<rparr>"
    using assms by (auto simp: bench_thread_def lm_bench_worker_fn_def failed_worker_def Let_def split: if_splits)
  have ok: "pp_status ?p = NV_OK" using assms by (simp add: r)
  have idx: "slice_idx sl = map ((+) (fst sl)) [0..<snd sl]"
    by (rule nth_equalityI) (simp_all add: slice_idx_def)
  have x: "xfer_ok env (bench_process env fl cfg) j" if "j \<in> set (slice_idx sl)" for j
    using bench_pipe_success [OF bench_process_data ok, THEN conjunct2, THEN conjunct2, rule_format, of "j - fst sl"] that
    by (auto simp: slice_idx_def)
  show ?thesis
    using bench_pipe_success [OF bench_process_data ok] x by (auto simp: r idx o_def)
qed

lemma bench_workers_effects:
  assumes "\<forall>r \<in> set (map (\<lambda>(i, sl). bench_thread env fl cfg i sl) (enumerate k sls)). wr_status r = NV_OK"
  shows "mset (data_acts (concat (map wr_acts (map (\<lambda>(i, sl). bench_thread env fl cfg i sl) (enumerate k sls))))) =
      mset (concat (map (\<lambda>j. snd (bench_process env fl cfg j)) (concat (map slice_idx sls)))) \<and>
    sum_list (map wr_nt (map (\<lambda>(i, sl). bench_thread env fl cfg i sl) (enumerate k sls))) = length (concat (map slice_idx sls)) \<and>
    (\<forall>j \<in> set (concat (map slice_idx sls)). xfer_ok env (bench_process env fl cfg) j)"
  using assms
proof (induction sls arbitrary: k)
  case (Cons sl sls)
  have ok: "wr_status (bench_thread env fl cfg k sl) = NV_OK" using Cons.prems by simp
  have rest: "\<forall>r \<in> set (map (\<lambda>(i, sl). bench_thread env fl cfg i sl) (enumerate (Suc k) sls)). wr_status r = NV_OK"
    using Cons.prems by simp
  have "length (slice_idx sl) = snd sl" by (simp add: slice_idx_def)
  with bench_thread_success [OF ok] Cons.IH [OF rest] show ?case by auto
qed simp

lemma filter_copy_concat:
  assumes "\<And>j. j \<in> set js \<Longrightarrow> f j = SetMeta j (g j) # (if b then [CopyOut (a j) (x j)] else [])"
  shows "filter is_copy (concat (map f js)) = (if b then map (\<lambda>j. CopyOut (a j) (x j)) js else [])"
  using assms by (induction js) auto

lemma bench_run_workers_success:
  assumes "lm_bench_run_workers env fl cfg req s = (NV_OK, cs, s')" "cfg_ok cfg" "csl_ok env" "sched_ok env"
    and "cc_cipher cfg = (\<not> has_flag fl BENCH_DECRYPT)"
  shows "cs = (length (cc_runs cfg), norm_threads req (length (cc_runs cfg)))"
    and "st_mem s' = (if copies fl
      then write_mem (st_mem s) (cc_buf cfg) (concat (map (xfer_out env cfg) [0..<length (cc_runs cfg)])) else st_mem s)"
proof -
  define nr where "nr = length (cc_runs cfg)"
  define t where "t = norm_threads req nr"
  define rs where "rs = map (\<lambda>(i, sl). bench_thread env fl cfg i sl) (enumerate 0 (split_work nr t))"
  have w: "first_error (map wr_status rs) = NV_OK" "cs = (sum_list (map wr_nt rs), t)"
    "s' = fold run_action (env_sched env (map wr_acts rs)) s"
    using assms(1) by (auto simp: lm_bench_run_workers_def Let_def nr_def [symmetric] t_def [symmetric] rs_def [symmetric]
        split: if_splits)
  have cover: "concat (map slice_idx (split_work nr t)) = [0..<nr]"
    using even_split.slices_cover norm_threads_pos by (simp add: t_def)
  have allok: "\<forall>r \<in> set rs. wr_status r = NV_OK" using w(1) by (simp add: first_error_OK)
  note eff = bench_workers_effects [OF allok [unfolded rs_def], folded rs_def, unfolded cover]
  then show "cs = (length (cc_runs cfg), norm_threads req (length (cc_runs cfg)))"
    using w(2) by (simp add: nr_def t_def)
  have "snd (bench_process env fl cfg j) = SetMeta j (transfer_meta env cfg j) #
      (if copies fl then [CopyOut (run_addr cfg j) (xfer_out env cfg j)] else [])" if "j \<in> set [0..<nr]" for j
    by (rule bench_process_effect [OF assms(3) _ assms(5)]) (use assms(2) eff that in \<open>auto simp: cfg_ok_def xfer_ok_def\<close>)
  then have fc: "filter is_copy (concat (map (\<lambda>j. snd (bench_process env fl cfg j)) [0..<nr])) =
      (if copies fl then map (\<lambda>j. CopyOut (run_addr cfg j) (xfer_out env cfg j)) [0..<nr] else [])"
    by (rule filter_copy_concat)
  have "mset (data_acts (env_sched env (map wr_acts rs))) = mset (concat (map (\<lambda>j. snd (bench_process env fl cfg j)) [0..<nr]))"
    using mset_data_acts [OF sched_ok_mset [OF assms(4), of "map wr_acts rs"]] eff by simp
  then have "mset (filter is_copy (env_sched env (map wr_acts rs))) =
      mset (filter is_copy (concat (map (\<lambda>j. snd (bench_process env fl cfg j)) [0..<nr])))"
    by (metis filter_copy_data mset_filter)
  then have m: "mset (filter is_copy (env_sched env (map wr_acts rs))) =
      mset (if copies fl then filter is_copy (seq_effects env cfg nr) else [])"
    by (simp only: fc filter_copy_seq)
  show "st_mem s' = (if copies fl
      then write_mem (st_mem s) (cc_buf cfg) (concat (map (xfer_out env cfg) [0..<length (cc_runs cfg)])) else st_mem s)"
  proof (cases "copies fl")
    case True
    with schedule_copies [OF assms(2,3), of _ nr s] m w(3) show ?thesis by (simp add: nr_def)
  next
    case False
    with m have "filter is_copy (env_sched env (map wr_acts rs)) = []" by simp
    then show ?thesis using False run_actions_copy [of "env_sched env (map wr_acts rs)" s] w(3) by simp
  qed
qed

text \<open>The GPU section ioctl 117 delivers for given flags.\<close>

definition bench_section :: "uvm_env \<Rightarrow> 32 word \<Rightarrow> va_space list \<Rightarrow> read_params \<Rightarrow> byte list" where
  "bench_section env fl vss pr =
     (if \<not> copies fl then []
      else if has_flag fl BENCH_DECRYPT
        then gpu_section env (request_gpu vss (rp_base pr) (rp_gpu_uuid pr)) (request_visits False vss (rp_base pr) (rp_length pr))
      else let cfg = request_cfg True False vss pr
           in concat (map (\<lambda>j. fst (ce_transfer env cfg j)) [0..<length (cc_runs cfg)]))"

lemma bench_pass2_success:
  assumes "bench_pass2 env fl pages pr s = (NV_OK, cs, s')" "pages_ok pages (rp_gpu_buf pr)" "csl_ok env" "sched_ok env"
  defines "cfg \<equiv> read_cfg (\<not> has_flag fl BENCH_DECRYPT) pages (rp_gpu_buf pr)"
  shows "fst cs = length (cc_runs cfg)"
    and "st_mem s' = (if copies fl
      then write_mem (st_mem s) (rp_gpu_buf pr) (concat (map (xfer_out env cfg) [0..<length (cc_runs cfg)])) else st_mem s)"
proof -
  have "fst cs = length (cc_runs cfg) \<and> st_mem s' = (if copies fl
      then write_mem (st_mem s) (rp_gpu_buf pr) (concat (map (xfer_out env cfg) [0..<length (cc_runs cfg)])) else st_mem s)"
  proof (cases "pages = []")
    case True
    then show ?thesis using assms(1) by (auto simp: bench_pass2_def cfg_def read_cfg_def)
  next
    case False
    then obtain runs where b: "lm_mt_build_runs env pages UVM_CONF_COMPUTING_DMA_BUFFER_SIZE = Inr runs"
      using assms(1) by (auto simp: bench_pass2_def split: if_splits sum.splits)
    with False build_runs_coalesce [OF b] assms(1)
    have run: "lm_bench_run_workers env fl cfg (rp_num_threads pr) s = (NV_OK, cs, s')"
      by (simp add: bench_pass2_def cfg_def read_cfg_def)
    have ok: "cfg_ok cfg" unfolding cfg_def by (rule pages_ok_read_cfg [OF assms(2)])
    have ci: "cc_cipher cfg = (\<not> has_flag fl BENCH_DECRYPT)" "cc_buf cfg = rp_gpu_buf pr" by (simp_all add: cfg_def read_cfg_def)
    show ?thesis using bench_run_workers_success [OF run ok assms(3,4) ci(1)] ci(2) by simp
  qed
  then show "fst cs = length (cc_runs cfg)"
    and "st_mem s' = (if copies fl
      then write_mem (st_mem s) (rp_gpu_buf pr) (concat (map (xfer_out env cfg) [0..<length (cc_runs cfg)])) else st_mem s)"
    by simp_all
qed

lemma bench_section_xfer:
  assumes "pages = gpu_list 0 (gpu_phys_list G V)" "pages_ok pages (rp_gpu_buf pr)"
    and "V = request_visits False vss (rp_base pr) (rp_length pr)" "G = request_gpu vss (rp_base pr) (rp_gpu_uuid pr)"
    and "cfg = read_cfg (\<not> has_flag fl BENCH_DECRYPT) pages (rp_gpu_buf pr)" "copies fl"
  shows "concat (map (xfer_out env cfg) [0..<length (cc_runs cfg)]) = bench_section env fl vss pr"
proof (cases "has_flag fl BENCH_DECRYPT")
  case True
  then have x: "xfer_out env cfg = run_plain env cfg" by (simp add: assms(5) xfer_out_def read_cfg_def fun_eq_iff)
  have "cfg_ok cfg" unfolding assms(5) by (rule pages_ok_read_cfg [OF assms(2)])
  from plain_concat [OF this, of env] True assms(6) show ?thesis
    by (simp add: x bench_section_def gpu_section_def assms(3,4) [symmetric])
       (simp add: assms(1,5) read_cfg_def gpu_list_bytes)
next
  case False
  then have c: "cfg = request_cfg True False vss pr" by (simp add: assms(1,3-5) request_cfg_def)
  then have "xfer_out env cfg = (\<lambda>j. fst (ce_transfer env cfg j))"
    by (simp add: xfer_out_def request_cfg_def read_cfg_def fun_eq_iff)
  with False assms(6) c show ?thesis by (simp add: bench_section_def Let_def)
qed

lemma bench_decompose_success:
  assumes "params_ok vss pr" "csl_ok env" "sched_ok env"
    and "rr_status (uvm_api_live_migration_bench_decompose env fl vss pr m) = NV_OK"
  shows "rr_mem (uvm_api_live_migration_bench_decompose env fl vss pr m) = read_image False vss pr (bench_section env fl vss pr) m"
    and "rr_num_transfers (uvm_api_live_migration_bench_decompose env fl vss pr m) =
      Some (length (cc_runs (request_cfg True False vss pr)))"
proof -
  define r where "r = pass1 env False False vss (rp_base pr) (rp_length pr) (rp_cpu_buf pr) (rp_gpu_uuid pr) (p1_init (n_pages pr) (page_cap0 pr) m)"
  obtain cs s2 m' where ok: "p1_status (pr_p1 r) = NV_OK"
    "bench_pass2 env fl (p1_pages (pr_p1 r)) pr \<lparr>st_mem = p1_mem (pr_p1 r), st_meta = (\<lambda>_. None)\<rparr> = (NV_OK, cs, s2)"
    "copy_resmap env pr (p1_resmap (pr_p1 r)) (st_mem s2) = (NV_OK, m')"
    and res: "uvm_api_live_migration_bench_decompose env fl vss pr m = bench_exit (exit_ok pr (pr_p1 r) None m' (pr_locks r)) (Some cs)"
    using assms(4)
    by (auto simp: uvm_api_live_migration_bench_decompose_def lm_mt_pass1_def r_def [symmetric] early_return_def exit_ok_def bench_exit_def
        read_result.defs bench_result.defs Let_def split: if_splits prod.splits)
  note f = handler_pass1 [OF ok(1) [unfolded r_def] assms(1), folded r_def]
  note p2 = bench_pass2_success [OF ok(2) f(7) assms(2,3)]
  have m': "m' = write_mem (st_mem s2) (rp_residency_map pr) (p1_resmap (pr_p1 r))"
    using ok(3) by (auto simp: copy_resmap_def split: if_splits)
  have "st_mem s2 = write_mem (p1_mem (pr_p1 r)) (rp_gpu_buf pr) (bench_section env fl vss pr)"
    using p2(2) bench_section_xfer [OF f(1,7) refl refl refl, of fl env]
    by (auto simp: bench_section_def)
  then show "rr_mem (uvm_api_live_migration_bench_decompose env fl vss pr m) = read_image False vss pr (bench_section env fl vss pr) m"
    by (simp add: res bench_exit_def read_result.defs bench_result.defs exit_ok_def exit109_def m' f(2,3) read_image_alt)
  have "cc_runs (read_cfg (\<not> has_flag fl BENCH_DECRYPT) (p1_pages (pr_p1 r)) (rp_gpu_buf pr)) = cc_runs (request_cfg True False vss pr)"
    using f(1) by (simp add: request_cfg_def read_cfg_def)
  with p2(1) show "rr_num_transfers (uvm_api_live_migration_bench_decompose env fl vss pr m) =
      Some (length (cc_runs (request_cfg True False vss pr)))"
    by (simp add: res bench_exit_def read_result.defs bench_result.defs exit_ok_def exit109_def)
qed

section \<open>Liveness\<close>

lemma bench_process_ok: "env_mem_ok env \<Longrightarrow> csl_ok env \<Longrightarrow> fst (bench_process env fl cfg j) = NV_OK"
proof (cases "ce_transfer env cfg j")
  case (Pair c t)
  assume *: "env_mem_ok env" "csl_ok env"
  have "cpu_decrypt env (env_key_version env j) (log_gpu_encryption env j) c t = (NV_OK, run_plain env cfg j)"
    using csl_okD(2) [OF *(2)] Pair by (simp add: ce_transfer_def cpu_decrypt_def)
  with * Pair show ?thesis
    by (auto simp: bench_process_def copy_out_def env_mem_ok_def Let_def split: prod.splits)
qed

text \<open>As for the other reads, and the sink buffer can be allocated too.\<close>

definition bench_env_ok :: "uvm_env \<Rightarrow> bool" where
  "bench_env_ok env \<longleftrightarrow> env_copy_ok env \<and> (\<forall>t. env_dma_alloc env t 2 = NV_OK)"

lemma bench_buffers_ok: "bench_env_ok env \<Longrightarrow> bench_buffers env fl t = NV_OK"
  by (auto simp: bench_buffers_def first_error_OK bench_env_ok_def env_copy_ok_def less_2_cases_iff split: if_splits)

lemma bench_workers_status_ok:
  assumes "bench_env_ok env"
  shows "fst (lm_bench_run_workers env fl cfg req s) = NV_OK"
proof -
  have e: "env_copy_ok env" using assms by (simp add: bench_env_ok_def)
  have "wr_status (bench_thread env fl cfg t sl) = NV_OK" for t sl
  proof -
    have "\<forall>j < snd sl. xfer_ok env (bench_process env fl cfg) (fst sl + j)"
      using e bench_process_ok by (auto simp: env_copy_ok_def xfer_ok_def)
    from bench_pipe_status_ok [OF bench_process_data this] e bench_buffers_ok [OF assms] show ?thesis
      by (auto simp: bench_thread_def lm_bench_worker_fn_def Let_def env_copy_ok_def env_mem_ok_def)
  qed
  then show ?thesis
    using e by (auto simp: lm_bench_run_workers_def Let_def first_error_OK env_copy_ok_def env_mem_ok_def)
qed

lemma bench_pass2_live: "bench_env_ok env \<Longrightarrow> fst (bench_pass2 env fl pages pr s) = NV_OK"
  using build_runs_loop_total [of env pages UVM_CONF_COMPUTING_DMA_BUFFER_SIZE 0 0 "[]"] bench_workers_status_ok
  by (auto simp: bench_pass2_def lm_mt_build_runs_def bench_env_ok_def env_copy_ok_def split: sum.splits)

lemma bench_decompose_live:
  assumes "request_live env vss pr" "bench_env_ok env"
  shows "rr_status (uvm_api_live_migration_bench_decompose env fl vss pr m) = NV_OK"
proof -
  let ?r = "pass1 env False False vss (rp_base pr) (rp_length pr) (rp_cpu_buf pr) (rp_gpu_uuid pr) (p1_init (n_pages pr) (page_cap0 pr) m)"
  note f = request_live_pass1 [OF assms(1), of False False m]
  obtain cs s2 where p2: "bench_pass2 env fl (p1_pages (pr_p1 ?r)) pr \<lparr>st_mem = p1_mem (pr_p1 ?r), st_meta = (\<lambda>_. None)\<rparr> = (NV_OK, cs, s2)"
    using bench_pass2_live [OF assms(2), of fl "p1_pages (pr_p1 ?r)" pr] by (metis prod.collapse)
  have "fst (copy_resmap env pr (p1_resmap (pr_p1 ?r)) (st_mem s2)) = NV_OK"
    using request_live_mem [OF assms(1)] by (simp add: copy_resmap_def env_mem_ok_def)
  then show ?thesis
    using f p2 request_live_check [OF assms(1)] request_live_mem [OF assms(1)]
    by (auto simp: uvm_api_live_migration_bench_decompose_def lm_mt_pass1_def Let_def exit_ok_def exit109_def bench_exit_def
        read_result.defs bench_result.defs split: prod.splits)
qed

lemma params_ok_meta [simp]: "params_ok vss (pr\<lparr>rp_crypto_meta := a\<rparr>) = params_ok vss pr"
  by (cases pr) (simp add: params_ok_def)

lemma sample_bench_env: "bench_env_ok sample_env"
  using sample_env_copy by (simp add: bench_env_ok_def) (simp add: sample_env_def)

section \<open>Properties\<close>

text \<open>
  C17: ioctl 117 moves the data of the ioctl it is a breakdown of. With \<open>DECRYPT\<close> and no other
  stage removed it leaves user memory as 114 does; without it, as 115 does when 115 is asked
  for no metadata, and reports as many transfers; both for every setting of \<open>SERIAL\<close>, every
  number of threads and every schedule of them. With \<open>COPY_TO_SHARED\<close> or \<open>SKIP_COPY\<close> it writes
  the CPU pages and the residency map only.
\<close>

theorem bench_matches_production:
  assumes "params_ok vss pr" "csl_ok env" "sched_ok env" "rp_crypto_meta pr = 0"
    and "r = uvm_api_live_migration_bench_decompose env fl vss pr m" "rr_status r = NV_OK"
    and "r114 = uvm_api_live_migration_read_pages_resident_mt env vss pr m" "rr_status r114 = NV_OK"
    and "r115 = uvm_api_live_migration_read_pages_resident_encrypted_mt env vss pr m" "rr_status r115 = NV_OK"
  shows "rr_mem r = (if has_flag fl BENCH_SKIP_COPY \<or> has_flag fl BENCH_COPY_TO_SHARED then read_image False vss pr [] m
      else if has_flag fl BENCH_DECRYPT then rr_mem r114 else rr_mem r115) \<and>
    rr_num_transfers r = rr_num_transfers r115"
proof -
  have e: "r115 = encrypted_mt_body False env vss pr m"
    by (simp add: assms(9) uvm_api_live_migration_read_pages_resident_encrypted_mt_def)
  note b = bench_decompose_success [OF assms(1-3) assms(6) [unfolded assms(5)]]
  note c = mt_114_success [OF assms(1-3) assms(8) [unfolded assms(7)]] encrypted_mt_success [OF assms(1-3) assms(10) [unfolded e]]
  show ?thesis
    using b c assms(4) by (auto simp: assms(5,7) e bench_section_def copies_def plain_image_def cipher_image_def Let_def)
qed

theorem bench_matches_production_witness:
  "rr_mem (uvm_api_live_migration_bench_decompose sample_env 3 [sample_vs] (sample_pr\<lparr>rp_crypto_meta := 0\<rparr>) (\<lambda>_. 0)) =
   rr_mem (uvm_api_live_migration_read_pages_resident_mt sample_env [sample_vs] (sample_pr\<lparr>rp_crypto_meta := 0\<rparr>) (\<lambda>_. 0))"
proof -
  let ?pr = "sample_pr\<lparr>rp_crypto_meta := 0\<rparr>"
  have pr: "params_ok [sample_vs] ?pr" using sample_params by simp
  then have live: "request_live sample_env [sample_vs] ?pr"
    using sample_live by (simp add: request_live_def n_pages_def)
  have l115: "rr_status (uvm_api_live_migration_read_pages_resident_encrypted_mt sample_env [sample_vs] ?pr (\<lambda>_. 0)) = NV_OK"
    using encrypted_mt_live [OF live sample_env_csl sample_env_sched]
    by (simp add: uvm_api_live_migration_read_pages_resident_encrypted_mt_def)
  have fl: "\<not> has_flag 3 BENCH_SKIP_COPY" "\<not> has_flag 3 BENCH_COPY_TO_SHARED" "has_flag 3 BENCH_DECRYPT"
    by (simp_all add: has_flag_def BENCH_SKIP_COPY_def BENCH_COPY_TO_SHARED_def BENCH_DECRYPT_def)
  from bench_matches_production [OF pr sample_env_csl sample_env_sched _ refl
      bench_decompose_live [OF live sample_bench_env, of 3 "\<lambda>_. 0"] refl resident_mt_live [OF live] refl l115] fl
  show ?thesis by simp
qed

text \<open>
  whatever fails and whatever the flags, a worker of ioctl 117 has waited for every push it
  submitted before it frees its DMA buffers, and when nothing the driver calls fails the
  ioctl returns \<open>NV_OK\<close>.
\<close>

theorem bench_safe_and_live:
  "pending (wr_acts (lm_bench_worker_fn env fl cfg t sl)) = {} \<and>
   (request_live env vss pr \<and> bench_env_ok env \<longrightarrow>
      rr_status (uvm_api_live_migration_bench_decompose env fl vss pr m) = NV_OK)"
proof (intro conjI impI)
  show "pending (wr_acts (lm_bench_worker_fn env fl cfg t sl)) = {}"
    using bench_pipe_nothing_pending [OF bench_process_data, of env "has_flag fl BENCH_SERIAL" env fl cfg "fst sl" "snd sl"]
    by (simp add: lm_bench_worker_fn_def failed_worker_def Let_def) (simp add: pending_def)
qed (use bench_decompose_live in blast)

theorem bench_safe_and_live_witness:
  "rr_status (uvm_api_live_migration_bench_decompose sample_env 9 [sample_vs] sample_pr (\<lambda>_. 0)) = NV_OK"
  using bench_safe_and_live [where env = sample_env and fl = 9 and vss = "[sample_vs]" and pr = sample_pr and m = "\<lambda>_. 0"]
    sample_live sample_bench_env by blast

end
