(* ===== verification/Stream_Queue.thy ===== *)
theory Stream_Queue
  imports Image_Format
begin

text \<open>
  The two shared structures of the streaming writer of \<open>ckpt_core.c\<close>: the bounded work queue
  (\<open>baseline_wq_t\<close>, a ring buffer) and the pool of capture buffers (\<open>capture_pool_t\<close>, a stack of free
  slot numbers). An operation that would block returns \<open>None\<close>; the mutex makes each operation one step.
  The ring buffer implements a bounded FIFO queue and the pool a stack: these two contracts are locales,
  and the writer's proofs use the structures through them only.
\<close>

section \<open>The work queue\<close>

record 'a baseline_wq =
  wq_slots :: "'a list"
  wq_capacity :: nat
  wq_head :: nat
  wq_tail :: nat
  wq_count :: nat
  wq_closed :: bool

text \<open>\<open>z\<close> is the all-zero item \<open>calloc\<close> leaves.\<close>

definition baseline_wq_init :: "'a \<Rightarrow> nat \<Rightarrow> 'a baseline_wq" where
  "baseline_wq_init z capacity =
     \<lparr>wq_slots = replicate capacity z, wq_capacity = capacity, wq_head = 0, wq_tail = 0, wq_count = 0, wq_closed = False\<rparr>"

definition baseline_wq_push :: "'a \<Rightarrow> 'a baseline_wq \<Rightarrow> 'a baseline_wq option" where
  "baseline_wq_push item q =
     (if wq_count q = wq_capacity q then None
      else Some (q\<lparr>wq_slots := (wq_slots q)[wq_tail q := item], wq_tail := (wq_tail q + 1) mod wq_capacity q,
                   wq_count := wq_count q + 1\<rparr>))"

text \<open>\<open>None\<close> blocks; \<open>Some (None, q)\<close> is the return value 0, closed and empty.\<close>

definition baseline_wq_pop :: "'a baseline_wq \<Rightarrow> ('a option \<times> 'a baseline_wq) option" where
  "baseline_wq_pop q =
     (if wq_count q = 0 \<and> \<not> wq_closed q then None
      else if wq_count q = 0 \<and> wq_closed q then Some (None, q)
      else Some (Some (wq_slots q ! wq_head q),
                 q\<lparr>wq_head := (wq_head q + 1) mod wq_capacity q, wq_count := wq_count q - 1\<rparr>))"

definition baseline_wq_close :: "'a baseline_wq \<Rightarrow> 'a baseline_wq" where
  "baseline_wq_close q = q\<lparr>wq_closed := True\<rparr>"

section \<open>The buffer pool\<close>

record capture_pool =
  cp_n_slots :: nat
  cp_free_stack :: "nat list"
  cp_n_free :: nat

definition pool_full :: "nat \<Rightarrow> capture_pool" where
  "pool_full n = \<lparr>cp_n_slots = n, cp_free_stack = [0..<n], cp_n_free = n\<rparr>"

abbreviation POOL_SHM_STRIDE_MIN :: nat where "POOL_SHM_STRIDE_MIN \<equiv> 4294967296"

definition pool_stride :: "nat \<Rightarrow> nat" where
  "pool_stride max_length = max max_length POOL_SHM_STRIDE_MIN"

text \<open>Where slot \<open>i\<close> has its two large buffers in the shared memory object.\<close>

definition slot_gpu_buf :: "nat \<Rightarrow> nat \<Rightarrow> nat \<Rightarrow> nat" where
  "slot_gpu_buf base stride i = base + i * stride"

definition slot_cpu_buf :: "nat \<Rightarrow> nat \<Rightarrow> nat \<Rightarrow> nat \<Rightarrow> nat" where
  "slot_cpu_buf base stride n i = base + (n + i) * stride"

text \<open>
  \<open>shm\<close> is the size of the preallocated shared memory object, \<open>None\<close> when it cannot be opened; the pool
  is refused when it is too small.
\<close>

definition capture_pool_init :: "io_env \<Rightarrow> nat option \<Rightarrow> nat \<Rightarrow> nat \<Rightarrow> capture_pool option" where
  "capture_pool_init io shm n_slots max_length =
     (let need_shm = 2 * n_slots * pool_stride max_length
      in if \<not> io_malloc io n_slots then None
         else case shm of
           None \<Rightarrow> None
         | Some sz \<Rightarrow> if \<not> io_fstat io \<or> sz < need_shm \<or> \<not> io_mmap io need_shm then None
                     else Some (pool_full n_slots))"

definition capture_pool_acquire :: "capture_pool \<Rightarrow> (nat \<times> capture_pool) option" where
  "capture_pool_acquire p =
     (if cp_n_free p = 0 then None
      else Some (cp_free_stack p ! (cp_n_free p - 1), p\<lparr>cp_n_free := cp_n_free p - 1\<rparr>))"

definition capture_pool_release :: "nat \<Rightarrow> capture_pool \<Rightarrow> capture_pool" where
  "capture_pool_release idx p = p\<lparr>cp_free_stack := (cp_free_stack p)[cp_n_free p := idx], cp_n_free := cp_n_free p + 1\<rparr>"

section \<open>Contracts\<close>

text \<open>A bounded FIFO queue that can be closed.\<close>

locale bounded_fifo =
  fixes ok :: "'q \<Rightarrow> bool" and items :: "'q \<Rightarrow> 'a list" and room :: "'q \<Rightarrow> nat" and closed :: "'q \<Rightarrow> bool"
    and push :: "'a \<Rightarrow> 'q \<Rightarrow> 'q option" and pop :: "'q \<Rightarrow> ('a option \<times> 'q) option" and close :: "'q \<Rightarrow> 'q"
  assumes within: "ok q \<Longrightarrow> length (items q) \<le> room q"
    and push_full: "ok q \<Longrightarrow> push x q = None \<longleftrightarrow> length (items q) = room q"
    and push_ok: "ok q \<Longrightarrow> push x q = Some q' \<Longrightarrow>
      ok q' \<and> items q' = items q @ [x] \<and> room q' = room q \<and> closed q' = closed q"
    and pop_blocks: "ok q \<Longrightarrow> pop q = None \<longleftrightarrow> items q = [] \<and> \<not> closed q"
    and pop_end: "ok q \<Longrightarrow> pop q = Some (None, q') \<Longrightarrow> items q = [] \<and> closed q \<and> q' = q"
    and pop_ok: "ok q \<Longrightarrow> pop q = Some (Some x, q') \<Longrightarrow>
      ok q' \<and> items q = x # items q' \<and> room q' = room q \<and> closed q' = closed q"
    and close_ok: "ok q \<Longrightarrow> ok (close q) \<and> items (close q) = items q \<and> room (close q) = room q \<and> closed (close q)"
begin

text \<open>What is pushed comes out in the same order, behind what was there.\<close>

fun push_all :: "'a list \<Rightarrow> 'q \<Rightarrow> 'q option" where
  "push_all [] q = Some q"
| "push_all (x # xs) q = (case push x q of None \<Rightarrow> None | Some q' \<Rightarrow> push_all xs q')"

fun pop_all :: "nat \<Rightarrow> 'q \<Rightarrow> 'a list" where
  "pop_all 0 q = []"
| "pop_all (Suc n) q = (case pop q of Some (Some x, q') \<Rightarrow> x # pop_all n q' | _ \<Rightarrow> [])"

lemma push_all_items: "ok q \<Longrightarrow> push_all xs q = Some q' \<Longrightarrow> ok q' \<and> items q' = items q @ xs \<and> room q' = room q"
proof (induction xs arbitrary: q)
  case (Cons x xs)
  then obtain q1 where q1: "push x q = Some q1" "push_all xs q1 = Some q'" by (auto split: option.splits)
  with push_ok [OF Cons.prems(1) q1(1)] Cons.IH [OF _ q1(2)] show ?case by simp
qed simp

lemma push_all_fits: "ok q \<Longrightarrow> length (items q) + length xs \<le> room q \<Longrightarrow> \<exists>q'. push_all xs q = Some q'"
proof (induction xs arbitrary: q)
  case (Cons x xs)
  then have "push x q \<noteq> None" by (simp add: push_full)
  then obtain q1 where q1: "push x q = Some q1" by blast
  with push_ok [OF Cons.prems(1) q1] Cons.IH [of q1] Cons.prems(2) show ?case by simp
qed simp

lemma pop_all_items: "ok q \<Longrightarrow> n \<le> length (items q) \<Longrightarrow> pop_all n q = take n (items q)"
proof (induction n arbitrary: q)
  case (Suc n)
  then have ne: "items q \<noteq> []" by auto
  have "\<exists>x q'. pop q = Some (Some x, q')"
  proof (cases "pop q")
    case None
    then show ?thesis using pop_blocks [OF Suc.prems(1)] ne by simp
  next
    case (Some r)
    then show ?thesis using pop_end [OF Suc.prems(1), of "snd r"] ne by (cases r; cases "fst r") auto
  qed
  then obtain x q' where p: "pop q = Some (Some x, q')" by blast
  with pop_ok [OF Suc.prems(1) p] Suc.IH [of q'] Suc.prems(2) show ?case by auto
qed simp

lemma fifo_order:
  assumes "ok q" "items q = []" "length xs \<le> room q"
  shows "\<exists>q'. push_all xs q = Some q' \<and> pop_all (length xs) q' = xs"
proof -
  obtain q' where q': "push_all xs q = Some q'" using push_all_fits [OF assms(1), of xs] assms(2,3) by auto
  from push_all_items [OF assms(1) q'] assms(2) pop_all_items [of q' "length xs"] q' show ?thesis by auto
qed

end

text \<open>A pool of numbered slots.\<close>

locale slot_pool =
  fixes ok :: "'p \<Rightarrow> bool" and free :: "'p \<Rightarrow> nat list" and slots :: "'p \<Rightarrow> nat"
    and acquire :: "'p \<Rightarrow> (nat \<times> 'p) option" and release :: "nat \<Rightarrow> 'p \<Rightarrow> 'p"
  assumes acquire_blocks: "ok p \<Longrightarrow> acquire p = None \<longleftrightarrow> free p = []"
    and acquire_ok: "ok p \<Longrightarrow> acquire p = Some (i, p') \<Longrightarrow> ok p' \<and> mset (free p) = add_mset i (mset (free p')) \<and> slots p' = slots p"
    and release_ok: "ok p \<Longrightarrow> length (free p) < slots p \<Longrightarrow>
      ok (release i p) \<and> mset (free (release i p)) = add_mset i (mset (free p)) \<and> slots (release i p) = slots p"
begin

text \<open>Releasing what was acquired gives the pool's slots back.\<close>

lemma acquire_release:
  assumes "ok p" "acquire p = Some (i, p')" "length (free p) \<le> slots p"
  shows "mset (free (release i p')) = mset (free p)"
proof -
  note a = acquire_ok [OF assms(1,2)]
  then have "length (free p') < slots p'" using assms(3) by (metis Suc_le_eq size_add_mset size_mset)
  with release_ok [of p' i] a show ?thesis by simp
qed

end

section \<open>The implementations\<close>

definition wq_ok :: "'a baseline_wq \<Rightarrow> bool" where
  "wq_ok q \<longleftrightarrow> length (wq_slots q) = wq_capacity q \<and> 0 < wq_capacity q \<and> wq_head q < wq_capacity q \<and>
     wq_count q \<le> wq_capacity q \<and> wq_tail q = (wq_head q + wq_count q) mod wq_capacity q"

definition wq_items :: "'a baseline_wq \<Rightarrow> 'a list" where
  "wq_items q = map (\<lambda>k. wq_slots q ! ((wq_head q + k) mod wq_capacity q)) [0..<wq_count q]"

lemma length_wq_items [simp]: "length (wq_items q) = wq_count q"
  by (simp add: wq_items_def)

lemma wq_items_Nil: "wq_items q = [] \<longleftrightarrow> wq_count q = 0"
  by (simp add: wq_items_def)

lemma ring_index_inj:
  assumes "(h + k) mod c = (h + n) mod c" "k < n" "n < (c::nat)"
  shows False
proof -
  have "c dvd (h + n) - (h + k)" using assms(1,2) mod_eq_dvd_iff_nat [of "h + k" "h + n" c] by simp
  then have "c dvd n - k" by simp
  with assms(2,3) show False by (auto dest: dvd_imp_le)
qed

lemma wq_push_ok:
  assumes "wq_ok q" "baseline_wq_push x q = Some q'"
  shows "wq_ok q' \<and> wq_items q' = wq_items q @ [x] \<and> wq_capacity q' = wq_capacity q \<and> wq_closed q' = wq_closed q"
proof -
  let ?c = "wq_capacity q" and ?h = "wq_head q" and ?n = "wq_count q" and ?t = "wq_tail q"
  have q': "q' = q\<lparr>wq_slots := (wq_slots q)[?t := x], wq_tail := (?t + 1) mod ?c, wq_count := ?n + 1\<rparr>" and lt: "?n < ?c"
    using assms by (auto simp: baseline_wq_push_def wq_ok_def split: if_splits)
  have t: "?t = (?h + ?n) mod ?c" "?t < ?c" "length (wq_slots q) = ?c" using assms(1) by (simp_all add: wq_ok_def)
  have ne: "?t \<noteq> (?h + k) mod ?c" if "k < ?n" for k
    using ring_index_inj [of ?h k ?c ?n] that lt t(1) by auto
  have "map (\<lambda>k. (wq_slots q)[?t := x] ! ((?h + k) mod ?c)) [0..<?n] = wq_items q"
    unfolding wq_items_def using ne by (intro map_cong) (auto simp: nth_list_update_neq)
  then have "wq_items q' = wq_items q @ [x]"
    using t by (simp add: q' wq_items_def)
  moreover have "(?t + 1) mod ?c = (?h + (?n + 1)) mod ?c"
    by (simp add: t(1) mod_simps)
  ultimately show ?thesis using assms(1) lt by (simp add: q' wq_ok_def)
qed

lemma wq_pop_ok:
  assumes "wq_ok q" "baseline_wq_pop q = Some (Some x, q')"
  shows "wq_ok q' \<and> wq_items q = x # wq_items q' \<and> wq_capacity q' = wq_capacity q \<and> wq_closed q' = wq_closed q"
proof -
  let ?c = "wq_capacity q" and ?h = "wq_head q"
  obtain n where n: "wq_count q = Suc n"
    using assms(2) by (cases "wq_count q") (auto simp: baseline_wq_pop_def split: if_splits)
  have q': "q' = q\<lparr>wq_head := (?h + 1) mod ?c, wq_count := n\<rparr>" and x: "x = wq_slots q ! ?h"
    using assms(2) n by (auto simp: baseline_wq_pop_def)
  have h: "?h < ?c" using assms(1) by (simp add: wq_ok_def)
  have "wq_items q = x # map (\<lambda>k. wq_slots q ! ((?h + Suc k) mod ?c)) [0..<n]"
    unfolding wq_items_def n using h x by (simp add: upt_conv_Cons map_Suc_upt [symmetric] o_def del: upt_Suc)
  also have "map (\<lambda>k. wq_slots q ! ((?h + Suc k) mod ?c)) [0..<n] = wq_items q'"
    unfolding wq_items_def q' by (simp add: mod_simps)
  finally have it: "wq_items q = x # wq_items q'" .
  have "wq_tail q = ((?h + 1) mod ?c + n) mod ?c" using assms(1) n by (simp add: wq_ok_def mod_simps)
  with assms(1) n it show ?thesis by (simp add: q' wq_ok_def)
qed

interpretation wq: bounded_fifo wq_ok wq_items wq_capacity wq_closed baseline_wq_push baseline_wq_pop baseline_wq_close
proof unfold_locales
  fix q q' :: "'a baseline_wq" and x
  assume ok: "wq_ok q"
  show "length (wq_items q) \<le> wq_capacity q" using ok by (simp add: wq_ok_def)
  show "baseline_wq_push x q = None \<longleftrightarrow> length (wq_items q) = wq_capacity q" by (simp add: baseline_wq_push_def)
  show "baseline_wq_pop q = None \<longleftrightarrow> wq_items q = [] \<and> \<not> wq_closed q"
    by (auto simp: baseline_wq_pop_def wq_items_def)
  show "baseline_wq_pop q = Some (None, q') \<Longrightarrow> wq_items q = [] \<and> wq_closed q \<and> q' = q"
    by (auto simp: baseline_wq_pop_def wq_items_def split: if_splits)
  show "baseline_wq_push x q = Some q' \<Longrightarrow>
      wq_ok q' \<and> wq_items q' = wq_items q @ [x] \<and> wq_capacity q' = wq_capacity q \<and> wq_closed q' = wq_closed q"
    by (rule wq_push_ok [OF ok])
  show "baseline_wq_pop q = Some (Some x, q') \<Longrightarrow>
      wq_ok q' \<and> wq_items q = x # wq_items q' \<and> wq_capacity q' = wq_capacity q \<and> wq_closed q' = wq_closed q"
    by (rule wq_pop_ok [OF ok])
  show "wq_ok (baseline_wq_close q) \<and> wq_items (baseline_wq_close q) = wq_items q \<and>
      wq_capacity (baseline_wq_close q) = wq_capacity q \<and> wq_closed (baseline_wq_close q)"
    using ok by (simp add: baseline_wq_close_def wq_ok_def wq_items_def)
qed

lemma wq_init_ok:
  "0 < c \<Longrightarrow> wq_ok (baseline_wq_init z c) \<and> wq_items (baseline_wq_init z c) = [] \<and> wq_capacity (baseline_wq_init z c) = c \<and>
     \<not> wq_closed (baseline_wq_init z c)"
  by (simp add: wq_ok_def wq_items_def baseline_wq_init_def)

definition pool_ok :: "capture_pool \<Rightarrow> bool" where
  "pool_ok p \<longleftrightarrow> length (cp_free_stack p) = cp_n_slots p \<and> cp_n_free p \<le> cp_n_slots p"

definition pool_free :: "capture_pool \<Rightarrow> nat list" where
  "pool_free p = take (cp_n_free p) (cp_free_stack p)"

lemma take_last: "0 < n \<Longrightarrow> n \<le> length xs \<Longrightarrow> mset (take n xs) = add_mset (xs ! (n - 1)) (mset (take (n - 1) xs))"
  using take_Suc_conv_app_nth [of "n - 1" xs] by simp

interpretation pool: slot_pool pool_ok pool_free cp_n_slots capture_pool_acquire capture_pool_release
proof unfold_locales
  fix p p' i
  assume ok: "pool_ok p"
  show "capture_pool_acquire p = None \<longleftrightarrow> pool_free p = []"
    using ok by (auto simp: capture_pool_acquire_def pool_free_def pool_ok_def)
  show "capture_pool_acquire p = Some (i, p') \<Longrightarrow>
      pool_ok p' \<and> mset (pool_free p) = add_mset i (mset (pool_free p')) \<and> cp_n_slots p' = cp_n_slots p"
    using ok take_last [of "cp_n_free p" "cp_free_stack p"]
    by (auto simp: capture_pool_acquire_def pool_free_def pool_ok_def split: if_splits)
  show "length (pool_free p) < cp_n_slots p \<Longrightarrow>
      pool_ok (capture_pool_release i p) \<and> mset (pool_free (capture_pool_release i p)) = add_mset i (mset (pool_free p)) \<and>
      cp_n_slots (capture_pool_release i p) = cp_n_slots p"
    using ok by (simp add: capture_pool_release_def pool_free_def pool_ok_def take_Suc_conv_app_nth)
qed

lemma pool_full_ok: "pool_ok (pool_full n) \<and> pool_free (pool_full n) = [0..<n] \<and> cp_n_slots (pool_full n) = n"
  by (simp add: pool_full_def pool_ok_def pool_free_def)

end
