(* ===== verification/Stream_Writer.thy ===== *)
theory Stream_Writer
  imports Stream_Queue
begin

text \<open>
  The streaming image writer of \<open>ckpt_core.c\<close>: the capture thread takes a buffer slot from the pool,
  captures a range into it, assigns the range its place in the file and puts it on the work queue;
  the writer threads copy the sections into the mapped file and give the slot back
  (\<open>baseline_stream_start\<close>, the capture loop in \<open>main\<close>, \<open>baseline_stream_enqueue\<close>,
  \<open>baseline_writer_thread\<close>, \<open>baseline_stream_join\<close>). The threads are a step relation: one critical
  section, one \<open>memcpy\<close> or one thread-local stretch of code is a step. Sleeping on a condition variable
  and being woken by a signal are steps too; spurious wake-ups are left out, they only repeat a test.
  \<open>s_caps\<close> records the captures made so far; no step reads it.
\<close>

section \<open>States\<close>

text \<open>\<open>baseline_work_item_t\<close>. The buffers of the capture are those of the slot; see \<open>item_view\<close>.\<close>

record work_item =
  wi_cap :: range_capture
  wi_file_offset :: nat
  wi_desc_index :: nat
  wi_slot_idx :: nat

datatype img_section = S_resmap | S_cpu | S_gpu | S_meta

text \<open>A writer is about to call \<open>baseline_wq_pop\<close>, sleeps in it, copies the sections that are left, or has returned.\<close>

datatype writer = W_Pop | W_Sleep | W_Copy work_item "(nat \<times> img_section) list" | W_Exit

text \<open>
  The capture thread at range \<open>i\<close>: about to acquire a slot (or asleep there), holding a slot,
  about to push (or asleep there), leaving the loop, joining, returned with a status.
\<close>

datatype capturer =
    C_Acquire nat bool
  | C_Capture nat nat
  | C_Push nat work_item bool
  | C_Close
  | C_Join
  | C_Return bool

record stream_state =
  s_wq :: "work_item baseline_wq"
  s_pool :: capture_pool
  s_bufs :: "nat \<Rightarrow> range_capture"     \<comment> \<open>contents of the buffers of each slot\<close>
  s_descs :: "range_desc list"
  s_cur_off :: nat
  s_total :: nat
  s_map :: mem                         \<comment> \<open>the mapped file\<close>
  s_shared_err :: bool
  s_err :: bool
  s_cap :: capturer
  s_writers :: "writer list"
  s_caps :: "range_capture list"

text \<open>What the stream depends on: the ranges, their captures by range and slot, the calls that can fail, the header.\<close>

record stream_env =
  se_sizes :: "nat list"
  se_calloc :: "nat \<Rightarrow> bool"
  se_capture :: "nat \<Rightarrow> nat \<Rightarrow> range_capture option"
  se_rest :: "nat \<Rightarrow> range_capture"         \<comment> \<open>what a failed capture leaves in the slot\<close>
  se_version :: nat
  se_delta :: "(nat \<times> nat \<times> nat) option"   \<comment> \<open>\<open>is_delta\<close>: start, size and number of dirty pages\<close>
  se_msync :: bool
  se_munmap :: bool

definition num_ranges :: "stream_env \<Rightarrow> nat" where
  "num_ranges env = length (se_sizes env)"

section \<open>Starting\<close>

definition baseline_stream_resolve_workers :: "int option \<Rightarrow> nat" where
  "baseline_stream_resolve_workers req =
     (let n = (case req of None \<Rightarrow> 4 | Some v \<Rightarrow> v); n1 = (if n < 1 then 1 else n)
      in nat (if n1 > 16 then 16 else n1))"

definition hdr_bytes :: "stream_env \<Rightarrow> nat" where
  "hdr_bytes env = (if se_delta env = None then V2_HDR_SIZE else DELTA_HDR_SIZE)"

definition stream_reserve :: "stream_env \<Rightarrow> nat" where
  "stream_reserve env = hdr_bytes env + num_ranges env * DESC_SIZE"

definition baseline_worst_case_size :: "stream_env \<Rightarrow> nat" where
  "baseline_worst_case_size env =
     stream_reserve env + sum_list (map (\<lambda>sz. sz div 4096 + sz + sz div 4096 * META_SIZE) (se_sizes env))"

definition zero_desc :: range_desc where
  "zero_desc = \<lparr>rd_base_va = 0, rd_length = 0, rd_num_pages = 0, rd_data_offset = 0, rd_resmap_size = 0, rd_cpu_bytes = 0,
     rd_gpu_bytes = 0, rd_crypto_meta_bytes = 0\<rparr>"

definition zero_item :: work_item where
  "zero_item = \<lparr>wi_cap = \<lparr>rc_base = 0, rc_length = 0, rc_n_pages = 0, rc_cpu_bytes = 0, rc_gpu_bytes = 0, rc_enc_count = 0,
     rc_resmap = [], rc_cpu_buf = [], rc_gpu_buf = [], rc_crypto_meta = None\<rparr>, wi_file_offset = 0, wi_desc_index = 0, wi_slot_idx = 0\<rparr>"

definition stream_init :: "stream_env \<Rightarrow> nat \<Rightarrow> capture_pool \<Rightarrow> (nat \<Rightarrow> range_capture) \<Rightarrow> mem \<Rightarrow> stream_state" where
  "stream_init env nw pool bufs m =
     \<lparr>s_wq = baseline_wq_init zero_item (nw * 2), s_pool = pool, s_bufs = bufs, s_descs = replicate (num_ranges env) zero_desc,
      s_cur_off = stream_reserve env, s_total = 0, s_map = m, s_shared_err = False, s_err = False,
      s_cap = C_Acquire 0 False, s_writers = replicate nw W_Pop, s_caps = []\<rparr>"

text \<open>
  \<open>threads i\<close> tells whether \<open>pthread_create\<close> of writer \<open>i\<close> succeeds. A failure after some writers were
  started closes the queue, which is empty, so they return without writing. The result is the
  state, and the file the mapping shows.
\<close>

definition baseline_stream_start ::
  "io_env \<Rightarrow> (nat \<Rightarrow> bool) \<Rightarrow> stream_env \<Rightarrow> capture_pool \<Rightarrow> (nat \<Rightarrow> range_capture) \<Rightarrow> ckpt_file \<Rightarrow> (stream_state \<times> ckpt_file) option" where
  "baseline_stream_start io threads env pool bufs old =
     (let worst = baseline_worst_case_size env; nw = baseline_stream_resolve_workers (io_writers io);
          f = (if fl_size old < worst then file_resize worst old else old)
      in if \<not> io_open io \<or> \<not> io_fstat io then None
         else if fl_size old < worst \<and> \<not> io_truncate io worst then None
         else if \<not> io_mmap io worst then None
         else if \<not> io_malloc io (num_ranges env) \<or> \<not> io_malloc io (nw * 2) then None
         else if \<exists>i \<in> set [0..<nw]. \<not> threads i then None
         else Some (stream_init env nw pool bufs (fl_bytes f), f))"

section \<open>The capture thread\<close>

text \<open>\<open>pthread_cond_signal\<close> wakes one sleeper, the one the scheduler picks, and nobody when none sleeps.\<close>

fun wake_first :: "writer list \<Rightarrow> writer list" where
  "wake_first [] = []"
| "wake_first (w # ws) = (if w = W_Sleep then W_Pop # ws else w # wake_first ws)"

definition signal :: "nat \<Rightarrow> writer list \<Rightarrow> writer list" where
  "signal k ws = (if k < length ws \<and> ws ! k = W_Sleep then ws[k := W_Pop] else wake_first ws)"

definition broadcast :: "writer list \<Rightarrow> writer list" where
  "broadcast = map (\<lambda>w. if w = W_Sleep then W_Pop else w)"

text \<open>The part of \<open>baseline_stream_enqueue\<close> before the push.\<close>

definition enqueue_item :: "nat \<Rightarrow> nat \<Rightarrow> range_capture \<Rightarrow> stream_state \<Rightarrow> stream_state" where
  "enqueue_item i sl c s =
     s\<lparr>s_descs := (s_descs s)[i := desc_of (s_cur_off s) c], s_cur_off := s_cur_off s + cap_bytes c,
       s_total := s_total s + rc_length c,
       s_cap := C_Push i \<lparr>wi_cap = c, wi_file_offset = s_cur_off s, wi_desc_index = i, wi_slot_idx = sl\<rparr> False\<rparr>"

text \<open>A failed allocation or capture: the slot goes back and the loop ends. Only the capture thread waits for slots.\<close>

definition capture_failed :: "nat \<Rightarrow> stream_state \<Rightarrow> stream_state" where
  "capture_failed sl s = s\<lparr>s_pool := capture_pool_release sl (s_pool s), s_err := True, s_cap := C_Close\<rparr>"

text \<open>\<open>baseline_stream_join\<close> after the writers have returned.\<close>

definition stream_header :: "stream_env \<Rightarrow> stream_state \<Rightarrow> byte list" where
  "stream_header env s =
     (case se_delta env of
        None \<Rightarrow> enc_v2_hdr (se_version env) (num_ranges env) (s_total s)
      | Some (va, sz, dirty) \<Rightarrow> enc_delta_hdr (num_ranges env) va sz dirty)"

definition stream_finish :: "stream_env \<Rightarrow> stream_state \<Rightarrow> stream_state" where
  "stream_finish env s =
     (if s_shared_err s then s\<lparr>s_cap := C_Return False\<rparr>
      else s\<lparr>s_map := write_mem (write_mem (s_map s) (hdr_bytes env) (concat (map enc_desc (s_descs s)))) 0 (stream_header env s),
             s_cap := C_Return (se_msync env \<and> se_munmap env \<and> \<not> s_err s)\<rparr>)"

text \<open>One step of the capture thread; \<open>None\<close> when it cannot go on. \<open>k\<close> is the writer a signal wakes.\<close>

definition capture_step :: "stream_env \<Rightarrow> nat \<Rightarrow> stream_state \<Rightarrow> stream_state option" where
  "capture_step env k s =
     (case s_cap s of
        C_Acquire i asleep \<Rightarrow>
          if asleep then None
          else if i < num_ranges env \<and> \<not> s_err s \<and> \<not> s_shared_err s then
            (case capture_pool_acquire (s_pool s) of
               None \<Rightarrow> Some (s\<lparr>s_cap := C_Acquire i True\<rparr>)
             | Some (sl, p) \<Rightarrow> Some (s\<lparr>s_pool := p, s_cap := C_Capture i sl\<rparr>))
          else Some (s\<lparr>s_cap := C_Close\<rparr>)
      | C_Capture i sl \<Rightarrow>
          if \<not> se_calloc env i then Some (capture_failed sl s)
          else (case se_capture env i sl of
                  None \<Rightarrow> Some (capture_failed sl (s\<lparr>s_bufs := (s_bufs s)(sl := se_rest env i)\<rparr>))
                | Some c \<Rightarrow> Some (enqueue_item i sl c (s\<lparr>s_bufs := (s_bufs s)(sl := c), s_caps := s_caps s @ [c]\<rparr>)))
      | C_Push i it asleep \<Rightarrow>
          if asleep then None
          else (case baseline_wq_push it (s_wq s) of
                  None \<Rightarrow> Some (s\<lparr>s_cap := C_Push i it True\<rparr>)
                | Some q \<Rightarrow> Some (s\<lparr>s_wq := q, s_writers := signal k (s_writers s), s_cap := C_Acquire (i + 1) False\<rparr>))
      | C_Close \<Rightarrow> Some (s\<lparr>s_wq := baseline_wq_close (s_wq s), s_writers := broadcast (s_writers s), s_cap := C_Join\<rparr>)
      | C_Join \<Rightarrow> if \<forall>w \<in> set (s_writers s). w = W_Exit then Some (stream_finish env s) else None
      | C_Return ok \<Rightarrow> None)"

section \<open>The writers\<close>

text \<open>The capture as the writer sees it: sizes from the structure, contents from the slot's buffers.\<close>

definition item_view :: "(nat \<Rightarrow> range_capture) \<Rightarrow> work_item \<Rightarrow> range_capture" where
  "item_view bufs it =
     (wi_cap it)\<lparr>rc_resmap := rc_resmap (bufs (wi_slot_idx it)), rc_cpu_buf := rc_cpu_buf (bufs (wi_slot_idx it)),
        rc_gpu_buf := rc_gpu_buf (bufs (wi_slot_idx it)), rc_crypto_meta := rc_crypto_meta (bufs (wi_slot_idx it))\<rparr>"

text \<open>The copies of one item, in order: where to and which section.\<close>

definition item_copies :: "work_item \<Rightarrow> (nat \<times> img_section) list" where
  "item_copies it =
     (let c = wi_cap it; d0 = wi_file_offset it; d1 = d0 + rc_n_pages c; d2 = d1 + rc_cpu_bytes c; d3 = d2 + rc_gpu_bytes c
      in [(d0, S_resmap)] @ (if rc_cpu_bytes c \<noteq> 0 then [(d1, S_cpu)] else []) @
         (if rc_gpu_bytes c \<noteq> 0 then [(d2, S_gpu)] else []) @ (if cap_meta_bytes c \<noteq> 0 then [(d3, S_meta)] else []))"

fun section_bytes :: "range_capture \<Rightarrow> img_section \<Rightarrow> byte list" where
  "section_bytes c S_resmap = take (rc_n_pages c) (rc_resmap c)"
| "section_bytes c S_cpu = take (rc_cpu_bytes c) (rc_cpu_buf c)"
| "section_bytes c S_gpu = take (rc_gpu_bytes c) (rc_gpu_buf c)"
| "section_bytes c S_meta = cap_meta c"

text \<open>The signals to the capture thread: a pop signals \<open>not_full\<close>, a release the pool's \<open>not_empty\<close>.\<close>

fun signal_push :: "capturer \<Rightarrow> capturer" where
  "signal_push (C_Push i it asleep) = C_Push i it False"
| "signal_push c = c"

fun signal_acquire :: "capturer \<Rightarrow> capturer" where
  "signal_acquire (C_Acquire i asleep) = C_Acquire i False"
| "signal_acquire c = c"

text \<open>One step of writer \<open>k\<close>.\<close>

definition writer_step :: "nat \<Rightarrow> stream_state \<Rightarrow> stream_state option" where
  "writer_step k s =
     (case s_writers s ! k of
        W_Pop \<Rightarrow>
          (case baseline_wq_pop (s_wq s) of
             None \<Rightarrow> Some (s\<lparr>s_writers := (s_writers s)[k := W_Sleep]\<rparr>)
           | Some (None, q) \<Rightarrow> Some (s\<lparr>s_writers := (s_writers s)[k := W_Exit]\<rparr>)
           | Some (Some it, q) \<Rightarrow>
               Some (s\<lparr>s_wq := q, s_cap := signal_push (s_cap s),
                       s_writers := (s_writers s)[k := W_Copy it (if s_shared_err s then [] else item_copies it)]\<rparr>))
      | W_Copy it ((d, sec) # rest) \<Rightarrow>
          Some (s\<lparr>s_map := write_mem (s_map s) d (section_bytes (item_view (s_bufs s) it) sec),
                  s_writers := (s_writers s)[k := W_Copy it rest]\<rparr>)
      | W_Copy it [] \<Rightarrow>
          Some (s\<lparr>s_pool := capture_pool_release (wi_slot_idx it) (s_pool s), s_cap := signal_acquire (s_cap s),
                  s_writers := (s_writers s)[k := W_Pop]\<rparr>)
      | _ \<Rightarrow> None)"

inductive stream_step :: "stream_env \<Rightarrow> stream_state \<Rightarrow> stream_state \<Rightarrow> bool" for env where
  capture: "capture_step env k s = Some t \<Longrightarrow> stream_step env s t"
| writer: "k < length (s_writers s) \<Longrightarrow> writer_step k s = Some t \<Longrightarrow> stream_step env s t"

abbreviation stream_run :: "stream_env \<Rightarrow> stream_state \<Rightarrow> stream_state \<Rightarrow> bool" where
  "stream_run env \<equiv> (stream_step env)\<^sup>*\<^sup>*"

end
