(* ===== verification/Stream_Inv.thy ===== *)
theory Stream_Inv
  imports Stream_Writer
begin

text \<open>
  Invariants of the streaming writer: every slot has one owner, so a buffer is not overwritten before
  its copy is done; the file and the copies still to be done always add up to the image; a thread
  that sleeps has something to wait for and somebody who will wake it.
\<close>

section \<open>Who owns what\<close>

fun writer_items :: "writer \<Rightarrow> work_item list" where
  "writer_items (W_Copy it rest) = [it]"
| "writer_items _ = []"

fun cap_items :: "capturer \<Rightarrow> work_item list" where
  "cap_items (C_Push i it asleep) = [it]"
| "cap_items _ = []"

fun cap_slots :: "capturer \<Rightarrow> nat list" where
  "cap_slots (C_Capture i sl) = [sl]"
| "cap_slots _ = []"

definition in_flight :: "stream_state \<Rightarrow> work_item list" where
  "in_flight s = cap_items (s_cap s) @ wq_items (s_wq s) @ concat (map writer_items (s_writers s))"

definition held_slots :: "stream_state \<Rightarrow> nat list" where
  "held_slots s = pool_free (s_pool s) @ cap_slots (s_cap s) @ map wi_slot_idx (in_flight s)"

text \<open>The structures are well-formed and the slots are exactly distributed.\<close>

definition well_shaped :: "nat \<Rightarrow> nat \<Rightarrow> stream_state \<Rightarrow> bool" where
  "well_shaped n nw s \<longleftrightarrow> wq_ok (s_wq s) \<and> pool_ok (s_pool s) \<and> cp_n_slots (s_pool s) = n \<and> wq_capacity (s_wq s) = n \<and>
     length (s_writers s) = nw \<and> mset (held_slots s) = mset [0..<n] \<and> \<not> s_shared_err s"

section \<open>Updates of the writers\<close>

lemma concat_map_update:
  "k < length ws \<Longrightarrow> mset (concat (map f (ws[k := w]))) + mset (f (ws ! k)) = mset (concat (map f ws)) + mset (f w)"
proof (induction ws arbitrary: k)
  case (Cons a ws)
  then show ?case by (cases k) (auto simp: ac_simps)
qed simp

lemma length_signal [simp]: "length (signal k ws) = length ws" "length (broadcast ws) = length ws"
proof -
  have "length (wake_first ws) = length ws" by (induction ws) auto
  then show "length (signal k ws) = length ws" "length (broadcast ws) = length ws" by (simp_all add: signal_def broadcast_def)
qed

lemma concat_map_signal:
  assumes "f W_Sleep = []" "f W_Pop = []"
  shows "concat (map f (signal k ws)) = concat (map f ws)" "concat (map f (broadcast ws)) = concat (map f ws)"
proof -
  have "concat (map f (wake_first ws)) = concat (map f ws)" using assms by (induction ws) auto
  moreover have "concat (map f (ws[k := W_Pop])) = concat (map f ws)" if "k < length ws" "ws ! k = W_Sleep" for k
    using that assms
  proof (induction ws arbitrary: k)
    case (Cons a ws)
    then show ?case by (cases k) auto
  qed simp
  ultimately show "concat (map f (signal k ws)) = concat (map f ws)" by (auto simp: signal_def)
  show "concat (map f (broadcast ws)) = concat (map f ws)" using assms by (induction ws) (auto simp: broadcast_def)
qed

lemma signal_sets:
  "set (signal k ws) \<subseteq> set ws \<union> {W_Pop}" "W_Sleep \<notin> set (broadcast ws)" "W_Exit \<in> set (broadcast ws) \<longleftrightarrow> W_Exit \<in> set ws"
proof -
  have "set (wake_first ws) \<subseteq> set ws \<union> {W_Pop}" by (induction ws) auto
  moreover have "set (ws[k := W_Pop]) \<subseteq> set ws \<union> {W_Pop}" using set_update_subset_insert by fastforce
  ultimately show "set (signal k ws) \<subseteq> set ws \<union> {W_Pop}" by (simp add: signal_def)
  show "W_Sleep \<notin> set (broadcast ws)" "W_Exit \<in> set (broadcast ws) \<longleftrightarrow> W_Exit \<in> set ws" by (auto simp: broadcast_def)
qed

text \<open>A signal leaves somebody awake unless everybody has returned.\<close>

lemma signal_awake: "W_Exit \<notin> set ws \<Longrightarrow> ws \<noteq> [] \<Longrightarrow> \<exists>w \<in> set (signal k ws). w \<noteq> W_Sleep \<and> w \<noteq> W_Exit"
proof -
  assume *: "W_Exit \<notin> set ws" "ws \<noteq> []"
  then have f: "\<exists>w \<in> set (wake_first ws). w \<noteq> W_Sleep \<and> w \<noteq> W_Exit" by (cases ws) auto
  show ?thesis
  proof (cases "k < length ws \<and> ws ! k = W_Sleep")
    case True
    then have "W_Pop \<in> set (ws[k := W_Pop])" by (simp add: set_update_memI)
    with True show ?thesis unfolding signal_def by (intro bexI [of _ W_Pop]) auto
  next
    case False
    then have "signal k ws = wake_first ws" by (auto simp: signal_def)
    with f show ?thesis by simp
  qed
qed

section \<open>Every slot has one owner\<close>

lemma mset_in_flight: "mset (in_flight s) = mset (cap_items (s_cap s)) + mset (wq_items (s_wq s)) + mset (concat (map writer_items (s_writers s)))"
  by (simp add: in_flight_def)

lemma mset_held:
  "mset (held_slots s) = mset (pool_free (s_pool s)) + mset (cap_slots (s_cap s)) + image_mset wi_slot_idx (mset (in_flight s))"
  by (simp add: held_slots_def)

lemma held_size: "well_shaped n nw s \<Longrightarrow> length (pool_free (s_pool s)) + length (cap_slots (s_cap s)) + length (in_flight s) = n"
proof -
  assume "well_shaped n nw s"
  then have "length (held_slots s) = n" unfolding well_shaped_def by (metis length_upt minus_nat.diff_0 size_mset)
  then show ?thesis by (simp add: held_slots_def)
qed

lemmas writer_items_signal = concat_map_signal [where f = writer_items, simplified]

lemma release_shape:
  assumes "pool_ok p" "length (pool_free p) < cp_n_slots p"
  shows "pool_ok (capture_pool_release i p)" "mset (pool_free (capture_pool_release i p)) = add_mset i (mset (pool_free p))"
    "cp_n_slots (capture_pool_release i p) = cp_n_slots p"
  using pool.release_ok [OF assms] by simp_all

lemma capture_failed_shape:
  assumes "well_shaped n nw s" "s_cap s = C_Capture i sl"
  shows "well_shaped n nw (capture_failed sl s)"
proof -
  have "length (pool_free (s_pool s)) < n" using held_size [OF assms(1)] assms(2) by simp
  with assms release_shape [of "s_pool s" sl] show ?thesis
    by (auto simp: well_shaped_def capture_failed_def mset_held mset_in_flight)
qed

lemma capture_step_shape:
  assumes "well_shaped n nw s" "capture_step env k s = Some t"
  shows "well_shaped n nw t"
proof (cases "s_cap s")
  case (C_Acquire i b)
  then show ?thesis
    using assms pool.acquire_ok [of "s_pool s"]
    by (auto simp: capture_step_def well_shaped_def mset_held mset_in_flight split: if_splits option.splits prod.splits)
next
  case (C_Capture i sl)
  have b: "well_shaped n nw (s\<lparr>s_bufs := x\<rparr>)" for x using assms(1) by (simp add: well_shaped_def held_slots_def in_flight_def)
  show ?thesis
    using assms C_Capture capture_failed_shape [OF assms(1) C_Capture] capture_failed_shape [OF b, of _ i sl]
    by (auto simp: capture_step_def enqueue_item_def well_shaped_def mset_held mset_in_flight split: if_splits option.splits)
next
  case (C_Push i it b)
  then show ?thesis
    using assms wq.push_ok [of "s_wq s" it]
    by (auto simp: capture_step_def well_shaped_def mset_held mset_in_flight writer_items_signal split: if_splits option.splits)
next
  case C_Close
  then show ?thesis
    using assms wq.close_ok [of "s_wq s"]
    by (auto simp: capture_step_def well_shaped_def mset_held mset_in_flight writer_items_signal)
next
  case C_Join
  then show ?thesis
    using assms by (auto simp: capture_step_def well_shaped_def mset_held mset_in_flight stream_finish_def split: if_splits)
qed (use assms in \<open>simp add: capture_step_def\<close>)

lemma signal_keeps [simp]:
  "cap_items (signal_push c) = cap_items c" "cap_items (signal_acquire c) = cap_items c"
  "cap_slots (signal_push c) = cap_slots c" "cap_slots (signal_acquire c) = cap_slots c"
  by (cases c; simp)+

lemma writer_step_shape:
  assumes "well_shaped n nw s" "k < length (s_writers s)" "writer_step k s = Some t"
  shows "well_shaped n nw t"
proof (cases "s_writers s ! k")
  case W_Pop
  show ?thesis
  proof (cases "baseline_wq_pop (s_wq s)")
    case None
    then show ?thesis
      using assms W_Pop concat_map_update [OF assms(2), of writer_items W_Sleep]
      by (auto simp: writer_step_def well_shaped_def mset_held mset_in_flight)
  next
    case (Some r)
    then show ?thesis
      using assms W_Pop wq.pop_ok [of "s_wq s"] concat_map_update [OF assms(2), of writer_items W_Exit]
        concat_map_update [OF assms(2), of writer_items "W_Copy x y" for x y]
      by (cases r; cases "fst r") (auto simp: writer_step_def well_shaped_def mset_held mset_in_flight split: if_splits)
  qed
next
  case (W_Copy it cs)
  show ?thesis
  proof (cases cs)
    case Nil
    have "it \<in> set (in_flight s)"
      using W_Copy nth_mem [OF assms(2)] by (auto simp: in_flight_def intro!: bexI [of _ "s_writers s ! k"])
    then have "0 < length (in_flight s)" by (auto intro: length_pos_if_in_set)
    then have "length (pool_free (s_pool s)) < n" using held_size [OF assms(1)] by linarith
    moreover have "image_mset wi_slot_idx (mset (concat (map writer_items (s_writers s)))) =
        add_mset (wi_slot_idx it) (image_mset wi_slot_idx (mset (concat (map writer_items ((s_writers s)[k := W_Pop])))))"
      using arg_cong [OF concat_map_update [OF assms(2), of writer_items W_Pop], of "image_mset wi_slot_idx"] W_Copy by simp
    ultimately show ?thesis
      using Nil W_Copy assms release_shape [of "s_pool s" "wi_slot_idx it"]
      by (auto simp: writer_step_def well_shaped_def mset_held mset_in_flight)
  next
    case (Cons x xs)
    then show ?thesis
      using assms W_Copy concat_map_update [OF assms(2), of writer_items "W_Copy it xs"]
      by (cases x) (auto simp: writer_step_def well_shaped_def mset_held mset_in_flight)
  qed
qed (use assms in \<open>simp_all add: writer_step_def\<close>)

interpretation stream_shape: step_invariant "stream_step env" "well_shaped n nw" for env n nw
  by unfold_locales (auto elim!: stream_step.cases intro: capture_step_shape writer_step_shape)

section \<open>Buffers in flight are not overwritten\<close>

definition views_ok :: "stream_state \<Rightarrow> bool" where
  "views_ok s \<longleftrightarrow> (\<forall>it \<in> set (in_flight s). item_view (s_bufs s) it = wi_cap it)"

lemma item_view_own [simp]: "wi_slot_idx it = sl \<Longrightarrow> item_view (b(sl := wi_cap it)) it = wi_cap it"
  by (simp add: item_view_def)

lemma item_view_other: "wi_slot_idx it \<noteq> sl \<Longrightarrow> item_view (b(sl := c)) it = item_view b it"
  by (simp add: item_view_def)

text \<open>The slot the capture thread fills belongs to no item in flight.\<close>

lemma capture_slot_fresh:
  assumes "well_shaped n nw s" "s_cap s = C_Capture i sl" "it \<in> set (in_flight s)"
  shows "wi_slot_idx it \<noteq> sl"
proof -
  have "distinct (held_slots s)" using assms(1) unfolding well_shaped_def by (metis distinct_upt mset_eq_imp_distinct_iff)
  then show ?thesis using assms(2,3) by (auto simp: held_slots_def)
qed

lemma views_mono:
  assumes "views_ok s" "mset (in_flight t) \<subseteq># mset (in_flight s)" "s_bufs t = s_bufs s"
  shows "views_ok t"
  using assms(1,3) set_mset_mono [OF assms(2)] by (auto simp: views_ok_def)

lemma capture_step_views:
  assumes "well_shaped n nw s" "views_ok s" "capture_step env k s = Some t"
  shows "views_ok t"
proof (cases "s_cap s")
  case (C_Acquire i b)
  then show ?thesis
    using assms by (auto simp: capture_step_def views_ok_def in_flight_def split: if_splits option.splits prod.splits)
next
  case (C_Capture i sl)
  have other: "item_view ((s_bufs s)(sl := c)) it = wi_cap it" if "it \<in> set (in_flight s)" for it c
    using assms(2) capture_slot_fresh [OF assms(1) C_Capture that] that by (simp add: views_ok_def item_view_other)
  have fl: "in_flight (capture_failed sl (s\<lparr>s_bufs := b\<rparr>)) = in_flight s" "in_flight (capture_failed sl s) = in_flight s"
    "in_flight (enqueue_item i sl c (s\<lparr>s_bufs := b, s_caps := x\<rparr>)) =
      \<lparr>wi_cap = c, wi_file_offset = s_cur_off s, wi_desc_index = i, wi_slot_idx = sl\<rparr> # in_flight s" for b c x
    using C_Capture by (simp_all add: in_flight_def capture_failed_def enqueue_item_def)
  have own: "item_view ((s_bufs s)(sl := c)) \<lparr>wi_cap = c, wi_file_offset = a, wi_desc_index = i, wi_slot_idx = sl\<rparr> = c" for a c
    by (simp add: item_view_def)
  have bufs: "s_bufs (capture_failed sl u) = s_bufs u" "s_bufs (enqueue_item i sl c u) = s_bufs u" for u c
    by (simp_all add: capture_failed_def enqueue_item_def)
  have "t = capture_failed sl s \<or> (\<exists>c. t = capture_failed sl (s\<lparr>s_bufs := (s_bufs s)(sl := c)\<rparr>)) \<or>
      (\<exists>c. t = enqueue_item i sl c (s\<lparr>s_bufs := (s_bufs s)(sl := c), s_caps := s_caps s @ [c]\<rparr>))"
    using assms(3) C_Capture by (auto simp: capture_step_def split: if_splits option.splits)
  then show ?thesis
  proof (elim disjE exE)
    assume "t = capture_failed sl s"
    then show ?thesis using assms(2) by (simp add: views_ok_def fl bufs)
  next
    fix c assume "t = capture_failed sl (s\<lparr>s_bufs := (s_bufs s)(sl := c)\<rparr>)"
    then show ?thesis using other by (simp add: views_ok_def fl bufs)
  next
    fix c assume "t = enqueue_item i sl c (s\<lparr>s_bufs := (s_bufs s)(sl := c), s_caps := s_caps s @ [c]\<rparr>)"
    then show ?thesis using other by (simp add: views_ok_def fl bufs own)
  qed
next
  case (C_Push i it b)
  then have "mset (in_flight t) = mset (in_flight s) \<and> s_bufs t = s_bufs s"
    using assms(1,3) wq.push_ok [of "s_wq s" it]
    by (auto simp: capture_step_def mset_in_flight well_shaped_def writer_items_signal split: if_splits option.splits)
  then show ?thesis by (intro views_mono [OF assms(2)]) simp_all
next
  case C_Close
  then have "mset (in_flight t) = mset (in_flight s) \<and> s_bufs t = s_bufs s"
    using assms(1,3) wq.close_ok [of "s_wq s"]
    by (auto simp: capture_step_def mset_in_flight well_shaped_def writer_items_signal)
  then show ?thesis by (intro views_mono [OF assms(2)]) simp_all
next
  case C_Join
  then show ?thesis
    using assms by (auto simp: capture_step_def views_ok_def in_flight_def stream_finish_def split: if_splits)
qed (use assms in \<open>simp add: capture_step_def\<close>)

text \<open>The steps of a writer, one by one.\<close>

lemma writer_step_cases:
  assumes "writer_step k s = Some t"
  obtains (sleep) "s_writers s ! k = W_Pop" "baseline_wq_pop (s_wq s) = None" "t = s\<lparr>s_writers := (s_writers s)[k := W_Sleep]\<rparr>"
  | (exit) q where "s_writers s ! k = W_Pop" "baseline_wq_pop (s_wq s) = Some (None, q)" "t = s\<lparr>s_writers := (s_writers s)[k := W_Exit]\<rparr>"
  | (pop) it q where "s_writers s ! k = W_Pop" "baseline_wq_pop (s_wq s) = Some (Some it, q)"
      "t = s\<lparr>s_wq := q, s_cap := signal_push (s_cap s),
             s_writers := (s_writers s)[k := W_Copy it (if s_shared_err s then [] else item_copies it)]\<rparr>"
  | (copy) it d sec rest where "s_writers s ! k = W_Copy it ((d, sec) # rest)"
      "t = s\<lparr>s_map := write_mem (s_map s) d (section_bytes (item_view (s_bufs s) it) sec), s_writers := (s_writers s)[k := W_Copy it rest]\<rparr>"
  | (release) it where "s_writers s ! k = W_Copy it []"
      "t = s\<lparr>s_pool := capture_pool_release (wi_slot_idx it) (s_pool s), s_cap := signal_acquire (s_cap s),
             s_writers := (s_writers s)[k := W_Pop]\<rparr>"
  using assms unfolding writer_step_def
  by (cases "s_writers s ! k") (auto split: option.splits prod.splits list.splits)

lemma writer_step_views:
  assumes "well_shaped n nw s" "views_ok s" "k < length (s_writers s)" "writer_step k s = Some t"
  shows "views_ok t"
proof (rule views_mono [OF assms(2)])
  have q: "wq_ok (s_wq s)" using assms(1) by (simp add: well_shaped_def)
  note u = concat_map_update [OF assms(3), of writer_items]
  from assms(4) show "mset (in_flight t) \<subseteq># mset (in_flight s)"
  proof (cases rule: writer_step_cases)
    case (pop it q)
    then show ?thesis using wq.pop_ok [OF q pop(2)] u by (simp add: mset_in_flight)
  next
    case (release it)
    then show ?thesis using u [of W_Pop, symmetric] by (simp add: mset_in_flight)
  next
    case (copy it d sec rest)
    then show ?thesis using u [of "W_Copy it rest"] by (simp add: mset_in_flight)
  qed (use u in \<open>simp_all add: mset_in_flight\<close>)
  from assms(4) show "s_bufs t = s_bufs s" by (cases rule: writer_step_cases) simp_all
qed

section \<open>The file and what is left to copy\<close>

definition item_writes :: "work_item \<Rightarrow> (nat \<times> byte list) list" where
  "item_writes it = map (\<lambda>(d, sec). (d, section_bytes (wi_cap it) sec)) (item_copies it)"

fun writer_writes :: "writer \<Rightarrow> (nat \<times> byte list) list" where
  "writer_writes (W_Copy it rest) = map (\<lambda>(d, sec). (d, section_bytes (wi_cap it) sec)) rest"
| "writer_writes _ = []"

definition remaining :: "stream_state \<Rightarrow> (nat \<times> byte list) list" where
  "remaining s = concat (map item_writes (cap_items (s_cap s))) @ concat (map item_writes (wq_items (s_wq s))) @
     concat (map writer_writes (s_writers s))"

definition cap_writes :: "nat \<Rightarrow> range_capture \<Rightarrow> (nat \<times> byte list) list" where
  "cap_writes off c = item_writes \<lparr>wi_cap = c, wi_file_offset = off, wi_desc_index = 0, wi_slot_idx = 0\<rparr>"

fun all_writes :: "nat \<Rightarrow> range_capture list \<Rightarrow> (nat \<times> byte list) list" where
  "all_writes off [] = []"
| "all_writes off (c # cs) = cap_writes off c @ all_writes (off + cap_bytes c) cs"

lemma item_writes_cap: "item_writes it = cap_writes (wi_file_offset it) (wi_cap it)"
  by (simp add: cap_writes_def item_writes_def item_copies_def Let_def)

lemma cap_writes_contig:
  assumes "cap_wf c"
  shows "contig off (cap_writes off c)" "concat (map snd (cap_writes off c)) = cap_sections c"
  using assms length_cap_meta [OF assms]
  by (auto simp: cap_writes_def item_writes_def item_copies_def Let_def cap_wf_def cap_sections_def cap_meta_def split: option.splits)

lemma all_writes_append: "all_writes off (cs @ [c]) = all_writes off cs @ cap_writes (off + sum_list (map cap_bytes cs)) c"
  by (induction cs arbitrary: off) (simp_all add: add.assoc)

lemma all_writes_contig:
  assumes "\<forall>c \<in> set cs. cap_wf c"
  shows "contig off (all_writes off cs) \<and> concat (map snd (all_writes off cs)) = concat (map cap_sections cs)"
  using assms
proof (induction cs arbitrary: off)
  case (Cons c cs)
  then show ?case using cap_writes_contig [of c off] Cons.IH [of "off + cap_bytes c"]
    by (simp add: contig_append length_cap_sections)
qed simp

text \<open>Copying, in any order, what is left turns the file into the target.\<close>

definition on_target :: "nat \<Rightarrow> mem \<Rightarrow> stream_state \<Rightarrow> bool" where
  "on_target off m s \<longleftrightarrow> mset (remaining s) \<subseteq># mset (all_writes off (s_caps s)) \<and>
     fold put_bytes (remaining s) (s_map s) = write_mem m off (concat (map cap_sections (s_caps s)))"

lemma remaining_indep:
  assumes "\<forall>c \<in> set cs. cap_wf c" "mset ws \<subseteq># mset (all_writes off cs)"
  shows "pairwise_indep writes_disjoint ws"
proof -
  have "pairwise_indep writes_disjoint (all_writes off cs)" using all_writes_contig [OF assms(1)] contig_indep by blast
  moreover have "set ws \<subseteq> set (all_writes off cs)" using set_mset_mono [OF assms(2)] by simp
  ultimately show ?thesis unfolding pairwise_indep_def by blast
qed

text \<open>Only the multiset of the remaining copies matters.\<close>

lemma on_target_perm:
  assumes "on_target off m s" "\<forall>c \<in> set (s_caps s). cap_wf c"
    and "mset (remaining t) = mset (remaining s)" "s_map t = s_map s" "s_caps t = s_caps s"
  shows "on_target off m t"
proof -
  have "pairwise_indep writes_disjoint (remaining s)" using assms(1,2) remaining_indep by (auto simp: on_target_def)
  from file_writes.schedule_perm [OF this assms(3) [symmetric]] assms show ?thesis by (simp add: on_target_def)
qed

text \<open>Doing one copy keeps the target.\<close>

lemma on_target_copy:
  assumes "on_target off m s" "\<forall>c \<in> set (s_caps s). cap_wf c"
    and "mset (remaining s) = add_mset w (mset (remaining t))" "s_map t = put_bytes w (s_map s)" "s_caps t = s_caps s"
  shows "on_target off m t"
proof -
  have "pairwise_indep writes_disjoint (remaining s)" using assms(1,2) remaining_indep by (auto simp: on_target_def)
  from file_writes.schedule_perm [OF this, of "w # remaining t"] assms
  have "fold put_bytes (remaining t) (s_map t) = write_mem m off (concat (map cap_sections (s_caps s)))"
    by (simp add: on_target_def)
  moreover have "mset (remaining t) \<subseteq># mset (all_writes off (s_caps s))"
    using assms(1,3) by (simp add: on_target_def) (meson mset_subset_eq_insertD subset_mset.less_imp_le)
  ultimately show ?thesis using assms(5) by (simp add: on_target_def)
qed

text \<open>A new capture adds its copies, behind everything before it.\<close>

lemma on_target_capture:
  assumes "on_target off m s" "\<forall>c \<in> set (s_caps s @ [c]). cap_wf c" "s_caps t = s_caps s @ [c]" "s_map t = s_map s"
    and "remaining t = cap_writes (off + sum_list (map cap_bytes (s_caps s))) c @ remaining s"
  shows "on_target off m t"
proof -
  let ?new = "cap_writes (off + sum_list (map cap_bytes (s_caps s))) c"
  have sub: "mset (remaining t) \<subseteq># mset (all_writes off (s_caps t))"
    using assms(1) by (simp add: assms(3,5) all_writes_append on_target_def)
  have "pairwise_indep writes_disjoint (remaining t)"
    by (rule remaining_indep [OF _ sub]) (use assms(2,3) in simp)
  from file_writes.schedule_perm [OF this, of "remaining s @ ?new" "s_map s"]
  have "fold put_bytes (remaining t) (s_map t) = fold put_bytes ?new (write_mem m off (concat (map cap_sections (s_caps s))))"
    using assms(1) by (simp add: assms(4,5) on_target_def union_commute)
  also have "\<dots> = write_mem m off (concat (map cap_sections (s_caps t)))"
  proof -
    have "contig (off + sum_list (map cap_bytes (s_caps s))) ?new" "concat (map snd ?new) = cap_sections c"
      using cap_writes_contig assms(2) by simp_all
    moreover have "length (concat (map cap_sections (s_caps s))) = sum_list (map cap_bytes (s_caps s))"
      using length_sections assms(2) by simp
    ultimately show ?thesis
      using write_mem_append [of m off "concat (map cap_sections (s_caps s))" "cap_sections c"]
      by (simp add: contig_fold assms(3))
  qed
  finally show ?thesis using sub by (simp add: on_target_def)
qed

section \<open>Sleeping and waking\<close>

definition flow :: "stream_env \<Rightarrow> stream_state \<Rightarrow> bool" where
  "flow env s \<longleftrightarrow>
     (W_Exit \<in> set (s_writers s) \<longrightarrow> wq_closed (s_wq s) \<and> wq_items (s_wq s) = []) \<and>
     (wq_closed (s_wq s) \<longleftrightarrow> s_cap s = C_Join \<or> (\<exists>ok. s_cap s = C_Return ok)) \<and>
     (wq_closed (s_wq s) \<longrightarrow> W_Sleep \<notin> set (s_writers s)) \<and>
     (wq_items (s_wq s) \<noteq> [] \<longrightarrow> (\<exists>w \<in> set (s_writers s). w \<noteq> W_Sleep \<and> w \<noteq> W_Exit)) \<and>
     (case s_cap s of
        C_Push i it asleep \<Rightarrow> asleep \<longrightarrow> length (wq_items (s_wq s)) = wq_capacity (s_wq s)
      | C_Acquire i asleep \<Rightarrow> asleep \<longrightarrow> pool_free (s_pool s) = []
      | C_Return ok \<Rightarrow> \<forall>w \<in> set (s_writers s). w = W_Exit
      | _ \<Rightarrow> True)"

lemma broadcast_awake: "\<exists>w \<in> set ws. w \<noteq> W_Sleep \<and> w \<noteq> W_Exit \<Longrightarrow> \<exists>w \<in> set (broadcast ws). w \<noteq> W_Sleep \<and> w \<noteq> W_Exit"
  by (auto simp: broadcast_def)

lemma capture_step_flow:
  assumes "well_shaped n nw s" "flow env s" "capture_step env k s = Some t" "0 < nw"
  shows "flow env t"
proof (cases "s_cap s")
  case (C_Acquire i b)
  then show ?thesis
    using assms pool.acquire_blocks [of "s_pool s"]
    by (auto simp: capture_step_def flow_def well_shaped_def split: if_splits option.splits prod.splits)
next
  case (C_Capture i sl)
  then show ?thesis
    using assms by (auto simp: capture_step_def capture_failed_def enqueue_item_def flow_def split: if_splits option.splits)
next
  case (C_Push i it b)
  have nc: "\<not> wq_closed (s_wq s)" "W_Exit \<notin> set (s_writers s)" using assms(2) C_Push by (auto simp: flow_def)
  have ok: "wq_ok (s_wq s)" "s_writers s \<noteq> []" using assms(1,4) by (auto simp: well_shaped_def)
  show ?thesis
  proof (cases "baseline_wq_push it (s_wq s)")
    case None
    then show ?thesis
      using assms(2,3) C_Push wq.push_full [OF ok(1), of it] by (auto simp: capture_step_def flow_def wq_items_Nil split: if_splits)
  next
    case (Some q)
    have "W_Exit \<notin> set (signal k (s_writers s))" using nc(2) signal_sets(1) [of k "s_writers s"] by auto
    with Some show ?thesis
      using assms(2,3) C_Push wq.push_ok [OF ok(1) Some] nc signal_awake [OF nc(2) ok(2), of k]
      by (auto simp: capture_step_def flow_def split: if_splits)
  qed
next
  case C_Close
  have "wq_ok (s_wq s)" using assms(1) by (simp add: well_shaped_def)
  note c = wq.close_ok [OF this]
  have t: "t = s\<lparr>s_wq := baseline_wq_close (s_wq s), s_writers := broadcast (s_writers s), s_cap := C_Join\<rparr>"
    using assms(3) C_Close by (simp add: capture_step_def)
  have "wq_items (s_wq s) \<noteq> [] \<longrightarrow> (\<exists>w \<in> set (broadcast (s_writers s)). w \<noteq> W_Sleep \<and> w \<noteq> W_Exit)"
    using assms(2) broadcast_awake unfolding flow_def by blast
  moreover have "W_Exit \<notin> set (s_writers s)" using assms(2) C_Close by (auto simp: flow_def)
  ultimately show ?thesis using c signal_sets(2,3) by (simp add: t flow_def)
next
  case C_Join
  then show ?thesis
    using assms(2,3) by (auto simp: capture_step_def flow_def stream_finish_def split: if_splits)
qed (use assms in \<open>simp add: capture_step_def\<close>)

lemma writer_step_flow:
  assumes "well_shaped n nw s" "flow env s" "k < length (s_writers s)" "writer_step k s = Some t"
  shows "flow env t"
proof -
  have ok: "wq_ok (s_wq s)" "pool_ok (s_pool s)" using assms(1) by (simp_all add: well_shaped_def)
  have mem: "w \<in> set ((s_writers s)[k := w])" "s_writers s ! k \<in> set (s_writers s)" for w
    using assms(3) by (simp_all add: set_update_memI)
  have sub: "set ((s_writers s)[k := w]) \<subseteq> insert w (set (s_writers s))" for w by (rule set_update_subset_insert)
  from assms(4) show ?thesis
  proof (cases rule: writer_step_cases)
    case sleep
    then have "wq_items (s_wq s) = []" "\<not> wq_closed (s_wq s)" using wq.pop_blocks [OF ok(1)] by auto
    then show ?thesis using assms(2) sleep sub [of W_Sleep] by (auto simp: flow_def split: capturer.splits)
  next
    case (exit q)
    then have "wq_items (s_wq s) = []" "wq_closed (s_wq s)" using wq.pop_end [OF ok(1) exit(2)] by auto
    then show ?thesis using assms(2) exit sub [of W_Exit] mem(2) by (auto simp: flow_def split: capturer.splits)
  next
    case (pop it q)
    let ?w = "W_Copy it (if s_shared_err s then [] else item_copies it)"
    have "W_Exit \<notin> set (s_writers s)" using assms(2) wq.pop_ok [OF ok(1) pop(2)] by (auto simp: flow_def)
    then show ?thesis
      using assms(2) pop sub [of ?w] mem(1) [of ?w] mem(2) wq.pop_ok [OF ok(1) pop(2)] by (cases "s_cap s") (auto simp: flow_def)
  next
    case (copy it d sec rest)
    then show ?thesis using assms(2) sub [of "W_Copy it rest"] mem(1) [of "W_Copy it rest"] mem(2) by (auto simp: flow_def split: capturer.splits)
  next
    case (release it)
    then show ?thesis using assms(2) sub [of W_Pop] mem(1) [of W_Pop] mem(2) by (cases "s_cap s") (auto simp: flow_def)
  qed
qed

section \<open>The books of the capture thread\<close>

definition books :: "stream_env \<Rightarrow> stream_state \<Rightarrow> bool" where
  "books env s \<longleftrightarrow>
     length (s_caps s) \<le> num_ranges env \<and>
     s_cur_off s = stream_reserve env + sum_list (map cap_bytes (s_caps s)) \<and> s_total s = sum_list (map rc_length (s_caps s)) \<and>
     s_descs s = build_descs (stream_reserve env) (s_caps s) @ replicate (num_ranges env - length (s_caps s)) zero_desc \<and>
     (\<forall>j < length (s_caps s). \<exists>sl. se_capture env j sl = Some (s_caps s ! j)) \<and>
     (case s_cap s of
        C_Acquire i asleep \<Rightarrow> length (s_caps s) = i \<and> \<not> s_err s
      | C_Capture i sl \<Rightarrow> length (s_caps s) = i \<and> i < num_ranges env \<and> \<not> s_err s
      | C_Push i it asleep \<Rightarrow> length (s_caps s) = i + 1 \<and> \<not> s_err s
      | C_Return ok \<Rightarrow> ok = (se_msync env \<and> se_munmap env \<and> \<not> s_err s) \<and> (s_err s \<or> length (s_caps s) = num_ranges env)
      | _ \<Rightarrow> s_err s \<or> length (s_caps s) = num_ranges env)"

lemma build_descs_append: "build_descs off (cs @ [c]) = build_descs off cs @ [desc_of (off + sum_list (map cap_bytes cs)) c]"
  by (induction cs arbitrary: off) (simp_all add: add.assoc)

lemma capture_books:
  assumes "books env s" "s_cap s = C_Capture i sl" "se_capture env i sl = Some c"
  shows "books env (enqueue_item i sl c (s\<lparr>s_bufs := b, s_caps := s_caps s @ [c]\<rparr>))"
proof -
  have n: "length (s_caps s) = i" "i < num_ranges env" "\<not> s_err s" using assms(1,2) by (simp_all add: books_def)
  have "replicate (num_ranges env - i) zero_desc = zero_desc # replicate (num_ranges env - Suc i) zero_desc"
    using n(2) by (metis Suc_diff_Suc replicate_Suc)
  then have "(s_descs s)[i := desc_of (s_cur_off s) c] =
      build_descs (stream_reserve env) (s_caps s @ [c]) @ replicate (num_ranges env - Suc i) zero_desc"
    using assms(1) n(1) by (simp add: books_def build_descs_append list_update_append)
  moreover have "\<exists>sl. se_capture env j sl = Some ((s_caps s @ [c]) ! j)" if "j < Suc i" for j
    using assms(1,3) n(1) that by (cases "j = i") (auto simp: books_def nth_append)
  ultimately show ?thesis
    using assms(1) n by (simp add: books_def enqueue_item_def)
qed

lemma capture_step_books:
  assumes "well_shaped n nw s" "books env s" "capture_step env k s = Some t"
  shows "books env t"
proof (cases "s_cap s")
  case (C_Acquire i b)
  then show ?thesis
    using assms by (auto simp: capture_step_def books_def well_shaped_def split: if_splits option.splits prod.splits)
next
  case (C_Capture i sl)
  then show ?thesis
    using assms capture_books [OF assms(2) C_Capture]
    by (auto simp: capture_step_def split: if_splits option.splits) (auto simp: capture_failed_def books_def)
next
  case (C_Push i it b)
  then show ?thesis
    using assms by (auto simp: capture_step_def books_def split: if_splits option.splits)
next
  case C_Close
  then show ?thesis using assms by (auto simp: capture_step_def books_def)
next
  case C_Join
  then show ?thesis
    using assms by (auto simp: capture_step_def books_def well_shaped_def stream_finish_def split: if_splits)
qed (use assms in \<open>simp add: capture_step_def\<close>)

lemma writer_step_books: "books env s \<Longrightarrow> writer_step k s = Some t \<Longrightarrow> books env t"
  by (erule writer_step_cases; cases "s_cap s") (simp_all add: books_def)

section \<open>All together\<close>

text \<open>The header and the descriptors over the copied sections.\<close>

definition stamped :: "stream_env \<Rightarrow> stream_state \<Rightarrow> mem \<Rightarrow> mem" where
  "stamped env s m = write_mem (write_mem m (hdr_bytes env) (concat (map enc_desc (s_descs s)))) 0 (stream_header env s)"

definition data_inv :: "stream_env \<Rightarrow> mem \<Rightarrow> stream_state \<Rightarrow> bool" where
  "data_inv env m s \<longleftrightarrow>
     (if \<exists>ok. s_cap s = C_Return ok
      then s_map s = stamped env s (write_mem m (stream_reserve env) (concat (map cap_sections (s_caps s))))
      else on_target (stream_reserve env) m s)"

definition caps_wf :: "stream_env \<Rightarrow> bool" where
  "caps_wf env \<longleftrightarrow> (\<forall>j sl c. se_capture env j sl = Some c \<longrightarrow> cap_wf c)"

lemma books_wf: "caps_wf env \<Longrightarrow> books env s \<Longrightarrow> \<forall>c \<in> set (s_caps s). cap_wf c"
  by (auto simp: caps_wf_def books_def in_set_conv_nth) metis

lemma mset_remaining:
  "mset (remaining s) = mset (concat (map item_writes (cap_items (s_cap s)))) + mset (concat (map item_writes (wq_items (s_wq s)))) +
     mset (concat (map writer_writes (s_writers s)))"
  by (simp add: remaining_def)

lemmas writer_writes_signal = concat_map_signal [where f = writer_writes, simplified]

lemma data_inv_running: "s_cap s \<noteq> C_Return True \<Longrightarrow> s_cap s \<noteq> C_Return False \<Longrightarrow> data_inv env m s = on_target (stream_reserve env) m s"
  by (metis (full_types) data_inv_def)

lemma all_exit_remaining:
  assumes "\<forall>w \<in> set (s_writers s). w = W_Exit" "flow env s" "well_shaped n nw s" "0 < nw" "s_cap s = C_Join"
  shows "remaining s = []"
proof -
  have "W_Exit \<in> set (s_writers s)" using assms(1,3,4) by (cases "s_writers s") (auto simp: well_shaped_def)
  then have "wq_items (s_wq s) = []" using assms(2) by (simp add: flow_def)
  moreover have "concat (map writer_writes (s_writers s)) = []" using assms(1) by auto
  ultimately show ?thesis using assms(5) by (simp add: remaining_def)
qed

lemma capture_step_data:
  assumes "well_shaped n nw s" "flow env s" "books env s" "data_inv env m s" "caps_wf env" "0 < nw" "capture_step env k s = Some t"
  shows "data_inv env m t"
proof -
  note wf = books_wf [OF assms(5,3)]
  have ok: "wq_ok (s_wq s)" "\<not> s_shared_err s" using assms(1) by (simp_all add: well_shaped_def)
  show ?thesis
  proof (cases "s_cap s")
    case (C_Acquire i b)
    then have o: "on_target (stream_reserve env) m s" using assms(4) by (simp add: data_inv_def)
    have "on_target (stream_reserve env) m t \<and> s_cap t \<noteq> C_Return True \<and> s_cap t \<noteq> C_Return False"
      using assms(7) C_Acquire
      by (intro conjI on_target_perm [OF o wf]) (auto simp: capture_step_def mset_remaining split: if_splits option.splits prod.splits)
    then show ?thesis by (simp add: data_inv_running)
  next
    case (C_Capture i sl)
    then have o: "on_target (stream_reserve env) m s" using assms(4) by (simp add: data_inv_def)
    have fail: "data_inv env m (capture_failed sl (s\<lparr>s_bufs := b\<rparr>))" for b
      using C_Capture by (subst data_inv_running)
        (auto simp: capture_failed_def mset_remaining intro!: on_target_perm [OF o wf])
    have good: "data_inv env m (enqueue_item i sl c (s\<lparr>s_bufs := b, s_caps := s_caps s @ [c]\<rparr>))" if "cap_wf c" for b c
    proof -
      have "s_cur_off s = stream_reserve env + sum_list (map cap_bytes (s_caps s))" using assms(3) by (simp add: books_def)
      with C_Capture wf that show ?thesis
        by (subst data_inv_running)
           (auto simp: enqueue_item_def remaining_def item_writes_cap intro!: on_target_capture [OF o, of c])
    qed
    show ?thesis
      using assms(5,7) C_Capture fail [of "s_bufs s"] fail good
      by (auto simp: capture_step_def caps_wf_def split: if_splits option.splits)
  next
    case (C_Push i it b)
    then have o: "on_target (stream_reserve env) m s" using assms(4) by (simp add: data_inv_def)
    have "on_target (stream_reserve env) m t \<and> s_cap t \<noteq> C_Return True \<and> s_cap t \<noteq> C_Return False"
      using assms(7) C_Push wq.push_ok [OF ok(1), of it]
      by (intro conjI on_target_perm [OF o wf])
         (auto simp: capture_step_def mset_remaining writer_writes_signal split: if_splits option.splits)
    then show ?thesis by (simp add: data_inv_running)
  next
    case C_Close
    then have o: "on_target (stream_reserve env) m s" using assms(4) by (simp add: data_inv_def)
    have "on_target (stream_reserve env) m t \<and> s_cap t \<noteq> C_Return True \<and> s_cap t \<noteq> C_Return False"
      using assms(7) C_Close wq.close_ok [OF ok(1)]
      by (intro conjI on_target_perm [OF o wf]) (auto simp: capture_step_def mset_remaining writer_writes_signal)
    then show ?thesis by (simp add: data_inv_running)
  next
    case C_Join
    then have all: "\<forall>w \<in> set (s_writers s). w = W_Exit" and t: "t = stream_finish env s"
      using assms(7) by (auto simp: capture_step_def split: if_splits)
    have "s_map s = write_mem m (stream_reserve env) (concat (map cap_sections (s_caps s)))"
      using assms(4) C_Join all_exit_remaining [OF all assms(2,1,6) C_Join] by (simp add: data_inv_def on_target_def)
    moreover have "s_map t = stamped env s (s_map s)" "s_caps t = s_caps s" "\<exists>ok. s_cap t = C_Return ok"
      "s_descs t = s_descs s" "s_total t = s_total s"
      using ok(2) by (simp_all add: t stream_finish_def stamped_def)
    moreover from this(4,5) have "stamped env t x = stamped env s x" for x
      by (simp add: stamped_def stream_header_def split: option.split)
    ultimately show ?thesis by (simp add: data_inv_def)
  qed (use assms(7) in \<open>simp add: capture_step_def\<close>)
qed

lemma signal_return [simp]:
  "signal_push c = C_Return ok \<longleftrightarrow> c = C_Return ok" "signal_acquire c = C_Return ok \<longleftrightarrow> c = C_Return ok"
  by (cases c; simp)+

text \<open>No writer is busy once the capture thread has returned.\<close>

lemma return_no_writer_step:
  assumes "flow env s" "k < length (s_writers s)" "writer_step k s = Some t"
  shows "s_cap s \<noteq> C_Return ok"
proof
  assume "s_cap s = C_Return ok"
  then have "s_writers s ! k = W_Exit" using assms(1) nth_mem [OF assms(2)] by (simp add: flow_def)
  then show False using assms(3) by (simp add: writer_step_def)
qed

lemma writer_step_data:
  assumes "well_shaped n nw s" "flow env s" "books env s" "views_ok s" "data_inv env m s" "caps_wf env"
    and "k < length (s_writers s)" "writer_step k s = Some t"
  shows "data_inv env m t"
proof -
  note wf = books_wf [OF assms(6,3)] and nr = return_no_writer_step [OF assms(2,7,8)]
  have ok: "wq_ok (s_wq s)" "\<not> s_shared_err s" using assms(1) by (simp_all add: well_shaped_def)
  have o: "on_target (stream_reserve env) m s" using assms(5) nr by (simp add: data_inv_def)
  note u = concat_map_update [OF assms(7), of writer_writes]
  have r: "\<forall>ok. s_cap t \<noteq> C_Return ok" using assms(8) nr by (cases rule: writer_step_cases) simp_all
  have "on_target (stream_reserve env) m t"
    using assms(8)
  proof (cases rule: writer_step_cases)
    case (pop it q)
    then have "mset (remaining t) = mset (remaining s)"
      using wq.pop_ok [OF ok(1) pop(2)] u ok(2) by (simp add: mset_remaining item_writes_def)
    then show ?thesis by (rule on_target_perm [OF o wf]) (simp_all add: pop(3))
  next
    case (copy it d sec rest)
    have "it \<in> set (in_flight s)"
      using copy(1) nth_mem [OF assms(7)] by (auto simp: in_flight_def intro!: bexI [of _ "s_writers s ! k"])
    then have v: "item_view (s_bufs s) it = wi_cap it" using assms(4) by (simp add: views_ok_def)
    have "mset (remaining s) = add_mset (d, section_bytes (wi_cap it) sec) (mset (remaining t))"
      using u [of "W_Copy it rest"] copy by (simp add: mset_remaining)
    then show ?thesis by (rule on_target_copy [OF o wf]) (simp_all add: copy(2) v put_bytes_def)
  next
    case sleep
    show ?thesis using u [of W_Sleep] by (intro on_target_perm [OF o wf]) (simp_all add: sleep mset_remaining)
  next
    case (exit q)
    show ?thesis using u [of W_Exit] by (intro on_target_perm [OF o wf]) (simp_all add: exit mset_remaining)
  next
    case (release it)
    show ?thesis using u [of W_Pop] by (intro on_target_perm [OF o wf]) (simp_all add: release mset_remaining)
  qed
  with r show ?thesis by (simp add: data_inv_def)
qed

definition stream_inv :: "stream_env \<Rightarrow> mem \<Rightarrow> nat \<Rightarrow> stream_state \<Rightarrow> bool" where
  "stream_inv env m nw s \<longleftrightarrow> well_shaped (nw * 2) nw s \<and> flow env s \<and> books env s \<and> views_ok s \<and> data_inv env m s \<and> caps_wf env \<and> 0 < nw"

lemma stream_step_inv:
  assumes "stream_step env s t" "stream_inv env m nw s"
  shows "stream_inv env m nw t"
proof -
  have i: "well_shaped (nw * 2) nw s" "flow env s" "books env s" "views_ok s" "data_inv env m s" "caps_wf env" "0 < nw"
    using assms(2) by (simp_all add: stream_inv_def)
  from assms(1) show ?thesis
  proof cases
  case (capture k)
  note st = capture(1)
  show ?thesis
    using capture_step_shape [OF i(1) st] capture_step_flow [OF i(1,2) st i(7)] capture_step_books [OF i(1,3) st]
      capture_step_views [OF i(1,4) st] capture_step_data [OF i(1-3,5-7) st] i(6,7)
    by (simp add: stream_inv_def)
next
  case (writer k)
  note st = writer(1,2)
  show ?thesis
    using writer_step_shape [OF i(1) st] writer_step_flow [OF i(1,2) st] writer_step_books [OF i(3) st(2)]
      writer_step_views [OF i(1,4) st] writer_step_data [OF i(1-6) st] i(6,7)
    by (simp add: stream_inv_def)
  qed
qed

interpretation stream: step_invariant "stream_step env" "stream_inv env m nw" for env m nw
  by unfold_locales (rule stream_step_inv)

lemma stream_init_inv:
  assumes "caps_wf env" "0 < nw" "pool_ok pool" "mset (pool_free pool) = mset [0..<nw * 2]" "cp_n_slots pool = nw * 2"
  shows "stream_inv env m nw (stream_init env nw pool bufs m)"
proof -
  let ?s = "stream_init env nw pool bufs m"
  note q = wq_init_ok [of "nw * 2" zero_item]
  have w: "concat (map writer_items (replicate nw W_Pop)) = []" "concat (map writer_writes (replicate nw W_Pop)) = []" by simp_all
  have "well_shaped (nw * 2) nw ?s"
    using assms q w by (simp add: well_shaped_def stream_init_def held_slots_def in_flight_def)
  moreover have "flow env ?s" using assms(2) q by (simp add: flow_def stream_init_def)
  moreover have "books env ?s" by (simp add: books_def stream_init_def)
  moreover have "views_ok ?s" using q w assms(2) by (simp add: views_ok_def stream_init_def in_flight_def)
  moreover have "data_inv env m ?s"
    using q w assms(2) by (simp add: data_inv_def on_target_def stream_init_def remaining_def)
  ultimately show ?thesis using assms by (simp add: stream_inv_def)
qed

end
