(* ===== verification/Stream_Props.thy ===== *)
theory Stream_Props
  imports Stream_Inv
begin

text \<open>
  What the streaming writer guarantees: the image on every schedule, that it always finishes, and that
  every copy stays inside the mapping and reads a buffer nobody else owns.
\<close>

section \<open>Progress\<close>

text \<open>The weight of the work ahead of a thread.\<close>

fun cap_work :: "nat \<Rightarrow> capturer \<Rightarrow> nat" where
  "cap_work n (C_Acquire i asleep) = (n - i) * 10 + 5"
| "cap_work n (C_Capture i sl) = (n - i) * 10 + 4"
| "cap_work n (C_Push i it asleep) = (n - i) * 10 + 3"
| "cap_work n C_Close = 2"
| "cap_work n C_Join = 1"
| "cap_work n (C_Return ok) = 0"

fun writer_work :: "writer \<Rightarrow> nat" where
  "writer_work (W_Copy it rest) = 2 + length rest"
| "writer_work W_Exit = 0"
| "writer_work _ = 1"

text \<open>Being awake without work in hand weighs a little: falling asleep is progress.\<close>

fun cap_awake :: "capturer \<Rightarrow> nat" where
  "cap_awake (C_Acquire i asleep) = (if asleep then 0 else 1)"
| "cap_awake (C_Push i it asleep) = (if asleep then 0 else 1)"
| "cap_awake _ = 0"

fun writer_awake :: "writer \<Rightarrow> nat" where
  "writer_awake W_Pop = 1"
| "writer_awake _ = 0"

definition work :: "stream_env \<Rightarrow> stream_state \<Rightarrow> nat" where
  "work env s = cap_work (num_ranges env) (s_cap s) + 7 * wq_count (s_wq s) + sum_list (map writer_work (s_writers s))"

definition awake :: "stream_state \<Rightarrow> nat" where
  "awake s = cap_awake (s_cap s) + sum_list (map writer_awake (s_writers s))"

definition stream_rank :: "stream_env \<Rightarrow> stream_state \<Rightarrow> nat" where
  "stream_rank env s = work env s * (length (s_writers s) + 2) + awake s"

lemma sum_list_update:
  "k < length ws \<Longrightarrow> sum_list (map f (ws[k := w])) + f (ws ! k) = sum_list (map f ws) + (f w :: nat)"
proof (induction ws arbitrary: k)
  case (Cons a ws)
  then show ?case by (cases k) (auto simp: ac_simps)
qed simp

lemma work_signal: "sum_list (map writer_work (signal k ws)) = sum_list (map writer_work ws)"
  "sum_list (map writer_work (broadcast ws)) = sum_list (map writer_work ws)"
proof -
  have "sum_list (map writer_work (wake_first ws)) = sum_list (map writer_work ws)" by (induction ws) auto
  moreover have "sum_list (map writer_work (ws[k := W_Pop])) = sum_list (map writer_work ws)" if "k < length ws" "ws ! k = W_Sleep"
    using sum_list_update [OF that(1), of writer_work W_Pop] that(2) by simp
  ultimately show "sum_list (map writer_work (signal k ws)) = sum_list (map writer_work ws)" by (simp add: signal_def)
  show "sum_list (map writer_work (broadcast ws)) = sum_list (map writer_work ws)" by (induction ws) (auto simp: broadcast_def)
qed

lemma awake_le: "awake s \<le> length (s_writers s) + 1"
proof -
  have "sum_list (map writer_awake ws) \<le> length ws" for ws
  proof (induction ws)
    case (Cons w ws)
    then show ?case by (cases w) auto
  qed simp
  moreover have "cap_awake c \<le> 1" for c by (cases c) auto
  ultimately show ?thesis unfolding awake_def by (metis add.commute add_mono)
qed

text \<open>Every step reduces the work, or leaves it and puts a thread to sleep.\<close>

lemma rank_by_work:
  assumes "work env t < work env s" "length (s_writers t) = length (s_writers s)"
  shows "stream_rank env t < stream_rank env s"
proof -
  let ?l = "length (s_writers s) + 2"
  have "work env t * ?l + ?l \<le> work env s * ?l"
    using assms(1) by (metis Suc_leI add.commute mult_Suc mult_le_mono1)
  moreover have "awake t < ?l" using awake_le [of t] assms(2) by simp
  ultimately show ?thesis using assms(2) by (simp add: stream_rank_def)
qed

lemma rank_by_sleep:
  assumes "work env t = work env s" "length (s_writers t) = length (s_writers s)" "awake t < awake s"
  shows "stream_rank env t < stream_rank env s"
  using assms by (simp add: stream_rank_def)

lemma capture_step_rank:
  assumes "well_shaped n nw s" "books env s" "capture_step env k s = Some t"
  shows "stream_rank env t < stream_rank env s"
proof (cases "s_cap s")
  case (C_Acquire i b)
  show ?thesis
  proof (cases "s_cap t = C_Acquire i True")
    case True
    then have "t = s\<lparr>s_cap := C_Acquire i True\<rparr>" "\<not> b"
      using assms(3) C_Acquire by (auto simp: capture_step_def split: if_splits option.splits)
    then show ?thesis using C_Acquire by (intro rank_by_sleep) (simp_all add: work_def awake_def)
  next
    case False
    then show ?thesis
      using assms(3) C_Acquire
      by (intro rank_by_work) (auto simp: capture_step_def work_def split: if_splits option.splits)
  qed
next
  case (C_Capture i sl)
  then show ?thesis
    using assms(3)
    by (intro rank_by_work)
       (auto simp: capture_step_def work_def capture_failed_def enqueue_item_def split: if_splits option.splits)
next
  case (C_Push i it b)
  have i: "i < num_ranges env" using assms(2) C_Push by (simp add: books_def)
  have ok: "wq_ok (s_wq s)" using assms(1) by (simp add: well_shaped_def)
  show ?thesis
  proof (cases "baseline_wq_push it (s_wq s)")
    case None
    then have "t = s\<lparr>s_cap := C_Push i it True\<rparr>" "\<not> b"
      using assms(3) C_Push by (auto simp: capture_step_def split: if_splits)
    then show ?thesis using C_Push by (intro rank_by_sleep) (simp_all add: work_def awake_def)
  next
    case (Some q)
    then have c: "wq_count q = wq_count (s_wq s) + 1" by (auto simp: baseline_wq_push_def split: if_splits)
    have "(num_ranges env - i) * 10 = (num_ranges env - Suc i) * 10 + 10" using i by simp
    then show ?thesis
      using assms(3) C_Push Some c
      by (intro rank_by_work) (auto simp: capture_step_def work_def work_signal split: if_splits)
  qed
next
  case C_Close
  then show ?thesis
    using assms(3)
    by (intro rank_by_work) (auto simp: capture_step_def work_def work_signal baseline_wq_close_def)
next
  case C_Join
  then show ?thesis
    using assms(3)
    by (intro rank_by_work) (auto simp: capture_step_def work_def stream_finish_def split: if_splits)
qed (use assms in \<open>simp add: capture_step_def\<close>)

lemma cap_work_signal [simp]:
  "cap_work n (signal_push c) = cap_work n c" "cap_work n (signal_acquire c) = cap_work n c"
  by (cases c; simp)+

lemma item_copies_length: "length (item_copies it) \<le> 4"
  by (simp add: item_copies_def Let_def)

lemma writer_step_rank:
  assumes "k < length (s_writers s)" "writer_step k s = Some t"
  shows "stream_rank env t < stream_rank env s"
proof -
  note u = sum_list_update [OF assms(1), of writer_work] and a = sum_list_update [OF assms(1), of writer_awake]
  from assms(2) show ?thesis
  proof (cases rule: writer_step_cases)
    case sleep
    then show ?thesis using u [of W_Sleep] a [of W_Sleep] by (intro rank_by_sleep) (simp_all add: work_def awake_def)
  next
    case (exit q)
    then show ?thesis using u [of W_Exit] by (intro rank_by_work) (simp_all add: work_def)
  next
    case (pop it q)
    let ?w = "W_Copy it (if s_shared_err s then [] else item_copies it)"
    have "wq_count (s_wq s) = wq_count q + 1" using pop(2) by (auto simp: baseline_wq_pop_def split: if_splits)
    moreover have "writer_work ?w \<le> 6" using item_copies_length [of it] by simp
    ultimately show ?thesis using u [of ?w] pop(1,3) by (intro rank_by_work) (simp_all add: work_def)
  next
    case (copy it d sec rest)
    then show ?thesis using u [of "W_Copy it rest"] by (intro rank_by_work) (simp_all add: work_def)
  next
    case (release it)
    then show ?thesis using u [of W_Pop] by (intro rank_by_work) (simp_all add: work_def)
  qed
qed

lemma stream_step_rank: "stream_step env s t \<Longrightarrow> stream_inv env m nw s \<Longrightarrow> stream_rank env t < stream_rank env s"
  by (auto elim!: stream_step.cases simp: stream_inv_def intro: capture_step_rank writer_step_rank)

text \<open>A writer that is awake can go on.\<close>

lemma awake_writer_steps:
  assumes "k < length (s_writers s)" "s_writers s ! k \<noteq> W_Sleep" "s_writers s ! k \<noteq> W_Exit"
  shows "\<exists>t. stream_step env s t"
proof -
  have "\<exists>t. writer_step k s = Some t"
    using assms(2,3) by (cases "s_writers s ! k") (auto simp: writer_step_def split: option.splits list.splits)
  then show ?thesis using stream_step.writer [OF assms(1)] by blast
qed

lemma awake_somewhere:
  assumes "\<exists>w \<in> set (s_writers s). w \<noteq> W_Sleep \<and> w \<noteq> W_Exit"
  shows "\<exists>t. stream_step env s t"
  using assms awake_writer_steps by (metis in_set_conv_nth)

lemma stream_progress:
  assumes "stream_inv env m nw s" "\<forall>ok. s_cap s \<noteq> C_Return ok"
  shows "\<exists>t. stream_step env s t"
proof -
  have i: "well_shaped (nw * 2) nw s" "flow env s" "0 < nw" using assms(1) by (simp_all add: stream_inv_def)
  have cap: "capture_step env 0 s \<noteq> None \<Longrightarrow> ?thesis" using stream_step.capture by blast
  have busy: "wq_items (s_wq s) \<noteq> [] \<Longrightarrow> ?thesis" using i(2) awake_somewhere by (simp add: flow_def)
  show ?thesis
  proof (cases "s_cap s")
    case (C_Acquire n b)
    show ?thesis
    proof (cases b)
      case True
      then have "pool_free (s_pool s) = []" using i(2) C_Acquire by (simp add: flow_def)
      then have "in_flight s \<noteq> []" using held_size [OF i(1)] C_Acquire i(3) by auto
      then consider "wq_items (s_wq s) \<noteq> []" | w where "w \<in> set (s_writers s)" "writer_items w \<noteq> []"
        using C_Acquire by (auto simp: in_flight_def)
      then show ?thesis
      proof cases
        case 2
        then have "w \<noteq> W_Sleep \<and> w \<noteq> W_Exit" by auto
        with 2(1) show ?thesis using awake_somewhere by blast
      qed (rule busy)
    qed (rule cap, use C_Acquire in \<open>auto simp: capture_step_def split: option.splits\<close>)
  next
    case (C_Push n it b)
    show ?thesis
    proof (cases b)
      case True
      then have "wq_items (s_wq s) \<noteq> []" using i C_Push by (auto simp: flow_def well_shaped_def wq_items_Nil)
      then show ?thesis by (rule busy)
    qed (rule cap, use C_Push in \<open>auto simp: capture_step_def split: option.splits\<close>)
  next
    case C_Join
    show ?thesis
    proof (cases "\<forall>w \<in> set (s_writers s). w = W_Exit")
      case False
      moreover have "W_Sleep \<notin> set (s_writers s)" using i(2) C_Join by (auto simp: flow_def)
      ultimately have "\<exists>w \<in> set (s_writers s). w \<noteq> W_Sleep \<and> w \<noteq> W_Exit" by metis
      then show ?thesis by (rule awake_somewhere)
    qed (rule cap, use C_Join in \<open>simp add: capture_step_def\<close>)
  qed (rule cap, use assms(2) in \<open>auto simp: capture_step_def split: option.splits\<close>)+
qed

text \<open>No run goes on for ever, and a run can only stop when the capture thread has returned.\<close>

lemma no_infinite_run:
  assumes "stream_inv env m nw (f 0)" "\<forall>i. stream_step env (f i) (f (Suc i))"
  shows False
proof -
  have inv: "stream_inv env m nw (f i)" for i
  proof (induction i)
    case (Suc i)
    then show ?case using stream_step_inv [OF assms(2) [rule_format]] by blast
  qed (rule assms(1))
  have "stream_rank env (f i) + i \<le> stream_rank env (f 0)" for i
  proof (induction i)
    case (Suc i)
    with stream_step_rank [OF assms(2) [rule_format, of i] inv] show ?case by simp
  qed simp
  from this [of "Suc (stream_rank env (f 0))"] show False by simp
qed

lemma stream_returns:
  assumes "stream_inv env m nw s"
  shows "\<exists>t ok. stream_run env s t \<and> s_cap t = C_Return ok"
  using assms
proof (induction "stream_rank env s" arbitrary: s rule: less_induct)
  case less
  show ?case
  proof (cases "\<exists>ok. s_cap s = C_Return ok")
    case False
    then obtain t where t: "stream_step env s t" using stream_progress [OF less.prems] by blast
    from less.hyps [OF stream_step_rank [OF t less.prems] stream_step_inv [OF t less.prems]] t show ?thesis
      by (meson converse_rtranclp_into_rtranclp)
  qed blast
qed

text \<open>The only cause of an error flag.\<close>

definition err_cause :: "stream_env \<Rightarrow> stream_state \<Rightarrow> bool" where
  "err_cause env s \<longleftrightarrow> (case s_cap s of C_Capture i sl \<Rightarrow> i < num_ranges env | _ \<Rightarrow> True) \<and>
     (s_err s \<longrightarrow> (\<exists>i < num_ranges env. \<not> se_calloc env i \<or> (\<exists>sl. se_capture env i sl = None)))"

lemma capture_step_err: "err_cause env s \<Longrightarrow> capture_step env k s = Some t \<Longrightarrow> err_cause env t"
  by (cases "s_cap s")
     (auto simp: err_cause_def capture_step_def capture_failed_def enqueue_item_def stream_finish_def split: if_splits option.splits)

lemma writer_step_err: "err_cause env s \<Longrightarrow> writer_step k s = Some t \<Longrightarrow> err_cause env t"
  by (erule writer_step_cases; cases "s_cap s") (auto simp: err_cause_def)

interpretation stream_err: step_invariant "stream_step env" "err_cause env" for env
  by unfold_locales (auto elim!: stream_step.cases intro: capture_step_err writer_step_err)

section \<open>Starting and the image\<close>

definition stream_image :: "stream_env \<Rightarrow> range_capture list \<Rightarrow> byte list" where
  "stream_image env caps =
     (case se_delta env of None \<Rightarrow> base_image caps (se_version env) | Some (va, sz, dirty) \<Rightarrow> delta_image caps va sz dirty)"

lemma resolve_workers_pos: "0 < baseline_stream_resolve_workers req" "baseline_stream_resolve_workers req \<le> 16"
  by (auto simp: baseline_stream_resolve_workers_def Let_def split: option.splits)

text \<open>The stream as \<open>main\<close> sets it up: a pool of twice as many slots as writers.\<close>

definition stream_started ::
  "io_env \<Rightarrow> (nat \<Rightarrow> bool) \<Rightarrow> stream_env \<Rightarrow> (nat \<Rightarrow> range_capture) \<Rightarrow> ckpt_file \<Rightarrow> stream_state \<Rightarrow> ckpt_file \<Rightarrow> bool" where
  "stream_started io threads env bufs old s0 f \<longleftrightarrow> caps_wf env \<and>
     (\<exists>pool shm len. capture_pool_init io shm (baseline_stream_resolve_workers (io_writers io) * 2) len = Some pool \<and>
        baseline_stream_start io threads env pool bufs old = Some (s0, f))"

lemma started_inv:
  assumes "stream_started io threads env bufs old s0 f"
  shows "stream_inv env (fl_bytes f) (baseline_stream_resolve_workers (io_writers io)) s0 \<and> err_cause env s0 \<and>
    baseline_worst_case_size env \<le> fl_size f \<and> s_map s0 = fl_bytes f"
proof -
  let ?nw = "baseline_stream_resolve_workers (io_writers io)"
  obtain pool shm len where p: "capture_pool_init io shm (?nw * 2) len = Some pool"
    and st: "baseline_stream_start io threads env pool bufs old = Some (s0, f)" and wf: "caps_wf env"
    using assms by (auto simp: stream_started_def)
  have "pool = pool_full (?nw * 2)" using p by (auto simp: capture_pool_init_def Let_def split: if_splits option.splits)
  then have pool: "pool_ok pool" "mset (pool_free pool) = mset [0..<?nw * 2]" "cp_n_slots pool = ?nw * 2"
    using pool_full_ok [of "?nw * 2"] by simp_all
  have s0: "s0 = stream_init env ?nw pool bufs (fl_bytes f)" "baseline_worst_case_size env \<le> fl_size f"
    using st by (auto simp: baseline_stream_start_def Let_def file_resize_def split: if_splits)
  show ?thesis
    using stream_init_inv [OF wf resolve_workers_pos(1) pool, of "fl_bytes f" bufs] s0
    by (simp add: err_cause_def) (simp add: stream_init_def)
qed

lemma stamped_image:
  assumes "s_descs s = build_descs (stream_reserve env) caps" "s_total s = sum_list (map rc_length caps)" "length caps = num_ranges env"
  shows "stamped env s (write_mem m (stream_reserve env) (concat (map cap_sections caps))) = write_mem m 0 (stream_image env caps)"
proof -
  let ?d = "concat (map enc_desc (build_descs (stream_reserve env) caps))" and ?x = "concat (map cap_sections caps)"
  let ?h = "stream_header env s"
  have lh: "length ?h = hdr_bytes env" by (auto simp: stream_header_def hdr_bytes_def split: option.splits)
  have ld: "length ?d = num_ranges env * DESC_SIZE" using assms(3) by simp
  have img: "stream_image env caps = ?h @ ?d @ ?x"
    using assms
    by (auto simp: stream_image_def stream_header_def base_image_def delta_image_def stream_reserve_def hdr_bytes_def v2_data_off_def
        delta_data_off_def split: option.splits)
  have "write_mem m 0 (?h @ ?d @ ?x) = write_mem (write_mem (write_mem m 0 ?h) (hdr_bytes env) ?d) (stream_reserve env) ?x"
    using write_mem_append [of m 0 ?h "?d @ ?x"] write_mem_append [of "write_mem m 0 ?h" "hdr_bytes env" ?d ?x] lh ld
    by (simp add: stream_reserve_def)
  also have "\<dots> = write_mem (write_mem (write_mem m 0 ?h) (stream_reserve env) ?x) (hdr_bytes env) ?d"
    by (rule write_mem_commute) (use ld in \<open>simp add: stream_reserve_def\<close>)
  also have "write_mem (write_mem m 0 ?h) (stream_reserve env) ?x = write_mem (write_mem m (stream_reserve env) ?x) 0 ?h"
    by (rule write_mem_commute) (use lh in \<open>simp add: stream_reserve_def\<close>)
  also have "write_mem (write_mem (write_mem m (stream_reserve env) ?x) 0 ?h) (hdr_bytes env) ?d =
      write_mem (write_mem (write_mem m (stream_reserve env) ?x) (hdr_bytes env) ?d) 0 ?h"
    by (rule write_mem_commute) (use lh in simp)
  finally show ?thesis by (simp add: stamped_def img assms(1))
qed

section \<open>Where the copies go\<close>

text \<open>What a capture of a range of \<open>sz\<close> bytes can be at most.\<close>

definition cap_fits :: "nat \<Rightarrow> range_capture \<Rightarrow> bool" where
  "cap_fits sz c \<longleftrightarrow> rc_n_pages c = sz div 4096 \<and> rc_cpu_bytes c + rc_gpu_bytes c \<le> sz \<and> rc_enc_count c \<le> sz div 4096"

lemma cap_fits_bytes: "cap_fits sz c \<Longrightarrow> cap_bytes c \<le> sz div 4096 + sz + sz div 4096 * META_SIZE"
  by (auto simp: cap_fits_def cap_bytes_def cap_meta_bytes_def)

lemma contig_le: "contig p ws \<Longrightarrow> w \<in> set ws \<Longrightarrow> p \<le> fst w \<and> fst w + length (snd w) \<le> p + length (concat (map snd ws))"
proof (induction ws arbitrary: p)
  case (Cons v ws)
  then show ?case using Cons.IH [of "p + length (snd v)"] by (cases "w = v") fastforce+
qed simp

lemma sum_caps_bound:
  assumes "length cs \<le> length szs" "\<forall>j < length cs. g (cs ! j) \<le> (h (szs ! j) :: nat)"
  shows "sum_list (map g cs) \<le> sum_list (map h szs)"
  using assms
proof (induction cs arbitrary: szs)
  case (Cons c cs)
  then obtain z zs where z: "szs = z # zs" by (cases szs) auto
  have "\<forall>j < length cs. g (cs ! j) \<le> h (zs ! j)" using Cons.prems(2) z by (auto dest: spec [of _ "Suc j" for j])
  then have "sum_list (map g cs) \<le> sum_list (map h zs)" using Cons.IH Cons.prems(1) z by simp
  moreover have "g c \<le> h z" using Cons.prems(2) z by auto
  ultimately show ?case by (simp add: z)
qed simp

lemma remaining_copy:
  "k < length (s_writers s) \<Longrightarrow> s_writers s ! k = W_Copy it ((d, sec) # rest) \<Longrightarrow> (d, section_bytes (wi_cap it) sec) \<in> set (remaining s)"
  using nth_mem [of k "s_writers s"] by (auto simp: remaining_def intro!: bexI [of _ "s_writers s ! k"])

lemma copy_in_place:
  assumes "stream_inv env m nw s" "k < length (s_writers s)" "s_writers s ! k = W_Copy it ((d, sec) # rest)"
    and "\<forall>j sl c. j < num_ranges env \<longrightarrow> se_capture env j sl = Some c \<longrightarrow> cap_fits (se_sizes env ! j) c"
  shows "stream_reserve env \<le> d \<and> d + length (section_bytes (item_view (s_bufs s) it) sec) \<le> baseline_worst_case_size env"
proof -
  have i: "flow env s" "books env s" "views_ok s" "data_inv env m s" "caps_wf env" using assms(1) by (simp_all add: stream_inv_def)
  note wf = books_wf [OF i(5,2)]
  have "\<forall>ok. s_cap s \<noteq> C_Return ok" using i(1) assms(3) nth_mem [OF assms(2)] by (auto simp: flow_def)
  then have "mset (remaining s) \<subseteq># mset (all_writes (stream_reserve env) (s_caps s))"
    using i(4) by (simp add: data_inv_def on_target_def)
  then have "(d, section_bytes (wi_cap it) sec) \<in> set (all_writes (stream_reserve env) (s_caps s))"
    using remaining_copy [OF assms(2,3)] set_mset_mono by fastforce
  from contig_le [OF _ this] all_writes_contig [OF wf, of "stream_reserve env"]
  have le: "stream_reserve env \<le> d" "d + length (section_bytes (wi_cap it) sec) \<le> stream_reserve env + sum_list (map cap_bytes (s_caps s))"
    using length_sections [OF wf] by simp_all
  have "it \<in> set (in_flight s)"
    using assms(3) nth_mem [OF assms(2)] by (auto simp: in_flight_def intro!: bexI [of _ "s_writers s ! k"])
  then have v: "item_view (s_bufs s) it = wi_cap it" using i(3) by (simp add: views_ok_def)
  have n: "length (s_caps s) \<le> length (se_sizes env)" using i(2) by (simp add: books_def num_ranges_def)
  have "\<forall>j < length (s_caps s). cap_bytes (s_caps s ! j) \<le> se_sizes env ! j div 4096 + se_sizes env ! j + se_sizes env ! j div 4096 * META_SIZE"
    using i(2) assms(4) cap_fits_bytes by (metis books_def less_le_trans)
  from sum_caps_bound [OF n this] le v show ?thesis
    by (simp add: baseline_worst_case_size_def)
qed

section \<open>A sample stream\<close>

definition sample_stream :: "(nat \<times> nat \<times> nat) option \<Rightarrow> stream_env" where
  "sample_stream delta =
     \<lparr>se_sizes = [rc_length demo_cap, rc_length demo_cap], se_calloc = (\<lambda>_. True), se_capture = (\<lambda>_ _. Some demo_cap), se_rest = (\<lambda>_. demo_cap),
      se_version = 3, se_delta = delta, se_msync = True, se_munmap = True\<rparr>"

definition sample_file :: ckpt_file where
  "sample_file = \<lparr>fl_size = 0, fl_bytes = (\<lambda>_. 0)\<rparr>"

definition sample_start :: "(nat \<times> nat \<times> nat) option \<Rightarrow> stream_state \<times> ckpt_file" where
  "sample_start delta =
     the (baseline_stream_start good_io (\<lambda>_. True) (sample_stream delta) (pool_full 8) (\<lambda>_. demo_cap) sample_file)"

lemma good_io_started:
  assumes "caps_wf env"
  shows "\<exists>s0 f. baseline_stream_start good_io (\<lambda>_. True) env (pool_full 8) bufs old = Some (s0, f) \<and>
    stream_started good_io (\<lambda>_. True) env bufs old s0 f"
proof -
  have nw: "baseline_stream_resolve_workers (io_writers good_io) = 4"
    by (simp add: baseline_stream_resolve_workers_def good_io_def)
  have "capture_pool_init good_io (Some (2 * 8 * pool_stride 0)) 8 0 = Some (pool_full 8)"
    by (simp add: capture_pool_init_def good_io_def)
  moreover obtain s0 f where "baseline_stream_start good_io (\<lambda>_. True) env (pool_full 8) bufs old = Some (s0, f)"
    by (simp add: baseline_stream_start_def good_io_def Let_def)
  ultimately show ?thesis using assms unfolding stream_started_def nw by force
qed

lemma sample_started:
  "stream_started good_io (\<lambda>_. True) (sample_stream delta) (\<lambda>_. demo_cap) sample_file (fst (sample_start delta)) (snd (sample_start delta))"
proof -
  have "caps_wf (sample_stream delta)" using demo_cap_wf by (simp add: caps_wf_def sample_stream_def)
  from good_io_started [OF this, of "\<lambda>_. demo_cap" sample_file] show ?thesis by (auto simp: sample_start_def)
qed

lemma stream_succeeds:
  assumes "stream_started io threads env bufs old s0 f" "se_msync env" "se_munmap env"
    and "\<And>i. i < num_ranges env \<Longrightarrow> se_calloc env i \<and> (\<forall>sl. se_capture env i sl \<noteq> None)"
  shows "\<exists>s. stream_run env s0 s \<and> s_cap s = C_Return True"
proof -
  note inv = started_inv [OF assms(1)]
  then obtain s ok where s: "stream_run env s0 s" "s_cap s = C_Return ok" using stream_returns by blast
  have b: "books env s" using stream.steps_inv [OF s(1)] inv by (auto simp: stream_inv_def)
  have "err_cause env s" using stream_err.steps_inv [OF s(1)] inv by blast
  then have "\<not> s_err s" using assms(4) unfolding err_cause_def by blast
  then have "ok" using b s(2) assms(2,3) by (simp add: books_def)
  with s show ?thesis by auto
qed

section \<open>Properties\<close>

text \<open>
  C27: the ring buffer of the streaming writer refines a bounded FIFO queue of the items it holds: a push
  blocks exactly when the queue is full and appends otherwise; a pop takes the oldest item, blocks
  exactly when the queue is empty and open, and reports the end exactly when it is empty and closed.
\<close>

theorem work_queue_refines_fifo:
  assumes "wq_ok q"
  shows "(case baseline_wq_push x q of
       None \<Rightarrow> length (wq_items q) = wq_capacity q
     | Some q' \<Rightarrow> length (wq_items q) < wq_capacity q \<and> wq_ok q' \<and> wq_items q' = wq_items q @ [x]) \<and>
   (case baseline_wq_pop q of
       None \<Rightarrow> wq_items q = [] \<and> \<not> wq_closed q
     | Some (None, q') \<Rightarrow> wq_items q = [] \<and> wq_closed q \<and> q' = q
     | Some (Some y, q') \<Rightarrow> wq_ok q' \<and> wq_items q = y # wq_items q') \<and>
   wq_items (baseline_wq_close q) = wq_items q \<and> wq_closed (baseline_wq_close q)"
proof (intro conjI)
  show "case baseline_wq_push x q of
       None \<Rightarrow> length (wq_items q) = wq_capacity q
     | Some q' \<Rightarrow> length (wq_items q) < wq_capacity q \<and> wq_ok q' \<and> wq_items q' = wq_items q @ [x]"
    using wq.push_full [OF assms, of x] wq.push_ok [OF assms, of x] wq.within [OF assms]
    by (cases "baseline_wq_push x q") (auto simp del: length_wq_items)
  show "case baseline_wq_pop q of
       None \<Rightarrow> wq_items q = [] \<and> \<not> wq_closed q
     | Some (None, q') \<Rightarrow> wq_items q = [] \<and> wq_closed q \<and> q' = q
     | Some (Some y, q') \<Rightarrow> wq_ok q' \<and> wq_items q = y # wq_items q'"
  proof (cases "baseline_wq_pop q")
    case None
    then show ?thesis using wq.pop_blocks [OF assms] by simp
  next
    case (Some r)
    then show ?thesis
      using wq.pop_end [OF assms, of "snd r"] wq.pop_ok [OF assms, of "the (fst r)" "snd r"] by (cases r; cases "fst r") simp_all
  qed
qed (use wq.close_ok [OF assms] in auto)

theorem work_queue_refines_fifo_witness:
  "wq_items (the (baseline_wq_push (7::nat) (baseline_wq_init 0 2))) = [7]"
proof (cases "baseline_wq_push (7::nat) (baseline_wq_init 0 2)")
  case None
  then show ?thesis by (simp add: baseline_wq_push_def baseline_wq_init_def)
next
  case (Some q')
  then show ?thesis
    using work_queue_refines_fifo [of "baseline_wq_init 0 2" "7::nat"] wq_init_ok [of 2 "0::nat"] by simp
qed

lemma stream_success:
  assumes "stream_started io threads env bufs old s0 f" "stream_run env s0 s" "s_cap s = C_Return True"
  shows "read_mem (s_map s) 0 (length (stream_image env (s_caps s))) = stream_image env (s_caps s) \<and>
    length (s_caps s) = num_ranges env \<and> (\<forall>j < num_ranges env. \<exists>sl. se_capture env j sl = Some (s_caps s ! j))"
proof -
  let ?nw = "baseline_stream_resolve_workers (io_writers io)"
  have inv: "stream_inv env (fl_bytes f) ?nw s" using stream.steps_inv [OF assms(2)] started_inv [OF assms(1)] by blast
  then have b: "books env s" and d: "data_inv env (fl_bytes f) s" by (simp_all add: stream_inv_def)
  have n: "length (s_caps s) = num_ranges env" using b assms(3) by (auto simp: books_def)
  have "s_map s = stamped env s (write_mem (fl_bytes f) (stream_reserve env) (concat (map cap_sections (s_caps s))))"
    using d assms(3) by (auto simp: data_inv_def split: if_splits)
  then have "s_map s = write_mem (fl_bytes f) 0 (stream_image env (s_caps s))"
    using b n stamped_image [of s env "s_caps s" "fl_bytes f"] by (simp add: books_def)
  then show ?thesis using b n by (simp add: read_write_same books_def)
qed

text \<open>
  C24: whenever the stream of captures returns success, on every schedule of the capture thread and the
  writers, the file starts with exactly the baseline (or delta) image of the captures of all
  ranges, in the order of the ranges, although their sections were copied in any order.
\<close>

theorem stream_image_correct:
  assumes "stream_started io threads env bufs old s0 f" "stream_run env s0 s" "s_cap s = C_Return True"
  shows "read_mem (s_map s) 0 (length (stream_image env (s_caps s))) = stream_image env (s_caps s) \<and>
    length (s_caps s) = num_ranges env \<and> (\<forall>j < num_ranges env. \<exists>sl. se_capture env j sl = Some (s_caps s ! j))"
  using stream_success [OF assms] .

theorem stream_image_correct_witness:
  "\<exists>s. stream_run (sample_stream None) (fst (sample_start None)) s \<and> length (s_caps s) = 2 \<and>
     read_mem (s_map s) 0 (length (base_image (s_caps s) 3)) = base_image (s_caps s) 3"
proof -
  obtain s where s: "stream_run (sample_stream None) (fst (sample_start None)) s" "s_cap s = C_Return True"
    using stream_succeeds [OF sample_started [of None]] by (auto simp: sample_stream_def)
  with stream_image_correct [OF sample_started s] show ?thesis
    by (auto simp: stream_image_def num_ranges_def sample_stream_def)
qed

text \<open>
  C26: the streaming writer always comes to an end: no schedule goes on for ever, and none stops before
  the capture thread has returned, so no thread waits for a wake-up that never comes. When no
  allocation, capture or system call fails it returns success.
\<close>

theorem stream_always_finishes:
  assumes "stream_started io threads env bufs old s0 f"
  shows "\<not> (\<exists>r. r 0 = s0 \<and> (\<forall>i. stream_step env (r i) (r (Suc i)))) \<and>
    (\<forall>s. stream_run env s0 s \<and> (\<nexists>t. stream_step env s t) \<longrightarrow>
       (\<exists>ok. s_cap s = C_Return ok \<and>
         ((\<forall>i < num_ranges env. se_calloc env i \<and> (\<forall>sl. se_capture env i sl \<noteq> None)) \<and> se_msync env \<and> se_munmap env \<longrightarrow> ok)))"
proof (intro conjI allI impI notI)
  note inv = started_inv [OF assms]
  show False if "\<exists>r. r 0 = s0 \<and> (\<forall>i. stream_step env (r i) (r (Suc i)))"
    using that no_infinite_run inv by blast
  fix s assume s: "stream_run env s0 s \<and> (\<nexists>t. stream_step env s t)"
  then have i: "stream_inv env (fl_bytes f) (baseline_stream_resolve_workers (io_writers io)) s"
    using stream.steps_inv inv by blast
  then obtain ok where ok: "s_cap s = C_Return ok" using stream_progress s by blast
  have b: "books env s" using i by (simp add: stream_inv_def)
  have e: "err_cause env s" using stream_err.steps_inv s inv by blast
  have "ok" if h: "\<forall>i < num_ranges env. se_calloc env i \<and> (\<forall>sl. se_capture env i sl \<noteq> None)" "se_msync env \<and> se_munmap env"
  proof -
    have "\<not> s_err s" using e h(1) unfolding err_cause_def by blast
    then show ok using b h(2) ok by (simp add: books_def)
  qed
  then show "\<exists>ok. s_cap s = C_Return ok \<and>
      ((\<forall>i < num_ranges env. se_calloc env i \<and> (\<forall>sl. se_capture env i sl \<noteq> None)) \<and> se_msync env \<and> se_munmap env \<longrightarrow> ok)"
    using ok by blast
qed

theorem stream_always_finishes_witness:
  "\<not> (\<exists>r. r 0 = fst (sample_start (Some (1, 2, 3))) \<and> (\<forall>i. stream_step (sample_stream (Some (1, 2, 3))) (r i) (r (Suc i))))"
  using stream_always_finishes [OF sample_started [of "Some (1, 2, 3)"]] by blast

text \<open>
  C25: while the stream runs every buffer slot has exactly one owner (the free stack, the capture thread, one
  queued item or one writer), the buffers a writer copies from hold the capture they held when
  it was made, and when captures are no larger than their ranges every copy stays inside the mapped
  file, behind the descriptor table.
\<close>

theorem stream_copies_safe:
  assumes "stream_started io threads env bufs old s0 f" "stream_run env s0 s"
    and "\<forall>j sl c. j < num_ranges env \<longrightarrow> se_capture env j sl = Some c \<longrightarrow> cap_fits (se_sizes env ! j) c"
    and "k < length (s_writers s)" "s_writers s ! k = W_Copy it ((d, sec) # rest)"
  shows "mset (held_slots s) = mset [0..<2 * length (s_writers s)] \<and> item_view (s_bufs s) it = wi_cap it \<and>
    stream_reserve env \<le> d \<and> d + length (section_bytes (item_view (s_bufs s) it) sec) \<le> baseline_worst_case_size env \<and>
    baseline_worst_case_size env \<le> fl_size f"
proof -
  let ?nw = "baseline_stream_resolve_workers (io_writers io)"
  have inv: "stream_inv env (fl_bytes f) ?nw s" using stream.steps_inv [OF assms(2)] started_inv [OF assms(1)] by blast
  have "it \<in> set (in_flight s)"
    using assms(5) nth_mem [OF assms(4)] by (auto simp: in_flight_def intro!: bexI [of _ "s_writers s ! k"])
  then show ?thesis
    using copy_in_place [OF inv assms(4,5,3)] started_inv [OF assms(1)] inv
    by (auto simp: stream_inv_def views_ok_def well_shaped_def mult.commute)
qed

text \<open>The sample stream after a capture, its push and a pop.\<close>

lemma sample_copying:
  "\<exists>s it d sec rest. stream_run (sample_stream None) (fst (sample_start None)) s \<and> length (s_writers s) = 4 \<and>
     s_writers s ! 0 = W_Copy it ((d, sec) # rest)"
proof -
  let ?e = "sample_stream None" and ?s0 = "fst (sample_start None)"
  have s0: "?s0 = stream_init ?e 4 (pool_full 8) (\<lambda>_. demo_cap) (fl_bytes (snd (sample_start None)))"
    unfolding sample_start_def by (simp add: baseline_stream_start_def good_io_def Let_def baseline_stream_resolve_workers_def)
  obtain s1 where s1: "capture_step ?e 0 ?s0 = Some s1" "s_cap s1 = C_Capture 0 7" "s_wq s1 = s_wq ?s0" "s_writers s1 = s_writers ?s0"
      "s_shared_err s1 = False" "s_bufs s1 = s_bufs ?s0"
    unfolding s0
    by (auto simp: capture_step_def stream_init_def num_ranges_def sample_stream_def capture_pool_acquire_def pool_full_def)
  obtain s2 it where s2: "capture_step ?e 0 s1 = Some s2" "s_cap s2 = C_Push 0 it False" "s_wq s2 = s_wq s1" "s_writers s2 = s_writers s1"
      "s_shared_err s2 = False"
    using s1 by (auto simp: capture_step_def sample_stream_def enqueue_item_def)
  obtain q q' where q: "baseline_wq_push it (s_wq s2) = Some q" "baseline_wq_pop q = Some (Some it, q')"
    using s1(3) s2(3) unfolding s0
    by (auto simp: stream_init_def baseline_wq_init_def baseline_wq_push_def baseline_wq_pop_def)
  obtain s3 where s3: "capture_step ?e 0 s2 = Some s3" "s_wq s3 = q" "s_writers s3 = signal 0 (s_writers ?s0)" "s_shared_err s3 = False"
    using s2 q(1) s1(4) by (auto simp: capture_step_def)
  have w: "s_writers s3 = replicate 4 W_Pop"
    unfolding s3(3) s0 by (simp add: stream_init_def signal_def numeral_eq_Suc)
  obtain s4 where s4: "writer_step 0 s3 = Some s4" "s_writers s4 = (replicate 4 W_Pop)[0 := W_Copy it (item_copies it)]"
    using w q(2) s3(2,4) by (auto simp: writer_step_def split: option.splits prod.splits)
  have "stream_run ?e ?s0 s4"
    using stream_step.capture [OF s1(1)] stream_step.capture [OF s2(1)] stream_step.capture [OF s3(1)]
      stream_step.writer [OF _ s4(1), of ?e] w
    by (auto intro: rtranclp.rtrancl_into_rtrancl)
  moreover have "\<exists>d sec rest. item_copies it = (d, sec) # rest" by (simp add: item_copies_def Let_def)
  ultimately show ?thesis using s4(2) by (intro exI [of _ s4]) auto
qed

theorem stream_copies_safe_witness:
  "\<exists>s it. stream_run (sample_stream None) (fst (sample_start None)) s \<and> it \<in> set (in_flight s) \<and>
     item_view (s_bufs s) it = wi_cap it \<and> mset (held_slots s) = mset [0..<8]"
proof -
  obtain s it d sec rest where s: "stream_run (sample_stream None) (fst (sample_start None)) s" "length (s_writers s) = 4"
    "s_writers s ! 0 = W_Copy it ((d, sec) # rest)"
    using sample_copying by blast
  have fits: "\<forall>j sl c. j < num_ranges (sample_stream None) \<longrightarrow> se_capture (sample_stream None) j sl = Some c \<longrightarrow>
      cap_fits (se_sizes (sample_stream None) ! j) c"
    by (auto simp: sample_stream_def num_ranges_def cap_fits_def demo_cap_def less_Suc_eq)
  have k: "0 < length (s_writers s)" using s(2) by simp
  have "it \<in> set (in_flight s)"
    using s(3) nth_mem [OF k] by (auto simp: in_flight_def intro!: bexI [of _ "s_writers s ! 0"])
  with stream_copies_safe [OF sample_started s(1) fits k s(3)] s(1,2) show ?thesis by (intro exI [of _ s] exI [of _ it]) simp
qed

end
