(* ===== verification/Capture_Encrypted.thy ===== *)
theory Capture_Encrypted
  imports Capture_Range Stream_Props
begin

text \<open>
  \<open>capture_range_encrypted\<close> of \<open>ckpt_core.c\<close>: the capture of a range as ciphertext with ioctl 115, into the
  buffers of a pool slot or into buffers of its own; and the stream whose captures it makes, from the
  memory of the va spaces to the bytes of the image.
\<close>

section \<open>The code\<close>

text \<open>\<open>CKPT_MT_THREADS\<close>, clamped to 1 to 16.\<close>

definition mt_threads :: "int option \<Rightarrow> nat" where
  "mt_threads v =
     (let n = (case v of None \<Rightarrow> 4 | Some k \<Rightarrow> k); n1 = (if n < 1 then 1 else n) in nat (if n1 > 16 then 16 else n1))"

record enc_bufs =
  eb_resmap :: nat
  eb_cpu_buf :: nat
  eb_gpu_buf :: nat
  eb_crypto_meta :: nat

text \<open>
  Where a capture goes: the buffers of a pool slot with their capacities and the \<open>verified\<close> flag, or buffers it
  allocates, if it gets them.
\<close>

datatype capture_dest = Pool_Slot enc_bufs nat nat bool | Own_Bufs "enc_bufs option"

fun dest_bufs :: "nat \<Rightarrow> capture_dest \<Rightarrow> enc_bufs option" where
  "dest_bufs len (Pool_Slot b max_length max_n_pages verified) =
     (if len > max_length \<or> len div 4096 > max_n_pages then None else Some b)"
| "dest_bufs len (Own_Bufs bo) = bo"

definition enc_params :: "enc_bufs \<Rightarrow> nat \<Rightarrow> nat \<Rightarrow> nat \<Rightarrow> read_params" where
  "enc_params b thr base len =
     \<lparr>rp_base = base, rp_length = len, rp_cpu_buf = eb_cpu_buf b, rp_gpu_buf = eb_gpu_buf b, rp_residency_map = eb_resmap b,
      rp_gpu_uuid = zero_uuid, rp_crypto_meta = eb_crypto_meta b, rp_crypto_meta_size = len div 4096 * META_SIZE, rp_num_threads = thr\<rparr>"

text \<open>The check that the kernel has written to a fresh slot: its first 16 bytes are not the poison.\<close>

definition pool_sane :: "capture_dest \<Rightarrow> nat \<Rightarrow> mem \<Rightarrow> bool" where
  "pool_sane dest nbytes m =
     (case dest of
        Pool_Slot b ml mp verified \<Rightarrow> verified \<or> nbytes = 0 \<or> (\<exists>j \<in> set [0..<16]. m (eb_gpu_buf b + j) \<noteq> 0xA5)
      | Own_Bufs bo \<Rightarrow> True)"

definition slot_checked :: "capture_dest \<Rightarrow> nat \<Rightarrow> capture_dest" where
  "slot_checked dest nbytes =
     (case dest of Pool_Slot b ml mp verified \<Rightarrow> Pool_Slot b ml mp (verified \<or> nbytes > 0) | Own_Bufs bo \<Rightarrow> dest)"

text \<open>
  \<open>thr\<close> is the value of \<open>CKPT_MT_THREADS\<close>, \<open>track\<close> is \<open>g_track_only\<close>, which skips the ioctl. The result is the capture,
  if there is one, the slot afterwards and the memory.
\<close>

definition capture_range_encrypted ::
  "uvm_env \<Rightarrow> va_space list \<Rightarrow> int option \<Rightarrow> bool \<Rightarrow> capture_dest \<Rightarrow> nat \<Rightarrow> nat \<Rightarrow> mem \<Rightarrow>
   range_capture option \<times> capture_dest \<times> mem" where
  "capture_range_encrypted env vss thr track dest base len m =
     (case dest_bufs len dest of
        None \<Rightarrow> (None, dest, m)
      | Some b \<Rightarrow>
          let n = len div 4096; m0 = write_mem m (eb_resmap b) (replicate n 2);
              res = (if track then \<lparr>rr_status = NV_OK, rr_cpu_bytes = Some 0, rr_gpu_bytes = Some 0, rr_num_pages = Some 0,
                                    rr_num_transfers = Some 0, rr_mem = m0, rr_locks = []\<rparr>
                     else uvm_api_live_migration_read_pages_resident_encrypted_mt env vss (enc_params b (mt_threads thr) base len) m0)
          in if rr_status res \<noteq> NV_OK then (None, dest, rr_mem res)
             else if \<not> pool_sane dest (the (rr_gpu_bytes res)) (rr_mem res) then (None, dest, rr_mem res)
             else (Some \<lparr>rc_base = base, rc_length = len, rc_n_pages = n, rc_cpu_bytes = the (rr_cpu_bytes res),
                         rc_gpu_bytes = the (rr_gpu_bytes res), rc_enc_count = the (rr_num_transfers res),
                         rc_resmap = read_mem (rr_mem res) (eb_resmap b) n, rc_cpu_buf = read_mem (rr_mem res) (eb_cpu_buf b) len,
                         rc_gpu_buf = read_mem (rr_mem res) (eb_gpu_buf b) len,
                         rc_crypto_meta = Some (read_mem (rr_mem res) (eb_crypto_meta b) (n * META_SIZE))\<rparr>,
                   slot_checked dest (the (rr_gpu_bytes res)), rr_mem res))"

section \<open>What a capture holds\<close>

text \<open>Buffers apart from each other and inside the address space.\<close>

definition enc_bufs_ok :: "nat \<Rightarrow> enc_bufs \<Rightarrow> bool" where
  "enc_bufs_ok len b \<longleftrightarrow>
     (let n = len div PAGE_SIZE; areas = [(eb_resmap b, n), (eb_cpu_buf b, len), (eb_gpu_buf b, len), (eb_crypto_meta b, n * META_SIZE)]
      in eb_cpu_buf b \<noteq> 0 \<and> eb_gpu_buf b \<noteq> 0 \<and> eb_crypto_meta b \<noteq> 0 \<and> eb_cpu_buf b + len \<le> 2 ^ 64 \<and> eb_gpu_buf b + len \<le> 2 ^ 64 \<and>
         sorted_wrt (\<lambda>v w. fst v + snd v \<le> fst w \<or> fst w + snd w \<le> fst v) areas)"

text \<open>
  The ciphertext capture of a range: its residency map and CPU pages, and ciphertext and metadata of runs
  whose plaintexts make up the GPU pages in address order.
\<close>

definition enc_capture_of :: "uvm_env \<Rightarrow> va_space list \<Rightarrow> nat \<Rightarrow> nat \<Rightarrow> range_capture \<Rightarrow> bool" where
  "enc_capture_of env vss base len c \<longleftrightarrow>
     (let V = request_visits False vss base len; G = request_gpu vss base zero_uuid
      in rc_base c = base \<and> rc_length c = len \<and> take (rc_n_pages c) (rc_resmap c) = request_resmap False vss base len zero_uuid \<and>
         take (rc_cpu_bytes c) (rc_cpu_buf c) = cpu_section V \<and>
         (\<exists>cfg. rc_enc_count c = length (cc_runs cfg) \<and> (\<forall>r \<in> set (cc_runs cfg). 0 < snd r \<and> snd r \<le> UVM_CONF_COMPUTING_DMA_BUFFER_SIZE) \<and> plains env cfg (length (cc_runs cfg)) = gpu_section env G V \<and>
            take (rc_gpu_bytes c) (rc_gpu_buf c) = ciphers env cfg (length (cc_runs cfg)) \<and> cap_meta c = all_meta env cfg))"

lemma encrypted_mt_bytes:
  assumes "params_ok vss pr" "rr_status (encrypted_mt_body d env vss pr m) = NV_OK"
  shows "rr_cpu_bytes (encrypted_mt_body d env vss pr m) = Some (length (cpu_section (request_visits d vss (rp_base pr) (rp_length pr)))) \<and>
    rr_gpu_bytes (encrypted_mt_body d env vss pr m) =
      Some (length (gpu_section env (request_gpu vss (rp_base pr) (rp_gpu_uuid pr)) (request_visits d vss (rp_base pr) (rp_length pr))))"
proof -
  define r where "r = pass1 env False d vss (rp_base pr) (rp_length pr) (rp_cpu_buf pr) (rp_gpu_uuid pr) (p1_init (n_pages pr) (page_cap0 pr) m)"
  obtain nt m' where ok: "p1_status (pr_p1 r) = NV_OK"
    and res: "encrypted_mt_body d env vss pr m = exit_ok pr (pr_p1 r) (Some nt) m' (pr_locks r)"
    using assms(2)
    by (auto simp: encrypted_mt_body_def lm_mt_pass1_def r_def [symmetric] early_return_def exit_ok_def Let_def split: if_splits prod.splits)
  note f = handler_pass1 [OF ok [unfolded r_def] assms(1), folded r_def]
  show ?thesis by (simp add: res exit_ok_def exit109_def f(4,5))
qed

text \<open>What the fused ioctls leave in buffers that are apart; the CPU pages have room for \<open>cap\<close> bytes.\<close>

definition enc_areas_ok :: "nat \<Rightarrow> nat \<Rightarrow> enc_bufs \<Rightarrow> bool" where
  "enc_areas_ok cap len b \<longleftrightarrow>
     (let n = len div PAGE_SIZE; areas = [(eb_resmap b, n), (eb_cpu_buf b, cap), (eb_gpu_buf b, len), (eb_crypto_meta b, n * META_SIZE)]
      in eb_cpu_buf b \<noteq> 0 \<and> eb_gpu_buf b \<noteq> 0 \<and> eb_crypto_meta b \<noteq> 0 \<and> eb_cpu_buf b + len \<le> 2 ^ 64 \<and> eb_gpu_buf b + len \<le> 2 ^ 64 \<and>
         sorted_wrt (\<lambda>v w. fst v + snd v \<le> fst w \<or> fst w + snd w \<le> fst v) areas)"

lemma enc_bufs_areas: "enc_bufs_ok len b = enc_areas_ok len len b"
  by (simp add: enc_bufs_ok_def enc_areas_ok_def Let_def)

lemma encrypted_read_areas:
  assumes "rr_status (encrypted_mt_body d env vss pr m0) = NV_OK" "pr = enc_params b thr base len"
    and "vss_ok vss" "csl_ok env" "csl_shape env" "sched_ok env" "enc_areas_ok cap len b" "length (cpu_section (request_visits d vss base len)) \<le> cap"
  defines "res \<equiv> encrypted_mt_body d env vss pr m0" and "cfg \<equiv> request_cfg True d vss pr" and "V \<equiv> request_visits d vss base len"
  shows "request_ok vss base len 0" "rr_num_transfers res = Some (length (cc_runs cfg))" "length (cc_runs cfg) \<le> len div PAGE_SIZE"
    and "rr_cpu_bytes res = Some (length (cpu_section V))" "rr_gpu_bytes res = Some (length (gpu_section env (request_gpu vss base zero_uuid) V))"
    and "read_mem (rr_mem res) (eb_resmap b) (len div PAGE_SIZE) = request_resmap d vss base len zero_uuid"
    and "read_mem (rr_mem res) (eb_cpu_buf b) (length (cpu_section V)) = cpu_section V"
    and "read_mem (rr_mem res) (eb_gpu_buf b) (length (gpu_section env (request_gpu vss base zero_uuid) V)) = ciphers env cfg (length (cc_runs cfg))"
    and "read_mem (rr_mem res) (eb_crypto_meta b) (length (cc_runs cfg) * META_SIZE) = all_meta env cfg"
    and "plains env cfg (length (cc_runs cfg)) = gpu_section env (request_gpu vss base zero_uuid) V"
    and "\<forall>r \<in> set (cc_runs cfg). 0 < snd r \<and> snd r \<le> UVM_CONF_COMPUTING_DMA_BUFFER_SIZE"
    and "length (cpu_section V) + length (gpu_section env (request_gpu vss base zero_uuid) V) \<le> len"
proof -
  define n where "n = len div PAGE_SIZE"
  have prs: "rp_base pr = base" "rp_length pr = len" "rp_cpu_buf pr = eb_cpu_buf b" "rp_gpu_buf pr = eb_gpu_buf b"
    "rp_residency_map pr = eb_resmap b" "rp_gpu_uuid pr = zero_uuid" "rp_crypto_meta pr = eb_crypto_meta b" "rp_crypto_meta_size pr = n * META_SIZE"
    by (simp_all add: assms(2) enc_params_def n_def)
  have "read_check env pr = NV_OK" using assms(1) by (auto simp: encrypted_mt_body_def early_return_def Let_def split: if_splits)
  then have al: "base mod PAGE_SIZE = 0" "0 < len" "len mod PAGE_SIZE = 0" by (auto simp: read_check_def prs split: if_splits)
  have bo: "eb_cpu_buf b \<noteq> 0" "eb_gpu_buf b \<noteq> 0" "eb_crypto_meta b \<noteq> 0" "eb_cpu_buf b + len \<le> 2 ^ 64" "eb_gpu_buf b + len \<le> 2 ^ 64"
    "eb_resmap b + n \<le> eb_cpu_buf b \<or> eb_cpu_buf b + cap \<le> eb_resmap b" "eb_resmap b + n \<le> eb_gpu_buf b \<or> eb_gpu_buf b + len \<le> eb_resmap b"
    "eb_resmap b + n \<le> eb_crypto_meta b \<or> eb_crypto_meta b + n * META_SIZE \<le> eb_resmap b"
    "eb_cpu_buf b + cap \<le> eb_gpu_buf b \<or> eb_gpu_buf b + len \<le> eb_cpu_buf b"
    "eb_cpu_buf b + cap \<le> eb_crypto_meta b \<or> eb_crypto_meta b + n * META_SIZE \<le> eb_cpu_buf b"
    "eb_gpu_buf b + len \<le> eb_crypto_meta b \<or> eb_crypto_meta b + n * META_SIZE \<le> eb_gpu_buf b"
    using assms(7) by (simp_all add: enc_areas_ok_def Let_def n_def)
  have po: "params_ok vss pr" using assms(3) al bo(2,4,5) by (auto simp: params_ok_def request_ok_def prs vss_ok_def)
  show rq: "request_ok vss base len 0" using assms(3) al by (auto simp: request_ok_def vss_ok_def)
  define G where "G = request_gpu vss base zero_uuid"
  let ?cs = "cpu_section V" and ?gs = "gpu_section env G V" and ?rm = "request_resmap d vss base len zero_uuid"
  let ?ci = "ciphers env cfg (length (cc_runs cfg))" and ?me = "all_meta env cfg"
  note s = encrypted_mt_success [OF po assms(4,6,1), folded res_def cfg_def]
    encrypted_mt_bytes [OF po assms(1), folded res_def, unfolded prs, folded V_def G_def]
  have nt: "length (cc_runs cfg) * META_SIZE \<le> n * META_SIZE" using s(1) bo(3) by (simp add: prs)
  then show "length (cc_runs cfg) \<le> len div PAGE_SIZE" by (simp add: n_def)
  show "rr_num_transfers res = Some (length (cc_runs cfg))" "rr_cpu_bytes res = Some (length ?cs)" "rr_gpu_bytes res = Some (length (gpu_section env (request_gpu vss base zero_uuid) V))"
    using s by (simp_all add: G_def)
  have lm: "length ?me = length (cc_runs cfg) * META_SIZE" unfolding cfg_def by (rule length_all_meta [OF po assms(5)])
  show pl: "plains env cfg (length (cc_runs cfg)) = gpu_section env (request_gpu vss base zero_uuid) V"
    unfolding cfg_def request_plains [OF po] by (simp add: prs V_def)
  then have lc: "length ?ci = length ?gs" using length_ciphers [OF assms(4), of cfg "length (cc_runs cfg)"] by (simp add: G_def)
  show len: "length ?cs + length (gpu_section env (request_gpu vss base zero_uuid) V) \<le> len"
    using request_parts_bound [OF rq, of d G]
    by (simp add: V_def G_def cpu_section_def gpu_section_def gpu_phys_list_def length_concat o_def sum_list_triv visit_bytes_def gpu_bytes_def mult.commute)
  have im: "rr_mem res = write_mem (write_mem (write_mem (write_mem m0 (eb_cpu_buf b) ?cs) (eb_gpu_buf b) ?ci) (eb_resmap b) ?rm) (eb_crypto_meta b) ?me"
    using s(1) bo(1,3) by (simp add: cipher_image_def read_image_def prs Let_def cfg_def V_def)
  have lrm: "length ?rm = n" by (simp add: n_def)
  note dl = bo(6-11) len [folded G_def] lc lm nt lrm assms(8) [folded V_def]
  have d1: "eb_resmap b + n \<le> eb_crypto_meta b \<or> eb_crypto_meta b + length ?me \<le> eb_resmap b" using dl by linarith
  show "read_mem (rr_mem res) (eb_resmap b) (len div PAGE_SIZE) = ?rm"
    unfolding n_def [symmetric] im read_write_disjoint [OF d1] by (rule read_write_same [OF lrm])
  have d2: "eb_cpu_buf b + length ?cs \<le> eb_crypto_meta b \<or> eb_crypto_meta b + length ?me \<le> eb_cpu_buf b"
    "eb_cpu_buf b + length ?cs \<le> eb_resmap b \<or> eb_resmap b + length ?rm \<le> eb_cpu_buf b"
    "eb_cpu_buf b + length ?cs \<le> eb_gpu_buf b \<or> eb_gpu_buf b + length ?ci \<le> eb_cpu_buf b" using dl by linarith+
  show "read_mem (rr_mem res) (eb_cpu_buf b) (length ?cs) = ?cs"
    unfolding im read_write_disjoint [OF d2(1)] read_write_disjoint [OF d2(2)] read_write_disjoint [OF d2(3)] by (rule read_write_same [OF refl])
  have d3: "eb_gpu_buf b + length ?gs \<le> eb_crypto_meta b \<or> eb_crypto_meta b + length ?me \<le> eb_gpu_buf b"
    "eb_gpu_buf b + length ?gs \<le> eb_resmap b \<or> eb_resmap b + length ?rm \<le> eb_gpu_buf b" using dl by linarith+
  show "read_mem (rr_mem res) (eb_gpu_buf b) (length (gpu_section env (request_gpu vss base zero_uuid) V)) = ?ci"
    unfolding G_def [symmetric] im read_write_disjoint [OF d3(1)] read_write_disjoint [OF d3(2)] by (rule read_write_same [OF lc])
  show "read_mem (rr_mem res) (eb_crypto_meta b) (length (cc_runs cfg) * META_SIZE) = ?me"
    unfolding im using lm by (simp add: read_write_same)
  show "\<forall>r \<in> set (cc_runs cfg). 0 < snd r \<and> snd r \<le> UVM_CONF_COMPUTING_DMA_BUFFER_SIZE"
    using request_run_sizes [OF po] by (metis cfg_def in_set_conv_nth)
qed

lemma capture_encrypted_facts:
  assumes "capture_range_encrypted env vss thr False dest base len m = (Some c, dest', m')"
    and "vss_ok vss" "csl_ok env" "csl_shape env" "sched_ok env" "\<And>b. dest_bufs len dest = Some b \<Longrightarrow> enc_bufs_ok len b"
  shows "enc_capture_of env vss base len c" "cap_wf c" "cap_fits len c" "request_ok vss base len 0"
proof -
  obtain b where b: "dest_bufs len dest = Some b" using assms(1) by (auto simp: capture_range_encrypted_def split: option.splits)
  define pr where "pr = enc_params b (mt_threads thr) base len"
  define n where "n = len div PAGE_SIZE"
  define m0 where "m0 = write_mem m (eb_resmap b) (replicate n 2)"
  define res where "res = encrypted_mt_body False env vss pr m0"
  define cfg where "cfg = request_cfg True False vss pr"
  define V where "V = request_visits False vss base len"
  define G where "G = request_gpu vss base zero_uuid"
  have ok: "rr_status res = NV_OK" and c: "c = \<lparr>rc_base = base, rc_length = len, rc_n_pages = n, rc_cpu_bytes = the (rr_cpu_bytes res),
       rc_gpu_bytes = the (rr_gpu_bytes res), rc_enc_count = the (rr_num_transfers res),
       rc_resmap = read_mem (rr_mem res) (eb_resmap b) n, rc_cpu_buf = read_mem (rr_mem res) (eb_cpu_buf b) len,
       rc_gpu_buf = read_mem (rr_mem res) (eb_gpu_buf b) len,
       rc_crypto_meta = Some (read_mem (rr_mem res) (eb_crypto_meta b) (n * META_SIZE))\<rparr>"
    using assms(1) b
    by (auto simp: capture_range_encrypted_def uvm_api_live_migration_read_pages_resident_encrypted_mt_def Let_def res_def m0_def n_def pr_def
        split: if_splits)
  have rq: "request_ok vss base len 0" if "rr_status (encrypted_mt_body False env vss pr m0) = NV_OK"
    using that assms(2) by (auto simp: encrypted_mt_body_def early_return_def Let_def read_check_def request_ok_def vss_ok_def pr_def enc_params_def split: if_splits)
  note rq = rq [OF ok [unfolded res_def]]
  have "length (cpu_section V) \<le> len" using request_parts_bound [OF rq, of False G] by (simp add: V_def)
  note f = encrypted_read_areas [OF ok [unfolded res_def] pr_def assms(2-5) assms(6) [OF b, unfolded enc_bufs_areas] this [unfolded V_def],
      folded res_def cfg_def V_def G_def n_def]
  show "request_ok vss base len 0" by (rule f(1))
  have nt: "length (cc_runs cfg) * META_SIZE \<le> n * META_SIZE" using f(3) by simp
  have lm: "length (all_meta env cfg) = length (cc_runs cfg) * META_SIZE" using arg_cong [OF f(9), of length] by simp
  have l: "length (cpu_section V) \<le> len" "length (gpu_section env G V) \<le> len" using f(12) by simp_all
  show "cap_wf c" "cap_fits len c" using f nt by (auto simp: c cap_wf_def cap_fits_def n_def [symmetric])
  have "take (length (cc_runs cfg) * META_SIZE) (read_mem (rr_mem res) (eb_crypto_meta b) (n * META_SIZE)) = all_meta env cfg"
    using f(9) nt by (simp add: read_mem_take)
  then show "enc_capture_of env vss base len c"
    using f l lm nt
    by (auto simp: enc_capture_of_def Let_def c V_def [symmetric] G_def [symmetric] n_def [symmetric] read_mem_take cap_meta_def cap_meta_bytes_def intro!: exI [of _ cfg])
qed

section \<open>The stream of such captures\<close>

text \<open>
  The streaming environment of \<open>main\<close>: range \<open>j\<close> is captured at moment \<open>at j\<close> (driver environment, va spaces, process
  memory) into slot \<open>sl\<close>, whose state then is \<open>dest j sl\<close>.
\<close>

definition capture_stream ::
  "(nat \<Rightarrow> uvm_env \<times> va_space list \<times> mem) \<Rightarrow> int option \<Rightarrow> (nat \<Rightarrow> nat \<Rightarrow> capture_dest) \<Rightarrow> (nat \<times> nat) list \<Rightarrow> stream_env \<Rightarrow> stream_env" where
  "capture_stream at thr dest ranges e =
     e\<lparr>se_sizes := map snd ranges,
       se_capture := (\<lambda>j sl. case at j of (env, vss, m) \<Rightarrow>
          fst (capture_range_encrypted env vss thr False (dest j sl) (fst (ranges ! j)) (snd (ranges ! j)) m))\<rparr>"

definition moments_ok ::
  "(nat \<Rightarrow> uvm_env \<times> va_space list \<times> mem) \<Rightarrow> (nat \<Rightarrow> nat \<Rightarrow> capture_dest) \<Rightarrow> (nat \<times> nat) list \<Rightarrow> bool" where
  "moments_ok at dest ranges \<longleftrightarrow> (\<forall>j. case at j of (env, vss, m) \<Rightarrow>
     vss_ok vss \<and> csl_ok env \<and> csl_shape env \<and> sched_ok env \<and>
     (\<forall>sl b. dest_bufs (snd (ranges ! j)) (dest j sl) = Some b \<longrightarrow> enc_bufs_ok (snd (ranges ! j)) b))"

lemma capture_stream_facts:
  assumes "moments_ok at dest ranges" "se_capture (capture_stream at thr dest ranges e) j sl = Some c"
  shows "enc_capture_of (fst (at j)) (fst (snd (at j))) (fst (ranges ! j)) (snd (ranges ! j)) c" "cap_wf c" "cap_fits (snd (ranges ! j)) c"
proof -
  obtain env vss m where a: "at j = (env, vss, m)" by (metis prod_cases3)
  obtain dest' m' where "capture_range_encrypted env vss thr False (dest j sl) (fst (ranges ! j)) (snd (ranges ! j)) m = (Some c, dest', m')"
    using assms(2) by (auto simp: capture_stream_def a prod_eq_iff)
  note c = capture_encrypted_facts [OF this]
  have "vss_ok vss \<and> csl_ok env \<and> csl_shape env \<and> sched_ok env \<and>
      (\<forall>sl b. dest_bufs (snd (ranges ! j)) (dest j sl) = Some b \<longrightarrow> enc_bufs_ok (snd (ranges ! j)) b)"
    using spec [OF assms(1) [unfolded moments_ok_def], of j] by (simp add: a)
  then have "enc_capture_of env vss (fst (ranges ! j)) (snd (ranges ! j)) c \<and> cap_wf c \<and> cap_fits (snd (ranges ! j)) c"
    using c by blast
  then show "enc_capture_of (fst (at j)) (fst (snd (at j))) (fst (ranges ! j)) (snd (ranges ! j)) c" "cap_wf c" "cap_fits (snd (ranges ! j)) c"
    by (simp_all add: a)
qed

lemma capture_stream_wf:
  assumes "moments_ok at dest ranges"
  shows "caps_wf (capture_stream at thr dest ranges e)"
    and "\<forall>j sl c. j < num_ranges (capture_stream at thr dest ranges e) \<longrightarrow> se_capture (capture_stream at thr dest ranges e) j sl = Some c \<longrightarrow>
      cap_fits (se_sizes (capture_stream at thr dest ranges e) ! j) c"
  using capture_stream_facts [OF assms]
  by (auto simp: caps_wf_def) (auto simp: num_ranges_def capture_stream_def)

section \<open>A sample\<close>

definition sample_slot :: "nat \<Rightarrow> nat \<Rightarrow> capture_dest" where
  "sample_slot j sl = Pool_Slot \<lparr>eb_resmap = 65536, eb_cpu_buf = 8192, eb_gpu_buf = 1048576, eb_crypto_meta = 131072\<rparr> 4096 1 True"

definition sample_ranges :: "(nat \<times> nat) list" where
  "sample_ranges = [(2097152, 4096), (2097152, 4096)]"

definition sample_enc_stream :: stream_env where
  "sample_enc_stream = capture_stream (\<lambda>_. (sample_env, [sample_vs], \<lambda>_. 0)) None sample_slot sample_ranges (sample_stream None)"

lemma sample_moments: "moments_ok (\<lambda>_. (sample_env, [sample_vs], \<lambda>_. 0)) sample_slot sample_ranges"
  using sample_vss sample_env_csl sample_env_shape(1) sample_env_sched
  by (auto simp: moments_ok_def sample_slot_def enc_bufs_ok_def Let_def split: if_splits)

lemma sample_enc_captures: "i < 2 \<Longrightarrow> se_capture sample_enc_stream i sl \<noteq> None"
proof -
  assume i: "i < 2"
  define b where "b = \<lparr>eb_resmap = 65536, eb_cpu_buf = 8192, eb_gpu_buf = 1048576, eb_crypto_meta = 131072\<rparr>"
  have r: "sample_ranges ! i = (2097152, 4096)" using i by (auto simp: sample_ranges_def less_2_cases_iff)
  have "request_live sample_env [sample_vs] (enc_params b (mt_threads None) 2097152 4096)"
    using sample_live unfolding request_live_def params_ok_def n_pages_def enc_params_def b_def sample_pr_def by auto
  from encrypted_mt_live [OF this sample_env_csl sample_env_sched]
  show ?thesis
    by (simp add: sample_enc_stream_def capture_stream_def r sample_slot_def capture_range_encrypted_def b_def pool_sane_def
        uvm_api_live_migration_read_pages_resident_encrypted_mt_def Let_def)
qed

section \<open>Properties\<close>

text \<open>
  C28: the encrypted streaming checkpoint is correct from the va spaces to the file: when it succeeds, the file
  starts with the image of one capture per range, in order, and the capture of each range holds the
  residency map, the CPU pages and, in address order, the ciphertexts and decryption metadata of the GPU
  pages that the va spaces had when that range was captured, whatever the schedule of the
  capture thread, the writers and the copy threads of the driver.
\<close>

theorem encrypted_stream_correct:
  assumes "moments_ok at dest ranges" "env = capture_stream at thr dest ranges e"
    and "stream_started io threads env bufs old s0 f" "stream_run env s0 s" "s_cap s = C_Return True"
  shows "read_mem (s_map s) 0 (length (stream_image env (s_caps s))) = stream_image env (s_caps s) \<and> length (s_caps s) = length ranges \<and>
    (\<forall>j < length ranges. enc_capture_of (fst (at j)) (fst (snd (at j))) (fst (ranges ! j)) (snd (ranges ! j)) (s_caps s ! j))"
proof -
  have n: "num_ranges env = length ranges" by (simp add: num_ranges_def assms(2) capture_stream_def)
  show ?thesis
    using stream_success [OF assms(3-5), unfolded n] capture_stream_facts(1) [OF assms(1), of thr e, folded assms(2)] by blast
qed

theorem encrypted_stream_correct_witness:
  "\<exists>s :: stream_state. length (s_caps s) = 2 \<and> enc_capture_of sample_env [sample_vs] 2097152 4096 (s_caps s ! 1) \<and>
     read_mem (s_map s) 0 (length (base_image (s_caps s) 3)) = base_image (s_caps s) 3"
proof -
  have wf: "caps_wf sample_enc_stream" unfolding sample_enc_stream_def by (rule capture_stream_wf [OF sample_moments])
  obtain s0 f where st: "stream_started good_io (\<lambda>_. True) sample_enc_stream (\<lambda>_. demo_cap) sample_file s0 f"
    using good_io_started [OF wf] by blast
  have n: "num_ranges sample_enc_stream = 2" by (simp add: num_ranges_def sample_enc_stream_def capture_stream_def sample_ranges_def)
  have "se_calloc sample_enc_stream i" "se_msync sample_enc_stream" "se_munmap sample_enc_stream"
    "se_delta sample_enc_stream = None" "se_version sample_enc_stream = 3" for i
    by (simp_all add: sample_enc_stream_def capture_stream_def sample_stream_def)
  note e = this
  obtain s where s: "stream_run sample_enc_stream s0 s" "s_cap s = C_Return True"
    using stream_succeeds [OF st] e sample_enc_captures n by auto
  note c = encrypted_stream_correct [OF sample_moments sample_enc_stream_def st s]
  have "enc_capture_of sample_env [sample_vs] 2097152 4096 (s_caps s ! 1)"
    using c [THEN conjunct2, THEN conjunct2, rule_format, of 1] by (simp add: sample_ranges_def)
  then show ?thesis using c by (intro exI [of _ s] conjI) (simp_all add: stream_image_def e sample_ranges_def)
qed

end
