(* ===== verification/Ckpt_Crypto.thy ===== *)
theory Ckpt_Crypto
  imports Flash_Prelude
begin

text \<open>
  \<open>ckpt_crypto.c\<close>: encryption and decryption of pages with AES-256-GCM by several threads. OpenSSL is a
  parameter: what it encrypts and decrypts to, and which of its calls fail. A thread that fails stops and sets
  its status; the others go on. A schedule interleaves the pages of the threads.
\<close>

section \<open>The code\<close>

datatype evp_call = Evp_Init | Evp_Update | Evp_Final | Evp_Tag

record crypto_env =
  ev_encrypt :: "byte list \<Rightarrow> byte list \<Rightarrow> byte list \<Rightarrow> byte list \<times> byte list"               \<comment> \<open>key, IV, plaintext: ciphertext, tag\<close>
  ev_decrypt :: "byte list \<Rightarrow> byte list \<Rightarrow> byte list \<Rightarrow> byte list \<Rightarrow> byte list \<times> bool"      \<comment> \<open>key, IV, ciphertext, tag: output, tag accepted\<close>
  ev_ctx :: "nat \<Rightarrow> bool"                          \<comment> \<open>\<open>EVP_CIPHER_CTX_new\<close> in thread \<open>t\<close>\<close>
  ev_call :: "byte list \<Rightarrow> evp_call \<Rightarrow> bool"         \<comment> \<open>the call with this IV succeeds\<close>
  ev_alloc :: bool
  ev_cpus :: int
  ev_rand :: "byte list option"                    \<comment> \<open>\<open>RAND_bytes\<close>\<close>
  ev_sched :: "(nat \<times> nat) list list \<Rightarrow> (nat \<times> nat) list"

abbreviation PAGE_META :: nat where "PAGE_META \<equiv> 28"   \<comment> \<open>\<open>sizeof(ckpt_page_meta_t)\<close>: IV and tag\<close>

definition ckpt_crypto_gen_key :: "crypto_env \<Rightarrow> byte list option" where
  "ckpt_crypto_gen_key env = (case ev_rand env of None \<Rightarrow> None | Some k \<Rightarrow> Some (take 32 k))"

record crypto_worker =
  cw_key :: "byte list"
  cw_src :: nat
  cw_dst :: nat
  cw_meta :: nat
  cw_page_size :: nat
  cw_base_iv :: nat

record crypto_state =
  cs_mem :: mem
  cs_failed :: "nat list"       \<comment> \<open>threads with status -1\<close>

definition build_iv :: "nat \<Rightarrow> byte list" where
  "build_iv counter = [0x43, 0x4B, 0x50, 0x54] @ le_bytes 8 (u64 counter)"

text \<open>One turn of the loops of \<open>encrypt_worker\<close> and \<open>decrypt_worker\<close>: thread \<open>t\<close>, page \<open>i\<close>.\<close>

definition encrypt_worker :: "crypto_env \<Rightarrow> crypto_worker \<Rightarrow> nat \<times> nat \<Rightarrow> crypto_state \<Rightarrow> crypto_state" where
  "encrypt_worker env w ti s =
     (let t = fst ti; i = snd ti; psz = cw_page_size w; ma = cw_meta w + i * PAGE_META; iv = build_iv (cw_base_iv w + i);
          m1 = write_mem (cs_mem s) ma iv; ct = ev_encrypt env (cw_key w) iv (read_mem m1 (cw_src w + i * psz) psz);
          m2 = write_mem m1 (cw_dst w + i * psz) (fst ct)
      in if t \<in> set (cs_failed s) then s
         else if \<not> ev_call env iv Evp_Init \<or> \<not> ev_call env iv Evp_Update then \<lparr>cs_mem = m1, cs_failed = t # cs_failed s\<rparr>
         else if \<not> ev_call env iv Evp_Final \<or> \<not> ev_call env iv Evp_Tag then \<lparr>cs_mem = m2, cs_failed = t # cs_failed s\<rparr>
         else s\<lparr>cs_mem := write_mem m2 (ma + 12) (snd ct)\<rparr>)"

definition decrypt_worker :: "crypto_env \<Rightarrow> crypto_worker \<Rightarrow> nat \<times> nat \<Rightarrow> crypto_state \<Rightarrow> crypto_state" where
  "decrypt_worker env w ti s =
     (let t = fst ti; i = snd ti; psz = cw_page_size w; ma = cw_meta w + i * PAGE_META; m = cs_mem s; iv = read_mem m ma 12;
          p = ev_decrypt env (cw_key w) iv (read_mem m (cw_src w + i * psz) psz) (read_mem m (ma + 12) 16);
          m1 = write_mem m (cw_dst w + i * psz) (fst p)
      in if t \<in> set (cs_failed s) then s
         else if \<not> ev_call env iv Evp_Init \<or> \<not> ev_call env iv Evp_Update then \<lparr>cs_mem = m, cs_failed = t # cs_failed s\<rparr>
         else if \<not> ev_call env iv Evp_Tag \<or> \<not> ev_call env iv Evp_Final \<or> \<not> snd p then \<lparr>cs_mem = m1, cs_failed = t # cs_failed s\<rparr>
         else s\<lparr>cs_mem := m1\<rparr>)"

definition get_num_threads :: "crypto_env \<Rightarrow> int \<Rightarrow> nat" where
  "get_num_threads env requested =
     (if requested > 0 then nat requested
      else let n = ev_cpus env; n1 = (if n < 1 then 1 else n) in nat (if n1 > 64 then 64 else n1))"

text \<open>Dividing the pages, running the threads, collecting their status.\<close>

definition crypto_acts :: "nat \<Rightarrow> nat \<Rightarrow> (nat \<times> nat) list list" where
  "crypto_acts n nt = map (\<lambda>t. map (Pair t) (slice_idx (split_work n nt ! t))) [0..<nt]"

definition crypto_threads ::
  "crypto_env \<Rightarrow> (nat \<times> nat \<Rightarrow> crypto_state \<Rightarrow> crypto_state) \<Rightarrow> nat \<Rightarrow> nat \<Rightarrow> nat \<Rightarrow> mem \<Rightarrow> bool \<times> mem" where
  "crypto_threads env page psz n nt m =
     (if n = 0 then (True, m)
      else if psz = 0 then (False, m)
      else if \<not> ev_alloc env then (False, m)
      else let k = min nt n; s = fold page (ev_sched env (crypto_acts n k)) \<lparr>cs_mem = m, cs_failed = filter (\<lambda>t. \<not> ev_ctx env t) [0..<k]\<rparr>
           in (cs_failed s = [], cs_mem s))"

definition ckpt_crypto_encrypt_pages :: "crypto_env \<Rightarrow> crypto_worker \<Rightarrow> nat \<Rightarrow> int \<Rightarrow> mem \<Rightarrow> bool \<times> mem" where
  "ckpt_crypto_encrypt_pages env w n threads m = crypto_threads env (encrypt_worker env w) (cw_page_size w) n (get_num_threads env threads) m"

definition ckpt_crypto_decrypt_pages :: "crypto_env \<Rightarrow> crypto_worker \<Rightarrow> nat \<Rightarrow> int \<Rightarrow> mem \<Rightarrow> bool \<times> mem" where
  "ckpt_crypto_decrypt_pages env w n threads m = crypto_threads env (decrypt_worker env w) (cw_page_size w) n (get_num_threads env threads) m"

section \<open>Hypotheses\<close>

text \<open>What AES-GCM promises: sizes, and that decryption with the tag undoes encryption.\<close>

definition gcm_ok :: "crypto_env \<Rightarrow> bool" where
  "gcm_ok env \<longleftrightarrow> (\<forall>k iv p. length (fst (ev_encrypt env k iv p)) = length p \<and> length (snd (ev_encrypt env k iv p)) = 16 \<and>
     ev_decrypt env k iv (fst (ev_encrypt env k iv p)) (snd (ev_encrypt env k iv p)) = (p, True)) \<and>
     (\<forall>k iv c t. length (fst (ev_decrypt env k iv c t)) = length c)"

definition crypto_sched_ok :: "crypto_env \<Rightarrow> bool" where
  "crypto_sched_ok env \<longleftrightarrow> (\<forall>acts. ev_sched env acts \<in> interleave acts)"

text \<open>No call of OpenSSL and no allocation fails.\<close>

definition evp_live :: "crypto_env \<Rightarrow> bool" where
  "evp_live env \<longleftrightarrow> ev_alloc env \<and> (\<forall>t. ev_ctx env t) \<and> (\<forall>iv c. ev_call env iv c)"

text \<open>Source and destination the same or apart, both apart from the metadata.\<close>

definition apart :: "nat \<Rightarrow> nat \<Rightarrow> nat \<Rightarrow> nat \<Rightarrow> bool" where
  "apart a m b n \<longleftrightarrow> a + m \<le> b \<or> b + n \<le> a"

definition job_ok :: "crypto_worker \<Rightarrow> nat \<Rightarrow> bool" where
  "job_ok w n \<longleftrightarrow> (let l = n * cw_page_size w in 
     (cw_src w = cw_dst w \<or> apart (cw_src w) l (cw_dst w) l) \<and>
     apart (cw_src w) l (cw_meta w) (n * PAGE_META) \<and> apart (cw_dst w) l (cw_meta w) (n * PAGE_META))"

section \<open>Pages are independent\<close>

lemma slot_apart:
  fixes i j n k :: nat
  assumes "i \<noteq> j"
  shows "apart (a + i * k) k (a + j * k) k"
proof -
  have "Suc i * k \<le> j * k \<or> Suc j * k \<le> i * k" using assms by (cases "i < j") (auto intro: mult_le_mono1 simp del: mult_Suc)
  then show ?thesis by (auto simp: apart_def)
qed

lemma slots_apart:
  fixes i j n k l :: nat
  assumes "apart a (n * k) b (n * l)" "i < n" "j < n"
  shows "apart (a + i * k) k (b + j * l) l"
proof -
  have "Suc i * k \<le> n * k" "Suc j * l \<le> n * l" using assms(2,3) by (auto intro: mult_le_mono1 simp del: mult_Suc)
  then show ?thesis using assms(1) by (auto simp: apart_def)
qed

lemma apart_commute: "apart a m b n = apart b n a m"
  by (auto simp: apart_def)

lemma apart_read: "apart a n p (length bs) \<Longrightarrow> read_mem (write_mem m p bs) a n = read_mem m a n"
  by (rule read_write_disjoint) (auto simp: apart_def)

lemma apart_write: "apart p (length xs) q (length ys) \<Longrightarrow> write_mem (write_mem m p xs) q ys = write_mem (write_mem m q ys) p xs"
  by (rule write_mem_commute) (auto simp: apart_def)

text \<open>
  A page job: what it writes for page \<open>i\<close> to the destination (\<open>out\<close>) and to the metadata (\<open>md\<close>), whether it
  accepts the page (\<open>good\<close>), all read from the page's own places, and the code's \<open>step\<close>, which
  does that or fails.
\<close>

locale page_job =
  fixes ok :: bool
    and out :: "crypto_worker \<Rightarrow> mem \<Rightarrow> nat \<Rightarrow> byte list" and md :: "crypto_worker \<Rightarrow> mem \<Rightarrow> nat \<Rightarrow> byte list"
    and good :: "crypto_worker \<Rightarrow> mem \<Rightarrow> nat \<Rightarrow> bool"
    and step :: "crypto_worker \<Rightarrow> nat \<times> nat \<Rightarrow> crypto_state \<Rightarrow> crypto_state"
  assumes page_local: "read_mem m (cw_src w + i * cw_page_size w) (cw_page_size w) = read_mem m' (cw_src w + i * cw_page_size w) (cw_page_size w) \<Longrightarrow>
      read_mem m (cw_meta w + i * PAGE_META) PAGE_META = read_mem m' (cw_meta w + i * PAGE_META) PAGE_META \<Longrightarrow>
      out w m i = out w m' i \<and> md w m i = md w m' i \<and> good w m i = good w m' i"
    and page_sizes: "ok \<Longrightarrow> length (out w m i) = cw_page_size w \<and> length (md w m i) = PAGE_META"
    and step_failed: "t \<in> set (cs_failed s) \<Longrightarrow> step w (t, i) s = s"
    and step_bad: "t \<notin> set (cs_failed s) \<Longrightarrow> \<not> good w (cs_mem s) i \<Longrightarrow> cs_failed (step w (t, i) s) = t # cs_failed s"
    and step_good: "ok \<Longrightarrow> job_ok w n \<Longrightarrow> i < n \<Longrightarrow> t \<notin> set (cs_failed s) \<Longrightarrow> good w (cs_mem s) i \<Longrightarrow>
      step w (t, i) s = s\<lparr>cs_mem := write_mem (write_mem (cs_mem s) (cw_dst w + i * cw_page_size w) (out w (cs_mem s) i))
        (cw_meta w + i * PAGE_META) (md w (cs_mem s) i)\<rparr>"
begin

definition put :: "crypto_worker \<Rightarrow> nat \<Rightarrow> mem \<Rightarrow> mem" where
  "put w i m = write_mem (write_mem m (cw_dst w + i * cw_page_size w) (out w m i)) (cw_meta w + i * PAGE_META) (md w m i)"

definition final :: "crypto_worker \<Rightarrow> nat \<Rightarrow> mem \<Rightarrow> mem" where
  "final w k m = write_mem (write_mem m (cw_dst w) (concat (map (out w m) [0..<k]))) (cw_meta w) (concat (map (md w m) [0..<k]))"

lemma job_apart:
  assumes "job_ok w n" "i < n" "j < n"
  shows "i \<noteq> j \<Longrightarrow> apart (cw_src w + i * cw_page_size w) (cw_page_size w) (cw_dst w + j * cw_page_size w) (cw_page_size w)"
    and "apart (cw_src w + i * cw_page_size w) (cw_page_size w) (cw_meta w + j * PAGE_META) PAGE_META"
    and "apart (cw_dst w + i * cw_page_size w) (cw_page_size w) (cw_meta w + j * PAGE_META) PAGE_META"
  using assms slot_apart [of i j "cw_src w"] slots_apart [OF _ assms(2,3)] by (auto simp: job_ok_def Let_def)

lemma put_other:
  assumes "ok" "job_ok w n" "i < n" "j < n" "i \<noteq> j"
  shows "out w (put w j m) i = out w m i" "md w (put w j m) i = md w m i" "good w (put w j m) i = good w m i"
proof -
  note sz = page_sizes [OF assms(1)]
  note a = job_apart(1,2) [OF assms(2,3,4)] job_apart(3) [OF assms(2,4,3)] slot_apart [OF assms(5), of "cw_meta w" PAGE_META]
  have "read_mem (put w j m) (cw_src w + i * cw_page_size w) (cw_page_size w) = read_mem m (cw_src w + i * cw_page_size w) (cw_page_size w)"
    using a(1,2) assms(5) sz by (simp add: put_def apart_read)
  moreover have "read_mem (put w j m) (cw_meta w + i * PAGE_META) PAGE_META = read_mem m (cw_meta w + i * PAGE_META) PAGE_META"
    using a(3,4) sz by (simp add: put_def apart_read apart_commute)
  ultimately show "out w (put w j m) i = out w m i" "md w (put w j m) i = md w m i" "good w (put w j m) i = good w m i"
    using page_local [where m = "put w j m" and m' = m and w = w and i = i] by auto
qed

lemma put_commute:
  assumes "ok" "job_ok w n" "i < n" "j < n" "i \<noteq> j"
  shows "put w i (put w j m) = put w j (put w i m)"
proof -
  note sz = page_sizes [OF assms(1)]
  have a: "apart (cw_dst w + i * cw_page_size w) (cw_page_size w) (cw_dst w + j * cw_page_size w) (cw_page_size w)"
    "apart (cw_meta w + i * PAGE_META) PAGE_META (cw_meta w + j * PAGE_META) PAGE_META"
    "apart (cw_dst w + i * cw_page_size w) (cw_page_size w) (cw_meta w + j * PAGE_META) PAGE_META"
    "apart (cw_dst w + j * cw_page_size w) (cw_page_size w) (cw_meta w + i * PAGE_META) PAGE_META"
    using slot_apart [OF assms(5)] job_apart(3) [OF assms(2,3,4)] job_apart(3) [OF assms(2,4,3)] by auto
  have "put w i (put w j m) = write_mem (write_mem (put w j m) (cw_dst w + i * cw_page_size w) (out w m i)) (cw_meta w + i * PAGE_META) (md w m i)"
    using put_other [OF assms] by (simp add: put_def [of w i])
  moreover have "put w j (put w i m) = write_mem (write_mem (put w i m) (cw_dst w + j * cw_page_size w) (out w m j)) (cw_meta w + j * PAGE_META) (md w m j)"
    using put_other [OF assms(1,2,4,3) assms(5) [symmetric]] by (simp add: put_def [of w j])
  moreover have "write_mem (write_mem (write_mem (write_mem m dj oj) mj xj) di oi) mi xi = write_mem (write_mem (write_mem (write_mem m di oi) mi xi) dj oj) mj xj"
    if "apart di (length oi) dj (length oj)" "apart mi (length xi) mj (length xj)" "apart di (length oi) mj (length xj)" "apart dj (length oj) mi (length xi)"
    for di oi dj oj mi xi mj xj
    using that by (auto simp: apart_def write_mem_def fun_eq_iff)
  ultimately show ?thesis using a sz by (simp add: put_def)
qed

lemma final_other:
  assumes "ok" "job_ok w n" "k < n"
  shows "out w (final w k m) k = out w m k" "md w (final w k m) k = md w m k"
proof -
  let ?o = "concat (map (out w m) [0..<k])" and ?x = "concat (map (md w m) [0..<k])"
  have l: "length ?o = k * cw_page_size w" "length ?x = k * PAGE_META"
    using page_sizes [OF assms(1)] by (induction k) (simp_all add: length_concat o_def sum_list_triv)
  have le: "Suc k * cw_page_size w \<le> n * cw_page_size w" "Suc k * PAGE_META \<le> n * PAGE_META"
    using assms(3) by (auto intro: mult_le_mono1 simp del: mult_Suc)
  have "read_mem (final w k m) (cw_src w + k * cw_page_size w) (cw_page_size w) = read_mem m (cw_src w + k * cw_page_size w) (cw_page_size w)"
    using le assms(2) l by (auto simp: final_def job_ok_def Let_def apart_def read_write_disjoint)
  moreover have "read_mem (final w k m) (cw_meta w + k * PAGE_META) PAGE_META = read_mem m (cw_meta w + k * PAGE_META) PAGE_META"
    using le assms(2) l by (auto simp: final_def job_ok_def Let_def apart_def read_write_disjoint)
  ultimately show "out w (final w k m) k = out w m k" "md w (final w k m) k = md w m k"
    using page_local [where m = "final w k m" and m' = m and w = w and i = k] by auto
qed

lemma put_final:
  assumes "ok" "job_ok w n" "k < n"
  shows "put w k (final w k m) = final w (Suc k) m"
proof -
  let ?o = "concat (map (out w m) [0..<k])" and ?x = "concat (map (md w m) [0..<k])"
  have l: "length ?o = k * cw_page_size w" "length ?x = k * PAGE_META" "length (out w m k) = cw_page_size w"
    using page_sizes [OF assms(1)] by (simp_all add: length_concat o_def sum_list_triv)
  have le: "Suc k * cw_page_size w \<le> n * cw_page_size w" "Suc k * PAGE_META \<le> n * PAGE_META"
    using assms(3) by (auto intro: mult_le_mono1 simp del: mult_Suc)
  have ap: "apart (cw_meta w) (length ?x) (cw_dst w + k * cw_page_size w) (length (out w m k))"
    using le assms(2) l by (auto simp: job_ok_def Let_def apart_def)
  have "put w k (final w k m) = write_mem (write_mem (write_mem (write_mem m (cw_dst w) ?o) (cw_meta w) ?x) (cw_dst w + length ?o) (out w m k))
      (cw_meta w + length ?x) (md w m k)"
    using final_other [OF assms, of m] l(1,2) by (simp add: put_def) (simp add: final_def)
  also have "\<dots> = write_mem (write_mem (write_mem (write_mem m (cw_dst w) ?o) (cw_dst w + length ?o) (out w m k)) (cw_meta w) ?x) (cw_meta w + length ?x) (md w m k)"
    using apart_write [OF ap, of "write_mem m (cw_dst w) ?o"] l by simp
  finally show ?thesis by (simp only: write_mem_append) (simp add: final_def)
qed

lemma fold_put: "ok \<Longrightarrow> job_ok w n \<Longrightarrow> k \<le> n \<Longrightarrow> fold (put w) [0..<k] m = final w k m"
proof (induction k)
  case 0
  then show ?case by (simp add: final_def)
next
  case (Suc k)
  then show ?case using put_final [of w n k m] by simp
qed

lemma steps_run:
  assumes "ok" "job_ok w n" "distinct (map snd acts)" "snd ` set acts \<subseteq> {..<n}"
  shows "(cs_failed (fold (step w) acts s) = [] \<longleftrightarrow> cs_failed s = [] \<and> (\<forall>a \<in> set acts. good w (cs_mem s) (snd a))) \<and>
    (cs_failed (fold (step w) acts s) = [] \<longrightarrow> cs_mem (fold (step w) acts s) = fold (put w) (map snd acts) (cs_mem s))"
  using assms(3,4)
proof (induction acts arbitrary: s)
  case (Cons a acts)
  obtain t i where a: "a = (t, i)" by fastforce
  have i: "i < n" "i \<notin> snd ` set acts" using Cons.prems a by auto
  have IH: "(cs_failed (fold (step w) acts s') = [] \<longleftrightarrow> cs_failed s' = [] \<and> (\<forall>a \<in> set acts. good w (cs_mem s') (snd a))) \<and>
      (cs_failed (fold (step w) acts s') = [] \<longrightarrow> cs_mem (fold (step w) acts s') = fold (put w) (map snd acts) (cs_mem s'))" for s'
    using Cons.IH [of s'] Cons.prems by simp
  show ?case
  proof (cases "t \<notin> set (cs_failed s) \<and> good w (cs_mem s) i")
    case True
    then have st: "step w (t, i) s = s\<lparr>cs_mem := put w i (cs_mem s)\<rparr>" using step_good [OF assms(1,2) i(1)] by (simp add: put_def)
    have "good w (put w i (cs_mem s)) (snd b) = good w (cs_mem s) (snd b)" if "b \<in> set acts" for b
      by (rule put_other(3) [OF assms(1,2) _ i(1)]) (use that Cons.prems i(2) in force)+
    then show ?thesis using IH [of "step w (t, i) s"] True by (simp add: a st)
  next
    case False
    then have "cs_failed (step w (t, i) s) \<noteq> []" "cs_failed s \<noteq> [] \<or> \<not> good w (cs_mem s) i"
      using step_failed [of t s w i] step_bad [of t s w i] by (auto, force)
    then show ?thesis using IH [of "step w (t, i) s"] by (simp add: a) blast
  qed
qed simp

end

sublocale page_job \<subseteq> pages: indep_actions "put w" "\<lambda>i j. ok \<and> job_ok w n \<and> i < n \<and> j < n \<and> i \<noteq> j" for w n
  by unfold_locales (auto intro: put_commute)

lemma concat_acts: "0 < nt \<Longrightarrow> map snd (concat (crypto_acts n nt)) = [0..<n]"
proof -
  assume nt: "0 < nt"
  have "map snd (concat (crypto_acts n nt)) = concat (map slice_idx (map ((!) (split_work n nt)) [0..<nt]))"
    by (simp add: crypto_acts_def map_concat o_def)
  also have "map ((!) (split_work n nt)) [0..<nt] = split_work n nt" using even_split.slices_length [of n nt] map_nth [of "split_work n nt"] by simp
  finally show ?thesis using even_split.slices_cover [OF nt] by simp
qed

lemma get_num_threads_pos: "0 < get_num_threads env req"
  by (simp add: get_num_threads_def Let_def)

context page_job
begin

text \<open>
  A call on \<open>n\<close> pages: under every schedule it reports success exactly when no context is missing and every page is
  accepted, and then has written every page's output and metadata.
\<close>

lemma threads_run:
  fixes m :: mem
  assumes "ok" "job_ok w n" "crypto_sched_ok env" "0 < nt" "0 < n" "0 < cw_page_size w" "ev_alloc env"
  defines "r \<equiv> crypto_threads env (step w) (cw_page_size w) n nt m"
  shows "(fst r \<longleftrightarrow> (\<forall>t < min nt n. ev_ctx env t) \<and> (\<forall>i < n. good w m i)) \<and> (fst r \<longrightarrow> snd r = final w n m)"
proof -
  define k where "k = min nt n"
  define acts where "acts = ev_sched env (crypto_acts n k)"
  have k: "0 < k" using assms(4,5) by (simp add: k_def)
  have "mset acts = mset (concat (crypto_acts n k))"
    unfolding acts_def by (rule mset_interleave) (use assms(3) in \<open>simp add: crypto_sched_ok_def\<close>)
  then have ms: "mset (map snd acts) = mset [0..<n]"
    unfolding concat_acts [OF k, of n, symmetric] mset_map by simp
  then have st: "snd ` set acts = {..<n}" and ds: "distinct (map snd acts)"
    using mset_eq_setD [OF ms] mset_eq_imp_distinct_iff [OF ms] by (auto simp: atLeast0LessThan)
  let ?s = "\<lparr>cs_mem = m, cs_failed = filter (\<lambda>t. \<not> ev_ctx env t) [0..<k]\<rparr>"
  have r: "r = (cs_failed (fold (step w) acts ?s) = [], cs_mem (fold (step w) acts ?s))"
    using assms(5-7) by (simp add: r_def crypto_threads_def Let_def k_def acts_def)
  have "pairwise_indep (\<lambda>i j. ok \<and> job_ok w n \<and> i < n \<and> j < n \<and> i \<noteq> j) (map snd acts)"
    using assms(1,2) st by (auto simp: pairwise_indep_def)
  then have "fold (put w) (map snd acts) m = final w n m"
    using pages.schedule_perm [OF _ ms] fold_put [OF assms(1,2) order.refl] by simp
  moreover have "(\<forall>a \<in> set acts. good w m (snd a)) = (\<forall>i \<in> snd ` set acts. good w m i)" by simp
  moreover have "(\<forall>i \<in> snd ` set acts. good w m i) = (\<forall>i < n. good w m i)" unfolding st by auto
  ultimately show ?thesis
    using steps_run [OF assms(1,2) ds, of ?s] st by (auto simp: r k_def filter_empty_conv)
qed

end

section \<open>Encryption and decryption as page jobs\<close>

definition page_bytes_at :: "crypto_worker \<Rightarrow> mem \<Rightarrow> nat \<Rightarrow> byte list" where
  "page_bytes_at w m i = read_mem m (cw_src w + i * cw_page_size w) (cw_page_size w)"

definition sealed_page :: "crypto_env \<Rightarrow> crypto_worker \<Rightarrow> mem \<Rightarrow> nat \<Rightarrow> byte list \<times> byte list" where
  "sealed_page env w m i = ev_encrypt env (cw_key w) (build_iv (cw_base_iv w + i)) (page_bytes_at w m i)"

definition opened_page :: "crypto_env \<Rightarrow> crypto_worker \<Rightarrow> mem \<Rightarrow> nat \<Rightarrow> byte list \<times> bool" where
  "opened_page env w m i = ev_decrypt env (cw_key w) (read_mem m (cw_meta w + i * PAGE_META) 12) (page_bytes_at w m i)
     (read_mem m (cw_meta w + i * PAGE_META + 12) 16)"

definition calls_ok :: "crypto_env \<Rightarrow> byte list \<Rightarrow> bool" where
  "calls_ok env iv \<longleftrightarrow> ev_call env iv Evp_Init \<and> ev_call env iv Evp_Update \<and> ev_call env iv Evp_Final \<and> ev_call env iv Evp_Tag"

lemma length_build_iv [simp, layout_simps]: "length (build_iv c) = 12"
  by (simp add: build_iv_def)

lemma read_parts:
  assumes "read_mem m a 28 = read_mem m' a 28"
  shows "read_mem m a 12 = read_mem m' a 12" "read_mem m (a + 12) 16 = read_mem m' (a + 12) 16"
  using assms read_mem_append [of _ a 12 16] by simp_all

interpretation seal: page_job "gcm_ok env" "\<lambda>w m i. fst (sealed_page env w m i)" "\<lambda>w m i. build_iv (cw_base_iv w + i) @ snd (sealed_page env w m i)"
  "\<lambda>w m i. calls_ok env (build_iv (cw_base_iv w + i))" "encrypt_worker env" for env
proof
  fix w n i t and s :: crypto_state
  assume g: "gcm_ok env" "job_ok w n" "i < n" "t \<notin> set (cs_failed s)" "calls_ok env (build_iv (cw_base_iv w + i))"
  let ?iv = "build_iv (cw_base_iv w + i)" and ?ma = "cw_meta w + i * PAGE_META" and ?d = "cw_dst w + i * cw_page_size w" and ?e = "sealed_page env w (cs_mem s) i"
  have ap: "apart (cw_src w + i * cw_page_size w) (cw_page_size w) ?ma PAGE_META" "apart ?d (cw_page_size w) ?ma PAGE_META"
    using g(2) slots_apart [OF _ g(3,3)] by (auto simp: job_ok_def Let_def)
  have e: "ev_encrypt env (cw_key w) ?iv (read_mem (write_mem (cs_mem s) ?ma ?iv) (cw_src w + i * cw_page_size w) (cw_page_size w)) = ?e"
    using ap(1) by (simp add: sealed_page_def page_bytes_at_def, subst read_write_disjoint) (auto simp: apart_def)
  have l: "length (fst ?e) = cw_page_size w" using g(1) by (simp add: gcm_ok_def sealed_page_def page_bytes_at_def)
  have "write_mem (write_mem (write_mem (cs_mem s) ?ma ?iv) ?d (fst ?e)) (?ma + 12) (snd ?e) =
      write_mem (write_mem (write_mem (cs_mem s) ?d (fst ?e)) ?ma ?iv) (?ma + 12) (snd ?e)"
    by (subst apart_write [of ?ma ?iv ?d "fst ?e" "cs_mem s"]) (use ap(2) l in \<open>auto simp: apart_def\<close>)
  also have "\<dots> = write_mem (write_mem (cs_mem s) ?d (fst ?e)) ?ma (?iv @ snd ?e)"
    using write_mem_append [of "write_mem (cs_mem s) ?d (fst ?e)" ?ma ?iv] by simp
  finally show "encrypt_worker env w (t, i) s = s\<lparr>cs_mem := write_mem (write_mem (cs_mem s) ?d (fst ?e)) ?ma (?iv @ snd ?e)\<rparr>"
    using g(4,5) e by (simp add: encrypt_worker_def Let_def calls_ok_def)
qed (auto simp: gcm_ok_def sealed_page_def page_bytes_at_def encrypt_worker_def Let_def calls_ok_def)

interpretation unseal: page_job "gcm_ok env" "\<lambda>w m i. fst (opened_page env w m i)" "\<lambda>w m i. read_mem m (cw_meta w + i * PAGE_META) PAGE_META"
  "\<lambda>w m i. calls_ok env (read_mem m (cw_meta w + i * PAGE_META) 12) \<and> snd (opened_page env w m i)" "decrypt_worker env" for env
proof
  fix w n i t and s :: crypto_state
  assume g: "gcm_ok env" "job_ok w n" "i < n" "t \<notin> set (cs_failed s)"
    "calls_ok env (read_mem (cs_mem s) (cw_meta w + i * PAGE_META) 12) \<and> snd (opened_page env w (cs_mem s) i)"
  let ?ma = "cw_meta w + i * PAGE_META" and ?d = "cw_dst w + i * cw_page_size w" and ?p = "fst (opened_page env w (cs_mem s) i)"
  have ap: "apart ?d (cw_page_size w) ?ma PAGE_META" using g(2) slots_apart [OF _ g(3,3)] by (auto simp: job_ok_def Let_def)
  have l: "length ?p = cw_page_size w" using g(1) by (simp add: gcm_ok_def opened_page_def page_bytes_at_def)
  have "write_mem (write_mem (cs_mem s) ?d ?p) ?ma (read_mem (cs_mem s) ?ma PAGE_META) = write_mem (cs_mem s) ?d ?p"
    using ap l by (auto simp: apart_def write_mem_def fun_eq_iff)
  then show "decrypt_worker env w (t, i) s =
      s\<lparr>cs_mem := write_mem (write_mem (cs_mem s) ?d ?p) ?ma (read_mem (cs_mem s) ?ma PAGE_META)\<rparr>"
    using g(4,5) by (simp add: decrypt_worker_def Let_def calls_ok_def opened_page_def page_bytes_at_def)
next
  fix w :: crypto_worker and i m m'
  assume "read_mem m (cw_src w + i * cw_page_size w) (cw_page_size w) = read_mem m' (cw_src w + i * cw_page_size w) (cw_page_size w)"
    "read_mem m (cw_meta w + i * PAGE_META) PAGE_META = read_mem m' (cw_meta w + i * PAGE_META) PAGE_META"
  with read_parts [OF this(2)]
  show "fst (opened_page env w m i) = fst (opened_page env w m' i) \<and>
      read_mem m (cw_meta w + i * PAGE_META) PAGE_META = read_mem m' (cw_meta w + i * PAGE_META) PAGE_META \<and>
      (calls_ok env (read_mem m (cw_meta w + i * PAGE_META) 12) \<and> snd (opened_page env w m i)) =
      (calls_ok env (read_mem m' (cw_meta w + i * PAGE_META) 12) \<and> snd (opened_page env w m' i))"
    by (simp add: opened_page_def page_bytes_at_def)
qed (auto simp: gcm_ok_def opened_page_def page_bytes_at_def decrypt_worker_def Let_def calls_ok_def)

lemma read_block:
  assumes "read_mem m a (n * k) = concat (map f [0..<n])" "\<And>i. length (f i) = k" "i < n"
  shows "read_mem m (a + i * k) k = f i"
proof -
  have "read_mem m a (n * k) = concat (map f [0..<i]) @ f i @ concat (map f [Suc i..<n])"
    using assms(1,3) upt_add_eq_append [of 0 i "n - i"] upt_conv_Cons [of i n] by simp
  moreover have "n * k = i * k + (k + (n - Suc i) * k)" using assms(3) by (metis add_mult_distrib add_diff_inverse_nat less_antisym mult_Suc not_less_eq add.assoc Suc_leI le_add_diff_inverse add_Suc_right add.commute)
  moreover have "length (concat (map f [0..<i])) = i * k" using assms(2) by (simp add: length_concat o_def sum_list_triv)
  ultimately show ?thesis using assms(2) by (simp add: read_mem_append)
qed

text \<open>What the two calls do, for every thread count and schedule.\<close>

definition seal_image :: "crypto_env \<Rightarrow> crypto_worker \<Rightarrow> nat \<Rightarrow> mem \<Rightarrow> mem" where
  "seal_image env w n m = write_mem (write_mem m (cw_dst w) (concat (map (\<lambda>i. fst (sealed_page env w m i)) [0..<n])))
     (cw_meta w) (concat (map (\<lambda>i. build_iv (cw_base_iv w + i) @ snd (sealed_page env w m i)) [0..<n]))"

lemma encrypt_pages_run:
  assumes "gcm_ok env" "job_ok w n" "crypto_sched_ok env" "0 < n" "0 < cw_page_size w"
  shows "ckpt_crypto_encrypt_pages env w n threads m = (True, m') \<Longrightarrow> m' = seal_image env w n m"
    and "evp_live env \<Longrightarrow> ckpt_crypto_encrypt_pages env w n threads m = (True, seal_image env w n m)"
proof -
  note t = seal.threads_run [OF assms(1-3) get_num_threads_pos [of env threads] assms(4,5), where m = m]
  show "m' = seal_image env w n m" if r: "ckpt_crypto_encrypt_pages env w n threads m = (True, m')"
  proof -
    have "ev_alloc env" using r assms(4,5) by (auto simp: ckpt_crypto_encrypt_pages_def crypto_threads_def split: if_splits)
    then show ?thesis using t r by (simp add: ckpt_crypto_encrypt_pages_def seal.final_def seal_image_def)
  qed
  show "ckpt_crypto_encrypt_pages env w n threads m = (True, seal_image env w n m)" if "evp_live env"
    using t that by (simp add: ckpt_crypto_encrypt_pages_def seal.final_def seal_image_def evp_live_def calls_ok_def prod_eq_iff)
qed

lemma meta_rewrite: "concat (map (\<lambda>i. read_mem m (a + i * k) k) [0..<n]) = read_mem m a (n * k)"
  by (induction n) (simp_all add: read_mem_append [symmetric] add.commute, simp add: read_mem_def)

lemma decrypt_pages_run:
  fixes m :: mem and threads :: int and w :: crypto_worker
  assumes "gcm_ok env" "job_ok w n" "crypto_sched_ok env" "0 < n" "0 < cw_page_size w" "evp_live env"
  defines "r \<equiv> ckpt_crypto_decrypt_pages env w n threads m"
  shows "fst r \<longleftrightarrow> (\<forall>i < n. snd (opened_page env w m i))"
    and "fst r \<Longrightarrow> snd r = write_mem m (cw_dst w) (concat (map (\<lambda>i. fst (opened_page env w m i)) [0..<n]))"
proof -
  let ?o = "concat (map (\<lambda>i. fst (opened_page env w m i)) [0..<n])"
  have al: "ev_alloc env" using assms(6) by (simp add: evp_live_def)
  have lo: "length ?o = n * cw_page_size w" using assms(1) by (simp add: length_concat o_def gcm_ok_def opened_page_def page_bytes_at_def sum_list_triv)
  then have w: "write_mem (write_mem m (cw_dst w) ?o) (cw_meta w) (read_mem m (cw_meta w) (n * PAGE_META)) = write_mem m (cw_dst w) ?o"
    using assms(2) by (auto simp: job_ok_def Let_def apart_def write_mem_def fun_eq_iff)
  note t = unseal.threads_run [OF assms(1-3) get_num_threads_pos [of env threads] assms(4,5) al, where m = m]
  show "fst r \<longleftrightarrow> (\<forall>i < n. snd (opened_page env w m i))"
    using t assms(6) by (auto simp: r_def ckpt_crypto_decrypt_pages_def evp_live_def calls_ok_def)
  show "snd r = write_mem m (cw_dst w) ?o" if "fst r"
    using t that w by (simp add: r_def ckpt_crypto_decrypt_pages_def unseal.final_def meta_rewrite)
qed

section \<open>IVs\<close>

lemma le_bytes_inj: "v < 256 ^ n \<Longrightarrow> v' < 256 ^ n \<Longrightarrow> le_bytes n v = le_bytes n v' \<Longrightarrow> v = v'"
  by (metis le_nat_le_bytes)

lemma build_iv_eq: "build_iv c = build_iv c' \<longleftrightarrow> u64 c = u64 c'"
  using le_bytes_inj [of "u64 c" 8 "u64 c'"] u64_less [of c] u64_less [of c'] by (auto simp: build_iv_def)

lemma build_iv_distinct: "n \<le> 2 ^ 64 \<Longrightarrow> distinct (map (\<lambda>i. build_iv (c + i)) [0..<n])"
proof (unfold distinct_map, intro conjI inj_onI)
  fix i j assume n: "n \<le> 2 ^ 64" and ij: "i \<in> set [0..<n]" "j \<in> set [0..<n]" "build_iv (c + i) = build_iv (c + j)"
  then have "(c + i) mod 2 ^ 64 = (c + j) mod 2 ^ 64" by (simp add: build_iv_eq u64_def)
  then have "i mod 2 ^ 64 = j mod 2 ^ 64" by (simp add: nat_mod_eq_iff)
  then show "i = j" using n ij(1,2) by simp
qed simp

section \<open>Properties\<close>

definition sample_crypto :: crypto_env where
  "sample_crypto =
     \<lparr>ev_encrypt = (\<lambda>k iv p. (map (\<lambda>b. b + 1) p, replicate 16 0)), ev_decrypt = (\<lambda>k iv c t. (map (\<lambda>b. b - 1) c, t = replicate 16 0)),
      ev_ctx = (\<lambda>_. True), ev_call = (\<lambda>_ _. True), ev_alloc = True, ev_cpus = 8, ev_rand = Some (replicate 32 7), ev_sched = concat\<rparr>"

lemma sample_crypto_ok: "gcm_ok sample_crypto" "crypto_sched_ok sample_crypto" "evp_live sample_crypto"
  by (auto simp: gcm_ok_def crypto_sched_ok_def evp_live_def sample_crypto_def concat_in_interleave o_def)

text \<open>
  C9: round trip of the page encryption: pages that \<open>ckpt_crypto_encrypt_pages\<close> encrypted, in place or into
  another buffer, are decrypted by \<open>ckpt_crypto_decrypt_pages\<close> to exactly the original bytes, whatever the thread
  counts and schedules of the two calls; and a decryption that finds its memory in any other state
  reports success exactly when every page's tag is accepted.
\<close>

theorem crypto_pages_roundtrip:
  assumes "gcm_ok env" "ev_encrypt env' = ev_encrypt env" "ev_decrypt env' = ev_decrypt env"
    and "crypto_sched_ok env" "crypto_sched_ok env'" "evp_live env'" "job_ok w n" "0 < n" "0 < cw_page_size w"
    and "ckpt_crypto_encrypt_pages env w n threads m = (True, m1)" "w' = w\<lparr>cw_src := cw_dst w, cw_dst := out\<rparr>" "job_ok w' n"
  shows "ckpt_crypto_decrypt_pages env' w' n threads' m1 = (True, write_mem m1 out (read_mem m (cw_src w) (n * cw_page_size w))) \<and>
    (\<forall>m2. fst (ckpt_crypto_decrypt_pages env' w' n threads' m2) \<longleftrightarrow> (\<forall>i < n. snd (opened_page env' w' m2 i)))"
proof -
  let ?psz = "cw_page_size w" and ?c = "concat (map (\<lambda>i. fst (sealed_page env w m i)) [0..<n])"
  let ?d = "concat (map (\<lambda>i. build_iv (cw_base_iv w + i) @ snd (sealed_page env w m i)) [0..<n])"
  have w': "cw_key w' = cw_key w" "cw_src w' = cw_dst w" "cw_dst w' = out" "cw_meta w' = cw_meta w" "cw_page_size w' = ?psz" by (simp_all add: assms(11))
  have g': "gcm_ok env'" using assms(1-3) by (simp add: gcm_ok_def)
  have m1: "m1 = write_mem (write_mem m (cw_dst w) ?c) (cw_meta w) ?d"
    using encrypt_pages_run(1) [OF assms(1,7,4,8,9,10)] by (simp add: seal_image_def)
  have sz: "length (fst (sealed_page env w m i)) = ?psz" "length (build_iv (cw_base_iv w + i) @ snd (sealed_page env w m i)) = PAGE_META" for i
    using assms(1) by (simp_all add: gcm_ok_def sealed_page_def page_bytes_at_def)
  have lc: "length ?c = n * ?psz" "length ?d = n * PAGE_META" using sz by (simp_all add: length_concat o_def sum_list_triv)
  have rd: "read_mem m1 (cw_dst w) (n * ?psz) = ?c" "read_mem m1 (cw_meta w) (n * PAGE_META) = ?d"
    unfolding m1 using assms(7) lc by (auto simp: read_write_same read_write_disjoint job_ok_def Let_def apart_def)
  have op: "opened_page env' w' m1 i = (page_bytes_at w m i, True)" if i: "i < n" for i
  proof -
    have "page_bytes_at w' m1 i = fst (sealed_page env w m i)"
      using read_block [OF rd(1) _ i] sz by (simp add: page_bytes_at_def w')
    moreover have "read_mem m1 (cw_meta w + i * PAGE_META) PAGE_META = build_iv (cw_base_iv w + i) @ snd (sealed_page env w m i)"
      using read_block [OF rd(2) _ i] sz by simp
    then have "read_mem m1 (cw_meta w + i * PAGE_META) 12 = build_iv (cw_base_iv w + i)" "read_mem m1 (cw_meta w + i * PAGE_META + 12) 16 = snd (sealed_page env w m i)"
      using read_mem_append [of m1 "cw_meta w + i * PAGE_META" 12 16] sz(2) [of i] by (simp_all add: append_eq_append_conv)
    ultimately show ?thesis using assms(1,3) by (simp add: opened_page_def w' sealed_page_def gcm_ok_def)
  qed
  note dec = decrypt_pages_run [OF g' assms(12,5,8) _ assms(6), unfolded w', OF assms(9)]
  have "map (\<lambda>i. fst (opened_page env' w' m1 i)) [0..<n] = map (\<lambda>i. read_mem m (cw_src w + i * ?psz) ?psz) [0..<n]"
    using op by (simp add: page_bytes_at_def)
  then have "concat (map (\<lambda>i. fst (opened_page env' w' m1 i)) [0..<n]) = read_mem m (cw_src w) (n * ?psz)"
    by (simp only: meta_rewrite)
  then show ?thesis using dec op by (simp add: prod_eq_iff)
qed

definition sample_worker :: crypto_worker where
  "sample_worker = \<lparr>cw_key = replicate 32 7, cw_src = 0, cw_dst = 0, cw_meta = 16384, cw_page_size = 4096, cw_base_iv = 0\<rparr>"

theorem crypto_pages_roundtrip_witness:
  "\<exists>m1 m2. ckpt_crypto_encrypt_pages sample_crypto sample_worker 2 5 (\<lambda>_. 9) = (True, m1) \<and>
     ckpt_crypto_decrypt_pages sample_crypto (sample_worker\<lparr>cw_src := 0, cw_dst := 32768\<rparr>) 2 0 m1 = (True, m2) \<and>
     read_mem m2 32768 8192 = replicate 8192 9"
proof -
  let ?w = sample_worker and ?w' = "sample_worker\<lparr>cw_src := cw_dst sample_worker, cw_dst := 32768\<rparr>"
  have j: "job_ok ?w 2" "job_ok ?w' 2" "0 < cw_page_size ?w" "cw_src ?w = 0" "cw_page_size ?w = 4096"
    by (simp_all add: job_ok_def sample_worker_def apart_def Let_def)
  obtain m1 where e: "ckpt_crypto_encrypt_pages sample_crypto ?w 2 5 (\<lambda>_. 9) = (True, m1)"
    using encrypt_pages_run(2) [OF sample_crypto_ok(1) j(1) sample_crypto_ok(2) _ j(3) sample_crypto_ok(3)] by simp
  have "read_mem (\<lambda>_. 9) 0 8192 = replicate 8192 (9 :: byte)" by (simp add: read_mem_def map_replicate_const)
  with crypto_pages_roundtrip [OF sample_crypto_ok(1) refl refl sample_crypto_ok(2,2,3) j(1) _ j(3) e refl j(2), of 0] e show ?thesis
    by (auto simp: j read_write_same sample_worker_def)
qed

end
