(* ===== verification/Encrypt_Captures.thy ===== *)
theory Encrypt_Captures
  imports Ckpt_Crypto Image_Format
begin

text \<open>
  The encryption of captures with the key k3 in \<open>ckpt_core.c\<close>: \<open>encrypt_captures_batch\<close> for CPU and GPU pages,
  \<open>encrypt_cpu_pages_batch\<close> for the CPU pages of captures whose GPU pages the driver has encrypted. Both gather
  the pages in one buffer, encrypt it, and scatter the result and its metadata over the captures.
\<close>

section \<open>The code\<close>

text \<open>The gathered buffer is at address 0 and the metadata behind it; \<open>al\<close> says which allocations succeed.\<close>

abbreviation cpu_part :: "range_capture \<Rightarrow> byte list" where
  "cpu_part c \<equiv> take (rc_cpu_bytes c) (rc_cpu_buf c)"

abbreviation gpu_part :: "range_capture \<Rightarrow> byte list" where
  "gpu_part c \<equiv> take (rc_gpu_bytes c) (rc_gpu_buf c)"

definition k3_worker :: "byte list \<Rightarrow> nat \<Rightarrow> nat \<Rightarrow> nat \<Rightarrow> crypto_worker" where
  "k3_worker key tot chunk iv = \<lparr>cw_key = key, cw_src = 0, cw_dst = 0, cw_meta = tot, cw_page_size = chunk, cw_base_iv = iv\<rparr>"

text \<open>A 28-byte page entry as a metadata entry of the image.\<close>

definition k3_meta :: "nat \<Rightarrow> byte list \<Rightarrow> crypto_meta" where
  "k3_meta chunk pm = \<lparr>cm_size = chunk mod 2 ^ 32, cm_iv = take 12 pm, cm_iv_fresh = 0, cm_auth_tag = drop 12 pm, cm_key_version = 0\<rparr>"

definition k3_metas :: "mem \<Rightarrow> nat \<Rightarrow> nat \<Rightarrow> nat \<Rightarrow> nat \<Rightarrow> byte list" where
  "k3_metas m tot chunk k n =
     concat (map (\<lambda>p. enc_meta (k3_meta chunk (read_mem m (tot + (k + p) * PAGE_META) PAGE_META))) [0..<n])"

definition u32 :: "nat \<Rightarrow> nat" where
  "u32 n = n mod 2 ^ 32"

fun scatter_all :: "(nat \<Rightarrow> bool) \<Rightarrow> mem \<Rightarrow> nat \<Rightarrow> nat \<Rightarrow> nat \<Rightarrow> nat \<Rightarrow> range_capture list \<Rightarrow> range_capture list" where
  "scatter_all al m tot chunk off k [] = []"
| "scatter_all al m tot chunk off k (c # cs) =
     (let nc = rc_cpu_bytes c; ng = rc_gpu_bytes c; n = u32 ((nc + ng) div chunk);
          c1 = c\<lparr>rc_cpu_buf := read_mem m off nc @ drop nc (rc_cpu_buf c), rc_gpu_buf := read_mem m (off + nc) ng @ drop ng (rc_gpu_buf c)\<rparr>;
          c2 = (if n = 0 then c1
                else if al (n * META_SIZE) then c1\<lparr>rc_crypto_meta := Some (k3_metas m tot chunk k n), rc_enc_count := n\<rparr>
                else c1\<lparr>rc_crypto_meta := None\<rparr>)
      in c2 # scatter_all al m tot chunk (off + nc + ng) (k + n) cs)"

definition encrypt_captures_batch ::
  "crypto_env \<Rightarrow> (nat \<Rightarrow> bool) \<Rightarrow> byte list \<Rightarrow> int \<Rightarrow> nat \<Rightarrow> range_capture list \<Rightarrow> nat \<Rightarrow> (range_capture list \<times> nat) option" where
  "encrypt_captures_batch env al key threads chunk0 caps iv =
     (let chunk = (if chunk0 = 0 then PAGE_SIZE else chunk0); tot = sum_list (map (\<lambda>c. rc_cpu_bytes c + rc_gpu_bytes c) caps);
          n = u32 (tot div chunk)
      in if tot = 0 \<or> n = 0 then Some (caps, iv)
         else if \<not> al tot \<or> \<not> al (n * PAGE_META) then None
         else case ckpt_crypto_encrypt_pages env (k3_worker key tot chunk iv) n threads
                     (write_mem (\<lambda>_. 0) 0 (concat (map (\<lambda>c. cpu_part c @ gpu_part c) caps))) of
           (ok, m) \<Rightarrow> if \<not> ok then None else Some (scatter_all al m tot chunk 0 0 caps, u64 (iv + n)))"

text \<open>The CPU pages only; their metadata goes behind the entries the capture has. A failed \<open>realloc\<close> leaves the capture without them.\<close>

fun scatter_cpu :: "(nat \<Rightarrow> bool) \<Rightarrow> mem \<Rightarrow> nat \<Rightarrow> nat \<Rightarrow> nat \<Rightarrow> range_capture list \<Rightarrow> range_capture list" where
  "scatter_cpu al m tot off k [] = []"
| "scatter_cpu al m tot off k (c # cs) =
     (let nc = rc_cpu_bytes c; n = u32 (nc div PAGE_SIZE);
          c1 = c\<lparr>rc_cpu_buf := read_mem m off nc @ drop nc (rc_cpu_buf c)\<rparr>;
          old = (case rc_crypto_meta c of None \<Rightarrow> [] | Some b \<Rightarrow> take (rc_enc_count c * META_SIZE) b);
          c2 = (if nc = 0 then c
                else if n = 0 \<or> \<not> al ((rc_enc_count c + n) * META_SIZE) then c1
                else c1\<lparr>rc_crypto_meta := Some (old @ k3_metas m tot PAGE_SIZE k n), rc_enc_count := rc_enc_count c + n\<rparr>)
      in c2 # scatter_cpu al m tot (off + nc) (k + n) cs)"

definition encrypt_cpu_pages_batch ::
  "crypto_env \<Rightarrow> (nat \<Rightarrow> bool) \<Rightarrow> byte list \<Rightarrow> int \<Rightarrow> range_capture list \<Rightarrow> nat \<Rightarrow> (range_capture list \<times> nat) option" where
  "encrypt_cpu_pages_batch env al key threads caps iv =
     (let tot = sum_list (map rc_cpu_bytes caps); n = u32 (tot div PAGE_SIZE)
      in if tot = 0 \<or> n = 0 then Some (caps, iv)
         else if \<not> al tot \<or> \<not> al (n * PAGE_META) then None
         else case ckpt_crypto_encrypt_pages env (k3_worker key tot PAGE_SIZE iv) n threads (write_mem (\<lambda>_. 0) 0 (concat (map cpu_part caps))) of
           (ok, m) \<Rightarrow> if \<not> ok then None else Some (scatter_cpu al m tot 0 0 caps, u64 (iv + n)))"

section \<open>What is encrypted\<close>

text \<open>A byte string in chunks, chunk \<open>i\<close> encrypted with IV counter \<open>iv + i\<close>: the ciphertext and the metadata entries.\<close>

definition seal_chunk :: "crypto_env \<Rightarrow> byte list \<Rightarrow> nat \<Rightarrow> nat \<Rightarrow> byte list \<Rightarrow> nat \<Rightarrow> byte list \<times> byte list" where
  "seal_chunk env key chunk iv bs i = ev_encrypt env key (build_iv (iv + i)) (take chunk (drop (i * chunk) bs))"

definition sealed_bytes :: "crypto_env \<Rightarrow> byte list \<Rightarrow> nat \<Rightarrow> nat \<Rightarrow> byte list \<Rightarrow> byte list" where
  "sealed_bytes env key chunk iv bs = concat (map (\<lambda>i. fst (seal_chunk env key chunk iv bs i)) [0..<length bs div chunk])"

definition chunk_meta :: "crypto_env \<Rightarrow> byte list \<Rightarrow> nat \<Rightarrow> nat \<Rightarrow> byte list \<Rightarrow> nat \<Rightarrow> crypto_meta" where
  "chunk_meta env key chunk iv bs i =
     \<lparr>cm_size = chunk, cm_iv = build_iv (iv + i), cm_iv_fresh = 0, cm_auth_tag = snd (seal_chunk env key chunk iv bs i), cm_key_version = 0\<rparr>"

definition sealed_meta :: "crypto_env \<Rightarrow> byte list \<Rightarrow> nat \<Rightarrow> nat \<Rightarrow> byte list \<Rightarrow> byte list" where
  "sealed_meta env key chunk iv bs = concat (map (\<lambda>i. enc_meta (chunk_meta env key chunk iv bs i)) [0..<length bs div chunk])"

lemma chunk_len: "length bs = n * chunk \<Longrightarrow> i < n \<Longrightarrow> length (take chunk (drop (i * chunk) bs)) = chunk"
proof -
  assume "length bs = n * chunk" "i < n"
  then have "Suc i * chunk \<le> length bs" by (metis Suc_leI mult_le_mono1)
  then show ?thesis by simp
qed

lemma seal_chunk_len:
  assumes "gcm_ok env" "length bs = n * chunk" "i < n"
  shows "length (fst (seal_chunk env key chunk iv bs i)) = chunk" "length (snd (seal_chunk env key chunk iv bs i)) = 16"
  using assms(1) chunk_len [OF assms(2,3)] by (simp_all only: seal_chunk_def gcm_ok_def)

lemma length_sealed:
  assumes "gcm_ok env" "length bs = n * chunk" "0 < chunk"
  shows "length (sealed_bytes env key chunk iv bs) = n * chunk" "length (sealed_meta env key chunk iv bs) = n * META_SIZE"
proof -
  have n: "length bs div chunk = n" using assms(2,3) by simp
  show "length (sealed_bytes env key chunk iv bs) = n * chunk"
    unfolding sealed_bytes_def n by (subst length_concat_blocks) (use seal_chunk_len(1) [OF assms(1,2)] in auto)
  show "length (sealed_meta env key chunk iv bs) = n * META_SIZE"
    unfolding sealed_meta_def n
    by (subst length_concat_blocks) (use seal_chunk_len(2) [OF assms(1,2)] in \<open>auto simp: enc_meta_def chunk_meta_def\<close>)
qed

lemma take_drop_mid:
  assumes "length xs = a * chunk" "length ys = b * chunk" "i < b"
  shows "take chunk (drop ((a + i) * chunk) (xs @ ys @ zs)) = take chunk (drop (i * chunk) ys)"
proof -
  have "Suc i * chunk \<le> b * chunk" using assms(3) by (metis Suc_leI mult_le_mono1)
  then show ?thesis using assms(1,2) by (simp add: add_mult_distrib)
qed

text \<open>After the call, the part of the buffer that holds \<open>ys\<close> and its entries.\<close>

lemma sealed_slice:
  assumes "gcm_ok env" "data = xs @ ys @ zs" "length xs = a * chunk" "length ys = b * chunk" "length data = n * chunk" "0 < chunk" "chunk < 2 ^ 32"
    and "m = seal_image env (k3_worker key (n * chunk) chunk iv) n (write_mem (\<lambda>_. 0) 0 data)"
  shows "read_mem m (a * chunk) (b * chunk) = sealed_bytes env key chunk (iv + a) ys"
    and "k3_metas m (n * chunk) chunk a b = sealed_meta env key chunk (iv + a) ys"
proof -
  let ?w = "k3_worker key (n * chunk) chunk iv" and ?m0 = "write_mem (\<lambda>_. 0) 0 data"
  have bn: "a + b \<le> n" using assms(2-6) by (metis add_mult_distrib le_add1 length_append mult_le_cancel2 add.assoc)
  have pg: "sealed_page env ?w ?m0 i = seal_chunk env key chunk iv data i" if "i < n" for i
  proof -
    have "Suc i * chunk \<le> length data" using that assms(5) by (metis Suc_leI mult_le_mono1)
    then have "read_mem ?m0 (i * chunk) chunk = take chunk (drop (i * chunk) data)"
      by (intro nth_equalityI) (auto simp: write_mem_def)
    then show ?thesis by (simp add: sealed_page_def page_bytes_at_def k3_worker_def seal_chunk_def)
  qed
  define f where "f i = (if i < n then fst (seal_chunk env key chunk iv data i) else replicate chunk 0)" for i
  define g where "g i = (if i < n then build_iv (iv + i) @ snd (seal_chunk env key chunk iv data i) else replicate PAGE_META 0)" for i
  have lf: "length (f i) = chunk" "length (g i) = PAGE_META" for i
    using seal_chunk_len [OF assms(1,5)] by (simp_all add: f_def g_def)
  have cf: "map (\<lambda>i. fst (sealed_page env ?w ?m0 i)) [0..<n] = map f [0..<n]"
    "map (\<lambda>i. build_iv (cw_base_iv ?w + i) @ snd (sealed_page env ?w ?m0 i)) [0..<n] = map g [0..<n]"
    using pg by (simp_all add: f_def g_def) (simp add: k3_worker_def)
  have m: "m = write_mem (write_mem ?m0 0 (concat (map f [0..<n]))) (n * chunk) (concat (map g [0..<n]))"
    unfolding assms(8) seal_image_def cf by (simp add: k3_worker_def)
  have ll: "length (concat (map f [0..<n])) = n * chunk" "length (concat (map g [0..<n])) = n * PAGE_META"
    using lf by (simp_all add: length_concat o_def sum_list_triv)
  have rf: "read_mem m 0 (n * chunk) = concat (map f [0..<n])" "read_mem m (n * chunk) (n * PAGE_META) = concat (map g [0..<n])"
    unfolding m using ll by (simp_all add: read_write_same read_write_disjoint)
  have at: "seal_chunk env key chunk iv data (a + i) = seal_chunk env key chunk (iv + a) ys i" if "i < b" for i
    using take_drop_mid [OF assms(3,4) that, of zs] by (simp add: seal_chunk_def assms(2) add.assoc)
  have lb: "length ys div chunk = b" using assms(4,6) by simp
  have "read_mem m (a * chunk + i * chunk) chunk = fst (seal_chunk env key chunk (iv + a) ys i)" if "i < b" for i
    using read_block [OF rf(1) lf(1), of "a + i"] bn that at [OF that] by (simp add: f_def add_mult_distrib)
  then show "read_mem m (a * chunk) (b * chunk) = sealed_bytes env key chunk (iv + a) ys"
    unfolding sealed_bytes_def lb meta_rewrite [symmetric] by (intro arg_cong [where f = concat]) simp
  have "k3_meta chunk (read_mem m (n * chunk + (a + p) * PAGE_META) PAGE_META) = chunk_meta env key chunk (iv + a) ys p" if "p < b" for p
    using read_block [OF rf(2) lf(2), of "a + p"] bn that at [OF that] assms(7) by (simp add: g_def k3_meta_def chunk_meta_def add.assoc)
  then show "k3_metas m (n * chunk) chunk a b = sealed_meta env key chunk (iv + a) ys"
    unfolding sealed_meta_def lb k3_metas_def by (intro arg_cong [where f = concat]) simp
qed

section \<open>Captures one by one\<close>

text \<open>The reference: every capture on its own, the IV counter going on from one to the next.\<close>

definition seal_cpu :: "crypto_env \<Rightarrow> byte list \<Rightarrow> nat \<Rightarrow> range_capture \<Rightarrow> range_capture" where
  "seal_cpu env key iv c =
     (if rc_cpu_bytes c = 0 then c
      else c\<lparr>rc_cpu_buf := sealed_bytes env key PAGE_SIZE iv (cpu_part c) @ drop (rc_cpu_bytes c) (rc_cpu_buf c),
             rc_crypto_meta := Some ((case rc_crypto_meta c of None \<Rightarrow> [] | Some b \<Rightarrow> take (rc_enc_count c * META_SIZE) b) @
               sealed_meta env key PAGE_SIZE iv (cpu_part c)),
             rc_enc_count := rc_enc_count c + rc_cpu_bytes c div PAGE_SIZE\<rparr>)"

fun seal_cpus :: "crypto_env \<Rightarrow> byte list \<Rightarrow> nat \<Rightarrow> range_capture list \<Rightarrow> range_capture list" where
  "seal_cpus env key iv [] = []"
| "seal_cpus env key iv (c # cs) = seal_cpu env key iv c # seal_cpus env key (iv + rc_cpu_bytes c div PAGE_SIZE) cs"

definition seal_both :: "crypto_env \<Rightarrow> byte list \<Rightarrow> nat \<Rightarrow> nat \<Rightarrow> range_capture \<Rightarrow> range_capture" where
  "seal_both env key chunk iv c =
     (let d = cpu_part c @ gpu_part c; e = sealed_bytes env key chunk iv d
      in if d = [] then c
         else c\<lparr>rc_cpu_buf := take (rc_cpu_bytes c) e @ drop (rc_cpu_bytes c) (rc_cpu_buf c),
                rc_gpu_buf := drop (rc_cpu_bytes c) e @ drop (rc_gpu_bytes c) (rc_gpu_buf c),
                rc_crypto_meta := Some (sealed_meta env key chunk iv d), rc_enc_count := length d div chunk\<rparr>)"

fun seal_boths :: "crypto_env \<Rightarrow> byte list \<Rightarrow> nat \<Rightarrow> nat \<Rightarrow> range_capture list \<Rightarrow> range_capture list" where
  "seal_boths env key chunk iv [] = []"
| "seal_boths env key chunk iv (c # cs) =
     seal_both env key chunk iv c # seal_boths env key chunk (iv + (rc_cpu_bytes c + rc_gpu_bytes c) div chunk) cs"

lemma scatter_cpu_sealed:
  assumes "gcm_ok env" "m = seal_image env (k3_worker key (n * PAGE_SIZE) PAGE_SIZE iv) n (write_mem (\<lambda>_. 0) 0 data)"
    and "length data = n * PAGE_SIZE" "n < 2 ^ 32" "\<forall>k. al k"
    and "data = pre @ concat (map cpu_part cs)" "length pre = k * PAGE_SIZE" "\<forall>c \<in> set cs. cap_wf c \<and> PAGE_SIZE dvd rc_cpu_bytes c"
  shows "scatter_cpu al m (n * PAGE_SIZE) (k * PAGE_SIZE) k cs = seal_cpus env key (iv + k) cs"
  using assms(6-8)
proof (induction cs arbitrary: pre k)
  case (Cons c cs)
  obtain b where b: "rc_cpu_bytes c = b * PAGE_SIZE" using Cons.prems(3) by (auto simp: dvd_def mult.commute)
  have lp: "length (cpu_part c) = b * PAGE_SIZE" using Cons.prems(3) b by (simp add: cap_wf_def)
  have d: "data = pre @ cpu_part c @ concat (map cpu_part cs)" using Cons.prems(1) by simp
  note sl = sealed_slice [OF assms(1) d Cons.prems(2) lp assms(3) _ _ assms(2)]
  have "length pre + b * PAGE_SIZE \<le> n * PAGE_SIZE" using arg_cong [OF d, of length] lp assms(3) by simp
  then have bn: "b < 2 ^ 32" using assms(4) by simp
  then have n: "u32 (rc_cpu_bytes c div PAGE_SIZE) = b" by (simp add: b u32_def)
  have "scatter_cpu al m (n * PAGE_SIZE) ((k + b) * PAGE_SIZE) (k + b) cs = seal_cpus env key (iv + (k + b)) cs"
    by (rule Cons.IH [of "pre @ cpu_part c"]) (use Cons.prems lp in auto)
  moreover have "rc_cpu_bytes c div PAGE_SIZE = b" by (simp add: b)
  moreover have "al = (\<lambda>_. True)" using assms(5) by auto
  ultimately show ?case using sl n b
    by (simp add: Let_def seal_cpu_def add_mult_distrib add.assoc)
qed simp

lemma encrypt_cpu_pages_sealed:
  assumes "gcm_ok env" "crypto_sched_ok env" "\<forall>k. al k" "\<forall>c \<in> set caps. cap_wf c \<and> PAGE_SIZE dvd rc_cpu_bytes c"
    and "tot = sum_list (map rc_cpu_bytes caps)" "tot < 2 ^ 44"
  shows "encrypt_cpu_pages_batch env al key threads caps iv = Some r \<Longrightarrow>
      r = (seal_cpus env key iv caps, if tot = 0 then iv else u64 (iv + tot div PAGE_SIZE))"
    and "evp_live env \<Longrightarrow> encrypt_cpu_pages_batch env al key threads caps iv \<noteq> None"
proof -
  let ?data = "concat (map cpu_part caps)"
  have "PAGE_SIZE dvd tot" using assms(4) unfolding assms(5) by (induction caps) auto
  then obtain n where n: "tot = n * PAGE_SIZE" by (metis dvd_def mult.commute)
  have len: "length ?data = tot" using assms(4,5) by (induction caps arbitrary: tot) (auto simp: cap_wf_def)
  have n32: "n < 2 ^ 32" "u32 n = n" using assms(6) n by (simp_all add: u32_def)
  have z: "seal_cpus env key iv caps = caps" if "tot = 0"
    using that assms(5) by (induction caps arbitrary: iv) (auto simp: seal_cpu_def)
  let ?w = "k3_worker key tot PAGE_SIZE iv" and ?m0 = "write_mem (\<lambda>_. 0) 0 ?data"
  have w: "job_ok ?w n" "0 < cw_page_size ?w" by (simp_all add: job_ok_def k3_worker_def apart_def Let_def n)
  have run: "encrypt_cpu_pages_batch env al key threads caps iv = (if n = 0 then Some (caps, iv)
      else case ckpt_crypto_encrypt_pages env ?w n threads ?m0 of (ok, m) \<Rightarrow> if \<not> ok then None else Some (scatter_cpu al m tot 0 0 caps, u64 (iv + n)))"
  proof -
    have "tot div PAGE_SIZE = n" "tot = 0 \<longleftrightarrow> n = 0" by (simp_all add: n)
    then show ?thesis using assms(3) n32 by (simp add: encrypt_cpu_pages_batch_def Let_def assms(5) [symmetric] split: prod.split)
  qed
  have sc: "scatter_cpu al (seal_image env ?w n ?m0) tot 0 0 caps = seal_cpus env key iv caps"
    using scatter_cpu_sealed [OF assms(1) refl _ n32(1) assms(3), where data = ?data and key = key and iv = iv and pre = "[]" and cs = caps and k = 0] len assms(4) by (simp add: n)
  show "r = (seal_cpus env key iv caps, if tot = 0 then iv else u64 (iv + tot div PAGE_SIZE))" if e: "encrypt_cpu_pages_batch env al key threads caps iv = Some r"
  proof (cases "n = 0")
    case False
    then obtain m where "ckpt_crypto_encrypt_pages env ?w n threads ?m0 = (True, m)" and r: "r = (scatter_cpu al m tot 0 0 caps, u64 (iv + n))"
      using e run by (auto split: prod.splits if_splits)
    then show ?thesis using encrypt_pages_run(1) [OF assms(1) w(1) assms(2) _ w(2)] False sc n by simp
  qed (use e run z n in simp)
  show "encrypt_cpu_pages_batch env al key threads caps iv \<noteq> None" if "evp_live env"
    using run encrypt_pages_run(2) [OF assms(1) w(1) assms(2) _ w(2) that] by (cases "n = 0") auto
qed

lemma scatter_all_sealed:
  assumes "gcm_ok env" "m = seal_image env (k3_worker key (n * chunk) chunk iv) n (write_mem (\<lambda>_. 0) 0 data)"
    and "length data = n * chunk" "n < 2 ^ 32" "\<forall>k. al k" "0 < chunk" "chunk < 2 ^ 32"
    and "data = pre @ concat (map (\<lambda>c. cpu_part c @ gpu_part c) cs)" "length pre = k * chunk"
    and "\<forall>c \<in> set cs. cap_wf c \<and> chunk dvd rc_cpu_bytes c + rc_gpu_bytes c"
  shows "scatter_all al m (n * chunk) chunk (k * chunk) k cs = seal_boths env key chunk (iv + k) cs"
  using assms(8-10)
proof (induction cs arbitrary: pre k)
  case (Cons c cs)
  let ?p = "cpu_part c @ gpu_part c"
  obtain b where b: "rc_cpu_bytes c + rc_gpu_bytes c = b * chunk" using Cons.prems(3) by (auto simp: dvd_def mult.commute)
  have lp: "length ?p = b * chunk" using Cons.prems(3) b by (simp add: cap_wf_def)
  have d: "data = pre @ ?p @ concat (map (\<lambda>c. cpu_part c @ gpu_part c) cs)" using Cons.prems(1) by simp
  note sl = sealed_slice [OF assms(1) d Cons.prems(2) lp assms(3,6,7,2)]
  have "b * chunk \<le> n * chunk" using arg_cong [OF d, of length] lp assms(3) by simp
  then have "b < 2 ^ 32" using assms(4,6) by simp
  then have n: "(rc_cpu_bytes c + rc_gpu_bytes c) div chunk = b" "u32 b = b" "length ?p div chunk = b"
    using b lp assms(6) by (simp_all add: u32_def del: length_append)
  have "scatter_all al m (n * chunk) chunk ((k + b) * chunk) (k + b) cs = seal_boths env key chunk (iv + (k + b)) cs"
    by (rule Cons.IH [of "pre @ ?p"]) (use Cons.prems lp in \<open>auto simp: add_mult_distrib\<close>)
  then have tl: "scatter_all al m (n * chunk) chunk (k * chunk + rc_cpu_bytes c + rc_gpu_bytes c) (k + b) cs = seal_boths env key chunk (iv + k + b) cs"
    using b by (simp add: add_mult_distrib add.assoc)
  have rd: "read_mem m (k * chunk) (rc_cpu_bytes c) = take (rc_cpu_bytes c) (sealed_bytes env key chunk (iv + k) ?p)"
    "read_mem m (k * chunk + rc_cpu_bytes c) (rc_gpu_bytes c) = drop (rc_cpu_bytes c) (sealed_bytes env key chunk (iv + k) ?p)"
    unfolding sl(1) [symmetric] b [symmetric] read_mem_append by simp_all
  have al: "al = (\<lambda>_. True)" using assms(5) by auto
  have e: "?p = [] \<longleftrightarrow> b = 0" using lp assms(6) by (metis length_0_conv mult_eq_0_iff less_numeral_extra(3))
  then have hd: "seal_both env key chunk (iv + k) c = (if b = 0 then c else c\<lparr>rc_cpu_buf := read_mem m (k * chunk) (rc_cpu_bytes c) @ drop (rc_cpu_bytes c) (rc_cpu_buf c),
      rc_gpu_buf := read_mem m (k * chunk + rc_cpu_bytes c) (rc_gpu_bytes c) @ drop (rc_gpu_bytes c) (rc_gpu_buf c),
      rc_crypto_meta := Some (k3_metas m (n * chunk) chunk k b), rc_enc_count := b\<rparr>)"
    unfolding seal_both_def Let_def rd sl(2) n(3) by simp
  have z: "rc_cpu_bytes c = 0" "rc_gpu_bytes c = 0" if "b = 0" using b that by auto
  show ?case
    using tl z by (simp add: Let_def n al hd) (simp add: read_mem_def)
qed simp

lemma encrypt_captures_sealed:
  assumes "gcm_ok env" "crypto_sched_ok env" "\<forall>k. al k" "0 < chunk" "chunk < 2 ^ 32"
    and "\<forall>c \<in> set caps. cap_wf c \<and> chunk dvd rc_cpu_bytes c + rc_gpu_bytes c"
    and "tot = sum_list (map (\<lambda>c. rc_cpu_bytes c + rc_gpu_bytes c) caps)" "tot div chunk < 2 ^ 32"
  shows "encrypt_captures_batch env al key threads chunk caps iv = Some r \<Longrightarrow>
      r = (seal_boths env key chunk iv caps, if tot = 0 then iv else u64 (iv + tot div chunk))"
    and "evp_live env \<Longrightarrow> encrypt_captures_batch env al key threads chunk caps iv \<noteq> None"
proof -
  let ?data = "concat (map (\<lambda>c. cpu_part c @ gpu_part c) caps)"
  have "chunk dvd tot" using assms(6) unfolding assms(7) by (induction caps) auto
  then obtain n where n: "tot = n * chunk" by (metis dvd_def mult.commute)
  have len: "length ?data = tot" using assms(6,7) by (induction caps arbitrary: tot) (auto simp: cap_wf_def)
  have nd: "tot div chunk = n" "tot = 0 \<longleftrightarrow> n = 0" using assms(4) by (simp_all add: n)
  have n32: "n < 2 ^ 32" "u32 n = n" using assms(8) nd by (simp_all add: u32_def)
  have z: "seal_boths env key chunk iv caps = caps" if "tot = 0"
    using that assms(7) by (induction caps arbitrary: iv) (auto simp: seal_both_def)
  let ?w = "k3_worker key tot chunk iv" and ?m0 = "write_mem (\<lambda>_. 0) 0 ?data"
  have w: "job_ok ?w n" "0 < cw_page_size ?w" using assms(4) by (simp_all add: job_ok_def k3_worker_def apart_def Let_def n)
  have run: "encrypt_captures_batch env al key threads chunk caps iv = (if n = 0 then Some (caps, iv)
      else case ckpt_crypto_encrypt_pages env ?w n threads ?m0 of (ok, m) \<Rightarrow> if \<not> ok then None else Some (scatter_all al m tot chunk 0 0 caps, u64 (iv + n)))"
    using assms(3,4) n32 nd by (simp add: encrypt_captures_batch_def Let_def assms(7) [symmetric] split: prod.split)
  have sc: "scatter_all al (seal_image env ?w n ?m0) tot chunk 0 0 caps = seal_boths env key chunk iv caps"
    using scatter_all_sealed [OF assms(1) refl _ n32(1) assms(3-5), where data = ?data and key = key and iv = iv and pre = "[]" and cs = caps and k = 0]
      len assms(6) by (simp add: n)
  show "r = (seal_boths env key chunk iv caps, if tot = 0 then iv else u64 (iv + tot div chunk))"
    if e: "encrypt_captures_batch env al key threads chunk caps iv = Some r"
  proof (cases "n = 0")
    case False
    then obtain m where "ckpt_crypto_encrypt_pages env ?w n threads ?m0 = (True, m)" and r: "r = (scatter_all al m tot chunk 0 0 caps, u64 (iv + n))"
      using e run by (auto split: prod.splits if_splits)
    then show ?thesis using encrypt_pages_run(1) [OF assms(1) w(1) assms(2) _ w(2)] False sc nd by simp
  qed (use e run z nd in simp)
  show "encrypt_captures_batch env al key threads chunk caps iv \<noteq> None" if "evp_live env"
    using run encrypt_pages_run(2) [OF assms(1) w(1) assms(2) _ w(2) that] by (cases "n = 0") auto
qed

section \<open>Properties\<close>


text \<open>Two pages on the CPU and two on the GPU, in two captures.\<close>

definition k3_cap :: "nat \<Rightarrow> range_capture" where
  "k3_cap base = \<lparr>rc_base = base, rc_length = 8192, rc_n_pages = 2, rc_cpu_bytes = 4096, rc_gpu_bytes = 4096, rc_enc_count = 0,
     rc_resmap = [1, 0], rc_cpu_buf = replicate 4096 3, rc_gpu_buf = replicate 4096 7, rc_crypto_meta = None\<rparr>"


text \<open>The IVs in the metadata of a capture.\<close>

definition cap_ivs :: "range_capture \<Rightarrow> byte list list" where
  "cap_ivs c = map (\<lambda>i. cm_iv (dec_meta (take META_SIZE (drop (i * META_SIZE) (cap_meta c))))) [0..<cap_meta_bytes c div META_SIZE]"

lemma seal_both_ivs:
  assumes "gcm_ok env" "0 < chunk" "chunk < 2 ^ 32" "cap_wf c" "rc_crypto_meta c = None" "rc_cpu_bytes c + rc_gpu_bytes c = b * chunk"
  shows "cap_ivs (seal_both env key chunk iv c) = map (\<lambda>i. build_iv (iv + i)) [0..<b]"
proof -
  let ?d = "cpu_part c @ gpu_part c"
  have l: "length ?d = b * chunk" using assms(4,6) by (simp add: cap_wf_def)
  have n: "length ?d div chunk = b" using l assms(2) by simp
  show ?thesis
  proof (cases "b = 0")
    case True
    then have "?d = []" using l unfolding length_0_conv [symmetric] by simp
    then show ?thesis using assms(5) True by (simp add: seal_both_def cap_ivs_def cap_meta_bytes_def)
  next
    case False
    then have d: "?d \<noteq> []" using l assms(2) by (metis length_0_conv less_numeral_extra(3) mult_is_0)
    have wf: "meta_wf (chunk_meta env key chunk iv ?d i)" if "i < b" for i
      using seal_chunk_len(2) [OF assms(1) l that] assms(3) by (simp add: meta_wf_def chunk_meta_def)
    have "take META_SIZE (drop (i * META_SIZE) (sealed_meta env key chunk iv ?d)) = enc_meta (chunk_meta env key chunk iv ?d i)" if "i < b" for i
      unfolding sealed_meta_def n using nth_concat_blocks [of "[0..<b]" "\<lambda>i. enc_meta (chunk_meta env key chunk iv ?d i)" META_SIZE i] that wf
      by (simp add: length_enc_meta)
    moreover have m: "cap_meta (seal_both env key chunk iv c) = sealed_meta env key chunk iv ?d" "cap_meta_bytes (seal_both env key chunk iv c) = b * META_SIZE"
      using False length_sealed(2) [OF assms(1) l assms(2)] unfolding seal_both_def Let_def n if_not_P [OF d] by (simp_all add: cap_meta_def cap_meta_bytes_def)
    ultimately show ?thesis unfolding cap_ivs_def m by (simp add: dec_enc_meta [OF wf]) (simp add: chunk_meta_def)
  qed
qed

lemma seal_boths_ivs:
  assumes "gcm_ok env" "0 < chunk" "chunk < 2 ^ 32"
    and "\<forall>c \<in> set caps. cap_wf c \<and> rc_crypto_meta c = None \<and> chunk dvd rc_cpu_bytes c + rc_gpu_bytes c"
  shows "concat (map cap_ivs (seal_boths env key chunk iv caps)) =
    map (\<lambda>i. build_iv (iv + i)) [0..<sum_list (map (\<lambda>c. rc_cpu_bytes c + rc_gpu_bytes c) caps) div chunk]"
  using assms(4)
proof (induction caps arbitrary: iv)
  case (Cons c cs)
  obtain b where b: "rc_cpu_bytes c + rc_gpu_bytes c = b * chunk" using Cons.prems by (auto simp: dvd_def mult.commute)
  let ?n = "sum_list (map (\<lambda>c. rc_cpu_bytes c + rc_gpu_bytes c) cs) div chunk"
  have n: "sum_list (map (\<lambda>c. rc_cpu_bytes c + rc_gpu_bytes c) (c # cs)) div chunk = b + ?n" "(rc_cpu_bytes c + rc_gpu_bytes c) div chunk = b"
    using assms(2) unfolding list.map sum_list.Cons b by simp_all
  have "map (\<lambda>i. build_iv (iv + b + i)) [0..<?n] = map (\<lambda>i. build_iv (iv + i)) [b..<b + ?n]"
    by (rule nth_equalityI) (simp_all add: add.assoc)
  moreover have "[0..<b + ?n] = [0..<b] @ [b..<b + ?n]" by (metis le0 upt_add_eq_append add_0)
  ultimately show ?case
    unfolding n(1) using seal_both_ivs [OF assms(1-3) _ _ b] Cons by (simp add: n(2))
qed simp

text \<open>
  C11: no IV is used twice under the key: in the captures of one batch, and then of a second batch that goes on with the counter the
  first one returned, all the IVs in the metadata are different from each other, also when the 64-bit counter wraps.
\<close>

theorem k3_ivs_distinct:
  assumes "gcm_ok env" "crypto_sched_ok env" "\<forall>k. al k" "0 < chunk" "chunk < 2 ^ 32"
    and "\<forall>c \<in> set caps \<union> set caps2. cap_wf c \<and> rc_crypto_meta c = None \<and> chunk dvd rc_cpu_bytes c + rc_gpu_bytes c"
    and "tot = sum_list (map (\<lambda>c. rc_cpu_bytes c + rc_gpu_bytes c) caps)" "tot div chunk < 2 ^ 32"
    and "tot2 = sum_list (map (\<lambda>c. rc_cpu_bytes c + rc_gpu_bytes c) caps2)" "tot2 div chunk < 2 ^ 32"
    and "encrypt_captures_batch env al key threads chunk caps iv = Some (caps', iv')"
    and "encrypt_captures_batch env al key threads chunk caps2 iv' = Some (caps2', iv2)"
  shows "distinct (concat (map cap_ivs (caps' @ caps2')))"
proof -
  let ?n = "tot div chunk" and ?n2 = "tot2 div chunk"
  have w: "\<forall>c \<in> set caps. cap_wf c \<and> chunk dvd rc_cpu_bytes c + rc_gpu_bytes c" "\<forall>c \<in> set caps2. cap_wf c \<and> chunk dvd rc_cpu_bytes c + rc_gpu_bytes c"
    and w': "\<forall>c \<in> set caps. cap_wf c \<and> rc_crypto_meta c = None \<and> chunk dvd rc_cpu_bytes c + rc_gpu_bytes c"
    "\<forall>c \<in> set caps2. cap_wf c \<and> rc_crypto_meta c = None \<and> chunk dvd rc_cpu_bytes c + rc_gpu_bytes c" using assms(6) by auto
  note e = encrypt_captures_sealed(1) [OF assms(1-5) w(1) assms(7,8,11)] and e2 = encrypt_captures_sealed(1) [OF assms(1-5) w(2) assms(9,10,12)]
  have ivs: "concat (map cap_ivs caps') = map (\<lambda>i. build_iv (iv + i)) [0..<?n]" "concat (map cap_ivs caps2') = map (\<lambda>i. build_iv (iv' + i)) [0..<?n2]"
    using e e2 seal_boths_ivs [OF assms(1,4,5) w'(1)] seal_boths_ivs [OF assms(1,4,5) w'(2)] assms(7,9) by simp_all
  have "?n + ?n2 \<le> 2 ^ 64" using assms(8,10) by simp
  note d = build_iv_distinct [OF this, of iv]
  have "build_iv (iv' + i) = build_iv (iv + (?n + i))" for i using e
    by (auto simp: build_iv_def u64_def mod_add_left_eq add.assoc)
  then have "concat (map cap_ivs (caps' @ caps2')) = map (\<lambda>i. build_iv (iv + i)) [0..<?n + ?n2]"
    unfolding map_append concat_append ivs by (intro nth_equalityI) (auto simp: nth_append)
  then show ?thesis using d by simp
qed

theorem k3_ivs_distinct_witness:
  "\<exists>cs cs' iv'. encrypt_captures_batch sample_crypto (\<lambda>_. True) (replicate 32 7) 4 8192 [k3_cap 0, k3_cap 8192] 5 = Some (cs, 7) \<and>
     encrypt_captures_batch sample_crypto (\<lambda>_. True) (replicate 32 7) 4 8192 [k3_cap 0, k3_cap 8192] 7 = Some (cs', iv') \<and>
     distinct (concat (map cap_ivs (cs @ cs')))"
proof -
  let ?cs = "[k3_cap 0, k3_cap 8192]"
  have w: "\<forall>c \<in> set ?cs. cap_wf c \<and> 8192 dvd rc_cpu_bytes c + rc_gpu_bytes c"
    "\<forall>c \<in> set ?cs \<union> set ?cs. cap_wf c \<and> rc_crypto_meta c = None \<and> 8192 dvd rc_cpu_bytes c + rc_gpu_bytes c"
    by (simp_all add: cap_wf_def k3_cap_def)
  have s: "(16384 :: nat) = sum_list (map (\<lambda>c. rc_cpu_bytes c + rc_gpu_bytes c) ?cs)" by (simp add: k3_cap_def)
  note b = encrypt_captures_sealed [OF sample_crypto_ok(1,2) _ _ _ w(1) s, of "\<lambda>_. True" "replicate 32 7" 4]
  obtain cs i where e: "encrypt_captures_batch sample_crypto (\<lambda>_. True) (replicate 32 7) 4 8192 ?cs 5 = Some (cs, i)"
    using b(2) [of 5] sample_crypto_ok(3) by fastforce
  have i: "i = 7" using b(1) [OF _ _ _ _ e] by (simp add: u64_def)
  obtain cs' j where e': "encrypt_captures_batch sample_crypto (\<lambda>_. True) (replicate 32 7) 4 8192 ?cs 7 = Some (cs', j)"
    using b(2) [of 7] sample_crypto_ok(3) by fastforce
  have "distinct (concat (map cap_ivs (cs @ cs')))"
    by (rule k3_ivs_distinct [OF sample_crypto_ok(1,2) _ _ _ w(2) s _ s _ e [unfolded i] e']) simp_all
  then show ?thesis using e e' i by blast
qed

text \<open>
  \<open>main\<close> starts with counter 0 and takes the key from the key file when there is one: two runs with the same key file, of
  the same or of different captures, use the same IVs.
\<close>

lemma k3_restart_reuses_iv:
  assumes "gcm_ok env" "0 < chunk" "chunk < 2 ^ 32"
    and "\<forall>c \<in> set caps \<union> set caps2. cap_wf c \<and> rc_crypto_meta c = None \<and> chunk dvd rc_cpu_bytes c + rc_gpu_bytes c"
    and "\<exists>c \<in> set caps. 0 < rc_cpu_bytes c + rc_gpu_bytes c" "\<exists>c \<in> set caps2. 0 < rc_cpu_bytes c + rc_gpu_bytes c"
  shows "\<exists>iv. iv \<in> set (concat (map cap_ivs (seal_boths env key chunk 0 caps))) \<and> iv \<in> set (concat (map cap_ivs (seal_boths env key chunk 0 caps2)))"
proof -
  have pos: "0 < sum_list (map (\<lambda>c. rc_cpu_bytes c + rc_gpu_bytes c) cs) div chunk"
    if ex: "\<exists>c \<in> set cs. 0 < rc_cpu_bytes c + rc_gpu_bytes c" and dv: "\<forall>c \<in> set cs. chunk dvd rc_cpu_bytes c + rc_gpu_bytes c" for cs :: "range_capture list"
  proof -
    obtain c where c: "c \<in> set cs" "0 < rc_cpu_bytes c + rc_gpu_bytes c" using ex by (rule bexE)
    then have "chunk \<le> rc_cpu_bytes c + rc_gpu_bytes c" using dv by (auto intro: dvd_imp_le)
    also have "\<dots> \<le> sum_list (map (\<lambda>c. rc_cpu_bytes c + rc_gpu_bytes c) cs)" using member_le_sum_list [of "rc_cpu_bytes c + rc_gpu_bytes c" "map (\<lambda>c. rc_cpu_bytes c + rc_gpu_bytes c) cs"] c(1) by auto
    finally show ?thesis using assms(2) by (simp add: div_greater_zero_iff)
  qed
  have w: "\<forall>c \<in> set caps. cap_wf c \<and> rc_crypto_meta c = None \<and> chunk dvd rc_cpu_bytes c + rc_gpu_bytes c"
    "\<forall>c \<in> set caps2. cap_wf c \<and> rc_crypto_meta c = None \<and> chunk dvd rc_cpu_bytes c + rc_gpu_bytes c" using assms(4) by auto
  have z: "build_iv 0 \<in> set (concat (map cap_ivs (seal_boths env key chunk 0 cs)))"
    if "\<forall>c \<in> set cs. cap_wf c \<and> rc_crypto_meta c = None \<and> chunk dvd rc_cpu_bytes c + rc_gpu_bytes c"
      "0 < sum_list (map (\<lambda>c. rc_cpu_bytes c + rc_gpu_bytes c) cs) div chunk" for cs
    unfolding seal_boths_ivs [OF assms(1-3) that(1)] using that(2) by (auto intro!: image_eqI [of _ _ 0])
  have d: "\<forall>c \<in> set caps. chunk dvd rc_cpu_bytes c + rc_gpu_bytes c" "\<forall>c \<in> set caps2. chunk dvd rc_cpu_bytes c + rc_gpu_bytes c" using w by simp_all
  show ?thesis using z [OF w(1) pos [OF assms(5) d(1)]] z [OF w(2) pos [OF assms(6) d(2)]] by (intro exI conjI)
qed

text \<open>
  The restriction to captures of whole chunks is needed: with two captures of half a chunk, the gathered buffer is
  encrypted as one chunk, each capture gets half of the ciphertext, and neither gets an entry to decrypt it with.
\<close>

lemma chunk_spans_captures:
  assumes "gcm_ok env" "crypto_sched_ok env" "evp_live env" "\<forall>k. al k" "0 < h" "2 * h < 2 ^ 32"
    and "cap_wf a" "rc_cpu_bytes a = 0" "rc_gpu_bytes a = h" "rc_crypto_meta a = None" "cap_wf b" "rc_cpu_bytes b = 0" "rc_gpu_bytes b = h" "rc_crypto_meta b = None"
  shows "\<exists>a' b'. encrypt_captures_batch env al key threads (2 * h) [a, b] iv = Some ([a', b'], u64 (iv + 1)) \<and>
    gpu_part a' @ gpu_part b' = fst (ev_encrypt env key (build_iv iv) (gpu_part a @ gpu_part b)) \<and> cap_meta a' = [] \<and> cap_meta b' = []"
proof -
  let ?d = "gpu_part a @ gpu_part b" and ?w = "k3_worker key (h + h) (2 * h) iv"
  let ?m0 = "write_mem (\<lambda>_. 0) 0 ?d"
  have l: "length (gpu_part a) = h" "length (gpu_part b) = h" using assms(7,9,11,13) by (simp_all add: cap_wf_def)
  have w: "job_ok ?w 1" "0 < cw_page_size ?w" using assms(5) by (simp_all add: job_ok_def k3_worker_def apart_def Let_def)
  define m where "m = seal_image env ?w 1 ?m0"
  then have run: "ckpt_crypto_encrypt_pages env ?w 1 threads ?m0 = (True, m)"
    using encrypt_pages_run(2) [OF assms(1) w(1) assms(2) _ w(2) assms(3)] by simp
  let ?c = "fst (ev_encrypt env key (build_iv iv) ?d)"
  have lc: "length ?c = h + h" using assms(1) l by (simp add: gcm_ok_def del: length_take)
  have "read_mem ?m0 0 (2 * h) = ?d" using l by (subst read_write_same) (simp_all del: length_take)
  then have "m = write_mem (write_mem ?m0 0 ?c) (h + h) (build_iv iv @ snd (ev_encrypt env key (build_iv iv) ?d))"
    by (simp add: m_def seal_image_def sealed_page_def page_bytes_at_def k3_worker_def)
  then have rd: "read_mem m 0 (h + h) = ?c" using lc by (simp add: read_write_disjoint read_write_same)
  have z: "h div (2 * h) = 0" "(h + h) div (2 * h) = 1" using assms(5) by (simp_all add: mult_2 [symmetric])
  have al: "al k" for k using assms(4) by blast
  let ?a = "a\<lparr>rc_cpu_buf := drop 0 (rc_cpu_buf a), rc_gpu_buf := read_mem m 0 h @ drop h (rc_gpu_buf a)\<rparr>"
  let ?b = "b\<lparr>rc_cpu_buf := drop 0 (rc_cpu_buf b), rc_gpu_buf := read_mem m h h @ drop h (rc_gpu_buf b)\<rparr>"
  have "encrypt_captures_batch env al key threads (2 * h) [a, b] iv = Some ([?a, ?b], u64 (iv + 1))"
    using assms(5,8,9,12,13) run z al by (simp add: encrypt_captures_batch_def Let_def u32_def) (simp add: read_mem_def)
  moreover have "gpu_part ?a @ gpu_part ?b = ?c" using rd assms(9,13) read_mem_append [of m 0 h h] by simp
  ultimately show ?thesis using assms(10,14) by (intro exI [of _ ?a] exI [of _ ?b]) (simp add: cap_meta_def)
qed

end
