(* ===== verification/Restore_Encrypted.thy ===== *)
theory Restore_Encrypted
  imports Restore_Image Encrypt_Captures
begin

text \<open>
  \<open>ckpt_restore_from_files_encrypted\<close> of \<open>librst_vllm.c\<close>: the restore of encrypted images. GPU sections of version 3
  images are decrypted by the driver (ioctl 112), everything else with the key k3 by OpenSSL. The heap buffers of a
  range are places in the memory of the process; what they hold when they are allocated is arbitrary.
\<close>

section \<open>Decrypting a section\<close>

record rst_bufs =
  rb_resmap :: nat
  rb_cpu :: nat           \<comment> \<open>\<open>cpu_cipher\<close>, \<open>cpu_data\<close>\<close>
  rb_cpu_plain :: nat     \<comment> \<open>\<open>cpu_plain\<close>, \<open>cpu_dec\<close>\<close>
  rb_gpu :: nat
  rb_gpu_plain :: nat
  rb_meta :: nat
  rb_comb :: nat
  rb_comb_plain :: nat

record enc_rst =
  er_files :: rst_env
  er_key :: "byte list option"          \<comment> \<open>the 32 bytes of the key file, if they can be read\<close>
  er_stack :: "byte list"               \<comment> \<open>the key array when they cannot\<close>
  er_uvm :: bool                        \<comment> \<open>the device can be opened and initialised\<close>
  er_driver :: uvm_env
  er_gpus :: "uvm_gpu list"
  er_crypto :: crypto_env
  er_bufs :: "bool \<Rightarrow> nat \<Rightarrow> rst_bufs"   \<comment> \<open>of range or delta block number \<open>k\<close>\<close>
  er_heap :: "bool \<Rightarrow> nat \<Rightarrow> mem"

definition entry_at :: "mem \<Rightarrow> nat \<Rightarrow> nat \<Rightarrow> crypto_meta" where
  "entry_at m ma i = dec_meta (read_mem m (ma + i * META_SIZE) META_SIZE)"

text \<open>OpenSSL takes the size as an \<open>int\<close> and refuses a negative one.\<close>

definition decrypt_k3_transfer :: "crypto_env \<Rightarrow> byte list \<Rightarrow> nat \<Rightarrow> nat \<Rightarrow> nat \<Rightarrow> crypto_meta \<Rightarrow> mem \<Rightarrow> bool \<times> mem" where
  "decrypt_k3_transfer env key ct pt sz me m =
     (let iv = cm_iv me; n = sz mod 2 ^ 32; p = ev_decrypt env key iv (read_mem m ct n) (cm_auth_tag me); m1 = write_mem m pt (fst p)
      in if \<not> ev_ctx env 0 \<or> \<not> ev_call env iv Evp_Init \<or> n \<ge> 2 ^ 31 \<or> \<not> ev_call env iv Evp_Update then (False, m)
         else if \<not> ev_call env iv Evp_Tag \<or> \<not> ev_call env iv Evp_Final \<or> \<not> snd p then (False, m1)
         else (True, m1))"

definition decrypt_k1_via_ioctl :: "enc_rst \<Rightarrow> nat \<Rightarrow> nat \<Rightarrow> nat \<Rightarrow> nat \<Rightarrow> nat \<Rightarrow> mem \<Rightarrow> (bool \<times> mem) option" where
  "decrypt_k1_via_ioctl E ct pt total_size ma n m =
     (case uvm_api_live_migration_decrypt_encrypted_pages (er_driver E) (er_gpus E)
             \<lparr>dp_cipher_buf = ct, dp_plain_buf = pt, dp_total_size = total_size, dp_crypto_meta = ma, dp_num_transfers = n, dp_gpu_uuid = zero_uuid\<rparr> m of
        None \<Rightarrow> None | Some (st, m') \<Rightarrow> Some (st = NV_OK, m'))"

text \<open>The k3 loop, entry \<open>i\<close> of \<open>k\<close> left; \<open>None\<close> when an entry's size leads out of the section.\<close>

fun decrypt_k3_loop :: "crypto_env \<Rightarrow> byte list \<Rightarrow> nat \<Rightarrow> nat \<Rightarrow> nat \<Rightarrow> nat \<Rightarrow> nat \<Rightarrow> nat \<Rightarrow> nat \<Rightarrow> mem \<Rightarrow> (bool \<times> mem) option" where
  "decrypt_k3_loop env key ct pt sec ma 0 i off m = Some (True, m)"
| "decrypt_k3_loop env key ct pt sec ma (Suc k) i off m =
     (if off < sec then
        let me = entry_at m ma i; ch = (if cm_size me = 0 then PAGE_SIZE else cm_size me);
            chunk = (if u64 (off + ch) > sec then sec - off else ch)
        in if off + chunk > sec then None
           else case decrypt_k3_transfer env key (ct + off) (pt + off) chunk me m of
             (ok, m') \<Rightarrow> if ok then decrypt_k3_loop env key ct pt sec ma k (i + 1) (off + chunk) m' else Some (False, m')
      else Some (True, m))"

definition copy_area :: "nat \<Rightarrow> nat \<Rightarrow> nat \<Rightarrow> mem \<Rightarrow> mem" where
  "copy_area dst src n m = write_mem m dst (read_mem m src n)"

definition decrypt_section :: "enc_rst \<Rightarrow> nat \<Rightarrow> nat \<Rightarrow> nat \<Rightarrow> nat \<Rightarrow> nat \<Rightarrow> byte list option \<Rightarrow> bool \<Rightarrow> bool \<Rightarrow> mem \<Rightarrow> (bool \<times> mem) option" where
  "decrypt_section E ct pt sec ma n key uvm use_k1 m =
     (if n = 0 \<or> sec = 0 then Some (True, m)
      else if use_k1 \<and> uvm then decrypt_k1_via_ioctl E ct pt sec ma n m
      else if \<not> use_k1 \<and> key \<noteq> None then decrypt_k3_loop (er_crypto E) (the key) ct pt sec ma n 0 0 m
      else Some (True, copy_area pt ct sec m))"

text \<open>The number of entries that make up the GPU section.\<close>

fun count_metas :: "mem \<Rightarrow> nat \<Rightarrow> nat \<Rightarrow> nat \<Rightarrow> nat \<Rightarrow> nat \<Rightarrow> nat" where
  "count_metas m ma gb 0 i acc = 0"
| "count_metas m ma gb (Suc k) i acc = (if acc < gb then Suc (count_metas m ma gb k (i + 1) (u64 (acc + cm_size (entry_at m ma i)))) else 0)"

section \<open>A range of the baseline\<close>

text \<open>\<open>fread\<close> into a buffer: what the file has, and whether it had everything.\<close>

definition read_into :: "byte list \<Rightarrow> nat \<Rightarrow> nat \<Rightarrow> nat \<Rightarrow> mem \<Rightarrow> mem" where
  "read_into f off n a m = write_mem m a (take n (drop off f))"

text \<open>Residency map, CPU and GPU section of a range into their buffers; its metadata.\<close>

definition load_data :: "byte list \<Rightarrow> range_desc \<Rightarrow> rst_bufs \<Rightarrow> mem \<Rightarrow> mem" where
  "load_data f d b m =
     (let off = rd_data_offset d; rs = rd_resmap_size d; nc = rd_cpu_bytes d
      in read_into f (u64 (off + rs + nc)) (rd_gpu_bytes d) (rb_gpu b) (read_into f (u64 (off + rs)) nc (rb_cpu b) (read_into f off rs (rb_resmap b) m)))"

definition load_meta :: "byte list \<Rightarrow> range_desc \<Rightarrow> rst_bufs \<Rightarrow> mem \<Rightarrow> mem" where
  "load_meta f d b m =
     read_into f (u64 (rd_data_offset d + rd_resmap_size d + rd_cpu_bytes d + rd_gpu_bytes d)) (rd_crypto_meta_bytes d) (rb_meta b) m"

definition decrypt_v3 :: "enc_rst \<Rightarrow> rst_bufs \<Rightarrow> nat \<Rightarrow> nat \<Rightarrow> nat \<Rightarrow> mem \<Rightarrow> (bool \<times> mem) option" where
  "decrypt_v3 E b nc ng n m =
     (let gm = count_metas m (rb_meta b) ng n 0 0
      in case (if ng > 0 \<and> gm > 0 then decrypt_section E (rb_gpu b) (rb_gpu_plain b) ng (rb_meta b) gm None (er_uvm E) True m
               else Some (True, if ng > 0 then copy_area (rb_gpu_plain b) (rb_gpu b) ng m else m)) of
           None \<Rightarrow> None
         | Some (ok1, m1) \<Rightarrow>
             (case (if nc > 0 \<and> n - gm > 0 \<and> er_key E \<noteq> None
                    then decrypt_section E (rb_cpu b) (rb_cpu_plain b) nc (rb_meta b + gm * META_SIZE) (n - gm) (er_key E) False False m1
                    else Some (True, if nc > 0 then copy_area (rb_cpu_plain b) (rb_cpu b) nc m1 else m1)) of
                None \<Rightarrow> None | Some (ok2, m2) \<Rightarrow> Some (ok1 \<and> ok2, m2)))"

definition decrypt_v2 :: "enc_rst \<Rightarrow> rst_bufs \<Rightarrow> nat \<Rightarrow> nat \<Rightarrow> nat \<Rightarrow> mem \<Rightarrow> (bool \<times> mem) option" where
  "decrypt_v2 E b nc ng n m =
     (let sz = u64 (nc + ng)
      in if re_alloc (er_files E) (max 1 sz) \<and> sz > 0 then
           (if nc + ng > sz then None
            else case decrypt_section E (rb_comb b) (rb_comb_plain b) sz (rb_meta b) n (Some (case er_key E of None \<Rightarrow> er_stack E | Some k \<Rightarrow> k)) False False
                   (copy_area (rb_comb b + nc) (rb_gpu b) ng (copy_area (rb_comb b) (rb_cpu b) nc m)) of
              None \<Rightarrow> None
            | Some (ok, m1) \<Rightarrow>
                Some (ok, if ok then copy_area (rb_gpu_plain b) (rb_comb_plain b + nc) ng (copy_area (rb_cpu_plain b) (rb_comb_plain b) nc m1) else m1))
         else Some (True, m))"

definition plain_copy :: "rst_bufs \<Rightarrow> nat \<Rightarrow> nat \<Rightarrow> mem \<Rightarrow> mem" where
  "plain_copy b nc ng m = copy_area (rb_cpu_plain b) (rb_cpu b) nc (copy_area (rb_gpu_plain b) (rb_gpu b) ng m)"

text \<open>The page loop: unlike \<open>assemble_data\<close> it takes a page whose section is used up for an absent one.\<close>

fun enc_assemble_loop ::
  "byte list \<Rightarrow> byte list \<Rightarrow> byte list \<Rightarrow> nat \<Rightarrow> nat \<Rightarrow> nat \<Rightarrow> nat \<Rightarrow> nat \<Rightarrow> nat \<Rightarrow> mem \<Rightarrow> mem outcome" where
  "enc_assemble_loop rm cpu gpu sz off p 0 cpu_off gpu_off m = Done m"
| "enc_assemble_loop rm cpu gpu sz off p (Suc n) cpu_off gpu_off m =
     (let dst = off + p * PAGE_SIZE
      in if length rm \<le> p then Undefined
         else if rm ! p = 0 \<and> cpu_off + PAGE_SIZE \<le> length cpu then
           (if sz < dst + PAGE_SIZE then Undefined
            else enc_assemble_loop rm cpu gpu sz off (p + 1) n (cpu_off + PAGE_SIZE) gpu_off (write_mem m dst (take PAGE_SIZE (drop cpu_off cpu))))
         else if rm ! p = 1 \<and> gpu_off + PAGE_SIZE \<le> length gpu then
           (if sz < dst + PAGE_SIZE then Undefined
            else enc_assemble_loop rm cpu gpu sz off (p + 1) n cpu_off (gpu_off + PAGE_SIZE) (write_mem m dst (take PAGE_SIZE (drop gpu_off gpu))))
         else enc_assemble_loop rm cpu gpu sz off (p + 1) n cpu_off gpu_off m)"

definition patch_group :: "range_desc \<Rightarrow> byte list \<Rightarrow> byte list \<Rightarrow> byte list \<Rightarrow> group \<Rightarrow> group outcome" where
  "patch_group d rm cpu gpu g =
     (case enc_assemble_loop rm cpu gpu (g_sz g) (rd_base_va d - g_va g) 0 (rd_num_pages d) 0 0 (g_mem g) of
        Done m \<Rightarrow> Done (g\<lparr>g_mem := m\<rparr>) | Fail \<Rightarrow> Fail | Undefined \<Rightarrow> Undefined)"

definition restore_range :: "enc_rst \<Rightarrow> byte list \<Rightarrow> bool \<Rightarrow> nat \<Rightarrow> range_desc \<Rightarrow> group \<Rightarrow> group outcome" where
  "restore_range E f v3 k d g =
     (let al = re_alloc (er_files E); b = er_bufs E False k; off = rd_data_offset d; rs = rd_resmap_size d; nc = rd_cpu_bytes d; ng = rd_gpu_bytes d;
          nm = rd_crypto_meta_bytes d; n = nm div META_SIZE; m2 = load_data f d b (er_heap E False k); m3 = (if nm > 0 then load_meta f d b m2 else m2)
      in if \<not> al (max 1 rs) then Fail
         else if rs \<noteq> 0 \<and> length f < off + rs then Fail
         else if \<not> al (max 1 nc) \<or> \<not> al (max 1 ng) \<or> nm > 0 \<and> \<not> al nm then Fail
         else case (if n > 0 then if v3 then decrypt_v3 E b nc ng n m3 else decrypt_v2 E b nc ng n m3 else Some (True, plain_copy b nc ng m3)) of
           None \<Rightarrow> Undefined
         | Some (ok, m) \<Rightarrow>
             if \<not> ok then Fail
             else patch_group d (read_mem m (rb_resmap b) rs) (read_mem m (rb_cpu_plain b) nc) (read_mem m (rb_gpu_plain b) ng) g)"

section \<open>A delta block\<close>

text \<open>Results of \<open>decrypt_section\<close> are ignored here: the output buffer is copied over the data whatever it holds.\<close>

definition decrypt_over :: "enc_rst \<Rightarrow> nat \<Rightarrow> nat \<Rightarrow> nat \<Rightarrow> nat \<Rightarrow> nat \<Rightarrow> byte list option \<Rightarrow> bool \<Rightarrow> bool \<Rightarrow> mem \<Rightarrow> mem option" where
  "decrypt_over E data out n ma k key uvm use_k1 m =
     (case decrypt_section E data out n ma k key uvm use_k1 m of None \<Rightarrow> None | Some (ok, m') \<Rightarrow> Some (copy_area data out n m'))"

definition restore_block :: "enc_rst \<Rightarrow> byte list \<Rightarrow> bool \<Rightarrow> nat \<Rightarrow> range_desc \<Rightarrow> group \<Rightarrow> group outcome" where
  "restore_block E f v3 k d g =
     (let al = re_alloc (er_files E); b = er_bufs E True k; off = rd_data_offset d; rs = rd_resmap_size d; nc = rd_cpu_bytes d; ng = rd_gpu_bytes d;
          nm = rd_crypto_meta_bytes d; n = nm div META_SIZE; m2 = load_data f d b (er_heap E True k); m3 = load_meta f d b m2;
          gm = (if v3 then count_metas m3 (rb_meta b) ng n 0 0 else n);
          r1 = (if ng > 0 \<and> gm > 0 then decrypt_over E (rb_gpu b) (rb_gpu_plain b) ng (rb_meta b) gm (er_key E) (v3 \<and> er_uvm E) v3 m3 else Some m3);
          r2 = (case r1 of None \<Rightarrow> None | Some m4 \<Rightarrow>
                  if nc > 0 \<and> er_key E \<noteq> None \<and> n - gm > 0
                  then decrypt_over E (rb_cpu b) (rb_cpu_plain b) nc (rb_meta b + gm * META_SIZE) (n - gm) (er_key E) False False m4 else Some m4)
      in if \<not> al (max 1 rs) \<or> \<not> al (max 1 nc) \<or> \<not> al (max 1 ng) then Fail
         else case (if nm > 0 \<and> al nm \<and> al (max 1 ng) \<and> al (max 1 nc) then r2 else Some m2) of
           None \<Rightarrow> Undefined
         | Some m \<Rightarrow> patch_group d (read_mem m (rb_resmap b) rs) (read_mem m (rb_cpu b) nc) (read_mem m (rb_gpu b) ng) g)"

section \<open>The restore\<close>

definition enc_restore_base :: "enc_rst \<Rightarrow> byte list \<Rightarrow> range_desc list \<Rightarrow> bool \<Rightarrow> group list outcome" where
  "enc_restore_base E fb ds v3 =
     (let qs = re_qsort (er_files E) ds
      in case group_ranges qs [] [] of None \<Rightarrow> Fail
         | Some (gs, rg) \<Rightarrow>
             if \<not> list_all (\<lambda>g. re_alloc (er_files E) (snd g)) gs then Fail
             else run_ranges (restore_range E fb v3) 0 (zip qs rg) (empty_groups gs))"

definition enc_restore_delta :: "enc_rst \<Rightarrow> byte list \<Rightarrow> bool \<Rightarrow> group list \<Rightarrow> group list outcome" where
  "enc_restore_delta E fd v3 gs =
     (let n = field 8 4 fd
      in if \<not> snd (re_open (er_files E)) then Fail
         else if length fd < DELTA_HDR_SIZE \<or> field 0 4 fd \<noteq> CKPT_INC_DELTA_MAGIC then Fail
         else if n = 0 then Done gs
         else if \<not> re_alloc (er_files E) (n * DESC_SIZE) then Fail
         else case read_descs fd DELTA_HDR_SIZE n of None \<Rightarrow> Fail | Some ds \<Rightarrow> run_blocks (restore_block E fd v3) True 0 ds gs)"

definition ckpt_restore_from_files_encrypted :: "enc_rst \<Rightarrow> byte list \<Rightarrow> byte list \<Rightarrow> group list outcome" where
  "ckpt_restore_from_files_encrypted E fb fd =
     (let env = er_files E; n = field 8 4 fb; v3 = (field 4 4 fb = 3)
      in if \<not> fst (re_open env) then Fail
         else if length fb < V2_HDR_SIZE \<or> field 0 4 fb \<noteq> CKPT_V2_MAGIC then Fail
         else if MAX_RANGES < n then Fail
         else if \<not> re_alloc env (n * DESC_SIZE) then Fail
         else case read_descs fb V2_HDR_SIZE n of None \<Rightarrow> Fail
           | Some ds \<Rightarrow>
               if list_all (\<lambda>d. rd_crypto_meta_bytes d = 0) ds then ckpt_restore_from_files env fb fd
               else (case enc_restore_base E fb ds v3 of Fail \<Rightarrow> Fail | Undefined \<Rightarrow> Undefined
                     | Done gs \<Rightarrow> (case enc_restore_delta E fd v3 gs of Fail \<Rightarrow> Fail | Undefined \<Rightarrow> Undefined
                         | Done gs' \<Rightarrow> if re_alloc env (length gs' * MEM_BLOCK_SIZE) then Done gs' else Fail)))"

section \<open>Transfers\<close>

text \<open>A transfer: its metadata entry, its ciphertext and its plaintext; encrypted by the driver, or with k3.\<close>

type_synonym transfer = "crypto_meta \<times> byte list \<times> byte list"

abbreviation t_meta :: "transfer \<Rightarrow> crypto_meta" where "t_meta x \<equiv> fst x"
abbreviation t_cipher :: "transfer \<Rightarrow> byte list" where "t_cipher x \<equiv> fst (snd x)"
abbreviation t_plain :: "transfer \<Rightarrow> byte list" where "t_plain x \<equiv> snd (snd x)"

definition transfer_ok :: "transfer \<Rightarrow> bool" where
  "transfer_ok x \<longleftrightarrow> meta_wf (t_meta x) \<and> cm_size (t_meta x) = length (t_cipher x) \<and> length (t_plain x) = length (t_cipher x) \<and>
     0 < length (t_cipher x) \<and> length (t_cipher x) \<le> UVM_CONF_COMPUTING_DMA_BUFFER_SIZE"

definition k1_transfer :: "uvm_env \<Rightarrow> transfer \<Rightarrow> bool" where
  "k1_transfer drv x \<longleftrightarrow> transfer_ok x \<and>
     cpu_decrypt drv (cm_key_version (t_meta x)) \<lparr>iv_bytes = cm_iv (t_meta x), iv_fresh = cm_iv_fresh (t_meta x)\<rparr> (t_cipher x) (cm_auth_tag (t_meta x))
       = (NV_OK, t_plain x)"

definition k3_transfer :: "crypto_env \<Rightarrow> byte list \<Rightarrow> transfer \<Rightarrow> bool" where
  "k3_transfer cry key x \<longleftrightarrow> transfer_ok x \<and> ev_decrypt cry key (cm_iv (t_meta x)) (t_cipher x) (cm_auth_tag (t_meta x)) = (t_plain x, True)"

abbreviation metas_of :: "transfer list \<Rightarrow> byte list" where "metas_of xs \<equiv> concat (map (\<lambda>x. enc_meta (t_meta x)) xs)"
abbreviation ciphers_of :: "transfer list \<Rightarrow> byte list" where "ciphers_of xs \<equiv> concat (map (\<lambda>x. t_cipher x) xs)"
abbreviation plains_of :: "transfer list \<Rightarrow> byte list" where "plains_of xs \<equiv> concat (map (\<lambda>x. t_plain x) xs)"

lemma length_metas_of: "list_all transfer_ok xs \<Longrightarrow> length (metas_of xs) = length xs * META_SIZE"
  by (rule length_concat_blocks) (auto simp: list_all_iff transfer_ok_def length_enc_meta)

lemma length_plains_of: "list_all transfer_ok xs \<Longrightarrow> length (plains_of xs) = length (ciphers_of xs)"
  by (induction xs) (auto simp: transfer_ok_def)

lemma k_transfers_ok: "list_all (k1_transfer drv) xs \<Longrightarrow> list_all transfer_ok xs" "list_all (k3_transfer cry key) ys \<Longrightarrow> list_all transfer_ok ys"
  by (auto simp: list_all_iff k1_transfer_def k3_transfer_def)

lemma concat_at:
  assumes "i < length xs"
  shows "concat (map f xs) = concat (map f (take i xs)) @ f (xs ! i) @ concat (map f (drop (Suc i) xs))"
    and "concat (map f (take (Suc i) xs)) = concat (map f (take i xs)) @ f (xs ! i)"
proof -
  have "concat (map f xs) = concat (map f (take i xs @ xs ! i # drop (Suc i) xs))" using assms by (simp add: id_take_nth_drop [symmetric])
  then show "concat (map f xs) = concat (map f (take i xs)) @ f (xs ! i) @ concat (map f (drop (Suc i) xs))" by simp
  show "concat (map f (take (Suc i) xs)) = concat (map f (take i xs)) @ f (xs ! i)" using assms by (simp add: take_Suc_conv_app_nth)
qed

lemma read_part:
  assumes "read_mem m a (length (concat (map f xs))) = concat (map f xs)" "i < length xs"
  shows "read_mem m (a + length (concat (map f (take i xs)))) (length (f (xs ! i))) = f (xs ! i)"
  by (rule read_mem_slice [OF assms(1) [unfolded concat_at(1) [OF assms(2)]]])

lemma entry_metas:
  assumes "list_all transfer_ok xs" "read_mem m ma (length xs * META_SIZE) = metas_of xs" "i < length xs"
  shows "entry_at m ma i = t_meta (xs ! i)"
proof -
  have wf: "meta_wf (t_meta (xs ! i))" using assms(1,3) by (simp add: list_all_length transfer_ok_def)
  have "list_all transfer_ok (take i xs)" using assms(1) by (auto simp: list_all_iff dest: in_set_takeD)
  then have l: "length (metas_of (take i xs)) = i * META_SIZE" using length_metas_of assms(3) by fastforce
  have "read_mem m (ma + i * META_SIZE) META_SIZE = enc_meta (t_meta (xs ! i))"
    using read_part [of m ma "\<lambda>x. enc_meta (t_meta x)" xs i] assms l length_metas_of [OF assms(1)] length_enc_meta [OF wf] by simp
  then show ?thesis using wf by (simp add: entry_at_def dec_enc_meta)
qed

lemma metas_split:
  assumes "list_all transfer_ok (xs @ ys)" "read_mem m ma (length (xs @ ys) * META_SIZE) = metas_of (xs @ ys)"
  shows "read_mem m ma (length xs * META_SIZE) = metas_of xs" "read_mem m (ma + length xs * META_SIZE) (length ys * META_SIZE) = metas_of ys"
  using assms length_metas_of [of xs] by (simp_all add: add_mult_distrib read_mem_append)

lemma count_metas_prefix:
  assumes "list_all transfer_ok (xs @ ys)" "read_mem m ma (length (xs @ ys) * META_SIZE) = metas_of (xs @ ys)" "length (ciphers_of xs) < 2 ^ 64" "i \<le> length xs"
  shows "count_metas m ma (length (ciphers_of xs)) (length xs - i + length ys) i (length (ciphers_of (take i xs))) = length xs - i"
  using assms(4)
proof (induction "length xs - i" arbitrary: i)
  case 0
  then show ?case by (cases "length ys") auto
next
  case (Suc k)
  then have i: "i < length xs" by simp
  have e: "entry_at m ma i = t_meta (xs ! i)" using entry_metas [OF assms(1,2), of i] i by (simp add: nth_append)
  have x: "cm_size (t_meta (xs ! i)) = length (t_cipher (xs ! i))" "0 < length (t_cipher (xs ! i))"
    using assms(1) nth_mem [OF i] by (auto simp: list_all_iff transfer_ok_def)
  have c: "length (ciphers_of xs) = length (ciphers_of (take i xs)) + length (t_cipher (xs ! i)) + length (ciphers_of (drop (Suc i) xs))"
    "length (ciphers_of (take (Suc i) xs)) = length (ciphers_of (take i xs)) + length (t_cipher (xs ! i))"
    using concat_at [OF i, of "\<lambda>x. t_cipher x"] by simp_all
  have n: "length xs - i + length ys = Suc (length xs - Suc i + length ys)" "length xs - i = Suc (length xs - Suc i)" using i by simp_all
  show ?case
    using Suc(1) [of "Suc i"] Suc(2,3) i c x assms(3) unfolding n by (simp add: e u64_small)
qed

text \<open>Ioctl 112 on the transfers of a section.\<close>

lemma decrypt_loop_transfers:
  assumes "list_all (k1_transfer drv) xs" "env_mem_ok drv" "decrypt_buffers_ok pr" "dp_total_size pr = length (ciphers_of xs)"
    and "read_mem m (dp_cipher_buf pr) (length (ciphers_of xs)) = ciphers_of xs" "i \<le> length xs"
  shows "decrypt_loop drv pr (metas_of xs) (length xs - i) i (length (plains_of (take i xs))) (write_mem m (dp_plain_buf pr) (plains_of (take i xs))) =
    Some (NV_OK, write_mem m (dp_plain_buf pr) (plains_of xs))"
  using assms(6)
proof (induction "length xs - i" arbitrary: i)
  case (Suc k)
  then have i: "i < length xs" by simp
  let ?x = "xs ! i" and ?off = "length (plains_of (take i xs))"
  note ok = k_transfers_ok(1) [OF assms(1)]
  have x: "k1_transfer drv ?x" using assms(1) nth_mem [OF i] by (auto simp: list_all_iff)
  then have xo: "meta_wf (t_meta ?x)" "cm_size (t_meta ?x) = length (t_cipher ?x)" "length (t_plain ?x) = length (t_cipher ?x)" "0 < length (t_cipher ?x)"
      "length (t_cipher ?x) \<le> UVM_CONF_COMPUTING_DMA_BUFFER_SIZE" by (auto simp: k1_transfer_def transfer_ok_def)
  have tk: "list_all transfer_ok (take i xs)" using ok by (auto simp: list_all_iff dest: in_set_takeD)
  have off: "?off = length (ciphers_of (take i xs))" by (rule length_plains_of [OF tk])
  have le: "?off + length (t_cipher ?x) \<le> dp_total_size pr" unfolding assms(4) off using concat_at(1) [OF i, of "\<lambda>x. t_cipher x"] by simp
  have "take META_SIZE (drop (i * META_SIZE) (metas_of xs)) = enc_meta (t_meta ?x)"
    by (rule nth_concat_blocks [OF _ i]) (use ok in \<open>auto simp: list_all_iff transfer_ok_def length_enc_meta\<close>)
  moreover have "(i + 1) * META_SIZE \<le> length xs * META_SIZE" using i by (intro mult_le_mono1) simp
  ultimately have e: "meta_entry (metas_of xs) i = Some (t_meta ?x)" using xo(1) by (simp add: meta_entry_def dec_enc_meta length_metas_of [OF ok])
  have u: "u64 (dp_cipher_buf pr + ?off) = dp_cipher_buf pr + ?off" "u64 (dp_plain_buf pr + ?off) = dp_plain_buf pr + ?off"
      "u64 (?off + length (t_cipher ?x)) = ?off + length (t_cipher ?x)"
    using le assms(3) by (auto simp: decrypt_buffers_ok_def intro!: u64_small)
  have "read_mem m (dp_cipher_buf pr + ?off) (length (t_cipher ?x)) = t_cipher ?x" unfolding off by (rule read_part [OF assms(5) i])
  then have rd: "read_mem (write_mem m (dp_plain_buf pr) (plains_of (take i xs))) (dp_cipher_buf pr + ?off) (length (t_cipher ?x)) = t_cipher ?x"
    using assms(3) le by (subst read_write_disjoint) (auto simp: decrypt_buffers_ok_def)
  have cp: "env_copy drv a n" for a n using assms(2) by (simp add: env_mem_ok_def)
  have dec: "cpu_decrypt drv (cm_key_version (t_meta ?x)) \<lparr>iv_bytes = cm_iv (t_meta ?x), iv_fresh = cm_iv_fresh (t_meta ?x)\<rparr> (t_cipher ?x) (cm_auth_tag (t_meta ?x)) =
      (NV_OK, t_plain ?x)" using x by (simp add: k1_transfer_def)
  have pl: "plains_of (take (Suc i) xs) = plains_of (take i xs) @ t_plain ?x" by (rule concat_at(2) [OF i])
  have "decrypt_loop drv pr (metas_of xs) (Suc (length xs - Suc i)) i ?off (write_mem m (dp_plain_buf pr) (plains_of (take i xs))) =
      decrypt_loop drv pr (metas_of xs) (length xs - Suc i) (Suc i) (length (plains_of (take (Suc i) xs))) (write_mem m (dp_plain_buf pr) (plains_of (take (Suc i) xs)))"
    unfolding pl length_append xo(3) write_mem_append [symmetric] using le u rd dec cp xo by (simp add: e)
  moreover have "Suc (length xs - Suc i) = length xs - i" using i by simp
  ultimately show ?case using Suc(1) [of "Suc i"] Suc(2) i by simp
qed simp

text \<open>The driver lets the restore decrypt; OpenSSL works.\<close>

definition driver_ready :: "enc_rst \<Rightarrow> bool" where
  "driver_ready E \<longleftrightarrow> er_uvm E \<and> er_gpus E \<noteq> [] \<and> env_cc (er_driver E) \<and> env_mem_ok (er_driver E) \<and> env_capable (er_driver E) \<and>
     env_push_begin (er_driver E) 0 = NV_OK \<and> env_push_wait (er_driver E) 0 = NV_OK"

definition evp_ready :: "crypto_env \<Rightarrow> bool" where
  "evp_ready cry \<longleftrightarrow> ev_ctx cry 0 \<and> (\<forall>iv c. ev_call cry iv c)"

lemma decrypt_section_k1:
  assumes "driver_ready E" "list_all (k1_transfer (er_driver E)) xs" "xs \<noteq> []" "sec = length (ciphers_of xs)"
    and "read_mem m ma (length xs * META_SIZE) = metas_of xs" "read_mem m ct sec = ciphers_of xs" "length xs * META_SIZE < 2 ^ 64"
    and "0 < ct" "0 < pt" "0 < ma" "ct + sec < 2 ^ 64" "pt + sec < 2 ^ 64" "apart pt sec ct sec"
  shows "decrypt_section E ct pt sec ma (length xs) key True True m = Some (True, write_mem m pt (plains_of xs))"
proof -
  let ?dp = "\<lparr>dp_cipher_buf = ct, dp_plain_buf = pt, dp_total_size = sec, dp_crypto_meta = ma, dp_num_transfers = length xs, dp_gpu_uuid = zero_uuid\<rparr>"
  have r: "env_cc (er_driver E)" "env_mem_ok (er_driver E)" "env_capable (er_driver E)" "env_push_begin (er_driver E) 0 = NV_OK" "env_push_wait (er_driver E) 0 = NV_OK"
    "find_gpu (er_gpus E) zero_uuid \<noteq> None" using assms(1) by (auto simp: driver_ready_def find_gpu_def find_None_iff neq_Nil_conv)
  obtain x xs' where "xs = x # xs'" using assms(3) by (cases xs) auto
  then have sec: "0 < sec" using k_transfers_ok(1) [OF assms(2)] by (auto simp: assms(4) transfer_ok_def)
  then have chk: "decrypt_check (er_driver E) ?dp = NV_OK" using assms(3,8-10) r(3) by (simp add: decrypt_check_def)
  have sz: "meta_alloc_size ?dp = length xs * META_SIZE" using assms(7) by (simp add: meta_alloc_size_def u64_small)
  have bo: "decrypt_buffers_ok ?dp" using assms(11-13) by (auto simp: decrypt_buffers_ok_def apart_def)
  have "decrypt_loop (er_driver E) ?dp (metas_of xs) (length xs) 0 0 m = Some (NV_OK, write_mem m pt (plains_of xs))"
    using decrypt_loop_transfers [OF assms(2) r(2) bo, of m 0] assms(4,6) by simp
  then have "uvm_api_live_migration_decrypt_encrypted_pages (er_driver E) (er_gpus E) ?dp m = Some (NV_OK, write_mem m pt (plains_of xs))"
    using decrypt_enters_loop [OF chk r(1,2) _ r(4,5), of "er_gpus E" m] r(6) assms(5) by (simp add: sz)
  then show ?thesis using sec assms(3) by (simp add: decrypt_section_def decrypt_k1_via_ioctl_def)
qed

lemma decrypt_k3_transfers:
  assumes "list_all (k3_transfer cry key) ys" "evp_ready cry" "sec = length (ciphers_of ys)" "sec < 2 ^ 64"
    and "read_mem m ma (length ys * META_SIZE) = metas_of ys" "read_mem m ct sec = ciphers_of ys" "apart pt sec ct sec" "apart pt sec ma (length ys * META_SIZE)"
    and "i \<le> length ys"
  shows "decrypt_k3_loop cry key ct pt sec ma (length ys - i) i (length (plains_of (take i ys))) (write_mem m pt (plains_of (take i ys))) =
    Some (True, write_mem m pt (plains_of ys))"
  using assms(9)
proof (induction "length ys - i" arbitrary: i)
  case (Suc k)
  then have i: "i < length ys" by simp
  let ?x = "ys ! i" and ?off = "length (plains_of (take i ys))" and ?m = "write_mem m pt (plains_of (take i ys))"
  note ok = k_transfers_ok(2) [OF assms(1)]
  have x: "k3_transfer cry key ?x" using assms(1) nth_mem [OF i] by (auto simp: list_all_iff)
  then have xo: "cm_size (t_meta ?x) = length (t_cipher ?x)" "length (t_plain ?x) = length (t_cipher ?x)" "0 < length (t_cipher ?x)"
      "length (t_cipher ?x) \<le> UVM_CONF_COMPUTING_DMA_BUFFER_SIZE" by (auto simp: k3_transfer_def transfer_ok_def)
  have tk: "list_all transfer_ok (take i ys)" using ok by (auto simp: list_all_iff dest: in_set_takeD)
  have off: "?off = length (ciphers_of (take i ys))" by (rule length_plains_of [OF tk])
  have le: "?off + length (t_cipher ?x) \<le> sec" unfolding assms(3) off using concat_at(1) [OF i, of "\<lambda>x. t_cipher x"] by simp
  have fr: "apart ma (length ys * META_SIZE) pt (length (plains_of (take i ys)))" using assms(8) le by (auto simp: apart_def)
  have e: "entry_at ?m ma i = t_meta ?x"
    by (rule entry_metas [OF ok _ i]) (use assms(5) apart_read [OF fr, of m] in simp)
  have "read_mem m (ct + ?off) (length (t_cipher ?x)) = t_cipher ?x" unfolding off by (rule read_part [OF _ i]) (use assms(3,6) in simp)
  then have rd: "read_mem ?m (ct + ?off) (length (t_cipher ?x)) = t_cipher ?x"
    using assms(7) le by (subst read_write_disjoint) (auto simp: apart_def)
  have n: "length (t_cipher ?x) mod 2 ^ 32 = length (t_cipher ?x)" using xo(4) by simp
  have "decrypt_k3_transfer cry key (ct + ?off) (pt + ?off) (length (t_cipher ?x)) (t_meta ?x) ?m = (True, write_mem ?m (pt + ?off) (t_plain ?x))"
    using x xo(4) rd assms(2) unfolding decrypt_k3_transfer_def n by (simp add: k3_transfer_def evp_ready_def)
  moreover have pl: "plains_of (take (Suc i) ys) = plains_of (take i ys) @ t_plain ?x" by (rule concat_at(2) [OF i])
  moreover have "u64 (?off + length (t_cipher ?x)) = ?off + length (t_cipher ?x)" using le assms(4) by (simp add: u64_small)
  moreover have lt: "?off < sec" using le xo(3) by linarith
  ultimately have "decrypt_k3_loop cry key ct pt sec ma (Suc (length ys - Suc i)) i ?off ?m =
      decrypt_k3_loop cry key ct pt sec ma (length ys - Suc i) (Suc i) (length (plains_of (take (Suc i) ys))) (write_mem m pt (plains_of (take (Suc i) ys)))"
    using le xo by (subst decrypt_k3_loop.simps(2), subst if_P [OF lt]) (simp add: e pl write_mem_append)
  moreover have "Suc (length ys - Suc i) = length ys - i" using i by simp
  ultimately show ?case using Suc(1) [of "Suc i"] Suc(2) i by simp
qed simp

lemma decrypt_section_k3:
  assumes "list_all (k3_transfer (er_crypto E) key) ys" "evp_ready (er_crypto E)" "sec = length (ciphers_of ys)" "sec < 2 ^ 64" "ys \<noteq> []"
    and "read_mem m ma (length ys * META_SIZE) = metas_of ys" "read_mem m ct sec = ciphers_of ys" "apart pt sec ct sec" "apart pt sec ma (length ys * META_SIZE)"
  shows "decrypt_section E ct pt sec ma (length ys) (Some key) uvm False m = Some (True, write_mem m pt (plains_of ys))"
proof -
  obtain y ys' where "ys = y # ys'" using assms(5) by (cases ys) auto
  then have "0 < sec" using k_transfers_ok(2) [OF assms(1)] by (auto simp: assms(3) transfer_ok_def)
  then show ?thesis using decrypt_k3_transfers [OF assms(1-4,6-9), of 0] assms(5) by (simp add: decrypt_section_def)
qed

section \<open>Sealed captures\<close>

text \<open>
  The capture \<open>c\<close> of an image of version 3 holds the plaintext capture \<open>p\<close>: same pages, the GPU section encrypted by the
  driver, the CPU section encrypted with k3 or, when there are no entries for it, not at all.
\<close>

definition v3_sealed :: "enc_rst \<Rightarrow> byte list \<Rightarrow> range_capture \<Rightarrow> range_capture \<Rightarrow> bool" where
  "v3_sealed E key c p \<longleftrightarrow> cap_ok c \<and> cap_ok p \<and> rc_base c = rc_base p \<and> rc_length c = rc_length p \<and> rc_cpu_bytes c = rc_cpu_bytes p \<and>
     rc_gpu_bytes c = rc_gpu_bytes p \<and> take (rc_n_pages c) (rc_resmap c) = take (rc_n_pages p) (rc_resmap p) \<and>
     (\<exists>xs ys. list_all (k1_transfer (er_driver E)) xs \<and> list_all (k3_transfer (er_crypto E) key) ys \<and>
        gpu_part c = ciphers_of xs \<and> gpu_part p = plains_of xs \<and> cap_meta c = metas_of (xs @ ys) \<and>
        (if ys = [] then cpu_part c = cpu_part p else cpu_part c = ciphers_of ys \<and> cpu_part p = plains_of ys))"

text \<open>Buffers apart from each other, with room for \<open>B\<close> bytes each.\<close>

definition bufs_apart :: "nat \<Rightarrow> rst_bufs \<Rightarrow> bool" where
  "bufs_apart B b \<longleftrightarrow> (let as = [rb_resmap b, rb_cpu b, rb_cpu_plain b, rb_gpu b, rb_gpu_plain b, rb_meta b, rb_comb b, rb_comb_plain b]
     in sorted_wrt (\<lambda>a a'. apart a B a' B) as \<and> list_all (\<lambda>a. 0 < a \<and> a + B < 2 ^ 64) as)"

lemma apart_mono: "apart a B b B \<Longrightarrow> m \<le> B \<Longrightarrow> n \<le> B \<Longrightarrow> apart a m b n"
  by (auto simp: apart_def)

lemma u64_add: "u64 (u64 a + b) = u64 (a + b)"
  by (simp add: u64_def mod_add_left_eq)

lemma read_bytes_take: "read_bytes f off n = Some xs \<Longrightarrow> take n (drop off f) = xs"
  by (auto simp: read_bytes_def split: if_splits)

lemma desc_at_meta:
  assumes "desc_at f d c"
  shows "read_bytes f (u64 (rd_data_offset d + rd_resmap_size d + rd_cpu_bytes d + rd_gpu_bytes d)) (rd_crypto_meta_bytes d) = Some (cap_meta c)"
    and "rd_crypto_meta_bytes d = length (cap_meta c)"
proof -
  define off where "off = rd_data_offset d"
  let ?r = "take (rc_n_pages c) (rc_resmap c)"
  have d: "d = desc_of off c" and le: "off + cap_bytes c \<le> length f" "length f < 2 ^ 64"
    and t: "take (cap_bytes c) (drop off f) = ?r @ cpu_part c @ gpu_part c @ cap_meta c" and wf: "cap_wf c"
    using assms by (auto simp: desc_at_def off_def cap_sections_def cap_ok_def)
  have n: "length (?r @ cpu_part c @ gpu_part c @ cap_meta c) = cap_bytes c" using length_cap_sections [OF wf] by (simp add: cap_sections_def)
  have l: "length (?r @ cpu_part c @ gpu_part c) = rc_n_pages c + rc_cpu_bytes c + rc_gpu_bytes c" using wf by (simp add: cap_wf_def)
  have lm: "length (cap_meta c) = cap_meta_bytes c" using n l by (simp add: cap_bytes_def)
  have u: "u64 (off + rc_n_pages c + rc_cpu_bytes c + rc_gpu_bytes c) = off + length (?r @ cpu_part c @ gpu_part c)"
    unfolding l using le by (subst u64_small) (simp_all add: cap_bytes_def)
  have "read_bytes f (off + length (?r @ cpu_part c @ gpu_part c)) (length (cap_meta c)) = Some (cap_meta c)"
    by (rule read_bytes_part [OF _ le(1), of _ _ "[]"]) (use t n in simp_all)
  then show "read_bytes f (u64 (rd_data_offset d + rd_resmap_size d + rd_cpu_bytes d + rd_gpu_bytes d)) (rd_crypto_meta_bytes d) = Some (cap_meta c)"
    by (simp only: d desc_of_simps u lm)
  show "rd_crypto_meta_bytes d = length (cap_meta c)" by (simp only: d desc_of_simps lm)
qed

lemma loaded:
  assumes "desc_at f d c" "bufs_apart B b" "length f \<le> B" "m2 = load_data f d b m"
  shows "read_mem m2 (rb_resmap b) (rd_resmap_size d) = take (rc_n_pages c) (rc_resmap c)"
    "read_mem m2 (rb_cpu b) (rd_cpu_bytes d) = cpu_part c" "read_mem m2 (rb_gpu b) (rd_gpu_bytes d) = gpu_part c"
    and "load_meta f d b m2 = write_mem m2 (rb_meta b) (cap_meta c)"
proof -
  define off where "off = rd_data_offset d"
  let ?r = "take (rc_n_pages c) (rc_resmap c)"
  have d: "d = desc_of off c" and le: "off + cap_bytes c \<le> length f" and wf: "cap_wf c"
    using assms(1) by (auto simp: desc_at_def off_def cap_ok_def)
  have l: "length ?r = rd_resmap_size d" "length (cpu_part c) = rd_cpu_bytes d" "length (gpu_part c) = rd_gpu_bytes d"
    using wf by (simp_all add: d cap_wf_def)
  have sm: "rd_resmap_size d \<le> B" "rd_cpu_bytes d \<le> B" "rd_gpu_bytes d \<le> B" using le assms(3) by (simp_all add: d cap_bytes_def)
  note rb = desc_at_reads [OF assms(1), THEN read_bytes_take, unfolded u64_add]
  have m2: "m2 = write_mem (write_mem (write_mem m (rb_resmap b) ?r) (rb_cpu b) (cpu_part c)) (rb_gpu b) (gpu_part c)"
    by (simp only: assms(4) load_data_def read_into_def Let_def rb)
  have ap: "apart (rb_resmap b) (rd_resmap_size d) (rb_cpu b) (rd_cpu_bytes d)" "apart (rb_resmap b) (rd_resmap_size d) (rb_gpu b) (rd_gpu_bytes d)"
    "apart (rb_cpu b) (rd_cpu_bytes d) (rb_gpu b) (rd_gpu_bytes d)"
    using assms(2) sm by (auto simp: bufs_apart_def Let_def intro: apart_mono)
  show "read_mem m2 (rb_resmap b) (rd_resmap_size d) = ?r" "read_mem m2 (rb_cpu b) (rd_cpu_bytes d) = cpu_part c"
    "read_mem m2 (rb_gpu b) (rd_gpu_bytes d) = gpu_part c"
    unfolding m2 using ap l by (simp_all add: apart_read read_write_same del: length_take)
  show "load_meta f d b m2 = write_mem m2 (rb_meta b) (cap_meta c)"
    by (simp only: load_meta_def read_into_def desc_at_meta(1) [OF assms(1), THEN read_bytes_take])
qed

lemma enc_loop_is_loop:
  "assemble_loop rm cpu gpu sz off p n co go m = Done m' \<Longrightarrow> enc_assemble_loop rm cpu gpu sz off p n co go m = Done m'"
  by (induction n arbitrary: p co go m) (auto simp: Let_def not_less split: if_splits)

lemma patch_group_overlay:
  assumes "cap_ok p" "rd_base_va d = rc_base p" "rd_length d = rc_length p" "rd_num_pages d = rc_n_pages p" "in_group d (shape g)"
  shows "patch_group d (take (rc_n_pages p) (rc_resmap p)) (cpu_part p) (gpu_part p) g = Done (overlay_group p g)"
proof -
  let ?rm = "take (rc_n_pages p) (rc_resmap p)"
  have ok: "cap_wf p" "rc_length p = rc_n_pages p * PAGE_SIZE" "rc_cpu_bytes p = PAGE_SIZE * count_list ?rm 0" "rc_gpu_bytes p = PAGE_SIZE * count_list ?rm 1"
    using assms(1) by (auto simp: cap_ok_def)
  have "rc_base p + rc_n_pages p * PAGE_SIZE \<le> g_va g + g_sz g" "g_va g \<le> rc_base p"
    using assms(2,3,5) ok(2) by (simp_all add: in_group_def shape_def rd_end_def)
  then have "rc_base p - g_va g + rc_n_pages p * PAGE_SIZE \<le> g_sz g" by linarith
  then have "assemble_loop ?rm (cpu_part p) (gpu_part p) (g_sz g) (rc_base p - g_va g) 0 (rc_n_pages p) 0 0 (g_mem g) =
      Done (overlay (rc_base p - g_va g) ?rm (cpu_part p) (gpu_part p) (g_mem g))"
    using assemble_loop_overlay [of 0 "rc_n_pages p" ?rm "rc_base p - g_va g" "g_sz g" 0 "cpu_part p" 0 "gpu_part p" "g_mem g"] ok
    by (simp add: cap_wf_def)
  from enc_loop_is_loop [OF this] show ?thesis using assms(2,4) by (simp add: patch_group_def overlay_group_def)
qed

text \<open>What the buffers of a range hold before decryption.\<close>

definition sealed_at :: "rst_bufs \<Rightarrow> transfer list \<Rightarrow> transfer list \<Rightarrow> byte list \<Rightarrow> mem \<Rightarrow> bool" where
  "sealed_at b xs ys cpu m \<longleftrightarrow> read_mem m (rb_meta b) (length (xs @ ys) * META_SIZE) = metas_of (xs @ ys) \<and>
     read_mem m (rb_gpu b) (length (ciphers_of xs)) = ciphers_of xs \<and> read_mem m (rb_cpu b) (length cpu) = cpu"

lemma bufs_apart_pairs:
  assumes "bufs_apart B b" "n \<le> B" "n' \<le> B"
  shows "apart (rb_gpu_plain b) n (rb_gpu b) n'" "apart (rb_gpu_plain b) n (rb_meta b) n'" "apart (rb_gpu_plain b) n (rb_cpu b) n'" "apart (rb_gpu_plain b) n (rb_cpu_plain b) n'"
    "apart (rb_gpu_plain b) n (rb_resmap b) n'" "apart (rb_cpu_plain b) n (rb_cpu b) n'" "apart (rb_cpu_plain b) n (rb_meta b) n'" "apart (rb_cpu_plain b) n (rb_resmap b) n'"
    "apart (rb_gpu b) n (rb_meta b) n'" "apart (rb_gpu b) n (rb_cpu b) n'" "apart (rb_gpu b) n (rb_resmap b) n'" "apart (rb_cpu b) n (rb_resmap b) n'"
    "apart (rb_cpu b) n (rb_meta b) n'" "apart (rb_meta b) n (rb_resmap b) n'" "apart (rb_cpu_plain b) n (rb_gpu b) n'"
  using assms apart_mono [of _ B _ n n'] apart_commute [of _ B _ B] by (auto simp: bufs_apart_def Let_def)

lemma sealed_at_keep:
  assumes "sealed_at b xs ys cpu m" "list_all transfer_ok (xs @ ys)" "bufs_apart B b" "length w \<le> B"
    and "length (xs @ ys) * META_SIZE \<le> B" "length (ciphers_of xs) \<le> B" "length cpu \<le> B"
  shows "sealed_at b xs ys cpu (write_mem m (rb_gpu_plain b) w)" "sealed_at b xs ys cpu (write_mem m (rb_cpu_plain b) w)"
  using assms(1) bufs_apart_pairs [OF assms(3,4,5)] bufs_apart_pairs [OF assms(3,4,6)] bufs_apart_pairs [OF assms(3,4,7)]
  by (simp_all add: sealed_at_def apart_read apart_commute)

definition restore_ready :: "enc_rst \<Rightarrow> byte list \<Rightarrow> bool" where
  "restore_ready E key \<longleftrightarrow> driver_ready E \<and> evp_ready (er_crypto E) \<and> er_key E = Some key"

definition sealed_fit :: "enc_rst \<Rightarrow> byte list \<Rightarrow> nat \<Rightarrow> rst_bufs \<Rightarrow> transfer list \<Rightarrow> transfer list \<Rightarrow> byte list \<Rightarrow> bool" where
  "sealed_fit E key B b xs ys cpu \<longleftrightarrow> restore_ready E key \<and> bufs_apart B b \<and> list_all (k1_transfer (er_driver E)) xs \<and> list_all (k3_transfer (er_crypto E) key) ys \<and>
     length (xs @ ys) * META_SIZE \<le> B \<and> length (ciphers_of xs) \<le> B \<and> length cpu \<le> B \<and> (ys \<noteq> [] \<longrightarrow> cpu = ciphers_of ys)"

lemma sealed_fit_ok: "sealed_fit E key B b xs ys cpu \<Longrightarrow> list_all transfer_ok (xs @ ys) \<and> B < 2 ^ 64"
  using k_transfers_ok by (auto simp: sealed_fit_def bufs_apart_def Let_def)

lemma gpu_opened:
  assumes "sealed_fit E key B b xs ys cpu" "sealed_at b xs ys cpu m" "xs \<noteq> []"
  shows "decrypt_section E (rb_gpu b) (rb_gpu_plain b) (length (ciphers_of xs)) (rb_meta b) (length xs) k True True m =
    Some (True, write_mem m (rb_gpu_plain b) (plains_of xs))"
proof (rule decrypt_section_k1)
  note ok = sealed_fit_ok [OF assms(1)]
  show "read_mem m (rb_meta b) (length xs * META_SIZE) = metas_of xs"
    using metas_split(1) [of xs ys m "rb_meta b"] ok assms(2) by (simp add: sealed_at_def)
  show "length xs * META_SIZE < 2 ^ 64" using ok assms(1) by (simp add: sealed_fit_def add_mult_distrib)
  show "apart (rb_gpu_plain b) (length (ciphers_of xs)) (rb_gpu b) (length (ciphers_of xs))"
    using bufs_apart_pairs(1) [of B b] assms(1) by (simp add: sealed_fit_def)
qed (use assms in \<open>auto simp: sealed_fit_def restore_ready_def sealed_at_def bufs_apart_def Let_def\<close>)

lemma cpu_opened:
  assumes "sealed_fit E key B b xs ys cpu" "read_mem m (rb_meta b) (length (xs @ ys) * META_SIZE) = metas_of (xs @ ys)"
    and "read_mem m (rb_cpu b) (length cpu) = cpu" "ys \<noteq> []"
  shows "decrypt_section E (rb_cpu b) (rb_cpu_plain b) (length cpu) (rb_meta b + length xs * META_SIZE) (length ys) (er_key E) u False m =
    Some (True, write_mem m (rb_cpu_plain b) (plains_of ys))"
proof -
  note ok = sealed_fit_ok [OF assms(1)]
  have cpu: "cpu = ciphers_of ys" and key: "er_key E = Some key" using assms(1,4) by (auto simp: sealed_fit_def restore_ready_def)
  have ap: "apart (rb_cpu_plain b) (length cpu) (rb_meta b) (length (xs @ ys) * META_SIZE)"
    using bufs_apart_pairs(7) [of B b] assms(1) by (simp add: sealed_fit_def)
  show ?thesis
    unfolding key
  proof (rule decrypt_section_k3)
    show "read_mem m (rb_meta b + length xs * META_SIZE) (length ys * META_SIZE) = metas_of ys"
      using metas_split(2) [of xs ys m "rb_meta b"] ok assms(2) by simp
    show "apart (rb_cpu_plain b) (length cpu) (rb_cpu b) (length cpu)" using bufs_apart_pairs(6) [of B b] assms(1) by (simp add: sealed_fit_def)
    show "apart (rb_cpu_plain b) (length cpu) (rb_meta b + length xs * META_SIZE) (length ys * META_SIZE)"
      using ap by (auto simp: apart_def add_mult_distrib)
    show "length cpu < 2 ^ 64" using ok assms(1) by (simp add: sealed_fit_def)
  qed (use assms cpu in \<open>auto simp: sealed_fit_def restore_ready_def\<close>)
qed

lemma ciphers_empty: "list_all transfer_ok xs \<Longrightarrow> length (ciphers_of xs) = 0 \<longleftrightarrow> xs = []"
  by (cases xs) (auto simp: transfer_ok_def)

lemma gpu_meta_count:
  assumes "sealed_fit E key B b xs ys cpu" "sealed_at b xs ys cpu m"
  shows "count_metas m (rb_meta b) (length (ciphers_of xs)) (length xs + length ys) 0 0 = length xs"
  using count_metas_prefix [of xs ys m "rb_meta b" 0] sealed_fit_ok [OF assms(1)] assms by (simp add: sealed_at_def sealed_fit_def)

lemma decrypt_v3_opened:
  assumes "sealed_fit E key B b xs ys cpu" "sealed_at b xs ys cpu m"
  shows "decrypt_v3 E b (length cpu) (length (ciphers_of xs)) (length xs + length ys) m =
    Some (True, write_mem (write_mem m (rb_gpu_plain b) (plains_of xs)) (rb_cpu_plain b) (if ys = [] then cpu else plains_of ys))"
proof -
  note ok = sealed_fit_ok [OF assms(1)] and f = assms(1) [unfolded sealed_fit_def]
  let ?m = "write_mem m (rb_gpu_plain b) (plains_of xs)"
  have lp: "length (plains_of xs) = length (ciphers_of xs)" using ok length_plains_of by simp
  have fl: "bufs_apart B b" "length (xs @ ys) * META_SIZE \<le> B" "length (ciphers_of xs) \<le> B" "length cpu \<le> B" using f by simp_all
  have at: "sealed_at b xs ys cpu ?m"
    by (rule sealed_at_keep(1) [OF assms(2) _ fl(1) _ fl(2-4)]) (use ok fl(3) lp in auto)
  have uv: "er_uvm E" "er_key E = Some key" using f by (simp_all add: restore_ready_def driver_ready_def)
  have g: "(if 0 < length (ciphers_of xs) \<and> 0 < length xs
        then decrypt_section E (rb_gpu b) (rb_gpu_plain b) (length (ciphers_of xs)) (rb_meta b) (length xs) None (er_uvm E) True m
        else Some (True, if 0 < length (ciphers_of xs) then copy_area (rb_gpu_plain b) (rb_gpu b) (length (ciphers_of xs)) m else m)) = Some (True, ?m)"
  proof (cases "xs = []")
    case False
    then have "0 < length (ciphers_of xs)" "0 < length xs" using ciphers_empty [of xs] ok by auto
    then show ?thesis using gpu_opened [OF assms False] uv(1) by presburger
  qed simp
  have c: "(if 0 < length cpu \<and> 0 < length ys \<and> er_key E \<noteq> None
        then decrypt_section E (rb_cpu b) (rb_cpu_plain b) (length cpu) (rb_meta b + length xs * META_SIZE) (length ys) (er_key E) False False ?m
        else Some (True, if 0 < length cpu then copy_area (rb_cpu_plain b) (rb_cpu b) (length cpu) ?m else ?m)) =
      Some (True, write_mem ?m (rb_cpu_plain b) (if ys = [] then cpu else plains_of ys))"
  proof (cases "ys = []")
    case True
    then show ?thesis using at by (auto simp: copy_area_def sealed_at_def)
  next
    case False
    then have "0 < length cpu" using f ok ciphers_empty [of ys] by auto
    then show ?thesis using cpu_opened [OF assms(1) _ _ False] at False uv(2) by (simp add: sealed_at_def)
  qed
  show ?thesis
    by (simp only: decrypt_v3_def gpu_meta_count [OF assms] Let_def g option.case prod.case add_diff_cancel_left' c simp_thms)
qed

text \<open>The two functions lay the plaintext capture over its group.\<close>

lemma sealed_loaded:
  assumes "desc_at f d c" "v3_sealed E key c p" "restore_ready E key" "bufs_apart B b" "length f \<le> B"
  obtains xs ys where "sealed_fit E key B b xs ys (cpu_part c)" "rd_crypto_meta_bytes d = length (xs @ ys) * META_SIZE"
    "rd_gpu_bytes d = length (ciphers_of xs)" "rd_cpu_bytes d = length (cpu_part c)" "gpu_part p = plains_of xs"
    "cpu_part p = (if ys = [] then cpu_part c else plains_of ys)" "sealed_at b xs ys (cpu_part c) (load_meta f d b (load_data f d b m))"
    "xs @ ys = [] \<longrightarrow> load_meta f d b (load_data f d b m) = load_data f d b m"
    "read_mem (load_meta f d b (load_data f d b m)) (rb_resmap b) (rd_resmap_size d) = take (rc_n_pages p) (rc_resmap p)" "rd_resmap_size d \<le> B"
proof -
  obtain xs ys where xy: "list_all (k1_transfer (er_driver E)) xs" "list_all (k3_transfer (er_crypto E) key) ys" "gpu_part c = ciphers_of xs"
      "gpu_part p = plains_of xs" "cap_meta c = metas_of (xs @ ys)"
      "if ys = [] then cpu_part c = cpu_part p else cpu_part c = ciphers_of ys \<and> cpu_part p = plains_of ys"
    using assms(2) unfolding v3_sealed_def by blast
  define off where "off = rd_data_offset d"
  have d: "d = desc_of off c" and le: "off + cap_bytes c \<le> length f" and wf: "cap_wf c"
    using assms(1) by (auto simp: desc_at_def off_def cap_ok_def)
  have ok: "list_all transfer_ok (xs @ ys)" using xy(1,2) k_transfers_ok by auto
  have nm: "rd_crypto_meta_bytes d = length (xs @ ys) * META_SIZE" using desc_at_meta(2) [OF assms(1)] length_metas_of [OF ok] xy(5) by simp
  have ng: "rd_gpu_bytes d = length (ciphers_of xs)" and nc: "rd_cpu_bytes d = length (cpu_part c)"
    using wf by (simp_all add: d cap_wf_def xy(3) [symmetric])
  have sm: "rd_crypto_meta_bytes d \<le> B" "rd_gpu_bytes d \<le> B" "rd_cpu_bytes d \<le> B" "rd_resmap_size d \<le> B"
    using le assms(5) by (simp_all add: d cap_bytes_def)
  have fit: "sealed_fit E key B b xs ys (cpu_part c)"
    unfolding sealed_fit_def using assms(3,4) xy sm nm ng nc by (auto split: if_splits)
  note l = loaded [OF assms(1,4,5) refl, of m] and ap = bufs_apart_pairs [OF assms(4)]
  have at: "sealed_at b xs ys (cpu_part c) (load_meta f d b (load_data f d b m))"
    unfolding l(4) sealed_at_def xy(5)
    using l(2,3) ap(9) [OF sm(2,1)] ap(13) [OF sm(3,1)] length_metas_of [OF ok] nm ng nc xy(3)
    by (simp add: read_write_same apart_read)
  have lm: "length (cap_meta c) \<le> B" using sm(1) desc_at_meta(2) [OF assms(1)] by simp
  have rm: "read_mem (load_meta f d b (load_data f d b m)) (rb_resmap b) (rd_resmap_size d) = take (rc_n_pages p) (rc_resmap p)"
    unfolding l(4) using ap(14) [OF lm sm(4)] l(1) assms(2) by (simp add: apart_read apart_commute v3_sealed_def)
  show thesis
    by (rule that [OF fit nm ng nc xy(4) _ at _ rm sm(4)]) (use xy(5,6) l(4) in auto)
qed

lemma sealed_fields:
  assumes "desc_at f d c" "v3_sealed E key c p" "length f \<le> B"
  shows "length (gpu_part p) = rd_gpu_bytes d" "length (cpu_part p) = rd_cpu_bytes d" "rd_gpu_bytes d \<le> B" "rd_cpu_bytes d \<le> B"
    and "\<not> (rd_resmap_size d \<noteq> 0 \<and> length f < rd_data_offset d + rd_resmap_size d)"
    and "in_group d (shape g) \<Longrightarrow> patch_group d (take (rc_n_pages p) (rc_resmap p)) (cpu_part p) (gpu_part p) g = Done (overlay_group p g)"
proof -
  define off where "off = rd_data_offset d"
  have d: "d = desc_of off c" and le: "off + cap_bytes c \<le> length f" using assms(1) by (auto simp: desc_at_def off_def)
  have s: "rc_n_pages p = rc_n_pages c" "rc_base c = rc_base p" "rc_length c = rc_length p" "cap_ok p" "rc_cpu_bytes c = rc_cpu_bytes p" "rc_gpu_bytes c = rc_gpu_bytes p"
    using assms(2) by (auto simp: v3_sealed_def cap_ok_def)
  show "length (gpu_part p) = rd_gpu_bytes d" "length (cpu_part p) = rd_cpu_bytes d" using s(4) by (simp_all add: d s cap_ok_def cap_wf_def)
  show "rd_gpu_bytes d \<le> B" "rd_cpu_bytes d \<le> B" "\<not> (rd_resmap_size d \<noteq> 0 \<and> length f < rd_data_offset d + rd_resmap_size d)"
    using le assms(3) by (simp_all add: d cap_bytes_def)
  show "patch_group d (take (rc_n_pages p) (rc_resmap p)) (cpu_part p) (gpu_part p) g = Done (overlay_group p g)" if "in_group d (shape g)"
    by (rule patch_group_overlay [OF s(4) _ _ _ that]) (simp_all add: d s)
qed

lemma opened_reads:
  assumes "bufs_apart B b" "length gp \<le> B" "length cp \<le> B" "rs \<le> B" "m' = write_mem (write_mem m (rb_gpu_plain b) gp) (rb_cpu_plain b) cp"
  shows "read_mem m' (rb_gpu_plain b) (length gp) = gp" "read_mem m' (rb_cpu_plain b) (length cp) = cp"
    and "read_mem m' (rb_resmap b) rs = read_mem m (rb_resmap b) rs"
  unfolding assms(5) using bufs_apart_pairs(4) [OF assms(1,2,3)] bufs_apart_pairs(5) [OF assms(1,2,4)] bufs_apart_pairs(8) [OF assms(1,3,4)]
  by (simp_all add: read_write_same apart_read apart_commute)

lemma restore_range_sealed:
  assumes "desc_at f d c" "v3_sealed E key c p" "restore_ready E key" "bufs_apart B (er_bufs E False k)" "length f \<le> B" "all_alloc (er_files E)"
    and "in_group d (shape g)"
  shows "restore_range E f True k d g = Done (overlay_group p g)"
proof -
  let ?b = "er_bufs E False k" and ?m = "er_heap E False k"
  let ?M = "load_meta f d ?b (load_data f d ?b ?m)"
  obtain xs ys where x: "sealed_fit E key B ?b xs ys (cpu_part c)" "rd_crypto_meta_bytes d = length (xs @ ys) * META_SIZE"
    "rd_gpu_bytes d = length (ciphers_of xs)" "rd_cpu_bytes d = length (cpu_part c)" "gpu_part p = plains_of xs"
    "cpu_part p = (if ys = [] then cpu_part c else plains_of ys)" "sealed_at ?b xs ys (cpu_part c) ?M"
    "xs @ ys = [] \<longrightarrow> ?M = load_data f d ?b ?m"
    "read_mem ?M (rb_resmap ?b) (rd_resmap_size d) = take (rc_n_pages p) (rc_resmap p)" "rd_resmap_size d \<le> B"
    by (rule sealed_loaded [OF assms(1-5), of ?m])
  note fl = sealed_fields [OF assms(1,2,5)]
  define m' where "m' = write_mem (write_mem ?M (rb_gpu_plain ?b) (gpu_part p)) (rb_cpu_plain ?b) (cpu_part p)"
  have rd: "read_mem m' (rb_gpu_plain ?b) (rd_gpu_bytes d) = gpu_part p" "read_mem m' (rb_cpu_plain ?b) (rd_cpu_bytes d) = cpu_part p"
    "read_mem m' (rb_resmap ?b) (rd_resmap_size d) = take (rc_n_pages p) (rc_resmap p)"
    using opened_reads [OF assms(4) _ _ x(10) m'_def] x(9) fl(3,4) unfolding fl(1,2) by simp_all
  have n: "rd_crypto_meta_bytes d div META_SIZE = length xs + length ys" unfolding x(2) by simp
  have dec: "(if 0 < length xs + length ys then decrypt_v3 E ?b (rd_cpu_bytes d) (rd_gpu_bytes d) (length xs + length ys) ?M
      else Some (True, plain_copy ?b (rd_cpu_bytes d) (rd_gpu_bytes d) ?M)) = Some (True, m')"
  proof (cases "xs @ ys = []")
    case True
    then show ?thesis using x(7) by (simp add: x(3-6) m'_def plain_copy_def copy_area_def sealed_at_def read_mem_def)
  next
    case False
    then show ?thesis using decrypt_v3_opened [OF x(1,7)] by (simp only: x(3-6) m'_def) simp
  qed
  have M: "(if 0 < rd_crypto_meta_bytes d then ?M else load_data f d ?b ?m) = ?M" using x(2,8) by auto
  have al: "re_alloc (er_files E) z" for z using assms(6) by (simp add: all_alloc_def)
  show ?thesis
    unfolding restore_range_def Let_def n M if_True dec using al fl(5) rd fl(6) [OF assms(7)] by simp
qed

lemma decrypt_over_out:
  assumes "decrypt_section E data out n ma k key u use m = Some (ok, write_mem m out bs)" "length bs = n"
  shows "decrypt_over E data out n ma k key u use m = Some (write_mem (write_mem m out bs) data bs)"
  using assms by (simp add: decrypt_over_def copy_area_def read_write_same)

lemma restore_block_sealed:
  assumes "desc_at f d c" "v3_sealed E key c p" "restore_ready E key" "bufs_apart B (er_bufs E True k)" "length f \<le> B" "all_alloc (er_files E)"
    and "in_group d (shape g)"
  shows "restore_block E f True k d g = Done (overlay_group p g)"
proof -
  let ?b = "er_bufs E True k" and ?m = "er_heap E True k"
  let ?M = "load_meta f d ?b (load_data f d ?b ?m)"
  obtain xs ys where x: "sealed_fit E key B ?b xs ys (cpu_part c)" "rd_crypto_meta_bytes d = length (xs @ ys) * META_SIZE"
    "rd_gpu_bytes d = length (ciphers_of xs)" "rd_cpu_bytes d = length (cpu_part c)" "gpu_part p = plains_of xs"
    "cpu_part p = (if ys = [] then cpu_part c else plains_of ys)" "sealed_at ?b xs ys (cpu_part c) ?M"
    "xs @ ys = [] \<longrightarrow> ?M = load_data f d ?b ?m"
    "read_mem ?M (rb_resmap ?b) (rd_resmap_size d) = take (rc_n_pages p) (rc_resmap p)" "rd_resmap_size d \<le> B"
    by (rule sealed_loaded [OF assms(1-5), of ?m])
  note fl = sealed_fields [OF assms(1,2,5)] and ok = sealed_fit_ok [OF x(1)]
  have uv: "er_uvm E" "er_key E = Some key" using assms(3) by (simp_all add: restore_ready_def driver_ready_def)
  define m4 where "m4 = (if xs = [] then ?M else write_mem (write_mem ?M (rb_gpu_plain ?b) (gpu_part p)) (rb_gpu ?b) (gpu_part p))"
  define m5 where "m5 = (if ys = [] then m4 else write_mem (write_mem m4 (rb_cpu_plain ?b) (cpu_part p)) (rb_cpu ?b) (cpu_part p))"
  have n: "rd_crypto_meta_bytes d div META_SIZE = length xs + length ys" unfolding x(2) by simp
  have gm: "count_metas ?M (rb_meta ?b) (rd_gpu_bytes d) (length xs + length ys) 0 0 = length xs"
    using gpu_meta_count [OF x(1,7)] unfolding x(3) .
  have r1: "(if 0 < rd_gpu_bytes d \<and> 0 < length xs then decrypt_over E (rb_gpu ?b) (rb_gpu_plain ?b) (rd_gpu_bytes d) (rb_meta ?b) (length xs) (er_key E) (True \<and> er_uvm E) True ?M
      else Some ?M) = Some m4"
  proof (cases "xs = []")
    case False
    then have "0 < rd_gpu_bytes d" "0 < length xs" using ciphers_empty [of xs] ok unfolding x(3) by auto
    then show ?thesis using False decrypt_over_out [OF gpu_opened [OF x(1,7) False, folded x(3,5)] fl(1)] uv by (simp add: m4_def)
  qed (simp add: m4_def)
  have bo: "bufs_apart B ?b" and lm: "length (xs @ ys) * META_SIZE \<le> B" using x(1) by (simp_all add: sealed_fit_def)
  have at: "read_mem ?M (rb_meta ?b) (length (xs @ ys) * META_SIZE) = metas_of (xs @ ys)" "read_mem ?M (rb_cpu ?b) (rd_cpu_bytes d) = cpu_part c"
    "read_mem ?M (rb_resmap ?b) (rd_resmap_size d) = take (rc_n_pages p) (rc_resmap p)"
    using x(4,7,9) by (simp_all add: sealed_at_def)
  note ap = bufs_apart_pairs [OF bo fl(3) lm] bufs_apart_pairs [OF bo fl(3,4)] bufs_apart_pairs [OF bo fl(3) x(10)]
    bufs_apart_pairs [OF bo fl(4,3)] bufs_apart_pairs [OF bo fl(4) x(10)]
  have m4: "read_mem m4 (rb_meta ?b) (length (xs @ ys) * META_SIZE) = metas_of (xs @ ys)" "read_mem m4 (rb_cpu ?b) (rd_cpu_bytes d) = cpu_part c"
    "read_mem m4 (rb_resmap ?b) (rd_resmap_size d) = take (rc_n_pages p) (rc_resmap p)" "read_mem m4 (rb_gpu ?b) (rd_gpu_bytes d) = gpu_part p"
    using at ap fl(1) x(3,5) unfolding m4_def
    by (auto simp: apart_read apart_commute read_write_same read_mem_def [of _ _ 0] simp del: length_append)
  have r2: "(if 0 < rd_cpu_bytes d \<and> er_key E \<noteq> None \<and> 0 < length ys
      then decrypt_over E (rb_cpu ?b) (rb_cpu_plain ?b) (rd_cpu_bytes d) (rb_meta ?b + length xs * META_SIZE) (length ys) (er_key E) False False m4 else Some m4) = Some m5"
  proof (cases "ys = []")
    case False
    then have "0 < rd_cpu_bytes d" using ciphers_empty [of ys] ok x(1) unfolding x(4) sealed_fit_def by auto
    moreover have cp: "cpu_part p = plains_of ys" using x(6) False by simp
    ultimately show ?thesis
      using False decrypt_over_out [OF cpu_opened [OF x(1) m4(1) _ False, folded x(4) cp, OF m4(2)] fl(2)] uv by (simp add: m5_def)
  qed (simp add: m5_def)
  have m5: "read_mem m5 (rb_cpu ?b) (rd_cpu_bytes d) = cpu_part p" "read_mem m5 (rb_gpu ?b) (rd_gpu_bytes d) = gpu_part p"
    "read_mem m5 (rb_resmap ?b) (rd_resmap_size d) = take (rc_n_pages p) (rc_resmap p)"
    using m4 ap fl(2) x(6) unfolding m5_def by (auto simp: apart_read apart_commute read_write_same)
  have al: "re_alloc (er_files E) z" for z using assms(6) by (simp add: all_alloc_def)
  have e: "load_data f d ?b ?m = m5" if "\<not> 0 < rd_crypto_meta_bytes d"
    using that x(8) unfolding x(2) by (simp add: m5_def m4_def)
  show ?thesis
    unfolding restore_block_def Let_def n if_True gm r1 option.case add_diff_cancel_left' r2
    using m5 fl(6) [OF assms(7)] e by (simp add: al)
qed

section \<open>The whole restore\<close>

definition sealed_desc :: "enc_rst \<Rightarrow> byte list \<Rightarrow> nat \<Rightarrow> byte list \<Rightarrow> range_desc \<Rightarrow> range_capture \<Rightarrow> bool" where
  "sealed_desc E key B f d p \<longleftrightarrow> restore_ready E key \<and> all_alloc (er_files E) \<and> (\<forall>dl k. bufs_apart B (er_bufs E dl k)) \<and> length f \<le> B \<and>
     (\<exists>c. desc_at f d c \<and> v3_sealed E key c p)"

lemma sealed_desc_fields: "sealed_desc E key B f d p \<Longrightarrow> cap_ok p \<and> rd_base_va d = rc_base p \<and> rd_length d = rc_length p"
  using desc_at_fields by (fastforce simp: sealed_desc_def v3_sealed_def)

interpretation enc_ranges: range_assembly "er_files E" "sealed_desc E key B f" "restore_range E f True" for E key B f
proof
  fix d c g k assume "sealed_desc E key B f d c" "in_group d (shape g)"
  then show "restore_range E f True k d g = Fail \<and> \<not> all_alloc (er_files E) \<or> restore_range E f True k d g = Done (overlay_group c g)"
    using restore_range_sealed [of f d _ E key c B k g] by (auto simp: sealed_desc_def)
qed (rule sealed_desc_fields)

interpretation enc_blocks: range_assembly "er_files E" "sealed_desc E key B f" "restore_block E f True" for E key B f
proof
  fix d c g k assume "sealed_desc E key B f d c" "in_group d (shape g)"
  then show "restore_block E f True k d g = Fail \<and> \<not> all_alloc (er_files E) \<or> restore_block E f True k d g = Done (overlay_group c g)"
    using restore_block_sealed [of f d _ E key c B k g] by (auto simp: sealed_desc_def)
qed (rule sealed_desc_fields)

lemma sealed_descs:
  assumes "list_all2 (desc_at f) ds caps" "list_all2 (v3_sealed E key) caps ps"
    and "restore_ready E key" "all_alloc (er_files E)" "\<forall>dl k. bufs_apart B (er_bufs E dl k)" "length f \<le> B"
  shows "list_all2 (sealed_desc E key B f) ds ps"
  by (rule list_all2_trans [OF _ assms(1,2)]) (use assms(3-6) in \<open>auto simp: sealed_desc_def\<close>)

lemma overlay_result:
  assumes "base_restored caps gs" "map shape gs' = map shape gs" "groups_hold gs' (fold apply_cap dcaps (fold apply_cap caps (\<lambda>_. 0)))"
  shows "sorted_wrt (\<lambda>g h. g_va g + g_sz g < g_va h) gs' \<and>
    (\<Union>g \<in> set gs'. {g_va g ..< g_va g + g_sz g}) = (\<Union>c \<in> set caps. {rc_base c ..< cap_end c}) \<and>
    (\<forall>g \<in> set gs'. read_mem (g_mem g) 0 (g_sz g) = read_mem (fold apply_cap dcaps (fold apply_cap caps (\<lambda>_. 0))) (g_va g) (g_sz g))"
proof -
  have u: "(\<Union>g \<in> set gs. ivl (shape g)) = (\<Union>x \<in> set (map shape gs). ivl x)" for gs by simp
  have "groups_wf gs'" "(\<Union>g \<in> set gs'. ivl (shape g)) = (\<Union>c \<in> set caps. cap_ivl c)"
    using assms(1) groups_wf_shape [OF assms(2)] unfolding base_restored_def u assms(2) by simp_all
  then show ?thesis using assms(3)
    by (auto simp: groups_wf_def sorted_wrt_map shape_def ivl_def cap_ivl_def groups_hold_def intro!: read_mem_cong)
qed

lemma base_version: "field 4 4 (base_image caps 3 @ r) = 3"
  by (simp add: field_def base_image_def enc_v2_hdr_def le_nat_le_bytes)

lemma encrypted_restore_main:
  assumes "list_all2 (v3_sealed E key) caps ps" "list_all2 (v3_sealed E key) dcaps dps" "pairwise_indep caps_disjoint ps"
    and "length caps \<le> MAX_GROUPS" "length dcaps < 2 ^ 32" "\<exists>c \<in> set caps. cap_meta c \<noteq> []"
    and "\<forall>d \<in> set dps. cap_ivl d \<subseteq> (\<Union>c \<in> set ps. cap_ivl c)"
    and "restore_ready E key" "all_alloc (er_files E)" "re_open (er_files E) = (True, True)" "qsort_ok (er_files E)" "\<forall>dl k. bufs_apart B (er_bufs E dl k)"
    and "fb = base_image caps 3 @ junk" "length fb \<le> B" "fd = delta_image dcaps va sz dirty @ djunk" "length fd \<le> B"
  shows "\<exists>gs gs'. ckpt_restore_from_files_encrypted E fb fd = Done gs' \<and> base_restored ps gs \<and> map shape gs' = map shape gs \<and>
    groups_hold gs' (fold apply_cap dps (fold apply_cap ps (\<lambda>_. 0)))"
proof -
  let ?e = "er_files E"
  define ds where "ds = build_descs (v2_data_off caps) caps"
  define dds where "dds = build_descs (delta_data_off dcaps) dcaps"
  have "bufs_apart B (er_bufs E True 0)" using assms(12) by blast
  then have B: "B < 2 ^ 64" by (simp add: bufs_apart_def Let_def)
  have ok: "\<forall>c \<in> set caps. cap_ok c" "\<forall>c \<in> set dcaps. cap_ok c"
    using assms(1,2) by (auto simp: list_all2_conv_all_nth in_set_conv_nth v3_sealed_def)
  have n32: "length caps < 2 ^ 32" and f64: "length fb < 2 ^ 64" "length fd < 2 ^ 64" using assms(4,14,16) B by simp_all
  note p = base_image_parse [OF ok(1) n32 assms(13) f64(1), folded ds_def] and q = delta_image_parse [OF ok(2) assms(5,15) f64(2), folded dds_def]
  have al: "re_alloc ?e n" for n using assms(9) by (simp add: all_alloc_def)
  have sb: "list_all2 (sealed_desc E key B fb) ds ps" and sd: "list_all2 (sealed_desc E key B fd) dds dps"
    using sealed_descs [OF p(5) assms(1,8,9,12,14)] sealed_descs [OF q(5) assms(2,8,9,12,16)] by simp_all
  have "length (re_qsort ?e ds) = length caps" using assms(11) mset_eq_length [of "re_qsort ?e ds" ds] by (simp add: qsort_ok_def ds_def)
  then obtain gs0 rg where g0: "group_ranges (re_qsort ?e ds) [] [] = Some (gs0, rg)" using group_ranges_total [of "[]" "re_qsort ?e ds" "[]"] assms(4) by auto
  have "enc_restore_base E fb ds True = run_ranges (restore_range E fb True) 0 (zip (re_qsort ?e ds) rg) (empty_groups gs0)"
    by (simp add: enc_restore_base_def g0 al list_all_iff)
  then obtain gs where b: "enc_restore_base E fb ds True = Done gs" "base_restored ps gs"
    using enc_ranges.base_groups_restored [OF sb assms(3,11) g0] assms(9) by auto
  have ing: "\<forall>d \<in> set dds. \<exists>x \<in> set (map shape gs). in_group d x"
  proof
    fix d assume "d \<in> set dds"
    then obtain p where "p \<in> set dps" "sealed_desc E key B fd d p" using sd by (metis list_all2_conv_all_nth in_set_conv_nth)
    moreover have "cap_ok p" using calculation(2) by (auto simp: sealed_desc_def v3_sealed_def)
    moreover obtain x where "x \<in> set (map shape gs)" "fst x \<le> rc_base p" "cap_end p \<le> fst x + snd x"
      using base_covers [OF b(2) calculation(3)] assms(7) calculation(1) by blast
    ultimately show "\<exists>x \<in> set (map shape gs). in_group d x"
      using sealed_desc_fields [of E key B fd d p] by (intro bexI [of _ x]) (auto simp: in_group_def rd_end_def cap_end_def)
  qed
  have "restored ?e gs (fold apply_cap dps (fold apply_cap ps (\<lambda>_. 0))) (run_blocks (restore_block E fd True) True 0 dds gs)"
    using enc_blocks.blocks_restored [OF sd ing] b(2) by (simp add: base_restored_def)
  then obtain gs' where r: "run_blocks (restore_block E fd True) True 0 dds gs = Done gs'" "map shape gs' = map shape gs"
      "groups_hold gs' (fold apply_cap dps (fold apply_cap ps (\<lambda>_. 0)))"
    using assms(9) by (auto simp: restored_def split: outcome.splits)
  have "enc_restore_delta E fd True gs = Done gs'"
    using q assms(10) r(1) al by (cases "dcaps = []") (auto simp: enc_restore_delta_def Let_def dds_def)
  moreover have "\<not> list_all (\<lambda>d. rd_crypto_meta_bytes d = 0) ds"
  proof -
    obtain i where "i < length caps" "cap_meta (caps ! i) \<noteq> []" using assms(6) by (auto simp: in_set_conv_nth)
    moreover from this p(5) have "i < length ds" "desc_at fb (ds ! i) (caps ! i)" by (auto simp: list_all2_conv_all_nth)
    ultimately show ?thesis using desc_at_meta(2) [of fb "ds ! i" "caps ! i"] by (auto simp: list_all_length)
  qed
  moreover have "field 4 4 fb = 3" unfolding assms(13) by (rule base_version)
  ultimately have "ckpt_restore_from_files_encrypted E fb fd = Done gs'"
    using p(1-4) assms(4,10) al b(1) by (simp add: ckpt_restore_from_files_encrypted_def Let_def)
  then show ?thesis using b(2) r(2,3) by blast
qed



section \<open>A sample\<close>

text \<open>Buffers of 16 MB, everything works.\<close>

definition sample_bufs8 :: rst_bufs where
  "sample_bufs8 = (let b = (\<lambda>i. i * 16777216) in \<lparr>rb_resmap = b 1, rb_cpu = b 2, rb_cpu_plain = b 3, rb_gpu = b 4, rb_gpu_plain = b 5,
     rb_meta = b 6, rb_comb = b 7, rb_comb_plain = b 8\<rparr>)"

definition sample_rst :: "byte list \<Rightarrow> enc_rst" where
  "sample_rst key = \<lparr>er_files = good_rst, er_key = Some key, er_stack = [], er_uvm = True, er_driver = sample_env,
     er_gpus = [\<lparr>gpu_id = 1, gpu_uuid = replicate 16 1\<rparr>], er_crypto = sample_crypto, er_bufs = (\<lambda>_ _. sample_bufs8), er_heap = (\<lambda>_ _ _. 9)\<rparr>"

lemma sample_rst_ready:
  "restore_ready (sample_rst key) key" "all_alloc (er_files (sample_rst key))" "re_open (er_files (sample_rst key)) = (True, True)"
  "qsort_ok (er_files (sample_rst key))" "\<forall>dl k. bufs_apart 16777216 (er_bufs (sample_rst key) dl k)"
  using good_rst_qsort
  by (simp_all add: sample_rst_def restore_ready_def driver_ready_def evp_ready_def all_alloc_def good_rst_def env_mem_ok_def sample_env_def sample_crypto_def
      bufs_apart_def apart_def sample_bufs8_def Let_def)

text \<open>One page on the GPU, encrypted by the driver, and one on the CPU, encrypted with k3.\<close>

definition sample_plain :: range_capture where
  "sample_plain = \<lparr>rc_base = 8192, rc_length = 8192, rc_n_pages = 2, rc_cpu_bytes = 4096, rc_gpu_bytes = 4096, rc_enc_count = 0,
     rc_resmap = [1, 0], rc_cpu_buf = replicate 4096 3, rc_gpu_buf = replicate 4096 7, rc_crypto_meta = None\<rparr>"

definition sample_k_meta :: crypto_meta where
  "sample_k_meta = \<lparr>cm_size = 4096, cm_iv = replicate 12 0, cm_iv_fresh = 0, cm_auth_tag = replicate 16 0, cm_key_version = 0\<rparr>"

definition sample_sealed :: range_capture where
  "sample_sealed = sample_plain\<lparr>rc_enc_count := 2, rc_cpu_buf := replicate 4096 4, rc_gpu_buf := replicate 4096 8,
     rc_crypto_meta := Some (enc_meta sample_k_meta @ enc_meta sample_k_meta)\<rparr>"

lemma sample_sealed_ok: "v3_sealed (sample_rst key) key sample_sealed sample_plain"
proof -
  let ?x = "(sample_k_meta, replicate 4096 (8 :: byte), replicate 4096 (7 :: byte)) :: transfer"
  let ?y = "(sample_k_meta, replicate 4096 (4 :: byte), replicate 4096 (3 :: byte)) :: transfer"
  have wf: "meta_wf sample_k_meta" by (simp add: meta_wf_def sample_k_meta_def)
  have l: "length (enc_meta sample_k_meta) = META_SIZE" by (rule length_enc_meta [OF wf])
  have p: "cap_ok sample_plain" by (simp add: cap_ok_def cap_wf_def sample_plain_def cap_end_def)
  have c: "cap_ok sample_sealed" using l by (simp add: cap_ok_def cap_wf_def sample_sealed_def sample_plain_def cap_end_def)
  have "k1_transfer (er_driver (sample_rst key)) ?x" "k3_transfer (er_crypto (sample_rst key)) key ?y" using wf
    by (simp_all add: k1_transfer_def k3_transfer_def transfer_ok_def sample_rst_def sample_crypto_def sample_env_def cpu_decrypt_def sample_k_meta_def)
  moreover have "cap_meta sample_sealed = enc_meta sample_k_meta @ enc_meta sample_k_meta"
    using l by (simp add: cap_meta_def cap_meta_bytes_def sample_sealed_def)
  ultimately show ?thesis
    unfolding v3_sealed_def using p c
    by (intro conjI exI [of _ "[?x]"] exI [of _ "[?y]"]) (simp_all add: sample_sealed_def sample_plain_def)
qed

lemma sample_sealed_meta: "cap_meta sample_sealed \<noteq> []" "cap_bytes sample_sealed \<le> 100000" "cap_wf sample_sealed"
proof -
  have l: "length (enc_meta sample_k_meta) = META_SIZE" by (rule length_enc_meta) (simp add: meta_wf_def sample_k_meta_def)
  then have "enc_meta sample_k_meta \<noteq> []" by auto
  then show "cap_meta sample_sealed \<noteq> []" "cap_bytes sample_sealed \<le> 100000" "cap_wf sample_sealed"
    using l by (simp_all add: cap_meta_def cap_meta_bytes_def cap_bytes_def sample_sealed_def sample_plain_def cap_wf_def)
qed


end
