(* ===== verification/Encrypted_Checkpoint.thy ===== *)
theory Encrypted_Checkpoint
  imports Snapshots Capture_Encrypted Restore_Encrypted
begin

text \<open>
  The encrypted checkpoint from the va spaces to the restored memory: captures as ciphertext (ioctl 115),
  encryption of their CPU pages with k3, images of version 3, and the restore that decrypts them.
\<close>

section \<open>The plaintext behind an encrypted capture\<close>

definition plain_cap :: "uvm_env \<Rightarrow> va_space list \<Rightarrow> nat \<times> nat \<Rightarrow> range_capture" where
  "plain_cap env vss r =
     (let V = request_visits False vss (fst r) (snd r); cs = cpu_section V; gs = gpu_section env (request_gpu vss (fst r) zero_uuid) V
      in \<lparr>rc_base = fst r, rc_length = snd r, rc_n_pages = snd r div PAGE_SIZE, rc_cpu_bytes = length cs, rc_gpu_bytes = length gs, rc_enc_count = 0,
          rc_resmap = request_resmap False vss (fst r) (snd r) zero_uuid, rc_cpu_buf = cs, rc_gpu_buf = gs, rc_crypto_meta = None\<rparr>)"

lemma plain_cap_ok:
  assumes "request_ok vss (fst r) (snd r) 0" "fst r + snd r < 2 ^ 64"
  shows "cap_ok (plain_cap env vss r)" "apply_cap (plain_cap env vss r) = snapshot env vss (fst r) (snd r)"
proof -
  note rm = request_resmap_of [OF assms(1), of zero_uuid False]
  have l: "snd r = snd r div PAGE_SIZE * PAGE_SIZE" "0 < snd r div PAGE_SIZE" using assms(1) by (auto simp: request_ok_def mod_eq_0_iff_dvd)
  show "cap_ok (plain_cap env vss r)"
    using l count_resmap [OF rm, of env] assms(2) by (simp add: cap_ok_def cap_wf_def cap_end_def plain_cap_def Let_def)
  show "apply_cap (plain_cap env vss r) = snapshot env vss (fst r) (snd r)"
    using overlay_resmap [OF rm, of env] by (simp add: apply_cap_def snapshot_def plain_cap_def Let_def fun_eq_iff)
qed

text \<open>The runs of a capture as transfers.\<close>

definition run_transfers :: "uvm_env \<Rightarrow> copy_cfg \<Rightarrow> transfer list" where
  "run_transfers env cfg = map (\<lambda>j. (transfer_meta env cfg j, fst (ce_transfer env cfg j), run_plain env cfg j)) [0..<length (cc_runs cfg)]"

lemma run_transfers_parts:
  "metas_of (run_transfers env cfg) = all_meta env cfg" "ciphers_of (run_transfers env cfg) = ciphers env cfg (length (cc_runs cfg))"
  "plains_of (run_transfers env cfg) = plains env cfg (length (cc_runs cfg))"
  by (simp_all add: run_transfers_def all_meta_def o_def)

lemma run_transfers_k1:
  assumes "csl_ok env" "csl_shape env" "env_csl_decrypt drv = env_csl_decrypt env"
    and "\<forall>r \<in> set (cc_runs cfg). 0 < snd r \<and> snd r \<le> UVM_CONF_COMPUTING_DMA_BUFFER_SIZE"
  shows "list_all (k1_transfer drv) (run_transfers env cfg)"
proof -
  have "k1_transfer drv (transfer_meta env cfg j, fst (ce_transfer env cfg j), run_plain env cfg j)" if j: "j < length (cc_runs cfg)" for j
  proof -
    have sz: "0 < snd (cc_runs cfg ! j)" "snd (cc_runs cfg ! j) \<le> UVM_CONF_COMPUTING_DMA_BUFFER_SIZE" using assms(4) nth_mem [OF j] by auto
    have l: "length (fst (ce_transfer env cfg j)) = snd (cc_runs cfg ! j)" "length (run_plain env cfg j) = snd (cc_runs cfg ! j)"
      using length_cipher [OF assms(1)] assms(1) by (simp_all add: csl_ok_def ce_transfer_def)
    have "cpu_decrypt drv (cm_key_version (transfer_meta env cfg j)) \<lparr>iv_bytes = cm_iv (transfer_meta env cfg j), iv_fresh = cm_iv_fresh (transfer_meta env cfg j)\<rparr>
        (fst (ce_transfer env cfg j)) (cm_auth_tag (transfer_meta env cfg j)) = (NV_OK, run_plain env cfg j)"
      using assms(1,3) by (simp add: transfer_meta_def cpu_decrypt_def ce_transfer_def csl_ok_def iv_eta)
    then show ?thesis using transfer_meta_wf [OF assms(2) sz(2)] sz l by (simp add: k1_transfer_def transfer_ok_def transfer_meta_def)
  qed
  then show ?thesis by (simp add: run_transfers_def list_all_length)
qed

text \<open>The k3 chunks of a section as transfers.\<close>

definition chunk_transfers :: "crypto_env \<Rightarrow> byte list \<Rightarrow> nat \<Rightarrow> byte list \<Rightarrow> transfer list" where
  "chunk_transfers cry key iv bs = map (\<lambda>i. (chunk_meta cry key PAGE_SIZE iv bs i, fst (seal_chunk cry key PAGE_SIZE iv bs i),
     take PAGE_SIZE (drop (i * PAGE_SIZE) bs))) [0..<length bs div PAGE_SIZE]"

lemma concat_chunks: "length bs = n * k \<Longrightarrow> concat (map (\<lambda>i. take k (drop (i * k) bs)) [0..<n]) = bs"
proof (induction n arbitrary: bs)
  case (Suc n)
  have "concat (map (\<lambda>i. take k (drop (i * k) bs)) [0..<n]) = concat (map (\<lambda>i. take k (drop (i * k) (take (n * k) bs))) [0..<n])"
  proof (intro arg_cong [where f = concat] map_cong refl)
    fix i assume "i \<in> set [0..<n]"
    then have "Suc i * k \<le> n * k" by (intro mult_le_mono1) simp
    then show "take k (drop (i * k) bs) = take k (drop (i * k) (take (n * k) bs))" by (simp add: drop_take)
  qed
  also have "\<dots> = take (n * k) bs" by (rule Suc.IH) (use Suc.prems in simp)
  finally show ?case using Suc.prems by simp
qed simp

lemma chunk_transfers_parts:
  assumes "length bs = n * PAGE_SIZE"
  shows "metas_of (chunk_transfers cry key iv bs) = sealed_meta cry key PAGE_SIZE iv bs" "ciphers_of (chunk_transfers cry key iv bs) = sealed_bytes cry key PAGE_SIZE iv bs"
    "plains_of (chunk_transfers cry key iv bs) = bs"
  using concat_chunks [OF assms] assms by (simp_all add: chunk_transfers_def sealed_meta_def sealed_bytes_def o_def)

lemma chunk_transfers_k3:
  assumes "gcm_ok cry" "ev_decrypt cry' = ev_decrypt cry" "length bs = n * PAGE_SIZE"
  shows "list_all (k3_transfer cry' key) (chunk_transfers cry key iv bs)"
proof -
  have n: "length bs div PAGE_SIZE = n" using assms(3) by simp
  have "k3_transfer cry' key (chunk_meta cry key PAGE_SIZE iv bs i, fst (seal_chunk cry key PAGE_SIZE iv bs i), take PAGE_SIZE (drop (i * PAGE_SIZE) bs))" if "i < n" for i
    using seal_chunk_len [OF assms(1,3) that] chunk_len [OF assms(3) that] assms(1,2)
    by (simp add: k3_transfer_def transfer_ok_def chunk_meta_def meta_wf_def seal_chunk_def gcm_ok_def del: length_take)
  then show ?thesis by (simp add: chunk_transfers_def list_all_length n)
qed

section \<open>Encrypted captures are sealed\<close>

text \<open>The driver at the moment of a capture: well-formed va spaces, working encryption, any schedule of the copy threads.\<close>

definition moment_ok :: "uvm_env \<Rightarrow> va_space list \<Rightarrow> bool" where
  "moment_ok env vss \<longleftrightarrow> vss_ok vss \<and> csl_ok env \<and> csl_shape env \<and> sched_ok env"

definition enc_captured :: "uvm_env \<Rightarrow> va_space list \<Rightarrow> nat \<times> nat \<Rightarrow> range_capture \<Rightarrow> bool" where
  "enc_captured env vss r c \<longleftrightarrow> fst r + snd r < 2 ^ 64 \<and>
     (\<exists>thr dest m dest' m'. capture_range_encrypted env vss thr False dest (fst r) (snd r) m = (Some c, dest', m') \<and>
        (\<forall>b. dest_bufs (snd r) dest = Some b \<longrightarrow> enc_bufs_ok (snd r) b))"

lemma enc_captured_facts:
  assumes "enc_captured env vss r c" "moment_ok env vss"
  shows "enc_capture_of env vss (fst r) (snd r) c" "cap_wf c" "request_ok vss (fst r) (snd r) 0" "fst r + snd r < 2 ^ 64"
proof -
  have m: "vss_ok vss" "csl_ok env" "csl_shape env" "sched_ok env" using assms(2) by (simp_all add: moment_ok_def)
  obtain thr dest mm dest' m' where c: "capture_range_encrypted env vss thr False dest (fst r) (snd r) mm = (Some c, dest', m')"
      and b: "\<And>b. dest_bufs (snd r) dest = Some b \<Longrightarrow> enc_bufs_ok (snd r) b" and e: "fst r + snd r < 2 ^ 64"
    using assms(1) unfolding enc_captured_def by blast
  show "enc_capture_of env vss (fst r) (snd r) c" "cap_wf c" "request_ok vss (fst r) (snd r) 0" "fst r + snd r < 2 ^ 64"
    using capture_encrypted_facts [OF c m b] e by blast+
qed

lemma enc_captured_fields:
  assumes "enc_captured env vss r c" "moment_ok env vss"
  defines "P \<equiv> plain_cap env vss r"
  shows "rc_base c = rc_base P" "rc_length c = rc_length P" "rc_n_pages c = rc_n_pages P" "rc_cpu_bytes c = rc_cpu_bytes P"
    "take (rc_n_pages c) (rc_resmap c) = take (rc_n_pages P) (rc_resmap P)" "cpu_part c = cpu_part P"
    and "\<exists>cfg. rc_enc_count c = length (cc_runs cfg) \<and> (\<forall>r \<in> set (cc_runs cfg). 0 < snd r \<and> snd r \<le> UVM_CONF_COMPUTING_DMA_BUFFER_SIZE) \<and>
      gpu_part P = plains env cfg (length (cc_runs cfg)) \<and> gpu_part c = ciphers env cfg (length (cc_runs cfg)) \<and> cap_meta c = all_meta env cfg \<and>
      rc_gpu_bytes c = rc_gpu_bytes P"
proof -
  note f = enc_captured_facts [OF assms(1,2)]
  let ?V = "request_visits False vss (fst r) (snd r)" and ?G = "request_gpu vss (fst r) zero_uuid"
  have e: "rc_base c = fst r" "rc_length c = snd r" "take (rc_n_pages c) (rc_resmap c) = request_resmap False vss (fst r) (snd r) zero_uuid"
      "cpu_part c = cpu_section ?V" using f(1) by (simp_all add: enc_capture_of_def Let_def)
  have w: "rc_n_pages c \<le> length (rc_resmap c)" "rc_cpu_bytes c \<le> length (rc_cpu_buf c)" "rc_gpu_bytes c \<le> length (rc_gpu_buf c)" using f(2) by (simp_all add: cap_wf_def)
  show n: "rc_n_pages c = rc_n_pages P" using arg_cong [OF e(3), of length] w(1) by (simp add: P_def plain_cap_def Let_def)
  show "rc_base c = rc_base P" "rc_length c = rc_length P" "cpu_part c = cpu_part P" using e by (simp_all add: P_def plain_cap_def Let_def)
  show "take (rc_n_pages c) (rc_resmap c) = take (rc_n_pages P) (rc_resmap P)" using e(3) by (simp add: P_def plain_cap_def Let_def)
  show "rc_cpu_bytes c = rc_cpu_bytes P" using arg_cong [OF e(4), of length] w(2) by (simp add: P_def plain_cap_def Let_def)
  obtain cfg where cfg: "rc_enc_count c = length (cc_runs cfg)" "\<forall>r \<in> set (cc_runs cfg). 0 < snd r \<and> snd r \<le> UVM_CONF_COMPUTING_DMA_BUFFER_SIZE"
      "plains env cfg (length (cc_runs cfg)) = gpu_section env ?G ?V" "gpu_part c = ciphers env cfg (length (cc_runs cfg))" "cap_meta c = all_meta env cfg"
    using f(1) unfolding enc_capture_of_def Let_def by blast
  have "csl_ok env" using assms(2) by (simp add: moment_ok_def)
  then have "rc_gpu_bytes c = rc_gpu_bytes P"
    using arg_cong [OF cfg(4), of length] arg_cong [OF cfg(3), of length] length_ciphers [of env cfg "length (cc_runs cfg)"] w(3)
    by (simp add: P_def plain_cap_def Let_def)
  moreover have "gpu_part P = plains env cfg (length (cc_runs cfg))" using cfg(3) by (simp add: P_def plain_cap_def Let_def)
  ultimately show "\<exists>cfg. rc_enc_count c = length (cc_runs cfg) \<and> (\<forall>r \<in> set (cc_runs cfg). 0 < snd r \<and> snd r \<le> UVM_CONF_COMPUTING_DMA_BUFFER_SIZE) \<and>
      gpu_part P = plains env cfg (length (cc_runs cfg)) \<and> gpu_part c = ciphers env cfg (length (cc_runs cfg)) \<and> cap_meta c = all_meta env cfg \<and>
      rc_gpu_bytes c = rc_gpu_bytes P" using cfg(1,2,4,5) by blast
qed

lemma plain_cap_fields: "rc_cpu_bytes (plain_cap env vss r) = length (cpu_part (plain_cap env vss r))"
  by (simp add: plain_cap_def Let_def)

lemma captured_sealed:
  assumes "enc_captured env vss r c" "moment_ok env vss" "env_csl_decrypt (er_driver E) = env_csl_decrypt env"
    and "gcm_ok cry" "ev_decrypt (er_crypto E) = ev_decrypt cry"
  shows "v3_sealed E key c (plain_cap env vss r)" "v3_sealed E key (seal_cpu cry key iv c) (plain_cap env vss r)"
proof -
  let ?P = "plain_cap env vss r"
  note f = enc_captured_facts [OF assms(1,2)] and e = enc_captured_fields [OF assms(1,2)]
  obtain cfg where cfg: "rc_enc_count c = length (cc_runs cfg)" "\<forall>r \<in> set (cc_runs cfg). 0 < snd r \<and> snd r \<le> UVM_CONF_COMPUTING_DMA_BUFFER_SIZE"
      "gpu_part ?P = plains env cfg (length (cc_runs cfg))" "gpu_part c = ciphers env cfg (length (cc_runs cfg))" "cap_meta c = all_meta env cfg"
      "rc_gpu_bytes c = rc_gpu_bytes ?P" using e(7) by blast
  note ok = plain_cap_ok(1) [OF f(3,4), of env]
  let ?xs = "run_transfers env cfg"
  have k1: "list_all (k1_transfer (er_driver E)) ?xs"
    using run_transfers_k1 [OF _ _ assms(3) cfg(2)] assms(2) by (simp add: moment_ok_def)
  note xp = run_transfers_parts [of env cfg]
  have cok: "cap_ok c" using ok f(2) e(1-6) cfg(6) by (simp add: cap_ok_def cap_end_def)
  show s0: "v3_sealed E key c ?P"
    unfolding v3_sealed_def using cok ok e(1-6) cfg k1 xp by (intro conjI exI [of _ ?xs] exI [of _ "[]"]) simp_all
  define n where "n = count_list (take (rc_n_pages ?P) (rc_resmap ?P)) 0"
  have nc: "rc_cpu_bytes c = n * PAGE_SIZE" using ok e(4) unfolding n_def by (simp add: cap_ok_def mult.commute)
  then have n: "length (cpu_part c) = n * PAGE_SIZE" "rc_cpu_bytes c = n * PAGE_SIZE" using f(2) by (simp_all add: cap_wf_def)
  show "v3_sealed E key (seal_cpu cry key iv c) ?P"
  proof (cases "rc_cpu_bytes c = 0")
    case True
    then show ?thesis using s0 by (simp add: seal_cpu_def)
  next
    case False
    let ?ys = "chunk_transfers cry key iv (cpu_part c)" and ?d = "seal_cpu cry key iv c"
    note yp = chunk_transfers_parts [OF n(1), of cry key iv] and ls = length_sealed [OF assms(4) n(1), of key iv]
    have k3: "list_all (k3_transfer (er_crypto E) key) ?ys" by (rule chunk_transfers_k3 [OF assms(4,5) n(1)])
    have ne: "?ys \<noteq> []" using False n by (auto simp: chunk_transfers_def)
    have lm: "length (all_meta env cfg) = rc_enc_count c * META_SIZE"
      using length_metas_of [OF k_transfers_ok(1) [OF k1]] by (simp add: xp cfg(1)) (simp add: run_transfers_def)
    have old: "(case rc_crypto_meta c of None \<Rightarrow> [] | Some b \<Rightarrow> take (rc_enc_count c * META_SIZE) b) = all_meta env cfg"
      using cfg(5) lm by (auto simp: cap_meta_def cap_meta_bytes_def split: option.splits if_splits)
    have d: "?d = c\<lparr>rc_cpu_buf := sealed_bytes cry key PAGE_SIZE iv (cpu_part c) @ drop (rc_cpu_bytes c) (rc_cpu_buf c),
        rc_crypto_meta := Some (all_meta env cfg @ sealed_meta cry key PAGE_SIZE iv (cpu_part c)), rc_enc_count := rc_enc_count c + n\<rparr>"
      unfolding seal_cpu_def old using False n(2) by simp
    have cp: "cpu_part ?d = sealed_bytes cry key PAGE_SIZE iv (cpu_part c)" using ls(1) n(2) by (simp add: d)
    have cm: "cap_meta ?d = metas_of (?xs @ ?ys)"
      unfolding map_append concat_append xp yp using False lm ls(2) n(2) by (simp add: d cap_meta_def cap_meta_bytes_def add_mult_distrib)
    have "cap_ok ?d" using cok ls n lm by (simp add: cap_ok_def cap_wf_def cap_end_def d add_mult_distrib)
    moreover have "rc_base ?d = rc_base c" "rc_length ?d = rc_length c" "rc_cpu_bytes ?d = rc_cpu_bytes c" "rc_gpu_bytes ?d = rc_gpu_bytes c"
      "rc_n_pages ?d = rc_n_pages c" "rc_resmap ?d = rc_resmap c" "gpu_part ?d = gpu_part c" by (simp_all add: d)
    ultimately show ?thesis
      unfolding v3_sealed_def using ok e(1-6) cfg k1 k3 xp yp cp cm ne by (intro conjI exI [of _ ?xs] exI [of _ ?ys]) simp_all
  qed
qed

section \<open>The captures of a checkpoint\<close>

lemma plain_cap_snap:
  assumes "enc_captured env vss r c" "moment_ok env vss"
  shows "snap_cap env vss r (plain_cap env vss r)"
  using plain_cap_ok [OF enc_captured_facts(3,4) [OF assms], of env] enc_captured_facts(3,4) [OF assms]
  by (simp add: snap_cap_def snap_def cap_end_def) (simp add: plain_cap_def Let_def)

lemma plain_caps_snap:
  assumes "list_all2 (enc_captured env vss) rs cs" "moment_ok env vss"
  shows "list_all2 (snap_cap env vss) rs (map (plain_cap env vss) rs)"
  using assms(1) by (induction rule: list_all2_induct) (auto intro: plain_cap_snap [OF _ assms(2)])

lemma captured_pages:
  assumes "enc_captured env vss r c" "moment_ok env vss"
  shows "cap_wf c \<and> PAGE_SIZE dvd rc_cpu_bytes c"
  using plain_cap_ok(1) [OF enc_captured_facts(3,4) [OF assms], of env] enc_captured_facts(2) [OF assms] enc_captured_fields(4) [OF assms]
  by (simp add: cap_ok_def)

lemma captured_list_sealed:
  assumes "list_all2 (enc_captured env vss) rs cs" "moment_ok env vss" "env_csl_decrypt (er_driver E) = env_csl_decrypt env"
    and "gcm_ok cry" "ev_decrypt (er_crypto E) = ev_decrypt cry"
  shows "list_all2 (v3_sealed E key) cs (map (plain_cap env vss) rs)" "list_all2 (v3_sealed E key) (seal_cpus cry key iv cs) (map (plain_cap env vss) rs)"
  using assms(1) captured_sealed [OF _ assms(2-5)] by (induction arbitrary: iv rule: list_all2_induct) simp_all

text \<open>
  What \<open>main\<close> does to the captures before it writes them: nothing, or, when a key file is used, the encryption of their
  CPU pages, with the memory it asks for available.
\<close>

definition keyed :: "crypto_env \<Rightarrow> byte list \<Rightarrow> int \<Rightarrow> range_capture list \<Rightarrow> range_capture list \<Rightarrow> bool" where
  "keyed cry key threads cs cs' \<longleftrightarrow>
     cs' = cs \<or> sum_list (map rc_cpu_bytes cs) < 2 ^ 44 \<and> (\<exists>iv iv'. encrypt_cpu_pages_batch cry (\<lambda>_. True) key threads cs iv = Some (cs', iv'))"

lemma keyed_sealed:
  assumes "keyed cry key threads cs cs'" "list_all2 (enc_captured env vss) rs cs" "moment_ok env vss" "env_csl_decrypt (er_driver E) = env_csl_decrypt env"
    and "gcm_ok cry" "crypto_sched_ok cry" "ev_decrypt (er_crypto E) = ev_decrypt cry"
  shows "list_all2 (v3_sealed E key) cs' (map (plain_cap env vss) rs)"
proof (cases "cs' = cs")
  case True
  then show ?thesis using captured_list_sealed(1) [OF assms(2-5,7)] by simp
next
  case False
  then obtain iv iv' where e: "sum_list (map rc_cpu_bytes cs) < 2 ^ 44" "encrypt_cpu_pages_batch cry (\<lambda>_. True) key threads cs iv = Some (cs', iv')"
    using assms(1) by (auto simp: keyed_def)
  have "\<forall>c \<in> set cs. cap_wf c \<and> PAGE_SIZE dvd rc_cpu_bytes c"
    using assms(2) captured_pages [OF _ assms(3)] by (metis in_set_conv_nth list_all2_conv_all_nth)
  from encrypt_cpu_pages_sealed(1) [OF assms(5,6) _ this refl e] have "cs' = seal_cpus cry key iv cs" by simp
  then show ?thesis using captured_list_sealed(2) [OF assms(2-5,7)] by simp
qed

lemma sealed_has_meta:
  assumes "v3_sealed E key c p" "gpu_part p \<noteq> []"
  shows "cap_meta c \<noteq> []"
proof -
  obtain xs ys where x: "list_all (k1_transfer (er_driver E)) xs" "gpu_part p = plains_of xs" "cap_meta c = metas_of (xs @ ys)"
    using assms(1) unfolding v3_sealed_def by blast
  have "length (metas_of xs) = length xs * META_SIZE" by (rule length_metas_of [OF k_transfers_ok(1) [OF x(1)]])
  moreover have "xs \<noteq> []" using x(2) assms(2) by auto
  ultimately have "0 < length (cap_meta c)" unfolding x(3) map_append concat_append length_append by (cases xs) auto
  then show ?thesis by simp
qed

lemma gpu_page_section:
  assumes "y \<in> set (request_visits False vss (fst r) (snd r))" "gpu_visit (request_gpu vss (fst r) zero_uuid) y"
  shows "gpu_part (plain_cap env vss r) \<noteq> []"
proof -
  have "visit_phys (request_gpu vss (fst r) zero_uuid) y \<in> set (gpu_phys_list (request_gpu vss (fst r) zero_uuid) (request_visits False vss (fst r) (snd r)))"
    using assms by (simp add: gpu_phys_list_def)
  then have "\<exists>bs \<in> set (map (\<lambda>ph. gpu_bytes env ph PAGE_SIZE) (gpu_phys_list (request_gpu vss (fst r) zero_uuid) (request_visits False vss (fst r) (snd r)))). bs \<noteq> []"
    by (auto simp: gpu_bytes_def intro!: bexI [rotated])
  then show ?thesis by (simp add: plain_cap_def Let_def gpu_section_def)
qed

section \<open>The property\<close>


lemma sample_moment: "moment_ok sample_env [sample_vs]"
  using sample_vss sample_env_csl sample_env_shape(1) sample_env_sched by (simp add: moment_ok_def)

lemma sample_enc_captured: "\<exists>c. enc_captured sample_env [sample_vs] (2097152, 4096) c \<and> cap_bytes c \<le> 100000 \<and> cap_wf c"
proof -
  let ?cap = "capture_range_encrypted sample_env [sample_vs] None False (sample_slot 0 0) 2097152 4096 (\<lambda>_. 0)"
  have "se_capture sample_enc_stream 0 0 \<noteq> None" by (rule sample_enc_captures) simp
  then obtain c d m where c: "?cap = (Some c, d, m)"
    by (auto simp: sample_enc_stream_def capture_stream_def sample_ranges_def) (metis prod.collapse)
  have b: "enc_bufs_ok 4096 b" if "dest_bufs 4096 (sample_slot 0 0) = Some b" for b
    using that by (auto simp: sample_slot_def enc_bufs_ok_def Let_def split: if_splits)
  note f = capture_encrypted_facts [OF c sample_vss sample_env_csl sample_env_shape(1) sample_env_sched b]
  have "cap_bytes c \<le> 100000" using cap_fits_bytes [OF f(3)] by simp
  moreover have "enc_captured sample_env [sample_vs] (2097152, 4096) c" using c b unfolding enc_captured_def fst_conv snd_conv by (intro conjI exI [of _ None] exI [of _ "sample_slot 0 0"]) auto
  ultimately show ?thesis using f(2) by blast
qed


end
