(* ===== verification/Block_Types.thy ===== *)
theory Block_Types
  imports Dirty_Tracking
begin

text \<open>
  The type invariant of va blocks and what keeps it: revoking, mapping, fault servicing, PREPARE, FINALIZE and the
  creation of blocks, on every path, failed ones included.
\<close>

text \<open>
  The three page-table bit masks of a GPU are nested (atomic in write in read), a GPU with permissions is in the mapped mask,
  every mapped page is resident somewhere, and a block has at most 512 pages.
\<close>

definition block_typed :: "va_block \<Rightarrow> bool" where
  "block_typed vb \<longleftrightarrow> block_wf vb \<and> (\<forall>g p. gs_pte_bits (gpu_st vb g) 1 p \<longrightarrow> gs_pte_bits (gpu_st vb g) 0 p)"

definition space_typed :: "va_space \<Rightarrow> bool" where
  "space_typed vs \<longleftrightarrow> (\<forall>r \<in> set (vs_ranges vs). list_all block_typed (vr_blocks r))"

lemma typed_flags [simp]:
  "block_typed (vb\<lparr>vb_dirty := d, vb_tracking := t\<rparr>) = block_typed vb"
  "block_typed (vb\<lparr>vb_tracking := t, vb_dirty := d\<rparr>) = block_typed vb"
  "block_typed (vb\<lparr>vb_dirty := d\<rparr>) = block_typed vb"
  "block_typed (vb\<lparr>vb_tracking := t\<rparr>) = block_typed vb"
  by (simp_all add: block_typed_def block_wf_def block_num_pages_def resident_mask_get_def)

section \<open>Revoking\<close>

text \<open>Revoking from some permission on takes all stronger ones with it.\<close>

definition nested :: "va_block \<Rightarrow> bool" where
  "nested vb \<longleftrightarrow> (\<forall>g p. (gs_pte_bits (gpu_st vb g) 2 p \<longrightarrow> gs_pte_bits (gpu_st vb g) 1 p) \<and>
     (gs_pte_bits (gpu_st vb g) 1 p \<longrightarrow> gs_pte_bits (gpu_st vb g) 0 p))"

lemma typed_nested: "block_typed vb \<Longrightarrow> nested vb"
  by (simp add: block_typed_def block_wf_def nested_def)

lemma revoke_gpu_to_nested: "block_revoke_prot_gpu_to me vb g r m prot = (st, vb', m') \<Longrightarrow> nested vb \<Longrightarrow> nested vb'"
  unfolding block_revoke_prot_gpu_to_def Let_def nested_def
  by (auto simp: clear_bits_def split: if_splits)

lemma revoke_loop_nested: "revoke_loop me vb g rs rg m prot = (st, vb') \<Longrightarrow> nested vb \<Longrightarrow> nested vb'"
  by (induction rs arbitrary: vb m) (auto split: prod.splits if_splits dest: revoke_gpu_to_nested)

lemma revoke_prot_nested: "uvm_va_block_revoke_prot me vb i rg rm prot = (st, vb') \<Longrightarrow> nested vb \<Longrightarrow> nested vb'"
  unfolding uvm_va_block_revoke_prot_def Let_def
  by (auto split: if_splits intro: revoke_loop_nested) (auto simp: nested_def block_revoke_cpu_write_def)

lemma revoke_procs_nested: "revoke_procs me vb is rg rm prot = (st, vb') \<Longrightarrow> nested vb \<Longrightarrow> nested vb'"
  by (induction "is" arbitrary: vb) (auto split: prod.splits if_splits dest: revoke_prot_nested)

lemma revoke_mask_typed:
  assumes "uvm_va_block_revoke_prot_mask me vb is rg rm prot = (st, vb')" "block_typed vb"
  shows "block_typed vb'"
proof -
  obtain st1 where "revoke_procs me vb is rg rm prot = (st1, vb')"
    using assms(1) by (auto simp: uvm_va_block_revoke_prot_mask_def split: prod.splits)
  from revoke_procs_nested [OF this typed_nested [OF assms(2)]] block_wf_revokes [OF _ revoke_mask_revokes [OF assms(1)]] assms(2)
  show ?thesis by (simp add: block_typed_def nested_def)
qed

section \<open>Mapping\<close>

lemma map_gpu_to_typed:
  assumes "block_map_gpu_to me vb g r m prot = (st, vb', m')" "block_typed vb" "r \<in> set (vb_resident vb)"
  shows "block_typed vb' \<and> vb_resident vb' = vb_resident vb"
proof (cases "vb' = vb")
  case False
  let ?bits = "set_bits (get_gpu_pte_bit_index prot) (\<lambda>p. m p \<and> resident_mask_get vb r p) (gs_pte_bits (gpu_st vb g))"
  have vb': "vb' = (set_gpu_st vb g ((gpu_st vb g)\<lparr>gs_pte_bits := ?bits\<rparr>))\<lparr>vb_mapped := (if g \<in> set (vb_mapped vb) then vb_mapped vb else insort g (vb_mapped vb))\<rparr>"
    using assms(1) False by (auto simp: block_map_gpu_to_def Let_def split: if_splits)
  have sd: "same_data vb vb'" using map_gpu_to_maps_only(1) [OF assms(1)] by (simp add: maps_only_def)
  then have s: "vb_resident vb' = vb_resident vb" "block_num_pages vb' = block_num_pages vb" by (simp_all add: same_data_def block_num_pages_def)
  have m: "set (vb_mapped vb') = insert g (set (vb_mapped vb))" by (auto simp: vb' set_insort_key)
  have bits: "gs_pte_bits (gpu_st vb' h) b p \<longleftrightarrow> gs_pte_bits (gpu_st vb h) b p \<or> (h = g \<and> b \<le> get_gpu_pte_bit_index prot \<and> m p \<and> resident_mask_get vb r p)" for h b p
    by (auto simp: vb' set_bits_def)
  have wf: "block_wf vb" and n: "\<forall>g p. gs_pte_bits (gpu_st vb g) 1 p \<longrightarrow> gs_pte_bits (gpu_st vb g) 0 p" using assms(2) by (simp_all add: block_typed_def)
  have "block_wf vb'"
    unfolding block_wf_def bits s m same_data_resident_mask [OF sd]
    using wf assms(3) unfolding block_wf_def by (intro conjI allI impI) (blast | force)+
  moreover have "\<forall>g p. gs_pte_bits (gpu_st vb' g) 1 p \<longrightarrow> gs_pte_bits (gpu_st vb' g) 0 p" unfolding bits using n by auto
  ultimately show ?thesis using s(1) by (simp add: block_typed_def)
qed (use assms(2) in simp)

lemma map_loop_typed: "map_loop me vb g rs rg m prot = (st, vb') \<Longrightarrow> block_typed vb \<Longrightarrow> set rs \<subseteq> set (vb_resident vb) \<Longrightarrow> block_typed vb'"
proof (induction rs arbitrary: vb m)
  case (Cons r rs)
  obtain s vb1 m1 where step: "block_map_gpu_to me vb g r m prot = (s, vb1, m1)" by (cases "block_map_gpu_to me vb g r m prot") auto
  from map_gpu_to_typed [OF step Cons.prems(2)] Cons.prems(3) have "block_typed vb1" "set rs \<subseteq> set (vb_resident vb1)" by auto
  then show ?case using Cons.prems(1) step Cons.IH by (auto split: if_splits)
qed simp

lemma allowed_destinations: "set (map_get_allowed_destinations me vb i) \<subseteq> set (vb_resident vb)"
  by (auto simp: map_get_allowed_destinations_def Let_def)

lemma state_alloc_typed:
  assumes "block_gpu_state_get_alloc me vb g = Some vb1" "block_typed vb"
  shows "block_typed vb1"
proof (cases "vb_gpu_state vb g")
  case None
  then have vb1: "vb1 = set_gpu_st vb g empty_gpu_state" using assms(1) by (auto simp: block_gpu_state_get_alloc_def split: if_splits)
  have "gpu_st vb g = empty_gpu_state" using None by (simp add: gpu_st_def)
  then have "gpu_st vb1 h = gpu_st vb h" for h by (simp add: vb1)
  then have "resident_mask_get vb1 = resident_mask_get vb" by (simp add: fun_eq_iff resident_mask_get_def vb1)
  moreover have "block_num_pages vb1 = block_num_pages vb" by (simp add: block_num_pages_def vb1)
  ultimately show ?thesis using assms(2) \<open>\<And>h. gpu_st vb1 h = gpu_st vb h\<close> by (simp add: block_typed_def block_wf_def) (simp add: vb1)
qed (use assms in \<open>simp add: block_gpu_state_get_alloc_def\<close>)

lemma map_typed:
  assumes "uvm_va_block_map me vb i rg mm prot = (st, vb')" "block_typed vb" "closest_ok me"
  shows "block_typed vb'"
proof (cases "block_gpu_state_get_alloc me vb i")
  case (Some vb1)
  note t = state_alloc_typed [OF Some assms(2)]
  have "set (me_closest me i (map_get_allowed_destinations me vb1 i)) \<subseteq> set (vb_resident vb1)"
    using allowed_destinations assms(3) by (simp add: closest_ok_def)
  then show ?thesis using assms Some t by (auto simp: uvm_va_block_map_def Let_def split: if_splits intro: map_loop_typed)
qed (use assms in \<open>auto simp: uvm_va_block_map_def split: if_splits\<close>)

lemma map_procs_typed: "map_procs me vb is rg mm prot = (st, vb') \<Longrightarrow> block_typed vb \<Longrightarrow> closest_ok me \<Longrightarrow> block_typed vb'"
  by (induction "is" arbitrary: vb) (auto split: prod.splits if_splits dest: map_typed)

section \<open>The operations\<close>

lemma prepare_blocks_typed: "prepare_blocks me vbs = (st, vbs') \<Longrightarrow> list_all block_typed vbs \<Longrightarrow> list_all block_typed vbs'"
proof (induction vbs arbitrary: vbs')
  case (Cons vb vbs)
  obtain s rest where r: "prepare_blocks me vbs = (s, rest)" by fastforce
  obtain s2 vb2 where v: "uvm_va_block_revoke_prot_mask me (vb\<lparr>vb_dirty := False, vb_tracking := True\<rparr>) (vb_resident vb)
      (block_region (vb\<lparr>vb_dirty := False, vb_tracking := True\<rparr>)) (\<lambda>_. True) UVM_PROT_READ_WRITE = (s2, vb2)" by fastforce
  have "block_typed vb2" by (rule revoke_mask_typed [OF v]) (use Cons.prems(2) in simp)
  then show ?case using Cons.prems Cons.IH r v by (auto simp: Let_def split: if_splits)
qed simp

lemma prepare_ranges_typed:
  "prepare_ranges me rs = (st, rs') \<Longrightarrow> \<forall>r \<in> set rs. list_all block_typed (vr_blocks r) \<Longrightarrow> \<forall>r \<in> set rs'. list_all block_typed (vr_blocks r)"
proof (induction rs arbitrary: rs')
  case (Cons r rs)
  obtain s rest where r: "prepare_ranges me rs = (s, rest)" by fastforce
  obtain s2 vbs where b: "prepare_blocks me (vr_blocks r) = (s2, vbs)" by fastforce
  have "list_all block_typed vbs" by (rule prepare_blocks_typed [OF b]) (use Cons.prems(2) in simp)
  then show ?case using Cons.prems Cons.IH r b by (auto split: if_splits)
qed simp

lemma finalize_block_typed: "closest_ok me \<Longrightarrow> block_typed vb \<Longrightarrow> block_typed (finalize_block me vb)"
  unfolding finalize_block_def Let_def uvm_va_block_map_mask_def
  by (auto split: prod.splits elim!: map_procs_typed)

lemma finish_revoke_typed: "finish_revoke me vb proc sc rg mp nps = (st, vb') \<Longrightarrow> block_typed vb \<Longrightarrow> block_typed vb'"
  by (induction nps arbitrary: vb) (auto simp: Let_def split: prod.splits if_splits dest: revoke_mask_typed)

lemma finish_map_typed: "finish_map me vb proc sc rg mp nps = (st, vb') \<Longrightarrow> block_typed vb \<Longrightarrow> closest_ok me \<Longrightarrow> block_typed vb'"
  by (induction nps arbitrary: vb) (auto simp: Let_def split: prod.splits if_splits dest: map_typed)

lemma finish_record_typed: "finish_record fc vb proc rg mp = (fc', vb', log) \<Longrightarrow> block_typed vb \<Longrightarrow> block_typed vb'"
  by (auto simp: finish_record_def dest!: record_faults_block split: if_splits)

lemma service_finish_typed:
  assumes "block_typed vb" "closest_ok me"
  shows "block_typed (fst (snd (snd (service_finish_gpu me fc vb proc sc))))"
proof -
  define mp0 where "mp0 = finish_compute me vb proc sc"
  obtain rg mp where b: "finish_bulk_restore vb proc (sc_new_residency sc) (sc_region sc) mp0 = (rg, mp)" by fastforce
  obtain fc' vb1 log where r: "finish_record fc vb proc rg mp = (fc', vb1, log)" by (rule prod_cases3)
  note t1 = finish_record_typed [OF r assms(1)]
  obtain st vb2 where v: "finish_revoke me vb1 proc sc rg mp [UVM_PROT_READ_WRITE, UVM_PROT_READ_WRITE_ATOMIC] = (st, vb2)" by fastforce
  note t2 = finish_revoke_typed [OF v t1]
  obtain st3 vb3 where p: "finish_map me vb2 proc sc rg mp [UVM_PROT_READ_ONLY, UVM_PROT_READ_WRITE, UVM_PROT_READ_WRITE_ATOMIC] = (st3, vb3)" by fastforce
  note t3 = finish_map_typed [OF p t2 assms(2)]
  have "service_finish_gpu me fc vb proc sc =
      (if \<not> sc_revoke_alloc sc then (NV_ERR_NO_MEMORY, fc, vb, []) else if st \<noteq> NV_OK then (st, fc', vb2, log) else (st3, fc', vb3, log))"
    unfolding service_finish_gpu_def mp0_def [symmetric] Let_def b prod.case r v p ..
  then show ?thesis using assms(1) t2 t3 by simp
qed

lemma set_block_typed:
  assumes "space_typed vs" "i < length (vs_ranges vs)" "j < length (vr_blocks (vs_ranges vs ! i))" "block_typed (vr_blocks (vs_ranges vs ! i) ! j) \<Longrightarrow> block_typed vb"
  shows "space_typed (set_block vs i j vb)"
proof -
  have a: "list_all block_typed (vr_blocks (vs_ranges vs ! i))" using assms(1,2) by (simp add: space_typed_def)
  then have "block_typed vb" using assms(3,4) by (simp add: list_all_length)
  then have "list_all block_typed ((vr_blocks (vs_ranges vs ! i))[j := vb])" using a
    by (auto simp: list_all_iff dest!: set_update_subset_insert [THEN subsetD])
  then show ?thesis using assms(1) by (auto simp: space_typed_def set_block_def dest!: set_update_subset_insert [THEN subsetD])
qed

lemma block_create_typed:
  assumes "uvm_va_range_block_create create active r idx = (st, r')" "list_all block_typed (vr_blocks r)" "\<And>s e vb. create s e = Inr vb \<Longrightarrow> block_typed vb"
  shows "list_all block_typed (vr_blocks r')"
  using assms(1,2) assms(3) [of "block_calc_start r idx" "block_calc_end r idx"] unfolding uvm_va_range_block_create_def Let_def
  by (auto simp: list_all_iff set_insort_key split: if_splits sum.splits)

text \<open>C39: PREPARE, FINALIZE, the servicing of a fault and the creation of a block keep every block of a va space well-typed, whatever
  they return: page-table masks stay nested, mapped pages are resident, and processors with permissions are in the mapped mask.\<close>

theorem blocks_stay_typed:
  assumes "closest_ok me" "space_typed vs" "\<And>s e vb. create s e = Inr vb \<Longrightarrow> block_typed vb"
  shows "space_typed (snd (prepare_va_space_for_migration me vs)) \<and> space_typed (finalize_va_space me vs) \<and>
    (\<forall>i < length (vs_ranges vs).
       space_typed (set_range vs i (snd (uvm_va_range_block_create create active (vs_ranges vs ! i) idx))) \<and>
       (\<forall>j < length (vr_blocks (vs_ranges vs ! i)).
          space_typed (set_block vs i j (fst (snd (snd (service_finish_gpu me fc (vr_blocks (vs_ranges vs ! i) ! j) g sc)))))))"
proof (intro conjI allI impI)
  obtain st rs where r: "prepare_ranges me (vs_ranges vs) = (st, rs)" by fastforce
  show "space_typed (snd (prepare_va_space_for_migration me vs))"
    using prepare_ranges_typed [OF r] assms(2) r by (simp add: prepare_va_space_for_migration_def space_typed_def)
  show "space_typed (finalize_va_space me vs)"
    using assms(1,2) finalize_block_typed by (auto simp: space_typed_def finalize_va_space_def finalize_range_def list_all_iff)
  fix i assume i: "i < length (vs_ranges vs)"
  obtain st' r' where c: "uvm_va_range_block_create create active (vs_ranges vs ! i) idx = (st', r')" by fastforce
  have "list_all block_typed (vr_blocks r')" by (rule block_create_typed [OF c _ assms(3)]) (use assms(2) i in \<open>simp add: space_typed_def\<close>)
  then show "space_typed (set_range vs i (snd (uvm_va_range_block_create create active (vs_ranges vs ! i) idx)))"
    using assms(2) c by (auto simp: space_typed_def set_range_def dest!: set_update_subset_insert [THEN subsetD])
  fix j assume j: "j < length (vr_blocks (vs_ranges vs ! i))"
  show "space_typed (set_block vs i j (fst (snd (snd (service_finish_gpu me fc (vr_blocks (vs_ranges vs ! i) ! j) g sc)))))"
    by (rule set_block_typed [OF assms(2) i j]) (rule service_finish_typed [OF _ assms(1)])
qed

theorem blocks_stay_typed_witness:
  "space_typed (snd (prepare_va_space_for_migration sample_me sample_vs)) \<and> space_typed (finalize_va_space sample_me sample_vs) \<and>
   space_typed (set_block sample_vs 0 0 (fst (snd (snd (service_finish_gpu sample_me \<lparr>g_migration_write_fault_count = 0, g_fault_log_count = 0\<rparr>
     sample_block 1 sample_sc)))))"
proof -
  have "block_typed sample_block"
    using sample_block_wf by (auto simp: block_typed_def sample_block_def gpu_st_def empty_gpu_state_def)
  then have t: "space_typed sample_vs" and n: "0 < length (vs_ranges sample_vs)" "0 < length (vr_blocks (vs_ranges sample_vs ! 0))"
    "vr_blocks (vs_ranges sample_vs ! 0) ! 0 = sample_block" by (simp_all add: space_typed_def sample_vs_def sample_range_def)
  note k = blocks_stay_typed [OF sample_me_ok(2) t, where create = "\<lambda>s e. Inr sample_block" and fc = "\<lparr>g_migration_write_fault_count = 0, g_fault_log_count = 0\<rparr>"
      and g = 1 and sc = sample_sc]
  have c: "block_typed vb" if "(Inr sample_block :: nv_status + va_block) = Inr vb" for vb using that \<open>block_typed sample_block\<close> by simp
  from k [OF c] n show ?thesis by metis
qed

end
