(* ===== verification/Coalesced_Capture.thy ===== *)
theory Coalesced_Capture
  imports Capture_Encrypted Restore_Encrypted
begin

text \<open>
  \<open>capture_and_write_coalesced\<close> of \<open>ckpt_core.c\<close>: one call of ioctl 115 over the span of all ranges, whose output is
  cut into the ranges of a version 3 image; or one call of ioctl 116, whose sparse output is cut into regions
  of present pages for a delta image. Time stamps, progress output and the reported number of GPU bytes are left out.
\<close>

section \<open>The code\<close>

text \<open>What can fail, and the addresses of the four big buffers; the CPU buffer has 2 GB.\<close>

record coal_env =
  co_calloc :: bool                                              \<comment> \<open>\<open>allocs\<close>\<close>
  co_qsort :: "(nat \<times> nat) list \<Rightarrow> (nat \<times> nat) list"       \<comment> \<open>\<open>qsort\<close> with \<open>p3b_cmp_alloc_va\<close>\<close>
  co_bufs :: "enc_bufs option"                                   \<comment> \<open>\<open>big_resmap\<close>, \<open>big_cpu_buf\<close>, \<open>big_meta\<close> allocated\<close>
  co_shm :: "nat option"                                         \<comment> \<open>the staging file can be opened: its size\<close>
  co_map :: bool
  co_fcaps :: bool
  co_tables :: bool                                              \<comment> \<open>\<open>descs\<close> and the auxiliary arrays\<close>
  co_ones :: bool
  co_io :: io_env

definition P3B_CPU_BUF_CAP :: nat where
  "P3B_CPU_BUF_CAP = 2 * 1024 * 1024 * 1024"

text \<open>The ioctl; with \<open>g_track_only\<close> the read of all pages is skipped and every page reported absent.\<close>

definition coalesced_read :: "uvm_env \<Rightarrow> va_space list \<Rightarrow> int option \<Rightarrow> bool \<Rightarrow> bool \<Rightarrow> enc_bufs \<Rightarrow> nat \<Rightarrow> nat \<Rightarrow> mem \<Rightarrow> read_result" where
  "coalesced_read env vss thr dirty track b base span m =
     (let n = span div 4096; m0 = write_mem m (eb_resmap b) (replicate n 0); pr = enc_params b (mt_threads thr) base span
      in if track \<and> \<not> dirty
         then \<lparr>rr_status = NV_OK, rr_cpu_bytes = Some 0, rr_gpu_bytes = Some 0, rr_num_pages = Some 0, rr_num_transfers = Some 0,
               rr_mem = write_mem m0 (eb_resmap b) (replicate n 2), rr_locks = []\<rparr>
         else if dirty then uvm_api_live_migration_read_dirty_delta_encrypted_mt env vss pr m0
         else uvm_api_live_migration_read_pages_resident_encrypted_mt env vss pr m0)"

text \<open>The walks over the metadata: entry \<open>i\<close>, \<open>k\<close> entries left, \<open>acc\<close> bytes covered so far.\<close>

fun skip_metas :: "(nat \<Rightarrow> nat) \<Rightarrow> nat \<Rightarrow> nat \<Rightarrow> nat \<Rightarrow> nat \<Rightarrow> nat \<times> nat" where
  "skip_metas sz 0 i acc off = (i, acc)"
| "skip_metas sz (Suc k) i acc off = (if acc + sz i \<le> off then skip_metas sz k (i + 1) (acc + sz i) off else (i, acc))"

fun take_metas :: "(nat \<Rightarrow> nat) \<Rightarrow> nat \<Rightarrow> nat \<Rightarrow> nat \<Rightarrow> nat \<Rightarrow> nat \<times> nat" where
  "take_metas sz 0 i acc target = (i, acc)"
| "take_metas sz (Suc k) i acc target = (if acc < target then take_metas sz k (i + 1) (acc + sz i) target else (i, acc))"

subsection \<open>Dense: the ranges of a baseline\<close>

record p3b_slice =
  sl_desc :: range_desc
  sl_gpu_off :: nat
  sl_meta_idx :: nat

text \<open>GPU bytes up to a page: \<open>k\<close> pages from \<open>cursor\<close> on.\<close>

fun advance_resmap :: "byte list \<Rightarrow> nat \<Rightarrow> nat \<Rightarrow> nat \<Rightarrow> nat" where
  "advance_resmap rm 0 cursor g = g"
| "advance_resmap rm (Suc k) cursor g = advance_resmap rm k (cursor + 1) (if rm ! cursor = 1 then g + 4096 else g)"

text \<open>The state of the walk, and what the loop does for one range.\<close>

record p3b_state =
  ps_cursor :: nat        \<comment> \<open>\<open>resmap_cursor\<close>\<close>
  ps_gpu :: nat           \<comment> \<open>\<open>gpu_bytes_so_far\<close>\<close>
  ps_meta :: nat          \<comment> \<open>\<open>meta_idx\<close>\<close>
  ps_acc :: nat           \<comment> \<open>\<open>meta_bytes_so_far\<close>\<close>
  ps_off :: nat           \<comment> \<open>\<open>cur_off\<close>\<close>

definition p3b_range :: "(nat \<Rightarrow> nat) \<Rightarrow> nat \<Rightarrow> byte list \<Rightarrow> nat \<Rightarrow> nat \<times> nat \<Rightarrow> p3b_state \<Rightarrow> (p3b_slice \<times> p3b_state) outcome" where
  "p3b_range sz nm rm base r s =
     (let n = snd r div 4096; start = (fst r - base) div 4096; g = advance_resmap rm (start - ps_cursor s) (ps_cursor s) (ps_gpu s);
          sk = skip_metas sz (nm - ps_meta s) (ps_meta s) (ps_acc s) g; tk = take_metas sz (nm - fst sk) (fst sk) (snd sk) (g + snd r);
          mbytes = (fst tk - fst sk) * META_SIZE
      in if length rm < start then Undefined
         else if \<not> list_all (\<lambda>p. rm ! p = 1) [start..<min (start + n) (length rm)] then Fail
         else if length rm < start + n then Undefined
         else if snd sk \<noteq> g then Fail
         else if snd tk \<noteq> g + snd r then Fail
         else Done (\<lparr>sl_desc = \<lparr>rd_base_va = fst r, rd_length = snd r, rd_num_pages = n, rd_data_offset = ps_off s, rd_resmap_size = n,
                      rd_cpu_bytes = 0, rd_gpu_bytes = snd r, rd_crypto_meta_bytes = mbytes\<rparr>, sl_gpu_off = g, sl_meta_idx = fst sk\<rparr>,
                    \<lparr>ps_cursor = start + n, ps_gpu = g + snd r, ps_meta = fst tk, ps_acc = snd tk, ps_off = ps_off s + n + snd r + mbytes\<rparr>))"

fun p3b_walk :: "(nat \<Rightarrow> nat) \<Rightarrow> nat \<Rightarrow> byte list \<Rightarrow> nat \<Rightarrow> (nat \<times> nat) list \<Rightarrow> p3b_state \<Rightarrow> p3b_slice list outcome" where
  "p3b_walk sz nm rm base [] s = Done []"
| "p3b_walk sz nm rm base (r # rs) s =
     (case p3b_range sz nm rm base r s of
        Done (x, s') \<Rightarrow> (case p3b_walk sz nm rm base rs s' of Done xs \<Rightarrow> Done (x # xs) | Fail \<Rightarrow> Fail | Undefined \<Rightarrow> Undefined)
      | Fail \<Rightarrow> Fail | Undefined \<Rightarrow> Undefined)"

text \<open>One writer thread, on the ranges of its slice.\<close>

definition p3b_range_writes :: "enc_bufs \<Rightarrow> mem \<Rightarrow> p3b_slice \<Rightarrow> (nat \<times> byte list) list" where
  "p3b_range_writes b m s =
     (let d = sl_desc s; p = rd_data_offset d; q = p + rd_resmap_size d
      in [(p, replicate (rd_resmap_size d) 1), (q, read_mem m (eb_gpu_buf b + sl_gpu_off s) (rd_gpu_bytes d)),
          (q + rd_gpu_bytes d, read_mem m (eb_crypto_meta b + sl_meta_idx s * META_SIZE) (rd_crypto_meta_bytes d))])"

definition p3b_writer_thread :: "enc_bufs \<Rightarrow> mem \<Rightarrow> p3b_slice list \<Rightarrow> nat \<times> nat \<Rightarrow> (nat \<times> byte list) list" where
  "p3b_writer_thread b m ss sl = concat (map (\<lambda>i. p3b_range_writes b m (ss ! i)) (slice_idx sl))"

text \<open>Writing the image: header, descriptors, then the threads. The file is not created and never shrinks.\<close>

definition write_coalesced :: "io_env \<Rightarrow> enc_bufs \<Rightarrow> mem \<Rightarrow> (nat \<times> nat) list \<Rightarrow> p3b_slice list \<Rightarrow> ckpt_file \<Rightarrow> bool \<times> ckpt_file" where
  "write_coalesced io b m allocs ss old =
     (let n = length allocs; descs = map sl_desc ss;
          isz = V2_HDR_SIZE + n * DESC_SIZE + sum_list (map (\<lambda>d. rd_num_pages d + rd_length d + rd_crypto_meta_bytes d) descs)
      in if io_no_image_write io then (io_mmap io isz, old)
         else if \<not> io_open io then (False, old)
         else if \<not> io_fstat io then (False, old)
         else if fl_size old < isz \<and> \<not> io_truncate io isz then (False, old)
         else let f0 = (if fl_size old < isz then file_resize isz old else old)
              in if \<not> io_mmap io isz then (False, f0)
                 else let m1 = write_mem (fl_bytes f0) 0 (enc_v2_hdr 3 n (sum_list (map snd allocs)));
                          m2 = write_mem m1 V2_HDR_SIZE (concat (map enc_desc descs));
                          acts = map (p3b_writer_thread b m ss) (split_work n (n_writers (io_writers io) n))
                      in (True, f0\<lparr>fl_bytes := fold put_bytes (io_sched io acts) m2\<rparr>))"

subsection \<open>Sparse: the regions of a delta\<close>

text \<open>The residency map from page \<open>p\<close> on; a region is a maximal run of present pages.\<close>

definition p3b_region :: "enc_bufs \<Rightarrow> mem \<Rightarrow> nat \<Rightarrow> byte list \<Rightarrow> nat \<Rightarrow> nat \<Rightarrow> nat \<Rightarrow> nat \<Rightarrow> nat \<Rightarrow> range_capture" where
  "p3b_region b m base run p co go mi mi' =
     (let n = length run; cin = 4096 * length (filter (\<lambda>x. x = 0) run); gin = 4096 * length (filter (\<lambda>x. x \<noteq> 0) run)
      in \<lparr>rc_base = base + p * 4096, rc_length = n * 4096, rc_n_pages = n, rc_cpu_bytes = cin, rc_gpu_bytes = gin,
          rc_enc_count = mi' - mi, rc_resmap = run, rc_cpu_buf = read_mem m (eb_cpu_buf b + co) cin, rc_gpu_buf = read_mem m (eb_gpu_buf b + go) gin,
          rc_crypto_meta = Some (read_mem m (eb_crypto_meta b + mi * META_SIZE) ((mi' - mi) * META_SIZE))\<rparr>)"

function p3b_regions ::
  "(nat \<Rightarrow> nat) \<Rightarrow> nat \<Rightarrow> enc_bufs \<Rightarrow> mem \<Rightarrow> nat \<Rightarrow> byte list \<Rightarrow> nat \<Rightarrow> nat \<Rightarrow> nat \<Rightarrow> nat \<Rightarrow> nat \<Rightarrow> range_capture list option" where
  "p3b_regions sz nm b m base [] p co go mi mb = Some []"
| "p3b_regions sz nm b m base (r # rm) p co go mi mb =
     (if r = 2 then p3b_regions sz nm b m base rm (p + 1) co go mi mb
      else let run = takeWhile (\<lambda>x. x \<noteq> 2) (r # rm); cin = 4096 * length (filter (\<lambda>x. x = 0) run); gin = 4096 * length (filter (\<lambda>x. x \<noteq> 0) run);
               tk = take_metas sz (nm - mi) mi mb (go + gin)
           in if mb \<noteq> go \<or> snd tk \<noteq> go + gin then None
              else (case p3b_regions sz nm b m base (dropWhile (\<lambda>x. x \<noteq> 2) rm) (p + length run) (co + cin) (go + gin) (fst tk) (snd tk) of
                      None \<Rightarrow> None | Some cs \<Rightarrow> Some (p3b_region b m base run p co go mi (fst tk) # cs)))"
  by pat_completeness auto
termination
  by (relation "measure (\<lambda>(sz, nm, b, m, base, rm, p, co, go, mi, mb). length rm)") (simp_all add: le_imp_less_Suc length_dropWhile_le)

subsection \<open>The whole call\<close>

text \<open>
  The result is the return code and the file; \<open>None\<close> when the code leaves an array (no range at all, or a range that
  ends behind the last one).
\<close>

definition capture_and_write_coalesced ::
  "coal_env \<Rightarrow> uvm_env \<Rightarrow> va_space list \<Rightarrow> int option \<Rightarrow> bool \<Rightarrow> bool \<Rightarrow> (nat \<times> nat) list \<Rightarrow> mem \<Rightarrow> ckpt_file \<Rightarrow> (bool \<times> ckpt_file) option" where
  "capture_and_write_coalesced co env vss thr dirty track ranges m old =
     (if \<not> co_calloc co then Some (False, old)
      else if ranges = [] then None
      else let allocs = co_qsort co ranges; base = fst (hd allocs); span = fst (last allocs) + snd (last allocs) - base
           in case co_bufs co of None \<Rightarrow> Some (False, old)
              | Some b \<Rightarrow>
                (case co_shm co of None \<Rightarrow> Some (False, old)
                 | Some sz \<Rightarrow>
                   if sz < span \<or> \<not> co_map co then Some (False, old)
                   else let res = coalesced_read env vss thr dirty track b base span m; m1 = rr_mem res;
                            rm = read_mem m1 (eb_resmap b) (span div 4096); nm = the (rr_num_transfers res);
                            msz = (\<lambda>i. cm_size (entry_at m1 (eb_crypto_meta b) i))
                        in if rr_status res \<noteq> NV_OK then Some (False, old)
                           else if dirty then
                             (if \<not> co_fcaps co then Some (False, old)
                              else case p3b_regions msz nm b m1 base rm 0 0 0 0 0 of None \<Rightarrow> Some (False, old)
                                | Some caps \<Rightarrow> Some (write_delta_parallel (co_io co) caps base span (length (filter (\<lambda>x. x \<noteq> 2) rm)) old))
                           else if \<not> co_tables co then Some (False, old)
                           else (case p3b_walk msz nm rm base allocs \<lparr>ps_cursor = 0, ps_gpu = 0, ps_meta = 0, ps_acc = 0, ps_off = V2_HDR_SIZE + length allocs * DESC_SIZE\<rparr> of
                               Undefined \<Rightarrow> None | Fail \<Rightarrow> Some (False, old)
                             | Done ss \<Rightarrow> if \<not> co_ones co then Some (False, old) else Some (write_coalesced (co_io co) b m1 allocs ss old))))"

section \<open>The walks\<close>

abbreviation meta_sum :: "(nat \<Rightarrow> nat) \<Rightarrow> nat \<Rightarrow> nat" where
  "meta_sum sz i \<equiv> sum_list (map sz [0..<i])"

lemma skip_metas_sum: "skip_metas sz k i (meta_sum sz i) off = (j, acc) \<Longrightarrow> i \<le> j \<and> j \<le> i + k \<and> acc = meta_sum sz j"
proof (induction k arbitrary: i)
  case (Suc k)
  show ?case
  proof (cases "meta_sum sz i + sz i \<le> off")
    case True
    then have "skip_metas sz k (Suc i) (meta_sum sz (Suc i)) off = (j, acc)" using Suc.prems by simp
    from Suc.IH [OF this] show ?thesis by linarith
  qed (use Suc.prems in auto)
qed simp

lemma take_metas_sum: "take_metas sz k i (meta_sum sz i) tgt = (j, acc) \<Longrightarrow> i \<le> j \<and> j \<le> i + k \<and> acc = meta_sum sz j"
proof (induction k arbitrary: i)
  case (Suc k)
  show ?case
  proof (cases "meta_sum sz i < tgt")
    case True
    then have "take_metas sz k (Suc i) (meta_sum sz (Suc i)) tgt = (j, acc)" using Suc.prems by simp
    from Suc.IH [OF this] show ?thesis by linarith
  qed (use Suc.prems in auto)
qed simp

text \<open>The offset of a page in the GPU section: the GPU pages before it.\<close>

definition gpu_rank :: "byte list \<Rightarrow> nat \<Rightarrow> nat" where
  "gpu_rank rm p = 4096 * count_list (take p rm) 1"

lemma advance_resmap_rank: "cursor + k \<le> length rm \<Longrightarrow> advance_resmap rm k cursor (gpu_rank rm cursor) = gpu_rank rm (cursor + k)"
proof (induction k arbitrary: cursor)
  case (Suc k)
  then have "take (Suc cursor) rm = take cursor rm @ [rm ! cursor]" by (simp add: take_Suc_conv_app_nth)
  then have "(if rm ! cursor = 1 then gpu_rank rm cursor + 4096 else gpu_rank rm cursor) = gpu_rank rm (Suc cursor)" by (simp add: gpu_rank_def)
  then show ?case using Suc.IH [of "Suc cursor"] Suc.prems by simp
qed simp

lemma gpu_rank_window:
  assumes "take n (drop p rm) = replicate n 1"
  shows "gpu_rank rm (p + n) = gpu_rank rm p + n * 4096"
proof -
  have "count_list (replicate n (1 :: byte)) 1 = n" by (induction n) simp_all
  then show ?thesis using assms by (simp add: gpu_rank_def take_add)
qed

text \<open>What a slice is: pages on the GPU throughout, and the interval of metadata entries that covers its bytes.\<close>

definition slice_ok :: "(nat \<Rightarrow> nat) \<Rightarrow> nat \<Rightarrow> byte list \<Rightarrow> nat \<Rightarrow> nat \<times> nat \<Rightarrow> p3b_slice \<Rightarrow> bool" where
  "slice_ok sz nm rm base r s \<longleftrightarrow>
     (let n = snd r div 4096; p = (fst r - base) div 4096; g = sl_gpu_off s; a = sl_meta_idx s
      in p + n \<le> length rm \<and> take n (drop p rm) = replicate n 1 \<and> g = gpu_rank rm p \<and>
         (\<exists>c off. a \<le> c \<and> c \<le> nm \<and> meta_sum sz a = g \<and> meta_sum sz c = g + snd r \<and>
            sl_desc s = \<lparr>rd_base_va = fst r, rd_length = snd r, rd_num_pages = n, rd_data_offset = off, rd_resmap_size = n,
                         rd_cpu_bytes = 0, rd_gpu_bytes = snd r, rd_crypto_meta_bytes = (c - a) * META_SIZE\<rparr>))"

text \<open>The capture of a slice.\<close>

definition p3b_cap :: "enc_bufs \<Rightarrow> mem \<Rightarrow> p3b_slice \<Rightarrow> range_capture" where
  "p3b_cap b m s =
     (let d = sl_desc s
      in \<lparr>rc_base = rd_base_va d, rc_length = rd_length d, rc_n_pages = rd_num_pages d, rc_cpu_bytes = 0, rc_gpu_bytes = rd_gpu_bytes d,
          rc_enc_count = rd_crypto_meta_bytes d div META_SIZE, rc_resmap = replicate (rd_num_pages d) 1, rc_cpu_buf = [],
          rc_gpu_buf = read_mem m (eb_gpu_buf b + sl_gpu_off s) (rd_gpu_bytes d),
          rc_crypto_meta = Some (read_mem m (eb_crypto_meta b + sl_meta_idx s * META_SIZE) (rd_crypto_meta_bytes d))\<rparr>)"

definition state_ok :: "(nat \<Rightarrow> nat) \<Rightarrow> nat \<Rightarrow> byte list \<Rightarrow> p3b_state \<Rightarrow> bool" where
  "state_ok sz nm rm s \<longleftrightarrow> ps_cursor s \<le> length rm \<and> ps_gpu s = gpu_rank rm (ps_cursor s) \<and> ps_meta s \<le> nm \<and> ps_acc s = meta_sum sz (ps_meta s)"

lemma p3b_range_ok:
  assumes "p3b_range sz nm rm base r s = Done (x, s')" "state_ok sz nm rm s" "ps_cursor s \<le> (fst r - base) div 4096" "4096 dvd snd r"
  shows "slice_ok sz nm rm base r x" "state_ok sz nm rm s'" "ps_cursor s' = (fst r - base) div 4096 + snd r div 4096"
    and "sl_desc x = desc_of (ps_off s) (p3b_cap b m x)" "ps_off s' = ps_off s + cap_bytes (p3b_cap b m x)"
proof -
  define n where "n = snd r div 4096"
  define p where "p = (fst r - base) div 4096"
  define g where "g = advance_resmap rm (p - ps_cursor s) (ps_cursor s) (ps_gpu s)"
  obtain a acc where sk: "skip_metas sz (nm - ps_meta s) (ps_meta s) (ps_acc s) g = (a, acc)" by fastforce
  obtain c acc' where tk: "take_metas sz (nm - a) a acc (g + snd r) = (c, acc')" by fastforce
  have e: "p \<le> length rm" "list_all (\<lambda>p. rm ! p = 1) [p..<min (p + n) (length rm)]" "p + n \<le> length rm" "acc = g" "acc' = g + snd r"
    and x: "x = \<lparr>sl_desc = \<lparr>rd_base_va = fst r, rd_length = snd r, rd_num_pages = n, rd_data_offset = ps_off s, rd_resmap_size = n,
                rd_cpu_bytes = 0, rd_gpu_bytes = snd r, rd_crypto_meta_bytes = (c - a) * META_SIZE\<rparr>, sl_gpu_off = g, sl_meta_idx = a\<rparr>"
    and s': "s' = \<lparr>ps_cursor = p + n, ps_gpu = g + snd r, ps_meta = c, ps_acc = acc', ps_off = ps_off s + n + snd r + (c - a) * META_SIZE\<rparr>"
    using assms(1) unfolding p3b_range_def Let_def n_def [symmetric] p_def [symmetric] g_def [symmetric] sk fst_conv snd_conv tk
    by (auto split: if_splits)
  have st: "ps_gpu s = gpu_rank rm (ps_cursor s)" "ps_meta s \<le> nm" "ps_acc s = meta_sum sz (ps_meta s)" using assms(2) by (simp_all add: state_ok_def)
  have g: "g = gpu_rank rm p" unfolding g_def st(1) using advance_resmap_rank [of "ps_cursor s" "p - ps_cursor s" rm] e(1) assms(3) by (simp add: p_def)
  have a: "ps_meta s \<le> a" "a \<le> nm" "acc = meta_sum sz a" using skip_metas_sum [OF sk [unfolded st(3)]] st(2) by simp_all
  have c: "a \<le> c" "c \<le> nm" "acc' = meta_sum sz c" using take_metas_sum [OF tk [unfolded a(3)]] a(2) by simp_all
  have ones: "take n (drop p rm) = replicate n 1" using e(2,3) by (intro nth_equalityI) (auto simp: list_all_iff)
  have sz: "snd r = n * 4096" using assms(4) by (simp add: n_def)
  show "slice_ok sz nm rm base r x"
    unfolding slice_ok_def Let_def n_def [symmetric] p_def [symmetric] using e(3) ones g a c e(4,5) by (auto simp: x)
  show "state_ok sz nm rm s'" using e(3,5) gpu_rank_window [OF ones] g c sz by (simp add: s' state_ok_def)
  show "ps_cursor s' = (fst r - base) div 4096 + snd r div 4096" by (simp add: s' n_def p_def)
  show "sl_desc x = desc_of (ps_off s) (p3b_cap b m x)" "ps_off s' = ps_off s + cap_bytes (p3b_cap b m x)"
    by (simp_all add: x s' p3b_cap_def desc_of_def cap_meta_bytes_def cap_bytes_def)
qed

text \<open>Ranges in address order that do not overlap.\<close>

definition ranges_ordered :: "(nat \<times> nat) list \<Rightarrow> bool" where
  "ranges_ordered rs \<longleftrightarrow> sorted_wrt (\<lambda>r s. fst r + snd r \<le> fst s) rs"

lemma p3b_walk_ok:
  assumes "p3b_walk sz nm rm base rs s = Done ss" "state_ok sz nm rm s" "ranges_ordered rs"
    and "\<forall>r \<in> set rs. base \<le> fst r \<and> ps_cursor s \<le> (fst r - base) div 4096 \<and> 4096 dvd snd r"
  shows "list_all2 (slice_ok sz nm rm base) rs ss" "map sl_desc ss = build_descs (ps_off s) (map (p3b_cap b m) ss)"
proof -
  have "list_all2 (slice_ok sz nm rm base) rs ss \<and> map sl_desc ss = build_descs (ps_off s) (map (p3b_cap b m) ss)"
    using assms
  proof (induction rs arbitrary: s ss)
    case (Cons r rs)
    obtain x s' xs where p: "p3b_range sz nm rm base r s = Done (x, s')" "p3b_walk sz nm rm base rs s' = Done xs" "ss = x # xs"
      using Cons.prems(1) by (auto split: outcome.splits)
    have cr: "ps_cursor s \<le> (fst r - base) div 4096" "4096 dvd snd r" "base \<le> fst r" using Cons.prems(4) by simp_all
    note k = p3b_range_ok [OF p(1) Cons.prems(2) cr(1,2)]
    have "ps_cursor s' \<le> (fst t - base) div 4096" if "t \<in> set rs" for t
    proof -
      have "fst r + snd r \<le> fst t" using Cons.prems(3) that by (simp add: ranges_ordered_def)
      then have "(fst r - base + snd r) div 4096 \<le> (fst t - base) div 4096" using cr(3) by (intro div_le_mono) simp
      moreover have "(fst r - base + snd r) div 4096 = (fst r - base) div 4096 + snd r div 4096" using cr(2) by (simp add: div_plus_div_distrib_dvd_right)
      ultimately show ?thesis using k(3) by simp
    qed
    then have h: "\<forall>t \<in> set rs. base \<le> fst t \<and> ps_cursor s' \<le> (fst t - base) div 4096 \<and> 4096 dvd snd t" "ranges_ordered rs"
      using Cons.prems(3,4) by (auto simp: ranges_ordered_def)
    show ?case using Cons.IH [OF p(2) k(2) h(2,1)] k(1) k(4,5) [of b m] by (simp add: p(3))
  qed simp
  then show "list_all2 (slice_ok sz nm rm base) rs ss" "map sl_desc ss = build_descs (ps_off s) (map (p3b_cap b m) ss)" by blast+
qed

section \<open>The image\<close>

lemma parallel_writes:
  assumes "contig p (concat (map W [0..<n]))" "0 < k" "zs \<in> interleave (map (\<lambda>sl. concat (map W (slice_idx sl))) (split_work n k))"
  shows "fold put_bytes zs m = write_mem m p (concat (map snd (concat (map W [0..<n]))))"
proof -
  have all: "concat (map (\<lambda>sl. concat (map W (slice_idx sl))) (split_work n k)) = concat (map W [0..<n])"
    using even_split.slices_cover [OF assms(2), of n] unfolding concat_map_concat by simp
  show ?thesis
    using file_writes.schedule_irrelevant [OF _ assms(3), of m] contig_indep [OF assms(1)] contig_fold [OF assms(1)] unfolding all by simp
qed

lemma p3b_cap_wf: "sl_desc s = desc_of off (p3b_cap b m s) \<Longrightarrow> cap_wf (p3b_cap b m s)"
  using div_times_less_eq_dividend [of "rd_crypto_meta_bytes (sl_desc s)" META_SIZE] by (simp add: cap_wf_def p3b_cap_def Let_def)

lemma p3b_cap_parts:
  "rc_resmap (p3b_cap b m s) = replicate (rd_num_pages (sl_desc s)) 1" "rc_cpu_bytes (p3b_cap b m s) = 0" "rc_cpu_buf (p3b_cap b m s) = []"
  "rc_gpu_bytes (p3b_cap b m s) = rd_gpu_bytes (sl_desc s)" "rc_n_pages (p3b_cap b m s) = rd_num_pages (sl_desc s)"
  "rc_base (p3b_cap b m s) = rd_base_va (sl_desc s)" "rc_length (p3b_cap b m s) = rd_length (sl_desc s)"
  "rc_gpu_buf (p3b_cap b m s) = read_mem m (eb_gpu_buf b + sl_gpu_off s) (rd_gpu_bytes (sl_desc s))"
  by (simp_all add: p3b_cap_def Let_def)

lemma p3b_writes_contig:
  assumes "sl_desc s = desc_of off (p3b_cap b m s)"
  shows "contig off (p3b_range_writes b m s)" "concat (map snd (p3b_range_writes b m s)) = cap_sections (p3b_cap b m s)"
proof -
  let ?c = "p3b_cap b m s" and ?d = "sl_desc s"
  have n: "rc_n_pages ?c = rd_num_pages ?d" by (simp add: p3b_cap_def Let_def)
  have d: "rd_data_offset ?d = off" "rd_resmap_size ?d = rd_num_pages ?d" "rd_crypto_meta_bytes ?d = cap_meta_bytes ?c"
    using arg_cong [OF assms, of rd_data_offset] arg_cong [OF assms, of rd_resmap_size] arg_cong [OF assms, of rd_crypto_meta_bytes]
    unfolding desc_of_simps n by simp_all
  show "contig off (p3b_range_writes b m s)" using d by (simp add: p3b_range_writes_def Let_def)
  have "cap_meta ?c = read_mem m (eb_crypto_meta b + sl_meta_idx s * META_SIZE) (rd_crypto_meta_bytes ?d)"
    unfolding cap_meta_def d(3) [symmetric] by (simp add: p3b_cap_def Let_def)
  then show "concat (map snd (p3b_range_writes b m s)) = cap_sections ?c"
    unfolding cap_sections_def p3b_range_writes_def Let_def d(2) by (simp add: p3b_cap_parts)
qed

lemma slices_contig:
  assumes "map sl_desc ss = build_descs off (map (p3b_cap b m) ss)"
  shows "contig off (concat (map (p3b_range_writes b m) ss)) \<and>
    concat (map snd (concat (map (p3b_range_writes b m) ss))) = concat (map cap_sections (map (p3b_cap b m) ss)) \<and>
    (\<forall>c \<in> set (map (p3b_cap b m) ss). cap_wf c)"
  using assms
proof (induction ss arbitrary: off)
  case (Cons s ss)
  have s: "sl_desc s = desc_of off (p3b_cap b m s)" "map sl_desc ss = build_descs (off + cap_bytes (p3b_cap b m s)) (map (p3b_cap b m) ss)"
    using Cons.prems by simp_all
  show ?case using Cons.IH [OF s(2)] p3b_writes_contig [OF s(1)] p3b_cap_wf [OF s(1)] by (simp add: contig_append length_cap_sections)
qed simp

lemma build_descs_desc_of: "d = build_descs off cs ! k \<Longrightarrow> k < length cs \<Longrightarrow> \<exists>o'. d = desc_of o' (cs ! k)"
  by (induction cs arbitrary: off k d) (auto simp: nth_Cons split: nat.splits)

lemma write_coalesced_success:
  assumes "write_coalesced io b m allocs ss old = (True, f)" "\<not> io_no_image_write io" "\<forall>ws. io_sched io ws \<in> interleave ws"
    and "length ss = length allocs" "map sl_desc ss = build_descs (V2_HDR_SIZE + length allocs * DESC_SIZE) (map (p3b_cap b m) ss)"
    and "map (\<lambda>s. rd_length (sl_desc s)) ss = map snd allocs" "\<forall>s \<in> set ss. rd_gpu_bytes (sl_desc s) = rd_length (sl_desc s)"
  shows "take (length (base_image (map (p3b_cap b m) ss) 3)) (file_list f) = base_image (map (p3b_cap b m) ss) 3"
proof -
  define caps where "caps = map (p3b_cap b m) ss"
  define n where "n = length allocs"
  define off where "off = V2_HDR_SIZE + n * DESC_SIZE"
  define descs where "descs = map sl_desc ss"
  define isz where "isz = off + sum_list (map (\<lambda>d. rd_num_pages d + rd_length d + rd_crypto_meta_bytes d) descs)"
  define f0 where "f0 = (if fl_size old < isz then file_resize isz old else old)"
  let ?hdr = "enc_v2_hdr 3 n (sum_list (map snd allocs))" and ?W = "\<lambda>i. p3b_range_writes b m (ss ! i)"
  let ?acts = "map (p3b_writer_thread b m ss) (split_work n (n_writers (io_writers io) n))"
  define m2 where "m2 = write_mem (fl_bytes f0) 0 (?hdr @ concat (map enc_desc descs))"
  have off: "v2_data_off caps = off" "length descs = n" by (simp_all add: v2_data_off_def caps_def off_def n_def assms(4) descs_def)
  have de: "map sl_desc ss = build_descs off caps" unfolding assms(5) off_def n_def caps_def ..
  have c: "contig off (concat (map (p3b_range_writes b m) ss))" "concat (map snd (concat (map (p3b_range_writes b m) ss))) = concat (map cap_sections caps)"
    "\<forall>c \<in> set caps. cap_wf c" using slices_contig [OF de [unfolded caps_def], folded caps_def] by blast+
  have ws: "concat (map ?W [0..<n]) = concat (map (p3b_range_writes b m) ss)" unfolding n_def assms(4) [symmetric]
    by (intro arg_cong [where f = concat] nth_equalityI) simp_all
  have cap: "rc_length (p3b_cap b m s) = rd_length (sl_desc s)" "cap_bytes (p3b_cap b m s) = rd_num_pages (sl_desc s) + rd_length (sl_desc s) + rd_crypto_meta_bytes (sl_desc s)"
    if "s \<in> set ss" for s
  proof -
    obtain k where k: "k < length ss" "s = ss ! k" using \<open>s \<in> set ss\<close> by (metis in_set_conv_nth)
    then have "sl_desc s = build_descs (V2_HDR_SIZE + length allocs * DESC_SIZE) (map (p3b_cap b m) ss) ! k" using assms(5) by (metis nth_map)
    then obtain o' where "sl_desc s = desc_of o' (p3b_cap b m s)" using build_descs_desc_of [of "sl_desc s" _ "map (p3b_cap b m) ss" k] k by auto
    from arg_cong [OF this, of rd_crypto_meta_bytes] have "rd_crypto_meta_bytes (sl_desc s) = cap_meta_bytes (p3b_cap b m s)" by simp
    then show "rc_length (p3b_cap b m s) = rd_length (sl_desc s)" "cap_bytes (p3b_cap b m s) = rd_num_pages (sl_desc s) + rd_length (sl_desc s) + rd_crypto_meta_bytes (sl_desc s)"
      using assms(7) that by (simp_all add: cap_bytes_def) (simp_all add: p3b_cap_def Let_def)
  qed
  have hl: "sum_list (map rc_length caps) = sum_list (map snd allocs)"
    unfolding assms(6) [symmetric] caps_def map_map o_def using cap(1) by (intro arg_cong [where f = sum_list] map_cong) simp_all
  have sz: "isz = length (base_image caps 3)"
  proof -
    have "sum_list (map (\<lambda>d. rd_num_pages d + rd_length d + rd_crypto_meta_bytes d) descs) = sum_list (map cap_bytes caps)"
      unfolding descs_def caps_def map_map o_def using cap(2) by (intro arg_cong [where f = sum_list] map_cong) simp_all
    then show ?thesis using length_sections [OF c(3)] off by (simp add: isz_def base_image_def caps_def off_def n_def assms(4))
  qed
  have "write_mem (write_mem (fl_bytes f0) 0 ?hdr) V2_HDR_SIZE (concat (map enc_desc descs)) = m2"
    using write_mem_append [of "fl_bytes f0" 0 ?hdr] by (simp add: m2_def)
  then have f: "f = f0\<lparr>fl_bytes := fold put_bytes (io_sched io ?acts) m2\<rparr>"
    using assms(1,2) unfolding write_coalesced_def Let_def n_def [symmetric] off_def [symmetric] descs_def [symmetric] isz_def [symmetric]
    by (auto simp: f0_def split: if_splits)
  have "fold put_bytes (io_sched io ?acts) m2 = write_mem m2 off (concat (map snd (concat (map ?W [0..<n]))))"
    unfolding p3b_writer_thread_def by (rule parallel_writes [OF _ n_writers_pos [of "io_writers io" n]]) (use c(1) assms(3) in \<open>simp_all add: ws\<close>)
  also have "\<dots> = write_mem (fl_bytes f0) 0 (base_image caps 3)"
    using write_mem_append [of "fl_bytes f0" 0 "?hdr @ concat (map enc_desc descs)" "concat (map cap_sections caps)"] off assms(5)
    unfolding ws c(2) m2_def base_image_def hl off(1) by (simp add: descs_def de caps_def off_def n_def assms(4) [symmetric])
  finally show ?thesis
    using sz by (simp add: f file_list_def f0_def read_mem_take read_write_same file_resize_def caps_def)
qed

end
