(* ===== verification/Coalesced_Slices.thy ===== *)
theory Coalesced_Slices
  imports Encrypted_Checkpoint Coalesced_Capture
begin

text \<open>
  The ranges and regions that \<open>capture_and_write_coalesced\<close> cuts out of one read are the captures a read of
  each of them alone would give: same residency map, same plaintext, each section sealed by the driver.
\<close>

section \<open>Windows of a walk\<close>

lemma resmap_of_nil: "resmap_of G base p rm [] \<longleftrightarrow> rm = replicate (length rm) 2"
  by (induction rm arbitrary: p) auto

lemma resmap_of_append:
  "resmap_of G base p (rm1 @ rm2) V \<Longrightarrow>
   \<exists>V1 V2. V = V1 @ V2 \<and> resmap_of G base p rm1 V1 \<and> resmap_of G base (p + length rm1) rm2 V2"
proof (induction rm1 arbitrary: p V)
  case (Cons r rm1)
  show ?case
  proof (cases V)
    case Nil
    then have "r = 2" "resmap_of G base (p + 1) (rm1 @ rm2) []" using Cons.prems by simp_all
    from this(1) Cons.IH [OF this(2)] show ?thesis by (simp add: Nil)
  next
    case (Cons x W)
    show ?thesis
    proof (cases "snd x = base + p * PAGE_SIZE")
      case True
      then have "r = visit_class G x" "resmap_of G base (p + 1) (rm1 @ rm2) W" using Cons.prems Cons by simp_all
      from Cons.IH [OF this(2)] obtain V1 V2 where v: "W = V1 @ V2" "resmap_of G base (p + 1) rm1 V1" "resmap_of G base (p + 1 + length rm1) rm2 V2" by blast
      show ?thesis by (rule exI [of _ "x # V1"], rule exI [of _ V2]) (use v True Cons \<open>r = visit_class G x\<close> in simp)
    next
      case False
      then have "r = 2" "resmap_of G base (p + 1) (rm1 @ rm2) V" using Cons.prems Cons by simp_all
      from Cons.IH [OF this(2)] obtain V1 V2 where v: "V = V1 @ V2" "resmap_of G base (p + 1) rm1 V1" "resmap_of G base (p + 1 + length rm1) rm2 V2" by blast
      show ?thesis by (rule exI [of _ V1], rule exI [of _ V2]) (use v False Cons \<open>r = 2\<close> in \<open>cases V1; auto\<close>)
    qed
  qed
qed simp

lemma resmap_of_bounds:
  "resmap_of G base p rm V \<Longrightarrow> sorted_wrt (<) (map snd V) \<and> (\<forall>x \<in> set V. base + p * PAGE_SIZE \<le> snd x \<and> snd x + PAGE_SIZE \<le> base + (p + length rm) * PAGE_SIZE)"
proof (induction G base p rm V rule: resmap_of.induct)
  case (3 G base p r rm x V)
  then show ?case by (cases "snd x = base + p * PAGE_SIZE") (force simp: algebra_simps)+
qed simp_all

lemma resmap_of_unique: "resmap_of G base p rm V \<Longrightarrow> resmap_of G base p rm' V \<Longrightarrow> length rm = length rm' \<Longrightarrow> rm = rm'"
proof (induction G base p rm V arbitrary: rm' rule: resmap_of.induct)
  case (2 G base p r rm)
  then show ?case by (cases rm') auto
next
  case (3 G base p r rm x V)
  then show ?case by (cases rm') (auto split: if_splits)
qed simp

lemma resmap_of_shift: "resmap_of G base (p + k) rm V \<longleftrightarrow> resmap_of G (base + k * PAGE_SIZE) p rm V"
proof (induction rm arbitrary: p V)
  case (Cons r rm)
  have e: "base + (p + k) * PAGE_SIZE = base + k * PAGE_SIZE + p * PAGE_SIZE" by (simp add: add_mult_distrib)
  show ?case using Cons.IH [of "p + 1"] by (cases V) (simp_all add: e)
qed simp

lemma resmap_of_present:
  assumes "resmap_of G base p rm V" "k < length rm" "rm ! k \<noteq> 2"
  shows "\<exists>x \<in> set V. snd x = base + (p + k) * PAGE_SIZE"
  using assms
proof (induction G base p rm V arbitrary: k rule: resmap_of.induct)
  case (3 G base p r rm x V)
  show ?case
  proof (cases k)
    case 0
    then show ?thesis using 3 by (auto split: if_splits)
  next
    case (Suc j)
    show ?thesis
    proof (cases "snd x = base + p * PAGE_SIZE")
      case True
      then have "\<exists>y \<in> set V. snd y = base + (p + 1 + j) * PAGE_SIZE" using 3(1) [OF True, of j] 3(3-5) Suc by simp
      then show ?thesis using Suc by auto
    next
      case False
      then have "\<exists>y \<in> set (x # V). snd y = base + (p + 1 + j) * PAGE_SIZE" using 3(2) [OF False, of j] 3(3-5) Suc by simp
      then show ?thesis using Suc by auto
    qed
  qed
next
  case (2 G base p r rm)
  then have "(r # rm) ! k = 2" unfolding resmap_of_nil by (metis length_Cons nth_replicate resmap_of_nil)
  then show ?case using 2 by simp
qed simp

text \<open>A walk is determined by its pages.\<close>

lemma walk_unique:
  assumes "sorted_wrt (<) (map snd V)" "sorted_wrt (<) (map snd W)" "set V = set W"
  shows "V = (W :: ('a \<times> nat) list)"
proof -
  have d: "sorted (map snd V)" "distinct (map snd V)" "sorted (map snd W)" "distinct (map snd W)" using assms(1,2) by (simp_all add: strict_sorted_iff)
  moreover have "inj_on snd (set V \<union> set W)" using d(2) assms(3) by (simp add: distinct_map)
  ultimately show ?thesis using assms(3) map_sorted_distinct_set_unique by blast
qed

lemma dirty_visits_sub: "set (request_visits d vss base len) \<subseteq> set (request_visits False vss base len)"
  by (auto simp: request_visits_def scan_list_def split: option.splits)

text \<open>A window of a read is the read of the window, in a dirty read when every page of the window is present.\<close>

lemma window_visits:
  assumes "vss_ok vss" "request_ok vss base span 0" "base + span < 2 ^ 64"
    and "request_resmap d vss base span zero_uuid = A @ rm @ C" "rm \<noteq> []" "d \<longrightarrow> 2 \<notin> set rm"
    and "sub = base + length A * PAGE_SIZE" "len = length rm * PAGE_SIZE" "find_va_space vss sub 0 = find_va_space vss base 0"
  defines "G \<equiv> request_gpu vss base zero_uuid"
  obtains V1 V3 where "request_visits d vss base span = V1 @ request_visits False vss sub len @ V3" "resmap_of G base 0 A V1"
    "request_ok vss sub len 0" "resmap_of G sub 0 rm (request_visits False vss sub len)"
proof -
  define V where "V = request_visits d vss base span"
  define F where "F = request_visits False vss base span"
  define S where "S = request_visits False vss sub len"
  have al: "base mod PAGE_SIZE = 0" "span mod PAGE_SIZE = 0" using assms(2) by (simp_all add: request_ok_def)
  have "length (request_resmap d vss base span zero_uuid) = length (A @ rm @ C)" by (rule arg_cong [OF assms(4)])
  then have "span div PAGE_SIZE = length A + length rm + length C" by simp
  moreover have "span = span div PAGE_SIZE * PAGE_SIZE" using al(2) by (simp add: mod_eq_0_iff_dvd)
  ultimately have sp: "span = (length A + length rm + length C) * PAGE_SIZE" by metis
  have "sub mod PAGE_SIZE = 0" using al(1) unfolding assms(7) by (simp add: mod_eq_0_iff_dvd)
  then have rs: "request_ok vss sub len 0" using assms(1,5,8) by (simp add: request_ok_def vss_ok_def)
  have in_span: "base \<le> sub" "sub + len \<le> base + span" "sub + len < 2 ^ 64" using sp assms(3,7,8) by (simp_all add: add_mult_distrib)
  note ra = request_resmap_of [OF assms(2), of zero_uuid d, unfolded assms(4)]
  obtain V1 W V3 where v: "V = V1 @ W @ V3" "resmap_of G base 0 A V1" "resmap_of G base (0 + length A) rm W" "resmap_of G base (length A + length rm) C V3"
    using resmap_of_append [OF ra] resmap_of_append [of G base "0 + length A" rm C] unfolding G_def V_def by fastforce
  have W: "resmap_of G sub 0 rm W" using v(3) unfolding resmap_of_shift assms(7) .
  have b1: "\<forall>x \<in> set V1. snd x < sub" using resmap_of_bounds [OF v(2)] assms(7) by fastforce
  have b3: "\<forall>x \<in> set V3. sub + len \<le> snd x" using resmap_of_bounds [OF v(4)] assms(7,8) by (simp add: add_mult_distrib add.assoc)
  have bW: "\<forall>x \<in> set W. sub \<le> snd x \<and> snd x < sub + len" using resmap_of_bounds [OF W] assms(8) by fastforce
  have sW: "set W = {x \<in> set V. sub \<le> snd x \<and> snd x < sub + len}" using b1 b3 bW by (force simp: v(1))
  have sS: "set S = {x \<in> set F. sub \<le> snd x \<and> snd x < sub + len}"
  proof (intro set_eqI iffI CollectI conjI)
    fix x assume x: "x \<in> set S"
    then show i: "sub \<le> snd x" "snd x < sub + len" using request_visits_in [OF rs, of x False] by (simp_all add: S_def)
    show "x \<in> set F" unfolding F_def
      by (rule request_visits_sub [OF assms(1) rs assms(2) assms(9) [symmetric] assms(3) x [unfolded S_def]]) (use i in_span in simp_all)
  next
    fix x assume "x \<in> {x \<in> set F. sub \<le> snd x \<and> snd x < sub + len}"
    then show "x \<in> set S" unfolding F_def S_def using request_visits_sub [OF assms(1,2) rs assms(9) in_span(3)] by blast
  qed
  have "y \<in> set V" if y: "y \<in> set F" "sub \<le> snd y" "snd y < sub + len" for y
  proof (cases d)
    case True
    have yS: "y \<in> set S" using sS y by blast
    have ys: "snd y = sub + page_slot sub (snd y) * PAGE_SIZE" "page_slot sub (snd y) < length rm"
      using request_visits_aligned(2) [OF rs] request_slots(2) [OF rs] yS unfolding S_def assms(8) by (blast, fastforce)
    have "rm ! page_slot sub (snd y) \<noteq> 2" using assms(6) True nth_mem [OF ys(2)] by metis
    from resmap_of_present [OF W ys(2) this] obtain x where x: "x \<in> set W" "snd x = snd y" using ys(1) by auto
    then have "x \<in> set V" using sW by blast
    then have "x \<in> set F" using dirty_visits_sub unfolding V_def F_def by blast
    moreover have "distinct (map snd F)" using resmap_of_bounds [OF request_resmap_of [OF assms(2)]] unfolding F_def by (simp add: strict_sorted_iff)
    ultimately have "x = y" using x(2) y(1) by (metis distinct_map inj_onD)
    then show ?thesis using \<open>x \<in> set V\<close> by simp
  qed (use y in \<open>simp add: V_def F_def\<close>)
  then have "set W = set S" unfolding sW sS using dirty_visits_sub [of d vss base span] unfolding V_def F_def by blast
  moreover have "sorted_wrt (<) (map snd W)" "sorted_wrt (<) (map snd S)"
    using resmap_of_bounds [OF W] resmap_of_bounds [OF request_resmap_of [OF rs]] unfolding S_def by blast+
  ultimately have "W = S" by (intro walk_unique)
  then show thesis using that [of V1 V3] v(1,2) rs W unfolding V_def S_def by simp
qed

section \<open>Windows of the output\<close>

text \<open>What the four buffers hold after a read: residency map, CPU pages, and the runs with their metadata.\<close>

definition read_holds :: "uvm_env \<Rightarrow> va_space list \<Rightarrow> bool \<Rightarrow> enc_bufs \<Rightarrow> nat \<Rightarrow> nat \<Rightarrow> mem \<Rightarrow> nat \<Rightarrow> bool" where
  "read_holds env vss d b base span m nm \<longleftrightarrow>
     (let V = request_visits d vss base span; gs = gpu_section env (request_gpu vss base zero_uuid) V
      in request_ok vss base span 0 \<and> read_mem m (eb_resmap b) (span div PAGE_SIZE) = request_resmap d vss base span zero_uuid \<and>
         read_mem m (eb_cpu_buf b) (length (cpu_section V)) = cpu_section V \<and>
         (\<exists>cfg. nm = length (cc_runs cfg) \<and> (\<forall>r \<in> set (cc_runs cfg). 0 < snd r \<and> snd r \<le> UVM_CONF_COMPUTING_DMA_BUFFER_SIZE) \<and>
            plains env cfg nm = gs \<and> read_mem m (eb_gpu_buf b) (length gs) = ciphers env cfg nm \<and>
            read_mem m (eb_crypto_meta b) (nm * META_SIZE) = all_meta env cfg))"

lemma coalesced_read_holds:
  assumes "rr_status (coalesced_read env vss thr dirty track b base span m) = NV_OK" "\<not> (track \<and> \<not> dirty)" "moment_ok env vss"
    and "enc_areas_ok P3B_CPU_BUF_CAP span b" "length (cpu_section (request_visits dirty vss base span)) \<le> P3B_CPU_BUF_CAP"
  defines "res \<equiv> coalesced_read env vss thr dirty track b base span m"
  shows "read_holds env vss dirty b base span (rr_mem res) (the (rr_num_transfers res))"
proof -
  define pr where "pr = enc_params b (mt_threads thr) base span"
  define m0 where "m0 = write_mem m (eb_resmap b) (replicate (span div 4096) 0)"
  have r: "coalesced_read env vss thr dirty track b base span m = encrypted_mt_body dirty env vss pr m0"
    using assms(2) by (cases dirty) (auto simp: coalesced_read_def Let_def pr_def m0_def
        uvm_api_live_migration_read_dirty_delta_encrypted_mt_def uvm_api_live_migration_read_pages_resident_encrypted_mt_def)
  have mo: "vss_ok vss" "csl_ok env" "csl_shape env" "sched_ok env" using assms(3) by (simp_all add: moment_ok_def)
  note f = encrypted_read_areas [OF assms(1) [unfolded r] pr_def mo assms(4,5)]
  show ?thesis unfolding res_def r read_holds_def Let_def f(2) option.sel using f(1,6-11) by blast
qed

definition window_cap :: "enc_bufs \<Rightarrow> mem \<Rightarrow> nat \<Rightarrow> byte list \<Rightarrow> byte list \<Rightarrow> nat \<Rightarrow> nat \<Rightarrow> range_capture" where
  "window_cap b m base A rm i j =
     \<lparr>rc_base = base + length A * PAGE_SIZE, rc_length = length rm * PAGE_SIZE, rc_n_pages = length rm, rc_cpu_bytes = PAGE_SIZE * count_list rm 0,
      rc_gpu_bytes = PAGE_SIZE * count_list rm 1, rc_enc_count = j - i, rc_resmap = rm,
      rc_cpu_buf = read_mem m (eb_cpu_buf b + PAGE_SIZE * count_list A 0) (PAGE_SIZE * count_list rm 0),
      rc_gpu_buf = read_mem m (eb_gpu_buf b + PAGE_SIZE * count_list A 1) (PAGE_SIZE * count_list rm 1),
      rc_crypto_meta = Some (read_mem m (eb_crypto_meta b + i * META_SIZE) ((j - i) * META_SIZE))\<rparr>"

lemma meta_sum_ciphers:
  assumes "list_all transfer_ok xs" "read_mem m ma (length xs * META_SIZE) = metas_of xs" "i \<le> length xs"
  shows "meta_sum (\<lambda>i. cm_size (entry_at m ma i)) i = length (ciphers_of (take i xs))"
  using assms(3)
proof (induction i)
  case (Suc i)
  then have i: "i < length xs" by simp
  have "cm_size (entry_at m ma i) = length (t_cipher (xs ! i))"
    using entry_metas [OF assms(1,2) i] assms(1) i by (simp add: list_all_length transfer_ok_def)
  then show ?case using Suc concat_at(2) [OF i, of "\<lambda>x. t_cipher x"] by simp
qed simp

lemma take_drop_split: "i \<le> j \<Longrightarrow> xs = take i xs @ drop i (take j xs) @ drop j xs"
  by (metis append.assoc append_take_drop_id min.absorb1 take_take)

text \<open>Prefixes of the transfers that cover the GPU pages before a window, and those up to its end.\<close>

lemma window_transfers:
  assumes "list_all transfer_ok xs" "plains_of xs = g1 @ g2 @ g3" "i \<le> j" "j \<le> length xs"
    and "length (ciphers_of (take i xs)) = length g1" "length (ciphers_of (take j xs)) = length g1 + length g2"
    and "read_mem m ga (length (g1 @ g2 @ g3)) = ciphers_of xs" "read_mem m ma (length xs * META_SIZE) = metas_of xs"
  defines "ys \<equiv> drop i (take j xs)"
  shows "plains_of ys = g2" "read_mem m (ga + length g1) (length g2) = ciphers_of ys" "read_mem m (ma + i * META_SIZE) ((j - i) * META_SIZE) = metas_of ys"
proof -
  have xs: "xs = take i xs @ ys @ drop j xs" unfolding ys_def by (rule take_drop_split [OF assms(3)])
  have ok: "list_all transfer_ok (take i xs)" "list_all transfer_ok ys" "list_all transfer_ok (take j xs)"
    using assms(1) unfolding ys_def by (auto simp: list_all_iff dest!: in_set_takeD in_set_dropD)
  have tj: "take j xs = take i xs @ ys" unfolding ys_def using assms(3) by (metis append_take_drop_id min.absorb1 take_take)
  have l: "length (plains_of (take i xs)) = length g1" "length (plains_of ys) = length g2" "length (ciphers_of ys) = length g2"
    using length_plains_of [OF ok(1)] length_plains_of [OF ok(2)] assms(5,6) unfolding tj by simp_all
  have "plains_of (take i xs) @ plains_of ys @ plains_of (drop j xs) = g1 @ g2 @ g3"
    using assms(2) xs by (metis (no_types, lifting) concat_append map_append)
  then show "plains_of ys = g2" using l(1,2) by (simp add: append_eq_append_conv)
  have c: "ciphers_of xs = ciphers_of (take i xs) @ ciphers_of ys @ ciphers_of (drop j xs)"
    using xs by (metis (no_types, lifting) concat_append map_append)
  have "length (g1 @ g2 @ g3) = length (ciphers_of xs)" using assms(7) by (metis length_read_mem)
  then have "read_mem m ga (length (ciphers_of (take i xs) @ ciphers_of ys @ ciphers_of (drop j xs))) = ciphers_of (take i xs) @ ciphers_of ys @ ciphers_of (drop j xs)"
    using assms(7) unfolding c by metis
  from read_mem_slice [OF this] show "read_mem m (ga + length g1) (length g2) = ciphers_of ys" using l(3) assms(5) by simp
  have e: "metas_of xs = metas_of (take i xs) @ metas_of ys @ metas_of (drop j xs)"
    using xs by (metis (no_types, lifting) concat_append map_append)
  have lm: "length (metas_of (take i xs)) = i * META_SIZE" "length (metas_of ys) = (j - i) * META_SIZE"
    using length_metas_of [OF ok(1)] length_metas_of [OF ok(2)] assms(3,4) by (simp_all add: ys_def)
  have "length (metas_of xs) = length xs * META_SIZE" by (rule length_metas_of [OF assms(1)])
  then have "read_mem m ma (length (metas_of (take i xs) @ metas_of ys @ metas_of (drop j xs))) = metas_of (take i xs) @ metas_of ys @ metas_of (drop j xs)"
    using assms(8) unfolding e by metis
  from read_mem_slice [OF this] show "read_mem m (ma + i * META_SIZE) ((j - i) * META_SIZE) = metas_of ys" unfolding lm .
qed

lemma sections_append: "cpu_section (V @ W) = cpu_section V @ cpu_section W" "gpu_section env G (V @ W) = gpu_section env G V @ gpu_section env G W"
  by (simp_all add: cpu_section_def gpu_section_def gpu_phys_list_def)

lemma window_sealed:
  assumes "read_holds env vss d b base span m nm" "moment_ok env vss" "base + span < 2 ^ 64"
    and "read_mem m (eb_resmap b) (span div PAGE_SIZE) = A @ rm @ C" "rm \<noteq> []" "d \<longrightarrow> 2 \<notin> set rm"
    and "r = (base + length A * PAGE_SIZE, length rm * PAGE_SIZE)" "find_va_space vss (fst r) 0 = find_va_space vss base 0"
    and "i \<le> j" "j \<le> nm" "meta_sum (\<lambda>i. cm_size (entry_at m (eb_crypto_meta b) i)) i = PAGE_SIZE * count_list A 1"
    and "meta_sum (\<lambda>i. cm_size (entry_at m (eb_crypto_meta b) i)) j = PAGE_SIZE * count_list A 1 + PAGE_SIZE * count_list rm 1"
    and "env_csl_decrypt (er_driver E) = env_csl_decrypt env"
  shows "v3_sealed E key (window_cap b m base A rm i j) (plain_cap env vss r)"
proof -
  let ?c = "window_cap b m base A rm i j" and ?p = "plain_cap env vss r"
  define G where "G = request_gpu vss base zero_uuid"
  define V where "V = request_visits d vss base span"
  define W where "W = request_visits False vss (fst r) (snd r)"
  have mo: "vss_ok vss" "csl_ok env" "csl_shape env" using assms(2) by (simp_all add: moment_ok_def)
  obtain cfg where h: "request_ok vss base span 0" "A @ rm @ C = request_resmap d vss base span zero_uuid"
      "read_mem m (eb_cpu_buf b) (length (cpu_section V)) = cpu_section V" "nm = length (cc_runs cfg)"
      "\<forall>r \<in> set (cc_runs cfg). 0 < snd r \<and> snd r \<le> UVM_CONF_COMPUTING_DMA_BUFFER_SIZE" "plains env cfg nm = gpu_section env G V"
      "read_mem m (eb_gpu_buf b) (length (gpu_section env G V)) = ciphers env cfg nm" "read_mem m (eb_crypto_meta b) (nm * META_SIZE) = all_meta env cfg"
    using assms(1) unfolding read_holds_def Let_def assms(4) V_def G_def by blast
  have r: "fst r = base + length A * PAGE_SIZE" "snd r = length rm * PAGE_SIZE" by (simp_all add: assms(7))
  obtain V1 V3 where v: "V = V1 @ W @ V3" "resmap_of G base 0 A V1" "request_ok vss (fst r) (snd r) 0" "resmap_of G (fst r) 0 rm W"
    using window_visits [OF mo(1) h(1) assms(3) h(2) [symmetric] assms(5,6) r assms(8)] unfolding V_def G_def W_def by blast
  have sp: "span = (length A + length rm + length C) * PAGE_SIZE"
  proof -
    have "length (A @ rm @ C) = span div PAGE_SIZE" by (subst h(2)) simp
    moreover have "span = span div PAGE_SIZE * PAGE_SIZE" using h(1) by (auto simp: request_ok_def mod_eq_0_iff_dvd)
    ultimately show ?thesis by (metis add.assoc length_append)
  qed
  have e64: "fst r + snd r < 2 ^ 64" using assms(3) unfolding r sp by (simp add: add_mult_distrib)
  have G': "request_gpu vss (fst r) zero_uuid = G" using assms(8) by (simp add: G_def request_gpu_def)
  have rm: "request_resmap False vss (fst r) (snd r) zero_uuid = rm"
    by (rule resmap_of_unique [OF request_resmap_of [OF v(3), of zero_uuid False, unfolded G', folded W_def] v(4)]) (simp add: r)
  have p: "?p = \<lparr>rc_base = fst r, rc_length = snd r, rc_n_pages = length rm, rc_cpu_bytes = length (cpu_section W), rc_gpu_bytes = length (gpu_section env G W),
      rc_enc_count = 0, rc_resmap = rm, rc_cpu_buf = cpu_section W, rc_gpu_buf = gpu_section env G W, rc_crypto_meta = None\<rparr>"
    by (simp add: plain_cap_def Let_def rm G' W_def [symmetric]) (simp add: r)
  note n1 = count_resmap [OF v(2), of env] and n2 = count_resmap [OF v(4), of env]
  let ?g1 = "gpu_section env G V1" and ?g2 = "gpu_section env G W" and ?g3 = "gpu_section env G V3" and ?xs = "run_transfers env cfg"
  have k1: "list_all (k1_transfer (er_driver E)) ?xs" by (rule run_transfers_k1 [OF mo(2,3) assms(13) h(5)])
  note ok = k_transfers_ok(1) [OF k1] and xp = run_transfers_parts [of env cfg, folded h(4)]
  have lx: "length ?xs = nm" by (simp add: run_transfers_def h(4))
  have gs: "gpu_section env G V = ?g1 @ ?g2 @ ?g3" by (simp add: v(1) sections_append)
  have me: "read_mem m (eb_crypto_meta b) (length ?xs * META_SIZE) = metas_of ?xs" using h(8) by (simp add: lx xp)
  have ij: "i \<le> length ?xs" "j \<le> length ?xs" using assms(9,10) lx by simp_all
  have cl: "length (ciphers_of (take i ?xs)) = length ?g1" "length (ciphers_of (take j ?xs)) = length ?g1 + length ?g2"
    using meta_sum_ciphers [OF ok me ij(1)] meta_sum_ciphers [OF ok me ij(2)] assms(11,12) n1 n2 by simp_all
  have pl: "plains_of ?xs = ?g1 @ ?g2 @ ?g3" using h(6) by (simp add: xp gs)
  have ci: "read_mem m (eb_gpu_buf b) (length (?g1 @ ?g2 @ ?g3)) = ciphers_of ?xs" using h(7) unfolding gs xp(2) .
  define ys where "ys = drop i (take j ?xs)"
  note w = window_transfers [OF ok pl assms(9) ij(2) cl ci me, folded ys_def]
  have k1y: "list_all (k1_transfer (er_driver E)) ys" using k1 unfolding ys_def by (auto simp: list_all_iff dest!: in_set_takeD in_set_dropD)
  have cs: "read_mem m (eb_cpu_buf b + length (cpu_section V1)) (length (cpu_section W)) = cpu_section W"
    by (rule read_mem_slice [of _ _ _ _ "cpu_section V3"]) (use h(3) in \<open>simp only: v(1) sections_append\<close>)
  have l: "length (ciphers_of ys) = PAGE_SIZE * count_list rm 1" "length (metas_of ys) = (j - i) * META_SIZE"
    using arg_cong [OF w(2), of length] arg_cong [OF w(3), of length] n2 by simp_all
  have "cap_meta_bytes ?c = (j - i) * META_SIZE" by (simp add: window_cap_def cap_meta_bytes_def)
  then have cm: "cap_meta ?c = metas_of ys" using w(3) l(2) by (simp add: cap_meta_def) (simp add: window_cap_def)
  have cd: "gpu_part ?c = ciphers_of ys" "cpu_part ?c = cpu_section W"
    using w(2) cs n1 n2 l(1) by (simp_all add: window_cap_def)
  have cok: "cap_ok ?p" by (rule plain_cap_ok(1) [OF v(3) e64])
  have "cap_ok ?c"
    using assms(5) e64 by (simp add: cap_ok_def cap_wf_def cap_end_def window_cap_def r)
  moreover have "gpu_part ?p = plains_of ys" "cpu_part ?c = cpu_part ?p" using w(1) cd(2) by (simp_all add: p)
  then have "\<exists>xs zs. list_all (k1_transfer (er_driver E)) xs \<and> list_all (k3_transfer (er_crypto E) key) zs \<and>
      gpu_part ?c = ciphers_of xs \<and> gpu_part ?p = plains_of xs \<and> cap_meta ?c = metas_of (xs @ zs) \<and>
      (if zs = [] then cpu_part ?c = cpu_part ?p else cpu_part ?c = ciphers_of zs \<and> cpu_part ?p = plains_of zs)"
    by - (rule exI [of _ ys], rule exI [of _ "[]"], simp add: k1y cd(1) cm)
  moreover have "rc_base ?c = rc_base ?p" "rc_length ?c = rc_length ?p" "rc_cpu_bytes ?c = rc_cpu_bytes ?p" "rc_gpu_bytes ?c = rc_gpu_bytes ?p"
    "take (rc_n_pages ?c) (rc_resmap ?c) = take (rc_n_pages ?p) (rc_resmap ?p)"
    using n2 by (simp_all add: p window_cap_def r)
  ultimately show ?thesis using cok unfolding v3_sealed_def by blast
qed

section \<open>The slices of a baseline\<close>

text \<open>The va-space search finds the va space of the span at each page of the span.\<close>

definition one_space :: "va_space list \<Rightarrow> nat \<Rightarrow> nat \<Rightarrow> bool" where
  "one_space vss base span \<longleftrightarrow> list_all (\<lambda>x. find_va_space vss (snd x) 0 = find_va_space vss base 0) (request_visits False vss base span)"

lemma present_space:
  assumes "one_space vss base span" "request_ok vss base span 0" "k < span div PAGE_SIZE" "request_resmap d vss base span zero_uuid ! k \<noteq> 2"
  shows "find_va_space vss (base + k * PAGE_SIZE) 0 = find_va_space vss base 0"
proof -
  obtain x where "x \<in> set (request_visits d vss base span)" "snd x = base + k * PAGE_SIZE"
    using resmap_of_present [OF request_resmap_of [OF assms(2), of zero_uuid d], of k] assms(3,4) by auto
  moreover from this have "x \<in> set (request_visits False vss base span)" using dirty_visits_sub by blast
  ultimately show ?thesis using assms(1) by (auto simp: one_space_def list_all_iff)
qed

lemma count_replicate_1: "count_list (replicate n (1 :: byte)) 1 = n" "count_list (replicate n (1 :: byte)) 0 = 0"
  by (induction n) simp_all

lemma page_range: "a mod PAGE_SIZE = 0 \<Longrightarrow> b mod PAGE_SIZE = 0 \<Longrightarrow> a \<le> b \<Longrightarrow> a + (b - a) div PAGE_SIZE * PAGE_SIZE = b"
  by (auto simp: mod_eq_0_iff_dvd intro: dvd_diff_nat)

lemma slice_sealed:
  assumes "read_holds env vss False b base span m nm" "moment_ok env vss" "base + span < 2 ^ 64" "one_space vss base span"
    and "slice_ok (\<lambda>i. cm_size (entry_at m (eb_crypto_meta b) i)) nm (read_mem m (eb_resmap b) (span div PAGE_SIZE)) base r x"
    and "base \<le> fst r" "fst r mod PAGE_SIZE = 0" "snd r mod PAGE_SIZE = 0" "0 < snd r" "env_csl_decrypt (er_driver E) = env_csl_decrypt env"
  shows "v3_sealed E key (p3b_cap b m x) (plain_cap env vss r)"
proof -
  define rm where "rm = read_mem m (eb_resmap b) (span div PAGE_SIZE)"
  define n where "n = snd r div PAGE_SIZE"
  define p where "p = (fst r - base) div PAGE_SIZE"
  have rq: "request_ok vss base span 0" and rme: "rm = request_resmap False vss base span zero_uuid"
    using assms(1) by (simp_all add: read_holds_def Let_def rm_def)
  obtain i j off where s: "p + n \<le> length rm" "take n (drop p rm) = replicate n 1" "sl_gpu_off x = gpu_rank rm p" "sl_meta_idx x = i" "i \<le> j" "j \<le> nm"
      "meta_sum (\<lambda>i. cm_size (entry_at m (eb_crypto_meta b) i)) i = gpu_rank rm p" "meta_sum (\<lambda>i. cm_size (entry_at m (eb_crypto_meta b) i)) j = gpu_rank rm p + snd r"
      "sl_desc x = \<lparr>rd_base_va = fst r, rd_length = snd r, rd_num_pages = n, rd_data_offset = off, rd_resmap_size = n,
         rd_cpu_bytes = 0, rd_gpu_bytes = snd r, rd_crypto_meta_bytes = (j - i) * META_SIZE\<rparr>"
    using assms(5) unfolding slice_ok_def Let_def n_def [symmetric] p_def [symmetric] rm_def [symmetric] by metis
  have sz: "snd r = n * PAGE_SIZE" "0 < n" using assms(8,9) by (auto simp: n_def mod_eq_0_iff_dvd)
  have ba: "base mod PAGE_SIZE = 0" using rq by (simp add: request_ok_def)
  have fr: "fst r = base + p * PAGE_SIZE" unfolding p_def using page_range [OF ba assms(7,6)] by simp
  have lp: "length (take p rm) = p" using s(1) by simp
  have sp: "rm = take p rm @ replicate n 1 @ drop (p + n) rm"
    using s(2) by (metis append_take_drop_id drop_drop add.commute)
  have c: "p3b_cap b m x = window_cap b m base (take p rm) (replicate n 1) i j"
    using s(3,4) sz lp by (simp add: p3b_cap_def Let_def s(9) window_cap_def count_replicate_1 gpu_rank_def fr mult.commute [of PAGE_SIZE n] read_mem_def)
  have "rm ! p = 1" using arg_cong [OF s(2), of "\<lambda>l. l ! 0"] sz(2) s(1) by simp
  then have "find_va_space vss (fst r) 0 = find_va_space vss base 0"
    unfolding fr using s(1) sz(2) by (intro present_space [OF assms(4) rq, of p False]) (simp_all add: rme)
  moreover have "r = (base + length (take p rm) * PAGE_SIZE, length (replicate n (1::byte)) * PAGE_SIZE)" using fr sz lp by (simp add: prod_eq_iff)
  moreover have "read_mem m (eb_resmap b) (span div PAGE_SIZE) = take p rm @ replicate n 1 @ drop (p + n) rm" unfolding rm_def [symmetric] by (rule sp)
  ultimately show ?thesis
    unfolding c using s(5-8) sz assms(10)
    by (intro window_sealed [OF assms(1-3)]) (simp_all add: gpu_rank_def count_replicate_1 mult.commute [of PAGE_SIZE n])
qed

section \<open>The regions of a delta\<close>

text \<open>What a region is: a window of present pages and the entries that cover its GPU pages.\<close>

definition region_ok :: "(nat \<Rightarrow> nat) \<Rightarrow> nat \<Rightarrow> enc_bufs \<Rightarrow> mem \<Rightarrow> nat \<Rightarrow> byte list \<Rightarrow> range_capture \<Rightarrow> bool" where
  "region_ok sz nm b m base rm c \<longleftrightarrow> (\<exists>A run C i j. rm = A @ run @ C \<and> run \<noteq> [] \<and> 2 \<notin> set run \<and> i \<le> j \<and> j \<le> nm \<and>
     meta_sum sz i = PAGE_SIZE * count_list A 1 \<and> meta_sum sz j = PAGE_SIZE * count_list A 1 + PAGE_SIZE * count_list run 1 \<and>
     c = window_cap b m base A run i j)"

lemma run_counts:
  assumes "set run \<subseteq> {0, 1 :: byte}"
  shows "length (filter (\<lambda>x. x = 0) run) = count_list run 0" "length (filter (\<lambda>x. x \<noteq> 0) run) = count_list run 1"
  using assms by (induction run) auto

lemma region_window:
  assumes "set run \<subseteq> {0, 1}"
  shows "p3b_region b m base run (length A) (PAGE_SIZE * count_list A 0) (PAGE_SIZE * count_list A 1) i j = window_cap b m base A run i j"
  by (simp add: p3b_region_def Let_def window_cap_def run_counts [OF assms])

lemma p3b_regions_ok:
  assumes "p3b_regions sz nm b m base rm (length A) (PAGE_SIZE * count_list A 0) (PAGE_SIZE * count_list A 1) mi (meta_sum sz mi) = Some cs"
    and "mi \<le> nm" "set rm \<subseteq> {0, 1, 2}"
  shows "length cs \<le> length rm \<and> list_all (region_ok sz nm b m base (A @ rm)) cs \<and>
    (\<forall>k < length rm. rm ! k \<noteq> 2 \<longrightarrow> (\<exists>c \<in> set cs. rc_base c \<le> base + (length A + k) * PAGE_SIZE \<and> base + (length A + k) * PAGE_SIZE < rc_base c + rc_length c))"
  using assms
proof (induction "length rm" arbitrary: rm A mi cs rule: less_induct)
  case less
  show ?case
  proof (cases rm)
    case Nil
    then show ?thesis using less.prems(1) by simp
  next
    case (Cons r rest)
    show ?thesis
    proof (cases "r = 2")
      case True
      have "p3b_regions sz nm b m base rest (length (A @ [2])) (PAGE_SIZE * count_list (A @ [2]) 0) (PAGE_SIZE * count_list (A @ [2]) 1) mi (meta_sum sz mi) = Some cs"
        using less.prems(1) Cons True by simp
      from less.hyps [OF _ this less.prems(2)] less.prems(3) have ih: "length cs \<le> length rest" "list_all (region_ok sz nm b m base ((A @ [2]) @ rest)) cs"
        "\<And>k. k < length rest \<Longrightarrow> rest ! k \<noteq> 2 \<Longrightarrow> \<exists>c \<in> set cs. rc_base c \<le> base + (length (A @ [2 :: byte]) + k) * PAGE_SIZE \<and> base + (length (A @ [2 :: byte]) + k) * PAGE_SIZE < rc_base c + rc_length c"
        using Cons by auto
      have "\<exists>c \<in> set cs. rc_base c \<le> base + (length A + k) * PAGE_SIZE \<and> base + (length A + k) * PAGE_SIZE < rc_base c + rc_length c"
        if "k < length rm" "rm ! k \<noteq> 2" for k
        using ih(3) [of "k - 1"] that Cons True by (cases k) simp_all
      then show ?thesis using ih(1,2) Cons True by simp
    next
      case False
      define run where "run = takeWhile (\<lambda>x. x \<noteq> 2) rm"
      define tail where "tail = dropWhile (\<lambda>x. x \<noteq> 2) rm"
      have rm: "rm = run @ tail" by (simp add: run_def tail_def)
      have r2: "2 \<notin> set run" unfolding run_def by (auto dest: set_takeWhileD)
      then have run01: "set run \<subseteq> {0, 1}" using less.prems(3) rm by auto
      have ne: "run \<noteq> []" using Cons False by (simp add: run_def)
      let ?go = "PAGE_SIZE * count_list A 1"
      obtain mj mb where tk: "take_metas sz (nm - mi) mi (meta_sum sz mi) (?go + PAGE_SIZE * count_list run 1) = (mj, mb)" by fastforce
      have td: "dropWhile (\<lambda>x. x \<noteq> 2) rest = tail" "takeWhile (\<lambda>x. x \<noteq> 2) (r # rest) = run" using Cons False by (simp_all add: tail_def run_def)
      obtain cs' where e: "meta_sum sz mi = ?go" "mb = ?go + PAGE_SIZE * count_list run 1"
          "p3b_regions sz nm b m base tail (length A + length run) (PAGE_SIZE * count_list A 0 + PAGE_SIZE * count_list run 0) (?go + PAGE_SIZE * count_list run 1) mj mb = Some cs'"
          "cs = p3b_region b m base run (length A) (PAGE_SIZE * count_list A 0) ?go mi mj # cs'"
        using less.prems(1) False
        unfolding Cons p3b_regions.simps Let_def td run_counts [OF run01] tk fst_conv snd_conv by (auto split: if_splits option.splits)
      have k: "mi \<le> mj" "mj \<le> nm" "mb = meta_sum sz mj" using take_metas_sum [OF tk] less.prems(2) by simp_all
      have "length tail < length rm" using ne by (simp add: rm)
      moreover have "p3b_regions sz nm b m base tail (length (A @ run)) (PAGE_SIZE * count_list (A @ run) 0) (PAGE_SIZE * count_list (A @ run) 1) mj (meta_sum sz mj) = Some cs'"
        using e(3) k(3) by (simp add: add_mult_distrib2)
      moreover have "set tail \<subseteq> {0, 1, 2}" using less.prems(3) rm by auto
      ultimately have ih: "length cs' \<le> length tail" "list_all (region_ok sz nm b m base ((A @ run) @ tail)) cs'"
          "\<And>k. k < length tail \<Longrightarrow> tail ! k \<noteq> 2 \<Longrightarrow> \<exists>c \<in> set cs'. rc_base c \<le> base + (length (A @ run) + k) * PAGE_SIZE \<and> base + (length (A @ run) + k) * PAGE_SIZE < rc_base c + rc_length c"
        using less.hyps [of tail "A @ run" mj cs'] k(2) by auto
      have c: "p3b_region b m base run (length A) (PAGE_SIZE * count_list A 0) ?go mi mj = window_cap b m base A run mi mj" by (rule region_window [OF run01])
      have "region_ok sz nm b m base (A @ rm) (window_cap b m base A run mi mj)"
        unfolding region_ok_def using r2 ne k e(1,2)
        by (intro exI [of _ A] exI [of _ run] exI [of _ tail] exI [of _ mi] exI [of _ mj]) (simp add: rm)
      moreover have "\<exists>c \<in> set cs. rc_base c \<le> base + (length A + k) * PAGE_SIZE \<and> base + (length A + k) * PAGE_SIZE < rc_base c + rc_length c"
        if kk: "k < length rm" "rm ! k \<noteq> 2" for k
      proof (cases "k < length run")
        case True
        then have "(length A + k) * PAGE_SIZE < (length A + length run) * PAGE_SIZE" by simp
        then show ?thesis unfolding e(4) c by (intro bexI [of _ "window_cap b m base A run mi mj"]) (simp_all add: window_cap_def add_mult_distrib)
      next
        case False
        then show ?thesis using ih(3) [of "k - length run"] kk unfolding e(4) by (auto simp: rm nth_append)
      qed
      ultimately show ?thesis using ih(1,2) ne unfolding e(4) c by (cases run) (auto simp: rm)
    qed
  qed
qed

end
