(* ===== verification/Coalesced_Checkpoint.thy ===== *)
theory Coalesced_Checkpoint
  imports Coalesced_Slices
begin

text \<open>
  The coalesced checkpoint: a baseline cut out of one read of the span of all ranges, a delta cut out of one read
  of its dirty blocks, and the restore of the two images.
\<close>

section \<open>One call\<close>

text \<open>The interval read: from the first range to the end of the last one, in address order.\<close>

definition coal_base :: "coal_env \<Rightarrow> (nat \<times> nat) list \<Rightarrow> nat" where
  "coal_base co ranges = fst (hd (co_qsort co ranges))"

definition coal_span :: "coal_env \<Rightarrow> (nat \<times> nat) list \<Rightarrow> nat" where
  "coal_span co ranges = (let allocs = co_qsort co ranges in fst (last allocs) + snd (last allocs) - fst (hd allocs))"

text \<open>
  A call whose ranges are disjoint and made of pages, in one va space, whose CPU pages have room in their buffer; the
  buffers are apart, the sort sorts, and the image is written by threads scheduled somehow.
\<close>

definition coal_ok :: "coal_env \<Rightarrow> va_space list \<Rightarrow> bool \<Rightarrow> (nat \<times> nat) list \<Rightarrow> bool" where
  "coal_ok co vss dirty ranges \<longleftrightarrow>
     (let base = coal_base co ranges; span = coal_span co ranges
      in mset (co_qsort co ranges) = mset ranges \<and> sorted (map fst (co_qsort co ranges)) \<and> ranges_disjoint ranges \<and>
         list_all (\<lambda>r. fst r mod PAGE_SIZE = 0 \<and> snd r mod PAGE_SIZE = 0 \<and> 0 < snd r \<and> fst r + snd r < 2 ^ 64) ranges \<and>
         list_all (\<lambda>r. find_va_space vss (fst r) 0 = find_va_space vss base 0) ranges \<and> one_space vss base span \<and> length (cpu_section (request_visits dirty vss base span)) \<le> P3B_CPU_BUF_CAP \<and>
         (\<forall>b. co_bufs co = Some b \<longrightarrow> enc_areas_ok P3B_CPU_BUF_CAP span b) \<and>
         \<not> io_no_image_write (co_io co) \<and> (\<forall>ws. io_sched (co_io co) ws \<in> interleave ws))"

lemma coal_ok_span:
  assumes "coal_ok co vss dirty ranges" "ranges \<noteq> []"
  shows "ranges_ordered (co_qsort co ranges)" "set (co_qsort co ranges) = set ranges" "length (co_qsort co ranges) = length ranges"
    and "r \<in> set ranges \<Longrightarrow> coal_base co ranges \<le> fst r \<and> fst r + snd r \<le> coal_base co ranges + coal_span co ranges"
    and "coal_base co ranges + coal_span co ranges < 2 ^ 64" "coal_base co ranges mod PAGE_SIZE = 0"
proof -
  define as where "as = co_qsort co ranges"
  have o: "mset as = mset ranges" "sorted (map fst as)" "ranges_disjoint ranges"
    "\<forall>r \<in> set ranges. fst r mod PAGE_SIZE = 0 \<and> snd r mod PAGE_SIZE = 0 \<and> 0 < snd r \<and> fst r + snd r < 2 ^ 64"
    using assms(1) by (simp_all add: coal_ok_def Let_def as_def list_all_iff)
  show st: "set (co_qsort co ranges) = set ranges" and ln: "length (co_qsort co ranges) = length ranges"
    using o(1) mset_eq_setD mset_eq_length unfolding as_def by blast+
  note st = st [folded as_def] and ln = ln [folded as_def]
  have di: "distinct ranges"
    unfolding distinct_conv_nth
  proof (intro allI impI)
    fix i j assume "i < length ranges" "j < length ranges" "i \<noteq> j"
    then show "ranges ! i \<noteq> ranges ! j" using ranges_disjoint_nth [OF o(3), of i j] o(4) nth_mem by fastforce
  qed
  then have da: "distinct as" using o(1) mset_eq_imp_distinct_iff by blast
  have ord: "fst (as ! i) + snd (as ! i) \<le> fst (as ! j)" if ij: "i < j" "j < length as" for i j
  proof -
    have m: "as ! i \<in> set ranges" "as ! j \<in> set ranges" using ij nth_mem [of i as] nth_mem [of j as] st by auto
    have "fst (as ! i) \<le> fst (as ! j)" using o(2) ij by (simp add: sorted_iff_nth_mono)
    moreover have ne: "as ! i \<noteq> as ! j" using da ij by (simp add: nth_eq_iff_index_eq)
    moreover have "0 < snd (as ! j)" using o(4) m(2) by blast
    moreover obtain k where k: "k < length ranges" "ranges ! k = as ! i" using m(1) unfolding in_set_conv_nth by (elim exE conjE)
    moreover obtain l where l: "l < length ranges" "ranges ! l = as ! j" using m(2) unfolding in_set_conv_nth by (elim exE conjE)
    moreover have "k \<noteq> l" using ne k(2) l(2) by auto
    ultimately show ?thesis using ranges_disjoint_nth [OF o(3) k(1) l(1)] unfolding k(2) l(2) by linarith
  qed
  then show "ranges_ordered (co_qsort co ranges)" unfolding ranges_ordered_def as_def [symmetric] sorted_wrt_iff_nth_less by blast
  have ne: "as \<noteq> []" using assms(2) st by auto
  have h: "hd as = as ! 0" "last as = as ! (length as - 1)" using ne by (simp_all add: hd_conv_nth last_conv_nth)
  have lm: "last as \<in> set ranges" "hd as \<in> set ranges" using last_in_set [OF ne] hd_in_set [OF ne] unfolding st by blast+
  have le: "fst (hd as) \<le> fst (as ! i) \<and> fst (as ! i) + snd (as ! i) \<le> fst (last as) + snd (last as)" if "i < length as" for i
  proof -
    have "i = 0 \<or> fst (as ! 0) + snd (as ! 0) \<le> fst (as ! i)" using ord [of 0 i] that by auto
    moreover have "i = length as - 1 \<or> fst (as ! i) + snd (as ! i) \<le> fst (as ! (length as - 1))" using ord [of i "length as - 1"] that by linarith
    ultimately show ?thesis unfolding h by auto
  qed
  have sp: "coal_base co ranges = fst (hd as)" "coal_base co ranges + coal_span co ranges = fst (last as) + snd (last as)"
    using le [of "length as - 1"] ne h(2) by (simp_all add: coal_base_def coal_span_def as_def [symmetric] Let_def)
  show "coal_base co ranges \<le> fst r \<and> fst r + snd r \<le> coal_base co ranges + coal_span co ranges" if r: "r \<in> set ranges"
  proof -
    have "r \<in> set as" using r unfolding st .
    then obtain i where "i < length as" "as ! i = r" unfolding in_set_conv_nth by (elim exE conjE)
    then show ?thesis using le [of i] unfolding sp(2) unfolding sp(1) by blast
  qed
  show "coal_base co ranges + coal_span co ranges < 2 ^ 64" "coal_base co ranges mod PAGE_SIZE = 0" 
    using bspec [OF o(4) lm(1)] bspec [OF o(4) lm(2)] unfolding sp(2) unfolding sp(1) by blast+
qed

lemma coalesced_cases:
  assumes "capture_and_write_coalesced co env vss thr dirty track ranges m old = Some (True, f)"
  defines "as \<equiv> co_qsort co ranges" and "base \<equiv> coal_base co ranges" and "span \<equiv> coal_span co ranges"
  obtains b where "ranges \<noteq> []" "co_bufs co = Some b" "rr_status (coalesced_read env vss thr dirty track b base span m) = NV_OK"
    and "let res = coalesced_read env vss thr dirty track b base span m; m1 = rr_mem res; rm = read_mem m1 (eb_resmap b) (span div 4096);
             nm = the (rr_num_transfers res); msz = (\<lambda>i. cm_size (entry_at m1 (eb_crypto_meta b) i))
         in if dirty then \<exists>caps. p3b_regions msz nm b m1 base rm 0 0 0 0 0 = Some caps \<and>
              write_delta_parallel (co_io co) caps base span (length (filter (\<lambda>x. x \<noteq> 2) rm)) old = (True, f)
            else \<exists>ss. p3b_walk msz nm rm base as \<lparr>ps_cursor = 0, ps_gpu = 0, ps_meta = 0, ps_acc = 0, ps_off = V2_HDR_SIZE + length as * DESC_SIZE\<rparr> = Done ss \<and>
              write_coalesced (co_io co) b m1 as ss old = (True, f)"
proof -
  have sp: "fst (hd as) = base" "fst (last as) + snd (last as) - base = span"
    by (simp_all add: span_def base_def coal_span_def coal_base_def as_def Let_def)
  obtain b sz where b: "co_calloc co" "ranges \<noteq> []" "co_bufs co = Some b" "co_shm co = Some sz" "\<not> (sz < span \<or> \<not> co_map co)"
    using assms(1) unfolding capture_and_write_coalesced_def Let_def as_def [symmetric] sp(1) unfolding sp(2) by (auto split: if_splits option.splits)
  have c: "\<not> (\<not> co_calloc co)" using b(1) by simp
  note e = assms(1) [unfolded capture_and_write_coalesced_def Let_def as_def [symmetric] sp(1), unfolded sp(2) if_not_P [OF c] if_not_P [OF b(2)] b(3,4) option.case if_not_P [OF b(5)]]
  show thesis
    by (rule that [OF b(2,3)]) (use e in \<open>auto simp: Let_def split: if_splits option.splits outcome.splits\<close>)
qed

lemma slice_fields:
  assumes "list_all2 (slice_ok sz nm rm base) rs ss"
  shows "map (\<lambda>s. rd_length (sl_desc s)) ss = map snd rs" "\<forall>s \<in> set ss. rd_gpu_bytes (sl_desc s) = rd_length (sl_desc s)"
  using assms by (induction rule: list_all2_induct) (auto simp: slice_ok_def Let_def)

lemma coalesced_dense:
  assumes "capture_and_write_coalesced co env vss thr False False ranges m old = Some (True, f)" "moment_ok env vss" "coal_ok co vss False ranges"
    and "env_csl_decrypt (er_driver E) = env_csl_decrypt env"
  shows "\<exists>cs. list_all2 (v3_sealed E key) cs (map (plain_cap env vss) (co_qsort co ranges)) \<and> (\<forall>c \<in> set cs. rc_gpu_bytes c = rc_length c) \<and>
    take (length (base_image cs 3)) (file_list f) = base_image cs 3"
proof -
  define as where "as = co_qsort co ranges"
  define base where "base = coal_base co ranges"
  define span where "span = coal_span co ranges"
  obtain b where b: "ranges \<noteq> []" "co_bufs co = Some b" "rr_status (coalesced_read env vss thr False False b base span m) = NV_OK"
    and rest: "let res = coalesced_read env vss thr False False b base span m; m1 = rr_mem res; rm = read_mem m1 (eb_resmap b) (span div 4096);
             nm = the (rr_num_transfers res); msz = (\<lambda>i. cm_size (entry_at m1 (eb_crypto_meta b) i))
         in if False then \<exists>caps. p3b_regions msz nm b m1 base rm 0 0 0 0 0 = Some caps \<and>
              write_delta_parallel (co_io co) caps base span (length (filter (\<lambda>x. x \<noteq> 2) rm)) old = (True, f)
            else \<exists>ss. p3b_walk msz nm rm base as \<lparr>ps_cursor = 0, ps_gpu = 0, ps_meta = 0, ps_acc = 0, ps_off = V2_HDR_SIZE + length as * DESC_SIZE\<rparr> = Done ss \<and>
              write_coalesced (co_io co) b m1 as ss old = (True, f)"
    unfolding as_def base_def span_def by (rule coalesced_cases [OF assms(1)])
  define res where "res = coalesced_read env vss thr False False b base span m"
  define m1 where "m1 = rr_mem res"
  define nm where "nm = the (rr_num_transfers res)"
  define msz where "msz = (\<lambda>i. cm_size (entry_at m1 (eb_crypto_meta b) i))"
  define rm where "rm = read_mem m1 (eb_resmap b) (span div 4096)"
  define st where "st = \<lparr>ps_cursor = 0, ps_gpu = 0, ps_meta = 0, ps_acc = 0, ps_off = V2_HDR_SIZE + length as * DESC_SIZE\<rparr>"
  obtain ss where w: "p3b_walk msz nm rm base as st = Done ss" "write_coalesced (co_io co) b m1 as ss old = (True, f)"
    using rest unfolding Let_def res_def [symmetric] m1_def [symmetric] nm_def [symmetric] msz_def [symmetric] rm_def [symmetric] st_def [symmetric] if_False by blast
  note sp = coal_ok_span [OF assms(3) b(1), folded as_def base_def span_def]
  have ok: "one_space vss base span" "length (cpu_section (request_visits False vss base span)) \<le> P3B_CPU_BUF_CAP" "enc_areas_ok P3B_CPU_BUF_CAP span b"
    "\<not> io_no_image_write (co_io co)" "\<forall>ws. io_sched (co_io co) ws \<in> interleave ws"
    "\<And>r. r \<in> set as \<Longrightarrow> fst r mod PAGE_SIZE = 0 \<and> snd r mod PAGE_SIZE = 0 \<and> 0 < snd r"
    using assms(3) b(2) sp(2) by (simp_all add: coal_ok_def Let_def list_all_iff base_def span_def)
  have rh: "read_holds env vss False b base span m1 nm"
    unfolding m1_def nm_def res_def by (rule coalesced_read_holds [OF b(3) _ assms(2) ok(3,2)]) simp
  have so: "state_ok msz nm rm st" by (simp add: state_ok_def st_def gpu_rank_def)
  have rg: "\<forall>r \<in> set as. base \<le> fst r \<and> ps_cursor st \<le> (fst r - base) div 4096 \<and> 4096 dvd snd r"
    using sp(2,4) ok(6) by (auto simp: st_def mod_eq_0_iff_dvd)
  note pw = p3b_walk_ok [OF w(1) so sp(1) rg]
  let ?cs = "map (p3b_cap b m1) ss"
  have "v3_sealed E key (p3b_cap b m1 x) (plain_cap env vss r)" if "slice_ok msz nm rm base r x" "r \<in> set as" for r x
    by (rule slice_sealed [OF rh assms(2) sp(5) ok(1) that(1) [unfolded msz_def rm_def] _ _ _ _ assms(4)]) (use sp(2,4) ok(6) that(2) in auto)
  then have "list_all2 (v3_sealed E key) ?cs (map (plain_cap env vss) as)"
    using pw(1) by (auto simp: list_all2_conv_all_nth)
  moreover have "take (length (base_image ?cs 3)) (file_list f) = base_image ?cs 3"
    by (rule write_coalesced_success [OF w(2) ok(4,5)])
      (use pw(2) [of b m1] list_all2_lengthD [OF pw(1)] slice_fields [OF pw(1)] in \<open>simp_all add: st_def\<close>)
  moreover have "\<forall>c \<in> set ?cs. rc_gpu_bytes c = rc_length c" using slice_fields(2) [OF pw(1)] by (simp add: p3b_cap_parts)
  ultimately show ?thesis unfolding as_def [symmetric] by (intro exI [of _ ?cs]) simp
qed

lemma resmap_of_values: "resmap_of G base p rm V \<Longrightarrow> set rm \<subseteq> {0, 1, 2}"
  by (induction G base p rm V rule: resmap_of.induct) (auto simp: visit_class_def split: if_splits)

abbreviation cap_range :: "range_capture \<Rightarrow> nat \<times> nat" where
  "cap_range c \<equiv> (rc_base c, rc_length c)"

text \<open>What the regions of a delta have to do with the pages of the dirty blocks.\<close>

definition regions_exact :: "va_space list \<Rightarrow> nat \<Rightarrow> nat \<Rightarrow> (nat \<times> nat) list \<Rightarrow> bool" where
  "regions_exact vss base span ds \<longleftrightarrow>
     (let P = {x \<in> set (request_visits True vss base span). visit_resident (request_gpu vss base zero_uuid) x}
      in (\<Union>x \<in> P. {snd x ..< snd x + PAGE_SIZE}) = (\<Union>d \<in> set ds. {fst d ..< fst d + snd d}))"

lemma region_facts:
  assumes "read_holds env vss True b base span m nm" "moment_ok env vss" "base + span < 2 ^ 64" "one_space vss base span"
    and "region_ok (\<lambda>i. cm_size (entry_at m (eb_crypto_meta b) i)) nm b m base (read_mem m (eb_resmap b) (span div PAGE_SIZE)) c"
    and "env_csl_decrypt (er_driver E) = env_csl_decrypt env"
  shows "v3_sealed E key c (plain_cap env vss (cap_range c))" "find_va_space vss (rc_base c) 0 = find_va_space vss base 0"
    and "base \<le> rc_base c" "rc_base c + rc_length c \<le> base + span" "rc_base c mod PAGE_SIZE = 0" "0 < rc_length c" "rc_length c mod PAGE_SIZE = 0"
    and "rc_base c \<le> a \<Longrightarrow> a < rc_base c + rc_length c \<Longrightarrow>
      \<exists>x \<in> set (request_visits True vss base span). visit_resident (request_gpu vss base zero_uuid) x \<and> snd x \<le> a \<and> a < snd x + PAGE_SIZE"
proof -
  define rm where "rm = read_mem m (eb_resmap b) (span div PAGE_SIZE)"
  have rq: "request_ok vss base span 0" and rme: "rm = request_resmap True vss base span zero_uuid"
    using assms(1) by (simp_all add: read_holds_def Let_def rm_def)
  obtain A run C i j where r: "rm = A @ run @ C" "run \<noteq> []" "2 \<notin> set run" "i \<le> j" "j \<le> nm"
      "meta_sum (\<lambda>i. cm_size (entry_at m (eb_crypto_meta b) i)) i = PAGE_SIZE * count_list A 1"
      "meta_sum (\<lambda>i. cm_size (entry_at m (eb_crypto_meta b) i)) j = PAGE_SIZE * count_list A 1 + PAGE_SIZE * count_list run 1"
      "c = window_cap b m base A run i j"
    using assms(5) unfolding region_ok_def rm_def [symmetric] by blast
  have cr: "cap_range c = (base + length A * PAGE_SIZE, length run * PAGE_SIZE)" by (simp add: r(8) window_cap_def)
  have ba: "base mod PAGE_SIZE = 0" "span mod PAGE_SIZE = 0" using rq by (simp_all add: request_ok_def)
  have len: "length A + length run + length C = span div PAGE_SIZE" using arg_cong [OF r(1), of length] by (simp add: rm_def)
  moreover have "span = span div PAGE_SIZE * PAGE_SIZE" using ba(2) by (simp add: mod_eq_0_iff_dvd)
  ultimately have sp: "span = (length A + length run + length C) * PAGE_SIZE" by metis
  show "base \<le> rc_base c" "rc_base c + rc_length c \<le> base + span" "rc_base c mod PAGE_SIZE = 0" "0 < rc_length c" "rc_length c mod PAGE_SIZE = 0"
    using cr ba(1) r(2) by (auto simp: sp add_mult_distrib mod_eq_0_iff_dvd)
  have pres: "rm ! (length A + k) \<noteq> 2" if "k < length run" for k
  proof -
    have "rm ! (length A + k) = run ! k" using that by (simp add: r(1) nth_append)
    then show ?thesis using r(3) nth_mem [OF that] by metis
  qed
  have "0 < length run" using r(2) by simp
  then have "length A < span div PAGE_SIZE" using len by linarith
  then have f: "find_va_space vss (base + length A * PAGE_SIZE) 0 = find_va_space vss base 0"
    by (rule present_space [OF assms(4) rq, of _ True]) (use pres [of 0] r(2) in \<open>simp add: rme\<close>)
  then show fs: "find_va_space vss (rc_base c) 0 = find_va_space vss base 0" using cr by simp
  have "find_va_space vss (fst (cap_range c)) 0 = find_va_space vss base 0" using fs by simp
  from window_sealed [OF assms(1-3) r(1) [unfolded rm_def] r(2) _ cr this r(4-7) assms(6)] r(3)
  show "v3_sealed E key c (plain_cap env vss (cap_range c))" unfolding r(8) [symmetric] by simp
  assume a: "rc_base c \<le> a" "a < rc_base c + rc_length c"
  define k where "k = (a - (base + length A * PAGE_SIZE)) div PAGE_SIZE"
  have k: "k < length run" using a cr by (auto simp: k_def intro!: less_mult_imp_div_less)
  have ka: "base + (length A + k) * PAGE_SIZE \<le> a" "a < base + (length A + k) * PAGE_SIZE + PAGE_SIZE"
  proof -
    have "k * PAGE_SIZE \<le> a - (base + length A * PAGE_SIZE)" "a - (base + length A * PAGE_SIZE) < k * PAGE_SIZE + PAGE_SIZE"
      unfolding k_def using div_mult_mod_eq [of "a - (base + length A * PAGE_SIZE)" PAGE_SIZE] mod_less_divisor [of PAGE_SIZE "a - (base + length A * PAGE_SIZE)"] by linarith+
    then show "base + (length A + k) * PAGE_SIZE \<le> a" "a < base + (length A + k) * PAGE_SIZE + PAGE_SIZE" using a(1) cr by (simp_all add: add_mult_distrib)
  qed
  have "length A + k < length rm" using k by (simp add: r(1))
  from resmap_of_present [OF request_resmap_of [OF rq, of zero_uuid True, folded rme] this pres [OF k]]
  obtain x where x: "x \<in> set (request_visits True vss base span)" "snd x = base + (length A + k) * PAGE_SIZE" by auto
  have "page_slot base (snd x) = length A + k" unfolding x(2) by (simp add: page_slot_def)
  then have "visit_class (request_gpu vss base zero_uuid) x \<noteq> 2"
    using request_resmap_hit [OF rq x(1), of zero_uuid] pres [OF k] by (simp add: rme)
  then have "visit_resident (request_gpu vss base zero_uuid) x" by (auto simp: visit_class_def visit_resident_def split: if_splits)
  then show "\<exists>x \<in> set (request_visits True vss base span). visit_resident (request_gpu vss base zero_uuid) x \<and> snd x \<le> a \<and> a < snd x + PAGE_SIZE"
    using x ka by auto
qed

lemma coalesced_sparse:
  assumes "capture_and_write_coalesced co env vss thr True track ranges m old = Some (True, f)" "moment_ok env vss" "coal_ok co vss True ranges"
    and "env_csl_decrypt (er_driver E) = env_csl_decrypt env"
  defines "base \<equiv> coal_base co ranges" and "span \<equiv> coal_span co ranges"
  shows "\<exists>cs n. list_all2 (v3_sealed E key) cs (map (plain_cap env vss) (map cap_range cs)) \<and>
    take (length (delta_image cs base span n)) (file_list f) = delta_image cs base span n \<and> length cs \<le> span div PAGE_SIZE \<and>
    list_all (\<lambda>d. fst d mod PAGE_SIZE = 0 \<and> snd d mod PAGE_SIZE = 0 \<and> 0 < snd d \<and> base \<le> fst d \<and> fst d + snd d \<le> base + span \<and>
      find_va_space vss (fst d) 0 = find_va_space vss base 0) (map cap_range cs) \<and> regions_exact vss base span (map cap_range cs)"
proof -
  define as where "as = co_qsort co ranges"
  obtain b where b: "ranges \<noteq> []" "co_bufs co = Some b" "rr_status (coalesced_read env vss thr True track b base span m) = NV_OK"
    and rest: "let res = coalesced_read env vss thr True track b base span m; m1 = rr_mem res; rm = read_mem m1 (eb_resmap b) (span div 4096);
             nm = the (rr_num_transfers res); msz = (\<lambda>i. cm_size (entry_at m1 (eb_crypto_meta b) i))
         in if True then \<exists>caps. p3b_regions msz nm b m1 base rm 0 0 0 0 0 = Some caps \<and>
              write_delta_parallel (co_io co) caps base span (length (filter (\<lambda>x. x \<noteq> 2) rm)) old = (True, f)
            else \<exists>ss. p3b_walk msz nm rm base as \<lparr>ps_cursor = 0, ps_gpu = 0, ps_meta = 0, ps_acc = 0, ps_off = V2_HDR_SIZE + length as * DESC_SIZE\<rparr> = Done ss \<and>
              write_coalesced (co_io co) b m1 as ss old = (True, f)"
    unfolding as_def base_def span_def by (rule coalesced_cases [OF assms(1)])
  define res where "res = coalesced_read env vss thr True track b base span m"
  define m1 where "m1 = rr_mem res"
  define nm where "nm = the (rr_num_transfers res)"
  define msz where "msz = (\<lambda>i. cm_size (entry_at m1 (eb_crypto_meta b) i))"
  define rm where "rm = read_mem m1 (eb_resmap b) (span div PAGE_SIZE)"
  define G where "G = request_gpu vss base zero_uuid"
  obtain cs where w: "p3b_regions msz nm b m1 base rm 0 0 0 0 0 = Some cs"
      "write_delta_parallel (co_io co) cs base span (length (filter (\<lambda>x. x \<noteq> 2) rm)) old = (True, f)"
    using rest unfolding Let_def res_def [symmetric] m1_def [symmetric] nm_def [symmetric] msz_def [symmetric] rm_def [symmetric] if_True by blast
  note sp = coal_ok_span [OF assms(3) b(1), folded base_def span_def]
  have ok: "one_space vss base span" "length (cpu_section (request_visits True vss base span)) \<le> P3B_CPU_BUF_CAP" "enc_areas_ok P3B_CPU_BUF_CAP span b"
    "\<not> io_no_image_write (co_io co)" "\<forall>ws. io_sched (co_io co) ws \<in> interleave ws"
    using assms(3) b(2) by (simp_all add: coal_ok_def Let_def base_def span_def)
  have rh: "read_holds env vss True b base span m1 nm"
    unfolding m1_def nm_def res_def by (rule coalesced_read_holds [OF b(3) _ assms(2) ok(3,2)]) simp
  then have rq: "request_ok vss base span 0" and rme: "rm = request_resmap True vss base span zero_uuid"
    by (simp_all add: read_holds_def Let_def rm_def)
  note ro = request_resmap_of [OF rq, of zero_uuid True, folded rme]
  have "p3b_regions msz nm b m1 base rm (length ([] :: byte list)) (PAGE_SIZE * count_list ([] :: byte list) 0)
      (PAGE_SIZE * count_list ([] :: byte list) 1) 0 (meta_sum msz 0) = Some cs" using w(1) by simp
  from p3b_regions_ok [OF this le0 [of nm] resmap_of_values [OF ro]] have rg: "length cs \<le> length rm" "\<forall>c \<in> set cs. region_ok msz nm b m1 base rm c"
    "\<And>k. k < length rm \<Longrightarrow> rm ! k \<noteq> 2 \<Longrightarrow> \<exists>c \<in> set cs. rc_base c \<le> base + k * PAGE_SIZE \<and> base + k * PAGE_SIZE < rc_base c + rc_length c"
    by (simp_all add: list_all_iff)
  have rf: "region_ok (\<lambda>i. cm_size (entry_at m1 (eb_crypto_meta b) i)) nm b m1 base (read_mem m1 (eb_resmap b) (span div PAGE_SIZE)) c" if "c \<in> set cs" for c
    using rg(2) that by (simp add: msz_def rm_def)
  note rf = region_facts [OF rh assms(2) sp(5) ok(1) rf assms(4)]
  have sealed: "list_all2 (v3_sealed E key) cs (map (plain_cap env vss) (map cap_range cs))" using rf(1) by (simp add: list_all2_conv_all_nth)
  have "\<forall>c \<in> set cs. cap_wf c" using rf(1) by (auto simp: v3_sealed_def cap_ok_def)
  note wr = write_delta_parallel_success [OF w(2) ok(4) this ok(5)]
  have "regions_exact vss base span (map cap_range cs)"
    unfolding regions_exact_def Let_def G_def [symmetric]
  proof (intro set_eqI iffI)
    fix a assume "a \<in> (\<Union>x \<in> {x \<in> set (request_visits True vss base span). visit_resident G x}. {snd x ..< snd x + PAGE_SIZE})"
    then obtain x where x: "x \<in> set (request_visits True vss base span)" "visit_resident G x" "snd x \<le> a" "a < snd x + PAGE_SIZE" by auto
    define k where "k = page_slot base (snd x)"
    have k: "k < length rm" "snd x = base + k * PAGE_SIZE"
      using request_slots(2) [OF rq x(1)] request_visits_aligned(2) [OF rq x(1)] by (simp_all add: k_def rm_def)
    have "rm ! k = visit_class G x" using request_resmap_hit [OF rq x(1)] by (simp add: rme k_def G_def)
    then have "rm ! k \<noteq> 2" using x(2) by (auto simp: visit_class_def visit_resident_def split: if_splits)
    then obtain c where c: "c \<in> set cs" "rc_base c \<le> snd x" "snd x < rc_base c + rc_length c" using rg(3) [OF k(1)] k(2) by auto
    obtain i j where ij: "rc_base c = PAGE_SIZE * i" "rc_length c = PAGE_SIZE * j" using rf(5,7) [OF c(1)] by (auto simp: mod_eq_0_iff_dvd dvd_def)
    obtain l where l: "snd x = PAGE_SIZE * l" using k(2) rq by (auto simp: request_ok_def mod_eq_0_iff_dvd dvd_def intro: that [of "k + _"])
    have "l < i + j" using c(3) unfolding ij l by simp
    then have "PAGE_SIZE * (l + 1) \<le> PAGE_SIZE * (i + j)" by (intro mult_le_mono2) simp
    then have "a \<in> {fst (cap_range c) ..< fst (cap_range c) + snd (cap_range c)}" using x(3,4) c(2) unfolding l ij by simp
    then show "a \<in> (\<Union>d \<in> set (map cap_range cs). {fst d ..< fst d + snd d})" using c(1) by auto
  next
    fix a assume "a \<in> (\<Union>d \<in> set (map cap_range cs). {fst d ..< fst d + snd d})"
    then obtain c where "c \<in> set cs" "rc_base c \<le> a" "a < rc_base c + rc_length c" by auto
    from rf(8) [OF this] show "a \<in> (\<Union>x \<in> {x \<in> set (request_visits True vss base span). visit_resident G x}. {snd x ..< snd x + PAGE_SIZE})"
      unfolding G_def by fastforce
  qed
  moreover have "list_all (\<lambda>d. fst d mod PAGE_SIZE = 0 \<and> snd d mod PAGE_SIZE = 0 \<and> 0 < snd d \<and> base \<le> fst d \<and> fst d + snd d \<le> base + span \<and>
      find_va_space vss (fst d) 0 = find_va_space vss base 0) (map cap_range cs)" using rf(2-7) by (simp add: list_all_iff)
  moreover have "length cs \<le> span div PAGE_SIZE" using rg(1) by (simp add: rm_def)
  ultimately show ?thesis using sealed wr by blast
qed

section \<open>The checkpoint\<close>

text \<open>Pages of the span that are resident now and in no tracked dirty block have the contents they had.\<close>

definition clean_blocks :: "uvm_env \<Rightarrow> va_space list \<Rightarrow> uvm_env \<Rightarrow> va_space list \<Rightarrow> nat \<Rightarrow> nat \<Rightarrow> bool" where
  "clean_blocks env0 vss0 env1 vss1 base span \<longleftrightarrow>
     list_all (\<lambda>x. visit_resident (request_gpu vss1 base zero_uuid) x \<longrightarrow> x \<notin> set (request_visits True vss1 base span) \<longrightarrow>
       list_ex (\<lambda>y. snd y = snd x \<and> visit_resident (request_gpu vss0 base zero_uuid) y \<and>
         visit_content env0 (request_gpu vss0 base zero_uuid) y = visit_content env1 (request_gpu vss1 base zero_uuid) x)
         (request_visits False vss0 base span))
       (request_visits False vss1 base span)"

text \<open>The dirty pages lie in the ranges.\<close>

definition dirty_in_ranges :: "va_space list \<Rightarrow> nat \<Rightarrow> nat \<Rightarrow> (nat \<times> nat) list \<Rightarrow> bool" where
  "dirty_in_ranges vss base span ranges \<longleftrightarrow>
     list_all (\<lambda>x. visit_resident (request_gpu vss base zero_uuid) x \<longrightarrow> list_ex (\<lambda>r. fst r \<le> snd x \<and> snd x < fst r + snd r) ranges)
       (request_visits True vss base span)"

lemma page_in_range:
  assumes "a mod PAGE_SIZE = 0" "fst r mod PAGE_SIZE = 0" "snd r mod PAGE_SIZE = 0" "fst r \<le> a" "a < fst r + snd r"
  shows "a + PAGE_SIZE \<le> fst r + snd r"
proof -
  obtain i j l where e: "fst r = PAGE_SIZE * i" "snd r = PAGE_SIZE * j" "a = PAGE_SIZE * l" using assms(1-3) by (auto simp: mod_eq_0_iff_dvd dvd_def)
  then have "l < i + j" using assms(5) by simp
  then have "PAGE_SIZE * (l + 1) \<le> PAGE_SIZE * (i + j)" by (intro mult_le_mono2) simp
  then show ?thesis unfolding e by simp
qed

lemma ordered_disjoint: "ranges_ordered rs \<Longrightarrow> ranges_disjoint rs"
  unfolding ranges_ordered_def ranges_disjoint_def by (erule sorted_wrt_mono_rel [rotated]) simp

lemma plain_snaps:
  assumes "\<forall>r \<in> set rs. request_ok vss (fst r) (snd r) 0 \<and> fst r + snd r < 2 ^ 64"
  shows "list_all2 (snap_cap env vss) rs (map (plain_cap env vss) rs)"
proof -
  have "snap_cap env vss r (plain_cap env vss r)" if "r \<in> set rs" for r
  proof -
    have r: "request_ok vss (fst r) (snd r) 0" "fst r + snd r < 2 ^ 64" using assms that by auto
    show ?thesis using plain_cap_ok [OF r, of env] r by (simp add: snap_cap_def snap_def cap_end_def) (simp add: plain_cap_def Let_def)
  qed
  then show ?thesis by (simp add: list_all2_conv_all_nth)
qed

text \<open>Pages that are in a range and in no region did not change.\<close>

lemma clean_ranges:
  assumes "clean_blocks env0 vss0 env1 vss1 base span" "vss_ok vss0" "vss_ok vss1" "regions_exact vss1 base span ds" "base + span < 2 ^ 64"
    and "request_ok vss0 base span 0" "request_ok vss1 base span 0" "request_ok vss0 (fst r) (snd r) 0" "request_ok vss1 (fst r) (snd r) 0"
    and "base \<le> fst r" "fst r + snd r \<le> base + span"
    and "find_va_space vss0 (fst r) 0 = find_va_space vss0 base 0" "find_va_space vss1 (fst r) 0 = find_va_space vss1 base 0"
  shows "clean_outside env0 vss0 env1 vss1 ds r"
  unfolding clean_outside_def
proof (intro ballI impI)
  have G: "request_gpu vss0 (fst r) zero_uuid = request_gpu vss0 base zero_uuid" "request_gpu vss1 (fst r) zero_uuid = request_gpu vss1 base zero_uuid"
    using assms(12,13) by (simp_all add: request_gpu_def)
  fix x assume x: "x \<in> set (request_visits False vss1 (fst r) (snd r))" "visit_resident (request_gpu vss1 (fst r) zero_uuid) x"
    and out: "list_all (\<lambda>d. \<not> (fst d \<le> snd x \<and> snd x < fst d + snd d)) ds"
  have inr: "fst r \<le> snd x" "snd x + PAGE_SIZE \<le> fst r + snd r" using request_visits_in [OF assms(9) x(1)] by simp_all
  have xs: "x \<in> set (request_visits False vss1 base span)"
    by (rule request_visits_sub [OF assms(3,9,7) assms(13) [symmetric] assms(5) x(1)]) (use inr assms(10,11) in linarith)+
  have nd: "x \<notin> set (request_visits True vss1 base span)"
  proof
    assume "x \<in> set (request_visits True vss1 base span)"
    then have "snd x \<in> (\<Union>x \<in> {x \<in> set (request_visits True vss1 base span). visit_resident (request_gpu vss1 base zero_uuid) x}. {snd x ..< snd x + PAGE_SIZE})"
      using x(2) unfolding G(2) by (intro UN_I [of x]) simp_all
    then have "snd x \<in> (\<Union>d \<in> set ds. {fst d ..< fst d + snd d})"
      unfolding assms(4) [unfolded regions_exact_def Let_def] .
    then show False using out by (auto simp: list_all_iff)
  qed
  obtain y where y: "y \<in> set (request_visits False vss0 base span)" "snd y = snd x" "visit_resident (request_gpu vss0 base zero_uuid) y"
      "visit_content env0 (request_gpu vss0 base zero_uuid) y = visit_content env1 (request_gpu vss1 base zero_uuid) x"
    using mp [OF mp [OF bspec [OF assms(1) [unfolded clean_blocks_def list_all_iff] xs] x(2) [unfolded G(2)]] nd, unfolded list_ex_iff] by blast
  have "y \<in> set (request_visits False vss0 (fst r) (snd r))"
    by (rule request_visits_sub [OF assms(2,6,8,12) _ y(1)]) (use inr assms(5,11) y(2) in linarith)+
  then show "\<exists>y \<in> set (request_visits False vss0 (fst r) (snd r)). snd y = snd x \<and> visit_resident (request_gpu vss0 (fst r) zero_uuid) y \<and>
      visit_content env0 (request_gpu vss0 (fst r) zero_uuid) y = visit_content env1 (request_gpu vss1 (fst r) zero_uuid) x"
    using y unfolding G by blast
qed

text \<open>The regions lie in the union of the ranges.\<close>

lemma regions_covered:
  assumes "regions_exact vss base span ds" "dirty_in_ranges vss base span ranges" "request_ok vss base span 0"
    and "\<forall>r \<in> set ranges. fst r mod PAGE_SIZE = 0 \<and> snd r mod PAGE_SIZE = 0" "d \<in> set ds"
  shows "{fst d ..< fst d + snd d} \<subseteq> (\<Union>r \<in> set ranges. {fst r ..< fst r + snd r})"
proof
  fix a assume "a \<in> {fst d ..< fst d + snd d}"
  then have "a \<in> (\<Union>d \<in> set ds. {fst d ..< fst d + snd d})" using assms(5) by blast
  then have "a \<in> (\<Union>x \<in> {x \<in> set (request_visits True vss base span). visit_resident (request_gpu vss base zero_uuid) x}. {snd x ..< snd x + PAGE_SIZE})"
    unfolding assms(1) [unfolded regions_exact_def Let_def] .
  then obtain x where x: "x \<in> set (request_visits True vss base span)" "visit_resident (request_gpu vss base zero_uuid) x" "snd x \<le> a" "a < snd x + PAGE_SIZE" by auto
  obtain r where r: "r \<in> set ranges" "fst r \<le> snd x" "snd x < fst r + snd r"
    using assms(2) x(1,2) by (auto simp: dirty_in_ranges_def list_all_iff list_ex_iff)
  have "snd x mod PAGE_SIZE = 0" using visit_aligned [OF assms(3), of x] dirty_visits_sub x(1) by blast
  then have "snd x + PAGE_SIZE \<le> fst r + snd r" using page_in_range [OF _ _ _ r(2,3)] bspec [OF assms(4) r(1)] by simp
  then have "a \<in> {fst r ..< fst r + snd r}" using x(3,4) r by simp
  then show "a \<in> (\<Union>r \<in> set ranges. {fst r ..< fst r + snd r})" using r(1) by blast
qed

lemma coalesced_requests:
  assumes "coal_ok co vss d ranges" "ranges \<noteq> []" "vss_ok vss"
  shows "request_ok vss (coal_base co ranges) (coal_span co ranges) 0" "r \<in> set ranges \<Longrightarrow> request_ok vss (fst r) (snd r) 0 \<and> fst r + snd r < 2 ^ 64"
    and "r \<in> set ranges \<Longrightarrow> find_va_space vss (fst r) 0 = find_va_space vss (coal_base co ranges) 0"
    and "\<forall>r \<in> set ranges. fst r mod PAGE_SIZE = 0 \<and> snd r mod PAGE_SIZE = 0"
proof -
  note sp = coal_ok_span [OF assms(1,2)]
  have ra: "fst r mod PAGE_SIZE = 0 \<and> snd r mod PAGE_SIZE = 0 \<and> 0 < snd r \<and> fst r + snd r < 2 ^ 64 \<and> find_va_space vss (fst r) 0 = find_va_space vss (coal_base co ranges) 0"
    if "r \<in> set ranges" for r using assms(1) that by (simp add: coal_ok_def Let_def list_all_iff)
  then show "r \<in> set ranges \<Longrightarrow> request_ok vss (fst r) (snd r) 0 \<and> fst r + snd r < 2 ^ 64"
    and "r \<in> set ranges \<Longrightarrow> find_va_space vss (fst r) 0 = find_va_space vss (coal_base co ranges) 0"
    and "\<forall>r \<in> set ranges. fst r mod PAGE_SIZE = 0 \<and> snd r mod PAGE_SIZE = 0"
    using assms(3) by (auto simp: request_ok_def vss_ok_def)
  let ?as = "co_qsort co ranges"
  have "?as \<noteq> []" using sp(2) assms(2) by auto
  then have l: "last ?as \<in> set ranges" "hd ?as \<in> set ranges" using last_in_set [of ?as] hd_in_set [of ?as] unfolding sp(2) by blast+
  have sn: "coal_span co ranges = fst (last ?as) + snd (last ?as) - coal_base co ranges" by (simp add: coal_span_def coal_base_def Let_def)
  have le: "coal_base co ranges \<le> fst (last ?as)" using sp(4) [OF l(1)] by blast
  have "0 < coal_span co ranges" using le ra [OF l(1)] unfolding sn by linarith
  moreover have "coal_span co ranges mod PAGE_SIZE = 0"
    using ra [OF l(1)] sp(6) unfolding sn by (auto simp: mod_eq_0_iff_dvd intro!: dvd_diff_nat)
  ultimately show "request_ok vss (coal_base co ranges) (coal_span co ranges) 0" using assms(3) sp(6) by (simp add: request_ok_def vss_ok_def)
qed

lemma coalesced_restored:
  assumes "moment_ok env0 vss0" "moment_ok env1 vss1" "coal_ok co vss0 False ranges" "coal_ok co' vss1 True ranges" "co_qsort co' ranges = co_qsort co ranges"
    and "capture_and_write_coalesced co env0 vss0 thr False False ranges m old = Some (True, fb)"
    and "capture_and_write_coalesced co' env1 vss1 thr' True track ranges m' old' = Some (True, fd)"
    and "length ranges \<le> MAX_GROUPS" "coal_span co ranges div PAGE_SIZE < 2 ^ 32" "fl_size fb \<le> B" "fl_size fd \<le> B"
    and "restore_ready E key" "all_alloc (er_files E)" "re_open (er_files E) = (True, True)" "qsort_ok (er_files E)" "\<forall>dl k. bufs_apart B (er_bufs E dl k)"
    and "env_csl_decrypt (er_driver E) = env_csl_decrypt env0" "env_csl_decrypt env1 = env_csl_decrypt env0"
    and "dirty_in_ranges vss1 (coal_base co ranges) (coal_span co ranges) ranges"
    and "clean_blocks env0 vss0 env1 vss1 (coal_base co ranges) (coal_span co ranges)"
    and "r \<in> set ranges" "x \<in> set (request_visits False vss1 (fst r) (snd r))" "visit_resident (request_gpu vss1 (fst r) zero_uuid) x"
  shows "\<exists>gs. ckpt_restore_from_files_encrypted E (file_list fb) (file_list fd) = Done gs \<and>
    (\<exists>g \<in> set gs. g_va g \<le> snd x \<and> snd x + PAGE_SIZE \<le> g_va g + g_sz g \<and>
       read_mem (g_mem g) (snd x - g_va g) PAGE_SIZE = visit_content env1 (request_gpu vss1 (fst r) zero_uuid) x)"
proof -
  define as where "as = co_qsort co ranges"
  define base where "base = coal_base co ranges"
  define span where "span = coal_span co ranges"
  have ne: "ranges \<noteq> []" using assms(21) by auto
  have vs: "vss_ok vss0" "vss_ok vss1" using assms(1,2) by (simp_all add: moment_ok_def)
  have e: "coal_base co' ranges = base" "coal_span co' ranges = span" using assms(5) by (simp_all add: coal_base_def coal_span_def base_def span_def)
  note sp = coal_ok_span [OF assms(3) ne, folded as_def base_def span_def]
  note q0 = coalesced_requests [OF assms(3) ne vs(1), folded base_def span_def] and q1 = coalesced_requests [OF assms(4) ne vs(2), unfolded e]
  obtain cs where cs: "list_all2 (v3_sealed E key) cs (map (plain_cap env0 vss0) as)" "\<forall>c \<in> set cs. rc_gpu_bytes c = rc_length c"
      "take (length (base_image cs 3)) (file_list fb) = base_image cs 3"
    using coalesced_dense [OF assms(6,1,3,17)] unfolding as_def by blast
  have d1: "env_csl_decrypt (er_driver E) = env_csl_decrypt env1" using assms(17,18) by simp
  obtain dcs n where dcs: "list_all2 (v3_sealed E key) dcs (map (plain_cap env1 vss1) (map cap_range dcs))"
      "take (length (delta_image dcs base span n)) (file_list fd) = delta_image dcs base span n" "length dcs \<le> span div PAGE_SIZE"
      "list_all (\<lambda>d. fst d mod PAGE_SIZE = 0 \<and> snd d mod PAGE_SIZE = 0 \<and> 0 < snd d \<and> base \<le> fst d \<and> fst d + snd d \<le> base + span \<and>
         find_va_space vss1 (fst d) 0 = find_va_space vss1 base 0) (map cap_range dcs)" "regions_exact vss1 base span (map cap_range dcs)"
    using coalesced_sparse [OF assms(7,2,4) d1] unfolding e by blast
  define ds where "ds = map cap_range dcs"
  let ?ps = "map (plain_cap env0 vss0) as" and ?dps = "map (plain_cap env1 vss1) ds"
  have dr: "fst d mod PAGE_SIZE = 0 \<and> snd d mod PAGE_SIZE = 0 \<and> 0 < snd d \<and> base \<le> fst d \<and> fst d + snd d \<le> base + span \<and>
      find_va_space vss1 (fst d) 0 = find_va_space vss1 base 0" if "d \<in> set ds" for d
    using dcs(4) that unfolding list_all_iff ds_def by blast
  have p0: "list_all2 (snap_cap env0 vss0) as ?ps" by (rule plain_snaps) (use q0(2) sp(2) in blast)
  have p1: "list_all2 (snap_cap env1 vss1) ds ?dps"
  proof (rule plain_snaps)
    show "\<forall>d \<in> set ds. request_ok vss1 (fst d) (snd d) 0 \<and> fst d + snd d < 2 ^ 64"
      using dr sp(5) vs(2) by (fastforce simp: request_ok_def vss_ok_def)
  qed
  have dj: "ranges_disjoint as" by (rule ordered_disjoint [OF sp(1)])
  have len: "length cs \<le> MAX_GROUPS" "length dcs < 2 ^ 32"
    using list_all2_lengthD [OF cs(1)] sp(3) assms(8,9) dcs(3) by (simp_all add: span_def)
  have rin: "r \<in> set as" using assms(21) sp(2) by blast
  have me: "\<exists>c \<in> set cs. cap_meta c \<noteq> []"
  proof -
    obtain i where i: "i < length as" "as ! i = r" using rin unfolding in_set_conv_nth by (elim exE conjE)
    then have ci: "cs ! i \<in> set cs" "v3_sealed E key (cs ! i) (plain_cap env0 vss0 r)" using cs(1) by (auto simp: list_all2_conv_all_nth)
    have "rc_length (plain_cap env0 vss0 r) = snd r" by (simp add: plain_cap_def Let_def)
    then have "rc_gpu_bytes (plain_cap env0 vss0 r) = snd r" "cap_wf (plain_cap env0 vss0 r)" using ci cs(2) by (auto simp: v3_sealed_def cap_ok_def)
    moreover have "0 < snd r" using q0(2) [OF assms(21)] by (simp add: request_ok_def)
    ultimately have "0 < length (gpu_part (plain_cap env0 vss0 r))" by (simp add: cap_wf_def)
    then have "gpu_part (plain_cap env0 vss0 r) \<noteq> []" by (metis length_0_conv less_irrefl)
    from sealed_has_meta [OF ci(2) this] ci(1) show ?thesis by blast
  qed
  have iv: "cap_ivl (plain_cap env vss s) = {fst s ..< fst s + snd s}" for env vss s by (simp add: cap_ivl_def cap_end_def plain_cap_def Let_def)
  have cov: "\<forall>d \<in> set ?dps. cap_ivl d \<subseteq> (\<Union>c \<in> set ?ps. cap_ivl c)"
    using regions_covered [OF dcs(5) assms(19) [folded base_def span_def] q1(1,4), folded ds_def] unfolding sp(2) [symmetric] by (simp add: iv)
  obtain j0 j1 where fl: "file_list fb = base_image cs 3 @ j0" "file_list fd = delta_image dcs base span n @ j1" using take_prefix [OF cs(3)] take_prefix [OF dcs(2)] by blast
  have lb: "length (file_list fb) \<le> B" "length (file_list fd) \<le> B" using assms(10,11) by (simp_all add: file_list_def)
  obtain gs gs' where g: "ckpt_restore_from_files_encrypted E (file_list fb) (file_list fd) = Done gs'" "base_restored ?ps gs" "map shape gs' = map shape gs"
      "groups_hold gs' (fold apply_cap ?dps (fold apply_cap ?ps (\<lambda>_. 0)))"
    using encrypted_restore_main [OF cs(1) dcs(1) [folded ds_def] snap_caps_disjoint [OF p0 dj] len me cov assms(12-16) fl(1) lb(1) fl(2) lb(2)] by blast
  have in_g: "\<forall>c \<in> set ?ps. \<exists>x \<in> set (map shape gs'). fst x \<le> rc_base c \<and> cap_end c \<le> fst x + snd x"
    using g(2) unfolding g(3) base_restored_def by blast
  have ss: "same_space vss1 ds as" using dr q1(3) sp(2) by (auto simp: same_space_def list_all_iff)
  have cl: "\<forall>s \<in> set as. clean_outside env0 vss0 env1 vss1 ds s"
  proof
    fix s assume "s \<in> set as"
    then have s: "s \<in> set ranges" using sp(2) by blast
    show "clean_outside env0 vss0 env1 vss1 ds s"
      by (rule clean_ranges [OF assms(20) [folded base_def span_def] vs dcs(5) [folded ds_def] sp(5) q0(1) q1(1)])
        (use q0(2,3) [OF s] q1(2,3) [OF s] sp(4) [OF s] in blast)+
  qed
  from snaps_restored [OF vs p0 p1 dj ss cl rin assms(22,23) g(4) in_g] g(1) show ?thesis by blast
qed

end
