(* ===== verification/Coalesced_Props.thy ===== *)
theory Coalesced_Props
  imports Coalesced_Checkpoint
begin

text \<open>
  The properties of the coalesced checkpoint, and the sample that shows them at work: one page on a GPU, in a block
  that is clean when the baseline is taken and dirty when the delta is.
\<close>

section \<open>A sample\<close>

definition moment_block :: "bool \<Rightarrow> va_block" where
  "moment_block d = sample_block\<lparr>vb_dirty := d, vb_tracking := d\<rparr>"

definition moment_vs :: "bool \<Rightarrow> va_space" where
  "moment_vs d = sample_vs\<lparr>vs_ranges := [sample_range\<lparr>vr_blocks := [moment_block d]\<rparr>]\<rparr>"

definition coal_bufs :: enc_bufs where
  "coal_bufs = \<lparr>eb_resmap = 65536, eb_cpu_buf = 8589934592, eb_gpu_buf = 1048576, eb_crypto_meta = 131072\<rparr>"

definition sample_coal :: coal_env where
  "sample_coal = \<lparr>co_calloc = True, co_qsort = sort_key fst, co_bufs = Some coal_bufs, co_shm = Some 4096, co_map = True, co_fcaps = True,
     co_tables = True, co_ones = True, co_io = good_io\<rparr>"

abbreviation sample_one :: "(nat \<times> nat) list" where
  "sample_one \<equiv> [(2097152, 4096)]"

lemma moment_managed: "managed_blocks (moment_vs d) = [moment_block d]"
  by (simp add: managed_blocks_def moment_vs_def sample_range_def is_managed_def)

lemma moment_vss: "vss_ok [moment_vs d]"
proof -
  have "vs_wf (moment_vs d)" by (simp add: vs_wf_def moment_managed) (simp add: moment_block_def sample_block_def)
  then show ?thesis
    by (auto simp: vss_ok_def moment_managed) (auto simp: moment_vs_def moment_block_def sample_range_def sample_block_def split: if_splits)
qed

lemma moment_find: "find_va_space [moment_vs d] 2097152 0 = Some (0, moment_vs d)"
  by (simp add: uvm_va_range_find_def moment_vs_def sample_range_def)

lemma moment_visits: "request_visits t [moment_vs d] 2097152 4096 = (if t \<longrightarrow> d then [(moment_block d, 2097152)] else [])"
  by (simp add: request_visits_def moment_find del: find_va_space.simps)
     (simp add: scan_list_def blocks_in_def va_ranges_in_def moment_vs_def sample_range_def is_managed_def range_end_def u64_def block_pages_def
        is_dirty_block_def moment_block_def sample_block_def)

lemma moment_gpu: "gpu_visit (request_gpu [moment_vs d] 2097152 zero_uuid) (moment_block d, 2097152)" "\<not> cpu_visit (moment_block d, 2097152)"
  by (simp_all add: gpu_visit_def cpu_visit_def is_gpu_page_def is_cpu_page_def request_gpu_def moment_find resolve_gpu_def page_index_def del: find_va_space.simps)
     (simp_all add: moment_vs_def sample_vs_def moment_block_def sample_block_def)

lemma moment_resident: "visit_resident (request_gpu [moment_vs d] 2097152 zero_uuid) (moment_block d, 2097152)"
  using moment_gpu by (simp add: visit_resident_def)

lemma moment_is_ok: "moment_ok sample_env [moment_vs d]"
  using moment_vss sample_env_csl sample_env_shape(1) sample_env_sched by (simp add: moment_ok_def)

lemma coal_bufs_areas: "enc_areas_ok P3B_CPU_BUF_CAP 4096 coal_bufs"
  by (simp add: enc_areas_ok_def coal_bufs_def P3B_CPU_BUF_CAP_def Let_def)

lemma sample_coal_span: "coal_base sample_coal sample_one = 2097152" "coal_span sample_coal sample_one = 4096"
  by (simp_all add: coal_base_def coal_span_def sample_coal_def Let_def)

lemma sample_coal_ok: "coal_ok sample_coal [moment_vs d] t sample_one"
  using coal_bufs_areas moment_gpu(2) [of d]
  by (simp add: coal_ok_def Let_def sample_coal_span one_space_def moment_visits ranges_disjoint_def del: find_va_space.simps)
     (simp add: sample_coal_def concat_in_interleave)

lemma meta_sum_total:
  assumes "read_holds env vss d b base span m nm" "csl_ok env" "csl_shape env"
  shows "meta_sum (\<lambda>i. cm_size (entry_at m (eb_crypto_meta b) i)) nm = length (gpu_section env (request_gpu vss base zero_uuid) (request_visits d vss base span))"
proof -
  obtain cfg where h: "nm = length (cc_runs cfg)" "\<forall>r \<in> set (cc_runs cfg). 0 < snd r \<and> snd r \<le> UVM_CONF_COMPUTING_DMA_BUFFER_SIZE"
      "plains env cfg nm = gpu_section env (request_gpu vss base zero_uuid) (request_visits d vss base span)"
      "read_mem m (eb_crypto_meta b) (nm * META_SIZE) = all_meta env cfg"
    using assms(1) unfolding read_holds_def Let_def by blast
  let ?xs = "run_transfers env cfg"
  have k1: "list_all (k1_transfer env) ?xs" by (rule run_transfers_k1 [OF assms(2,3) refl h(2)])
  note ok = k_transfers_ok(1) [OF k1] and xp = run_transfers_parts [of env cfg, folded h(1)]
  have lx: "length ?xs = nm" by (simp add: run_transfers_def h(1))
  have "read_mem m (eb_crypto_meta b) (length ?xs * META_SIZE) = metas_of ?xs" using h(4) by (simp add: lx xp)
  from meta_sum_ciphers [OF ok this, of nm] lx have "meta_sum (\<lambda>i. cm_size (entry_at m (eb_crypto_meta b) i)) nm = length (ciphers_of ?xs)" by simp
  also have "\<dots> = length (plains_of ?xs)" using length_plains_of [OF ok] by simp
  also have "\<dots> = length (gpu_section env (request_gpu vss base zero_uuid) (request_visits d vss base span))" unfolding xp(3) h(3) ..
  finally show ?thesis .
qed

lemma sample_coal_read:
  assumes "t \<longrightarrow> d" "res = coalesced_read sample_env [moment_vs d] None t False coal_bufs 2097152 4096 m"
  shows "rr_status res = NV_OK" "the (rr_num_transfers res) = 1" "read_mem (rr_mem res) (eb_resmap coal_bufs) 1 = [1]"
    and "cm_size (entry_at (rr_mem res) (eb_crypto_meta coal_bufs) 0) = 4096"
proof -
  define pr where "pr = enc_params coal_bufs (mt_threads None) 2097152 4096"
  define m0 where "m0 = write_mem m (eb_resmap coal_bufs) (replicate (4096 div 4096) 0)"
  have v: "request_visits t [moment_vs d] 2097152 4096 = [(moment_block d, 2097152)]" using assms(1) by (simp add: moment_visits)
  have r: "res = encrypted_mt_body t sample_env [moment_vs d] pr m0"
    by (simp add: assms(2) coalesced_read_def Let_def pr_def m0_def uvm_api_live_migration_read_dirty_delta_encrypted_mt_def uvm_api_live_migration_read_pages_resident_encrypted_mt_def)
  have po: "params_ok [moment_vs d] pr"
    using moment_vss [of d] by (auto simp: params_ok_def request_ok_def vss_ok_def pr_def enc_params_def coal_bufs_def)
  have "request_live sample_env [moment_vs d] pr"
    using sample_env_copy po
    by (simp add: request_live_def n_pages_def request_gpu_def pr_def enc_params_def coal_bufs_def moment_find resolve_gpu_def del: find_va_space.simps)
       (simp add: sample_env_def moment_vs_def sample_vs_def)
  from encrypted_mt_live [OF this sample_env_csl sample_env_sched] show st: "rr_status res = NV_OK" unfolding r .
  have mo: "vss_ok [moment_vs d]" "csl_ok sample_env" "csl_shape sample_env" "sched_ok sample_env" using moment_is_ok [of d] by (simp_all add: moment_ok_def)
  have cl: "length (cpu_section (request_visits t [moment_vs d] 2097152 4096)) \<le> P3B_CPU_BUF_CAP" using moment_gpu(2) [of d] by (simp add: v)
  note f = encrypted_read_areas [OF st [unfolded r] pr_def mo coal_bufs_areas cl, folded r]
  have "length (cc_runs (request_cfg True t [moment_vs d] pr)) = 1"
    using moment_gpu(1) [of d] by (simp add: request_cfg_def read_cfg_def pr_def enc_params_def gpu_phys_list_def v coalesce_from.simps extend_run.simps)
  then show nt: "the (rr_num_transfers res) = 1" using f(2) by simp
  have "request_resmap t [moment_vs d] 2097152 4096 zero_uuid = [1]"
    using moment_gpu [of d] by (simp add: request_resmap_def v mark_page_def page_slot_def)
  then show "read_mem (rr_mem res) (eb_resmap coal_bufs) 1 = [1]" using f(6) by simp
  have "read_holds sample_env [moment_vs d] t coal_bufs 2097152 4096 (rr_mem res) (the (rr_num_transfers res))"
    unfolding assms(2) by (rule coalesced_read_holds [OF st [unfolded assms(2)] _ moment_is_ok coal_bufs_areas cl]) simp
  from meta_sum_total [OF this mo(2,3)] show "cm_size (entry_at (rr_mem res) (eb_crypto_meta coal_bufs) 0) = 4096"
    using moment_gpu(1) [of d] unfolding nt by (simp add: v gpu_section_def gpu_phys_list_def)
qed

abbreviation empty_file :: ckpt_file where
  "empty_file \<equiv> \<lparr>fl_size = 0, fl_bytes = (\<lambda>_. 0)\<rparr>"

lemma sample_baseline: "\<exists>f. capture_and_write_coalesced sample_coal sample_env [moment_vs d] None False False sample_one m empty_file = Some (True, f) \<and> fl_size f \<le> 100000"
proof -
  define res where "res = coalesced_read sample_env [moment_vs d] None False False coal_bufs 2097152 4096 m"
  define msz where "msz = (\<lambda>i. cm_size (entry_at (rr_mem res) (eb_crypto_meta coal_bufs) i))"
  have c: "rr_status res = NV_OK" "the (rr_num_transfers res) = 1" "read_mem (rr_mem res) (eb_resmap coal_bufs) 1 = [1]" "msz 0 = 4096"
    using sample_coal_read [OF _ res_def] by (simp_all add: msz_def)
  obtain x s' where w: "p3b_range msz 1 [1] 2097152 (2097152, 4096) \<lparr>ps_cursor = 0, ps_gpu = 0, ps_meta = 0, ps_acc = 0, ps_off = V2_HDR_SIZE + 1 * DESC_SIZE\<rparr> = Done (x, s')"
      "rd_num_pages (sl_desc x) + rd_length (sl_desc x) + rd_crypto_meta_bytes (sl_desc x) = 4138"
    using c(4) by (simp add: p3b_range_def Let_def)
  have wr: "\<exists>f. write_coalesced good_io b m1 sample_one [x] empty_file = (True, f) \<and> fl_size f \<le> 100000" for b m1
    using w(2) by (simp add: write_coalesced_def Let_def file_resize_def)
  have sc: "co_calloc sample_coal" "co_qsort sample_coal sample_one = sample_one" "co_bufs sample_coal = Some coal_bufs" "co_shm sample_coal = Some 4096" "co_map sample_coal"
    "co_tables sample_coal" "co_ones sample_coal" "co_io sample_coal = good_io" by (simp_all add: sample_coal_def)
  show ?thesis
    unfolding capture_and_write_coalesced_def Let_def sc list.sel last.simps fst_conv snd_conv
    using c(1-3) w wr by (simp add: res_def [symmetric] msz_def [symmetric] sc)
qed

lemma sample_delta: "\<exists>f. capture_and_write_coalesced sample_coal sample_env [moment_vs True] None True False sample_one m empty_file = Some (True, f) \<and> fl_size f \<le> 100000"
proof -
  define res where "res = coalesced_read sample_env [moment_vs True] None True False coal_bufs 2097152 4096 m"
  define msz where "msz = (\<lambda>i. cm_size (entry_at (rr_mem res) (eb_crypto_meta coal_bufs) i))"
  have c: "rr_status res = NV_OK" "the (rr_num_transfers res) = 1" "read_mem (rr_mem res) (eb_resmap coal_bufs) 1 = [1]" "msz 0 = 4096"
    using sample_coal_read [OF _ res_def] by (simp_all add: msz_def)
  let ?c = "p3b_region coal_bufs (rr_mem res) 2097152 [1] 0 0 0 0 1"
  have w: "p3b_regions msz 1 coal_bufs (rr_mem res) 2097152 [1] 0 0 0 0 0 = Some [?c]" using c(4) by simp
  have wr: "\<exists>f. write_delta_parallel good_io [?c] va sz n empty_file = (True, f) \<and> fl_size f \<le> 100000" for va sz n
    by (simp add: write_delta_parallel_def Let_def file_resize_def p3b_region_def par_meta_bytes_def delta_data_off_def)
  have sc: "co_calloc sample_coal" "co_qsort sample_coal sample_one = sample_one" "co_bufs sample_coal = Some coal_bufs" "co_shm sample_coal = Some 4096" "co_map sample_coal"
    "co_fcaps sample_coal" "co_io sample_coal = good_io" by (simp_all add: sample_coal_def)
  show ?thesis
    unfolding capture_and_write_coalesced_def Let_def sc list.sel last.simps fst_conv snd_conv
    using c(1-3) w wr by (auto simp: res_def [symmetric] msz_def [symmetric] sc)
qed

section \<open>Properties\<close>

text \<open>
  C18: The coalesced baseline is the image of the ranges. When the call of ioctl 115 over the span of all ranges
  succeeds, the file starts with the version 3 image of one capture per range, in address order. Each capture is
  what a capture of that range alone holds, with every page on the GPU: the range's own residency map, and ciphertext
  and metadata from which the driver's decryption gives the plaintext of its pages at that moment, although all
  ranges were cut out of one read whose copy runs know nothing of them. Any number of copy threads and writer threads.
\<close>

theorem coalesced_baseline:
  assumes "capture_and_write_coalesced co env vss thr False False ranges m old = Some (True, f)" "moment_ok env vss" "coal_ok co vss False ranges"
    and "env_csl_decrypt (er_driver E) = env_csl_decrypt env"
  shows "\<exists>cs. list_all2 (v3_sealed E key) cs (map (plain_cap env vss) (co_qsort co ranges)) \<and> (\<forall>c \<in> set cs. rc_gpu_bytes c = rc_length c) \<and>
    take (length (base_image cs 3)) (file_list f) = base_image cs 3"
  by (rule coalesced_dense [OF assms])

theorem coalesced_baseline_witness:
  "\<exists>f c. capture_and_write_coalesced sample_coal sample_env [moment_vs False] None False False sample_one (\<lambda>_. 0) empty_file = Some (True, f) \<and>
     v3_sealed (sample_rst (replicate 32 7)) (replicate 32 7) c (plain_cap sample_env [moment_vs False] (2097152, 4096)) \<and>
     take (length (base_image [c] 3)) (file_list f) = base_image [c] 3"
proof -
  obtain f where f: "capture_and_write_coalesced sample_coal sample_env [moment_vs False] None False False sample_one (\<lambda>_. 0) empty_file = Some (True, f)"
    using sample_baseline by blast
  have e: "env_csl_decrypt (er_driver (sample_rst (replicate 32 7))) = env_csl_decrypt sample_env" by (simp add: sample_rst_def)
  have q: "co_qsort sample_coal sample_one = sample_one" by (simp add: sample_coal_def)
  from coalesced_baseline [OF f moment_is_ok sample_coal_ok e, of "replicate 32 7"] f show ?thesis
    unfolding q by (auto simp: list_all2_Cons2)
qed

text \<open>
  C19: The coalesced delta is the image of the dirty pages. When the call of ioctl 116 succeeds, the file starts with a
  delta image of regions made of pages that are resident in tracked dirty blocks; the regions hold exactly these
  pages, and each region's capture is sealed ciphertext (or, for pages on the CPU, plaintext) of the pages as a
  capture of the region alone would find them.
\<close>

theorem coalesced_delta:
  assumes "capture_and_write_coalesced co env vss thr True track ranges m old = Some (True, f)" "moment_ok env vss" "coal_ok co vss True ranges"
    and "env_csl_decrypt (er_driver E) = env_csl_decrypt env" "base = coal_base co ranges" "span = coal_span co ranges"
  shows "\<exists>cs n. list_all2 (v3_sealed E key) cs (map (plain_cap env vss) (map cap_range cs)) \<and>
    take (length (delta_image cs base span n)) (file_list f) = delta_image cs base span n \<and> regions_exact vss base span (map cap_range cs)"
  using coalesced_sparse [OF assms(1-4)] unfolding assms(5,6) by blast

theorem coalesced_delta_witness:
  "\<exists>f cs n. capture_and_write_coalesced sample_coal sample_env [moment_vs True] None True False sample_one (\<lambda>_. 0) empty_file = Some (True, f) \<and>
     take (length (delta_image cs 2097152 4096 n)) (file_list f) = delta_image cs 2097152 4096 n \<and>
     (\<Union>c \<in> set cs. {rc_base c ..< rc_base c + rc_length c}) = {2097152 ..< 2101248}"
proof -
  obtain f where f: "capture_and_write_coalesced sample_coal sample_env [moment_vs True] None True False sample_one (\<lambda>_. 0) empty_file = Some (True, f)"
    using sample_delta by blast
  have e: "env_csl_decrypt (er_driver (sample_rst (replicate 32 7))) = env_csl_decrypt sample_env" by (simp add: sample_rst_def)
  obtain cs n where c: "take (length (delta_image cs 2097152 4096 n)) (file_list f) = delta_image cs 2097152 4096 n"
      "regions_exact [moment_vs True] 2097152 4096 (map cap_range cs)"
    using coalesced_delta [OF f moment_is_ok sample_coal_ok e sample_coal_span [symmetric], of "replicate 32 7"] by blast
  have "{x \<in> set (request_visits True [moment_vs True] 2097152 4096). visit_resident (request_gpu [moment_vs True] 2097152 zero_uuid) x} = {(moment_block True, 2097152)}"
    using moment_resident [of True] by (auto simp: moment_visits)
  then have "(\<Union>c \<in> set cs. {rc_base c ..< rc_base c + rc_length c}) = {2097152 ..< 2101248}"
    using c(2) by (simp add: regions_exact_def Let_def)
  then show ?thesis using f c(1) by blast
qed



end
