(* ===== verification/Coalesced_Limits.thy ===== *)
theory Coalesced_Limits
  imports Coalesced_Capture
begin

text \<open>
  What \<open>capture_and_write_coalesced\<close> refuses although its comments count on it: a baseline in track-only mode, and regions or
  ranges whose pages the driver joined into one transfer because they are adjacent in device memory.
\<close>

text \<open>With \<open>g_track_only\<close> the residency map is all absent, and the dense walk stops at the first page of the first range.\<close>

lemma track_only_baseline_fails:
  assumes "ranges \<noteq> []" "co_qsort co ranges = r # rs" "4096 \<le> snd r"
  shows "capture_and_write_coalesced co env vss thr False True ranges m old \<in> {None, Some (False, old)}"
proof -
  have walk: "p3b_walk sz nm (replicate n 2) (fst r) (r # rs) \<lparr>ps_cursor = 0, ps_gpu = 0, ps_meta = 0, ps_acc = 0, ps_off = q\<rparr> \<in> {Fail, Undefined}" for sz nm n q
  proof -
    have k: "0 < snd r div 4096" using assms(3) by (simp add: div_greater_zero_iff)
    show ?thesis
    proof (cases "n = 0")
      case True
      then show ?thesis using k by (simp add: p3b_range_def Let_def)
    next
      case False
      then have "\<not> list_all (\<lambda>p. replicate n (2 :: byte) ! p = 1) [0..<min (snd r div 4096) n]" using k
        by (auto simp: list_all_iff intro!: bexI [of _ 0])
      then show ?thesis by (simp add: p3b_range_def Let_def)
    qed
  qed
  have rm: "read_mem (rr_mem (coalesced_read env vss thr False True b base span m)) (eb_resmap b) (span div 4096) = replicate (span div 4096) 2" for b base span
    by (simp add: coalesced_read_def Let_def read_write_same)
  have w: "(case p3b_walk sz nm (replicate n 2) (fst r) (r # rs) \<lparr>ps_cursor = 0, ps_gpu = 0, ps_meta = 0, ps_acc = 0, ps_off = q\<rparr> of
      Done ss \<Rightarrow> F ss | Fail \<Rightarrow> Some (False, old) | Undefined \<Rightarrow> None) \<in> {None, Some (False, old)}" for sz nm n q F
    using walk [of sz nm n q] by (auto simp del: p3b_walk.simps)
  have i: "(if P then a else b) \<in> S" if "P \<Longrightarrow> a \<in> S" "\<not> P \<Longrightarrow> b \<in> S" for P a b and S :: "(bool \<times> ckpt_file) option set"
    using that by simp
  have o: "(case x of None \<Rightarrow> a | Some y \<Rightarrow> f y) \<in> S" if "a \<in> S" "\<And>y. f y \<in> S" for x a f and S :: "(bool \<times> ckpt_file) option set"
    using that by (cases x) simp_all
  show ?thesis
    unfolding capture_and_write_coalesced_def Let_def assms(2) rm list.sel if_False
    by (intro i o w) (use assms(1) in simp_all)
qed

text \<open>
  One transfer of two pages that are adjacent in device memory but not in the address space: the first region ends inside
  it, so the delta is refused.
\<close>

lemma joined_regions_refused: "p3b_regions (\<lambda>_. 8192) 1 b m base [1, 2, 1] 0 0 0 0 0 = None"
  by simp

text \<open>The same transfer across the border of two ranges: the baseline is refused.\<close>

lemma joined_ranges_refused:
  "p3b_walk (\<lambda>_. 8192) 1 [1, 1] 0 [(0, 4096), (4096, 4096)] \<lparr>ps_cursor = 0, ps_gpu = 0, ps_meta = 0, ps_acc = 0, ps_off = q\<rparr> = Fail"
  by (simp add: p3b_range_def Let_def)

end
