(* ===== verification/Restore_Selective_Encrypted.thy ===== *)
theory Restore_Selective_Encrypted
  imports Restore_Encrypted Restore_Selective
begin

text \<open>
  \<open>ckpt_restore_selective_encrypted\<close> of \<open>librst_vllm.c\<close>: requested address intervals of an encrypted baseline. Unlike
  the other restores it walks pages from the start of a request, ignores every failure below it, and never opens the
  delta image.
\<close>

section \<open>The code\<close>

text \<open>The number of entries of the GPU section: all of them in a version 2 image.\<close>

definition gpu_entries :: "bool \<Rightarrow> rst_bufs \<Rightarrow> nat \<Rightarrow> nat \<Rightarrow> mem \<Rightarrow> nat" where
  "gpu_entries v3 b ng n m = (if v3 then count_metas m (rb_meta b) ng n 0 0 else n)"

text \<open>The two sections, with room for ciphertext and plaintext; results of \<open>decrypt_section\<close> are ignored.\<close>

definition select_gpu :: "enc_rst \<Rightarrow> byte list \<Rightarrow> bool \<Rightarrow> rst_bufs \<Rightarrow> range_desc \<Rightarrow> mem \<Rightarrow> mem option" where
  "select_gpu E f v3 b d m =
     (let ng = rd_gpu_bytes d; nm = rd_crypto_meta_bytes d; n = nm div META_SIZE;
          m1 = read_into f (u64 (rd_data_offset d + rd_resmap_size d + rd_cpu_bytes d)) ng (rb_gpu b) m; m2 = load_meta f d b m1
      in if nm > 0 \<and> re_alloc (er_files E) nm
         then map_option snd (decrypt_section E (rb_gpu b) (rb_gpu_plain b) ng (rb_meta b) (gpu_entries v3 b ng n m2) (er_key E) (er_uvm E) v3 m2)
         else Some (copy_area (rb_gpu_plain b) (rb_gpu b) ng m1))"

definition select_cpu :: "enc_rst \<Rightarrow> byte list \<Rightarrow> bool \<Rightarrow> rst_bufs \<Rightarrow> range_desc \<Rightarrow> mem \<Rightarrow> mem option" where
  "select_cpu E f v3 b d m =
     (let nc = rd_cpu_bytes d; nm = rd_crypto_meta_bytes d; n = nm div META_SIZE;
          m1 = read_into f (u64 (rd_data_offset d + rd_resmap_size d)) nc (rb_cpu b) m; m2 = load_meta f d b m1; gm = gpu_entries v3 b (rd_gpu_bytes d) n m2
      in if nm > 0 \<and> er_key E \<noteq> None \<and> re_alloc (er_files E) nm
         then (if n - gm > 0 then map_option snd (decrypt_section E (rb_cpu b) (rb_cpu_plain b) nc (rb_meta b + gm * META_SIZE) (n - gm) (er_key E) False False m2)
               else Some (copy_area (rb_cpu_plain b) (rb_cpu b) nc m2))
         else Some (copy_area (rb_cpu_plain b) (rb_cpu b) nc m1))"

text \<open>The plaintext of a range: residency map, CPU and GPU section; a section without a buffer is empty.\<close>

definition select_sections :: "enc_rst \<Rightarrow> byte list \<Rightarrow> bool \<Rightarrow> nat \<Rightarrow> range_desc \<Rightarrow> (byte list \<times> byte list \<times> byte list) option" where
  "select_sections E f v3 k d =
     (let b = er_bufs E False k; rs = rd_resmap_size d; nc = rd_cpu_bytes d; ng = rd_gpu_bytes d;
          g = (ng > 0 \<and> re_alloc (er_files E) ng); c = (nc > 0 \<and> re_alloc (er_files E) nc); m0 = read_into f (rd_data_offset d) rs (rb_resmap b) (er_heap E False k)
      in case (if g then select_gpu E f v3 b d m0 else Some m0) of None \<Rightarrow> None
         | Some m1 \<Rightarrow> (case (if c then select_cpu E f v3 b d m1 else Some m1) of None \<Rightarrow> None
             | Some m2 \<Rightarrow> Some (read_mem m2 (rb_resmap b) rs, if c then read_mem m2 (rb_cpu_plain b) nc else [], if g then read_mem m2 (rb_gpu_plain b) ng else [])))"

text \<open>The sections' pages before page \<open>p\<close>.\<close>

fun skip_pages :: "byte list \<Rightarrow> nat \<Rightarrow> nat \<Rightarrow> nat \<Rightarrow> nat \<Rightarrow> (nat \<times> nat) option" where
  "skip_pages rm p 0 co go = Some (co, go)"
| "skip_pages rm p (Suc n) co go =
     (if length rm \<le> p then None
      else if rm ! p = 0 then skip_pages rm (p + 1) n (co + PAGE_SIZE) go
      else if rm ! p = 1 then skip_pages rm (p + 1) n co (go + PAGE_SIZE)
      else skip_pages rm (p + 1) n co go)"

text \<open>The page loop; a page is always copied whole. A page address that wraps at the top of the address space leaves the map.\<close>

function extract_loop :: "byte list \<Rightarrow> byte list \<Rightarrow> byte list \<Rightarrow> nat \<Rightarrow> nat \<Rightarrow> nat \<Rightarrow> nat \<Rightarrow> nat \<Rightarrow> nat \<Rightarrow> nat \<Rightarrow> mem \<Rightarrow> mem outcome" where
  "extract_loop rm cpu gpu range_start req_start sz overlap_end page_va co go m =
     (let pidx = (page_va - range_start) div PAGE_SIZE; dst = page_va - req_start
      in if page_va \<ge> overlap_end then Done m
         else if length rm \<le> pidx \<or> 2 ^ 64 \<le> page_va + PAGE_SIZE then Undefined
         else if rm ! pidx = 0 \<and> co + PAGE_SIZE \<le> length cpu then
           (if sz < dst + PAGE_SIZE then Undefined
            else extract_loop rm cpu gpu range_start req_start sz overlap_end (page_va + PAGE_SIZE) (co + PAGE_SIZE) go (write_mem m dst (take PAGE_SIZE (drop co cpu))))
         else if rm ! pidx = 1 \<and> go + PAGE_SIZE \<le> length gpu then
           (if sz < dst + PAGE_SIZE then Undefined
            else extract_loop rm cpu gpu range_start req_start sz overlap_end (page_va + PAGE_SIZE) co (go + PAGE_SIZE) (write_mem m dst (take PAGE_SIZE (drop go gpu))))
         else extract_loop rm cpu gpu range_start req_start sz overlap_end (page_va + PAGE_SIZE) co go m)"
  by pat_completeness auto
termination
  by (relation "measure (\<lambda>(rm, cpu, gpu, rs, rq, sz, oe, pva, co, go, m). oe - pva)") auto

declare extract_loop.simps [simp del]

text \<open>The part of a range that one request wants, if any.\<close>

definition req_overlaps :: "range_desc \<Rightarrow> group \<Rightarrow> bool" where
  "req_overlaps d g \<longleftrightarrow> u64 (g_va g + g_sz g) > rd_base_va d \<and> g_va g < u64 (rd_base_va d + rd_length d)"

definition extract_slice :: "range_desc \<Rightarrow> byte list \<Rightarrow> byte list \<Rightarrow> byte list \<Rightarrow> group \<Rightarrow> group outcome" where
  "extract_slice d rm cpu gpu g =
     (let range_start = rd_base_va d; range_end = u64 (range_start + rd_length d); req_end = u64 (g_va g + g_sz g);
          overlap_start = (if g_va g \<ge> range_start then g_va g else range_start); overlap_end = (if req_end \<le> range_end then req_end else range_end)
      in if \<not> req_overlaps d g then Done g
         else case skip_pages rm 0 ((overlap_start - range_start) div PAGE_SIZE) 0 0 of None \<Rightarrow> Undefined
           | Some (co, go) \<Rightarrow>
               (case extract_loop rm cpu gpu range_start (g_va g) (g_sz g) overlap_end overlap_start co go (g_mem g) of
                  Done m \<Rightarrow> Done (g\<lparr>g_mem := m\<rparr>) | Fail \<Rightarrow> Fail | Undefined \<Rightarrow> Undefined))"

fun extract_slices :: "range_desc \<Rightarrow> byte list \<Rightarrow> byte list \<Rightarrow> byte list \<Rightarrow> group list \<Rightarrow> group list outcome" where
  "extract_slices d rm cpu gpu [] = Done []"
| "extract_slices d rm cpu gpu (g # gs) =
     (case extract_slice d rm cpu gpu g of
        Done g' \<Rightarrow> (case extract_slices d rm cpu gpu gs of Done gs' \<Rightarrow> Done (g' # gs') | Fail \<Rightarrow> Fail | Undefined \<Rightarrow> Undefined)
      | Fail \<Rightarrow> Fail | Undefined \<Rightarrow> Undefined)"

text \<open>Range number \<open>k\<close>, skipped when no request meets it or there is no room for its residency map.\<close>

definition select_range :: "enc_rst \<Rightarrow> byte list \<Rightarrow> bool \<Rightarrow> nat \<Rightarrow> range_desc \<Rightarrow> group list \<Rightarrow> group list outcome" where
  "select_range E f v3 k d gs =
     (if \<not> list_ex (req_overlaps d) gs \<or> \<not> re_alloc (er_files E) (max 1 (rd_resmap_size d)) then Done gs
      else case select_sections E f v3 k d of None \<Rightarrow> Undefined | Some (rm, cpu, gpu) \<Rightarrow> extract_slices d rm cpu gpu gs)"

fun select_ranges :: "enc_rst \<Rightarrow> byte list \<Rightarrow> bool \<Rightarrow> nat \<Rightarrow> range_desc list \<Rightarrow> group list \<Rightarrow> group list outcome" where
  "select_ranges E f v3 k [] gs = Done gs"
| "select_ranges E f v3 k (d # ds) gs =
     (case select_range E f v3 k d gs of Done gs' \<Rightarrow> select_ranges E f v3 (k + 1) ds gs' | Fail \<Rightarrow> Fail | Undefined \<Rightarrow> Undefined)"

definition ckpt_restore_selective_encrypted :: "enc_rst \<Rightarrow> byte list \<Rightarrow> byte list \<Rightarrow> (nat \<times> nat) list \<Rightarrow> group list outcome" where
  "ckpt_restore_selective_encrypted E fb fd reqs =
     (let env = er_files E; n = field 8 4 fb
      in if reqs = [] then Done []
         else if \<not> re_alloc env (length reqs * MEM_BLOCK_SIZE) \<or> \<not> list_all (\<lambda>r. re_alloc env (snd r)) reqs then Fail
         else if \<not> fst (re_open env) then Fail
         else if length fb < V2_HDR_SIZE \<or> field 0 4 fb \<noteq> CKPT_V2_MAGIC then Fail
         else if MAX_RANGES < n then Fail
         else if \<not> re_alloc env (n * DESC_SIZE) then Fail
         else case read_descs fb V2_HDR_SIZE n of None \<Rightarrow> Fail
           | Some ds \<Rightarrow> select_ranges E fb (field 4 4 fb = 3) 0 ds (map (\<lambda>r. \<lparr>g_va = fst r, g_sz = snd r, g_mem = (\<lambda>_. 0)\<rparr>) reqs))"

section \<open>The page loop\<close>

lemma skip_pages_counts:
  "p + n \<le> length rm \<Longrightarrow> skip_pages rm p n co go = Some (co + PAGE_SIZE * count_list (take n (drop p rm)) 0, go + PAGE_SIZE * count_list (take n (drop p rm)) 1)"
proof (induction n arbitrary: p co go)
  case (Suc n)
  then have "drop p rm = rm ! p # drop (p + 1) rm" by (simp add: Cons_nth_drop_Suc)
  then show ?case using Suc by (auto simp: algebra_simps)
qed simp

lemma extract_loop_overlay:
  assumes "p + n \<le> length rm" "rq \<le> base + p * PAGE_SIZE" "base + (p + n) * PAGE_SIZE \<le> rq + sz" "rq + sz < 2 ^ 64"
    and "co + PAGE_SIZE * count_list (take n (drop p rm)) 0 \<le> length cpu" "go + PAGE_SIZE * count_list (take n (drop p rm)) 1 \<le> length gpu"
    and "\<forall>k < sz. m k = M (rq + k)"
  shows "\<exists>m'. extract_loop rm cpu gpu base rq sz (base + (p + n) * PAGE_SIZE) (base + p * PAGE_SIZE) co go m = Done m' \<and>
    (\<forall>k < sz. m' k = overlay (base + p * PAGE_SIZE) (take n (drop p rm)) (drop co cpu) (drop go gpu) M (rq + k))"
  using assms
proof (induction n arbitrary: p co go m M)
  case 0
  then show ?case by (subst extract_loop.simps) simp
next
  case (Suc n)
  define pva where "pva = base + p * PAGE_SIZE"
  define oe where "oe = base + (p + Suc n) * PAGE_SIZE"
  define co' where "co' = (if rm ! p = 0 then co + PAGE_SIZE else co)"
  define go' where "go' = (if rm ! p = 1 then go + PAGE_SIZE else go)"
  define src where "src = (if rm ! p = 0 then Some (drop co cpu) else if rm ! p = 1 then Some (drop go gpu) else None)"
  have d: "take (Suc n) (drop p rm) = rm ! p # take n (drop (p + 1) rm)" using Suc.prems(1) by (simp add: Cons_nth_drop_Suc [symmetric])
  have nx: "pva + PAGE_SIZE = base + (p + 1) * PAGE_SIZE" "oe = base + (p + 1 + n) * PAGE_SIZE" by (simp_all add: pva_def oe_def)
  have le: "pva + PAGE_SIZE \<le> oe" "oe \<le> rq + sz" "rq \<le> pva" using Suc.prems(2,3) by (simp_all add: pva_def oe_def)
  have pi: "(pva - base) div PAGE_SIZE = p" "p < length rm" "\<not> pva \<ge> oe" using Suc.prems(1) le(1) by (simp_all add: pva_def)
  have pre: "p + 1 + n \<le> length rm" "rq \<le> base + (p + 1) * PAGE_SIZE" "base + (p + 1 + n) * PAGE_SIZE \<le> rq + sz" "rq + sz < 2 ^ 64"
    "co' + PAGE_SIZE * count_list (take n (drop (p + 1) rm)) 0 \<le> length cpu" "go' + PAGE_SIZE * count_list (take n (drop (p + 1) rm)) 1 \<le> length gpu"
    using Suc.prems le(3) by (simp_all add: d co'_def go'_def pva_def split: if_splits)
  have sl: "PAGE_SIZE \<le> length s" if "src = Some s" for s using that Suc.prems(5,6) by (auto simp: src_def d split: if_splits)
  let ?m = "case src of None \<Rightarrow> m | Some s \<Rightarrow> write_mem m (pva - rq) (take PAGE_SIZE s)"
  let ?M = "case src of None \<Rightarrow> M | Some s \<Rightarrow> write_mem M pva (take PAGE_SIZE s)"
  have nz: "\<not> sz < pva - rq + PAGE_SIZE" "\<not> length rm \<le> p" "\<not> 2 ^ 64 \<le> pva + PAGE_SIZE" using le pi(2) Suc.prems(4) by linarith+
  have ca: "co + PAGE_SIZE \<le> length cpu" if "rm ! p = 0" using that Suc.prems(5) by (simp add: d)
  have ga: "go + PAGE_SIZE \<le> length gpu" if "rm ! p = 1" using that Suc.prems(6) by (simp add: d)
  have body: "extract_loop rm cpu gpu base rq sz oe pva co go m = extract_loop rm cpu gpu base rq sz oe (pva + PAGE_SIZE) co' go' ?m"
    using nz pi(3) ca ga
    by (subst extract_loop.simps, unfold Let_def pi(1)) (auto simp: co'_def go'_def src_def)
  have ov: "overlay pva (take (Suc n) (drop p rm)) (drop co cpu) (drop go gpu) M = overlay (pva + PAGE_SIZE) (take n (drop (p + 1) rm)) (drop co' cpu) (drop go' gpu) ?M"
    by (simp add: d src_def co'_def go'_def add.commute)
  have "\<forall>k < sz. ?m k = ?M (rq + k)"
  proof (cases src)
    case (Some s)
    have "write_mem m (pva - rq) (take PAGE_SIZE s) k = write_mem M pva (take PAGE_SIZE s) (rq + k)" if "k < sz" for k
      using Suc.prems(7) that le(3) by (auto simp: write_mem_def add.commute)
    then show ?thesis by (simp add: Some)
  qed (use Suc.prems(7) in simp)
  from Suc.IH [OF pre this] show ?case unfolding pva_def [symmetric] oe_def [symmetric] body ov unfolding nx(1) nx(2) by simp
qed

lemma overlay_append:
  "overlay va (A @ B) cpu gpu m = overlay (va + length A * PAGE_SIZE) B (drop (PAGE_SIZE * count_list A 0) cpu) (drop (PAGE_SIZE * count_list A 1) gpu) (overlay va A cpu gpu m)"
  by (induction A arbitrary: va cpu gpu m) (simp_all add: algebra_simps)

section \<open>One range\<close>

lemma extract_slice_overlay:
  assumes "cap_ok p" "rd_base_va d = rc_base p" "rd_length d = rc_length p" "rc_base p mod PAGE_SIZE = 0"
    and "g_va g mod PAGE_SIZE = 0" "g_sz g mod PAGE_SIZE = 0" "g_va g + g_sz g < 2 ^ 64" "groups_hold [g] M"
  shows "\<exists>g'. extract_slice d (take (rc_n_pages p) (rc_resmap p)) (cpu_part p) (gpu_part p) g = Done g' \<and> shape g' = shape g \<and> groups_hold [g'] (apply_cap p M)"
proof -
  define rm where "rm = take (rc_n_pages p) (rc_resmap p)"
  define base where "base = rc_base p"
  define N where "N = rc_n_pages p"
  have ok: "cap_end p = base + N * PAGE_SIZE" "cap_end p < 2 ^ 64" "length rm = N" "length (cpu_part p) = PAGE_SIZE * count_list rm 0"
    "length (gpu_part p) = PAGE_SIZE * count_list rm 1" using assms(1) by (auto simp: cap_ok_def cap_wf_def cap_end_def base_def N_def rm_def)
  have ap: "apply_cap p = overlay base rm (cpu_part p) (gpu_part p)" by (simp add: apply_cap_def fun_eq_iff base_def rm_def)
  have u: "u64 (rd_base_va d + rd_length d) = base + N * PAGE_SIZE" "u64 (g_va g + g_sz g) = g_va g + g_sz g"
    using ok(1,2) assms(2,3,7) by (simp_all add: u64_small cap_end_def)
  show ?thesis
  proof (cases "req_overlaps d g")
    case False
    then have out: "g_va g + g_sz g \<le> rc_base p \<or> cap_end p \<le> g_va g" using u ok(1) assms(2) by (auto simp: req_overlaps_def base_def)
    have "apply_cap p M (g_va g + k) = M (g_va g + k)" if "k < g_sz g" for k
      by (rule apply_cap_out) (use out that ok(1) in \<open>auto simp: base_def N_def\<close>)
    then have "groups_hold [g] (apply_cap p M)" using assms(8) by (simp add: groups_hold_def)
    moreover have "extract_slice d rm (cpu_part p) (gpu_part p) g = Done g" using False by (simp add: extract_slice_def Let_def)
    ultimately show ?thesis unfolding rm_def by blast
  next
    case True
    define os where "os = (if g_va g \<ge> base then g_va g else base)"
    define oe where "oe = (if g_va g + g_sz g \<le> base + N * PAGE_SIZE then g_va g + g_sz g else base + N * PAGE_SIZE)"
    have tr: "base < g_va g + g_sz g" "g_va g < base + N * PAGE_SIZE" using True assms(2) u by (simp_all add: req_overlaps_def base_def)
    have le: "base \<le> os" "g_va g \<le> os" "oe \<le> g_va g + g_sz g" "oe \<le> base + N * PAGE_SIZE" "os \<le> oe"
      using tr by (auto simp: os_def oe_def)
    obtain i j l where e: "base = PAGE_SIZE * i" "g_va g = PAGE_SIZE * j" "g_sz g = PAGE_SIZE * l" using assms(4-6) by (auto simp: base_def mod_eq_0_iff_dvd dvd_def)
    have "\<exists>a. os = PAGE_SIZE * a" "\<exists>a. oe = PAGE_SIZE * a"
      unfolding os_def oe_def e by (auto intro: exI [of _ "i + N"] exI [of _ "j + l"] simp: algebra_simps)
    then obtain a c where ac: "os = PAGE_SIZE * a" "oe = PAGE_SIZE * c" by blast
    define f where "f = a - i"
    define n where "n = c - a"
    have fn: "os = base + f * PAGE_SIZE" "oe = base + (f + n) * PAGE_SIZE" "f + n \<le> N" "(os - base) div PAGE_SIZE = f"
      using le unfolding ac e(1) by (auto simp: f_def n_def algebra_simps)
    let ?A = "take f rm" and ?W = "take n (drop f rm)" and ?C = "drop (f + n) rm"
    have sp: "rm = ?A @ ?W @ ?C" by (metis add.commute append_take_drop_id drop_drop)
    define co where "co = PAGE_SIZE * count_list ?A 0"
    define go where "go = PAGE_SIZE * count_list ?A 1"
    have cnt: "count_list rm v = count_list ?A v + count_list ?W v + count_list ?C v" for v by (subst sp) simp
    have sk: "skip_pages rm 0 f 0 0 = Some (co, go)" using skip_pages_counts [of 0 f rm 0 0] fn(3) ok(3) by (simp add: co_def go_def)
    define M1 where "M1 = overlay base ?A (cpu_part p) (gpu_part p) M"
    have "base + f * PAGE_SIZE \<le> g_va g + k" if "0 < f" for k
      using that fn(1) le(1) by (auto simp: os_def split: if_splits)
    then have M1: "\<forall>k < g_sz g. g_mem g k = M1 (g_va g + k)"
      using assms(8) overlay_out [of _ base ?A] fn(3) ok(3) unfolding M1_def groups_hold_def by (cases "f = 0") auto
    have "\<exists>m'. extract_loop rm (cpu_part p) (gpu_part p) base (g_va g) (g_sz g) (base + (f + n) * PAGE_SIZE) (base + f * PAGE_SIZE) co go (g_mem g) = Done m' \<and>
        (\<forall>k < g_sz g. m' k = overlay (base + f * PAGE_SIZE) ?W (drop co (cpu_part p)) (drop go (gpu_part p)) M1 (g_va g + k))"
      by (rule extract_loop_overlay [OF _ _ _ _ _ _ M1])
        (use assms(7) fn le ok(3-5) cnt [of 0] cnt [of 1] in \<open>auto simp: co_def go_def algebra_simps\<close>)
    then obtain m' where m': "extract_loop rm (cpu_part p) (gpu_part p) base (g_va g) (g_sz g) oe os co go (g_mem g) = Done m'"
        "\<forall>k < g_sz g. m' k = overlay (base + f * PAGE_SIZE) ?W (drop co (cpu_part p)) (drop go (gpu_part p)) M1 (g_va g + k)" using fn(1,2) by auto
    have res: "extract_slice d rm (cpu_part p) (gpu_part p) g = Done (g\<lparr>g_mem := m'\<rparr>)"
      unfolding extract_slice_def Let_def u unfolding assms(2) base_def [symmetric] os_def [symmetric] oe_def [symmetric] fn(4) using True sk m'(1) by simp
    have "apply_cap p M (g_va g + k) = m' k" if k: "k < g_sz g" for k
    proof -
      define M2 where "M2 = overlay (base + f * PAGE_SIZE) ?W (drop co (cpu_part p)) (drop go (gpu_part p)) M1"
      have fa: "length ?A = f" "length ?W = n" using fn(3) ok(3) by simp_all
      have "apply_cap p M = overlay (base + f * PAGE_SIZE + n * PAGE_SIZE) ?C (drop (PAGE_SIZE * count_list ?W 0) (drop co (cpu_part p)))
          (drop (PAGE_SIZE * count_list ?W 1) (drop go (gpu_part p))) M2"
        unfolding ap by (subst sp) (simp only: overlay_append fa M2_def M1_def co_def go_def)
      moreover have "g_va g + k < base + f * PAGE_SIZE + n * PAGE_SIZE \<or> ?C = []"
        using k fn(2) ok(3) by (auto simp: oe_def add_mult_distrib split: if_splits)
      ultimately show ?thesis using m'(2) k overlay_out [of "g_va g + k" "base + f * PAGE_SIZE + n * PAGE_SIZE" ?C] unfolding M2_def by auto
    qed
    then have "groups_hold [g\<lparr>g_mem := m'\<rparr>] (apply_cap p M)" by (simp add: groups_hold_def)
    then show ?thesis using res unfolding rm_def by (intro exI [of _ "g\<lparr>g_mem := m'\<rparr>"]) (simp add: shape_def)
  qed
qed

section \<open>The sections of a sealed capture\<close>

lemma load_meta_at: "desc_at f d c \<Longrightarrow> load_meta f d b m = write_mem m (rb_meta b) (cap_meta c)"
  by (simp only: load_meta_def read_into_def desc_at_meta(1) [THEN read_bytes_take])

lemma read_sections_at:
  assumes "desc_at f d c"
  shows "read_into f (rd_data_offset d) (rd_resmap_size d) a m = write_mem m a (take (rc_n_pages c) (rc_resmap c))"
    "read_into f (u64 (rd_data_offset d + rd_resmap_size d)) (rd_cpu_bytes d) a m = write_mem m a (cpu_part c)"
    "read_into f (u64 (rd_data_offset d + rd_resmap_size d + rd_cpu_bytes d)) (rd_gpu_bytes d) a m = write_mem m a (gpu_part c)"
  by (simp_all only: read_into_def desc_at_reads [OF assms, THEN read_bytes_take, unfolded u64_add])

lemma select_gpu_sealed:
  assumes "desc_at f d c" "sealed_fit E key B b xs ys (cpu_part c)" "cap_meta c = metas_of (xs @ ys)" "gpu_part c = ciphers_of xs" "xs \<noteq> []"
    and "rd_crypto_meta_bytes d = length (xs @ ys) * META_SIZE" "rd_gpu_bytes d = length (ciphers_of xs)" "all_alloc (er_files E)"
  shows "select_gpu E f True b d m = Some (write_mem (write_mem (write_mem m (rb_gpu b) (ciphers_of xs)) (rb_meta b) (metas_of (xs @ ys))) (rb_gpu_plain b) (plains_of xs))"
proof -
  note ok = sealed_fit_ok [OF assms(2)] and ft = assms(2) [unfolded sealed_fit_def]
  let ?m2 = "write_mem (write_mem m (rb_gpu b) (ciphers_of xs)) (rb_meta b) (metas_of (xs @ ys))"
  have lm: "length (metas_of (xs @ ys)) = length (xs @ ys) * META_SIZE" by (rule length_metas_of) (use ok in blast)
  have me: "read_mem ?m2 (rb_meta b) (length (xs @ ys) * META_SIZE) = metas_of (xs @ ys)" using lm by (simp add: read_write_same)
  have gp: "read_mem ?m2 (rb_gpu b) (length (ciphers_of xs)) = ciphers_of xs"
    using bufs_apart_pairs(9) [of B b "length (ciphers_of xs)" "length (xs @ ys) * META_SIZE"] ft lm by (simp add: apart_read read_write_same)
  have "sealed_fit E key B b xs [] []" using ft by (simp add: sealed_fit_def add_mult_distrib)
  moreover have "sealed_at b xs [] [] ?m2"
    using metas_split(1) [OF conjunct1 [OF ok] me] gp by (simp add: sealed_at_def read_mem_def)
  ultimately have dec: "decrypt_section E (rb_gpu b) (rb_gpu_plain b) (length (ciphers_of xs)) (rb_meta b) (length xs) k True True ?m2 =
      Some (True, write_mem ?m2 (rb_gpu_plain b) (plains_of xs))" for k by (rule gpu_opened [OF _ _ assms(5)])
  have cnt: "count_metas ?m2 (rb_meta b) (length (ciphers_of xs)) (length (xs @ ys)) 0 0 = length xs"
    using count_metas_prefix [OF conjunct1 [OF ok] me, of 0] ok ft by simp
  have n: "length (xs @ ys) * META_SIZE div META_SIZE = length (xs @ ys)" "0 < length (xs @ ys) * META_SIZE" using assms(5) by simp_all
  have "er_uvm E" using ft by (simp add: restore_ready_def driver_ready_def)
  moreover have "re_alloc (er_files E) z" for z using assms(8) by (simp add: all_alloc_def)
  ultimately show ?thesis
    using dec cnt n(2) unfolding select_gpu_def Let_def read_sections_at [OF assms(1)] load_meta_at [OF assms(1)]
    unfolding assms(3,4,6,7) n(1) gpu_entries_def by simp
qed

lemma select_cpu_sealed:
  assumes "desc_at f d c" "sealed_fit E key B b xs ys (cpu_part c)" "cap_meta c = metas_of (xs @ ys)"
    and "rd_crypto_meta_bytes d = length (xs @ ys) * META_SIZE" "rd_gpu_bytes d = length (ciphers_of xs)" "rd_cpu_bytes d = length (cpu_part c)" "all_alloc (er_files E)"
    and "length z \<le> B" "rs \<le> B" "cp = (if ys = [] then cpu_part c else plains_of ys)"
  shows "\<exists>m'. select_cpu E f True b d m = Some m' \<and> read_mem m' (rb_cpu_plain b) (length (cpu_part c)) = cp \<and>
    read_mem m' (rb_resmap b) rs = read_mem m (rb_resmap b) rs \<and> read_mem m' (rb_gpu_plain b) (length z) = read_mem m (rb_gpu_plain b) (length z)"
proof -
  note ok = sealed_fit_ok [OF assms(2)] and ft = assms(2) [unfolded sealed_fit_def]
  let ?C = "cpu_part c"
  let ?m1 = "write_mem m (rb_cpu b) ?C"
  let ?m2 = "write_mem ?m1 (rb_meta b) (metas_of (xs @ ys))"
  have fl: "bufs_apart B b" "length (xs @ ys) * META_SIZE \<le> B" "length ?C \<le> B" using ft by simp_all
  have lm: "length (metas_of (xs @ ys)) = length (xs @ ys) * META_SIZE" by (rule length_metas_of) (use ok in blast)
  have lc: "length cp = length ?C"
  proof (cases "ys = []")
    case False
    then have "?C = ciphers_of ys" using ft by blast
    then have "length ?C = length (ciphers_of ys)" by (rule arg_cong)
    then show ?thesis using length_plains_of [of ys] ok False by (simp add: assms(10) del: length_take)
  qed (simp add: assms(10))
  have me: "read_mem ?m2 (rb_meta b) (length (xs @ ys) * META_SIZE) = metas_of (xs @ ys)" using lm by (simp add: read_write_same)
  note cm = bufs_apart_pairs(13) [OF fl(1,3,2)]
  have cs: "read_mem ?m1 (rb_cpu b) (length ?C) = ?C" "read_mem ?m2 (rb_cpu b) (length ?C) = ?C" using cm lm by (simp_all add: apart_read read_write_same del: length_take)
  have cnt: "count_metas ?m2 (rb_meta b) (length (ciphers_of xs)) (length (xs @ ys)) 0 0 = length xs"
    using count_metas_prefix [OF conjunct1 [OF ok] me, of 0] ok ft by simp
  have n: "length (xs @ ys) * META_SIZE div META_SIZE = length (xs @ ys)" by simp
  have key: "er_key E \<noteq> None" using ft by (simp add: restore_ready_def)
  have al: "re_alloc (er_files E) y" for y using assms(7) by (simp add: all_alloc_def)
  define m' where "m' = write_mem (if xs @ ys = [] then ?m1 else ?m2) (rb_cpu_plain b) cp"
  have run: "select_cpu E f True b d m = Some m'"
  proof (cases "ys = []")
    case True
    then show ?thesis
      using cs cnt key al unfolding select_cpu_def Let_def read_sections_at [OF assms(1)] load_meta_at [OF assms(1)]
      unfolding assms(3-6) n gpu_entries_def
      by (simp add: m'_def assms(10) copy_area_def)
  next
    case False
    note dec = cpu_opened [OF assms(2) me cs(2) False, of False]
    have "0 < length (xs @ ys) * META_SIZE" "length (xs @ ys) - length xs = length ys" "0 < length ys" using False by simp_all
    then show ?thesis
      using dec cnt key al False unfolding select_cpu_def Let_def read_sections_at [OF assms(1)] load_meta_at [OF assms(1)]
      unfolding assms(3-6) n gpu_entries_def
      by (simp add: m'_def assms(10))
  qed
  have "read_mem m' (rb_cpu_plain b) (length ?C) = cp" unfolding m'_def by (rule read_write_same) (rule lc)
  moreover have "read_mem m' (rb_resmap b) rs = read_mem m (rb_resmap b) rs"
    using bufs_apart_pairs(8) [OF fl(1,3) assms(9)] bufs_apart_pairs(12) [OF fl(1,3) assms(9)] bufs_apart_pairs(14) [OF fl(1,2) assms(9)] lc lm
    by (simp add: m'_def apart_read apart_commute del: length_take)
  moreover have "read_mem m' (rb_gpu_plain b) (length z) = read_mem m (rb_gpu_plain b) (length z)"
    using bufs_apart_pairs(2) [OF fl(1) assms(8) fl(2)] bufs_apart_pairs(3,4) [OF fl(1) assms(8) fl(3)] lc lm
    by (simp add: m'_def apart_read del: length_take)
  ultimately show ?thesis using run by blast
qed

lemma select_sections_sealed:
  assumes "desc_at f d c" "v3_sealed E key c p" "restore_ready E key" "bufs_apart B (er_bufs E False k)" "length f \<le> B" "all_alloc (er_files E)"
  shows "select_sections E f True k d = Some (take (rc_n_pages p) (rc_resmap p), cpu_part p, gpu_part p)"
proof -
  let ?b = "er_bufs E False k" and ?m = "er_heap E False k"
  let ?r = "take (rc_n_pages p) (rc_resmap p)"
  obtain xs ys where x: "sealed_fit E key B ?b xs ys (cpu_part c)" "rd_crypto_meta_bytes d = length (xs @ ys) * META_SIZE"
    "rd_gpu_bytes d = length (ciphers_of xs)" "rd_cpu_bytes d = length (cpu_part c)" "gpu_part p = plains_of xs"
    "cpu_part p = (if ys = [] then cpu_part c else plains_of ys)" "sealed_at ?b xs ys (cpu_part c) (load_meta f d ?b (load_data f d ?b ?m))" "rd_resmap_size d \<le> B"
    by (rule sealed_loaded [OF assms(1-5), of ?m])
  note ok = sealed_fit_ok [OF x(1)] and ft = x(1) [unfolded sealed_fit_def]
  have lm: "length (metas_of (xs @ ys)) = length (xs @ ys) * META_SIZE" by (rule length_metas_of) (use ok in blast)
  have lp: "length (plains_of xs) = length (ciphers_of xs)" using ok length_plains_of by simp
  have rp: "?r = take (rc_n_pages c) (rc_resmap c)" using assms(2) by (simp add: v3_sealed_def)
  have gc: "gpu_part c = ciphers_of xs"
    using loaded(3) [OF assms(1,4,5) refl, of ?m] x(7) bufs_apart_pairs(9) [OF assms(4), of "length (ciphers_of xs)" "length (xs @ ys) * META_SIZE"] ft
    unfolding sealed_at_def load_meta_at [OF assms(1)] x(3) [symmetric] desc_at_meta(2) [OF assms(1), symmetric]
    by (simp add: x(2,3) apart_read desc_at_meta(2) [OF assms(1), symmetric])
  have cm: "cap_meta c = metas_of (xs @ ys)"
    using x(7) desc_at_meta(2) [OF assms(1)] unfolding sealed_at_def load_meta_at [OF assms(1)] x(2) by (simp add: read_write_same del: concat_append)
  define m0 where "m0 = write_mem ?m (rb_resmap ?b) ?r"
  have lr: "length ?r = rd_resmap_size d" using loaded(1) [OF assms(1,4,5) refl, of ?m] unfolding rp by (metis length_read_mem)
  have r0: "read_into f (rd_data_offset d) (rd_resmap_size d) (rb_resmap ?b) ?m = m0" by (simp add: read_sections_at [OF assms(1)] m0_def rp)
  have al: "re_alloc (er_files E) z" for z using assms(6) by (simp add: all_alloc_def)
  have rm0: "read_mem m0 (rb_resmap ?b) (rd_resmap_size d) = ?r" unfolding m0_def by (rule read_write_same) (rule lr)
  obtain m1 where m1: "(if 0 < rd_gpu_bytes d then select_gpu E f True ?b d m0 else Some m0) = Some m1" "read_mem m1 (rb_resmap ?b) (rd_resmap_size d) = ?r"
      "read_mem m1 (rb_gpu_plain ?b) (length (plains_of xs)) = plains_of xs"
  proof (cases "xs = []")
    case True
    then show thesis using that [of m0] rm0 x(3) by (simp add: read_mem_def)
  next
    case False
    let ?m1 = "write_mem (write_mem (write_mem m0 (rb_gpu ?b) (ciphers_of xs)) (rb_meta ?b) (metas_of (xs @ ys))) (rb_gpu_plain ?b) (plains_of xs)"
    have "0 < rd_gpu_bytes d" using ciphers_empty [of xs] ok False x(3) by auto
    moreover have "read_mem ?m1 (rb_resmap ?b) (rd_resmap_size d) = ?r"
      using rm0 bufs_apart_pairs(5,11) [OF assms(4) _ x(8), of "length (ciphers_of xs)"] bufs_apart_pairs(14) [OF assms(4) _ x(8), of "length (xs @ ys) * META_SIZE"] ft lp lm
      by (simp add: apart_read apart_commute del: concat_append map_append length_append)
    moreover have "read_mem ?m1 (rb_gpu_plain ?b) (length (plains_of xs)) = plains_of xs" by (rule read_write_same [OF refl])
    ultimately show thesis using that [of ?m1] select_gpu_sealed [OF assms(1) x(1) cm gc False x(2,3) assms(6)] by simp
  qed
  have zB: "length (plains_of xs) \<le> B" using lp ft by simp
  obtain m2 where m2: "(if 0 < rd_cpu_bytes d then select_cpu E f True ?b d m1 else Some m1) = Some m2" "read_mem m2 (rb_resmap ?b) (rd_resmap_size d) = ?r"
      "read_mem m2 (rb_gpu_plain ?b) (length (plains_of xs)) = plains_of xs" "0 < rd_cpu_bytes d \<longrightarrow> read_mem m2 (rb_cpu_plain ?b) (rd_cpu_bytes d) = cpu_part p"
  proof (cases "0 < rd_cpu_bytes d")
    case True
    from select_cpu_sealed [OF assms(1) x(1) cm x(2-4) assms(6) zB x(8,6), of m1]
    obtain m' where "select_cpu E f True ?b d m1 = Some m'" "read_mem m' (rb_cpu_plain ?b) (length (cpu_part c)) = cpu_part p"
      "read_mem m' (rb_resmap ?b) (rd_resmap_size d) = read_mem m1 (rb_resmap ?b) (rd_resmap_size d)"
      "read_mem m' (rb_gpu_plain ?b) (length (plains_of xs)) = read_mem m1 (rb_gpu_plain ?b) (length (plains_of xs))" by blast
    then show thesis using that [of m'] True m1(2,3) x(4) by simp
  qed (use that [of m1] m1 in simp)
  have fs: "length (gpu_part p) = rd_gpu_bytes d" "length (cpu_part p) = rd_cpu_bytes d" using sealed_fields(1,2) [OF assms(1,2,5)] .
  have "(if 0 < rd_cpu_bytes d then read_mem m2 (rb_cpu_plain ?b) (rd_cpu_bytes d) else []) = cpu_part p"
  proof (cases "0 < rd_cpu_bytes d")
    case False
    then have "length (cpu_part p) = 0" using fs(2) by linarith
    then have "cpu_part p = []" by (simp only: length_0_conv)
    then show ?thesis using False by simp
  qed (use m2(4) in simp)
  moreover have "(if 0 < rd_gpu_bytes d then read_mem m2 (rb_gpu_plain ?b) (rd_gpu_bytes d) else []) = gpu_part p"
  proof (cases "0 < rd_gpu_bytes d")
    case False
    then have "length (gpu_part p) = 0" using fs(1) by linarith
    then have "gpu_part p = []" by (simp only: length_0_conv)
    then show ?thesis using False by simp
  next
    case True
    have "rd_gpu_bytes d = length (plains_of xs)" using fs(1) unfolding x(5) by (rule sym)
    then show ?thesis using True m2(3) unfolding x(5) by (simp only: if_True)
  qed
  ultimately show ?thesis
    unfolding select_sections_def Let_def r0 using al m1(1) m2(1,2) by simp
qed

section \<open>The restore\<close>

lemma extract_slices_overlay:
  assumes "cap_ok p" "rd_base_va d = rc_base p" "rd_length d = rc_length p" "rc_base p mod PAGE_SIZE = 0"
  shows "\<forall>g \<in> set gs. g_va g mod PAGE_SIZE = 0 \<and> g_sz g mod PAGE_SIZE = 0 \<and> g_va g + g_sz g < 2 ^ 64 \<Longrightarrow> groups_hold gs M \<Longrightarrow>
    \<exists>gs'. extract_slices d (take (rc_n_pages p) (rc_resmap p)) (cpu_part p) (gpu_part p) gs = Done gs' \<and> map shape gs' = map shape gs \<and> groups_hold gs' (apply_cap p M)"
proof (induction gs)
  case Nil
  then show ?case by (simp add: groups_hold_def)
next
  case (Cons g gs)
  have h: "groups_hold [g] M" "groups_hold gs M" using Cons.prems(2) by (simp_all add: groups_hold_def)
  obtain g' where g': "extract_slice d (take (rc_n_pages p) (rc_resmap p)) (cpu_part p) (gpu_part p) g = Done g'" "shape g' = shape g" "groups_hold [g'] (apply_cap p M)"
    using extract_slice_overlay [OF assms _ _ _ h(1)] Cons.prems(1) by auto
  obtain gs' where "extract_slices d (take (rc_n_pages p) (rc_resmap p)) (cpu_part p) (gpu_part p) gs = Done gs'" "map shape gs' = map shape gs" "groups_hold gs' (apply_cap p M)"
    using Cons.IH [OF _ h(2)] Cons.prems(1) by auto
  then show ?case using g' by (auto intro: groups_hold_ConsI)
qed

text \<open>Shapes decide whether a range is wanted; one that is not leaves every request.\<close>

lemma unwanted_range:
  assumes "\<not> list_ex (req_overlaps d) gs" "rd_base_va d = rc_base p" "rd_length d = rc_length p" "cap_ok p"
    and "\<forall>g \<in> set gs. g_va g + g_sz g < 2 ^ 64" "groups_hold gs M"
  shows "groups_hold gs (apply_cap p M)"
proof -
  have "apply_cap p M (g_va g + k) = M (g_va g + k)" if g: "g \<in> set gs" "k < g_sz g" for g k
  proof -
    have ok: "cap_end p = rc_base p + rc_n_pages p * PAGE_SIZE" "cap_end p < 2 ^ 64" using assms(4) by (auto simp: cap_ok_def cap_end_def)
    then have u: "u64 (rd_base_va d + rd_length d) = cap_end p" "u64 (g_va g + g_sz g) = g_va g + g_sz g"
      using assms(2,3,5) g(1) by (simp_all add: u64_small cap_end_def)
    have "\<not> req_overlaps d g" using assms(1) g(1) by (auto simp: list_ex_iff)
    then have "g_va g + g_sz g \<le> rc_base p \<or> cap_end p \<le> g_va g" using u assms(2) by (auto simp: req_overlaps_def)
    then show ?thesis by (intro apply_cap_out) (use ok g(2) in auto)
  qed
  then show ?thesis using assms(6) by (simp add: groups_hold_def)
qed

lemma select_ranges_overlay:
  assumes "list_all2 (sealed_desc E key B f) ds ps" "\<forall>p \<in> set ps. rc_base p mod PAGE_SIZE = 0"
    and "\<forall>g \<in> set gs. g_va g mod PAGE_SIZE = 0 \<and> g_sz g mod PAGE_SIZE = 0 \<and> g_va g + g_sz g < 2 ^ 64" "groups_hold gs M"
  shows "\<exists>gs'. select_ranges E f True k ds gs = Done gs' \<and> map shape gs' = map shape gs \<and> groups_hold gs' (fold apply_cap ps M)"
  using assms
proof (induction ds ps arbitrary: k gs M rule: list_all2_induct)
  case (Cons d ds p ps)
  note fl = sealed_desc_fields [OF Cons.hyps(1)]
  obtain c where c: "desc_at f d c" "v3_sealed E key c p" "restore_ready E key" "bufs_apart B (er_bufs E False k)" "length f \<le> B" "all_alloc (er_files E)"
    using Cons.hyps(1) by (auto simp: sealed_desc_def)
  have pa: "rc_base p mod PAGE_SIZE = 0" using Cons.prems(1) by simp
  have al: "re_alloc (er_files E) z" for z using c(6) by (simp add: all_alloc_def)
  obtain gs1 where g1: "select_range E f True k d gs = Done gs1" "map shape gs1 = map shape gs" "groups_hold gs1 (apply_cap p M)"
  proof (cases "list_ex (req_overlaps d) gs")
    case True
    then show thesis
      using that extract_slices_overlay [of p d gs M] fl pa Cons.prems(2,3) al
      by (auto simp: select_range_def select_sections_sealed [OF c])
  next
    case False
    then show thesis using that unwanted_range [OF False _ _ _ _ Cons.prems(3), of p] fl Cons.prems(2) by (auto simp: select_range_def)
  qed
  have sh: "\<forall>g \<in> set gs1. g_va g mod PAGE_SIZE = 0 \<and> g_sz g mod PAGE_SIZE = 0 \<and> g_va g + g_sz g < 2 ^ 64"
  proof
    fix g assume "g \<in> set gs1"
    then have "shape g \<in> set (map shape gs1)" by simp
    then obtain h where "h \<in> set gs" "shape h = shape g" unfolding g1(2) by auto
    then show "g_va g mod PAGE_SIZE = 0 \<and> g_sz g mod PAGE_SIZE = 0 \<and> g_va g + g_sz g < 2 ^ 64" using Cons.prems(2) by (auto simp: shape_def)
  qed
  from Cons.IH [OF _ sh g1(3), of "k + 1"] Cons.prems(1) g1(1,2) show ?case by auto
qed simp

lemma selective_encrypted_main:
  assumes "list_all2 (v3_sealed E key) caps ps" "length caps \<le> MAX_RANGES" "\<forall>p \<in> set ps. rc_base p mod PAGE_SIZE = 0"
    and "\<forall>r \<in> set reqs. fst r mod PAGE_SIZE = 0 \<and> snd r mod PAGE_SIZE = 0 \<and> fst r + snd r < 2 ^ 64"
    and "restore_ready E key" "all_alloc (er_files E)" "fst (re_open (er_files E))" "\<forall>dl k. bufs_apart B (er_bufs E dl k)"
    and "fb = base_image caps 3 @ junk" "length fb \<le> B"
  shows "\<exists>bs. ckpt_restore_selective_encrypted E fb fd reqs = Done bs \<and> map shape bs = reqs \<and> groups_hold bs (fold apply_cap ps (\<lambda>_. 0))"
proof -
  define gs0 where "gs0 = map (\<lambda>r :: nat \<times> nat. \<lparr>g_va = fst r, g_sz = snd r, g_mem = (\<lambda>_. 0)\<rparr>) reqs"
  have "bufs_apart B (er_bufs E True 0)" using assms(8) by blast
  then have B: "B < 2 ^ 64" by (simp add: bufs_apart_def Let_def)
  have ok: "\<forall>c \<in> set caps. cap_ok c" using assms(1) by (auto simp: list_all2_conv_all_nth in_set_conv_nth v3_sealed_def)
  have n32: "length caps < 2 ^ 32" and f64: "length fb < 2 ^ 64" using assms(2,10) B by simp_all
  note p = base_image_parse [OF ok n32 assms(9) f64]
  have al: "re_alloc (er_files E) n" for n using assms(6) by (simp add: all_alloc_def)
  note sd = sealed_descs [OF p(5) assms(1,5,6,8,10)]
  have sh: "map shape gs0 = reqs" and h0: "groups_hold gs0 (\<lambda>_. 0)"
    and bd: "\<forall>g \<in> set gs0. g_va g mod PAGE_SIZE = 0 \<and> g_sz g mod PAGE_SIZE = 0 \<and> g_va g + g_sz g < 2 ^ 64"
    using assms(4) by (auto simp: gs0_def shape_def groups_hold_def o_def)
  have v3: "field 4 4 fb = 3" unfolding assms(9) by (rule base_version)
  from select_ranges_overlay [OF sd assms(3) bd h0, of 0] show ?thesis
  proof (cases "reqs = []")
    case True
    then show ?thesis by (simp add: ckpt_restore_selective_encrypted_def groups_hold_def)
  next
    case False
    from select_ranges_overlay [OF sd assms(3) bd h0, of 0] sh show ?thesis
      using False p(1-4) v3 al assms(2,7) by (auto simp: ckpt_restore_selective_encrypted_def Let_def gs0_def [symmetric] list_all_iff)
  qed
qed

section \<open>Selective restore of an encrypted baseline\<close>



text \<open>Requests that are not whole pages: a block smaller than a page is overrun, and a block that starts inside a page receives
  the page's first byte.\<close>

lemma partial_page_overruns:
  assumes "rd_base_va d = 8192" "rd_length d = 4096" "length cpu = PAGE_SIZE"
  shows "extract_slice d [0] cpu gpu \<lparr>g_va = 8192, g_sz = 100, g_mem = m\<rparr> = Undefined"
  using assms by (simp add: extract_slice_def req_overlaps_def u64_small extract_loop.simps)

lemma inner_start_shifted:
  assumes "rd_base_va d = 8192" "rd_length d = 4096" "length cpu = PAGE_SIZE"
  shows "\<exists>g. extract_slice d [0] cpu gpu \<lparr>g_va = 8292, g_sz = 4096, g_mem = m\<rparr> = Done g \<and> g_mem g 0 = cpu ! 0"
  using assms by (simp add: extract_slice_def req_overlaps_def u64_small extract_loop.simps Let_def write_mem_def)

end
