(* ===== verification/Dirty_Regions.thy ===== *)
theory Dirty_Regions
  imports Snapshots
begin

text \<open>
  What \<open>main\<close> of \<open>ckpt_core.c\<close> captures: the managed ranges of the application's allocations for the baseline, and for the
  delta the dirty blocks, filtered, sorted and merged into regions. The precopy mode has a second version of the merge,
  which rounds to 2 MB, removes duplicates and writes into the table of the gate file.
\<close>

unbundle bit_operations_syntax

section \<open>The code\<close>

abbreviation PAGE_64K :: nat where "PAGE_64K \<equiv> 65536"
abbreviation CHUNK_2MB :: nat where "CHUNK_2MB \<equiv> 2097152"
abbreviation GATE_DIRTY_MAX :: nat where "GATE_DIRTY_MAX \<equiv> 8187"

record alloc_entry =
  ae_va :: nat
  ae_size :: nat
  ae_flags :: "32 word"

definition CKPT_ALLOC_FLAG_H2D :: "32 word" where
  "CKPT_ALLOC_FLAG_H2D = 1"

definition is_h2d :: "alloc_entry \<Rightarrow> bool" where
  "is_h2d a \<longleftrightarrow> ae_flags a AND CKPT_ALLOC_FLAG_H2D \<noteq> 0"

definition in_alloc :: "nat \<Rightarrow> nat \<Rightarrow> alloc_entry \<Rightarrow> bool" where
  "in_alloc s e a \<longleftrightarrow> ae_va a \<le> s \<and> e \<le> u64 (ae_va a + ae_size a)"

subsection \<open>The ranges of the baseline\<close>

text \<open>\<open>None\<close> for a range that is not kept, else whether it is static: the flag of the first allocation that holds it.\<close>

definition keep_range :: "alloc_entry list \<Rightarrow> nat \<Rightarrow> nat \<Rightarrow> nat \<times> nat \<Rightarrow> bool option" where
  "keep_range allocs user_va user_size r =
     (let s = fst r; e = u64 (fst r + snd r)
      in if allocs \<noteq> [] then map_option is_h2d (find (in_alloc s e) allocs)
         else if user_va = 0 \<or> user_va \<le> s \<and> e \<le> u64 (user_va + user_size) then Some False else None)"

text \<open>Ranges for the images, and static ranges for \<open>static.img\<close> while it does not exist.\<close>

fun filter_ranges :: "bool \<Rightarrow> bool \<Rightarrow> alloc_entry list \<Rightarrow> nat \<Rightarrow> nat \<Rightarrow> (nat \<times> nat) list \<Rightarrow> (nat \<times> nat) list \<times> (nat \<times> nat) list" where
  "filter_ranges st ex allocs user_va user_size [] = ([], [])"
| "filter_ranges st ex allocs user_va user_size (r # rs) =
     (case filter_ranges st ex allocs user_va user_size rs of (f, s) \<Rightarrow>
        (case keep_range allocs user_va user_size r of
           None \<Rightarrow> (f, s)
         | Some is_static \<Rightarrow> if st \<and> is_static then (f, if ex then s else r # s) else (r # f, s)))"

subsection \<open>The regions of the delta\<close>

definition dirty_kept :: "bool \<Rightarrow> alloc_entry list \<Rightarrow> nat \<Rightarrow> nat \<Rightarrow> nat \<Rightarrow> bool" where
  "dirty_kept st allocs user_va user_size a =
     (let e = u64 (a + PAGE_64K)
      in if allocs \<noteq> [] then (case find (in_alloc a e) allocs of None \<Rightarrow> False | Some x \<Rightarrow> \<not> (st \<and> is_h2d x))
         else user_va = 0 \<or> user_va \<le> a \<and> e \<le> u64 (user_va + user_size))"

text \<open>The run from \<open>s\<close> to \<open>e\<close> grows while the next block starts at \<open>e\<close>.\<close>

fun merge_run :: "nat \<Rightarrow> nat \<Rightarrow> nat list \<Rightarrow> (nat \<times> nat) list" where
  "merge_run s e [] = [(s, u64 (e + 2 ^ 64 - s))]"
| "merge_run s e (a # as) =
     (if a = e then merge_run s (u64 (e + CHUNK_2MB)) as
      else (s, u64 (e + 2 ^ 64 - s)) # merge_run a (u64 (a + CHUNK_2MB)) as)"

fun merge_blocks :: "nat list \<Rightarrow> (nat \<times> nat) list" where
  "merge_blocks [] = []"
| "merge_blocks (a # as) = merge_run a (u64 (a + CHUNK_2MB)) as"

definition delta_regions :: "bool \<Rightarrow> alloc_entry list \<Rightarrow> nat \<Rightarrow> nat \<Rightarrow> nat list \<Rightarrow> (nat \<times> nat) list" where
  "delta_regions st allocs user_va user_size dirty =
     merge_blocks (sort (filter (dirty_kept st allocs user_va user_size) dirty))"

subsection \<open>The table of the precopy mode\<close>

definition chunk_of :: "nat \<Rightarrow> nat" where
  "chunk_of a = a div CHUNK_2MB * CHUNK_2MB"

fun dedup :: "nat option \<Rightarrow> nat list \<Rightarrow> nat list" where
  "dedup prev [] = []"
| "dedup prev (a # as) = (if prev = Some a then dedup prev as else a # dedup (Some a) as)"

definition emit_range :: "(nat \<times> nat) list \<Rightarrow> nat \<Rightarrow> nat \<Rightarrow> (nat \<times> nat) list" where
  "emit_range out s e = (if length out < GATE_DIRTY_MAX then out @ [(s, u64 (e + 2 ^ 64 - s))] else out)"

fun precopy_loop :: "alloc_entry list \<Rightarrow> nat list \<Rightarrow> (nat \<times> nat) option \<Rightarrow> (nat \<times> nat) list \<Rightarrow> (nat \<times> nat) list" where
  "precopy_loop allocs [] cur out = (case cur of None \<Rightarrow> out | Some (s, e) \<Rightarrow> emit_range out s e)"
| "precopy_loop allocs (a # as) cur out =
     (let e' = u64 (a + CHUNK_2MB)
      in if \<not> list_ex (in_alloc a e') allocs then precopy_loop allocs as cur out
         else case cur of
           None \<Rightarrow> precopy_loop allocs as (Some (a, e')) out
         | Some (s, e) \<Rightarrow> if a = e then precopy_loop allocs as (Some (s, e')) out
             else precopy_loop allocs as (Some (a, e')) (emit_range out s e))"

definition precopy_table :: "alloc_entry list \<Rightarrow> nat list \<Rightarrow> (nat \<times> nat) list" where
  "precopy_table allocs dirty = precopy_loop allocs (dedup None (sort (map chunk_of dirty))) None []"

section \<open>What the merge does\<close>

lemma u64_diff [simp]:
  assumes "s \<le> e" "e < 18446744073709551616"
  shows "u64 (e + 18446744073709551616 - s) = e - s"
proof -
  have "e + 18446744073709551616 - s = (e - s) + 18446744073709551616" using assms(1) by simp
  then have "u64 (e + 18446744073709551616 - s) = ((e - s) + 18446744073709551616) mod 18446744073709551616"
    unfolding u64_def by (simp only: power_numeral Num.pow.simps Num.sqr.simps mult_num_simps)
  also have "\<dots> = e - s" using assms(2) by (simp only: mod_add_self2) simp
  finally show ?thesis .
qed

abbreviation covered :: "(nat \<times> nat) list \<Rightarrow> nat set" where
  "covered rs \<equiv> (\<Union>r \<in> set rs. {fst r ..< fst r + snd r})"

abbreviation blocks_of :: "nat set \<Rightarrow> nat set" where
  "blocks_of A \<equiv> (\<Union>a \<in> A. {a ..< a + CHUNK_2MB})"

lemma merge_run_covered:
  "s \<le> e \<Longrightarrow> e < 2 ^ 64 \<Longrightarrow> \<forall>a \<in> set as. a + CHUNK_2MB < 2 ^ 64 \<Longrightarrow> covered (merge_run s e as) = {s ..< e} \<union> blocks_of (set as)"
proof (induction as arbitrary: s e)
  case (Cons a as)
  have a: "u64 (a + CHUNK_2MB) = a + CHUNK_2MB" using Cons.prems(3) by (simp add: u64_small)
  show ?case
  proof (cases "a = e")
    case True
    have "covered (merge_run s (a + CHUNK_2MB) as) = {s ..< a + CHUNK_2MB} \<union> blocks_of (set as)"
      by (rule Cons.IH) (use Cons.prems True in auto)
    moreover have "{s ..< a + CHUNK_2MB} = {s ..< e} \<union> {a ..< a + CHUNK_2MB}" using Cons.prems(1) True by auto
    ultimately show ?thesis using True a by auto
  next
    case False
    have "covered (merge_run a (a + CHUNK_2MB) as) = {a ..< a + CHUNK_2MB} \<union> blocks_of (set as)"
      by (rule Cons.IH) (use Cons.prems in auto)
    then show ?thesis using False a Cons.prems(1,2) by auto
  qed
qed simp

lemma merge_blocks_covered: "\<forall>a \<in> set as. a + CHUNK_2MB < 2 ^ 64 \<Longrightarrow> covered (merge_blocks as) = blocks_of (set as)"
  by (cases as) (simp_all add: u64_small merge_run_covered)

text \<open>The regions are nonempty, and every region starts at a block.\<close>

lemma merge_run_starts: "s < e \<Longrightarrow> e < 2 ^ 64 \<Longrightarrow> \<forall>a \<in> set as. a + CHUNK_2MB < 2 ^ 64 \<Longrightarrow> r \<in> set (merge_run s e as) \<Longrightarrow> (fst r = s \<or> fst r \<in> set as) \<and> 0 < snd r \<and> fst r + snd r < 2 ^ 64"
proof (induction as arbitrary: s e)
  case (Cons a as)
  have a: "u64 (a + CHUNK_2MB) = a + CHUNK_2MB" using Cons.prems(3) by (simp add: u64_small)
  show ?case
  proof (cases "a = e")
    case True
    have "(fst r = s \<or> fst r \<in> set as) \<and> 0 < snd r \<and> fst r + snd r < 2 ^ 64"
      by (rule Cons.IH [of s "a + CHUNK_2MB"]) (use Cons.prems True a in auto)
    then show ?thesis by auto
  next
    case False
    then have "r = (s, e - s) \<or> r \<in> set (merge_run a (a + CHUNK_2MB) as)" using Cons.prems(1,2,4) a by auto
    then show ?thesis
    proof
      assume "r \<in> set (merge_run a (a + CHUNK_2MB) as)"
      from Cons.IH [OF _ _ _ this] Cons.prems(3) show ?thesis by auto
    qed (use Cons.prems in simp)
  qed
qed simp

lemma merge_blocks_starts:
  "\<forall>a \<in> set as. a + CHUNK_2MB < 2 ^ 64 \<Longrightarrow> r \<in> set (merge_blocks as) \<Longrightarrow> fst r \<in> set as \<and> 0 < snd r \<and> fst r + snd r < 2 ^ 64"
proof (cases as)
  case (Cons a bs)
  assume "\<forall>a \<in> set as. a + CHUNK_2MB < 2 ^ 64" "r \<in> set (merge_blocks as)"
  then show ?thesis using merge_run_starts [of a "a + CHUNK_2MB" bs r] by (simp add: Cons u64_small)
qed simp

text \<open>On the 2 MB grid the regions are whole chunks, in order, and separate.\<close>

lemma grid_step: "(a :: nat) < b \<Longrightarrow> a mod c = 0 \<Longrightarrow> b mod c = 0 \<Longrightarrow> a + c \<le> b"
proof -
  assume "a < b" "a mod c = 0" "b mod c = 0"
  then obtain i j where e: "a = c * i" "b = c * j" by (auto simp: mod_eq_0_iff_dvd elim!: dvdE)
  with \<open>a < b\<close> have "Suc i \<le> j" by simp
  then have "c * Suc i \<le> c * j" by (rule mult_le_mono2)
  then show ?thesis by (simp add: e)
qed

lemma merge_run_grid:
  assumes "s < e" "e < 2 ^ 64" "s mod CHUNK_2MB = 0" "e mod CHUNK_2MB = 0" "\<forall>a \<in> set as. a + CHUNK_2MB < 2 ^ 64 \<and> a mod CHUNK_2MB = 0" "sorted_wrt (<) as"
    and "\<forall>a \<in> set as. e \<le> a"
  shows "sorted_wrt (\<lambda>r r'. fst r + snd r < fst r') (merge_run s e as) \<and> (\<forall>r \<in> set (merge_run s e as). fst r mod CHUNK_2MB = 0 \<and> snd r mod CHUNK_2MB = 0 \<and> s \<le> fst r)"
  using assms
proof (induction as arbitrary: s e)
  case Nil
  then show ?case by (simp add: mod_eq_0_iff_dvd dvd_diff_nat)
next
  case (Cons a as)
  have a: "u64 (a + CHUNK_2MB) = a + CHUNK_2MB" "(a + CHUNK_2MB) mod CHUNK_2MB = 0" "a + CHUNK_2MB < 2 ^ 64" "a mod CHUNK_2MB = 0" using Cons.prems(5) by (simp_all add: u64_small)
  have nx: "\<forall>b \<in> set as. a + CHUNK_2MB \<le> b" using Cons.prems(5,6) grid_step [of a _ CHUNK_2MB] by simp
  have rest: "\<forall>a \<in> set as. a + CHUNK_2MB < 2 ^ 64 \<and> a mod CHUNK_2MB = 0" "sorted_wrt (<) as" using Cons.prems(5,6) by simp_all
  show ?case
  proof (cases "a = e")
    case True
    then show ?thesis using Cons.IH [of s "a + CHUNK_2MB", OF _ a(3) Cons.prems(3) a(2) rest nx] Cons.prems(1) a(1) by simp
  next
    case False
    note ih = Cons.IH [of a "a + CHUNK_2MB", OF _ a(3,4,2) rest nx]
    have "e < a" using False Cons.prems(7) by force
    then show ?thesis using ih False a(1) Cons.prems(1-4)
      by (auto simp: mod_eq_0_iff_dvd dvd_diff_nat intro: less_le_trans order_trans [of s a] less_imp_le)
  qed
qed

lemma merge_blocks_grid:
  assumes "\<forall>a \<in> set as. a + CHUNK_2MB < 2 ^ 64 \<and> a mod CHUNK_2MB = 0" "sorted_wrt (<) as"
  shows "sorted_wrt (\<lambda>r r'. fst r + snd r < fst r') (merge_blocks as) \<and> (\<forall>r \<in> set (merge_blocks as). fst r mod CHUNK_2MB = 0 \<and> snd r mod CHUNK_2MB = 0)"
proof (cases as)
  case (Cons a bs)
  have a: "u64 (a + CHUNK_2MB) = a + CHUNK_2MB" "(a + CHUNK_2MB) mod CHUNK_2MB = 0" "a + CHUNK_2MB < 2 ^ 64" "a mod CHUNK_2MB = 0" "a < a + CHUNK_2MB"
    using assms(1) by (simp_all add: Cons u64_small)
  have nx: "\<forall>b \<in> set bs. a + CHUNK_2MB \<le> b" using assms grid_step [of a _ CHUNK_2MB] by (simp add: Cons)
  have rest: "\<forall>a \<in> set bs. a + CHUNK_2MB < 2 ^ 64 \<and> a mod CHUNK_2MB = 0" "sorted_wrt (<) bs" using assms by (simp_all add: Cons)
  show ?thesis using merge_run_grid [OF a(5,3,4,2) rest nx] a(1) by (simp add: Cons)
qed simp

lemma delta_regions_covered:
  assumes "\<forall>a \<in> set dirty. a + CHUNK_2MB < 2 ^ 64"
  shows "covered (delta_regions st allocs uva usz dirty) = blocks_of {a \<in> set dirty. dirty_kept st allocs uva usz a}"
proof -
  let ?F = "sort (filter (dirty_kept st allocs uva usz) dirty)"
  have "covered (merge_blocks ?F) = blocks_of (set ?F)" by (rule merge_blocks_covered) (use assms in simp)
  then show ?thesis by (simp only: delta_regions_def set_sort set_filter)
qed

lemma delta_regions_grid:
  assumes "\<forall>a \<in> set dirty. a + CHUNK_2MB < 2 ^ 64 \<and> a mod CHUNK_2MB = 0" "distinct dirty"
  shows "sorted_wrt (\<lambda>r r'. fst r + snd r < fst r') (delta_regions st allocs uva usz dirty) \<and>
    (\<forall>r \<in> set (delta_regions st allocs uva usz dirty). fst r mod CHUNK_2MB = 0 \<and> snd r mod CHUNK_2MB = 0)"
  unfolding delta_regions_def
  by (rule merge_blocks_grid) (use assms in \<open>auto simp: strict_sorted_iff distinct_filter\<close>)

section \<open>The precopy table\<close>

lemma dedup_sorted:
  "sorted as \<Longrightarrow> (\<forall>p. prev = Some p \<longrightarrow> (\<forall>a \<in> set as. p \<le> a)) \<Longrightarrow>
   sorted_wrt (<) (dedup prev as) \<and> set (dedup prev as) = set as - set_option prev"
proof (induction as arbitrary: prev)
  case (Cons a as)
  show ?case
  proof (cases "prev = Some a")
    case True
    then show ?thesis using Cons.IH [of prev] Cons.prems by auto
  next
    case False
    have "sorted_wrt (<) (dedup (Some a) as) \<and> set (dedup (Some a) as) = set as - {a}" using Cons.IH [of "Some a"] Cons.prems by auto
    moreover have "\<forall>p. prev = Some p \<longrightarrow> p < a" using False Cons.prems(2) by (auto simp: order_le_less)
    ultimately show ?thesis using False Cons.prems by (cases prev) (auto simp: order_le_less)
  qed
qed simp

text \<open>The loop filters and merges, and stops storing when the table is full.\<close>

lemma precopy_loop_merge:
  assumes "\<forall>a \<in> set as. a + CHUNK_2MB < 2 ^ 64" "length out \<le> GATE_DIRTY_MAX"
  shows "precopy_loop allocs as cur out = take GATE_DIRTY_MAX (out @ (case cur of None \<Rightarrow> merge_blocks (filter (\<lambda>a. list_ex (in_alloc a (a + CHUNK_2MB)) allocs) as)
    | Some (s, e) \<Rightarrow> merge_run s e (filter (\<lambda>a. list_ex (in_alloc a (a + CHUNK_2MB)) allocs) as)))"
  using assms
proof (induction as arbitrary: cur out)
  case Nil
  then show ?case by (auto simp: emit_range_def split: option.splits)
next
  case (Cons a as)
  have a: "u64 (a + CHUNK_2MB) = a + CHUNK_2MB" and rest: "\<forall>a \<in> set as. a + CHUNK_2MB < 2 ^ 64" using Cons.prems(1) by (simp_all add: u64_small)
  note ih = Cons.IH [OF rest]
  have len: "length (emit_range out s e) \<le> GATE_DIRTY_MAX" for s e using Cons.prems(2) by (simp add: emit_range_def)
  have em: "take GATE_DIRTY_MAX (emit_range out s e @ xs) = take GATE_DIRTY_MAX (out @ (s, u64 (e + 2 ^ 64 - s)) # xs)" for s e xs
    using Cons.prems(2) by (cases "length out = GATE_DIRTY_MAX") (simp_all add: emit_range_def)
  show ?case
  proof (cases cur)
    case None
    then show ?thesis using ih [OF Cons.prems(2)] a by (simp add: Let_def)
  next
    case (Some c)
    obtain s e where c: "cur = Some (s, e)" using Some by (cases c) simp
    let ?F = "filter (\<lambda>a. list_ex (in_alloc a (a + CHUNK_2MB)) allocs) as"
    consider "\<not> list_ex (in_alloc a (a + CHUNK_2MB)) allocs" | "list_ex (in_alloc a (a + CHUNK_2MB)) allocs" "a = e"
      | "list_ex (in_alloc a (a + CHUNK_2MB)) allocs" "a \<noteq> e" by blast
    then show ?thesis
    proof cases
      case 3
      then have "precopy_loop allocs (a # as) cur out = precopy_loop allocs as (Some (a, a + CHUNK_2MB)) (emit_range out s e)" by (simp add: c a Let_def)
      also have "\<dots> = take GATE_DIRTY_MAX (emit_range out s e @ merge_run a (a + CHUNK_2MB) ?F)" by (simp only: ih [OF len] option.case prod.case)
      also have "\<dots> = take GATE_DIRTY_MAX (out @ (s, u64 (e + 2 ^ 64 - s)) # merge_run a (a + CHUNK_2MB) ?F)" by (rule em)
      also have "(s, u64 (e + 2 ^ 64 - s)) # merge_run a (a + CHUNK_2MB) ?F = merge_run s e (a # ?F)"
        using 3(2) by (simp only: merge_run.simps a if_False)
      finally show ?thesis using 3(1) by (simp only: c option.case prod.case filter.simps if_True)
    next
      case 2
      then show ?thesis using a by (simp add: c Let_def ih [OF Cons.prems(2)])
    qed (simp add: c a Let_def ih [OF Cons.prems(2)])
  qed
qed

lemma precopy_table_merge:
  assumes "\<forall>a \<in> set dirty. a + CHUNK_2MB < 2 ^ 64"
  obtains as where "precopy_table allocs dirty = take GATE_DIRTY_MAX (merge_blocks as)" "sorted_wrt (<) as"
    "set as = {c \<in> chunk_of ` set dirty. list_ex (in_alloc c (c + CHUNK_2MB)) allocs}" "\<forall>a \<in> set as. a + CHUNK_2MB < 2 ^ 64 \<and> a mod CHUNK_2MB = 0"
proof -
  define cs where "cs = dedup None (sort (map chunk_of dirty))"
  have c: "sorted_wrt (<) cs" "set cs = chunk_of ` set dirty" using dedup_sorted [of "sort (map chunk_of dirty)" None] by (simp_all add: cs_def)
  have le: "chunk_of a \<le> a" for a by (simp add: chunk_of_def)
  have b: "\<forall>a \<in> set cs. a + CHUNK_2MB < 2 ^ 64 \<and> a mod CHUNK_2MB = 0"
    unfolding c(2) using assms le by (fastforce simp: chunk_of_def intro: le_less_trans)
  let ?P = "\<lambda>a. list_ex (in_alloc a (a + CHUNK_2MB)) allocs"
  have "precopy_table allocs dirty = take GATE_DIRTY_MAX (merge_blocks (filter ?P cs))"
    using precopy_loop_merge [of cs "[]" allocs None] b by (simp add: precopy_table_def cs_def)
  moreover have "set (filter ?P cs) = {c \<in> chunk_of ` set dirty. list_ex (in_alloc c (c + CHUNK_2MB)) allocs}"
    using c(2) by auto
  moreover have "sorted_wrt (<) (filter ?P cs)" using c(1) by (rule sorted_wrt_filter)
  moreover have "\<forall>a \<in> set (filter ?P cs). a + CHUNK_2MB < 2 ^ 64 \<and> a mod CHUNK_2MB = 0" using b by simp
  ultimately show thesis by (intro that)
qed

section \<open>Properties\<close>

text \<open>C35: for dirty blocks on the 2 MB grid the regions of the delta cover exactly the blocks that lie in allocations that are
  captured; they are whole chunks, in address order, nonempty, and so far apart that none could be merged further.\<close>

theorem delta_regions_exact:
  assumes "\<forall>a \<in> set dirty. a + CHUNK_2MB < 2 ^ 64 \<and> a mod CHUNK_2MB = 0" "distinct dirty"
  shows "(\<Union>r \<in> set (delta_regions st allocs uva usz dirty). {fst r ..< fst r + snd r}) =
      (\<Union>a \<in> {a \<in> set dirty. dirty_kept st allocs uva usz a}. {a ..< a + CHUNK_2MB}) \<and>
    sorted_wrt (\<lambda>r r'. fst r + snd r < fst r') (delta_regions st allocs uva usz dirty) \<and>
    (\<forall>r \<in> set (delta_regions st allocs uva usz dirty). fst r mod CHUNK_2MB = 0 \<and> snd r mod CHUNK_2MB = 0 \<and> 0 < snd r)"
proof -
  have b: "\<forall>a \<in> set dirty. a + CHUNK_2MB < 2 ^ 64" using assms(1) by blast
  then have "\<forall>a \<in> set (sort (filter (dirty_kept st allocs uva usz) dirty)). a + CHUNK_2MB < 2 ^ 64" by simp
  then have "\<forall>r \<in> set (delta_regions st allocs uva usz dirty). 0 < snd r"
    using merge_blocks_starts unfolding delta_regions_def by blast
  then show ?thesis using delta_regions_grid [OF assms, of st allocs uva usz] unfolding delta_regions_covered [OF b] by simp
qed

definition demo_alloc :: alloc_entry where
  "demo_alloc = \<lparr>ae_va = 2097152, ae_size = 8388608, ae_flags = 0\<rparr>"

theorem delta_regions_exact_witness:
  "delta_regions False [demo_alloc] 0 0 [4194304, 16777216, 8388608, 2097152] = [(2097152, 4194304), (8388608, 2097152)] \<and>
   (\<Union>r \<in> set (delta_regions False [demo_alloc] 0 0 [4194304, 16777216, 8388608, 2097152]). {fst r ..< fst r + snd r}) =
      (\<Union>a \<in> {a \<in> set [4194304, 16777216, 8388608, 2097152]. dirty_kept False [demo_alloc] 0 0 a}. {a ..< a + CHUNK_2MB})"
proof -
  have "delta_regions False [demo_alloc] 0 0 [4194304, 16777216, 8388608, 2097152] = [(2097152, 4194304), (8388608, 2097152)]"
    by (simp add: delta_regions_def dirty_kept_def in_alloc_def demo_alloc_def Let_def u64_def)
  then show ?thesis using delta_regions_exact [of "[4194304, 16777216, 8388608, 2097152]" False "[demo_alloc]" 0 0] by simp
qed

text \<open>C36: the table that the precopy mode hands to the application, when it does not overflow, covers exactly the 2 MB chunks that
  hold a dirty address and lie in one allocation.\<close>

theorem precopy_table_exact:
  assumes "\<forall>a \<in> set dirty. a + CHUNK_2MB < 2 ^ 64" "length (precopy_table allocs dirty) < GATE_DIRTY_MAX"
  shows "(\<Union>r \<in> set (precopy_table allocs dirty). {fst r ..< fst r + snd r}) =
      (\<Union>c \<in> {c \<in> chunk_of ` set dirty. list_ex (in_alloc c (c + CHUNK_2MB)) allocs}. {c ..< c + CHUNK_2MB}) \<and>
    sorted_wrt (\<lambda>r r'. fst r + snd r < fst r') (precopy_table allocs dirty)"
proof -
  obtain as where as: "precopy_table allocs dirty = take GATE_DIRTY_MAX (merge_blocks as)" "sorted_wrt (<) as"
    "set as = {c \<in> chunk_of ` set dirty. list_ex (in_alloc c (c + CHUNK_2MB)) allocs}" "\<forall>a \<in> set as. a + CHUNK_2MB < 2 ^ 64 \<and> a mod CHUNK_2MB = 0"
    using precopy_table_merge [OF assms(1)] .
  then have "precopy_table allocs dirty = merge_blocks as" using assms(2) by simp
  then show ?thesis using merge_blocks_covered [of as] merge_blocks_grid [OF as(4,2)] as(3,4) by simp
qed

theorem precopy_table_exact_witness:
  "precopy_table [demo_alloc] [4259840, 4194304, 2097152] = [(2097152, 4194304)] \<and>
   sorted_wrt (\<lambda>r r'. fst r + snd r < fst r') (precopy_table [demo_alloc] [4259840, 4194304, 2097152])"
proof -
  have d: "dedup None (sort (map chunk_of [4259840, 4194304, 2097152])) = [2097152, 4194304]" by (simp add: chunk_of_def)
  have "merge_blocks (filter (\<lambda>a. list_ex (in_alloc a (a + CHUNK_2MB)) [demo_alloc]) [2097152, 4194304]) = [(2097152, 4194304)]"
    by (simp add: in_alloc_def demo_alloc_def u64_def)
  then have "precopy_table [demo_alloc] [4259840, 4194304, 2097152] = [(2097152, 4194304)]"
    using precopy_loop_merge [of "[2097152, 4194304]" "[]" "[demo_alloc]" None] unfolding precopy_table_def d by simp
  then show ?thesis using precopy_table_exact [of "[4259840, 4194304, 2097152]" "[demo_alloc]"] by (simp del: One_nat_def)
qed

section \<open>Where the code loses pages\<close>

text \<open>An allocation of 2 MB and 4 KB: its last block is dirty, and left out of the delta, since 64 KB do not fit behind its start.\<close>

lemma short_tail_dropped:
  "delta_regions False [\<lparr>ae_va = 2097152, ae_size = 2101248, ae_flags = 0\<rparr>] 0 0 [4194304] = []"
  by (simp add: delta_regions_def dirty_kept_def in_alloc_def u64_def)

text \<open>With 64 KB more the region is there, but a whole chunk long: it leaves the allocation, and no restore buffer holds it.\<close>

lemma tail_region_overhangs:
  "delta_regions False [\<lparr>ae_va = 2097152, ae_size = 2162688, ae_flags = 0\<rparr>] 0 0 [4194304] = [(4194304, 2097152)] \<and>
   find_group \<lparr>rd_base_va = 4194304, rd_length = 2097152, rd_num_pages = n, rd_data_offset = q, rd_resmap_size = rs, rd_cpu_bytes = cb, rd_gpu_bytes = gb, rd_crypto_meta_bytes = mb\<rparr>
     0 [\<lparr>g_va = 2097152, g_sz = 2162688, g_mem = M\<rparr>] = None"
  by (simp add: delta_regions_def dirty_kept_def in_alloc_def u64_def)

text \<open>The precopy mode drops every chunk that is not wholly in an allocation, and everything behind a full table.\<close>

lemma partial_chunk_dropped:
  "precopy_table [\<lparr>ae_va = 2097152, ae_size = 3145728, ae_flags = 0\<rparr>] [4194304] = []"
  by (simp add: precopy_table_def chunk_of_def in_alloc_def u64_def)

lemma full_table_truncates:
  assumes "\<forall>a \<in> set dirty. a + CHUNK_2MB < 2 ^ 64"
  shows "length (precopy_table allocs dirty) \<le> GATE_DIRTY_MAX"
  using precopy_table_merge [OF assms] by (metis length_take min.cobounded2)

text \<open>An allocation the application has freed (flag 2) is captured like any other.\<close>

lemma freed_range_kept:
  "keep_range [\<lparr>ae_va = 2097152, ae_size = 2097152, ae_flags = 2\<rparr>] 0 0 (2097152, 2097152) = Some False"
  by (simp add: keep_range_def in_alloc_def is_h2d_def CKPT_ALLOC_FLAG_H2D_def u64_def)

end
