(* ===== verification/Core_Run.thy ===== *)
theory Core_Run
  imports Dirty_Regions Coalesced_Checkpoint
begin

text \<open>
  \<open>main\<close> of \<open>ckpt_core.c\<close> for a plaintext checkpoint: ranges, PREPARE, baseline, dirty blocks, delta, FINALIZE,
  with every early return. The application is a function of the va spaces at two points: between PREPARE and the baseline,
  and between the baseline and the boundary (with \<open>--pause-first\<close> it is stopped by then, and the second function is \<open>id\<close>).
  While a capture is read the va spaces do not change; without \<open>--pause-first\<close> the baseline is then the one of a moment.
  The handshake over the gate file, \<open>static.img\<close> and the snapshots of state files are left out.
\<close>

section \<open>The code\<close>

record core_env =
  ce_start :: uvm_env                                       \<comment> \<open>the driver during the first ioctls\<close>
  ce_base :: uvm_env                                        \<comment> \<open>during the baseline\<close>
  ce_delta :: uvm_env                                       \<comment> \<open>during the delta\<close>
  ce_map :: map_env
  ce_bases :: nat                                           \<comment> \<open>\<open>base_addrs\<close>\<close>
  ce_sizes :: nat                                           \<comment> \<open>\<open>range_sizes\<close>\<close>
  ce_dirty :: "nat option"                                  \<comment> \<open>\<open>dirty_addrs\<close>\<close>
  ce_regions :: bool
  ce_caps :: "bool \<Rightarrow> bool"                                \<comment> \<open>\<open>base_caps\<close>, \<open>delta_caps\<close>\<close>
  ce_bufs :: "bool \<Rightarrow> nat \<Rightarrow> nat \<Rightarrow> buf_addrs"            \<comment> \<open>of capture number \<open>i\<close>, by length\<close>
  ce_io :: "bool \<Rightarrow> io_env"

text \<open>Element \<open>i\<close> of an array of 64-bit numbers.\<close>

definition addr_at :: "mem \<Rightarrow> nat \<Rightarrow> nat \<Rightarrow> nat" where
  "addr_at m a i = le_nat (read_mem m (a + 8 * i) 8)"

definition get_ranges :: "core_env \<Rightarrow> va_space list \<Rightarrow> mem \<Rightarrow> ((nat \<times> nat) list \<times> mem) option" where
  "get_ranges ce vss m =
     (case uvm_api_live_migration_get_va_ranges (ce_start ce) vss (ce_bases ce) (ce_sizes ce) MAX_RANGES m of
        (st, n, m', ops) \<Rightarrow>
          if st \<noteq> NV_OK then None
          else Some (map (\<lambda>i. (addr_at m' (ce_bases ce) i, addr_at m' (ce_sizes ce) i)) [0..<the n], m'))"

definition max_dirty :: "nat \<Rightarrow> nat" where
  "max_dirty bytes = (if bytes > 0 then u64 (bytes div PAGE_64K + 1) else 65536)"

definition get_dirty :: "core_env \<Rightarrow> va_space list \<Rightarrow> nat \<Rightarrow> mem \<Rightarrow> (nat list \<times> mem) option" where
  "get_dirty ce vss mx m =
     (case ce_dirty ce of None \<Rightarrow> None
      | Some buf \<Rightarrow>
          (case uvm_api_live_migration_get_dirty_pages (ce_delta ce) vss buf mx m of
             (st, n, m', ops) \<Rightarrow> if st \<noteq> NV_OK then None else Some (map (addr_at m' buf) [0..<n], m')))"

fun capture_all :: "uvm_env \<Rightarrow> va_space list \<Rightarrow> (nat \<Rightarrow> nat \<Rightarrow> buf_addrs) \<Rightarrow> nat \<Rightarrow> (nat \<times> nat) list \<Rightarrow> mem \<Rightarrow> range_capture list option \<times> mem" where
  "capture_all env vss bufs i [] m = (Some [], m)"
| "capture_all env vss bufs i (r # rs) m =
     (case capture_range env vss (bufs i (snd r)) (fst r) (snd r) m of
        (None, m') \<Rightarrow> (None, m')
      | (Some c, m') \<Rightarrow> (case capture_all env vss bufs (i + 1) rs m' of
          (None, m'') \<Rightarrow> (None, m'') | (Some cs, m'') \<Rightarrow> (Some (c # cs), m'')))"

record core_out =
  cr_ok :: bool                \<comment> \<open>exit code 0\<close>
  cr_base :: ckpt_file
  cr_delta :: ckpt_file
  cr_spaces :: "va_space list"

text \<open>From the boundary on: the delta and FINALIZE.\<close>

definition core_delta :: "core_env \<Rightarrow> alloc_entry list \<Rightarrow> nat \<Rightarrow> nat \<Rightarrow> nat \<Rightarrow> va_space list \<Rightarrow> mem \<Rightarrow> ckpt_file \<Rightarrow> ckpt_file \<Rightarrow> core_out" where
  "core_delta ce allocs user_va user_size bytes vss m fb fd =
     (let fail = \<lparr>cr_ok = False, cr_base = fb, cr_delta = fd, cr_spaces = vss\<rparr>
      in case get_dirty ce vss (max_dirty bytes) m of None \<Rightarrow> fail
         | Some (dirty, m1) \<Rightarrow>
             let rgs = delta_regions False allocs user_va user_size dirty;
                 num_dirty = length (filter (dirty_kept False allocs user_va user_size) dirty)
             in if \<not> ce_regions ce \<or> \<not> ce_caps ce True then fail
                else case capture_all (ce_delta ce) vss (ce_bufs ce True) 0 rgs m1 of (None, m2) \<Rightarrow> fail
                | (Some caps, m2) \<Rightarrow>
                    (case write_delta (ce_io ce True) caps user_va user_size num_dirty fd of
                       (ok, fd1) \<Rightarrow> if \<not> ok then fail\<lparr>cr_delta := fd1\<rparr>
                         else \<lparr>cr_ok = True, cr_base = fb, cr_delta = fd1,
                               cr_spaces = fst (snd (uvm_api_live_migration_finalize (ce_delta ce) (ce_map ce) vss))\<rparr>))"

definition core_run ::
  "core_env \<Rightarrow> alloc_entry list \<Rightarrow> nat \<Rightarrow> nat \<Rightarrow> (va_space list \<Rightarrow> va_space list) \<Rightarrow> (va_space list \<Rightarrow> va_space list) \<Rightarrow>
   va_space list \<Rightarrow> mem \<Rightarrow> ckpt_file \<Rightarrow> ckpt_file \<Rightarrow> core_out" where
  "core_run ce allocs user_va user_size app1 app2 vss m fb fd =
     (let fail = \<lparr>cr_ok = False, cr_base = fb, cr_delta = fd, cr_spaces = vss\<rparr>
      in case get_ranges ce vss m of None \<Rightarrow> fail
         | Some (rs, m1) \<Rightarrow>
             let filt = fst (filter_ranges False False allocs user_va user_size rs)
             in if filt = [] then fail
                else case uvm_api_live_migration_prepare_all (ce_start ce) (ce_map ce) vss of (st, vssp, ops) \<Rightarrow>
                  if st \<noteq> NV_OK then fail\<lparr>cr_spaces := vssp\<rparr>
                  else let vss0 = app1 vssp
                       in if \<not> ce_caps ce False then fail\<lparr>cr_spaces := vss0\<rparr>
                          else case capture_all (ce_base ce) vss0 (ce_bufs ce False) 0 filt m1 of
                            (None, m2) \<Rightarrow> fail\<lparr>cr_spaces := vss0\<rparr>
                          | (Some caps, m2) \<Rightarrow>
                              (case write_baseline (ce_io ce False) caps 2 fb of
                                 (ok, fb1) \<Rightarrow> if \<not> ok then fail\<lparr>cr_base := fb1, cr_spaces := vss0\<rparr>
                                   else core_delta ce allocs user_va user_size (u64 (sum_list (map snd filt))) (app2 vss0) m2 fb1 fd))"

section \<open>Arrays of addresses\<close>

lemma read_addrs:
  assumes "\<forall>a \<in> set as. a < 2 ^ 64" "read_mem m p (8 * length as) = enc_addrs as"
  shows "map (addr_at m p) [0..<length as] = as"
  using assms
proof (induction as arbitrary: p)
  case (Cons a as)
  have s: "read_mem m p (8 * length (a # as)) = read_mem m p 8 @ read_mem m (p + 8) (8 * length as)"
    using read_mem_append [of m p 8 "8 * length as"] by simp
  have "read_mem m p 8 = le_bytes 8 a \<and> read_mem m (p + 8) (8 * length as) = enc_addrs as"
    using Cons.prems(2) unfolding s enc_addrs_Cons by (subst (asm) append_eq_append_conv) simp_all
  then have h: "addr_at m p 0 = a" and t: "map (addr_at m (p + 8)) [0..<length as] = as"
    using Cons.prems(1) le_nat_le_bytes [of a 8] by (simp add: addr_at_def) (rule Cons.IH, use Cons.prems(1) \<open>_ \<and> _\<close> in simp_all)
  have "map (addr_at m p) [0..<length (a # as)] = addr_at m p 0 # map (\<lambda>i. addr_at m p (Suc i)) [0..<length as]"
    by (simp add: map_upt_Suc del: upt_Suc)
  also have "(\<lambda>i. addr_at m p (Suc i)) = addr_at m (p + 8)" by (simp add: fun_eq_iff addr_at_def add.assoc)
  finally show ?case using h t by simp
qed simp

text \<open>The two arrays on the stack do not overlap.\<close>

definition arrays_apart :: "core_env \<Rightarrow> bool" where
  "arrays_apart ce \<longleftrightarrow> ce_bases ce + 8 * MAX_RANGES \<le> ce_sizes ce \<or> ce_sizes ce + 8 * MAX_RANGES \<le> ce_bases ce"

lemma get_ranges_managed:
  assumes "get_ranges ce vss m = Some (rs, m')" "arrays_apart ce" "\<forall>r \<in> set (managed_pairs vss). fst r < 2 ^ 64"
  shows "rs = managed_pairs vss" "length rs \<le> MAX_RANGES"
proof -
  let ?P = "managed_pairs vss"
  obtain st n ops where g: "uvm_api_live_migration_get_va_ranges (ce_start ce) vss (ce_bases ce) (ce_sizes ce) MAX_RANGES m = (st, n, m', ops)" "st = NV_OK"
    and rs: "rs = map (\<lambda>i. (addr_at m' (ce_bases ce) i, addr_at m' (ce_sizes ce) i)) [0..<the n]"
    using assms(1) by (auto simp: get_ranges_def split: prod.splits if_splits)
  obtain ops0 where c: "collect_spaces MAX_RANGES 0 vss [] =
      (if length ?P \<le> MAX_RANGES then NV_OK else NV_ERR_BUFFER_TOO_SMALL, take MAX_RANGES ?P, ops0)"
    using collect_spaces_spec [of "[]" MAX_RANGES 0 vss] by auto
  have len: "length ?P \<le> MAX_RANGES" using g c by (auto simp: uvm_api_live_migration_get_va_ranges_def Let_def split: if_splits)
  then have t: "take MAX_RANGES ?P = ?P" by simp
  have n: "n = Some (length ?P)" and m': "m' = write_mem (write_mem m (ce_bases ce) (enc_addrs (map fst ?P))) (ce_sizes ce) (enc_addrs (map snd ?P))"
    using g c t by (auto simp: uvm_api_live_migration_get_va_ranges_def Let_def enc_addrs_def o_def split: if_splits)
  have ap: "apart (ce_bases ce) (8 * length ?P) (ce_sizes ce) (8 * length ?P)" using assms(2) len by (auto simp: arrays_apart_def apart_def)
  have b: "map (addr_at m' (ce_bases ce)) [0..<length (map fst ?P)] = map fst ?P"
    by (rule read_addrs) (use assms(3) ap in \<open>simp_all add: m' apart_read read_write_same\<close>)
  have z: "map (addr_at m' (ce_sizes ce)) [0..<length (map snd ?P)] = map snd ?P"
    by (rule read_addrs) (auto simp: m' read_write_same managed_pairs_def u64_def)
  have "rs = zip (map (addr_at m' (ce_bases ce)) [0..<length ?P]) (map (addr_at m' (ce_sizes ce)) [0..<length ?P])"
    by (rule nth_equalityI) (simp_all add: rs n)
  then show "rs = ?P" using b z by (simp add: zip_map_fst_snd)
  then show "length rs \<le> MAX_RANGES" using len by simp
qed

lemma get_dirty_addresses:
  assumes "get_dirty ce vss mx m = Some (ds, m')" "ce_dirty ce = Some buf" "dirty_buf_ok (ce_delta ce) buf mx" "length (dirty_addresses vss) \<le> mx"
    and "\<forall>a \<in> set (dirty_addresses vss). a < 2 ^ 64"
  shows "ds = dirty_addresses vss"
proof -
  obtain st n ops where g: "uvm_api_live_migration_get_dirty_pages (ce_delta ce) vss buf mx m = (st, n, m', ops)" "ds = map (addr_at m' buf) [0..<n]"
    using assms(1,2) by (auto simp: get_dirty_def split: prod.splits if_splits)
  from get_dirty_pages_all [OF assms(3,4) g(1)] have "n = length (dirty_addresses vss)" "m' = write_mem m buf (enc_addrs (dirty_addresses vss))" by simp_all
  then show ?thesis using read_addrs [OF assms(5), of m' buf] g(2) by (simp add: read_write_same)
qed

section \<open>Captures\<close>

lemma capture_all_snaps:
  assumes "vss_ok vss" "csl_ok env" "\<And>i len. bufs_ok len (bufs i len)"
  shows "capture_all env vss bufs i rs m = (Some cs, m') \<Longrightarrow> \<forall>r \<in> set rs. fst r + snd r < 2 ^ 64 \<Longrightarrow> list_all2 (snap_cap env vss) rs cs"
proof (induction rs arbitrary: i m cs)
  case (Cons r rs)
  obtain c m1 cs1 where c: "capture_range env vss (bufs i (snd r)) (fst r) (snd r) m = (Some c, m1)" "capture_all env vss bufs (i + 1) rs m1 = (Some cs1, m')" "cs = c # cs1"
    using Cons.prems(1) by (auto split: prod.splits option.splits)
  note f = capture_range_facts [OF c(1) assms(1-3)] and ok = capture_range_ok [OF c(1) assms(1-3)]
  have "snap_cap env vss r c" using f(1-3) ok Cons.prems(2) by (simp add: snap_cap_def snap_def cap_end_def)
  then show ?case using Cons.IH [OF c(2)] Cons.prems(2) c(3) by simp
qed simp

section \<open>One process\<close>

text \<open>The va spaces of the run: one, whose ranges are disjoint and in order, as the driver's tree keeps them.\<close>

definition one_process :: "va_space list \<Rightarrow> bool" where
  "one_process vss \<longleftrightarrow> length vss = 1 \<and> sorted_wrt (\<lambda>r s. vr_end r < vr_start s) (vs_ranges (hd vss)) \<and>
     list_all (\<lambda>r. vr_start r \<le> vr_end r \<and> vr_end r + 1 < 2 ^ 64) (vs_ranges (hd vss))"

text \<open>Ranges and blocks on the 2 MB grid.\<close>

definition on_grid :: "va_space list \<Rightarrow> bool" where
  "on_grid vss \<longleftrightarrow> list_all (\<lambda>r. fst r mod CHUNK_2MB = 0 \<and> snd r mod CHUNK_2MB = 0) (managed_pairs vss) \<and>
     list_all (\<lambda>vb. vb_start vb mod CHUNK_2MB = 0 \<and> vb_end vb < vb_start vb + CHUNK_2MB) (concat (map managed_blocks vss))"

text \<open>Every managed range lies in an allocation or apart from it.\<close>

definition fits :: "nat \<times> nat \<Rightarrow> nat \<Rightarrow> nat \<Rightarrow> bool" where
  "fits r va sz \<longleftrightarrow> va + sz < 2 ^ 64 \<and> (va \<le> fst r \<and> fst r + snd r \<le> va + sz \<or> fst r + snd r \<le> va \<or> va + sz \<le> fst r)"

definition allocs_fit :: "alloc_entry list \<Rightarrow> nat \<Rightarrow> nat \<Rightarrow> va_space list \<Rightarrow> bool" where
  "allocs_fit allocs user_va user_size vss \<longleftrightarrow>
     list_all (\<lambda>r. if allocs \<noteq> [] then list_all (\<lambda>a. fits r (ae_va a) (ae_size a)) allocs else user_va = 0 \<or> fits r user_va user_size) (managed_pairs vss)"

definition core_ranges :: "alloc_entry list \<Rightarrow> nat \<Rightarrow> nat \<Rightarrow> va_space list \<Rightarrow> (nat \<times> nat) list" where
  "core_ranges allocs user_va user_size vss = filter (\<lambda>r. keep_range allocs user_va user_size r \<noteq> None) (managed_pairs vss)"

lemma filter_ranges_kept: "fst (filter_ranges False ex allocs uva usz rs) = filter (\<lambda>r. keep_range allocs uva usz r \<noteq> None) rs"
  by (induction rs) (auto split: prod.splits option.splits)

lemma one_process_pairs:
  assumes "one_process vss"
  shows "ranges_disjoint (managed_pairs vss)" "r \<in> set (managed_pairs vss) \<Longrightarrow> 0 < snd r \<and> fst r + snd r < 2 ^ 64"
proof -
  obtain vs where vs: "vss = [vs]" using assms by (auto simp: one_process_def length_Suc_conv)
  have b: "vr_start r \<le> vr_end r \<and> vr_end r + 1 < 2 ^ 64" if "r \<in> set (vs_ranges vs)" for r
    using assms that by (auto simp: one_process_def vs list_all_iff)
  have u: "u64 (vr_end r - vr_start r + 1) = vr_end r + 1 - vr_start r" if "r \<in> set (vs_ranges vs)" for r
  proof -
    have "vr_end r - vr_start r + 1 < 2 ^ 64" using b [OF that] by linarith
    then have "u64 (vr_end r - vr_start r + 1) = vr_end r - vr_start r + 1" by (rule u64_small)
    then show ?thesis using b [OF that] by linarith
  qed
  show "0 < snd r \<and> fst r + snd r < 2 ^ 64" if r: "r \<in> set (managed_pairs vss)"
  proof -
    obtain x where x: "x \<in> set (vs_ranges vs)" "r = (vr_start x, u64 (vr_end x - vr_start x + 1))" using r by (auto simp: managed_pairs_def vs)
    then show ?thesis using b [OF x(1)] u [OF x(1)] by auto
  qed
  have "sorted_wrt (\<lambda>r s. vr_end r < vr_start s) (filter is_managed (vs_ranges vs))" using assms by (simp add: one_process_def vs sorted_wrt_filter)
  then have "sorted_wrt (\<lambda>r s. vr_start r + u64 (vr_end r - vr_start r + 1) \<le> vr_start s) (filter is_managed (vs_ranges vs))"
    by (rule sorted_wrt_mono_rel [rotated]) (use b u in \<open>fastforce simp: Suc_le_eq\<close>)
  then have "sorted_wrt (\<lambda>r s. fst r + snd r \<le> fst s) (managed_pairs vss)" by (simp add: managed_pairs_def vs sorted_wrt_map)
  then show "ranges_disjoint (managed_pairs vss)" unfolding ranges_disjoint_def by (rule sorted_wrt_mono_rel [rotated]) simp
qed

lemma one_process_find:
  assumes "one_process vss" "r \<in> set (managed_pairs vss)" "fst r \<le> a" "a < fst r + snd r"
  shows "find_va_space vss a 0 = Some (0, hd vss)"
proof -
  obtain vs where vs: "vss = [vs]" using assms(1) by (auto simp: one_process_def length_Suc_conv)
  obtain x where x: "x \<in> set (vs_ranges vs)" "is_managed x" "r = (vr_start x, u64 (vr_end x - vr_start x + 1))" using assms(2) by (auto simp: managed_pairs_def vs)
  have b: "vr_start x \<le> vr_end x" "vr_end x + 1 < 2 ^ 64" using assms(1) x(1) by (auto simp: one_process_def vs list_all_iff)
  then have a: "vr_start x \<le> a" "a \<le> vr_end x" using assms(3,4) by (simp_all add: x(3) u64_small)
  have so: "sorted_wrt (\<lambda>r s. vr_end r < vr_start s) (vs_ranges vs)" using assms(1) by (simp add: one_process_def vs)
  have "uvm_va_range_find vs a = Some x"
    unfolding uvm_va_range_find_def find_Some_iff
  proof -
    obtain i where i: "i < length (vs_ranges vs)" "vs_ranges vs ! i = x" using x(1) unfolding in_set_conv_nth by blast
    have "\<not> (vr_start (vs_ranges vs ! j) \<le> a \<and> a \<le> vr_end (vs_ranges vs ! j))" if "j < i" for j
    proof -
      have "vr_end (vs_ranges vs ! j) < vr_start (vs_ranges vs ! i)" using so that i(1) unfolding sorted_wrt_iff_nth_less by blast
      then show ?thesis using a i(2) by auto
    qed
    then show "\<exists>i < length (vs_ranges vs). (vr_start (vs_ranges vs ! i) \<le> a \<and> a \<le> vr_end (vs_ranges vs ! i)) \<and> x = vs_ranges vs ! i \<and>
        (\<forall>j < i. \<not> (vr_start (vs_ranges vs ! j) \<le> a \<and> a \<le> vr_end (vs_ranges vs ! j)))" using i a by blast
  qed
  then show ?thesis using x(2) by (simp add: vs is_managed_def)
qed

section \<open>The regions of the delta\<close>

lemma dirty_block_range:
  assumes "one_process vss" "vss_ok vss" "on_grid vss" "vb \<in> set (managed_blocks (hd vss))"
  shows "vb_start vb mod CHUNK_2MB = 0" "\<exists>r \<in> set (managed_pairs vss). fst r \<le> vb_start vb \<and> vb_start vb + CHUNK_2MB \<le> fst r + snd r"
proof -
  obtain vs where vs: "vss = [vs]" using assms(1) by (auto simp: one_process_def length_Suc_conv)
  show g: "vb_start vb mod CHUNK_2MB = 0" using assms(3,4) by (auto simp: on_grid_def vs list_all_iff)
  obtain x where x: "x \<in> set (vs_ranges vs)" "is_managed x" "vb \<in> set (vr_blocks x)" using assms(4) by (auto simp: managed_blocks_def vs)
  have b: "vr_start x \<le> vb_start vb" "vb_end vb \<le> vr_end x" using assms(2) x by (auto simp: vss_ok_def vs)
  have w: "vb_start vb \<le> vb_end vb" using assms(2,4) by (auto simp: vss_ok_def vs_wf_def vs)
  have e: "vr_start x \<le> vr_end x" "vr_end x + 1 < 2 ^ 64" using assms(1) x(1) by (auto simp: one_process_def vs list_all_iff)
  let ?r = "(vr_start x, u64 (vr_end x - vr_start x + 1))"
  have r: "?r \<in> set (managed_pairs vss)" using x by (auto simp: managed_pairs_def vs)
  have u: "u64 (vr_end x - vr_start x + 1) = vr_end x + 1 - vr_start x" using e by (simp add: u64_small Suc_diff_le)
  have "fst ?r mod CHUNK_2MB = 0" "snd ?r mod CHUNK_2MB = 0" using assms(3) r unfolding on_grid_def list_all_iff by blast+
  then have "(fst ?r + snd ?r) mod CHUNK_2MB = 0" by (simp only: mod_eq_0_iff_dvd dvd_add)
  then have "(vr_end x + 1) mod CHUNK_2MB = 0" using e u by simp
  then have "vb_start vb + CHUNK_2MB \<le> vr_end x + 1" using grid_step [of "vb_start vb" "vr_end x + 1" CHUNK_2MB] g b w by simp
  then show "\<exists>r \<in> set (managed_pairs vss). fst r \<le> vb_start vb \<and> vb_start vb + CHUNK_2MB \<le> fst r + snd r"
    using r b e u by (intro bexI [of _ ?r]) simp_all
qed

lemma grid_page:
  assumes "(a :: nat) mod CHUNK_2MB = 0"
  shows "a mod PAGE_SIZE = 0"
proof -
  from assms obtain k where "a = CHUNK_2MB * k" by (auto simp: mod_eq_0_iff_dvd)
  then have "a = PAGE_SIZE * (512 * k)" by simp
  then show ?thesis by (simp only: mod_mult_self1_is_0)
qed

lemma kept_iff:
  assumes "allocs_fit allocs uva usz vss" "r \<in> set (managed_pairs vss)" "fst r \<le> a" "a + CHUNK_2MB \<le> fst r + snd r" "fst r + snd r < 2 ^ 64"
  shows "dirty_kept False allocs uva usz a \<longleftrightarrow> keep_range allocs uva usz r \<noteq> None"
proof -
  have u: "u64 (a + PAGE_64K) = a + PAGE_64K" "u64 (fst r + snd r) = fst r + snd r" using assms(4,5) by (simp_all add: u64_small)
  show ?thesis
  proof (cases "allocs = []")
    case True
    then have "uva = 0 \<or> fits r uva usz" using assms(1,2) by (auto simp: allocs_fit_def list_all_iff)
    then show ?thesis using assms(3,4) by (auto simp: dirty_kept_def keep_range_def Let_def True u fits_def u64_small)
  next
    case False
    then have f: "fits r (ae_va x) (ae_size x)" if "x \<in> set allocs" for x using assms(1,2) that by (auto simp: allocs_fit_def list_all_iff)
    have "in_alloc a (a + PAGE_64K) x \<longleftrightarrow> in_alloc (fst r) (fst r + snd r) x" if "x \<in> set allocs" for x
      using f [OF that] assms(3,4) by (auto simp: in_alloc_def fits_def u64_small)
    then have "find (in_alloc a (a + PAGE_64K)) allocs = None \<longleftrightarrow> find (in_alloc (fst r) (fst r + snd r)) allocs = None"
      by (auto simp: find_None_iff)
    then show ?thesis using False by (auto simp: dirty_kept_def keep_range_def Let_def u split: option.splits)
  qed
qed

lemma merge_run_length: "length (merge_run s e as) \<le> length as + 1"
  by (induction as arbitrary: s e) (auto simp: le_SucI)

lemma delta_regions_length: "length (delta_regions st allocs uva usz dirty) \<le> length dirty"
proof -
  have "length (merge_blocks as) \<le> length as" for as by (cases as) (use merge_run_length in auto)
  then show ?thesis unfolding delta_regions_def by (metis length_filter_le length_sort order_trans)
qed

text \<open>The captured regions: inside the captured ranges, and around every dirty block of such a range.\<close>

lemma core_regions:
  assumes "one_process vss" "vss_ok vss" "on_grid vss" "allocs_fit allocs uva usz vss"
  defines "rgs \<equiv> core_ranges allocs uva usz vss" and "drgs \<equiv> delta_regions False allocs uva usz (dirty_addresses vss)"
  shows "covered drgs \<subseteq> covered rgs"
    and "vb \<in> set (managed_blocks (hd vss)) \<Longrightarrow> is_dirty_block vb \<Longrightarrow> r \<in> set rgs \<Longrightarrow> fst r \<le> a \<Longrightarrow> a < fst r + snd r \<Longrightarrow> vb_start vb \<le> a \<Longrightarrow> a \<le> vb_end vb \<Longrightarrow> a \<in> covered drgs"
    and "d \<in> set drgs \<Longrightarrow> request_ok vss (fst d) (snd d) 0 \<and> fst d + snd d < 2 ^ 64 \<and> find_va_space vss (fst d) 0 = Some (0, hd vss)"
proof -
  obtain vs where vs: "vss = [vs]" using assms(1) by (auto simp: one_process_def length_Suc_conv)
  have di: "set (dirty_addresses vss) = vb_start ` {vb \<in> set (managed_blocks vs). is_dirty_block vb}" by (auto simp: dirty_addresses_def vs)
  note pr = one_process_pairs [OF assms(1)]
  have blk: "\<exists>r \<in> set (managed_pairs vss). fst r \<le> a \<and> a + CHUNK_2MB \<le> fst r + snd r \<and> fst r + snd r < 2 ^ 64 \<and> a mod CHUNK_2MB = 0"
    if a: "a \<in> set (dirty_addresses vss)" for a
  proof -
    obtain vb where vb: "vb \<in> set (managed_blocks (hd vss))" "a = vb_start vb" using a unfolding di by (auto simp: vs)
    note b = dirty_block_range [OF assms(1-3) vb(1), folded vb(2)]
    obtain r where r: "r \<in> set (managed_pairs vss)" "fst r \<le> a" "a + CHUNK_2MB \<le> fst r + snd r" using b(2) by blast
    then show ?thesis using conjunct2 [OF pr(2) [OF r(1)]] b(1) by (intro bexI [of _ r] conjI)
  qed
  then have b64: "\<forall>a \<in> set (dirty_addresses vss). a + CHUNK_2MB < 2 ^ 64" by (meson le_less_trans)
  have kept: "dirty_kept False allocs uva usz a \<longleftrightarrow> r \<in> set rgs"
    if "r \<in> set (managed_pairs vss)" "fst r \<le> a" "a + CHUNK_2MB \<le> fst r + snd r" for r a
    using kept_iff [OF assms(4) that] pr(2) [OF that(1)] that(1) by (simp add: rgs_def core_ranges_def)
  note cov = delta_regions_covered [OF b64, of False allocs uva usz, folded drgs_def]
  show "covered drgs \<subseteq> covered rgs"
  proof
    fix x assume "x \<in> covered drgs"
    then obtain a where a: "a \<in> set (dirty_addresses vss)" "dirty_kept False allocs uva usz a" "a \<le> x" "x < a + CHUNK_2MB" unfolding cov by auto
    obtain r where r: "r \<in> set (managed_pairs vss)" "fst r \<le> a" "a + CHUNK_2MB \<le> fst r + snd r" using blk [OF a(1)] by blast
    then have "r \<in> set rgs" using kept a(2) by blast
    moreover have "fst r \<le> x \<and> x < fst r + snd r" using a(3,4) r(2,3) by linarith
    ultimately show "x \<in> covered rgs" by (metis UN_I atLeastLessThan_iff)
  qed
  show "a \<in> covered drgs"
    if "vb \<in> set (managed_blocks (hd vss))" "is_dirty_block vb" "r \<in> set rgs" "fst r \<le> a" "a < fst r + snd r" "vb_start vb \<le> a" "a \<le> vb_end vb"
  proof -
    note T = that
    obtain r' where r': "r' \<in> set (managed_pairs vss)" "fst r' \<le> vb_start vb" "vb_start vb + CHUNK_2MB \<le> fst r' + snd r'"
      using dirty_block_range(2) [OF assms(1-3) T(1)] by blast
    have e: "vb_end vb < vb_start vb + CHUNK_2MB" using assms(3) that(1) by (auto simp: on_grid_def vs list_all_iff)
    have "r = r'" by (rule ranges_disjoint_unique [OF pr(1) _ r'(1) that(4,5)]) (use that(3,6,7) r' e in \<open>auto simp: rgs_def core_ranges_def\<close>)
    then have "dirty_kept False allocs uva usz (vb_start vb)" using kept [OF r'] that(3) by simp
    moreover have "vb_start vb \<in> set (dirty_addresses vss)" using that(1,2) unfolding di by (simp add: vs)
    ultimately have m: "vb_start vb \<in> {a \<in> set (dirty_addresses vss). dirty_kept False allocs uva usz a}" by blast
    have "a \<in> {vb_start vb ..< vb_start vb + CHUNK_2MB}" using that(6,7) e by simp
    then show ?thesis unfolding cov using m by blast
  qed
  show "request_ok vss (fst d) (snd d) 0 \<and> fst d + snd d < 2 ^ 64 \<and> find_va_space vss (fst d) 0 = Some (0, hd vss)" if d: "d \<in> set drgs"
  proof -
    let ?F = "sort (filter (dirty_kept False allocs uva usz) (dirty_addresses vss))"
    have F: "\<forall>a \<in> set ?F. a + CHUNK_2MB < 2 ^ 64" using b64 by simp
    have st: "fst d \<in> set (dirty_addresses vss)" "0 < snd d" "fst d + snd d < 2 ^ 64"
      using merge_blocks_starts [OF F, of d] d by (auto simp: drgs_def delta_regions_def)
    obtain r where r: "r \<in> set (managed_pairs vss)" "fst r \<le> fst d" "fst d + CHUNK_2MB \<le> fst r + snd r" "fst d mod CHUNK_2MB = 0" using blk [OF st(1)] by (elim bexE conjE)
    have "sorted_wrt (\<lambda>a b. vb_end a < vb_start b) (managed_blocks vs)" "\<forall>vb \<in> set (managed_blocks vs). vb_start vb \<le> vb_end vb"
      using assms(2) by (auto simp: vss_ok_def vs_wf_def vs)
    then have "sorted_wrt (\<lambda>a b. vb_start a < vb_start b) (managed_blocks vs)" by (auto elim!: sorted_wrt_mono_rel [rotated] intro: le_less_trans)
    then have "sorted_wrt (<) (dirty_addresses vss)" by (simp add: dirty_addresses_def vs sorted_wrt_map sorted_wrt_filter)
    then have di': "distinct (dirty_addresses vss)" by (simp add: strict_sorted_iff)
    have "\<forall>a \<in> set (dirty_addresses vss). a + CHUNK_2MB < 2 ^ 64 \<and> a mod CHUNK_2MB = 0"
    proof
      fix a assume "a \<in> set (dirty_addresses vss)"
      then show "a + CHUNK_2MB < 2 ^ 64 \<and> a mod CHUNK_2MB = 0" using bspec [OF b64, of a] blk [of a] by (metis (no_types, lifting))
    qed
    from delta_regions_grid [OF this di', of False allocs uva usz] have "snd d mod CHUNK_2MB = 0" using d unfolding drgs_def by blast
    then have "fst d mod PAGE_SIZE = 0" "snd d mod PAGE_SIZE = 0" using r(4) by (simp_all only: grid_page)
    then show ?thesis using assms(2) st one_process_find [OF assms(1) r(1,2)] r(3) by (simp add: request_ok_def vss_ok_def)
  qed
qed

section \<open>The checkpoint restores\<close>

text \<open>What a successful run did.\<close>

lemma core_run_steps:
  assumes "core_run ce allocs uva usz app1 app2 vss m fb fd = out" "cr_ok out"
    and "vss0 = app1 (fst (snd (uvm_api_live_migration_prepare_all (ce_start ce) (ce_map ce) vss)))" "vss1 = app2 vss0"
  obtains rs m1 filt caps m2 dirty m3 dcaps m4 where "get_ranges ce vss m = Some (rs, m1)" "filt = fst (filter_ranges False False allocs uva usz rs)"
    "capture_all (ce_base ce) vss0 (ce_bufs ce False) 0 filt m1 = (Some caps, m2)" "write_baseline (ce_io ce False) caps 2 fb = (True, cr_base out)"
    "get_dirty ce vss1 (max_dirty (u64 (sum_list (map snd filt)))) m2 = Some (dirty, m3)"
    "capture_all (ce_delta ce) vss1 (ce_bufs ce True) 0 (delta_regions False allocs uva usz dirty) m3 = (Some dcaps, m4)"
    "write_delta (ce_io ce True) dcaps uva usz (length (filter (dirty_kept False allocs uva usz) dirty)) fd = (True, cr_delta out)"
proof -
  obtain rs m1 where g: "get_ranges ce vss m = Some (rs, m1)" using assms(1,2) by (auto simp: core_run_def Let_def split: option.splits)
  define filt where "filt = fst (filter_ranges False False allocs uva usz rs)"
  obtain st vssp ops where p: "uvm_api_live_migration_prepare_all (ce_start ce) (ce_map ce) vss = (st, vssp, ops)" by (rule prod_cases3)
  then have v0: "app1 vssp = vss0" "app2 vss0 = vss1" using assms(3,4) by simp_all
  obtain caps m2 where c: "capture_all (ce_base ce) vss0 (ce_bufs ce False) 0 filt m1 = (Some caps, m2)"
    using assms(1,2) by (auto simp: core_run_def Let_def g p v0 filt_def [symmetric] split: option.splits prod.splits if_splits)
  obtain fb1 where w: "write_baseline (ce_io ce False) caps 2 fb = (True, fb1)"
    "core_delta ce allocs uva usz (u64 (sum_list (map snd filt))) vss1 m2 fb1 fd = out"
    using assms(1,2) by (auto simp: core_run_def Let_def g p v0 filt_def [symmetric] c split: prod.splits if_splits)
  obtain dirty m3 where d: "get_dirty ce vss1 (max_dirty (u64 (sum_list (map snd filt)))) m2 = Some (dirty, m3)"
    using w(2) assms(2) by (auto simp: core_delta_def Let_def split: option.splits)
  obtain dcaps m4 where e: "capture_all (ce_delta ce) vss1 (ce_bufs ce True) 0 (delta_regions False allocs uva usz dirty) m3 = (Some dcaps, m4)"
    using w(2) assms(2) by (auto simp: core_delta_def Let_def d split: option.splits prod.splits if_splits)
  obtain fd1 where f: "write_delta (ce_io ce True) dcaps uva usz (length (filter (dirty_kept False allocs uva usz) dirty)) fd = (True, fd1)" "cr_base out = fb1" "cr_delta out = fd1"
    using w(2) assms(2) by (auto simp: core_delta_def Let_def d e split: prod.splits if_splits)
  show thesis by (rule that [OF g filt_def c _ d e]) (use w(1) f in simp_all)
qed

lemma snap_caps_cover:
  assumes "list_all2 (snap_cap env vss) rgs caps" "list_all2 (snap_cap env' vss') drgs dcaps" "covered drgs \<subseteq> covered rgs"
  shows "\<forall>d \<in> set dcaps. cap_ivl d \<subseteq> (\<Union>c \<in> set caps. cap_ivl c)"
proof -
  have u: "(\<Union>c \<in> set cs. cap_ivl c) = covered rs" if "list_all2 (snap_cap e v) rs cs" for e v rs cs
    using that
  proof (induction rule: list_all2_induct)
    case (Cons r rs c cs)
    have "cap_ivl c = {fst r ..< fst r + snd r}" using Cons.hyps(1) unfolding snap_cap_def cap_ivl_def by simp
    then show ?case using Cons.IH by (simp only: list.set UN_insert)
  qed simp
  have "(\<Union>c \<in> set dcaps. cap_ivl c) \<subseteq> (\<Union>c \<in> set caps. cap_ivl c)" unfolding u [OF assms(1)] u [OF assms(2)] by (rule assms(3))
  then show ?thesis by (simp only: UN_subset_iff)
qed

lemma core_dirty_bound:
  assumes "one_process vss" "vss_ok vss" "on_grid vss"
  shows "\<forall>a \<in> set (dirty_addresses vss). a < 2 ^ 64"
proof
  fix a assume "a \<in> set (dirty_addresses vss)"
  moreover obtain vs where vs: "vss = [vs]" using assms(1) by (auto simp: one_process_def length_Suc_conv)
  ultimately obtain vb where vb: "vb \<in> set (managed_blocks (hd vss))" "a = vb_start vb" by (auto simp: dirty_addresses_def)
  obtain r where r: "r \<in> set (managed_pairs vss)" "vb_start vb + CHUNK_2MB \<le> fst r + snd r"
    using dirty_block_range(2) [OF assms vb(1)] by (elim bexE conjE)
  show "a < 2 ^ 64" using one_process_pairs(2) [OF assms(1) r(1)] r(2) unfolding vb(2) by linarith
qed

lemma clean_range:
  assumes "clean_blocks env0 vss0 env1 vss1 (fst r) (snd r)" "one_process vss1" "request_ok vss1 (fst r) (snd r) 0"
    and "\<And>vb a. vb \<in> set (managed_blocks (hd vss1)) \<Longrightarrow> is_dirty_block vb \<Longrightarrow> fst r \<le> a \<Longrightarrow> a < fst r + snd r \<Longrightarrow> vb_start vb \<le> a \<Longrightarrow> a \<le> vb_end vb \<Longrightarrow> a \<in> covered ds"
  shows "clean_outside env0 vss0 env1 vss1 ds r"
  unfolding clean_outside_def
proof (intro ballI impI)
  fix x assume x: "x \<in> set (request_visits False vss1 (fst r) (snd r))" "visit_resident (request_gpu vss1 (fst r) zero_uuid) x"
    and out: "list_all (\<lambda>d. \<not> (fst d \<le> snd x \<and> snd x < fst d + snd d)) ds"
  obtain vs where vs: "vss1 = [vs]" using assms(2) by (auto simp: one_process_def length_Suc_conv)
  have "x \<notin> set (request_visits True vss1 (fst r) (snd r))"
  proof
    assume m: "x \<in> set (request_visits True vss1 (fst r) (snd r))"
    then obtain j vs' where f: "find_va_space vss1 (fst r) 0 = Some (j, vs')" "(fst x, snd x) \<in> set (scan_list True vs' (fst r) (range_end (fst r) (snd r)))"
      by (auto simp: request_visits_def split: option.splits prod.splits dest: sym)
    then have v: "vs' = vs" using find_va_space_mem [OF f(1)] by (simp add: vs)
    note sm = scan_list_mem [OF f(2)]
    have w: "vs_wf vs" using assms(3) by (simp add: request_ok_def vs)
    have mb: "fst x \<in> set (managed_blocks (hd vss1))" using sm(1) blocks_in_wf(2) [OF w] by (auto simp: v vs)
    have al: "vb_start (fst x) mod PAGE_SIZE = 0" "fst r mod PAGE_SIZE = 0" using w mb assms(3) by (simp_all add: vs_wf_def vs request_ok_def)
    have "vb_start (fst x) \<le> snd x \<and> snd x \<le> vb_end (fst x)" using block_pages_props(4,5) [OF sm(2) al] by blast
    with mb have "snd x \<in> covered ds" using assms(4) sm(3) request_visits_in [OF assms(3) x(1)] by simp
    then show False using out by (auto simp: list_all_iff)
  qed
  then show "\<exists>y \<in> set (request_visits False vss0 (fst r) (snd r)). snd y = snd x \<and> visit_resident (request_gpu vss0 (fst r) zero_uuid) y \<and>
      visit_content env0 (request_gpu vss0 (fst r) zero_uuid) y = visit_content env1 (request_gpu vss1 (fst r) zero_uuid) x"
    using assms(1) x by (auto simp: clean_blocks_def list_all_iff list_ex_iff)
qed

text \<open>What the run relies on: well-formed va spaces of one process on the 2 MB grid, the same managed ranges at both moments,
  arrays and buffers that do not overlap, and a dirty array that holds all dirty blocks.\<close>

definition core_ok :: "core_env \<Rightarrow> alloc_entry list \<Rightarrow> nat \<Rightarrow> nat \<Rightarrow> va_space list \<Rightarrow> va_space list \<Rightarrow> va_space list \<Rightarrow> bool" where
  "core_ok ce allocs uva usz vss vss0 vss1 \<longleftrightarrow>
     vss_ok vss0 \<and> vss_ok vss1 \<and> csl_ok (ce_base ce) \<and> csl_ok (ce_delta ce) \<and> (\<forall>d i len. bufs_ok len (ce_bufs ce d i len)) \<and> arrays_apart ce \<and>
     one_process vss1 \<and> on_grid vss1 \<and> allocs_fit allocs uva usz vss1 \<and> managed_pairs vss1 = managed_pairs vss \<and>
     (\<exists>buf. ce_dirty ce = Some buf \<and> dirty_buf_ok (ce_delta ce) buf (max_dirty (u64 (sum_list (map snd (core_ranges allocs uva usz vss)))))) \<and>
     length (dirty_addresses vss1) \<le> max_dirty (u64 (sum_list (map snd (core_ranges allocs uva usz vss)))) \<and> length (dirty_addresses vss1) < 2 ^ 32"

lemma core_ok_facts:
  assumes "core_ok ce allocs uva usz vss vss0 vss1"
  shows "vss_ok vss0" "vss_ok vss1" "csl_ok (ce_base ce)" "csl_ok (ce_delta ce)" "\<And>d i len. bufs_ok len (ce_bufs ce d i len)" "arrays_apart ce"
      "one_process vss1" "on_grid vss1" "allocs_fit allocs uva usz vss1" "managed_pairs vss1 = managed_pairs vss" "length (dirty_addresses vss1) < 2 ^ 32"
    and "core_ranges allocs uva usz vss1 = core_ranges allocs uva usz vss"
    and "r \<in> set (core_ranges allocs uva usz vss) \<Longrightarrow> r \<in> set (managed_pairs vss1)"
  using assms by (auto simp: core_ok_def core_ranges_def)

text \<open>The two files hold snapshots of the kept ranges and of the merged regions.\<close>

lemma core_run_images:
  assumes "core_run ce allocs uva usz app1 app2 vss m old oldd = out" "cr_ok out"
    and "vss0 = app1 (fst (snd (uvm_api_live_migration_prepare_all (ce_start ce) (ce_map ce) vss)))" "vss1 = app2 vss0"
    and "core_ok ce allocs uva usz vss vss0 vss1"
  defines "rgs \<equiv> core_ranges allocs uva usz vss" and "drgs \<equiv> delta_regions False allocs uva usz (dirty_addresses vss1)"
  obtains caps dcaps junk dn where "list_all2 (snap_cap (ce_base ce) vss0) rgs caps" "list_all2 (snap_cap (ce_delta ce) vss1) drgs dcaps"
    "file_list (cr_base out) = base_image caps 2 @ junk" "file_list (cr_delta out) = delta_image dcaps uva usz dn @ []" "length rgs \<le> MAX_RANGES"
proof -
  note ok = core_ok_facts [OF assms(5)]
  note pr = one_process_pairs [OF ok(7)]
  obtain rs0 m1 filt caps m2 dirty m3 dcaps m4 where st: "get_ranges ce vss m = Some (rs0, m1)" "filt = fst (filter_ranges False False allocs uva usz rs0)"
    "capture_all (ce_base ce) vss0 (ce_bufs ce False) 0 filt m1 = (Some caps, m2)" "write_baseline (ce_io ce False) caps 2 old = (True, cr_base out)"
    "get_dirty ce vss1 (max_dirty (u64 (sum_list (map snd filt)))) m2 = Some (dirty, m3)"
    "capture_all (ce_delta ce) vss1 (ce_bufs ce True) 0 (delta_regions False allocs uva usz dirty) m3 = (Some dcaps, m4)"
    "write_delta (ce_io ce True) dcaps uva usz (length (filter (dirty_kept False allocs uva usz) dirty)) oldd = (True, cr_delta out)"
    using core_run_steps [OF assms(1-4)] .
  have p64: "\<forall>r \<in> set (managed_pairs vss). fst r < 2 ^ 64" using pr(2) unfolding ok(10) by (meson le_add1 le_less_trans)
  note gr = get_ranges_managed [OF st(1) ok(6) p64]
  have f: "filt = rgs" unfolding st(2) filter_ranges_kept gr(1) rgs_def core_ranges_def ..
  have lr: "length rgs \<le> MAX_RANGES" using le_trans [OF length_filter_le gr(2) [unfolded gr(1)]] by (simp add: rgs_def core_ranges_def)
  obtain buf where buf: "ce_dirty ce = Some buf" "dirty_buf_ok (ce_delta ce) buf (max_dirty (u64 (sum_list (map snd filt))))"
      "length (dirty_addresses vss1) \<le> max_dirty (u64 (sum_list (map snd filt)))" using assms(5) unfolding core_ok_def f rgs_def by blast
  have d: "dirty = dirty_addresses vss1" by (rule get_dirty_addresses [OF st(5) buf core_dirty_bound [OF ok(7,2,8)]])
  have b64: "\<forall>r \<in> set rgs. fst r + snd r < 2 ^ 64" using pr(2) ok(13) unfolding rgs_def by blast
  have c0: "list_all2 (snap_cap (ce_base ce) vss0) rgs caps" by (rule capture_all_snaps [OF ok(1,3,5) st(3) [unfolded f] b64])
  have c1: "list_all2 (snap_cap (ce_delta ce) vss1) drgs dcaps"
    by (rule capture_all_snaps [OF ok(2,4,5) st(6) [unfolded d, folded drgs_def]]) (use core_regions(3) [OF ok(7,2,8,9)] in \<open>unfold drgs_def, blast\<close>)
  obtain j0 where fb: "file_list (cr_base out) = base_image caps 2 @ j0" using take_prefix [OF write_baseline_success(1) [OF st(4)]] by blast
  obtain dn where fd: "file_list (cr_delta out) = delta_image dcaps uva usz dn @ []" using write_delta_success [OF st(7)] by simp
  show thesis by (rule that [OF c0 c1 fb fd lr])
qed


section \<open>A sample run\<close>

text \<open>One page on GPU 1 in a 2 MB range: prepared, then written after a fault, by an application that runs before the boundary.\<close>

definition wide_vs :: "va_block \<Rightarrow> bool \<Rightarrow> va_space" where
  "wide_vs vb t = sample_vs\<lparr>vs_ranges := [sample_range\<lparr>vr_end := 4194303, vr_blocks := [vb]\<rparr>], vs_tracking_active := t\<rparr>"

definition core_bufs :: buf_addrs where
  "core_bufs = (Some 65536, Some 67108864, Some 134217728)"

definition sample_core :: core_env where
  "sample_core = \<lparr>ce_start = sample_env, ce_base = sample_env, ce_delta = sample_env, ce_map = sample_me, ce_bases = 4096, ce_sizes = 8192, ce_dirty = Some 16384,
     ce_regions = True, ce_caps = (\<lambda>_. True), ce_bufs = (\<lambda>d i len. if len = 2097152 then core_bufs else (None, None, None)), ce_io = (\<lambda>_. good_io)\<rparr>"

text \<open>A block with one page, on GPU 1.\<close>

definition page_on_gpu :: "va_block \<Rightarrow> bool" where
  "page_on_gpu vb \<longleftrightarrow> vb_start vb = 2097152 \<and> vb_end vb = 2101247 \<and> \<not> vb_cpu_resident vb 0 \<and>
     (\<exists>bits. vb_gpu_state vb = [1 \<mapsto> \<lparr>gs_resident = (\<lambda>p. p = 0), gs_pte_bits = bits, gs_phys = (\<lambda>p. \<lparr>pa_aperture = 1, pa_address = 65536 + 4096 * p\<rparr>)\<rparr>])"

lemma single_entry [simp]: "([k \<mapsto> x] = [k \<mapsto> y]) = (x = y)"
  by (auto dest: map_upd_eqD1)

lemma page_samples: "page_on_gpu sample_block" "page_on_gpu sample_block1" "page_on_gpu sample_block2" "is_dirty_block sample_block2"
  by (simp_all add: page_on_gpu_def is_dirty_block_def sample_block2_def sample_fault_def finish_defs map_defs revoke_defs Let_def sample_block1_def
        sample_defs gpu_st_def set_gpu_st_def)

lemma wide_managed: "managed_blocks (wide_vs vb t) = [vb]" "managed_pairs [wide_vs vb t] = [(2097152, 2097152)]"
  by (simp_all add: managed_blocks_def managed_pairs_def wide_vs_def sample_range_def is_managed_def u64_def)

lemma wide_vss:
  assumes "page_on_gpu vb"
  shows "vss_ok [wide_vs vb t]" "one_process [wide_vs vb t]" "on_grid [wide_vs vb t]" "allocs_fit [demo_alloc] 0 0 [wide_vs vb t]"
proof -
  have "vs_wf (wide_vs vb t)" using assms by (simp add: vs_wf_def wide_managed page_on_gpu_def)
  then show "vss_ok [wide_vs vb t]"
    using assms by (auto simp: vss_ok_def wide_managed page_on_gpu_def) (auto simp: wide_vs_def sample_range_def split: if_splits)
  show "one_process [wide_vs vb t]" by (simp add: one_process_def wide_vs_def sample_range_def)
  show "on_grid [wide_vs vb t]" using assms by (simp add: on_grid_def wide_managed page_on_gpu_def)
  show "allocs_fit [demo_alloc] 0 0 [wide_vs vb t]" by (simp add: allocs_fit_def wide_managed fits_def demo_alloc_def)
qed

lemma wide_find: "find_va_space [wide_vs vb t] 2097152 0 = Some (0, wide_vs vb t)"
  by (simp add: uvm_va_range_find_def wide_vs_def sample_range_def)

lemma wide_visits:
  assumes "page_on_gpu vb"
  shows "request_visits d [wide_vs vb t] 2097152 2097152 = (if d \<longrightarrow> is_dirty_block vb then [(vb, 2097152)] else [])"
  using assms unfolding page_on_gpu_def
  by (simp add: request_visits_def wide_find del: find_va_space.simps)
     (simp add: scan_list_def blocks_in_def va_ranges_in_def wide_vs_def sample_range_def is_managed_def range_end_def u64_def block_pages_def)

lemma wide_resident:
  assumes "page_on_gpu vb"
  shows "visit_resident (request_gpu [wide_vs vb t] 2097152 zero_uuid) (vb, 2097152)"
  using assms unfolding page_on_gpu_def
  by (simp add: visit_resident_def gpu_visit_def cpu_visit_def is_gpu_page_def is_cpu_page_def request_gpu_def wide_find resolve_gpu_def page_index_def del: find_va_space.simps)
     (auto simp: wide_vs_def sample_vs_def)

lemma wide_capture:
  assumes "page_on_gpu vb"
  shows "\<exists>c m'. capture_range sample_env [wide_vs vb t] core_bufs 2097152 2097152 m = (Some c, m')"
proof -
  let ?pr = "capture_params 2097152 2097152 65536 67108864 134217728"
  define q where "q = n_pages ?pr * META_SIZE"
  let ?pr' = "?pr\<lparr>rp_crypto_meta_size := q\<rparr>"
  have po: "params_ok [wide_vs vb t] ?pr'"
    using wide_vss(1) [OF assms] by (auto simp: params_ok_def request_ok_def vss_ok_def capture_params_def)
  have "request_live sample_env [wide_vs vb t] ?pr'"
    using sample_env_copy po
    by (simp add: request_live_def n_pages_def q_def request_gpu_def capture_params_def wide_find resolve_gpu_def del: find_va_space.simps)
       (simp add: sample_env_def wide_vs_def sample_vs_def)
  from resident_live [OF this] have l: "rr_status (uvm_api_live_migration_read_pages_resident sample_env [wide_vs vb t] ?pr' m0) = NV_OK" for m0 .
  have f: "rp_base ?pr' = rp_base ?pr" "rp_length ?pr' = rp_length ?pr" "rp_cpu_buf ?pr' = rp_cpu_buf ?pr"
    "rp_gpu_buf ?pr' = rp_gpu_buf ?pr" "rp_residency_map ?pr' = rp_residency_map ?pr" "rp_gpu_uuid ?pr' = rp_gpu_uuid ?pr"
    by simp_all
  have "uvm_api_live_migration_read_pages_resident sample_env [wide_vs vb t] ?pr' m0 = uvm_api_live_migration_read_pages_resident sample_env [wide_vs vb t] ?pr m0" for m0
    unfolding uvm_api_live_migration_read_pages_resident_def read_check_def n_pages_def page_cap0_def exit109_def copy_results_def copy_resmap_def f simp_thms if_False if_True
    by simp
  then show ?thesis using l by (simp add: capture_range_def core_bufs_def Let_def)
qed

lemma core_bufs_ok: "bufs_ok 2097152 core_bufs" "bufs_ok len (ce_bufs sample_core d i len)"
  by (simp_all add: bufs_ok_def core_bufs_def sample_core_def)

lemma wide_cap:
  assumes "capture_range sample_env [wide_vs vb t] core_bufs 2097152 2097152 m = (Some c, m')" "page_on_gpu vb"
  shows "cap_wf c" "cap_bytes c < 2 ^ 32"
proof -
  note w = wide_vss(1) [OF assms(2), of t]
  note f = capture_range_facts [OF assms(1) w sample_env_csl core_bufs_ok(1)]
  show "cap_wf c" using capture_range_ok [OF assms(1) w sample_env_csl core_bufs_ok(1)] by (simp add: cap_ok_def)
  have "rc_cpu_bytes c \<le> 2097152" "rc_gpu_bytes c \<le> 2097152"
    using arg_cong [OF f(12), of length] arg_cong [OF f(13), of length] f(8-11) by simp_all
  then show "cap_bytes c < 2 ^ 32" using f(4,6) by (simp add: cap_bytes_def cap_meta_bytes_def)
qed

lemma wide_prepare: "prepare_va_space_for_migration sample_me (wide_vs sample_block False) = (NV_OK, wide_vs sample_block1 True)"
  by (simp add: prepare_va_space_for_migration_def wide_vs_def sample_vs_def sample_range_def is_managed_def sample_revoke Let_def del: One_nat_def)
     (simp add: sample_me_def)

abbreviation core_start :: "va_space list" where
  "core_start \<equiv> [wide_vs sample_block False]"

abbreviation core_write :: "va_space list \<Rightarrow> va_space list" where
  "core_write \<equiv> map (\<lambda>vs. set_block vs 0 0 sample_block2)"

lemma core_moments:
  "uvm_api_live_migration_prepare_all sample_env sample_me core_start = (NV_OK, [wide_vs sample_block1 True], [GLock, GUnlock, DownWrite 0, UpWrite 0])"
  "core_write [wide_vs sample_block1 True] = [wide_vs sample_block2 True]"
  by (simp add: uvm_api_live_migration_prepare_all_def wide_prepare sample_env_def) (simp add: wide_vs_def set_block_def)

lemma core_sample_ranges:
  "core_ranges [demo_alloc] 0 0 core_start = [(2097152, 2097152)]" "keep_range [demo_alloc] 0 0 (2097152, 2097152) \<noteq> None"
  "delta_regions False [demo_alloc] 0 0 (dirty_addresses [wide_vs sample_block2 True]) = [(2097152, 2097152)]"
  "dirty_addresses [wide_vs sample_block2 True] = [2097152]"
proof -
  show k: "keep_range [demo_alloc] 0 0 (2097152, 2097152) \<noteq> None" by (simp add: keep_range_def in_alloc_def demo_alloc_def u64_def)
  then show "core_ranges [demo_alloc] 0 0 core_start = [(2097152, 2097152)]" by (simp add: core_ranges_def wide_managed)
  show d: "dirty_addresses [wide_vs sample_block2 True] = [2097152]"
    using page_samples(3,4) by (simp add: dirty_addresses_def wide_managed page_on_gpu_def)
  show "delta_regions False [demo_alloc] 0 0 (dirty_addresses [wide_vs sample_block2 True]) = [(2097152, 2097152)]"
    unfolding d by (simp add: delta_regions_def dirty_kept_def in_alloc_def demo_alloc_def u64_def)
qed

lemma core_sample_ok: "core_ok sample_core [demo_alloc] 0 0 core_start [wide_vs sample_block1 True] [wide_vs sample_block2 True]"
proof -
  have "arrays_apart sample_core" by (simp add: arrays_apart_def sample_core_def)
  moreover have "ce_dirty sample_core = Some 16384" "dirty_buf_ok (ce_delta sample_core) 16384 33" "ce_base sample_core = sample_env" "ce_delta sample_core = sample_env"
    by (simp_all add: sample_core_def dirty_buf_ok_def sample_env_def)
  moreover have "max_dirty (u64 (sum_list (map snd [(2097152 :: nat, 2097152)]))) = 33" by (simp add: max_dirty_def u64_def)
  ultimately show ?thesis
    using wide_vss [OF page_samples(2)] wide_vss [OF page_samples(3)] sample_env_csl core_bufs_ok(2)
    unfolding core_ok_def core_sample_ranges wide_managed by simp
qed

lemma core_sample_get_ranges: "\<exists>m1. get_ranges sample_core core_start m = Some ([(2097152, 2097152)], m1)"
proof -
  have "get_ranges sample_core core_start m \<noteq> None"
    by (simp add: get_ranges_def uvm_api_live_migration_get_va_ranges_def sample_core_def sample_env_def Let_def wide_vs_def sample_vs_def sample_range_def is_managed_def)
  then obtain rs m1 where g: "get_ranges sample_core core_start m = Some (rs, m1)" by auto
  have "arrays_apart sample_core" by (simp add: arrays_apart_def sample_core_def)
  from get_ranges_managed(1) [OF g this] g show ?thesis by (simp add: wide_managed)
qed

lemma core_sample_get_dirty: "\<exists>m1. get_dirty sample_core [wide_vs sample_block2 True] 33 m = Some ([2097152], m1)"
proof -
  have b: "ce_dirty sample_core = Some 16384" "dirty_buf_ok (ce_delta sample_core) 16384 33" by (simp_all add: sample_core_def dirty_buf_ok_def sample_env_def)
  obtain st n m' ops where r: "uvm_api_live_migration_get_dirty_pages (ce_delta sample_core) [wide_vs sample_block2 True] 16384 33 m = (st, n, m', ops)"
    by (metis prod_cases4)
  have l: "length (dirty_addresses [wide_vs sample_block2 True]) \<le> 33" by (simp add: core_sample_ranges)
  from get_dirty_pages_all [OF b(2) l r] have "st = NV_OK" by simp
  then obtain ds where g: "get_dirty sample_core [wide_vs sample_block2 True] 33 m = Some (ds, m')" using r b(1) by (simp add: get_dirty_def)
  have "ds = dirty_addresses [wide_vs sample_block2 True]" by (rule get_dirty_addresses [OF g b l]) (simp add: core_sample_ranges)
  then show ?thesis using g by (simp add: core_sample_ranges)
qed

lemma core_sample_run:
  "\<exists>out. core_run sample_core [demo_alloc] 0 0 id core_write core_start m \<lparr>fl_size = 0, fl_bytes = z\<rparr> \<lparr>fl_size = 0, fl_bytes = z\<rparr> = out \<and> cr_ok out \<and>
     fl_size (cr_base out) < 2 ^ 64 \<and> fl_size (cr_delta out) < 2 ^ 64"
proof -
  let ?old = "\<lparr>fl_size = 0, fl_bytes = z\<rparr>" and ?rs = "[(2097152 :: nat, 2097152 :: nat)]"
  obtain m1 where r: "get_ranges sample_core core_start m = Some (?rs, m1)" using core_sample_get_ranges by blast
  have f: "fst (filter_ranges False False [demo_alloc] 0 0 ?rs) = ?rs" using core_sample_ranges(2) unfolding filter_ranges_kept by simp
  obtain c m2 where c: "capture_range sample_env [wide_vs sample_block1 True] core_bufs 2097152 2097152 m1 = (Some c, m2)" using wide_capture [OF page_samples(2)] by blast
  obtain fb where fb: "write_baseline good_io [c] 2 ?old = (True, fb)" using good_io_writes(1) [of "[c]" 2 ?old] by (metis prod.collapse)
  obtain m3 where d: "get_dirty sample_core [wide_vs sample_block2 True] 33 m2 = Some ([2097152], m3)" using core_sample_get_dirty by blast
  obtain c' m4 where c': "capture_range sample_env [wide_vs sample_block2 True] core_bufs 2097152 2097152 m3 = (Some c', m4)" using wide_capture [OF page_samples(3)] by blast
  obtain fd where fd: "write_delta good_io [c'] 0 0 1 ?old = (True, fd)" using good_io_writes(2) [of "[c']" 0 0 1 ?old] by (metis prod.collapse)
  have e: "ce_start sample_core = sample_env" "ce_base sample_core = sample_env" "ce_delta sample_core = sample_env" "ce_map sample_core = sample_me" "ce_regions sample_core"
      "ce_caps sample_core x" "ce_bufs sample_core y i 2097152 = core_bufs" "ce_io sample_core y = good_io" for x y i by (simp_all add: sample_core_def)
  have k: "length (filter (dirty_kept False [demo_alloc] 0 0) [2097152]) = 1" "u64 2097152 = 2097152" "max_dirty 2097152 = 33"
    by (simp_all add: dirty_kept_def in_alloc_def demo_alloc_def u64_def max_dirty_def)
  let ?out = "\<lparr>cr_ok = True, cr_base = fb, cr_delta = fd, cr_spaces = fst (snd (uvm_api_live_migration_finalize sample_env sample_me [wide_vs sample_block2 True]))\<rparr>"
  have "core_delta sample_core [demo_alloc] 0 0 2097152 [wide_vs sample_block2 True] m2 fb ?old = ?out"
    using c' fd unfolding core_delta_def Let_def e k d option.case prod.case core_sample_ranges(3) [unfolded core_sample_ranges(4)] capture_all.simps fst_conv snd_conv
    by (simp add: e)
  then have "core_run sample_core [demo_alloc] 0 0 id core_write core_start m ?old ?old = ?out"
    using c fb core_moments(2) unfolding core_run_def Let_def r option.case prod.case f e core_moments(1) capture_all.simps fst_conv snd_conv by (simp add: k e)
  moreover have "fl_size fb < 2 ^ 64"
    using arg_cong [OF write_baseline_success(2) [OF fb], of length] wide_cap [OF c page_samples(2)] length_cap_sections [of c] by (simp add: file_list_def base_image_def)
  moreover have "fl_size fd < 2 ^ 64"
    using arg_cong [OF write_delta_success [OF fd], of length] wide_cap [OF c' page_samples(3)] length_cap_sections [of c'] by (simp add: file_list_def delta_image_def)
  ultimately show ?thesis by simp
qed


end
