(* ===== verification/Spec2Isabelle.thy ===== *)
theory Spec2Isabelle
  imports Snapshots Bench_Decompose Stream_Props Encrypted_Checkpoint Block_Types Coalesced_Props Coalesced_Limits
    Restore_Selective_Encrypted Core_Run
begin

text \<open>
  Verification of FLASH, incremental checkpoints of GPU programs that use NVIDIA unified memory
  under confidential computing. The repository has two halves, and this library follows both.

  \<^bold>\<open>The driver\<close> (\<open>src/modified_driver_code/kernel-open/nvidia-uvm\<close>) is the UVM kernel module with live
  migration added. PREPARE (ioctl 101) revokes the GPUs' write permission on managed memory and turns
  tracking on; from then on the first GPU write to a 2 MB block faults, the fault handler records the
  block as dirty and gives the permission back. GET_DIRTY_PAGES (102) lists the dirty blocks,
  GET_VA_RANGES (106) the managed ranges, FINALIZE (104) ends tracking. The read ioctls copy a range out:
  pass 1 walks the blocks, packs the pages that are resident on the CPU into one buffer, writes a residency
  map and collects the physical addresses of the pages that are resident on the GPU; pass 2 coalesces
  these into runs, lets the copy engine encrypt each run into a DMA buffer, and delivers plaintext (109,
  114) or ciphertext with per-run metadata (111, 113, 115; 116 for dirty blocks only), with one thread or
  several. 112 decrypts what 115 delivered, 117 is a benchmark fork of 114 and 115.

  \<^bold>\<open>The checkpointer\<close> (\<open>src/benchmarks/flash\<close>) calls the ioctls. \<open>ckpt_core.c\<close> captures ranges and writes
  baseline and delta images, at once, with several writer threads, or as a stream; \<open>ckpt_crypto.c\<close> encrypts what
  the driver delivered as plaintext with a key of its own (k3); \<open>librst_vllm.c\<close> reads the
  images back, decrypts them with k3 or through ioctl 112, and gives the program its memory.

  \<^bold>\<open>Theories, in the order they build on each other.\<close>
  \<^item> \<open>Flash_Prelude\<close>: byte memories and their writes, little-endian fields, the split of work over threads
    (locale \<open>work_split\<close>), invariants of step relations (locale \<open>step_invariant\<close>), schedules of independent
    actions (locale \<open>indep_actions\<close>): actions on disjoint places have the same effect in every order.
  \<^item> \<open>Uvm_Model\<close>: va spaces, ranges, blocks, permissions (a linear order), locks, and \<open>uvm_env\<close>, the record of
    everything the modelled code calls and this repository does not contain: allocators, copy engine,
    CSL encryption, \<open>copy_to_user\<close>, the thread scheduler. \<open>csl_ok\<close> (decryption undoes encryption with the same
    key version, IV and tag, and keeps the length) and \<open>sched_ok\<close> (a schedule interleaves the threads)
    are the two facts about it that theorems assume; \<open>sample_env\<close> satisfies them.
  \<^item> \<open>Block_Perms\<close> (\<open>uvm_va_block.c\<close>): revoking and mapping permissions of a block, as masks per GPU.
  \<^item> \<open>Fault_Service\<close> (\<open>uvm_va_block_service_finish\<close>, \<open>uvm_live_migration_record_write_fault\<close>): what a fault
    does to permissions and to the dirty flag.
  \<^item> \<open>Dirty_Tracking\<close>: ioctls 101, 102, 104, 106, block creation, and the step relation of everything that can
    happen while tracking is on. The invariant is that a block a GPU can write is marked dirty. \<open>Block_Types\<close>: the
    type invariant of blocks (nested page-table masks, mapped pages resident), kept by all of these operations.
  \<^item> \<open>Residency_Scan\<close> (\<open>lm_mt_pass1\<close> and its three copies), \<open>Run_List\<close> (\<open>lm_mt_build_runs\<close>), \<open>Copy_Pipeline\<close> and
    \<open>Copy_Effects\<close> (\<open>lm_mt_worker_fn\<close>, \<open>lm_mt_run_workers\<close>): the passes. A worker is a list of actions
    (submit, wait, copy out, set metadata); memory changes by the actions of all workers as scheduled.
  \<^item> \<open>Read_Ioctls\<close>, \<open>Read_Correct\<close>, \<open>Read_Props\<close>: the six read ioctls, what they leave in user memory,
    their agreement, refusals, locks, bounds and liveness. \<open>Bench_Decompose\<close>: ioctl 117.
    \<open>Decrypt_Ioctl\<close>: ioctl 112, inverse to 115, and its overflow.
  \<^item> \<open>Image_Format\<close>: image layouts and the writers \<open>write_baseline\<close>, \<open>write_delta\<close>, \<open>write_delta_parallel\<close>.
    \<open>Stream_Queue\<close> (ring buffer and buffer pool, with the locales \<open>bounded_fifo\<close> and \<open>slot_pool\<close> as contracts),
    \<open>Stream_Writer\<close> (threads as a step relation with condition variables), \<open>Stream_Inv\<close> (ownership of slots, data still
    to be copied, who wakes whom), \<open>Stream_Props\<close>: the streaming writer.
  \<^item> \<open>Restore_Image\<close>, \<open>Restore_Selective\<close> (\<open>librst_vllm.c\<close>): the restores of plaintext images, refining the
    specification \<open>overlay\<close> that lays captures over a flat memory; the locale \<open>range_assembly\<close> is the contract between
    the loops over ranges and blocks and what restores one of them. \<open>Capture_Range\<close>: \<open>capture_range\<close>, which
    connects ioctl 109 to the captures the images are made of. \<open>Snapshots\<close>: snapshots of a later moment over
    snapshots of an earlier one.
  \<^item> \<open>Capture_Encrypted\<close>: \<open>capture_range_encrypted\<close> (ioctl 115) into pool slots or own buffers, and the stream of such captures.
  \<^item> \<open>Ckpt_Crypto\<close> (\<open>ckpt_crypto.c\<close>; locale \<open>page_job\<close> for what encryption and decryption of pages share),
    \<open>Encrypt_Captures\<close> (\<open>encrypt_captures_batch\<close>, \<open>encrypt_cpu_pages_batch\<close>), \<open>Restore_Encrypted\<close>
    (\<open>ckpt_restore_from_files_encrypted\<close>), \<open>Restore_Selective_Encrypted\<close>
    (\<open>ckpt_restore_selective_encrypted\<close>), \<open>Encrypted_Checkpoint\<close>: the encrypted checkpoint from the va spaces through
    ciphertext images back to memory. OpenSSL is the record \<open>crypto_env\<close>; \<open>gcm_ok\<close> (decryption with the tag undoes encryption)
    and \<open>crypto_sched_ok\<close> are what theorems assume of it, and \<open>sample_crypto\<close> satisfies them.
  \<^item> \<open>Coalesced_Capture\<close> (\<open>capture_and_write_coalesced\<close>): one call of ioctl 115 or 116 over the span of all ranges, whose output
    is cut into ranges or regions. \<open>Coalesced_Slices\<close>: what a window of such a read holds. \<open>Coalesced_Checkpoint\<close>,
    \<open>Coalesced_Props\<close>: a dense baseline and a dirty-block delta restore the later moment; the premise on unchanged
    pages is then one on the blocks that are not dirty. \<open>Coalesced_Limits\<close>: what the cutting refuses.
  \<^item> \<open>Dirty_Regions\<close> (\<open>main\<close> of \<open>ckpt_core.c\<close>): which ranges and which dirty blocks are captured, how blocks are merged into regions,
    and the table of the precopy mode; where pages get lost. \<open>Core_Run\<close>: a plaintext checkpoint by \<open>main\<close>, from GET_VA_RANGES to
    FINALIZE, and the restore of its two files: the ranges and regions, and that the
    regions lie in the ranges, follow there from what the ioctls returned; what is left is a premise on the blocks that are not dirty.
  \<^item> This theory: the way from the driver's memory through plaintext images back to memory.

  \<^bold>\<open>Bounds and termination.\<close> There is no fuel: loops are structural recursions or functions with a
  termination proof, the streaming writer has a rank that every step lowers. Addresses and offsets the driver
  computes in 64 bits are wrapped where a request can make them wrap (\<open>u64\<close>, \<open>meta_alloc_size\<close>); theorems
  about successful reads ask for buffers that do not wrap. File offsets are not wrapped: an image is far
  smaller than \<open>2 ^ 64\<close>. Calls that can fail have both outcomes, and an out-of-bounds access is a value of its own.

  \<^bold>\<open>Not modelled.\<close> The rest of the UVM driver (page tables, channels, fault buffers, migration policy), of which the
  repository has unchanged vendor files: \<open>uvm_channel.c\<close>, \<open>uvm_gpu_replayable_faults.c\<close>, most of \<open>uvm_va_block.c\<close>;
  \<open>uvm.c\<close>, which only routes the ioctls. Of \<open>main\<close> in \<open>ckpt_core.c\<close> the command line, the handshake
  over the gate file, \<open>static.img\<close>, the order of its encrypted captures (which are modelled each for itself) and the timing output,
  the interposing libraries and agents (\<open>libckpt_vllm.c\<close>, \<open>libbaseline_uvm.c\<close>, \<open>ckpt_agent.c\<close>, \<open>restore_agent.c\<close>,
  \<open>ckpt_baseline.c\<close>), which are sockets, signals and \<open>dlsym\<close>; the emulations of other systems and the
  bandwidth benchmarks; Python scripts. Time stamps, debug output and freeing memory are left out everywhere.
\<close>

section \<open>Incremental checkpoints, end to end\<close>

text \<open>A capture of a range, taken into some buffers that \<open>malloc\<close> handed out.\<close>

definition captured :: "uvm_env \<Rightarrow> va_space list \<Rightarrow> nat \<times> nat \<Rightarrow> range_capture \<Rightarrow> bool" where
  "captured env vss r c \<longleftrightarrow> fst r + snd r < 2 ^ 64 \<and>
     (\<exists>bufs m m'. bufs_ok (snd r) bufs \<and> capture_range env vss bufs (fst r) (snd r) m = (Some c, m'))"

lemma captured_snap:
  assumes "captured env vss r c" "vss_ok vss" "csl_ok env"
  shows "snap_cap env vss r c"
proof -
  obtain bufs m m' where c: "bufs_ok (snd r) bufs" "capture_range env vss bufs (fst r) (snd r) m = (Some c, m')" "fst r + snd r < 2 ^ 64"
    using assms(1) by (auto simp: captured_def)
  note f = capture_range_facts [OF c(2) assms(2,3) c(1)] and ok = capture_range_ok [OF c(2) assms(2,3) c(1,3)]
  show ?thesis using f(1-3) ok c(3) by (simp add: snap_cap_def snap_def cap_end_def)
qed

lemma captured_list:
  assumes "list_all2 (captured env vss) rs cs" "vss_ok vss" "csl_ok env"
  shows "list_all2 (snap_cap env vss) rs cs"
  using assms(1) by (rule list_all2_mono) (rule captured_snap [OF _ assms(2,3)])

text \<open>
  C1: An incremental checkpoint restores the memory of the moment of the delta. Take plaintext captures of disjoint
  ranges in one state of the driver (\<open>env0\<close>, \<open>vss0\<close>), captures of some regions inside them in a later state
  (\<open>env1\<close>, \<open>vss1\<close>), write the first with the baseline writer and the second with the parallel delta writer (any
  chunking, thread count and schedule), and restore from the two files. If every page that is resident at the later
  moment and lies in no captured region has the contents it had at the first moment (what dirty tracking is for),
  then every page that is resident at the later moment is in a restored buffer, at its own address, with the
  contents it had at the later moment.
\<close>
theorem incremental_checkpoint:
  assumes "vss_ok vss0" "vss_ok vss1" "csl_ok env0" "csl_ok env1" "list_all2 (captured env0 vss0) rgs caps" "list_all2 (captured env1 vss1) drgs dcaps"
    and "ranges_disjoint rgs" "length rgs \<le> 256" "length drgs < 2 ^ 32"
    and "\<forall>d \<in> set drgs. \<exists>r \<in> set rgs. fst r \<le> fst d \<and> fst d + snd d \<le> fst r + snd r \<and> find_va_space vss1 (fst d) 0 = find_va_space vss1 (fst r) 0"
    and "write_baseline io caps ver old = (True, fb)" "write_delta_parallel io' dcaps va sz dirty old' = (True, fd)" "\<not> io_no_image_write io'"
    and "\<forall>ws. io_sched io' ws \<in> interleave ws" "fl_size fb < 2 ^ 64" "fl_size fd < 2 ^ 64"
    and "qsort_ok renv" "ckpt_restore_from_files renv (file_list fb) (file_list fd) = Done gs"
    and "\<forall>r \<in> set rgs. clean_outside env0 vss0 env1 vss1 drgs r"
    and "r \<in> set rgs" "x \<in> set (request_visits False vss1 (fst r) (snd r))" "visit_resident (request_gpu vss1 (fst r) zero_uuid) x"
  shows "\<exists>g \<in> set gs. g_va g \<le> snd x \<and> snd x + PAGE_SIZE \<le> g_va g + g_sz g \<and>
    read_mem (g_mem g) (snd x - g_va g) PAGE_SIZE = visit_content env1 (request_gpu vss1 (fst r) zero_uuid) x"
proof -
  note c0 = captured_list [OF assms(5,1,3)] and c1 = captured_list [OF assms(6,2,4)]
  have len: "length caps \<le> MAX_RANGES" "length dcaps < 2 ^ 32" using assms(5,6,8,9) by (auto dest: list_all2_lengthD)
  have bound: "length (file_list fb) < 2 ^ 64" "length (file_list fd) < 2 ^ 64" using assms(15,16) by (simp_all add: file_list_def)
  obtain j0 where fb: "file_list fb = base_image caps ver @ j0" using take_prefix [OF write_baseline_success(1) [OF assms(11)]] by blast
  have all: "\<forall>c \<in> set caps \<union> set dcaps. cap_ok c" using snap_caps(1) [OF c0] snap_caps(1) [OF c1] by auto
  then have "\<forall>c \<in> set dcaps. cap_wf c" by (simp add: cap_ok_def)
  then obtain j1 where fd: "file_list fd = delta_image dcaps va sz dirty @ j1"
    using take_prefix [OF write_delta_parallel_success [OF assms(12,13) _ assms(14)]] by blast
  note main = restore_main [OF all snap_caps_disjoint [OF c0 assms(7)] len inside_covered [OF snap_caps_inside [OF c0 c1 assms(10)]] assms(17) fb bound(1) fd bound(2)]
  have "groups_hold gs (fold apply_cap dcaps (fold apply_cap caps (\<lambda>_. 0)))"
    "\<forall>c \<in> set caps. \<exists>x \<in> set (map shape gs). fst x \<le> rc_base c \<and> cap_end c \<le> fst x + snd x"
    using main assms(18) by auto
  from snaps_restored [OF assms(1,2) c0 c1 assms(7) inside_same_space [OF assms(7,10)] assms(19-22) this] show ?thesis .
qed

lemma sample_cap_bytes:
  assumes "capture_range sample_env [sample_vs] (Some 65536, Some 8192, Some 1048576) 2097152 4096 m = (Some c, m')"
  shows "cap_bytes c < 2 ^ 32"
proof -
  note f = capture_range_facts [OF assms sample_vss sample_env_csl sample_bufs]
  have "rc_cpu_bytes c \<le> 4096" "rc_gpu_bytes c \<le> 4096"
    using arg_cong [OF f(12), of length] arg_cong [OF f(13), of length] f(8-11) by simp_all
  then show ?thesis using f(4,6) by (simp add: cap_bytes_def cap_meta_bytes_def)
qed

theorem incremental_checkpoint_witness:
  "\<exists>c fb fd gs. captured sample_env [sample_vs] (2097152, 4096) c \<and>
     write_baseline good_io [c] 2 \<lparr>fl_size = 0, fl_bytes = (\<lambda>_. 0)\<rparr> = (True, fb) \<and>
     write_delta_parallel good_io [c] 2097152 4096 1 \<lparr>fl_size = 0, fl_bytes = (\<lambda>_. 0)\<rparr> = (True, fd) \<and>
     ckpt_restore_from_files good_rst (file_list fb) (file_list fd) = Done gs \<and>
     (\<exists>g \<in> set gs. g_va g \<le> 2097152 \<and> 2097152 + PAGE_SIZE \<le> g_va g + g_sz g \<and>
        read_mem (g_mem g) (2097152 - g_va g) PAGE_SIZE = visit_content sample_env (request_gpu [sample_vs] 2097152 zero_uuid) (sample_block, 2097152))"
proof -
  obtain c m' where c: "capture_range sample_env [sample_vs] (Some 65536, Some 8192, Some 1048576) 2097152 4096 (\<lambda>_. 0) = (Some c, m')"
    using sample_capture by blast
  then have cap: "captured sample_env [sample_vs] (2097152, 4096) c"
    using sample_bufs unfolding captured_def fst_conv snd_conv by (intro conjI exI [of _ "(Some 65536, Some 8192, Some 1048576)"]) auto
  let ?old = "\<lparr>fl_size = 0, fl_bytes = (\<lambda>_. 0)\<rparr>"
  obtain fb where fb: "write_baseline good_io [c] 2 ?old = (True, fb)" using good_io_writes(1) [of "[c]" 2 ?old] by (metis prod.collapse)
  obtain fd where fd: "write_delta_parallel good_io [c] 2097152 4096 1 ?old = (True, fd)" using good_io_writes(3) [of "[c]"] by (metis prod.collapse)
  have f: "cap_ok c" using captured_snap [OF cap sample_vss sample_env_csl] by (simp add: snap_cap_def)
  then have wf: "cap_wf c" by (simp add: cap_ok_def)
  have bytes: "cap_bytes c < 2 ^ 32" by (rule sample_cap_bytes [OF c])
  have szb: "fl_size fb < 2 ^ 64"
    using arg_cong [OF write_baseline_success(2) [OF fb], of length] bytes length_cap_sections [OF wf]
    by (simp add: file_list_def base_image_def)
  have szd: "fl_size fd < 2 ^ 64"
    using fd bytes by (auto simp: write_delta_parallel_def Let_def file_resize_def delta_data_off_def cap_bytes_def par_meta [OF wf])
  have la: "list_all2 (captured sample_env [sample_vs]) [(2097152, 4096)] [c]" using cap by simp
  have h: "ranges_disjoint [(2097152, 4096)]" "length [(2097152::nat, 4096::nat)] \<le> 256" "length [(2097152::nat, 4096::nat)] < 2 ^ 32"
    "\<forall>d \<in> set [(2097152::nat, 4096::nat)]. \<exists>r \<in> set [(2097152, 4096)]. fst r \<le> fst d \<and> fst d + snd d \<le> fst r + snd r \<and>
       find_va_space [sample_vs] (fst d) 0 = find_va_space [sample_vs] (fst r) 0"
    "\<not> io_no_image_write good_io" "\<forall>ws. io_sched good_io ws \<in> interleave ws"
    by (simp_all add: ranges_disjoint_def concat_in_interleave)
  have v: "(sample_block, 2097152) \<in> set (request_visits False [sample_vs] (fst (2097152, 4096)) (snd (2097152, 4096)))"
    "visit_resident (request_gpu [sample_vs] (fst (2097152, 4096::nat)) zero_uuid) (sample_block, 2097152)"
    using sample_page_resident by (simp_all add: sample_visits)
  obtain gs where gs: "ckpt_restore_from_files good_rst (file_list fb) (file_list fd) = Done gs"
  proof -
    obtain j where j: "file_list fd = delta_image [c] 2097152 4096 1 @ j"
      using take_prefix [OF write_delta_parallel_success [OF fd h(5) _ h(6)]] wf by auto
    have ok: "\<forall>x \<in> set [c] \<union> set [c]. cap_ok x" "pairwise_indep caps_disjoint [c]" "length [c] \<le> MAX_RANGES" "length [c] < 2 ^ 32"
      "\<forall>d \<in> set [c]. \<exists>e \<in> set [c]. rc_base e \<le> rc_base d \<and> cap_end d \<le> cap_end e" "file_list fb = base_image [c] 2 @ []"
      using f write_baseline_success(2) [OF fb] by (simp_all add: pairwise_indep_def)
    have sz: "length (file_list fb) < 2 ^ 64" "length (file_list fd) < 2 ^ 64" using szb szd by (simp_all add: file_list_def)
    show ?thesis
      using restore_main [OF ok(1-4) inside_covered [OF ok(5)] good_rst_qsort ok(6) sz(1) j sz(2)] that by (auto simp: good_rst_def all_alloc_def)
  qed
  have cl: "\<forall>r \<in> set [(2097152, 4096)]. clean_outside sample_env [sample_vs] sample_env [sample_vs] [(2097152, 4096)] r"
    using sample_clean by simp
  have "(2097152, 4096) \<in> set [(2097152::nat, 4096::nat)]" by simp
  note inc = incremental_checkpoint [OF sample_vss sample_vss sample_env_csl sample_env_csl la la h(1-4) fb fd h(5,6) szb szd good_rst_qsort gs cl this v]
  show ?thesis using cap fb fd gs inc by (metis fst_conv snd_conv)
qed

end
